(* ===== verification/Prelude.thy ===== *)
theory Prelude
  imports Main "HOL-Library.Word" "HOL-Library.Monad_Syntax"
begin

unbundle bit_operations_syntax

section \<open>Shared types, constants and lemmas\<close>

text \<open>
  The machine types of the TriCore port (\<open>portmacro.h\<close>): \<open>TickType_t\<close>, \<open>UBaseType_t\<close>,
  \<open>size_t\<close> and pointers are 32 bits wide.  A pointer is a 32 bit word whose value 0 is NULL.
  A \<open>BaseType_t\<close> that only ever holds \<open>pdTRUE\<close> or \<open>pdFALSE\<close> is a \<open>bool\<close>.
  A function of the source that may fail to return (a failed \<open>configASSERT\<close> ends in
  \<open>for(;;)\<close>, a loop over a damaged list runs for ever) has an \<open>option\<close> result, whose
  \<open>None\<close> is "does not return".
\<close>

type_synonym u32 = "32 word"
type_synonym u8 = "8 word"
type_synonym ptr = "32 word"

abbreviation NULL :: ptr where "NULL \<equiv> 0"

definition portMAX_DELAY :: u32 where
  "portMAX_DELAY = 0xffffffff"

definition configMAX_PRIORITIES :: nat where
  "configMAX_PRIORITIES = 6"

definition configASSERT :: "bool \<Rightarrow> unit option" where
  "configASSERT b = (if b then Some () else None)"

named_theorems kernel_defs "definitions a proof about the kernel unfolds"
named_theorems kernel_frames "fields that an operation does not write"

lemma configASSERT_bind [simp]:
  "(configASSERT b \<bind> (\<lambda>_. f)) = (if b then f else None)"
  by (simp add: configASSERT_def)

lemma configASSERT_Some [simp]: "configASSERT b = Some u \<longleftrightarrow> b"
  by (simp add: configASSERT_def)

subsection \<open>Words\<close>

lemma portMAX_DELAY_eq: "portMAX_DELAY = - 1"
  by (simp add: portMAX_DELAY_def)

lemma le_portMAX_DELAY [simp]: "x \<le> portMAX_DELAY"
  by (simp add: portMAX_DELAY_eq)

lemma portMAX_DELAY_le [simp]: "portMAX_DELAY \<le> x \<longleftrightarrow> x = portMAX_DELAY"
  using le_portMAX_DELAY by (auto intro: antisym)

lemma portMAX_DELAY_not_less [simp]: "\<not> portMAX_DELAY < x"
  by (simp add: not_less)

lemma less_portMAX_DELAY [simp]: "x < portMAX_DELAY \<longleftrightarrow> x \<noteq> portMAX_DELAY"
  by (simp add: less_le)

lemma of_nat_eq_0_small:
  "n < 2 ^ 32 \<Longrightarrow> (of_nat n :: u32) = 0 \<longleftrightarrow> n = 0"
  by (auto simp: word_of_nat_eq_0_iff dest: nat_dvd_not_less)

text \<open>Alignment masks and the top bit, in terms of the unsigned value.\<close>

lemma unat_and_3: "unat ((x::u32) AND 3) = unat x mod 4"
proof -
  have "x AND 3 = take_bit 2 x" by (simp add: take_bit_eq_mask mask_eq_exp_minus_1)
  then have "x AND 3 = x mod 4" by (simp add: take_bit_eq_mod)
  then show ?thesis by (simp add: unat_mod)
qed

lemma and_3_eq_0: "(x::u32) AND 3 = 0 \<longleftrightarrow> unat x mod 4 = 0"
  by (metis unat_and_3 unat_eq_zero)

lemma and_not_eq: "(x::u32) AND NOT y = x - (x AND y)"
proof -
  have "(x AND NOT y) AND (x AND y) = 0" by (auto simp: bit_eq_iff bit_simps)
  then have "(x AND NOT y) + (x AND y) = (x AND NOT y) OR (x AND y)"
    by (rule disjunctive_add_eq_or)
  also have "\<dots> = x" by (auto simp: bit_eq_iff bit_simps)
  finally show ?thesis by (simp add: eq_diff_eq)
qed

lemma unat_and_not_3: "unat ((x::u32) AND NOT 3) = unat x - unat x mod 4"
proof -
  have "x AND 3 \<le> x" by (simp add: word_le_nat_alt unat_and_3)
  then have "unat (x - (x AND 3)) = unat x - unat (x AND 3)" by (rule unat_sub)
  then show ?thesis by (simp only: and_not_eq unat_and_3)
qed

lemma bit_top: "bit (0x80000000::u32) n \<longleftrightarrow> n = 31"
proof -
  have "(0x80000000::u32) = 2 ^ 31" by simp
  then show ?thesis by (simp only: bit_exp_iff) (auto simp: bit_simps)
qed

lemma bit_31: "bit (x::u32) 31 \<longleftrightarrow> 2 ^ 31 \<le> unat x"
proof -
  have "bit x 31 \<longleftrightarrow> bit (unat x) 31" by (simp add: bit_unsigned_iff)
  also have "\<dots> \<longleftrightarrow> odd (unat x div 2 ^ 31)" by (simp add: bit_iff_odd)
  moreover have "unat x < 2 ^ 32" using unsigned_less [of x] by simp
  then have "unat x div 2 ^ 31 < 2" by (simp add: less_mult_imp_div_less)
  ultimately show ?thesis by (auto simp: less_2_cases_iff)
qed

lemma top_bit_clear: "(x::u32) AND 0x80000000 = 0 \<longleftrightarrow> unat x < 2 ^ 31"
proof -
  have "x AND 0x80000000 = 0 \<longleftrightarrow> \<not> bit x 31"
  proof
    assume "x AND 0x80000000 = 0"
    then have "\<not> bit (x AND 0x80000000) 31" by simp
    then show "\<not> bit x 31" by (simp only: bit_and_iff bit_top) simp
  next
    assume "\<not> bit x 31"
    then show "x AND 0x80000000 = 0"
      by (intro bit_word_eqI) (auto simp only: bit_and_iff bit_top bit_0_eq bot_fun_def bot_bool_def)
  qed
  then show ?thesis by (simp add: bit_31 not_le)
qed

lemma top_bit_undo: "unat (x::u32) < 2 ^ 31 \<Longrightarrow> (x OR 0x80000000) AND NOT 0x80000000 = x"
  using bit_31 [of x]
  by (intro bit_word_eqI) (auto simp only: bit_and_iff bit_or_iff bit_not_iff bit_top not_le possible_bit_word)

lemma top_bit_set: "((x::u32) OR 0x80000000) AND 0x80000000 \<noteq> 0"
proof
  assume "(x OR 0x80000000) AND 0x80000000 = 0"
  then have "\<not> bit ((x OR 0x80000000) AND 0x80000000) 31" by simp
  then show False by (simp only: bit_and_iff bit_or_iff bit_top) simp
qed
lemma unat_u32: "unat (x::u32) < 2 ^ 32"
  using unsigned_less [of x] by simp

lemma le_pred: "t \<noteq> 0 \<Longrightarrow> m \<le> t - 1 \<longleftrightarrow> m < (t::u32)"
  by (simp add: word_le_nat_alt word_less_nat_alt unat_minus_one unat_gt_0 [symmetric] del: unat_gt_0) arith

lemma unat_of_nat_small: "n < 2 ^ 32 \<Longrightarrow> unat (of_nat n :: u32) = n"
  by (simp add: unat_of_nat take_bit_nat_eq_self)

lemma unat_add_small: "unat (x::u32) + unat y < 2 ^ 32 \<Longrightarrow> unat (x + y) = unat x + unat y"
  by (simp add: unat_word_ariths)

lemma unat_sub_small: "unat (y::u32) \<le> unat x \<Longrightarrow> unat (x - y) = unat x - unat y"
  by (simp add: unat_sub word_le_nat_alt)

subsection \<open>Lists split at an element\<close>

text \<open>The ring of a list with a cursor is cut at the cursor: the elements before an element
  and those after it.\<close>

definition before :: "'a \<Rightarrow> 'a list \<Rightarrow> 'a list" where
  "before x xs = takeWhile (\<lambda>y. y \<noteq> x) xs"

definition after :: "'a \<Rightarrow> 'a list \<Rightarrow> 'a list" where
  "after x xs = tl (dropWhile (\<lambda>y. y \<noteq> x) xs)"

lemma before_Nil [simp]: "before x [] = []"
  and before_Cons [simp]: "before x (y # ys) = (if y = x then [] else y # before x ys)"
  by (auto simp: before_def)

lemma after_Nil [simp]: "after x [] = []"
  and after_Cons [simp]: "after x (y # ys) = (if y = x then ys else after x ys)"
  by (auto simp: after_def)

lemma before_append_notin [simp]: "x \<notin> set as \<Longrightarrow> before x (as @ bs) = as @ before x bs"
  by (induction as) auto

lemma after_append_notin [simp]: "x \<notin> set as \<Longrightarrow> after x (as @ bs) = after x bs"
  by (induction as) auto

lemma before_append_in [simp]: "x \<in> set as \<Longrightarrow> before x (as @ bs) = before x as"
  by (induction as) auto

lemma after_append_in [simp]: "x \<in> set as \<Longrightarrow> after x (as @ bs) = after x as @ bs"
  by (induction as) auto

lemma split_at: "x \<in> set xs \<Longrightarrow> xs = before x xs @ x # after x xs"
  by (induction xs) auto

lemma notin_before [simp]: "x \<notin> set (before x xs)"
  by (induction xs) auto

lemma before_notin: "x \<notin> set xs \<Longrightarrow> before x xs = xs"
  by (induction xs) auto

lemma after_notin: "x \<notin> set xs \<Longrightarrow> after x xs = []"
  by (induction xs) auto

lemma set_before_subset: "set (before x xs) \<subseteq> set xs"
  by (induction xs) auto

lemma set_after_subset: "set (after x xs) \<subseteq> set xs"
  by (induction xs) auto

lemma notin_beforeI [simp]: "j \<notin> set xs \<Longrightarrow> j \<notin> set (before x xs)"
  and notin_afterI [simp]: "j \<notin> set xs \<Longrightarrow> j \<notin> set (after x xs)"
  using set_before_subset set_after_subset by fastforce+

lemma remove1_split: "remove1 x xs = before x xs @ after x xs"
  by (induction xs) auto

lemma in_set_splitE:
  assumes "x \<in> set xs" and "distinct xs"
  obtains as bs where "xs = as @ x # bs" and "x \<notin> set as" and "x \<notin> set bs"
    and "before x xs = as" and "after x xs = bs"
proof -
  have "xs = before x xs @ x # after x xs" using assms(1) by (rule split_at)
  moreover from this assms(2) have "x \<notin> set (after x xs)"
    by (metis distinct.simps(2) distinct_append)
  ultimately show ?thesis using that notin_before by metis
qed

lemma takeWhile_True [simp]: "takeWhile (\<lambda>x. True) xs = xs"
  and dropWhile_True [simp]: "dropWhile (\<lambda>x. True) xs = []"
  by (induction xs) auto

lemma map_fun_upd_notin [simp]: "x \<notin> set xs \<Longrightarrow> map (f(x := y)) xs = map f xs"
  by (induction xs) auto

end
