(* ===== verification/KList.thy ===== *)
theory KList
  imports Prelude
begin

section \<open>The kernel's lists (FreeRtos/list.c, FreeRtos/include/list.h)\<close>

text \<open>
  The lists of the kernel are circular and doubly linked, through an end marker that is part
  of the list structure.  This theory holds
  \<^item> the pointer model: one function per structure field, indexed by the node
    (\<open>End l\<close> is the end marker of the list \<open>l\<close>, \<open>Item i\<close> a list item), and the five functions
    of \<open>list.c\<close> and the accessor macros of \<open>list.h\<close> on it;
  \<^item> the abstract model: a list of items in link order with a cursor, used by the kernel;
  \<^item> the refinement: every pointer operation simulates its abstract counterpart.
\<close>

subsection \<open>The pointer model\<close>

datatype ('l, 'i) node = End 'l | Item 'i

record ('l, 'i) pstore =
  xItemValue :: "('l, 'i) node \<Rightarrow> u32"
  pxNext :: "('l, 'i) node \<Rightarrow> ('l, 'i) node"
  pxPrevious :: "('l, 'i) node \<Rightarrow> ('l, 'i) node"
  pvContainer :: "'i \<Rightarrow> 'l option"
  uxNumberOfItems :: "'l \<Rightarrow> u32"
  pxIndex :: "'l \<Rightarrow> ('l, 'i) node"

definition vListInitialise :: "'l \<Rightarrow> ('l, 'i) pstore \<Rightarrow> ('l, 'i) pstore" where
  "vListInitialise l s =
     s\<lparr>pxIndex := (pxIndex s)(l := End l),
       xItemValue := (xItemValue s)(End l := portMAX_DELAY),
       pxNext := (pxNext s)(End l := End l),
       pxPrevious := (pxPrevious s)(End l := End l),
       uxNumberOfItems := (uxNumberOfItems s)(l := 0)\<rparr>"

definition vListInitialiseItem :: "'i \<Rightarrow> ('l, 'i) pstore \<Rightarrow> ('l, 'i) pstore" where
  "vListInitialiseItem i s = s\<lparr>pvContainer := (pvContainer s)(i := None)\<rparr>"

text \<open>Link a new item in front of the node \<open>x\<close>: the four pointer writes, in the order of
  \<open>vListInsertEnd\<close>.\<close>

definition link_before :: "('l, 'i) node \<Rightarrow> 'i \<Rightarrow> ('l, 'i) pstore \<Rightarrow> ('l, 'i) pstore" where
  "link_before x i s =
     (let s1 = s\<lparr>pxNext := (pxNext s)(Item i := x)\<rparr>;
          s2 = s1\<lparr>pxPrevious := (pxPrevious s1)(Item i := pxPrevious s1 x)\<rparr>;
          s3 = s2\<lparr>pxNext := (pxNext s2)(pxPrevious s2 x := Item i)\<rparr>
      in s3\<lparr>pxPrevious := (pxPrevious s3)(x := Item i)\<rparr>)"

definition vListInsertEnd :: "'l \<Rightarrow> 'i \<Rightarrow> ('l, 'i) pstore \<Rightarrow> ('l, 'i) pstore" where
  "vListInsertEnd l i s =
     (let s1 = link_before (pxIndex s l) i s
      in s1\<lparr>pvContainer := (pvContainer s1)(i := Some l),
            uxNumberOfItems := (uxNumberOfItems s1)(l := uxNumberOfItems s1 l + 1)\<rparr>)"

text \<open>The search loop of \<open>vListInsert\<close>.\<close>

partial_function (option) insert_iter ::
    "('l, 'i) pstore \<Rightarrow> u32 \<Rightarrow> ('l, 'i) node \<Rightarrow> ('l, 'i) node option" where
  "insert_iter s v it =
     (if xItemValue s (pxNext s it) \<le> v then insert_iter s v (pxNext s it) else Some it)"

definition link_after :: "('l, 'i) node \<Rightarrow> 'i \<Rightarrow> ('l, 'i) pstore \<Rightarrow> ('l, 'i) pstore" where
  "link_after it i s =
     (let s1 = s\<lparr>pxNext := (pxNext s)(Item i := pxNext s it)\<rparr>;
          s2 = s1\<lparr>pxPrevious := (pxPrevious s1)(pxNext s1 (Item i) := Item i)\<rparr>;
          s3 = s2\<lparr>pxPrevious := (pxPrevious s2)(Item i := it)\<rparr>
      in s3\<lparr>pxNext := (pxNext s3)(it := Item i)\<rparr>)"

definition vListInsert :: "'l \<Rightarrow> 'i \<Rightarrow> ('l, 'i) pstore \<Rightarrow> ('l, 'i) pstore option" where
  "vListInsert l i s =
     do {
       it \<leftarrow> (if xItemValue s (Item i) = portMAX_DELAY then Some (pxPrevious s (End l))
              else insert_iter s (xItemValue s (Item i)) (End l));
       let s1 = link_after it i s;
       Some (s1\<lparr>pvContainer := (pvContainer s1)(i := Some l),
                uxNumberOfItems := (uxNumberOfItems s1)(l := uxNumberOfItems s1 l + 1)\<rparr>)
     }"

text \<open>An item outside every list has a NULL container, which the code would dereference:
  there the model has no result.\<close>

definition uxListRemove :: "'i \<Rightarrow> ('l, 'i) pstore \<Rightarrow> (u32 \<times> ('l, 'i) pstore) option" where
  "uxListRemove i s =
     do {
       l \<leftarrow> pvContainer s i;
       let s1 = s\<lparr>pxPrevious := (pxPrevious s)(pxNext s (Item i) := pxPrevious s (Item i))\<rparr>;
       let s2 = s1\<lparr>pxNext := (pxNext s1)(pxPrevious s1 (Item i) := pxNext s1 (Item i))\<rparr>;
       let s3 = (if pxIndex s2 l = Item i
                 then s2\<lparr>pxIndex := (pxIndex s2)(l := pxPrevious s2 (Item i))\<rparr> else s2);
       let s4 = s3\<lparr>pvContainer := (pvContainer s3)(i := None),
                   uxNumberOfItems := (uxNumberOfItems s3)(l := uxNumberOfItems s3 l - 1)\<rparr>;
       Some (uxNumberOfItems s4 l, s4)
     }"

definition listGET_OWNER_OF_NEXT_ENTRY ::
    "'l \<Rightarrow> ('l, 'i) pstore \<Rightarrow> ('l, 'i) node \<times> ('l, 'i) pstore" where
  "listGET_OWNER_OF_NEXT_ENTRY l s =
     (let s1 = s\<lparr>pxIndex := (pxIndex s)(l := pxNext s (pxIndex s l))\<rparr>;
          s2 = (if pxIndex s1 l = End l
                then s1\<lparr>pxIndex := (pxIndex s1)(l := pxNext s1 (pxIndex s1 l))\<rparr> else s1)
      in (pxIndex s2 l, s2))"

definition listGET_HEAD_ENTRY :: "'l \<Rightarrow> ('l, 'i) pstore \<Rightarrow> ('l, 'i) node" where
  "listGET_HEAD_ENTRY l s = pxNext s (End l)"

definition listLIST_IS_EMPTY :: "'l \<Rightarrow> ('l, 'i) pstore \<Rightarrow> bool" where
  "listLIST_IS_EMPTY l s \<longleftrightarrow> uxNumberOfItems s l = 0"

subsection \<open>The abstract model: a list with a cursor\<close>

text \<open>\<open>idx\<close> is \<open>pxIndex\<close>, with \<open>None\<close> for the end marker.\<close>

record 'i klist =
  elems :: "'i list"
  idx :: "'i option"

definition kl_empty :: "'i klist" where
  "kl_empty = \<lparr>elems = [], idx = None\<rparr>"

definition kl_insert_end :: "'i \<Rightarrow> 'i klist \<Rightarrow> 'i klist" where
  "kl_insert_end x L =
     L\<lparr>elems := (case idx L of None \<Rightarrow> elems L @ [x]
                 | Some j \<Rightarrow> before j (elems L) @ x # j # after j (elems L))\<rparr>"

definition kl_insert :: "('i \<Rightarrow> u32) \<Rightarrow> 'i \<Rightarrow> 'i klist \<Rightarrow> 'i klist" where
  "kl_insert f x L =
     L\<lparr>elems := takeWhile (\<lambda>y. f y \<le> f x) (elems L) @ x # dropWhile (\<lambda>y. f y \<le> f x) (elems L)\<rparr>"

definition last_opt :: "'a list \<Rightarrow> 'a option" where
  "last_opt xs = (if xs = [] then None else Some (last xs))"

definition hd_opt :: "'a list \<Rightarrow> 'a option" where
  "hd_opt xs = (case xs of [] \<Rightarrow> None | x # _ \<Rightarrow> Some x)"

definition kl_remove :: "'i \<Rightarrow> 'i klist \<Rightarrow> 'i klist" where
  "kl_remove x L =
     \<lparr>elems = before x (elems L) @ after x (elems L),
      idx = (if idx L = Some x then last_opt (before x (elems L)) else idx L)\<rparr>"

definition kl_next :: "'i klist \<Rightarrow> 'i option" where
  "kl_next L = (case idx L of None \<Rightarrow> hd_opt (elems L)
     | Some j \<Rightarrow> (case after j (elems L) of [] \<Rightarrow> hd_opt (elems L) | y # _ \<Rightarrow> Some y))"

definition kl_advance :: "'i klist \<Rightarrow> 'i klist" where
  "kl_advance L = L\<lparr>idx := kl_next L\<rparr>"

definition kl_ok :: "'i klist \<Rightarrow> bool" where
  "kl_ok L \<longleftrightarrow> distinct (elems L) \<and> (\<forall>j. idx L = Some j \<longrightarrow> j \<in> set (elems L))"

text \<open>The service order: the items in the order in which the cursor will reach them.\<close>

definition rot :: "'i klist \<Rightarrow> 'i list" where
  "rot L = (case idx L of None \<Rightarrow> elems L
     | Some j \<Rightarrow> after j (elems L) @ before j (elems L) @ [j])"

lemma kl_ok_cases:
  assumes "kl_ok L"
  obtains (at_end) "idx L = None" and "distinct (elems L)"
  | (at_item) j as bs where "idx L = Some j" and "elems L = as @ j # bs"
      and "distinct (as @ j # bs)" and "before j (as @ j # bs) = as" and "after j (as @ j # bs) = bs"
proof (cases "idx L")
  case None
  with assms at_end show thesis by (simp add: kl_ok_def)
next
  case (Some j)
  with assms obtain as bs where "elems L = as @ j # bs" "j \<notin> set as" "j \<notin> set bs"
    by (auto simp: kl_ok_def elim: in_set_splitE)
  with assms Some at_item show thesis by (auto simp: kl_ok_def)
qed

lemma kl_ok_empty [simp]: "kl_ok kl_empty"
  by (simp add: kl_ok_def kl_empty_def)

lemma elems_kl_empty [simp]: "elems kl_empty = []" "idx kl_empty = None"
  by (simp_all add: kl_empty_def)

lemma last_opt_simps [simp]: "last_opt [] = None" "last_opt (xs @ [x]) = Some x"
  by (simp_all add: last_opt_def)

lemma last_opt_Some: "last_opt xs = Some x \<Longrightarrow> x \<in> set xs"
  by (auto simp: last_opt_def split: if_splits)

lemma hd_opt_simps [simp]: "hd_opt [] = None" "hd_opt (x # xs) = Some x"
  by (simp_all add: hd_opt_def)

lemma set_kl_insert_end [simp]:
  "kl_ok L \<Longrightarrow> set (elems (kl_insert_end x L)) = insert x (set (elems L))"
  by (erule kl_ok_cases) (auto simp: kl_insert_end_def)

lemma set_kl_insert [simp]:
  "set (elems (kl_insert f x L)) = insert x (set (elems L))"
proof -
  have "set (elems L) = set (takeWhile (\<lambda>y. f y \<le> f x) (elems L)) \<union>
      set (dropWhile (\<lambda>y. f y \<le> f x) (elems L))"
    by (metis set_append takeWhile_dropWhile_id)
  then show ?thesis by (auto simp: kl_insert_def)
qed

lemma elems_kl_remove [simp]: "elems (kl_remove x L) = remove1 x (elems L)"
  by (simp add: kl_remove_def remove1_split)

lemma idx_kl_insert_end [simp]: "idx (kl_insert_end x L) = idx L"
  by (simp add: kl_insert_end_def)

lemma idx_kl_insert [simp]: "idx (kl_insert f x L) = idx L"
  by (simp add: kl_insert_def)

lemma elems_kl_advance [simp]: "elems (kl_advance L) = elems L"
  by (simp add: kl_advance_def)

lemma kl_ok_insert_end:
  "kl_ok L \<Longrightarrow> x \<notin> set (elems L) \<Longrightarrow> kl_ok (kl_insert_end x L)"
  by (erule kl_ok_cases) (auto simp: kl_ok_def kl_insert_end_def)

lemma kl_ok_insert:
  assumes "kl_ok L" and "x \<notin> set (elems L)"
  shows "kl_ok (kl_insert f x L)"
proof -
  let ?P = "\<lambda>y. f y \<le> f x"
  have "distinct (takeWhile ?P (elems L) @ dropWhile ?P (elems L))"
    using assms(1) by (simp add: kl_ok_def)
  moreover have "x \<notin> set (takeWhile ?P (elems L) @ dropWhile ?P (elems L))"
    using assms(2) by simp
  ultimately have "distinct (elems (kl_insert f x L))"
    by (auto simp: kl_insert_def simp del: takeWhile_dropWhile_id)
  with assms(1) show ?thesis by (simp add: kl_ok_def)
qed

lemma kl_ok_remove:
  assumes "kl_ok L"
  shows "kl_ok (kl_remove x L)"
proof -
  have "distinct (elems (kl_remove x L))"
    using assms by (simp add: kl_ok_def distinct_remove1)
  moreover have "j \<in> set (elems (kl_remove x L))" if "idx (kl_remove x L) = Some j" for j
  proof (cases "idx L = Some x")
    case True
    with that have "j \<in> set (before x (elems L))"
      by (auto simp: kl_remove_def dest: last_opt_Some)
    then show ?thesis by (simp add: kl_remove_def)
  next
    case False
    with that assms have "j \<in> set (elems L)" "j \<noteq> x"
      by (auto simp: kl_remove_def kl_ok_def)
    then show ?thesis by simp
  qed
  ultimately show ?thesis by (simp add: kl_ok_def)
qed

lemma hd_opt_in: "hd_opt xs = Some x \<Longrightarrow> x \<in> set xs"
  by (cases xs) auto

lemma kl_next_in:
  assumes "kl_ok L" and "kl_next L = Some x"
  shows "x \<in> set (elems L)"
  using assms
  by (cases rule: kl_ok_cases)
    (auto simp: kl_next_def split: list.splits dest: hd_opt_in)

lemma kl_next_exists: "elems L \<noteq> [] \<Longrightarrow> \<exists>x. kl_next L = Some x"
  by (cases "idx L"; cases "elems L"; cases "after (the (idx L)) (elems L)")
    (simp_all add: kl_next_def)

lemma kl_ok_advance: "kl_ok L \<Longrightarrow> kl_ok (kl_advance L)"
  by (simp add: kl_ok_def kl_advance_def) (metis kl_next_in kl_ok_def)

subsection \<open>Service order\<close>

lemma rot_advance:
  assumes "kl_ok L" and "rot L = x # ys"
  shows "kl_next L = Some x \<and> rot (kl_advance L) = ys @ [x]"
  using assms(1)
proof (cases rule: kl_ok_cases)
  case at_end
  with assms(2) show ?thesis by (simp add: rot_def kl_next_def kl_advance_def)
next
  case (at_item j as bs)
  show ?thesis
  proof (cases bs)
    case Nil
    with at_item assms(2) show ?thesis
      by (cases as) (auto simp: rot_def kl_next_def kl_advance_def)
  next
    case (Cons b bs')
    with at_item assms(2) show ?thesis
      by (auto simp: rot_def kl_next_def kl_advance_def)
  qed
qed

lemma set_rot: "kl_ok L \<Longrightarrow> set (rot L) = set (elems L)"
  by (erule kl_ok_cases) (auto simp: rot_def)

lemma distinct_rot: "kl_ok L \<Longrightarrow> distinct (rot L)"
  by (erule kl_ok_cases) (auto simp: rot_def)

lemma length_rot: "kl_ok L \<Longrightarrow> length (rot L) = length (elems L)"
  by (erule kl_ok_cases) (auto simp: rot_def)

lemma rot_insert_end:
  "kl_ok L \<Longrightarrow> x \<notin> set (elems L) \<Longrightarrow>
   rot (kl_insert_end x L) =
     (case idx L of None \<Rightarrow> rot L @ [x] | Some j \<Rightarrow> butlast (rot L) @ [x, j])"
  by (erule kl_ok_cases) (auto simp: rot_def kl_insert_end_def butlast_append)

lemma rot_remove:
  assumes "kl_ok L"
  shows "rot (kl_remove x L) = remove1 x (rot L)"
  using assms
proof (cases rule: kl_ok_cases)
  case at_end
  then show ?thesis by (simp add: rot_def kl_remove_def remove1_split)
next
  case (at_item j as bs)
  show ?thesis
  proof (cases "x = j")
    case True
    with at_item show ?thesis
      by (cases as rule: rev_cases)
        (auto simp: rot_def kl_remove_def remove1_append)
  next
    case False
    with at_item show ?thesis
      by (cases "x \<in> set as"; cases "x \<in> set bs")
        (auto simp: rot_def kl_remove_def remove1_append remove1_split before_notin after_notin)
  qed
qed

subsection \<open>The abstract store of lists\<close>

record ('l, 'i) lists =
  lst :: "'l \<Rightarrow> 'i klist"
  ival :: "'i \<Rightarrow> u32"
  cont :: "'i \<Rightarrow> 'l option"

definition l_initialise :: "'l \<Rightarrow> ('l, 'i) lists \<Rightarrow> ('l, 'i) lists" where
  "l_initialise l S = S\<lparr>lst := (lst S)(l := kl_empty)\<rparr>"

definition l_init_item :: "'i \<Rightarrow> ('l, 'i) lists \<Rightarrow> ('l, 'i) lists" where
  "l_init_item i S = S\<lparr>cont := (cont S)(i := None)\<rparr>"

definition l_set_value :: "'i \<Rightarrow> u32 \<Rightarrow> ('l, 'i) lists \<Rightarrow> ('l, 'i) lists" where
  "l_set_value i v S = S\<lparr>ival := (ival S)(i := v)\<rparr>"

definition l_insert_end :: "'l \<Rightarrow> 'i \<Rightarrow> ('l, 'i) lists \<Rightarrow> ('l, 'i) lists" where
  "l_insert_end l i S =
     S\<lparr>lst := (lst S)(l := kl_insert_end i (lst S l)), cont := (cont S)(i := Some l)\<rparr>"

definition l_insert :: "'l \<Rightarrow> 'i \<Rightarrow> ('l, 'i) lists \<Rightarrow> ('l, 'i) lists" where
  "l_insert l i S =
     S\<lparr>lst := (lst S)(l := kl_insert (ival S) i (lst S l)), cont := (cont S)(i := Some l)\<rparr>"

definition l_remove :: "'i \<Rightarrow> ('l, 'i) lists \<Rightarrow> ('l, 'i) lists option" where
  "l_remove i S = (case cont S i of None \<Rightarrow> None
     | Some l \<Rightarrow> Some (S\<lparr>lst := (lst S)(l := kl_remove i (lst S l)), cont := (cont S)(i := None)\<rparr>))"

definition l_next :: "'l \<Rightarrow> ('l, 'i) lists \<Rightarrow> ('i \<times> ('l, 'i) lists) option" where
  "l_next l S = (case kl_next (lst S l) of None \<Rightarrow> None
     | Some i \<Rightarrow> Some (i, S\<lparr>lst := (lst S)(l := kl_advance (lst S l))\<rparr>))"

abbreviation l_elems :: "'l \<Rightarrow> ('l, 'i) lists \<Rightarrow> 'i list" where
  "l_elems l S \<equiv> elems (lst S l)"

abbreviation l_head :: "'l \<Rightarrow> ('l, 'i) lists \<Rightarrow> 'i option" where
  "l_head l S \<equiv> hd_opt (l_elems l S)"

text \<open>Well-formed stores over the initialised lists \<open>Ls\<close>: an item's container is the one list
  that holds it.\<close>

definition lists_ok :: "'l set \<Rightarrow> ('l, 'i) lists \<Rightarrow> bool" where
  "lists_ok Ls S \<longleftrightarrow> (\<forall>l \<in> Ls. kl_ok (lst S l)) \<and>
     (\<forall>i. \<forall>l \<in> Ls. cont S i = Some l \<longleftrightarrow> i \<in> set (l_elems l S)) \<and>
     (\<forall>i l. cont S i = Some l \<longrightarrow> l \<in> Ls)"

lemma lists_okD:
  assumes "lists_ok Ls S" and "l \<in> Ls"
  shows "kl_ok (lst S l)" and "cont S i = Some l \<longleftrightarrow> i \<in> set (l_elems l S)"
  using assms by (auto simp: lists_ok_def)

lemma lists_ok_contD: "lists_ok Ls S \<Longrightarrow> cont S i = Some l \<Longrightarrow> l \<in> Ls \<and> i \<in> set (l_elems l S)"
  unfolding lists_ok_def by blast

lemma lists_ok_None: "lists_ok Ls S \<Longrightarrow> cont S i = None \<Longrightarrow> l \<in> Ls \<Longrightarrow> i \<notin> set (l_elems l S)"
  by (metis lists_okD(2) option.distinct(1))

lemma lists_ok_insert_end:
  assumes "lists_ok Ls S" and "l \<in> Ls" and "cont S i = None"
  shows "lists_ok Ls (l_insert_end l i S)"
  using assms kl_ok_insert_end [of "lst S l" i] lists_ok_None [OF assms(1,3)]
  by (auto simp: lists_ok_def l_insert_end_def)

lemma lists_ok_insert:
  assumes "lists_ok Ls S" and "l \<in> Ls" and "cont S i = None"
  shows "lists_ok Ls (l_insert l i S)"
  using assms kl_ok_insert [of "lst S l" i] lists_ok_None [OF assms(1,3)]
  by (auto simp: lists_ok_def l_insert_def)

lemma lists_ok_remove:
  assumes "lists_ok Ls S" and "l_remove i S = Some S'"
  shows "lists_ok Ls S'"
proof -
  from assms(2) obtain l where l: "cont S i = Some l"
    and S': "S' = S\<lparr>lst := (lst S)(l := kl_remove i (lst S l)), cont := (cont S)(i := None)\<rparr>"
    by (auto simp: l_remove_def split: option.splits)
  have "l \<in> Ls" "i \<in> set (l_elems l S)" using lists_ok_contD [OF assms(1) l] by auto
  moreover have "distinct (l_elems l S)" using assms(1) \<open>l \<in> Ls\<close> by (auto simp: lists_ok_def kl_ok_def)
  moreover have "i \<notin> set (l_elems l' S)" if "l' \<in> Ls" "l' \<noteq> l" for l'
    using lists_okD(2) [OF assms(1) that(1), of i] l that(2) by simp
  ultimately show ?thesis
    using assms(1) S' by (auto simp: lists_ok_def kl_ok_remove)
qed

lemma lists_ok_next: "lists_ok Ls S \<Longrightarrow> l_next l S = Some (i, S') \<Longrightarrow> lists_ok Ls S'"
  by (auto simp: lists_ok_def l_next_def kl_ok_advance split: option.splits if_splits)

lemma lists_ok_set_value [simp]: "lists_ok Ls (l_set_value i v S) = lists_ok Ls S"
  by (simp add: lists_ok_def l_set_value_def)

lemma lists_ok_initialise:
  assumes "lists_ok Ls S" and "\<forall>i. cont S i \<noteq> Some l"
  shows "lists_ok (insert l Ls) (l_initialise l S)"
  using assms by (auto simp: lists_ok_def l_initialise_def)

subsection \<open>Rings of pointers\<close>

fun links :: "('n \<Rightarrow> 'n) \<Rightarrow> ('n \<Rightarrow> 'n) \<Rightarrow> 'n \<Rightarrow> 'n list \<Rightarrow> 'n \<Rightarrow> bool" where
  "links nx pv a [] b \<longleftrightarrow> nx a = b \<and> pv b = a"
| "links nx pv a (x # xs) b \<longleftrightarrow> nx a = x \<and> pv x = a \<and> links nx pv x xs b"

lemma links_append:
  "links nx pv a (xs @ y # ys) b \<longleftrightarrow> links nx pv a xs y \<and> links nx pv y ys b"
  by (induction xs arbitrary: a) auto

lemma links_cong:
  assumes "\<forall>c \<in> insert a (set xs). nx' c = nx c" and "\<forall>c \<in> insert b (set xs). pv' c = pv c"
  shows "links nx' pv' a xs b = links nx pv a xs b"
  using assms by (induction xs arbitrary: a) auto

lemma links_split:
  "links nx pv a (xs @ ys) b \<longleftrightarrow>
     links nx pv a xs (hd (ys @ [b])) \<and> links nx pv (last (a # xs)) ys b"
  by (induction xs arbitrary: a; cases ys) auto

lemma links_first: "links nx pv a xs b \<Longrightarrow> nx a = hd (xs @ [b])"
  by (cases xs) auto

lemma links_last: "links nx pv a xs b \<Longrightarrow> pv b = last (a # xs)"
  by (induction xs arbitrary: a) auto

lemma links_retarget:
  assumes "links nx pv a xs q" and "distinct (a # xs)" and "p = last (a # xs)"
    and "nx' p = i" and "pv' i = p"
    and "\<forall>c. c \<in> set (a # xs) \<and> c \<noteq> p \<longrightarrow> nx' c = nx c"
    and "\<forall>c \<in> set xs. pv' c = pv c"
  shows "links nx' pv' a xs i"
  using assms by (induction xs arbitrary: a) (auto split: if_splits)

lemma links_reroot:
  assumes "links nx pv a xs b" and "distinct xs" and "b \<notin> set xs" and "q = hd (xs @ [b])"
    and "pv' q = i" and "nx' i = q"
    and "\<forall>c \<in> set xs. nx' c = nx c"
    and "\<forall>c. c \<in> insert b (set xs) \<and> c \<noteq> q \<longrightarrow> pv' c = pv c"
  shows "links nx' pv' i xs b"
proof (cases xs)
  case Nil
  with assms show ?thesis by simp
next
  case (Cons x ys)
  with assms have "links nx pv x ys b" "pv' x = i" "nx' i = x" by auto
  moreover from Cons assms have "\<forall>c \<in> insert x (set ys). nx' c = nx c"
    and "\<forall>c \<in> insert b (set ys). pv' c = pv c" by auto
  ultimately show ?thesis using Cons links_cong [of x ys nx' nx b pv' pv] by simp
qed

lemma last_Cons_in: "last (e # xs) \<in> insert e (set xs)"
  using last_in_set [of "e # xs"] by simp

lemma hd_snoc_in: "hd (ys @ [e]) \<in> insert e (set ys)"
  by (cases ys) auto

lemma ring_insert:
  assumes "links nx pv e (xs @ ys) e" and dist: "distinct (e # xs @ ys)"
    and n: "n \<notin> set (e # xs @ ys)" and p: "p = last (e # xs)" and q: "q = hd (ys @ [e])"
    and upd: "nx' p = n" "nx' n = q" "pv' n = p" "pv' q = n"
    and nx: "\<forall>c. c \<noteq> p \<and> c \<noteq> n \<longrightarrow> nx' c = nx c"
    and pv: "\<forall>c. c \<noteq> n \<and> c \<noteq> q \<longrightarrow> pv' c = pv c"
  shows "links nx' pv' e (xs @ n # ys) e"
proof -
  have "links nx pv e xs q" "links nx pv p ys e"
    using assms(1) p q by (auto simp: links_split)
  moreover have "q \<in> insert e (set ys)" "p \<in> insert e (set xs)"
    unfolding p q by (rule hd_snoc_in last_Cons_in)+
  then have "q \<notin> set xs" "p \<notin> set ys" using dist by auto
  moreover have "\<forall>c \<in> set xs. pv' c = pv c" "\<forall>c \<in> set ys. nx' c = nx c"
    using n nx pv \<open>q \<notin> set xs\<close> \<open>p \<notin> set ys\<close> by (metis Un_iff list.set_intros(2) set_append)+
  moreover have "\<forall>c. c \<in> set (e # xs) \<and> c \<noteq> p \<longrightarrow> nx' c = nx c"
    "\<forall>c. c \<in> insert e (set ys) \<and> c \<noteq> q \<longrightarrow> pv' c = pv c"
    using n nx pv by auto
  ultimately have "links nx' pv' e xs n" "links nx' pv' n ys e"
    using dist p q upd links_retarget [of nx pv e xs q p nx' n pv']
      links_reroot [of nx pv p ys e q pv' n nx'] by auto
  then show ?thesis by (simp add: links_append)
qed

lemma ring_remove:
  assumes "links nx pv e (as @ x # bs) e" and dist: "distinct (e # as @ x # bs)"
    and p: "p = last (e # as)" and q: "q = hd (bs @ [e])"
    and upd: "nx' p = q" "pv' q = p"
    and nx: "\<forall>c. c \<noteq> p \<longrightarrow> nx' c = nx c" and pv: "\<forall>c. c \<noteq> q \<longrightarrow> pv' c = pv c"
  shows "links nx' pv' e (as @ bs) e"
proof -
  have "links nx pv e as x" "links nx pv x bs e"
    using assms(1) by (auto simp: links_append)
  moreover have "q \<in> insert e (set bs)" "p \<in> insert e (set as)"
    unfolding p q by (rule hd_snoc_in last_Cons_in)+
  then have "q \<notin> set as" "p \<notin> set bs" using dist by auto
  moreover have "\<forall>c \<in> set as. pv' c = pv c" "\<forall>c \<in> set bs. nx' c = nx c"
    using nx pv \<open>q \<notin> set as\<close> \<open>p \<notin> set bs\<close> by metis+
  ultimately have "links nx' pv' e as q" "links nx' pv' p bs e"
    using dist p q upd nx pv links_retarget [of nx pv e as x p nx' q pv']
      links_reroot [of nx pv x bs e q pv' p nx'] by auto
  with p q show ?thesis by (simp add: links_split)
qed

subsection \<open>The refinement\<close>

definition cursor :: "'l \<Rightarrow> 'i option \<Rightarrow> ('l, 'i) node" where
  "cursor l o' = (case o' of None \<Rightarrow> End l | Some i \<Rightarrow> Item i)"

lemma cursor_simps [simp]: "cursor l None = End l" "cursor l (Some i) = Item i"
  by (simp_all add: cursor_def)

lemma cursor_eq_Item [simp]: "cursor l x = Item i \<longleftrightarrow> x = Some i"
  by (cases x) auto

lemma cursor_eq_End [simp]: "cursor l x = End l' \<longleftrightarrow> x = None \<and> l = l'"
  by (cases x) auto

definition ring_of :: "('l, 'i) pstore \<Rightarrow> 'l \<Rightarrow> 'i klist \<Rightarrow> bool" where
  "ring_of ps l L \<longleftrightarrow> xItemValue ps (End l) = portMAX_DELAY \<and>
     links (pxNext ps) (pxPrevious ps) (End l) (map Item (elems L)) (End l) \<and>
     uxNumberOfItems ps l = of_nat (length (elems L)) \<and> pxIndex ps l = cursor l (idx L)"

definition refines :: "'l set \<Rightarrow> ('l, 'i) pstore \<Rightarrow> ('l, 'i) lists \<Rightarrow> bool" where
  "refines Ls ps S \<longleftrightarrow> lists_ok Ls S \<and> pvContainer ps = cont S \<and>
     (\<forall>i. xItemValue ps (Item i) = ival S i) \<and> (\<forall>l \<in> Ls. ring_of ps l (lst S l))"

definition nodes :: "'l \<Rightarrow> ('l, 'i) lists \<Rightarrow> ('l, 'i) node set" where
  "nodes l S = insert (End l) (Item ` set (l_elems l S))"

lemma nodes_disjoint:
  assumes "lists_ok Ls S" and "l \<in> Ls" and "l' \<in> Ls" and "l \<noteq> l'"
  shows "nodes l S \<inter> nodes l' S = {}"
  using lists_okD(2) [OF assms(1,2)] lists_okD(2) [OF assms(1,3)] assms(4)
  by (auto simp: nodes_def) (metis option.inject)

lemma ring_of_frame:
  assumes "ring_of ps l L" and "xItemValue ps' (End l) = xItemValue ps (End l)"
    and "\<forall>c \<in> insert (End l) (Item ` set (elems L)). pxNext ps' c = pxNext ps c \<and> pxPrevious ps' c = pxPrevious ps c"
    and "uxNumberOfItems ps' l = uxNumberOfItems ps l" and "pxIndex ps' l = pxIndex ps l"
  shows "ring_of ps' l L"
  using assms links_cong [of "End l" "map Item (elems L)" "pxNext ps'" "pxNext ps" "End l" "pxPrevious ps'" "pxPrevious ps"]
  by (simp add: ring_of_def)

lemma refines_step:
  assumes "refines Ls ps S" and "l \<in> Ls" and "lists_ok Ls S'"
    and "\<forall>l'. l' \<noteq> l \<longrightarrow> lst S' l' = lst S l'" and "ival S' = ival S"
    and "pvContainer ps' = cont S'" and "xItemValue ps' = xItemValue ps"
    and "ring_of ps' l (lst S' l)"
    and "\<forall>l'. l' \<noteq> l \<longrightarrow> uxNumberOfItems ps' l' = uxNumberOfItems ps l' \<and> pxIndex ps' l' = pxIndex ps l'"
    and "\<forall>c. c \<notin> nodes l S \<and> c \<notin> nodes l S' \<longrightarrow>
           pxNext ps' c = pxNext ps c \<and> pxPrevious ps' c = pxPrevious ps c"
  shows "refines Ls ps' S'"
proof -
  have "ring_of ps' l' (lst S' l')" if "l' \<in> Ls" "l' \<noteq> l" for l'
  proof (rule ring_of_frame [of ps])
    show "ring_of ps l' (lst S' l')" using assms(1,4) that by (simp add: refines_def)
    have "nodes l' S' = nodes l' S" using assms(4) that by (simp add: nodes_def)
    then show "\<forall>c \<in> insert (End l') (Item ` set (l_elems l' S')).
        pxNext ps' c = pxNext ps c \<and> pxPrevious ps' c = pxPrevious ps c"
      using nodes_disjoint [of Ls S l l'] nodes_disjoint [of Ls S' l l'] assms(1,2,3,10) that
      unfolding refines_def nodes_def by (metis (no_types) Int_iff empty_iff)
  qed (use assms that in auto)
  then have "\<forall>l' \<in> Ls. ring_of ps' l' (lst S' l')" using assms(8) by metis
  with assms show ?thesis by (simp add: refines_def)
qed

lemma refinesD:
  assumes "refines Ls ps S" and "l \<in> Ls"
  shows "kl_ok (lst S l)" and "ring_of ps l (lst S l)" and "lists_ok Ls S"
  using assms by (auto simp: refines_def lists_ok_def)

theorem refines_vListInitialiseItem:
  assumes "refines Ls ps S" and "cont S i = None"
  shows "refines Ls (vListInitialiseItem i ps) (l_init_item i S)"
  using assms
  by (auto simp: refines_def vListInitialiseItem_def l_init_item_def fun_upd_idem ring_of_def)

theorem refines_vListInitialise:
  assumes "refines Ls ps S" and "\<forall>i. cont S i \<noteq> Some l" and "l \<notin> Ls"
  shows "refines (insert l Ls) (vListInitialise l ps) (l_initialise l S)"
proof -
  have "ring_of (vListInitialise l ps) l' (lst (l_initialise l S) l')" if "l' \<in> insert l Ls" for l'
  proof (cases "l' = l")
    case True
    then show ?thesis by (simp add: ring_of_def vListInitialise_def l_initialise_def)
  next
    case False
    with that assms(1) have "ring_of ps l' (lst S l')" by (auto simp: refines_def)
    then have "ring_of (vListInitialise l ps) l' (lst S l')"
      by (rule ring_of_frame) (use False in \<open>auto simp: vListInitialise_def\<close>)
    with False show ?thesis by (simp add: l_initialise_def)
  qed
  with assms show ?thesis
    using lists_ok_initialise [of Ls S l]
    by (auto simp: refines_def vListInitialise_def l_initialise_def)
qed

lemma refines_value:
  "refines Ls ps S \<Longrightarrow>
   refines Ls (ps\<lparr>xItemValue := (xItemValue ps)(Item i := v)\<rparr>) (l_set_value i v S)"
  by (auto simp: refines_def ring_of_def l_set_value_def lists_ok_def)

lemma link_before_links:
  assumes "links (pxNext ps) (pxPrevious ps) e (map Item (xs @ ys)) e" and "e = End l"
    and "distinct (xs @ ys)" and "i \<notin> set (xs @ ys)" and "x = hd (map Item ys @ [e])"
  shows "links (pxNext (link_before x i ps)) (pxPrevious (link_before x i ps)) e (map Item (xs @ i # ys)) e"
proof -
  let ?p = "last (e # map Item xs)"
  have p: "pxPrevious ps x = ?p"
    using assms(1,5) by (auto simp: links_split dest: links_last)
  have ne: "x \<noteq> Item i" "?p \<noteq> Item i"
    using assms(2,4,5) hd_snoc_in [of "map Item ys" e] last_Cons_in [of e "map Item xs"] by auto
  have "links (pxNext (link_before x i ps)) (pxPrevious (link_before x i ps)) e
      (map Item xs @ Item i # map Item ys) e"
    by (rule ring_insert [where p = ?p and q = x and nx = "pxNext ps" and pv = "pxPrevious ps"])
      (use assms p ne in \<open>auto simp: link_before_def Let_def distinct_map inj_on_def\<close>)
  then show ?thesis by simp
qed

lemma link_after_links:
  assumes "links (pxNext ps) (pxPrevious ps) e (map Item (xs @ ys)) e" and "e = End l"
    and "distinct (xs @ ys)" and "i \<notin> set (xs @ ys)" and "x = last (e # map Item xs)"
  shows "links (pxNext (link_after x i ps)) (pxPrevious (link_after x i ps)) e (map Item (xs @ i # ys)) e"
proof -
  let ?q = "hd (map Item ys @ [e])"
  have q: "pxNext ps x = ?q"
    using assms(1,5) by (auto simp: links_split dest: links_first)
  have ne: "x \<noteq> Item i" "?q \<noteq> Item i"
    using assms(2,4,5) hd_snoc_in [of "map Item ys" e] last_Cons_in [of e "map Item xs"] by auto
  have "links (pxNext (link_after x i ps)) (pxPrevious (link_after x i ps)) e
      (map Item xs @ Item i # map Item ys) e"
    by (rule ring_insert [where p = x and q = ?q and nx = "pxNext ps" and pv = "pxPrevious ps"])
      (use assms q ne in \<open>auto simp: link_after_def Let_def distinct_map inj_on_def\<close>)
  then show ?thesis by simp
qed

lemma link_before_frame:
  assumes "c \<noteq> Item i" and "c \<noteq> x" and "c \<noteq> pxPrevious ps x" and "x \<noteq> Item i"
  shows "pxNext (link_before x i ps) c = pxNext ps c \<and> pxPrevious (link_before x i ps) c = pxPrevious ps c"
  using assms by (simp add: link_before_def Let_def)

lemma link_after_frame:
  assumes "c \<noteq> Item i" and "c \<noteq> x" and "c \<noteq> pxNext ps x" and "x \<noteq> Item i"
  shows "pxNext (link_after x i ps) c = pxNext ps c \<and> pxPrevious (link_after x i ps) c = pxPrevious ps c"
  using assms by (simp add: link_after_def Let_def)

lemma link_fields [simp]:
  "xItemValue (link_before x i ps) = xItemValue ps" "pvContainer (link_before x i ps) = pvContainer ps"
  "uxNumberOfItems (link_before x i ps) = uxNumberOfItems ps" "pxIndex (link_before x i ps) = pxIndex ps"
  "xItemValue (link_after x i ps) = xItemValue ps" "pvContainer (link_after x i ps) = pvContainer ps"
  "uxNumberOfItems (link_after x i ps) = uxNumberOfItems ps" "pxIndex (link_after x i ps) = pxIndex ps"
  by (simp_all add: link_before_def link_after_def Let_def)

lemma links_in_ring:
  assumes "links nx pv e (map Item xs) e"
  shows "c \<in> insert e (Item ` set xs) \<Longrightarrow> nx c \<in> insert e (Item ` set xs)"
    and "c \<in> insert e (Item ` set xs) \<Longrightarrow> pv c \<in> insert e (Item ` set xs)"
proof -
  have "nx c \<in> insert b (Item ` set xs)"
    if "links nx pv a (map Item xs) b" "c \<in> insert a (Item ` set xs)" for a b
    using that by (induction xs arbitrary: a) auto
  moreover have "pv c \<in> insert a (Item ` set xs)"
    if "links nx pv a (map Item xs) b" "c \<in> insert b (Item ` set xs)" for a b
    using that by (induction xs arbitrary: a) auto
  ultimately show "c \<in> insert e (Item ` set xs) \<Longrightarrow> nx c \<in> insert e (Item ` set xs)"
    and "c \<in> insert e (Item ` set xs) \<Longrightarrow> pv c \<in> insert e (Item ` set xs)"
    using assms by blast+
qed

theorem refines_vListInsertEnd:
  assumes r: "refines Ls ps S" and l: "l \<in> Ls" and i: "cont S i = None"
  shows "refines Ls (vListInsertEnd l i ps) (l_insert_end l i S)"
proof -
  let ?L = "lst S l" and ?x = "pxIndex ps l"
  have ring: "ring_of ps l ?L" and ok: "kl_ok ?L" and lok: "lists_ok Ls S"
    using refinesD [OF r l] by auto
  have ni: "i \<notin> set (elems ?L)" using lists_ok_None [OF lok i l] .
  obtain xs ys where L: "elems ?L = xs @ ys" "?x = hd (map Item ys @ [End l])"
    "elems (kl_insert_end i ?L) = xs @ i # ys"
    using ok
  proof (cases rule: kl_ok_cases)
    case at_end
    then show ?thesis
      using ring that [of "elems ?L" "[]"] by (auto simp: ring_of_def kl_insert_end_def)
  next
    case (at_item j as bs)
    then show ?thesis
      using ring that [of as "j # bs"] by (auto simp: ring_of_def kl_insert_end_def)
  qed
  have dist: "distinct (xs @ ys)" using ok L by (simp add: kl_ok_def)
  have lk: "links (pxNext ps) (pxPrevious ps) (End l) (map Item (xs @ ys)) (End l)"
    using ring L by (simp add: ring_of_def)
  have xin: "?x \<in> nodes l S"
    using L hd_snoc_in [of "map Item ys" "End l"] by (auto simp: nodes_def)
  then have pin: "pxPrevious ps ?x \<in> nodes l S"
    using links_in_ring(2) [OF lk] L by (auto simp: nodes_def)
  have "?x \<noteq> Item i" using xin ni by (auto simp: nodes_def)
  show ?thesis
  proof (rule refines_step [OF r l])
    show "lists_ok Ls (l_insert_end l i S)" by (rule lists_ok_insert_end [OF lok l i])
    show "ring_of (vListInsertEnd l i ps) l (lst (l_insert_end l i S) l)"
      using link_before_links [OF lk refl dist _ L(2)] ni L ring
      by (auto simp: ring_of_def vListInsertEnd_def l_insert_end_def Let_def)
    show "\<forall>c. c \<notin> nodes l S \<and> c \<notin> nodes l (l_insert_end l i S) \<longrightarrow>
        pxNext (vListInsertEnd l i ps) c = pxNext ps c \<and> pxPrevious (vListInsertEnd l i ps) c = pxPrevious ps c"
      using link_before_frame [of _ i ?x ps] xin pin \<open>?x \<noteq> Item i\<close> L
      by (auto simp: vListInsertEnd_def l_insert_end_def Let_def nodes_def)
  qed (use r in \<open>auto simp: refines_def vListInsertEnd_def l_insert_end_def Let_def\<close>)
qed

text \<open>The search loop of \<open>vListInsert\<close> stops, at the end marker at the latest, because no
  inserted value reaches \<open>portMAX_DELAY\<close>.\<close>

lemma insert_iter_links:
  assumes "links (pxNext ps) (pxPrevious ps) a (map Item ys) (End l)"
    and "\<forall>i. xItemValue ps (Item i) = f i" and "xItemValue ps (End l) = portMAX_DELAY"
    and "v \<noteq> portMAX_DELAY"
  shows "insert_iter ps v a = Some (last (a # map Item (takeWhile (\<lambda>y. f y \<le> v) ys)))"
  using assms
proof (induction ys arbitrary: a)
  case Nil
  then show ?case by (subst insert_iter.simps) simp
next
  case (Cons y ys)
  show ?case
  proof (cases "f y \<le> v")
    case True
    with Cons.prems have "insert_iter ps v a = insert_iter ps v (Item y)"
      by (subst insert_iter.simps) simp
    with Cons True show ?thesis by simp
  next
    case False
    with Cons.prems show ?thesis by (subst insert_iter.simps) simp
  qed
qed

theorem refines_vListInsert:
  assumes r: "refines Ls ps S" and l: "l \<in> Ls" and i: "cont S i = None"
  shows "\<exists>ps'. vListInsert l i ps = Some ps' \<and> refines Ls ps' (l_insert l i S)"
proof -
  let ?L = "lst S l" and ?f = "ival S" and ?v = "ival S i"
  define xs ys where "xs = takeWhile (\<lambda>y. ?f y \<le> ?v) (elems ?L)"
    and "ys = dropWhile (\<lambda>y. ?f y \<le> ?v) (elems ?L)"
  let ?it = "last (End l # map Item xs)"
  have ring: "ring_of ps l ?L" and ok: "kl_ok ?L" and lok: "lists_ok Ls S"
    using refinesD [OF r l] by auto
  have val: "\<forall>i. xItemValue ps (Item i) = ?f i" using r by (simp add: refines_def)
  have ni: "i \<notin> set (elems ?L)" using lists_ok_None [OF lok i l] .
  have split: "elems ?L = xs @ ys" by (simp add: xs_def ys_def)
  have ins: "elems (kl_insert ?f i ?L) = xs @ i # ys" by (simp add: kl_insert_def xs_def ys_def)
  have dist: "distinct (xs @ ys)" using ok split by (simp add: kl_ok_def)
  have lk: "links (pxNext ps) (pxPrevious ps) (End l) (map Item (xs @ ys)) (End l)"
    using ring split by (simp add: ring_of_def)
  have it: "(if xItemValue ps (Item i) = portMAX_DELAY then Some (pxPrevious ps (End l))
      else insert_iter ps (xItemValue ps (Item i)) (End l)) = Some ?it"
  proof (cases "?v = portMAX_DELAY")
    case True
    then have "xs = elems ?L" by (simp add: xs_def)
    moreover have "pxPrevious ps (End l) = last (End l # map Item (xs @ ys))"
      using links_last [OF lk] .
    ultimately show ?thesis using True val split by (simp del: last.simps)
  next
    case False
    have "insert_iter ps ?v (End l) = Some ?it"
      unfolding xs_def
      by (rule insert_iter_links) (use False ring val in \<open>auto simp: ring_of_def\<close>)
    with False val show ?thesis by simp
  qed
  define ps' where "ps' = (let s1 = link_after ?it i ps in
    s1\<lparr>pvContainer := (pvContainer s1)(i := Some l),
       uxNumberOfItems := (uxNumberOfItems s1)(l := uxNumberOfItems s1 l + 1)\<rparr>)"
  have "vListInsert l i ps = Some ps'"
    using it by (simp add: vListInsert_def ps'_def Let_def)
  moreover have xin: "?it \<in> nodes l S"
    using last_Cons_in [of "End l" "map Item xs"] split
    by (auto simp: nodes_def)
  then have nin: "pxNext ps ?it \<in> nodes l S"
    unfolding nodes_def split by (rule links_in_ring(1) [OF lk])
  have "?it \<noteq> Item i" using xin ni by (auto simp: nodes_def)
  have "refines Ls ps' (l_insert l i S)"
  proof (rule refines_step [OF r l])
    show "lists_ok Ls (l_insert l i S)" by (rule lists_ok_insert [OF lok l i])
    show "ring_of ps' l (lst (l_insert l i S) l)"
      using link_after_links [OF lk refl dist _ refl, of i] ni ring split ins
      by (simp add: ring_of_def ps'_def l_insert_def Let_def del: last.simps)
    show "\<forall>c. c \<notin> nodes l S \<and> c \<notin> nodes l (l_insert l i S) \<longrightarrow>
        pxNext ps' c = pxNext ps c \<and> pxPrevious ps' c = pxPrevious ps c"
    proof (intro allI impI)
      fix c
      assume c: "c \<notin> nodes l S \<and> c \<notin> nodes l (l_insert l i S)"
      then have "c \<noteq> Item i" "c \<noteq> ?it" "c \<noteq> pxNext ps ?it"
        using xin nin by (auto simp: nodes_def l_insert_def simp del: last.simps)
      from link_after_frame [OF this \<open>?it \<noteq> Item i\<close>]
      show "pxNext ps' c = pxNext ps c \<and> pxPrevious ps' c = pxPrevious ps c"
        by (simp add: ps'_def Let_def del: last.simps)
    qed
  qed (use r in \<open>auto simp: refines_def ps'_def l_insert_def Let_def simp del: last.simps\<close>)
  ultimately show ?thesis by blast
qed

theorem refines_uxListRemove:
  assumes r: "refines Ls ps S" and c: "cont S i = Some l"
  shows "\<exists>ps' S'. uxListRemove i ps = Some (of_nat (length (l_elems l S')), ps') \<and>
           l_remove i S = Some S' \<and> refines Ls ps' S'"
proof -
  let ?L = "lst S l"
  have lok: "lists_ok Ls S" using r by (simp add: refines_def)
  have l: "l \<in> Ls" and iin: "i \<in> set (elems ?L)" using lists_ok_contD [OF lok c] by auto
  have ring: "ring_of ps l ?L" and ok: "kl_ok ?L" using refinesD [OF r l] by auto
  then obtain as bs where L: "elems ?L = as @ i # bs" and dist: "distinct (as @ i # bs)"
    and ba: "before i (elems ?L) = as" "after i (elems ?L) = bs"
    using iin in_set_splitE [OF iin] by (metis kl_ok_def)
  let ?p = "pxPrevious ps (Item i)" and ?q = "pxNext ps (Item i)"
  have lk: "links (pxNext ps) (pxPrevious ps) (End l) (map Item (as @ i # bs)) (End l)"
    using ring L by (simp add: ring_of_def)
  have p: "?p = last (End l # map Item as)" and q: "?q = hd (map Item bs @ [End l])"
    using lk by (auto simp: links_append dest: links_last links_first)
  have pin: "?p \<in> insert (End l) (Item ` set as)" and qin: "?q \<in> insert (End l) (Item ` set bs)"
    unfolding p q using last_Cons_in [of "End l" "map Item as"] hd_snoc_in [of "map Item bs" "End l"]
    by auto
  have ne: "?p \<noteq> Item i" "?q \<noteq> Item i" using pin qin dist by auto
  define S' where "S' = S\<lparr>lst := (lst S)(l := kl_remove i ?L), cont := (cont S)(i := None)\<rparr>"
  have S': "l_remove i S = Some S'" using c by (simp add: l_remove_def S'_def)
  define ps' where "ps' = ps\<lparr>pxPrevious := (pxPrevious ps)(?q := ?p), pxNext := (pxNext ps)(?p := ?q),
    pxIndex := (if pxIndex ps l = Item i then (pxIndex ps)(l := ?p) else pxIndex ps),
    pvContainer := (pvContainer ps)(i := None),
    uxNumberOfItems := (uxNumberOfItems ps)(l := uxNumberOfItems ps l - 1)\<rparr>"
  have "pvContainer ps i = Some l" using r c by (simp add: refines_def)
  then have rem: "uxListRemove i ps = Some (uxNumberOfItems ps' l, ps')"
    using ne by (auto simp: uxListRemove_def ps'_def)
  have "links (pxNext ps') (pxPrevious ps') (End l) (map Item as @ map Item bs) (End l)"
    by (rule ring_remove [where x = "Item i" and p = ?p and q = ?q and nx = "pxNext ps" and pv = "pxPrevious ps"])
      (use lk dist p q in \<open>auto simp: ps'_def distinct_map inj_on_def\<close>)
  then have lk': "links (pxNext ps') (pxPrevious ps') (End l) (map Item (remove1 i (elems ?L))) (End l)"
    using L dist by (simp add: remove1_append)
  have cur: "?p = cursor l (last_opt as)"
    using p by (cases as rule: rev_cases) auto
  have ring': "ring_of ps' l (lst S' l)"
    using ring lk' L dist ba cur
    by (auto simp: ring_of_def S'_def ps'_def kl_remove_def remove1_append)
  have "refines Ls ps' S'"
    by (rule refines_step [OF r l lists_ok_remove [OF lok S']])
      (use r ring' pin qin L in \<open>auto simp: refines_def S'_def ps'_def nodes_def\<close>)
  with rem S' ring' show ?thesis by (auto simp: ring_of_def)
qed

theorem refines_listGET_OWNER_OF_NEXT_ENTRY:
  assumes r: "refines Ls ps S" and l: "l \<in> Ls" and ne: "l_elems l S \<noteq> []"
  shows "\<exists>i ps' S'. listGET_OWNER_OF_NEXT_ENTRY l ps = (Item i, ps') \<and>
           l_next l S = Some (i, S') \<and> refines Ls ps' S'"
proof -
  let ?L = "lst S l"
  have ring: "ring_of ps l ?L" and ok: "kl_ok ?L" and lok: "lists_ok Ls S"
    using refinesD [OF r l] by auto
  obtain i where i: "kl_next ?L = Some i" using kl_next_exists [OF ne] by blast
  define S' where "S' = S\<lparr>lst := (lst S)(l := kl_advance ?L)\<rparr>"
  have S': "l_next l S = Some (i, S')" using i by (simp add: l_next_def S'_def)
  have step: "(let n = pxNext ps (pxIndex ps l) in if n = End l then pxNext ps n else n) = Item i"
    using ok
  proof (cases rule: kl_ok_cases)
    case at_end
    then show ?thesis using ring i ne
      by (cases "elems ?L") (auto simp: ring_of_def kl_next_def)
  next
    case (at_item j as bs)
    then have lk: "links (pxNext ps) (pxPrevious ps) (End l) (map Item (as @ j # bs)) (End l)"
      and "pxIndex ps l = Item j" using ring by (auto simp: ring_of_def)
    moreover from lk have "pxNext ps (Item j) = hd (map Item bs @ [End l])"
      "pxNext ps (End l) = hd (map Item (as @ j # bs))"
      by (auto simp: links_append hd_append dest: links_first)
    ultimately show ?thesis using at_item i
      by (cases bs; cases as) (auto simp: kl_next_def)
  qed
  define ps' where "ps' = ps\<lparr>pxIndex := (pxIndex ps)(l := Item i)\<rparr>"
  have "listGET_OWNER_OF_NEXT_ENTRY l ps = (Item i, ps')"
    using step by (auto simp: listGET_OWNER_OF_NEXT_ENTRY_def ps'_def Let_def split: if_splits)
  moreover have "refines Ls ps' S'"
    by (rule refines_step [OF r l lists_ok_next [OF lok S']])
      (use r ring i in \<open>auto simp: refines_def S'_def ps'_def ring_of_def kl_advance_def\<close>)
  ultimately show ?thesis using S' by blast
qed

theorem refines_listGET_HEAD_ENTRY:
  assumes "refines Ls ps S" and "l \<in> Ls"
  shows "listGET_HEAD_ENTRY l ps = cursor l (l_head l S)"
  using refinesD(2) [OF assms]
  by (cases "l_elems l S") (auto simp: ring_of_def listGET_HEAD_ENTRY_def)

theorem refines_listLIST_IS_EMPTY:
  assumes "refines Ls ps S" and "l \<in> Ls" and "length (l_elems l S) < 2 ^ 32"
  shows "listLIST_IS_EMPTY l ps \<longleftrightarrow> l_elems l S = []"
  using refinesD(2) [OF assms(1,2)] assms(3)
  by (simp add: ring_of_def listLIST_IS_EMPTY_def of_nat_eq_0_small del: of_nat_eq_0_iff)

end
