(* ===== verification/Heap4.thy ===== *)
theory Heap4
  imports Prelude
begin

section \<open>The heap allocator (FreeRtos/portable/memmory/heap_4.c)\<close>

text \<open>
  The allocator keeps a singly linked list of free blocks in address order, first-fit
  allocation, and merges neighbouring free blocks on release.  The model keeps the block headers
  in a memory of headers indexed by address; \<open>axStart\<close> and \<open>aucHeap\<close> are the link-time addresses
  of the static variables \<open>xStart\<close> and \<open>ucHeap\<close>.  \<open>pvPortMalloc\<close> and \<open>vPortFree\<close> suspend the
  scheduler around the code modelled here; the kernel theories put those calls back.
\<close>

subsection \<open>Data and operations\<close>

record BlockLink_t =
  pxNextFreeBlock :: ptr
  xBlockSize :: u32

record heap_t =
  aucHeap :: ptr
  axStart :: ptr
  hmem :: "ptr \<Rightarrow> BlockLink_t"
  pxEnd :: ptr
  xFreeBytesRemaining :: u32
  xMinimumEverFreeBytesRemaining :: u32
  xBlockAllocatedBit :: u32

definition portBYTE_ALIGNMENT :: u32 where "portBYTE_ALIGNMENT = 4"
definition portBYTE_ALIGNMENT_MASK :: u32 where "portBYTE_ALIGNMENT_MASK = 3"
definition configTOTAL_HEAP_SIZE :: u32 where "configTOTAL_HEAP_SIZE = 64 * 1024"

definition xHeapStructSize :: u32 where
  "xHeapStructSize = (8 + (portBYTE_ALIGNMENT - 1)) AND NOT portBYTE_ALIGNMENT_MASK"

definition heapMINIMUM_BLOCK_SIZE :: u32 where
  "heapMINIMUM_BLOCK_SIZE = push_bit 1 xHeapStructSize"

abbreviation next_of :: "heap_t \<Rightarrow> ptr \<Rightarrow> ptr" where
  "next_of h a \<equiv> pxNextFreeBlock (hmem h a)"

abbreviation size_of :: "heap_t \<Rightarrow> ptr \<Rightarrow> u32" where
  "size_of h a \<equiv> xBlockSize (hmem h a)"

definition set_next :: "ptr \<Rightarrow> ptr \<Rightarrow> heap_t \<Rightarrow> heap_t" where
  "set_next a p h = h\<lparr>hmem := (hmem h)(a := (hmem h a)\<lparr>pxNextFreeBlock := p\<rparr>)\<rparr>"

definition set_size :: "ptr \<Rightarrow> u32 \<Rightarrow> heap_t \<Rightarrow> heap_t" where
  "set_size a n h = h\<lparr>hmem := (hmem h)(a := (hmem h a)\<lparr>xBlockSize := n\<rparr>)\<rparr>"

definition prvHeapInit :: "heap_t \<Rightarrow> heap_t" where
  "prvHeapInit h =
     (let uxAddress = aucHeap h;
          (uxAddress, xTotalHeapSize) =
            (if uxAddress AND portBYTE_ALIGNMENT_MASK \<noteq> 0 then
               (let u = (uxAddress + (portBYTE_ALIGNMENT - 1)) AND NOT portBYTE_ALIGNMENT_MASK
                in (u, configTOTAL_HEAP_SIZE - (u - aucHeap h)))
             else (uxAddress, configTOTAL_HEAP_SIZE));
          pucAlignedHeap = uxAddress;
          h = set_size (axStart h) 0 (set_next (axStart h) pucAlignedHeap h);
          uxAddress = ((pucAlignedHeap + xTotalHeapSize) - xHeapStructSize) AND NOT portBYTE_ALIGNMENT_MASK;
          h = h\<lparr>pxEnd := uxAddress\<rparr>;
          h = set_next (pxEnd h) NULL (set_size (pxEnd h) 0 h);
          h = set_next pucAlignedHeap (pxEnd h) (set_size pucAlignedHeap (uxAddress - pucAlignedHeap) h)
      in h\<lparr>xMinimumEverFreeBytesRemaining := size_of h pucAlignedHeap,
           xFreeBytesRemaining := size_of h pucAlignedHeap,
           xBlockAllocatedBit := push_bit (4 * 8 - 1) 1\<rparr>)"

text \<open>The loop that finds the free block after which a block belongs.\<close>

partial_function (option) find_position :: "heap_t \<Rightarrow> ptr \<Rightarrow> ptr \<Rightarrow> ptr option" where
  "find_position h pxIterator pxBlockToInsert =
     (if next_of h pxIterator < pxBlockToInsert
      then find_position h (next_of h pxIterator) pxBlockToInsert else Some pxIterator)"

definition prvInsertBlockIntoFreeList :: "ptr \<Rightarrow> heap_t \<Rightarrow> heap_t option" where
  "prvInsertBlockIntoFreeList pxBlockToInsert h =
     do {
       pxIterator \<leftarrow> find_position h (axStart h) pxBlockToInsert;
       let (h, pxBlock) =
         (if pxIterator + size_of h pxIterator = pxBlockToInsert
          then (set_size pxIterator (size_of h pxIterator + size_of h pxBlockToInsert) h, pxIterator)
          else (h, pxBlockToInsert));
       let h =
         (if pxBlock + size_of h pxBlock = next_of h pxIterator
          then if next_of h pxIterator \<noteq> pxEnd h
               then (let h1 = set_size pxBlock (size_of h pxBlock + size_of h (next_of h pxIterator)) h
                     in set_next pxBlock (next_of h1 (next_of h1 pxIterator)) h1)
               else set_next pxBlock (pxEnd h) h
          else set_next pxBlock (next_of h pxIterator) h);
       Some (if pxIterator \<noteq> pxBlock then set_next pxIterator pxBlock h else h)
     }"

text \<open>The first-fit search: the previous free block and the block found.\<close>

partial_function (option) find_fit :: "heap_t \<Rightarrow> ptr \<Rightarrow> ptr \<Rightarrow> u32 \<Rightarrow> (ptr \<times> ptr) option" where
  "find_fit h pxPreviousBlock pxBlock xWantedSize =
     (if size_of h pxBlock < xWantedSize \<and> next_of h pxBlock \<noteq> NULL
      then find_fit h pxBlock (next_of h pxBlock) xWantedSize
      else Some (pxPreviousBlock, pxBlock))"

definition rounded_size :: "u32 \<Rightarrow> u32" where
  "rounded_size xWantedSize =
     (if xWantedSize > 0 then
        (let w = xWantedSize + xHeapStructSize in
         if w AND portBYTE_ALIGNMENT_MASK \<noteq> 0
         then w + (portBYTE_ALIGNMENT - (w AND portBYTE_ALIGNMENT_MASK)) else w)
      else xWantedSize)"

text \<open>Taking a block off the free list: the tail of a large block goes back to the list, and the
  block handed out is accounted for and marked as allocated.\<close>

definition split_block :: "ptr \<Rightarrow> u32 \<Rightarrow> heap_t \<Rightarrow> heap_t option" where
  "split_block pxBlock xWantedSize h =
     (if size_of h pxBlock - xWantedSize > heapMINIMUM_BLOCK_SIZE
      then do {
        let pxNewBlockLink = pxBlock + xWantedSize;
        configASSERT (pxNewBlockLink AND portBYTE_ALIGNMENT_MASK = 0);
        let h = set_size pxNewBlockLink (size_of h pxBlock - xWantedSize) h;
        let h = set_size pxBlock xWantedSize h;
        prvInsertBlockIntoFreeList pxNewBlockLink h
      } else Some h)"

definition hand_out :: "ptr \<Rightarrow> heap_t \<Rightarrow> heap_t" where
  "hand_out pxBlock h =
     (let h = h\<lparr>xFreeBytesRemaining := xFreeBytesRemaining h - size_of h pxBlock\<rparr>;
          h = (if xFreeBytesRemaining h < xMinimumEverFreeBytesRemaining h
               then h\<lparr>xMinimumEverFreeBytesRemaining := xFreeBytesRemaining h\<rparr> else h);
          h = set_size pxBlock (size_of h pxBlock OR xBlockAllocatedBit h) h
      in set_next pxBlock NULL h)"

definition take_block :: "ptr \<Rightarrow> ptr \<Rightarrow> u32 \<Rightarrow> heap_t \<Rightarrow> (ptr \<times> heap_t) option" where
  "take_block pxPreviousBlock pxBlock xWantedSize h =
     do {
       let pvReturn = next_of h pxPreviousBlock + xHeapStructSize;
       let h = set_next pxPreviousBlock (next_of h pxBlock) h;
       h \<leftarrow> split_block pxBlock xWantedSize h;
       Some (pvReturn, hand_out pxBlock h)
     }"

definition heap_malloc :: "u32 \<Rightarrow> heap_t \<Rightarrow> (ptr \<times> heap_t) option" where
  "heap_malloc xWantedSize h =
     do {
       let h = (if pxEnd h = NULL then prvHeapInit h else h);
       (pvReturn, h) \<leftarrow>
         (if xWantedSize AND xBlockAllocatedBit h = 0 then
            do {
              let w = rounded_size xWantedSize;
              configASSERT (xWantedSize > 0 \<longrightarrow> w AND portBYTE_ALIGNMENT_MASK = 0);
              (if w > 0 \<and> w \<le> xFreeBytesRemaining h then
                 do {
                   (pxPreviousBlock, pxBlock) \<leftarrow> find_fit h (axStart h) (next_of h (axStart h)) w;
                   (if pxBlock \<noteq> pxEnd h then take_block pxPreviousBlock pxBlock w h
                    else Some (NULL, h))
                 }
               else Some (NULL, h))
            }
          else Some (NULL, h));
       configASSERT (pvReturn AND portBYTE_ALIGNMENT_MASK = 0);
       Some (pvReturn, h)
     }"

definition heap_free :: "ptr \<Rightarrow> heap_t \<Rightarrow> heap_t option" where
  "heap_free pv h =
     (if pv \<noteq> NULL then
        do {
          let pxLink = pv - xHeapStructSize;
          configASSERT (size_of h pxLink AND xBlockAllocatedBit h \<noteq> 0);
          configASSERT (next_of h pxLink = NULL);
          let h = set_size pxLink (size_of h pxLink AND NOT (xBlockAllocatedBit h)) h;
          let h = h\<lparr>xFreeBytesRemaining := xFreeBytesRemaining h + size_of h pxLink\<rparr>;
          prvInsertBlockIntoFreeList pxLink h
        }
      else Some h)"

definition xPortGetFreeHeapSize :: "heap_t \<Rightarrow> u32" where
  "xPortGetFreeHeapSize h = xFreeBytesRemaining h"

definition xPortGetMinimumEverFreeHeapSize :: "heap_t \<Rightarrow> u32" where
  "xPortGetMinimumEverFreeHeapSize h = xMinimumEverFreeBytesRemaining h"

subsection \<open>The free list\<close>

text \<open>The free list as a list of pairs of an address and a size, from \<open>xStart\<close> to \<open>pxEnd\<close>.\<close>

fun chain :: "heap_t \<Rightarrow> ptr \<Rightarrow> ptr list \<Rightarrow> bool" where
  "chain h a [] = True"
| "chain h a (x # xs) = (next_of h a = x \<and> chain h x xs)"

definition flist :: "heap_t \<Rightarrow> (ptr \<times> u32) list \<Rightarrow> bool" where
  "flist h F \<longleftrightarrow> chain h (axStart h) (map fst F @ [pxEnd h]) \<and> next_of h (pxEnd h) = NULL \<and>
     size_of h (pxEnd h) = 0 \<and> size_of h (axStart h) = 0 \<and>
     (\<forall>x \<in> set F. size_of h (fst x) = snd x) \<and> distinct (axStart h # pxEnd h # map fst F)"

definition coalesce_right :: "ptr \<times> u32 \<Rightarrow> (ptr \<times> u32) list \<Rightarrow> (ptr \<times> u32) list" where
  "coalesce_right bn F = (case F of [] \<Rightarrow> [bn]
     | (c, m) # F' \<Rightarrow> if fst bn + snd bn = c then (fst bn, snd bn + m) # F' else bn # F)"

definition coalesce :: "(ptr \<times> u32) list \<Rightarrow> ptr \<times> u32 \<Rightarrow> (ptr \<times> u32) list \<Rightarrow> (ptr \<times> u32) list" where
  "coalesce F1 bn F2 =
     (if F1 \<noteq> [] \<and> fst (last F1) + snd (last F1) = fst bn
      then butlast F1 @ coalesce_right (fst (last F1), snd (last F1) + snd bn) F2
      else F1 @ coalesce_right bn F2)"

lemma chain_append:
  "chain h a (xs @ b # ys) \<longleftrightarrow> chain h a xs \<and> next_of h (last (a # xs)) = b \<and> chain h b ys"
  by (induction xs arbitrary: a) auto

lemma chain_cong:
  assumes "\<forall>c \<in> set (butlast (a # xs)). next_of h' c = next_of h c"
  shows "chain h' a xs = chain h a xs"
  using assms by (induction xs arbitrary: a) auto

lemma chain_hd: "chain h a (xs @ [e]) \<Longrightarrow> next_of h a = hd (xs @ [e])"
  by (cases xs) auto

lemma set_next_simps [simp]:
  "next_of (set_next a p h) c = (if c = a then p else next_of h c)"
  "size_of (set_next a p h) c = size_of h c"
  "next_of (set_size a n h) c = next_of h c"
  "size_of (set_size a n h) c = (if c = a then n else size_of h c)"
  "pxEnd (set_next a p h) = pxEnd h" "pxEnd (set_size a n h) = pxEnd h"
  "axStart (set_next a p h) = axStart h" "axStart (set_size a n h) = axStart h"
  "aucHeap (set_next a p h) = aucHeap h" "aucHeap (set_size a n h) = aucHeap h"
  "xFreeBytesRemaining (set_next a p h) = xFreeBytesRemaining h"
  "xFreeBytesRemaining (set_size a n h) = xFreeBytesRemaining h"
  "xMinimumEverFreeBytesRemaining (set_next a p h) = xMinimumEverFreeBytesRemaining h"
  "xMinimumEverFreeBytesRemaining (set_size a n h) = xMinimumEverFreeBytesRemaining h"
  "xBlockAllocatedBit (set_next a p h) = xBlockAllocatedBit h"
  "xBlockAllocatedBit (set_size a n h) = xBlockAllocatedBit h"
  by (simp_all add: set_next_def set_size_def)

lemma find_position_chain:
  assumes "chain h a (xs @ ys)" and "ys \<noteq> []" and "\<forall>x \<in> set xs. x < b" and "\<not> hd ys < b"
  shows "find_position h a b = Some (last (a # xs))"
  using assms
proof (induction xs arbitrary: a)
  case Nil
  then show ?case by (subst find_position.simps) (cases ys; simp)
next
  case (Cons x xs)
  then have "find_position h a b = find_position h x b"
    by (subst find_position.simps) simp
  with Cons show ?case by simp
qed

lemma find_fit_chain:
  assumes "chain h a (map fst A @ b # ys)" and "\<forall>x \<in> set A. size_of h (fst x) < w"
    and "\<not> (size_of h b < w \<and> next_of h b \<noteq> NULL)"
    and "ys \<noteq> [] \<longrightarrow> NULL \<notin> set ys" and "NULL \<notin> set (map fst A)" and "b \<noteq> NULL"
  shows "find_fit h a (next_of h a) w = Some (last (a # map fst A), b)"
  using assms
proof (induction A arbitrary: a)
  case Nil
  then show ?case by (subst find_fit.simps) auto
next
  case (Cons x A)
  have "next_of h (fst x) \<noteq> NULL"
    using Cons.prems by (cases A) auto
  with Cons.prems have "find_fit h a (next_of h a) w = find_fit h (fst x) (next_of h (fst x)) w"
    by (subst find_fit.simps) auto
  with Cons show ?case by auto
qed

lemma flist_hd: "flist h (F1 @ F2) \<Longrightarrow> next_of h (last (axStart h # map fst F1)) = hd (map fst F2 @ [pxEnd h])"
  by (cases F2) (auto simp: flist_def chain_append)

lemma chain_set_size [simp]: "chain (set_size a n h) s xs = chain h s xs"
  by (induction xs arbitrary: s) auto

lemma chain_fields [simp]:
  "chain (h\<lparr>xFreeBytesRemaining := v\<rparr>) s xs = chain h s xs"
  "chain (h\<lparr>xMinimumEverFreeBytesRemaining := v\<rparr>) s xs = chain h s xs"
  by (induction xs arbitrary: s) auto

lemma flist_fields [simp]:
  "flist (h\<lparr>xFreeBytesRemaining := v\<rparr>) F = flist h F"
  "flist (h\<lparr>xMinimumEverFreeBytesRemaining := v\<rparr>) F = flist h F"
  by (simp_all add: flist_def)

lemma flist_set_size:
  assumes "flist h F" and "a \<notin> fst ` set F" and "a \<noteq> axStart h" and "a \<noteq> pxEnd h"
  shows "flist (set_size a n h) F"
proof -
  have "\<forall>x \<in> set F. fst x \<noteq> a" using assms(2) by (metis imageI)
  with assms show ?thesis by (simp add: flist_def)
qed

definition same_but :: "ptr set \<Rightarrow> heap_t \<Rightarrow> heap_t \<Rightarrow> bool" where
  "same_but A h h' \<longleftrightarrow> (\<exists>m. h' = h\<lparr>hmem := m\<rparr> \<and> (\<forall>a. a \<notin> A \<longrightarrow> m a = hmem h a))"

lemma same_but_set [intro]:
  "same_but A h h' \<Longrightarrow> a \<in> A \<Longrightarrow> same_but A h (set_next a p h')"
  "same_but A h h' \<Longrightarrow> a \<in> A \<Longrightarrow> same_but A h (set_size a n h')"
  by (auto simp: same_but_def set_next_def set_size_def)

lemma same_but_refl [simp]: "same_but A h h"
  unfolding same_but_def by (rule exI [of _ "hmem h"]) simp

lemma same_butD:
  assumes "same_but A h h'"
  shows "a \<notin> A \<Longrightarrow> hmem h' a = hmem h a" and "pxEnd h' = pxEnd h" and "axStart h' = axStart h"
    and "aucHeap h' = aucHeap h" and "xFreeBytesRemaining h' = xFreeBytesRemaining h"
    and "xMinimumEverFreeBytesRemaining h' = xMinimumEverFreeBytesRemaining h"
    and "xBlockAllocatedBit h' = xBlockAllocatedBit h"
  using assms by (auto simp: same_but_def)

text \<open>Merging with the block that follows: the new size and successor of the inserted block.\<close>

definition join_right :: "ptr \<Rightarrow> ptr \<Rightarrow> heap_t \<Rightarrow> heap_t" where
  "join_right it b h =
     (if b + size_of h b = next_of h it
      then if next_of h it \<noteq> pxEnd h
           then (let h1 = set_size b (size_of h b + size_of h (next_of h it)) h
                 in set_next b (next_of h1 (next_of h1 it)) h1)
           else set_next b (pxEnd h) h
      else set_next b (next_of h it) h)"

lemma prvInsert_unfold:
  "prvInsertBlockIntoFreeList b h =
     do {
       it \<leftarrow> find_position h (axStart h) b;
       let (h, blk) = (if it + size_of h it = b
         then (set_size it (size_of h it + size_of h b) h, it) else (h, b));
       let h = join_right it blk h;
       Some (if it \<noteq> blk then set_next it blk h else h)
     }"
  by (simp add: prvInsertBlockIntoFreeList_def join_right_def)

lemma join_right_spec:
  assumes "chain h s (P @ map fst F2 @ [pxEnd h])" and "it = last (s # P)"
    and "\<forall>x \<in> set F2. size_of h (fst x) = snd x" and "distinct (map fst F2)"
    and "b \<notin> fst ` set F2" and "pxEnd h \<notin> fst ` set F2"
  shows "\<exists>F2'. coalesce_right (b, size_of h b) F2 = (b, size_of (join_right it b h) b) # F2' \<and>
     next_of (join_right it b h) b = hd (map fst F2' @ [pxEnd h]) \<and>
     chain h (next_of (join_right it b h) b) (tl (map fst F2' @ [pxEnd h])) \<and>
     set F2' \<subseteq> set F2 \<and> distinct (map fst F2')"
proof (cases F2)
  case Nil
  with assms show ?thesis
    by (intro exI [of _ "[]"]) (auto simp: join_right_def coalesce_right_def chain_append)
next
  case (Cons cm F)
  obtain c m where cm: "cm = (c, m)" by (cases cm)
  have c: "next_of h it = c" "c \<noteq> pxEnd h" "size_of h c = m" "c \<noteq> b" "chain h c (map fst F @ [pxEnd h])"
    using assms Cons cm by (auto simp: chain_append)
  show ?thesis
  proof (cases "b + size_of h b = c")
    case True
    with c Cons cm assms show ?thesis
      by (intro exI [of _ F])
        (cases F; auto simp: join_right_def coalesce_right_def Let_def)
  next
    case False
    with c Cons cm assms show ?thesis
      by (intro exI [of _ F2]) (auto simp: join_right_def coalesce_right_def Let_def)
  qed
qed

lemma join_right_other [simp]:
  "c \<noteq> b \<Longrightarrow> hmem (join_right it b h) c = hmem h c"
  "same_but A h' h \<Longrightarrow> b \<in> A \<Longrightarrow> same_but A h' (join_right it b h)"
  by (auto simp: join_right_def Let_def set_next_def set_size_def same_but_def)

lemma chain_Cons_hd: "ys \<noteq> [] \<Longrightarrow> chain h a ys \<longleftrightarrow> next_of h a = hd ys \<and> chain h (hd ys) (tl ys)"
  by (cases ys) auto

lemma last_Cons_mem: "last (e # xs) \<in> insert e (set xs)"
  using last_in_set [of "e # xs"] by simp

text \<open>A list spliced together from an untouched front, the inserted block and an untouched tail.\<close>

lemma flist_splice:
  assumes old: "chain h s xs" and pre: "chain h' s xs = chain h s xs"
    and lk: "next_of h' (last (s # xs)) = b" and nx: "next_of h' b = hd (map fst F @ [e])"
    and tl: "chain h (hd (map fst F @ [e])) (tl (map fst F @ [e]))"
    and cong: "\<forall>c \<in> fst ` set F. next_of h' c = next_of h c"
  shows "chain h' s (xs @ b # map fst F @ [e])"
proof -
  have "chain h' (hd (map fst F @ [e])) (tl (map fst F @ [e]))"
  proof (cases F)
    case (Cons x F')
    have "chain h' (fst x) (map fst F' @ [e]) = chain h (fst x) (map fst F' @ [e])"
      by (rule chain_cong) (use cong Cons in auto)
    with tl Cons show ?thesis by simp
  qed simp
  with nx have "chain h' b (map fst F @ [e])" by (simp add: chain_Cons_hd [of "map fst F @ [e]"])
  with old pre lk show ?thesis by (simp add: chain_append)
qed

lemma distinct_tail:
  assumes "distinct (X @ map fst F)" and "set F' \<subseteq> set F" and "distinct (map fst F')"
  shows "distinct (X @ map fst F')"
proof -
  have "fst ` set F' \<subseteq> fst ` set F" using assms(2) by (rule image_mono)
  with assms(1) have "set X \<inter> fst ` set F' = {}" by auto
  with assms(1,3) show ?thesis by auto
qed

theorem prvInsert_flist:
  assumes fl: "flist h (F1 @ F2)" and below: "\<forall>a \<in> fst ` set F1. a < b"
    and above: "\<forall>a \<in> fst ` set F2. b < a" and e: "b < pxEnd h" and s: "b \<noteq> axStart h"
  shows "\<exists>h'. prvInsertBlockIntoFreeList b h = Some h' \<and>
     flist h' (coalesce F1 (b, size_of h b) F2) \<and>
     same_but (insert (axStart h) (insert b (fst ` set (F1 @ F2)))) h h'"
proof -
  let ?s = "axStart h" and ?e = "pxEnd h" and ?it = "last (axStart h # map fst F1)"
  let ?A = "insert (axStart h) (insert b (fst ` set (F1 @ F2)))"
  have ch: "chain h ?s (map fst F1 @ map fst F2 @ [?e])" and dist: "distinct (?s # ?e # map fst (F1 @ F2))"
    and sz: "\<forall>x \<in> set (F1 @ F2). size_of h (fst x) = snd x"
    using fl by (auto simp: flist_def)
  have bnew: "b \<notin> insert ?s (insert ?e (fst ` set (F1 @ F2)))"
    using below above e s by auto
  have "\<not> hd (map fst F2 @ [?e]) < b" using above e by (cases F2) auto
  with below have "find_position h ?s b = Some ?it"
    by (intro find_position_chain [OF ch]) auto
  moreover have itA: "?it \<in> insert ?s (fst ` set F1)"
    using last_Cons_mem [of ?s "map fst F1"] by simp
  ultimately have ins: "prvInsertBlockIntoFreeList b h =
      (let (h, blk) = (if ?it + size_of h ?it = b
         then (set_size ?it (size_of h ?it + size_of h b) h, ?it) else (h, b));
           h = join_right ?it blk h
       in Some (if ?it \<noteq> blk then set_next ?it blk h else h))"
    by (simp add: prvInsert_unfold Let_def)
  show ?thesis
  proof (cases "F1 \<noteq> [] \<and> fst (last F1) + snd (last F1) = b")
    case True
    then obtain G a m where F1: "F1 = G @ [(a, m)]" and am: "a + m = b"
      by (cases F1 rule: rev_cases) auto
    have it: "?it = a" using F1 by simp
    define h0 where "h0 = set_size a (m + size_of h b) h"
    define h' where "h' = join_right a a h0"
    have res: "prvInsertBlockIntoFreeList b h = Some h'"
      using ins sz F1 am it by (auto simp: h'_def h0_def Let_def)
    have "\<exists>F2'. coalesce_right (a, size_of h0 a) F2 = (a, size_of h' a) # F2' \<and>
        next_of h' a = hd (map fst F2' @ [pxEnd h0]) \<and>
        chain h0 (next_of h' a) (tl (map fst F2' @ [pxEnd h0])) \<and>
        set F2' \<subseteq> set F2 \<and> distinct (map fst F2')"
      unfolding h'_def
      by (rule join_right_spec [where s = ?s and P = "map fst F1"])
        (use ch dist sz F1 in \<open>auto simp: h0_def\<close>)
    then obtain F2' where F2': "coalesce_right (a, m + size_of h b) F2 = (a, size_of h' a) # F2'"
      "next_of h' a = hd (map fst F2' @ [?e])" "chain h0 (next_of h' a) (tl (map fst F2' @ [?e]))"
      "set F2' \<subseteq> set F2" "distinct (map fst F2')"
      by (auto simp: h0_def)
    have other: "hmem h' c = hmem h c" if "c \<noteq> a" for c
      using that by (simp add: h'_def h0_def set_size_def)
    have sb: "same_but ?A h h'"
      unfolding h'_def h0_def by (intro join_right_other same_but_set same_but_refl) (use F1 in auto)
    have "chain h' ?s (map fst G @ a # map fst F2' @ [?e])"
    proof (rule flist_splice [where h = h0])
      have "c \<noteq> a" if "c \<in> set (butlast (?s # map fst G))" for c
        using in_set_butlastD [OF that] dist F1 by auto
      then show "chain h' ?s (map fst G) = chain h0 ?s (map fst G)"
        by (intro chain_cong ballI) (metis other h0_def set_next_simps(3))
      have "chain h ?s (map fst G @ a # map fst F2 @ [?e])" using ch F1 by simp
      then have old: "chain h ?s (map fst G)" "next_of h (last (?s # map fst G)) = a"
        by (auto simp only: chain_append)
      then show "chain h0 ?s (map fst G)" by (simp add: h0_def)
      have "last (?s # map fst G) \<noteq> a"
      proof -
        have "a \<notin> insert ?s (set (map fst G))" using dist F1 by auto
        with last_Cons_mem [of ?s "map fst G"] show ?thesis by metis
      qed
      with old other show "next_of h' (last (?s # map fst G)) = a" by metis
      show "\<forall>c \<in> fst ` set F2'. next_of h' c = next_of h0 c"
      proof -
        have "a \<notin> fst ` set F2'" using F2'(4) dist F1 by auto
        then show ?thesis using other by (metis h0_def set_next_simps(3))
      qed
    qed (use F2' in auto)
    moreover have "distinct (?s # ?e # map fst (G @ (a, size_of h' a) # F2'))"
      using distinct_tail [OF _ F2'(4,5), of "?s # ?e # map fst F1"] dist F1 by simp
    moreover have "\<forall>x \<in> set (G @ (a, size_of h' a) # F2'). size_of h' (fst x) = snd x"
    proof -
      have "\<forall>x \<in> set (G @ F2'). fst x \<noteq> a" using dist F1 F2'(4) by (auto simp: image_iff)
      moreover have "\<forall>x \<in> set (G @ F2'). size_of h (fst x) = snd x" using sz F1 F2'(4) by auto
      ultimately show ?thesis using other by simp
    qed
    moreover have "next_of h' ?e = NULL \<and> size_of h' ?e = 0 \<and> size_of h' ?s = 0"
      using fl dist F1 other [of ?e] other [of ?s] by (auto simp: flist_def)
    ultimately have "flist h' (G @ (a, size_of h' a) # F2')"
      using same_butD(2,3) [OF sb] by (simp add: flist_def)
    moreover have "coalesce F1 (b, size_of h b) F2 = G @ (a, size_of h' a) # F2'"
      using True F1 F2'(1) by (simp add: coalesce_def)
    ultimately show ?thesis using res sb by auto
  next
    case False
    define h1 where "h1 = join_right ?it b h"
    define h' where "h' = set_next ?it b h1"
    have "b \<notin> insert ?s (fst ` set F1)" using bnew by auto
    with itA have itb: "?it \<noteq> b" by metis
    have "?it + size_of h ?it \<noteq> b"
    proof (cases F1 rule: rev_cases)
      case Nil
      with fl s show ?thesis by (auto simp: flist_def)
    next
      case (snoc G am)
      with False sz show ?thesis by (cases am) auto
    qed
    with ins itb have res: "prvInsertBlockIntoFreeList b h = Some h'"
      by (simp add: h'_def h1_def Let_def del: last.simps)
    have "\<exists>F2'. coalesce_right (b, size_of h b) F2 = (b, size_of h1 b) # F2' \<and>
        next_of h1 b = hd (map fst F2' @ [?e]) \<and>
        chain h (next_of h1 b) (tl (map fst F2' @ [?e])) \<and>
        set F2' \<subseteq> set F2 \<and> distinct (map fst F2')"
      unfolding h1_def
      by (rule join_right_spec [OF ch refl]) (use dist sz bnew in auto)
    then obtain F2' where F2': "coalesce_right (b, size_of h b) F2 = (b, size_of h' b) # F2'"
      "next_of h' b = hd (map fst F2' @ [?e])" "chain h (next_of h' b) (tl (map fst F2' @ [?e]))"
      "set F2' \<subseteq> set F2" "distinct (map fst F2')"
      using itb by (auto simp: h'_def simp del: last.simps)
    have other: "next_of h' c = next_of h c" if "c \<noteq> b" "c \<noteq> ?it" for c
      using that by (simp add: h'_def h1_def del: last.simps)
    have other_sz: "size_of h' c = size_of h c" if "c \<noteq> b" for c
      using that by (simp add: h'_def h1_def del: last.simps)
    have "insert ?s (fst ` set F1) \<inter> insert ?e (fst ` set F2) = {}" using dist by auto
    with itA have itF: "?it \<notin> insert ?e (fst ` set F2)" by blast
    have sb: "same_but ?A h h'"
      unfolding h'_def h1_def
      by (intro same_but_set join_right_other same_but_refl) (use itA in \<open>auto simp del: last.simps\<close>)
    have "chain h' ?s (map fst F1 @ b # map fst F2' @ [?e])"
    proof (rule flist_splice [where h = h])
      have "c \<noteq> ?it" if "c \<in> set (butlast (?s # map fst F1))" for c
        using that dist by (cases F1 rule: rev_cases) auto
      moreover have "c \<noteq> b" if "c \<in> set (butlast (?s # map fst F1))" for c
        using that bnew by (auto dest!: in_set_butlastD split: if_splits)
      ultimately show "chain h' ?s (map fst F1) = chain h ?s (map fst F1)"
        by (intro chain_cong ballI other) auto
      show "chain h ?s (map fst F1)" using ch by (cases F2) (auto simp: chain_append)
      show "next_of h' ?it = b" by (simp add: h'_def del: last.simps)
      show "\<forall>c \<in> fst ` set F2'. next_of h' c = next_of h c"
      proof
        fix c
        assume "c \<in> fst ` set F2'"
        then have "c \<in> fst ` set F2" using F2'(4) by auto
        moreover have "b \<notin> fst ` set F2" using bnew by auto
        ultimately have "c \<noteq> b" "c \<noteq> ?it" using itF by (metis insertCI)+
        then show "next_of h' c = next_of h c" by (rule other)
      qed
    qed (use F2' in auto)
    moreover have "distinct (?s # ?e # map fst (F1 @ (b, size_of h' b) # F2'))"
    proof -
      have "distinct ((?s # ?e # map fst F1 @ [b]) @ map fst F2)" using dist bnew by auto
      from distinct_tail [OF this F2'(4,5)] show ?thesis by simp
    qed
    moreover have "\<forall>x \<in> set (F1 @ (b, size_of h' b) # F2'). size_of h' (fst x) = snd x"
    proof -
      have "\<forall>x \<in> set (F1 @ F2'). fst x \<noteq> b" using bnew F2'(4) by (auto simp: image_iff)
      moreover have "\<forall>x \<in> set (F1 @ F2'). size_of h (fst x) = snd x" using sz F2'(4) by auto
      ultimately show ?thesis using other_sz by simp
    qed
    moreover have "next_of h' ?e = NULL \<and> size_of h' ?e = 0 \<and> size_of h' ?s = 0"
      using fl bnew itF other [of ?e] other_sz [of ?e] other_sz [of ?s] by (auto simp: flist_def)
    ultimately have "flist h' (F1 @ (b, size_of h' b) # F2')"
      using same_butD(2,3) [OF sb] by (simp add: flist_def)
    moreover have "coalesce F1 (b, size_of h b) F2 = F1 @ (b, size_of h' b) # F2'"
      unfolding coalesce_def by (subst if_not_P) (use False F2'(1) in simp_all)
    ultimately show ?thesis using res sb by auto
  qed
qed

end
