(* ===== verification/HeapLayout.thy ===== *)
theory HeapLayout
  imports Heap4
begin

section \<open>The layout of the heap\<close>

text \<open>
  The abstract state of the allocator: the blocks that tile the heap, in address order, each
  with its address, its size (header included) and whether it is in use.
\<close>

type_synonym blk = "ptr \<times> u32 \<times> bool"

fun tiles :: "nat \<Rightarrow> blk list \<Rightarrow> nat \<Rightarrow> bool" where
  "tiles lo [] hi \<longleftrightarrow> lo = hi"
| "tiles lo ((a, n, u) # L) hi \<longleftrightarrow>
     unat a = lo \<and> 8 \<le> unat n \<and> unat n mod 4 = 0 \<and> tiles (lo + unat n) L hi"

fun free_blocks :: "blk list \<Rightarrow> (ptr \<times> u32) list" where
  "free_blocks [] = []"
| "free_blocks ((a, n, u) # L) = (if u then free_blocks L else (a, n) # free_blocks L)"

fun used_blocks :: "blk list \<Rightarrow> (ptr \<times> u32) list" where
  "used_blocks [] = []"
| "used_blocks ((a, n, u) # L) = (if u then (a, n) # used_blocks L else used_blocks L)"

fun no_adjacent :: "blk list \<Rightarrow> bool" where
  "no_adjacent ((a, n, u) # (b, m, v) # L) \<longleftrightarrow> (u \<or> v) \<and> no_adjacent ((b, m, v) # L)"
| "no_adjacent _ \<longleftrightarrow> True"

definition free_total :: "blk list \<Rightarrow> nat" where
  "free_total L = sum_list (map (unat \<circ> snd) (free_blocks L))"

text \<open>First-fit allocation and release with coalescing, on layouts.\<close>

fun alloc_first :: "u32 \<Rightarrow> blk list \<Rightarrow> (ptr \<times> blk list) option" where
  "alloc_first w [] = None"
| "alloc_first w ((a, n, u) # L) =
     (if \<not> u \<and> w \<le> n
      then Some (a, if n - w > heapMINIMUM_BLOCK_SIZE
                    then (a, w, True) # (a + w, n - w, False) # L else (a, n, True) # L)
      else map_option (\<lambda>(p, L'). (p, (a, n, u) # L')) (alloc_first w L))"

definition merge_cons :: "blk \<Rightarrow> blk list \<Rightarrow> blk list" where
  "merge_cons x R = (case R of [] \<Rightarrow> [x]
     | y # R' \<Rightarrow> (case x of (a, n, u) \<Rightarrow> case y of (b, m, v) \<Rightarrow>
         if u \<or> v then x # R else (a, n + m, False) # R'))"

primrec merge_free :: "blk list \<Rightarrow> blk list" where
  "merge_free [] = []"
| "merge_free (x # L) = merge_cons x (merge_free L)"

definition release :: "ptr \<Rightarrow> blk list \<Rightarrow> blk list" where
  "release a L = merge_free (map (\<lambda>(b, n, u). (b, n, u \<and> b \<noteq> a)) L)"

definition heap_base :: "heap_t \<Rightarrow> ptr" where
  "heap_base h = (if aucHeap h AND portBYTE_ALIGNMENT_MASK \<noteq> 0
     then (aucHeap h + (portBYTE_ALIGNMENT - 1)) AND NOT portBYTE_ALIGNMENT_MASK else aucHeap h)"

definition heap_inv :: "heap_t \<Rightarrow> blk list \<Rightarrow> bool" where
  "heap_inv h L \<longleftrightarrow>
     tiles (unat (heap_base h)) L (unat (pxEnd h)) \<and> no_adjacent L \<and> flist h (free_blocks L) \<and>
     (\<forall>(a, n) \<in> set (used_blocks L). size_of h a = n OR 0x80000000 \<and> next_of h a = NULL) \<and>
     xBlockAllocatedBit h = 0x80000000 \<and> heap_base h \<noteq> 0 \<and> unat (heap_base h) mod 4 = 0 \<and>
     unat (pxEnd h) - unat (heap_base h) < 2 ^ 31 \<and> unat (pxEnd h) + 8 \<le> 2 ^ 32 \<and>
     (unat (axStart h) < unat (heap_base h) \<or> unat (pxEnd h) < unat (axStart h)) \<and>
     unat (xFreeBytesRemaining h) = free_total L \<and>
     xMinimumEverFreeBytesRemaining h \<le> xFreeBytesRemaining h"

lemma heap_consts [simp]:
  "xHeapStructSize = 8" "heapMINIMUM_BLOCK_SIZE = 16" "portBYTE_ALIGNMENT = 4"
  "portBYTE_ALIGNMENT_MASK = 3" "configTOTAL_HEAP_SIZE = 65536"
  by (simp_all add: xHeapStructSize_def heapMINIMUM_BLOCK_SIZE_def portBYTE_ALIGNMENT_def
      portBYTE_ALIGNMENT_MASK_def configTOTAL_HEAP_SIZE_def push_bit_eq_mult)

lemma tiles_le: "tiles lo L hi \<Longrightarrow> lo \<le> hi"
  by (induction lo L hi rule: tiles.induct) auto

lemma tiles_append: "tiles lo (A @ B) hi \<longleftrightarrow> (\<exists>mid. tiles lo A mid \<and> tiles mid B hi)"
  by (induction A arbitrary: lo) auto

lemma tiles_bounds:
  assumes "tiles lo L hi" and "(a, n, u) \<in> set L"
  shows "lo \<le> unat a" and "unat a + unat n \<le> hi" and "8 \<le> unat n" and "unat n mod 4 = 0"
  using assms by (induction lo L hi rule: tiles.induct) (auto dest: tiles_le)

lemma free_blocks_append [simp]: "free_blocks (A @ B) = free_blocks A @ free_blocks B"
  by (induction A rule: free_blocks.induct) auto

lemma used_blocks_append [simp]: "used_blocks (A @ B) = used_blocks A @ used_blocks B"
  by (induction A rule: used_blocks.induct) auto

lemma in_free_blocks: "(a, n) \<in> set (free_blocks L) \<longleftrightarrow> (a, n, False) \<in> set L"
  by (induction L rule: free_blocks.induct) auto

lemma in_used_blocks: "(a, n) \<in> set (used_blocks L) \<longleftrightarrow> (a, n, True) \<in> set L"
  by (induction L rule: used_blocks.induct) auto

lemma free_total_simps [simp]:
  "free_total [] = 0" "free_total ((a, n, u) # L) = (if u then 0 else unat n) + free_total L"
  "free_total (A @ B) = free_total A + free_total B"
  by (simp_all add: free_total_def)

lemma free_total_le: "tiles lo L hi \<Longrightarrow> free_total L \<le> hi - lo"
proof (induction lo L hi rule: tiles.induct)
  case (2 lo a n u L hi)
  then have "lo + unat n \<le> hi" using tiles_le by auto
  with 2 show ?case by auto
qed simp

lemma tiles_mod: "tiles lo L hi \<Longrightarrow> (a, n, u) \<in> set L \<Longrightarrow> lo mod 4 = 0 \<Longrightarrow> unat a mod 4 = 0"
proof (induction lo L hi rule: tiles.induct)
  case (2 lo b m v L hi)
  have "(lo + unat m) mod 4 = 0" using 2 by (auto simp: mod_add_eq [symmetric])
  with 2 show ?case by auto
qed simp

lemma tiles_addr_notin:
  assumes "tiles lo (A @ (a, n, u) # C) hi"
  shows "unat a < hi" and "(a, m, v) \<notin> set A" and "(a, m, v) \<notin> set C"
    and "(b, m, v) \<in> set A \<Longrightarrow> unat b + unat m \<le> unat a"
    and "(b, m, v) \<in> set C \<Longrightarrow> unat a + unat n \<le> unat b"
proof -
  obtain mid where A: "tiles lo A mid" and a: "unat a = mid" "8 \<le> unat n"
    and C: "tiles (mid + unat n) C hi" using assms by (auto simp: tiles_append)
  show "unat a < hi" using a tiles_le [OF C] by simp
  show 1: "(b, m, v) \<in> set A \<Longrightarrow> unat b + unat m \<le> unat a" for b m v
    using tiles_bounds [OF A] a by auto
  show 2: "(b, m, v) \<in> set C \<Longrightarrow> unat a + unat n \<le> unat b" for b m v
    using tiles_bounds [OF C] a by auto
  show "(a, m, v) \<notin> set A" using 1 [of a m v] tiles_bounds [OF A, of a m v] by auto
  show "(a, m, v) \<notin> set C" using 2 [of a m v] a by auto
qed

subsection \<open>Coalescing on layouts\<close>

lemma merge_cons_simps [simp]:
  "merge_cons x [] = [x]"
  "merge_cons (a, n, u) ((b, m, v) # R) =
     (if u \<or> v then (a, n, u) # (b, m, v) # R else (a, n + m, False) # R)"
  by (auto simp: merge_cons_def)

lemma merge_cons_cases:
  obtains "merge_cons (a, n, u) R = (a, n, u) # R"
  | b m R' where "R = (b, m, False) # R'" and "\<not> u" and "merge_cons (a, n, u) R = (a, n + m, False) # R'"
proof (cases R)
  case Nil
  with that(1) show thesis by simp
next
  case (Cons y R')
  obtain b m v where "y = (b, m, v)" by (cases y)
  with Cons that show thesis by (cases "u \<or> v") auto
qed

lemma used_merge_free [simp]: "used_blocks (merge_free L) = used_blocks L"
proof (induction L)
  case (Cons x L)
  obtain a n u where "x = (a, n, u)" by (cases x)
  with Cons show ?case by (cases a n u "merge_free L" rule: merge_cons_cases) auto
qed simp

lemma no_adjacent_tl: "no_adjacent (x # L) \<Longrightarrow> no_adjacent L"
  by (cases "(x # L)" rule: no_adjacent.cases) auto

lemma no_adjacent_size: "no_adjacent ((a, n, u) # L) = no_adjacent ((b, m, u) # L)"
  by (cases L) auto

lemma no_adjacent_merge_free: "no_adjacent (merge_free L)"
proof (induction L)
  case (Cons x L)
  obtain a n u where "x = (a, n, u)" by (cases x)
  with Cons show ?case
    by (cases "merge_free L") (auto, metis no_adjacent_size)
qed simp

lemma merge_free_id: "no_adjacent L \<Longrightarrow> merge_free L = L"
  by (induction L rule: no_adjacent.induct) auto

lemma no_adjacent_append:
  "no_adjacent (A @ (a, n, u) # C) \<longleftrightarrow>
     no_adjacent (A @ [(a, n, u)]) \<and> no_adjacent ((a, n, u) # C)"
  by (induction A rule: no_adjacent.induct) auto

lemma tiles_merge_free:
  assumes "tiles lo L hi" and "hi < 2 ^ 32"
  shows "tiles lo (merge_free L) hi \<and> free_total (merge_free L) = free_total L"
  using assms
proof (induction lo L hi rule: tiles.induct)
  case (2 lo a n u L hi)
  note prem = "2.prems"(2)
  from 2 have IH: "tiles (lo + unat n) (merge_free L) hi" "free_total (merge_free L) = free_total L"
    and a: "unat a = lo" "8 \<le> unat n" "unat n mod 4 = 0" by auto
  show ?case
  proof (cases a n u "merge_free L" rule: merge_cons_cases)
    case 1
    with IH a show ?thesis by simp
  next
    case (2 b m R')
    with IH have R': "tiles (lo + unat n + unat m) R' hi" "unat m mod 4 = 0" by auto
    have "unat n + unat m < 2 ^ 32" using tiles_le [OF R'(1)] prem by simp
    then have "unat (n + m) = unat n + unat m" by (rule unat_add_small)
    with 2 IH a R' show ?thesis by (auto simp: add.assoc mod_add_eq [symmetric])
  qed
qed simp

text \<open>What coalescing does to the free list when one block is freed.\<close>

lemma merge_front:
  "no_adjacent (A @ [(a, n, True)]) \<Longrightarrow> merge_free C = (a, k, False) # C' \<Longrightarrow>
   merge_free (A @ C) = (if A \<noteq> [] \<and> \<not> snd (snd (last A))
     then butlast A @ (fst (last A), fst (snd (last A)) + k, False) # C' else A @ (a, k, False) # C')"
proof (induction A)
  case (Cons x A)
  obtain b m v where x: "x = (b, m, v)" by (cases x)
  have IH: "merge_free (A @ C) = (if A \<noteq> [] \<and> \<not> snd (snd (last A))
     then butlast A @ (fst (last A), fst (snd (last A)) + k, False) # C' else A @ (a, k, False) # C')"
    using Cons no_adjacent_tl [of x "A @ [(a, n, True)]"] by simp
  show ?case
  proof (cases A)
    case Nil
    with IH x show ?thesis by simp
  next
    case (Cons y A')
    obtain c l w where y: "y = (c, l, w)" by (cases y)
    have "v \<or> w" using Cons.prems(1) x Cons y by simp
    then show ?thesis using IH x y Cons by (cases A') auto
  qed
qed simp

lemma free_last_used:
  assumes "tiles lo (A @ [(p, m, True)]) hi" and "hi < 2 ^ 32" and "free_blocks A \<noteq> []"
  shows "unat (fst (last (free_blocks A)) + snd (last (free_blocks A))) < hi"
proof -
  obtain c k where ck: "last (free_blocks A) = (c, k)" by fastforce
  then have "(c, k, False) \<in> set A" using assms(3) by (metis in_free_blocks last_in_set)
  then have "unat c + unat k \<le> unat p" "unat p < hi"
    using tiles_addr_notin(1,4) [OF assms(1)] by auto
  then show ?thesis using ck assms(2) by (subst unat_add_small) auto
qed

lemma first_free_after:
  assumes "tiles lo C hi" and "hi < 2 ^ 32" and "free_blocks C = (c, m) # F"
    and "unat c = lo" shows "\<exists>C'. C = (c, m, False) # C'"
proof (cases C)
  case (Cons x C')
  obtain b k u where x: "x = (b, k, u)" by (cases x)
  show ?thesis
  proof (cases u)
    case True
    then have "(c, m, False) \<in> set C'"
      using assms(3) Cons x in_free_blocks [of c m C'] by simp
    with tiles_bounds(1) [of "lo + unat k" C' hi c m False] assms(1,4) Cons x show ?thesis by simp
  next
    case False
    with assms(3) Cons x show ?thesis by simp
  qed
qed (use assms in simp)

text \<open>Merging to the right, seen from the block list and from the free list.\<close>

lemma merge_right:
  assumes t: "tiles lo ((a, n, True) # C) hi" and hi: "hi < 2 ^ 32" and na: "no_adjacent C"
  shows "\<exists>d C'. merge_free ((a, n, False) # C) = (a, n + d, False) # C' \<and>
     (\<forall>x y. x + y = a + n \<longrightarrow> coalesce_right (x, y) (free_blocks C) = (x, y + d) # free_blocks C')"
proof -
  have C: "tiles (unat a + unat n) C hi" using t by simp
  have an: "unat (a + n) = unat a + unat n"
    using tiles_le [OF C] hi by (intro unat_add_small) simp
  have mC: "merge_free C = C" by (rule merge_free_id [OF na])
  show ?thesis
  proof (cases "\<exists>c m C'. C = (c, m, False) # C'")
    case True
    then obtain c m C' where C': "C = (c, m, False) # C'" by blast
    then have "unat (a + n) = unat c" using C an by simp
    then have "a + n = c" by (simp add: word_unat_eq_iff)
    with C' mC show ?thesis
      by (intro exI [of _ m] exI [of _ C']) (auto simp: coalesce_right_def)
  next
    case False
    have "merge_free ((a, n, False) # C) = (a, n, False) # C"
      using mC False by (cases C) auto
    moreover have "coalesce_right (x, y) (free_blocks C) = (x, y) # free_blocks C"
      if xy: "x + y = a + n" for x y
    proof (cases "free_blocks C")
      case (Cons cm F)
      obtain c m where cm: "cm = (c, m)" by (cases cm)
      have "unat c \<noteq> unat a + unat n"
        using first_free_after [OF C hi] Cons cm False by blast
      then have "c \<noteq> x + y" using an xy by auto
      with Cons cm show ?thesis by (simp add: coalesce_right_def)
    qed (simp add: coalesce_right_def)
    ultimately show ?thesis by (intro exI [of _ 0] exI [of _ C]) auto
  qed
qed

lemma free_blocks_release:
  assumes t: "tiles lo (A @ (a, n, True) # C) hi" and hi: "hi < 2 ^ 32"
    and na: "no_adjacent (A @ (a, n, True) # C)"
  shows "free_blocks (merge_free (A @ (a, n, False) # C)) =
     coalesce (free_blocks A) (a, n) (free_blocks C)"
proof -
  have A: "tiles lo A (unat a)" and aC: "tiles (unat a) ((a, n, True) # C) hi"
    using t by (auto simp: tiles_append)
  have naA: "no_adjacent (A @ [(a, n, True)])" and naC: "no_adjacent C"
    using no_adjacent_append [THEN iffD1, OF na] no_adjacent_tl by blast+
  obtain d C' where d: "merge_free ((a, n, False) # C) = (a, n + d, False) # C'"
    and cr: "\<And>x y. x + y = a + n \<Longrightarrow> coalesce_right (x, y) (free_blocks C) = (x, y + d) # free_blocks C'"
    using merge_right [OF aC hi naC] by blast
  note front = merge_front [OF naA d]
  show ?thesis
  proof (cases "A \<noteq> [] \<and> \<not> snd (snd (last A))")
    case True
    then obtain A' p m where A': "A = A' @ [(p, m, False)]"
      by (cases A rule: rev_cases) auto
    have "unat p + unat m = unat a" using A A' by (auto simp: tiles_append)
    moreover from this have "unat (p + m) = unat p + unat m"
      using unat_u32 [of a] by (intro unat_add_small) simp
    ultimately have pm: "p + m = a" by (simp add: word_unat_eq_iff)
    then have "p + (m + n) = a + n" by (metis add.assoc)
    from cr [OF this] front A' pm show ?thesis by (simp add: coalesce_def add.assoc)
  next
    case False
    have "\<not> (free_blocks A \<noteq> [] \<and> fst (last (free_blocks A)) + snd (last (free_blocks A)) = a)"
    proof (cases A rule: rev_cases)
      case (snoc A' x)
      with False obtain p m where x: "x = (p, m, True)" by (cases x) auto
      have "unat a < 2 ^ 32" using tiles_le [OF aC] hi by simp
      with free_last_used [of lo A' p m "unat a"] A snoc x show ?thesis by auto
    qed simp
    then have "coalesce (free_blocks A) (a, n) (free_blocks C) =
        free_blocks A @ (a, n + d) # free_blocks C'"
      using cr [of a n] by (auto simp: coalesce_def)
    with front False show ?thesis by auto
  qed
qed

subsection \<open>Release\<close>

lemma tiles_distinct: "tiles lo L hi \<Longrightarrow> distinct (map fst L)"
proof (induction lo L hi rule: tiles.induct)
  case (2 lo a n u L hi)
  then have "tiles (lo + unat n) L hi" "8 \<le> unat n" "unat a = lo" by auto
  then have "a \<notin> fst ` set L" using tiles_bounds(1) [of "lo + unat n" L hi] by fastforce
  with 2 show ?case by simp
qed simp

lemma same_addr:
  assumes "tiles lo L hi" and "(a, n, u) \<in> set L" and "(a, m, v) \<in> set L"
  shows "n = m \<and> u = v"
  using tiles_distinct [OF assms(1)] assms(2,3)
  by (metis distinct_map eq_key_imp_eq_value prod.inject)

lemma heap_invD:
  assumes "heap_inv h L"
  shows "tiles (unat (heap_base h)) L (unat (pxEnd h))" and "flist h (free_blocks L)" and "no_adjacent L"
    and "xBlockAllocatedBit h = 0x80000000" and "unat (pxEnd h) + 8 \<le> 2 ^ 32"
    and "unat (xFreeBytesRemaining h) = free_total L" and "unat (pxEnd h) < 2 ^ 32"
    and "heap_base h \<noteq> 0" and "unat (pxEnd h) - unat (heap_base h) < 2 ^ 31"
    and "unat (heap_base h) mod 4 = 0"
    and "xMinimumEverFreeBytesRemaining h \<le> xFreeBytesRemaining h"
  using assms by (auto simp: heap_inv_def)

lemma heap_inv_used:
  "heap_inv h L \<Longrightarrow> (a, n, True) \<in> set L \<Longrightarrow> size_of h a = n OR 0x80000000 \<and> next_of h a = NULL"
  by (fastforce simp: heap_inv_def in_used_blocks)

lemma heap_inv_block:
  assumes "heap_inv h L" and "(a, n, u) \<in> set L"
  shows "a \<noteq> axStart h" and "a < pxEnd h" and "unat n < 2 ^ 31" and "unat a + 8 < 2 ^ 32"
    and "a \<noteq> 0" and "unat a mod 4 = 0" and "unat a + unat n \<le> unat (pxEnd h)" and "8 \<le> unat n"
    and "unat n mod 4 = 0"
proof -
  note t = heap_invD(1) [OF assms(1)]
  note b = tiles_bounds [OF t assms(2)]
  show "a \<noteq> axStart h" using assms(1) b by (auto simp: heap_inv_def)
  show "a < pxEnd h" using b by (simp add: word_less_nat_alt)
  show "unat n < 2 ^ 31" "unat a + 8 < 2 ^ 32" using b heap_invD(5,9) [OF assms(1)] by auto
  show "a \<noteq> 0" using b heap_invD(8) [OF assms(1)] by (auto simp: unat_eq_zero)
  show "unat a mod 4 = 0" using tiles_mod [OF t assms(2) heap_invD(10) [OF assms(1)]] .
  show "unat a + unat n \<le> unat (pxEnd h)" "8 \<le> unat n" "unat n mod 4 = 0" using b by auto
qed

lemma release_at:
  assumes "tiles lo (A @ (a, n, True) # C) hi"
  shows "release a (A @ (a, n, True) # C) = merge_free (A @ (a, n, False) # C)"
proof -
  have "map (\<lambda>(b, n, u). (b, n, u \<and> b \<noteq> a)) A = A" "map (\<lambda>(b, n, u). (b, n, u \<and> b \<noteq> a)) C = C"
    using tiles_addr_notin(2,3) [OF assms] by (auto intro!: map_idI)
  then show ?thesis by (simp add: release_def)
qed

lemma used_not_free:
  assumes "tiles lo L hi" and "(a, n, True) \<in> set L" shows "a \<notin> fst ` set (free_blocks L)"
proof
  assume "a \<in> fst ` set (free_blocks L)"
  then obtain m where "(a, m, False) \<in> set L" by (auto simp: in_free_blocks)
  from same_addr [OF assms(1,2) this] show False by simp
qed

text \<open>Writes to headers of free blocks, \<open>xStart\<close> and one more address leave the used blocks
  alone.\<close>

lemma used_unchanged:
  assumes inv: "heap_inv h L" and sb: "same_but (insert (axStart h) (insert a (fst ` set (free_blocks L)))) h h'"
    and b: "(b, n, True) \<in> set L" and "b \<noteq> a"
  shows "hmem h' b = hmem h b"
proof (rule same_butD(1) [OF sb])
  have "b \<notin> fst ` set (free_blocks L)"
    using same_addr [OF heap_invD(1) [OF inv] b] in_free_blocks by fastforce
  then show "b \<notin> insert (axStart h) (insert a (fst ` set (free_blocks L)))"
    using heap_inv_block(1) [OF inv b] assms(4) by simp
qed

theorem heap_free_release:
  assumes inv: "heap_inv h L" and a: "(a, n, True) \<in> set L"
  shows "\<exists>h'. heap_free (a + xHeapStructSize) h = Some h' \<and> heap_inv h' (release a L) \<and>
     unat (xFreeBytesRemaining h') = unat (xFreeBytesRemaining h) + unat n \<and>
     xMinimumEverFreeBytesRemaining h' = xMinimumEverFreeBytesRemaining h \<and>
     same_but (insert (axStart h) (insert a (fst ` set (free_blocks L)))) h
       (h'\<lparr>xFreeBytesRemaining := xFreeBytesRemaining h\<rparr>)"
proof -
  obtain A C where L: "L = A @ (a, n, True) # C" using a by (metis in_set_conv_decomp)
  let ?A = "insert (axStart h) (insert a (fst ` set (free_blocks L)))"
  note t = heap_invD(1) [OF inv] and hi = heap_invD(7) [OF inv] and blk = heap_inv_block [OF inv a]
  have t': "tiles (unat (heap_base h)) (A @ (a, n, False) # C) (unat (pxEnd h))"
    using t L by (auto simp: tiles_append)
  define h2 where "h2 = (set_size a n h)\<lparr>xFreeBytesRemaining := xFreeBytesRemaining h + n\<rparr>"
  have hdr: "size_of h a = n OR 0x80000000" "next_of h a = NULL" using heap_inv_used [OF inv a] by auto
  have "unat (a + 8) = unat a + 8" using blk(4) by (subst unat_add_small) auto
  then have "a + 8 \<noteq> 0" by (metis add_is_0 unat_0 zero_neq_numeral)
  then have step: "heap_free (a + xHeapStructSize) h = prvInsertBlockIntoFreeList a h2"
    using hdr blk(3) top_bit_undo [of n] heap_invD(4) [OF inv]
    by (simp add: heap_free_def h2_def top_bit_set)
  have F: "free_blocks L = free_blocks A @ free_blocks C" using L by simp
  have na: "a \<notin> fst ` set (free_blocks L)"
    using same_addr [OF t a] in_free_blocks by fastforce
  have fl2: "flist h2 (free_blocks A @ free_blocks C)"
    using flist_set_size [OF heap_invD(2) [OF inv] na blk(1)] blk(2) F by (simp add: h2_def)
  have "\<exists>h'. prvInsertBlockIntoFreeList a h2 = Some h' \<and>
      flist h' (coalesce (free_blocks A) (a, size_of h2 a) (free_blocks C)) \<and>
      same_but (insert (axStart h2) (insert a (fst ` set (free_blocks A @ free_blocks C)))) h2 h'"
  proof (rule prvInsert_flist [OF fl2])
    show "\<forall>x \<in> fst ` set (free_blocks A). x < a"
      using tiles_addr_notin(4) [of _ A a n True C] t L tiles_bounds(3)
      by (fastforce simp: in_free_blocks word_less_nat_alt)
    show "\<forall>x \<in> fst ` set (free_blocks C). a < x"
      using tiles_addr_notin(5) [of _ A a n True C] t L blk(8)
      by (fastforce simp: in_free_blocks word_less_nat_alt)
  qed (use blk in \<open>auto simp: h2_def\<close>)
  then obtain h' where h': "prvInsertBlockIntoFreeList a h2 = Some h'"
    "flist h' (coalesce (free_blocks A) (a, n) (free_blocks C))" "same_but ?A h2 h'"
    using F by (auto simp: h2_def)
  note sb = same_butD [OF h'(3)]
  have sb': "same_but ?A h (h'\<lparr>xFreeBytesRemaining := xFreeBytesRemaining h\<rparr>)"
    using h'(3) by (auto simp: same_but_def h2_def set_size_def)
  have rel: "release a L = merge_free (A @ (a, n, False) # C)" using release_at t L by simp
  note mt = tiles_merge_free [OF t' hi]
  have fr: "free_blocks (release a L) = coalesce (free_blocks A) (a, n) (free_blocks C)"
    using free_blocks_release [OF t [unfolded L] hi heap_invD(3) [OF inv, unfolded L]] rel by simp
  have tot: "unat (xFreeBytesRemaining h + n) = free_total (release a L)"
  proof -
    have "free_total (release a L) = free_total L + unat n" using mt rel L by simp
    moreover from this mt rel have "free_total L + unat n < 2 ^ 31"
      using free_total_le [of _ "release a L"] heap_invD(9) [OF inv] by (metis le_less_trans)
    ultimately show ?thesis using heap_invD(6) [OF inv] by (subst unat_add_small) auto
  qed
  have "\<forall>(b, m) \<in> set (used_blocks (release a L)). size_of h' b = m OR 0x80000000 \<and> next_of h' b = NULL"
  proof safe
    fix b m
    assume "(b, m) \<in> set (used_blocks (release a L))"
    then have "(b, m, True) \<in> set A \<or> (b, m, True) \<in> set C" using rel by (simp add: in_used_blocks)
    then have bm: "(b, m, True) \<in> set L" "b \<noteq> a"
      using L tiles_addr_notin(2,3) [of _ A a n True C] t by auto
    have "hmem h' b = hmem h b"
      using used_unchanged [OF inv sb' bm] by simp
    then show "size_of h' b = m OR 0x80000000" "next_of h' b = NULL"
      using heap_inv_used [OF inv bm(1)] by auto
  qed
  moreover have "heap_base h' = heap_base h" using sb(4) by (simp add: heap_base_def h2_def)
  moreover have "xMinimumEverFreeBytesRemaining h' \<le> xFreeBytesRemaining h'"
    using heap_invD(6,11) [OF inv] tot mt rel L sb(5,6) by (simp add: h2_def word_le_nat_alt)
  ultimately have "heap_inv h' (release a L)"
    using inv mt h'(2) sb tot fr rel no_adjacent_merge_free [of "A @ (a, n, False) # C"]
    by (simp add: heap_inv_def h2_def)
  moreover have "unat (xFreeBytesRemaining h') = unat (xFreeBytesRemaining h) + unat n"
    using sb(5) tot mt rel L heap_invD(6) [OF inv] by (simp add: h2_def)
  ultimately show ?thesis using step h'(1) sb(6) sb' by (auto simp: h2_def)
qed

subsection \<open>Allocation\<close>

lemma alloc_first_Some:
  "alloc_first w L = Some (a, L') \<Longrightarrow> \<exists>A n C. L = A @ (a, n, False) # C \<and> w \<le> n \<and>
     (\<forall>x \<in> set (free_blocks A). snd x < w) \<and>
     L' = A @ (if n - w > heapMINIMUM_BLOCK_SIZE then [(a, w, True), (a + w, n - w, False)]
               else [(a, n, True)]) @ C"
proof (induction L arbitrary: L')
  case (Cons x L)
  obtain b m u where x: "x = (b, m, u)" by (cases x)
  show ?case
  proof (cases "\<not> u \<and> w \<le> m")
    case True
    with Cons.prems x show ?thesis
      by (intro exI [of _ "[]"] exI [of _ m] exI [of _ L]) (auto split: if_splits)
  next
    case False
    with Cons.prems x obtain L'' where L'': "alloc_first w L = Some (a, L'')" "L' = x # L''" by auto
    with Cons.IH obtain A n C where "L = A @ (a, n, False) # C" "w \<le> n"
      "\<forall>x \<in> set (free_blocks A). snd x < w"
      "L'' = A @ (if n - w > heapMINIMUM_BLOCK_SIZE then [(a, w, True), (a + w, n - w, False)]
                  else [(a, n, True)]) @ C" by blast
    with L'' False x show ?thesis
      by (intro exI [of _ "x # A"] exI [of _ n] exI [of _ C]) (auto simp: not_le)
  qed
qed simp

lemma alloc_first_None:
  "alloc_first w L = None \<longleftrightarrow> (\<forall>x \<in> set (free_blocks L). snd x < w)"
  by (induction L rule: free_blocks.induct) (auto simp: not_le)

lemma rounded_size_unat:
  assumes "0 < n" and "unat n < 2 ^ 31"
  shows "unat (rounded_size n) = 4 * ((unat n + 11) div 4)"
proof -
  have s: "unat (n + 8) = unat n + 8" using assms(2) by (subst unat_add_small) auto
  show ?thesis
  proof (cases "(n + 8) AND 3 = 0")
    case True
    then have "rounded_size n = n + 8" using assms(1) by (simp add: rounded_size_def)
    moreover have "(unat n + 8) mod 4 = 0" using True s and_3_eq_0 [of "n + 8"] by simp
    then have "unat n + 8 = 4 * ((unat n + 11) div 4)" by presburger
    ultimately show ?thesis using s by simp
  next
    case False
    let ?p = "4 - ((n + 8) AND 3)"
    have p: "unat ?p = 4 - (unat n + 8) mod 4"
      by (subst unat_sub_small) (auto simp: unat_and_3 s)
    then have "unat (n + 8 + ?p) = unat n + 8 + (4 - (unat n + 8) mod 4)"
      using s assms(2) by (subst unat_add_small) auto
    moreover have "rounded_size n = n + 8 + ?p" using assms(1) False by (simp add: rounded_size_def Let_def)
    moreover have "(unat n + 8) mod 4 \<noteq> 0" using False s and_3_eq_0 [of "n + 8"] by simp
    then have "unat n + 8 + (4 - (unat n + 8) mod 4) = 4 * ((unat n + 11) div 4)" by presburger
    ultimately show ?thesis by simp
  qed
qed

lemma flist_remove:
  assumes fl: "flist h (F1 @ (a, n) # F2)"
  shows "flist (set_next (last (axStart h # map fst F1)) (next_of h a) h) (F1 @ F2)"
    and "next_of h (last (axStart h # map fst F1)) = a"
proof -
  let ?s = "axStart h" and ?e = "pxEnd h" and ?it = "last (axStart h # map fst F1)"
  let ?h = "set_next ?it (next_of h a) h"
  have ch: "chain h ?s (map fst F1)" "next_of h ?it = a" "chain h a (map fst F2 @ [?e])"
    using fl by (auto simp: flist_def chain_append)
  then show "next_of h ?it = a" by simp
  have dist: "distinct (?s # ?e # map fst F1 @ a # map fst F2)" using fl by (simp add: flist_def)
  have ne: "c \<noteq> ?it" if "c \<in> set (butlast (?s # map fst F1))" for c
    using that dist by (cases F1 rule: rev_cases) auto
  have 1: "chain ?h ?s (map fst F1)"
    using ch(1) by (subst chain_cong [of _ _ _ h]) (use ne in \<open>auto simp del: last.simps\<close>)
  have disj: "?it \<notin> insert ?e (fst ` set F2)"
  proof -
    have "insert ?s (fst ` set F1) \<inter> insert ?e (fst ` set F2) = {}" using dist by auto
    with last_Cons_mem [of ?s "map fst F1"] show ?thesis by (metis disjoint_iff list.set_map)
  qed
  have 2: "chain ?h ?it (map fst F2 @ [?e])"
  proof (cases F2)
    case Nil
    with ch show ?thesis by (simp del: last.simps)
  next
    case (Cons x F)
    have "chain ?h (fst x) (map fst F @ [?e]) = chain h (fst x) (map fst F @ [?e])"
      by (rule chain_cong) (use disj Cons in \<open>auto simp del: last.simps simp: image_iff\<close>)
    with ch Cons show ?thesis by (simp del: last.simps)
  qed
  have "chain ?h ?s (map fst F1 @ map fst F2 @ [?e])"
    using 1 2 by (cases F2) (auto simp: chain_append simp del: last.simps)
  moreover have "next_of ?h ?e = NULL" using fl disj by (auto simp: flist_def simp del: last.simps)
  ultimately show "flist ?h (F1 @ F2)"
    using fl by (simp add: flist_def del: last.simps)
qed

lemma flist_set_next:
  assumes "flist h F" and "a \<notin> fst ` set F" and "a \<noteq> axStart h" and "a \<noteq> pxEnd h"
  shows "flist (set_next a p h) F"
proof -
  have "chain (set_next a p h) (axStart h) (map fst F @ [pxEnd h]) =
      chain h (axStart h) (map fst F @ [pxEnd h])"
    by (rule chain_cong) (use assms in \<open>auto simp: image_iff\<close>)
  with assms show ?thesis by (simp add: flist_def)
qed

text \<open>Inserting a block that touches no free neighbour.\<close>

lemma coalesce_none:
  assumes "F1 \<noteq> [] \<Longrightarrow> fst (last F1) + snd (last F1) \<noteq> fst bn"
    and "F2 \<noteq> [] \<Longrightarrow> fst bn + snd bn \<noteq> fst (hd F2)"
  shows "coalesce F1 bn F2 = F1 @ bn # F2"
  using assms by (cases F2) (auto simp: coalesce_def coalesce_right_def)

lemma free_blocks_below:
  assumes "tiles lo (A @ (a, n, u) # C) hi" and "hi < 2 ^ 32"
  shows "x \<in> set (free_blocks A) \<Longrightarrow> unat (fst x + snd x) \<le> unat a \<and> fst x < a"
    and "x \<in> set (free_blocks C) \<Longrightarrow> unat a + unat n \<le> unat (fst x) \<and> a < fst x"
proof -
  have n: "8 \<le> unat n" using tiles_bounds(3) [OF assms(1)] by fastforce
  note t = tiles_addr_notin [OF assms(1)]
  show "x \<in> set (free_blocks A) \<Longrightarrow> unat (fst x + snd x) \<le> unat a \<and> fst x < a"
  proof -
    assume x: "x \<in> set (free_blocks A)"
    then have m: "(fst x, snd x, False) \<in> set A" using in_free_blocks by (metis prod.collapse)
    with t(4) have "unat (fst x) + unat (snd x) \<le> unat a" by blast
    moreover from this t(1) assms(2) have "unat (fst x + snd x) = unat (fst x) + unat (snd x)"
      by (intro unat_add_small) simp
    moreover have "8 \<le> unat (snd x)" using tiles_bounds(3) [OF assms(1)] m by fastforce
    ultimately show ?thesis by (simp add: word_less_nat_alt)
  qed
  show "x \<in> set (free_blocks C) \<Longrightarrow> unat a + unat n \<le> unat (fst x) \<and> a < fst x"
  proof -
    assume x: "x \<in> set (free_blocks C)"
    then have "(fst x, snd x, False) \<in> set C" using in_free_blocks by (metis prod.collapse)
    with t(5) n show ?thesis by (fastforce simp: word_less_nat_alt)
  qed
qed

lemma split_block_spec:
  assumes inv: "heap_inv h (A @ (a, n, False) # C)" and w: "w \<le> n" "8 \<le> unat w" "unat w mod 4 = 0"
    and h1: "flist h1 (free_blocks (A @ C))" "size_of h1 a = n" "pxEnd h1 = pxEnd h" "axStart h1 = axStart h"
  shows "\<exists>h2 k R. split_block a w h1 = Some h2 \<and> size_of h2 a = k \<and>
     (if n - w > heapMINIMUM_BLOCK_SIZE then [(a, w, True), (a + w, n - w, False)] else [(a, n, True)])
       = (a, k, True) # R \<and>
     flist h2 (free_blocks (A @ (a, k, True) # R @ C)) \<and>
     same_but (insert (axStart h) (insert a (fst ` set (free_blocks (A @ (a, k, True) # R @ C))))) h1 h2"
proof (cases "n - w > heapMINIMUM_BLOCK_SIZE")
  case False
  with h1 show ?thesis by (auto simp: split_block_def)
next
  case True
  let ?new = "a + w"
  let ?L = "A @ (a, n, False) # C"
  note t = heap_invD(1) [OF inv] and hi = heap_invD(7) [OF inv]
  note blk = heap_inv_block [OF inv, of a n False, simplified]
  note below = free_blocks_below [OF t hi]
  have wn: "unat w \<le> unat n" "unat (n - w) = unat n - unat w" "16 < unat n - unat w"
    using w(1) True by (simp_all add: word_le_nat_alt word_less_nat_alt unat_sub_small)
  have new: "unat ?new = unat a + unat w" using wn blk(7) hi by (intro unat_add_small) simp
  define h1' where "h1' = set_size a w (set_size ?new (n - w) h1)"
  have "unat ?new mod 4 = 0" using new blk(6) w(3) by (metis add.right_neutral mod_add_eq mod_0)
  moreover have ne: "?new \<noteq> a" using new w(2) by auto
  ultimately have step: "split_block a w h1 = prvInsertBlockIntoFreeList ?new h1'"
    using True h1 and_3_eq_0 [of ?new] by (simp add: split_block_def h1'_def Let_def)
  have newe: "?new < pxEnd h" using new wn blk(7) by (simp add: word_less_nat_alt)
  have news: "?new \<noteq> axStart h"
  proof
    assume "?new = axStart h"
    with new have "unat (axStart h) = unat a + unat w" by simp
    moreover have "unat (heap_base h) \<le> unat a" using tiles_bounds(1) [OF t] by auto
    moreover have "unat a + unat w < unat (pxEnd h)" using newe new by (simp add: word_less_nat_alt)
    ultimately show False using inv by (auto simp: heap_inv_def)
  qed
  have F1: "\<forall>x \<in> fst ` set (free_blocks A). x < ?new"
    using below(1) new by (fastforce simp: word_less_nat_alt)
  have F2: "\<forall>x \<in> fst ` set (free_blocks C). ?new < x"
    using below(2) new wn by (fastforce simp: word_less_nat_alt)
  have notin: "a \<notin> fst ` set (free_blocks (A @ C))" "?new \<notin> fst ` set (free_blocks (A @ C))"
    using below F1 F2 by auto
  have fl: "flist h1' (free_blocks A @ free_blocks C)"
    unfolding h1'_def
    by (intro flist_set_size) (use notin h1 news newe blk in auto)
  have "\<exists>h2. prvInsertBlockIntoFreeList ?new h1' = Some h2 \<and>
      flist h2 (coalesce (free_blocks A) (?new, size_of h1' ?new) (free_blocks C)) \<and>
      same_but (insert (axStart h1') (insert ?new (fst ` set (free_blocks A @ free_blocks C)))) h1' h2"
    by (rule prvInsert_flist [OF fl F1 F2]) (use h1 newe news in \<open>auto simp: h1'_def\<close>)
  then obtain h2 where h2: "prvInsertBlockIntoFreeList ?new h1' = Some h2"
    "flist h2 (coalesce (free_blocks A) (?new, n - w) (free_blocks C))"
    "same_but (insert (axStart h) (insert ?new (fst ` set (free_blocks (A @ C))))) h1' h2"
    using ne h1 by (auto simp: h1'_def)
  have "coalesce (free_blocks A) (?new, n - w) (free_blocks C) = free_blocks A @ (?new, n - w) # free_blocks C"
  proof (rule coalesce_none)
    assume "free_blocks A \<noteq> []"
    then have "unat (fst (last (free_blocks A)) + snd (last (free_blocks A))) \<le> unat a"
      using below(1) last_in_set by blast
    then show "fst (last (free_blocks A)) + snd (last (free_blocks A)) \<noteq> fst (?new, n - w)"
      using new w(2) by auto
  next
    assume ne2: "free_blocks C \<noteq> []"
    then obtain c m F where c: "free_blocks C = (c, m) # F" by (metis neq_Nil_conv surj_pair)
    have an: "unat (a + n) = unat a + unat n" using blk(7) hi by (intro unat_add_small) simp
    have tC: "tiles (unat a + unat n) C (unat (pxEnd h))" using t by (auto simp: tiles_append)
    have "no_adjacent ((a, n, False) # C)"
      using no_adjacent_append [THEN iffD1, OF heap_invD(3) [OF inv]] by blast
    then have "unat c \<noteq> unat a + unat n" using first_free_after [OF tC hi c] by auto
    with an c show "fst (?new, n - w) + snd (?new, n - w) \<noteq> fst (hd (free_blocks C))" by auto
  qed
  moreover have "size_of h2 a = w"
    using same_butD(1) [OF h2(3), of a] notin(1) ne blk(1) by (simp add: h1'_def)
  moreover have "same_but (insert (axStart h) (insert a (insert ?new (fst ` set (free_blocks (A @ C)))))) h1 h2"
    using h2(3) by (auto simp: same_but_def h1'_def set_size_def)
  ultimately show ?thesis using step h2 True
    by (intro exI [of _ h2] exI [of _ w] exI [of _ "[(a + w, n - w, False)]"])
      (auto simp: insert_commute)
qed

lemma hand_out_spec:
  shows "hmem (hand_out a h) b = (if b = a then \<lparr>pxNextFreeBlock = NULL,
      xBlockSize = size_of h a OR xBlockAllocatedBit h\<rparr> else hmem h b)"
    and "xFreeBytesRemaining (hand_out a h) = xFreeBytesRemaining h - size_of h a"
    and "xMinimumEverFreeBytesRemaining (hand_out a h) =
      min (xMinimumEverFreeBytesRemaining h) (xFreeBytesRemaining h - size_of h a)"
    and "pxEnd (hand_out a h) = pxEnd h" and "axStart (hand_out a h) = axStart h"
    and "aucHeap (hand_out a h) = aucHeap h"
    and "xBlockAllocatedBit (hand_out a h) = xBlockAllocatedBit h"
  by (auto simp: hand_out_def Let_def min_def set_next_def set_size_def)

lemma flist_hand_out:
  assumes "flist h F" and "a \<notin> fst ` set F" and "a \<noteq> axStart h" and "a \<noteq> pxEnd h"
  shows "flist (hand_out a h) F"
  using assms
  by (simp add: hand_out_def Let_def flist_set_next flist_set_size)

text \<open>The block list after an allocation is a layout again.\<close>

lemma layout_after_take:
  assumes inv: "heap_inv h (A @ (a, n, False) # C)" and w: "w \<le> n" "8 \<le> unat w" "unat w mod 4 = 0"
    and kR: "(if n - w > heapMINIMUM_BLOCK_SIZE then [(a, w, True), (a + w, n - w, False)]
              else [(a, n, True)]) = (a, k, True) # R"
  shows "tiles (unat (heap_base h)) (A @ (a, k, True) # R @ C) (unat (pxEnd h))"
    and "no_adjacent (A @ (a, k, True) # R @ C)"
    and "free_total (A @ (a, k, True) # R @ C) + unat k = free_total (A @ (a, n, False) # C)"
    and "used_blocks (A @ (a, k, True) # R @ C) = used_blocks A @ (a, k) # used_blocks C"
    and "unat k \<le> unat n"
proof -
  note t = heap_invD(1) [OF inv] and hi = heap_invD(7) [OF inv]
  note blk = heap_inv_block [OF inv, of a n False, simplified]
  have na: "no_adjacent (A @ [(a, n, False)])" "no_adjacent ((a, n, False) # C)"
    using no_adjacent_append [THEN iffD1, OF heap_invD(3) [OF inv]] by blast+
  have wn: "unat w \<le> unat n" "unat (n - w) = unat n - unat w"
    using w(1) by (simp_all add: word_le_nat_alt unat_sub_small)
  have "unat (a + w) = unat a + unat w" using wn blk(7) hi by (intro unat_add_small) simp
  moreover have "(unat n - unat w) mod 4 = 0" using blk(9) w(3) wn(1) by (metis dvd_diff_nat dvd_eq_mod_eq_0)
  moreover have "16 < unat n - unat w" if "n - w > heapMINIMUM_BLOCK_SIZE"
    using that wn by (simp add: word_less_nat_alt)
  ultimately show "tiles (unat (heap_base h)) (A @ (a, k, True) # R @ C) (unat (pxEnd h))"
    using t kR w wn blk by (auto simp: tiles_append split: if_splits)
  have "no_adjacent (A @ [(a, k, True)])"
    using na(1) by (induction A rule: no_adjacent.induct) auto
  moreover have "no_adjacent ((a + w, n - w, False) # C)" "no_adjacent C"
    using na(2) no_adjacent_size no_adjacent_tl by blast+
  then have "no_adjacent ((a, k, True) # R @ C)"
    using kR by (cases C) (auto split: if_splits)
  ultimately show "no_adjacent (A @ (a, k, True) # R @ C)"
    using no_adjacent_append by blast
  show "free_total (A @ (a, k, True) # R @ C) + unat k = free_total (A @ (a, n, False) # C)"
    using kR wn by (auto split: if_splits)
  show "used_blocks (A @ (a, k, True) # R @ C) = used_blocks A @ (a, k) # used_blocks C" "unat k \<le> unat n"
    using kR wn by (auto split: if_splits)
qed

lemma take_block_spec:
  assumes inv: "heap_inv h (A @ (a, n, False) # C)" and w: "w \<le> n" "8 \<le> unat w" "unat w mod 4 = 0"
    and L': "L' = A @ (if n - w > heapMINIMUM_BLOCK_SIZE then [(a, w, True), (a + w, n - w, False)]
              else [(a, n, True)]) @ C"
  shows "\<exists>h'. take_block (last (axStart h # map fst (free_blocks A))) a w h = Some (a + 8, h') \<and>
     heap_inv h' L' \<and> heap_base h' = heap_base h \<and> pxEnd h' = pxEnd h"
proof -
  let ?p = "last (axStart h # map fst (free_blocks A))"
  define h1 where "h1 = set_next ?p (next_of h a) h"
  note t = heap_invD(1) [OF inv] and hi = heap_invD(7) [OF inv]
  note blk = heap_inv_block [OF inv, of a n False, simplified]
  have fl: "flist h (free_blocks A @ (a, n) # free_blocks C)" using heap_invD(2) [OF inv] by simp
  note rem = flist_remove [OF fl]
  have "size_of h a = n" using fl by (auto simp: flist_def)
  then have h1: "flist h1 (free_blocks (A @ C))" "size_of h1 a = n" "pxEnd h1 = pxEnd h" "axStart h1 = axStart h"
    using rem by (simp_all add: h1_def)
  obtain h2 k R where h2: "split_block a w h1 = Some h2" "size_of h2 a = k"
    and kR: "(if n - w > heapMINIMUM_BLOCK_SIZE then [(a, w, True), (a + w, n - w, False)] else [(a, n, True)])
       = (a, k, True) # R"
    and fl2: "flist h2 (free_blocks (A @ (a, k, True) # R @ C))"
    and sb: "same_but (insert (axStart h) (insert a (fst ` set (free_blocks (A @ (a, k, True) # R @ C))))) h1 h2"
    using split_block_spec [OF inv w h1] by blast
  let ?L = "A @ (a, k, True) # R @ C"
  note lay = layout_after_take [OF inv w kR]
  note sbD = same_butD [OF sb]
  define h' where "h' = hand_out a h2"
  note out = hand_out_spec [where h = h2 and a = a, folded h'_def]
  have step: "take_block ?p a w h = Some (a + 8, h')"
    using h2(1) rem(2) by (simp add: take_block_def h1_def h'_def del: last.simps)
  have aF: "a \<notin> fst ` set (free_blocks ?L)"
    by (rule used_not_free [OF lay(1), of a k]) simp
  have fl': "flist h' (free_blocks ?L)"
    unfolding h'_def by (rule flist_hand_out [OF fl2 aF]) (use blk sbD h1 in auto)
  have others: "hmem h' b = hmem h b" if b: "(b, m, True) \<in> set ?L" "b \<noteq> a" for b m
  proof -
    have "b \<notin> fst ` set (free_blocks ?L)"
      by (rule used_not_free [OF lay(1) b(1)])
    moreover have "(b, m) \<in> set (used_blocks ?L)" using b(1) in_used_blocks by blast
    then have "(b, m) \<in> set (used_blocks A @ used_blocks C)" using lay(4) b(2) by auto
    then have "(b, m, True) \<in> set (A @ (a, n, False) # C)" by (auto simp: in_used_blocks)
    then have "b \<noteq> axStart h" by (rule heap_inv_block(1) [OF inv])
    moreover have "?p \<in> insert (axStart h) (fst ` set (free_blocks ?L))"
      using last_Cons_mem [of "axStart h" "map fst (free_blocks A)"] by (simp del: last.simps) blast
    ultimately have "b \<noteq> ?p" "b \<notin> insert (axStart h) (insert a (fst ` set (free_blocks ?L)))"
      using b(2) by (metis insertE)+
    with sbD(1) have "hmem h2 b = hmem h b" by (simp add: h1_def set_next_def del: last.simps)
    with b(2) out(1) show ?thesis by simp
  qed
  have bit: "xBlockAllocatedBit h2 = 0x80000000"
    using sbD heap_invD(4) [OF inv] by (simp add: h1_def)
  have "size_of h' b = m OR 0x80000000 \<and> next_of h' b = NULL" if "(b, m) \<in> set (used_blocks ?L)" for b m
  proof (cases "b = a")
    case True
    then have "m = k" using that same_addr [OF lay(1), of a k True m True] by (auto simp: in_used_blocks)
    with True out(1) h2(2) bit show ?thesis by simp
  next
    case False
    from that have b: "(b, m, True) \<in> set ?L" by (simp add: in_used_blocks)
    have "(b, m) \<in> set (used_blocks A @ used_blocks C)" using that False lay(4) by auto
    then have "(b, m, True) \<in> set (A @ (a, n, False) # C)" by (auto simp: in_used_blocks)
    from heap_inv_used [OF inv this] others [OF b False] show ?thesis by simp
  qed
  then have used: "\<forall>(b, m) \<in> set (used_blocks ?L). size_of h' b = m OR 0x80000000 \<and> next_of h' b = NULL"
    by blast
  have "unat (xFreeBytesRemaining h - k) = free_total ?L"
    using lay(3) heap_invD(6) [OF inv] by (subst unat_sub_small) (auto simp: word_le_nat_alt)
  moreover have "xFreeBytesRemaining h' = xFreeBytesRemaining h - k"
    using out(2) h2(2) sbD(5) by (simp add: h1_def)
  moreover have "heap_base h' = heap_base h" "pxEnd h' = pxEnd h" "axStart h' = axStart h"
    "xBlockAllocatedBit h' = 0x80000000" "xMinimumEverFreeBytesRemaining h' \<le> xFreeBytesRemaining h'"
    using out sbD bit by (auto simp: heap_base_def h1_def)
  moreover have "L' = ?L" using L' kR by simp
  ultimately show ?thesis
    using step inv lay(1,2) fl' used by (intro exI [of _ h']) (simp add: heap_inv_def)
qed

text \<open>The abstract allocator: the request is rounded up to a multiple of four plus the header and
  served from the first free block that is large enough.\<close>

definition malloc_spec :: "u32 \<Rightarrow> blk list \<Rightarrow> ptr \<times> blk list" where
  "malloc_spec n L =
     (if n = 0 \<or> 2 ^ 31 \<le> unat n then (NULL, L)
      else case alloc_first (rounded_size n) L of None \<Rightarrow> (NULL, L) | Some (a, L') \<Rightarrow> (a + 8, L'))"

lemma heap_inv_pxEnd: "heap_inv h L \<Longrightarrow> pxEnd h \<noteq> NULL"
  using heap_invD(1,8) [of h L] tiles_le by (fastforce simp: unat_eq_0 [symmetric])

lemma heap_inv_chain:
  assumes "heap_inv h L" 
  shows "chain h (axStart h) (map fst (free_blocks L) @ [pxEnd h])"
    and "\<forall>x \<in> set (free_blocks L). size_of h (fst x) = snd x" and "NULL \<notin> fst ` set (free_blocks L)"
    and "next_of h (pxEnd h) = NULL"
proof -
  show "chain h (axStart h) (map fst (free_blocks L) @ [pxEnd h])" "next_of h (pxEnd h) = NULL"
    "\<forall>x \<in> set (free_blocks L). size_of h (fst x) = snd x"
    using heap_invD(2) [OF assms] by (auto simp: flist_def)
  show "NULL \<notin> fst ` set (free_blocks L)"
    using heap_inv_block(5) [OF assms] by (auto simp: in_free_blocks) blast
qed

lemma find_fit_None:
  assumes inv: "heap_inv h L" and none: "alloc_first w L = None"
  shows "\<exists>p. find_fit h (axStart h) (next_of h (axStart h)) w = Some (p, pxEnd h)"
proof -
  note c = heap_inv_chain [OF inv]
  have "find_fit h (axStart h) (next_of h (axStart h)) w =
      Some (last (axStart h # map fst (free_blocks L)), pxEnd h)"
    by (rule find_fit_chain [where ys = "[]"])
      (use c none heap_inv_pxEnd [OF inv] in \<open>auto simp: alloc_first_None\<close>)
  then show ?thesis by blast
qed

lemma find_fit_Some:
  assumes inv: "heap_inv h (A @ (a, n, False) # C)" and w: "w \<le> n" "\<forall>x \<in> set (free_blocks A). snd x < w"
  shows "find_fit h (axStart h) (next_of h (axStart h)) w =
    Some (last (axStart h # map fst (free_blocks A)), a)"
proof (rule find_fit_chain)
  note c = heap_inv_chain [OF inv]
  show "chain h (axStart h) (map fst (free_blocks A) @ a # map fst (free_blocks C) @ [pxEnd h])"
    using c(1) by simp
  show "\<forall>x\<in>set (free_blocks A). size_of h (fst x) < w" using c(2) w(2) by simp
  show "\<not> (size_of h a < w \<and> next_of h a \<noteq> NULL)" using c(2) w(1) by auto
qed (use heap_inv_chain [OF inv] heap_inv_pxEnd [OF inv] in auto)

lemma alloc_first_total:
  assumes "alloc_first w L = Some (a, L')" shows "unat w \<le> free_total L"
proof -
  obtain A n C where "L = A @ (a, n, False) # C" "w \<le> n" using alloc_first_Some [OF assms] by blast
  then show ?thesis by (simp add: word_le_nat_alt)
qed

theorem heap_malloc_spec:
  assumes inv: "heap_inv h L"
  shows "\<exists>h'. heap_malloc n h = Some (fst (malloc_spec n L), h') \<and> heap_inv h' (snd (malloc_spec n L)) \<and>
     heap_base h' = heap_base h \<and> pxEnd h' = pxEnd h"
proof -
  note e = heap_inv_pxEnd [OF inv] and bit = heap_invD(4) [OF inv]
  let ?w = "rounded_size n"
  consider "2 ^ 31 \<le> unat n" | "n = 0" | "0 < n" "unat n < 2 ^ 31"
    using not_le word_gt_0 [of n] by blast
  then show ?thesis
  proof cases
    case 1
    then have "n AND 0x80000000 \<noteq> 0" using top_bit_clear [of n] by auto
    with e bit inv 1 show ?thesis by (auto simp: heap_malloc_def malloc_spec_def)
  next
    case 2
    with e bit inv show ?thesis
      by (auto simp: heap_malloc_def malloc_spec_def rounded_size_def)
  next
    case 3
    have clear: "n AND 0x80000000 = 0" using top_bit_clear [of n] 3(2) by auto
    have wn: "unat ?w = 4 * ((unat n + 11) div 4)" by (rule rounded_size_unat [OF 3])
    have w: "8 \<le> unat ?w" "unat ?w mod 4 = 0" "0 < ?w"
    proof -
      have "0 < unat n" using 3(1) by (simp add: word_less_nat_alt)
      then have "12 div 4 \<le> (unat n + 11) div 4" by (intro div_le_mono) simp
      with wn show "8 \<le> unat ?w" "unat ?w mod 4 = 0" "0 < ?w" by (auto simp: word_less_nat_alt)
    qed
    show ?thesis
    proof (cases "alloc_first ?w L")
      case None
      obtain p where "find_fit h (axStart h) (next_of h (axStart h)) ?w = Some (p, pxEnd h)"
        using find_fit_None [OF inv None] by blast
      with e bit inv 3 None w clear and_3_eq_0 [of ?w] show ?thesis
        by (auto simp: heap_malloc_def malloc_spec_def Let_def)
    next
      case (Some r)
      then obtain a L' where L': "alloc_first ?w L = Some (a, L')" by (cases r) auto
      obtain A m C where L: "L = A @ (a, m, False) # C" and m: "?w \<le> m"
        "\<forall>x \<in> set (free_blocks A). snd x < ?w"
        and L'_eq: "L' = A @ (if m - ?w > heapMINIMUM_BLOCK_SIZE then [(a, ?w, True), (a + ?w, m - ?w, False)]
               else [(a, m, True)]) @ C"
        using alloc_first_Some [OF L'] by blast
      note blk = heap_inv_block [OF inv [unfolded L], of a m False, simplified]
      obtain h' where h': "take_block (last (axStart h # map fst (free_blocks A))) a ?w h = Some (a + 8, h')"
        "heap_inv h' L'" "heap_base h' = heap_base h" "pxEnd h' = pxEnd h"
        using take_block_spec [OF inv [unfolded L] m(1) w(1,2) L'_eq] by blast
      have "unat (a + 8) = unat a + 8" using blk(4) by (intro unat_add_small [THEN trans]) auto
      then have al: "(a + 8) AND 3 = 0" using and_3_eq_0 [of "a + 8"] blk(6) by presburger
      have "?w \<le> xFreeBytesRemaining h"
        using alloc_first_total [OF L'] heap_invD(6) [OF inv] by (simp add: word_le_nat_alt)
      with e bit 3 L' w clear al and_3_eq_0 [of ?w] find_fit_Some [OF inv [unfolded L] m] blk(2) h'
      show ?thesis by (auto simp: heap_malloc_def malloc_spec_def Let_def simp del: last.simps)
    qed
  qed
qed

subsection \<open>Initialisation\<close>

text \<open>What the linker must give: \<open>ucHeap\<close> does not start at address 0 or run past the end of the
  address space, and \<open>xStart\<close> lies outside it.\<close>

definition heap_placed :: "heap_t \<Rightarrow> bool" where
  "heap_placed h \<longleftrightarrow> aucHeap h \<noteq> 0 \<and> unat (aucHeap h) + 65536 < 2 ^ 32 \<and>
     (unat (axStart h) + 8 \<le> unat (aucHeap h) \<or> unat (aucHeap h) + 65536 \<le> unat (axStart h))"

definition initial_layout :: "heap_t \<Rightarrow> blk list" where
  "initial_layout h =
     (let e = ((aucHeap h + configTOTAL_HEAP_SIZE) - xHeapStructSize) AND NOT portBYTE_ALIGNMENT_MASK
      in [(heap_base h, e - heap_base h, False)])"

lemma heap_base_unat:
  assumes "heap_placed h"
  shows "unat (heap_base h) = 4 * ((unat (aucHeap h) + 3) div 4)"
proof (cases "aucHeap h AND 3 = 0")
  case True
  then have "unat (aucHeap h) mod 4 = 0" by (simp add: and_3_eq_0)
  then show ?thesis using True by (simp add: heap_base_def) presburger
next
  case False
  have "unat (aucHeap h + 3) = unat (aucHeap h) + 3"
    using assms by (subst unat_add_small) (auto simp: heap_placed_def)
  then have "unat (heap_base h) = unat (aucHeap h) + 3 - (unat (aucHeap h) + 3) mod 4"
    using False by (simp only: heap_base_def heap_consts if_True unat_and_not_3)
      (simp add: unat_and_not_3 [simplified])
  then show ?thesis by presburger
qed

lemma heap_end_unat:
  assumes "heap_placed h"
  shows "unat ((aucHeap h + 65536 - 8) AND NOT 3) = 4 * (unat (aucHeap h) div 4) + 65528"
proof -
  have "unat (aucHeap h + 65536) = unat (aucHeap h) + 65536"
    using assms by (subst unat_add_small) (auto simp: heap_placed_def)
  then have "unat (aucHeap h + 65536 - 8) = unat (aucHeap h) + 65528"
    by (subst unat_sub_small) (auto simp: word_le_nat_alt)
  then have "unat ((aucHeap h + 65536 - 8) AND NOT 3) = unat (aucHeap h) + 65528 - (unat (aucHeap h) + 65528) mod 4"
    by (simp only: unat_and_not_3)
  then show ?thesis by presburger
qed

lemma prvHeapInit_eq:
  fixes h :: heap_t
  defines "e \<equiv> (aucHeap h + 65536 - 8) AND NOT 3"
  assumes "heap_base h \<noteq> e"
  shows "prvHeapInit h =
    (set_next (heap_base h) e (set_size (heap_base h) (e - heap_base h)
      (set_next e NULL (set_size e 0
        ((set_size (axStart h) 0 (set_next (axStart h) (heap_base h) h))\<lparr>pxEnd := e\<rparr>)))))
    \<lparr>xMinimumEverFreeBytesRemaining := e - heap_base h, xFreeBytesRemaining := e - heap_base h,
     xBlockAllocatedBit := 0x80000000\<rparr>"
proof -
  have "heap_base h + (if aucHeap h AND 3 \<noteq> 0 then 65536 - (heap_base h - aucHeap h) else 65536) - 8 =
      aucHeap h + 65536 - 8"
    by (simp add: heap_base_def)
  then show ?thesis
    using assms(2)
    by (cases "aucHeap h AND 3 = 0")
      (simp_all add: prvHeapInit_def heap_base_def Let_def e_def push_bit_eq_mult)
qed

theorem prvHeapInit_inv:
  assumes p: "heap_placed h"
  shows "heap_inv (prvHeapInit h) (initial_layout h) \<and>
     65520 \<le> unat (xFreeBytesRemaining (prvHeapInit h)) \<and> heap_base (prvHeapInit h) = heap_base h"
proof -
  define b where "b = heap_base h"
  define e where "e = (aucHeap h + 65536 - 8) AND NOT 3"
  have b: "unat b = 4 * ((unat (aucHeap h) + 3) div 4)" and e: "unat e = 4 * (unat (aucHeap h) div 4) + 65528"
    using heap_base_unat [OF p] heap_end_unat [OF p] by (simp_all only: b_def e_def)
  have be: "unat b + 65524 \<le> unat e" using b e by presburger
  then have le: "b \<le> e" "b \<noteq> e" by (auto simp: word_le_nat_alt)
  have sz: "unat (e - b) = unat e - unat b" using le by (simp add: unat_sub_small word_le_nat_alt)
  have u: "unat (aucHeap h) \<le> unat b" "unat e + 8 \<le> unat (aucHeap h) + 65536" using b e by presburger+
  then have s: "axStart h \<noteq> b" "axStart h \<noteq> e" "unat (axStart h) < unat b \<or> unat e < unat (axStart h)"
    using p be by (auto simp: heap_placed_def)
  have m: "unat b mod 4 = 0" "unat e mod 4 = 0" using b e by presburger+
  then have "(unat e - unat b) mod 4 = 0" by (metis dvd_diff_nat dvd_eq_mod_eq_0)
  moreover have "b \<noteq> 0"
  proof
    assume "b = 0"
    with b have "unat (aucHeap h) = 0" by simp
    with p show False by (simp add: heap_placed_def unat_eq_0)
  qed
  moreover have L: "initial_layout h = [(b, e - b, False)]"
    by (simp only: initial_layout_def Let_def b_def e_def heap_consts)
  moreover have eq: "prvHeapInit h =
    (set_next b e (set_size b (e - b) (set_next e NULL (set_size e 0
        ((set_size (axStart h) 0 (set_next (axStart h) b h))\<lparr>pxEnd := e\<rparr>)))))
    \<lparr>xMinimumEverFreeBytesRemaining := e - b, xFreeBytesRemaining := e - b,
     xBlockAllocatedBit := 0x80000000\<rparr>"
    unfolding b_def e_def by (rule prvHeapInit_eq) (use le in \<open>simp only: b_def e_def not_False_eq_True\<close>)
  moreover have "heap_base (prvHeapInit h) = b"
    unfolding eq by (simp add: heap_base_def b_def)
  moreover have "8 \<le> unat e - unat b" "unat e - unat b < 2147483648" "65520 \<le> unat e - unat b"
    using be u by auto
  ultimately show ?thesis
    using be le sz s u p m
    by (simp add: heap_inv_def flist_def heap_placed_def) (simp add: b_def)
qed

lemma heap_malloc_first:
  assumes "heap_placed h" and "pxEnd h = NULL"
  shows "heap_malloc n h = heap_malloc n (prvHeapInit h)"
  using heap_inv_pxEnd [OF conjunct1 [OF prvHeapInit_inv [OF assms(1)]]] assms(2)
  by (simp add: heap_malloc_def)

end
