(* ===== verification/ContextSave.thy ===== *)
theory ContextSave
  imports Prelude
begin

section \<open>Context save areas (FreeRtos/portable/tricore/port.c)\<close>

text \<open>
  The processor keeps the registers of a call or an interrupt in a context save area (CSA), a block of
  16 words; word 0 links to the next one, and the register \<open>FCX\<close> to the head of the free ones.  The
  record holds the core registers that the port reads and writes, and the memory of the areas as words
  indexed by their addresses.
\<close>

record port =
  FCX :: u32
  PCXI :: u32
  PSW :: u32
  SYSCON :: u32
  ICR :: u32
  csa_mem :: "ptr \<Rightarrow> u32"

definition portSYSTEM_PROGRAM_STATUS_WORD :: u32 where "portSYSTEM_PROGRAM_STATUS_WORD = 0x000008FF"
definition portINITIAL_PCXI_UPPER_CONTEXT_WORD :: u32 where "portINITIAL_PCXI_UPPER_CONTEXT_WORD = 0x00300000"
definition portCSA_FCX_MASK :: u32 where "portCSA_FCX_MASK = 0x000FFFFF"
definition portNUM_WORDS_IN_CSA :: nat where "portNUM_WORDS_IN_CSA = 16"

definition portCSA_TO_ADDRESS :: "u32 \<Rightarrow> ptr" where
  "portCSA_TO_ADDRESS pCSA = push_bit 12 (pCSA AND 0x000F0000) OR push_bit 6 (pCSA AND 0x0000FFFF)"

definition portADDRESS_TO_CSA :: "ptr \<Rightarrow> u32" where
  "portADDRESS_TO_CSA pAddress = drop_bit 12 (pAddress AND 0xF0000000) OR drop_bit 6 (pAddress AND 0x003FFFC0)"

text \<open>Word \<open>i\<close> of the area at an address, and \<open>memset\<close> of a whole area.\<close>

definition csa_word :: "port \<Rightarrow> ptr \<Rightarrow> nat \<Rightarrow> u32" where
  "csa_word P a i = csa_mem P (a + 4 * of_nat i)"

definition csa_set :: "ptr \<Rightarrow> nat \<Rightarrow> u32 \<Rightarrow> port \<Rightarrow> port" where
  "csa_set a i v P = P\<lparr>csa_mem := (csa_mem P)(a + 4 * of_nat i := v)\<rparr>"

primrec csa_clear :: "nat \<Rightarrow> ptr \<Rightarrow> port \<Rightarrow> port" where
  "csa_clear 0 a P = P"
| "csa_clear (Suc n) a P = csa_set a n 0 (csa_clear n a P)"

text \<open>With fewer than two free areas the processor takes the context depletion trap: \<open>None\<close>.\<close>

definition pxPortInitialiseStack :: "ptr \<Rightarrow> ptr \<Rightarrow> ptr \<Rightarrow> port \<Rightarrow> (u32 \<times> port) option" where
  "pxPortInitialiseStack pxTopOfStack pxCode pvParameters P =
     (let pulLowerCSA = portCSA_TO_ADDRESS (FCX P);
          pulUpperCSA = (if pulLowerCSA \<noteq> NULL then portCSA_TO_ADDRESS (csa_word P pulLowerCSA 0) else NULL)
      in if pulLowerCSA \<noteq> NULL \<and> pulUpperCSA \<noteq> NULL then
           (let P = P\<lparr>FCX := csa_word P pulUpperCSA 0\<rparr>;
                P = csa_clear portNUM_WORDS_IN_CSA pulUpperCSA P;
                P = csa_set pulUpperCSA 2 pxTopOfStack P;
                P = csa_set pulUpperCSA 1 portSYSTEM_PROGRAM_STATUS_WORD P;
                P = csa_clear portNUM_WORDS_IN_CSA pulLowerCSA P;
                P = csa_set pulLowerCSA 8 pvParameters P;
                P = csa_set pulLowerCSA 1 pxCode P;
                P = csa_set pulLowerCSA 0 (portINITIAL_PCXI_UPPER_CONTEXT_WORD OR portADDRESS_TO_CSA pulUpperCSA) P
            in Some (portADDRESS_TO_CSA pulLowerCSA, P))
         else None)"

text \<open>The loop that looks for the last area of a task's chain, clearing the upper bits of the links.\<close>

partial_function (option) reclaim_loop :: "u32 \<Rightarrow> port \<Rightarrow> (u32 \<times> port) option" where
  "reclaim_loop pxTailCSA P =
     (let pulNextCSA = portCSA_TO_ADDRESS pxTailCSA in
      if csa_word P pulNextCSA 0 AND portCSA_FCX_MASK \<noteq> 0
      then reclaim_loop (csa_word P pulNextCSA 0 AND portCSA_FCX_MASK)
             (csa_set pulNextCSA 0 (csa_word P pulNextCSA 0 AND portCSA_FCX_MASK) P)
      else Some (pxTailCSA, P))"

definition vPortReclaimCSA :: "u32 \<Rightarrow> port \<Rightarrow> port option" where
  "vPortReclaimCSA pxTopOfStack P =
     do {
       let pxHeadCSA = pxTopOfStack AND portCSA_FCX_MASK;
       (pxTailCSA, P) \<leftarrow> reclaim_loop pxHeadCSA P;
       let pxFreeCSA = FCX P;
       let P = csa_set (portCSA_TO_ADDRESS pxTailCSA) 0 pxFreeCSA P;
       Some (P\<lparr>FCX := pxHeadCSA\<rparr>)
     }"

subsection \<open>Links and addresses\<close>

abbreviation link_of :: "u32 \<Rightarrow> u32" where
  "link_of v \<equiv> v AND portCSA_FCX_MASK"

lemma bit_link: "bit (link_of v) n \<longleftrightarrow> bit v n \<and> n < 20"
proof -
  have m: "portCSA_FCX_MASK = mask 20" by (simp add: portCSA_FCX_MASK_def mask_eq_exp_minus_1)
  show ?thesis unfolding m by (auto simp: bit_simps dest: bit_imp_le_length)
qed

lemma mask16: "(0x0000FFFF :: u32) = mask 16" "(0x000F0000 :: u32) = push_bit 16 (mask 4)"
  "(0xF0000000 :: u32) = push_bit 28 (mask 4)" "(0x003FFFC0 :: u32) = push_bit 6 (mask 16)"
  by (simp_all add: mask_eq_exp_minus_1 push_bit_eq_mult)

lemma bit_address: "bit (portCSA_TO_ADDRESS c) n \<longleftrightarrow>
   n < 32 \<and> (28 \<le> n \<and> bit c (n - 12) \<or> 6 \<le> n \<and> n < 22 \<and> bit c (n - 6))"
  unfolding portCSA_TO_ADDRESS_def mask16 by (auto simp: bit_simps)

lemma bit_csa: "bit (portADDRESS_TO_CSA a) n \<longleftrightarrow> n < 16 \<and> bit a (n + 6) \<or> 16 \<le> n \<and> n < 20 \<and> bit a (n + 12)"
  unfolding portADDRESS_TO_CSA_def mask16 by (auto simp: bit_simps add.commute)

lemma bit_small:
  assumes "off < 64" and "6 \<le> n" shows "\<not> bit (of_nat off :: u32) n"
proof -
  have "take_bit 6 off = off" using assms(1) by (simp add: take_bit_nat_eq_self_iff)
  then have "(of_nat off :: u32) = take_bit 6 (of_nat off)" by (metis take_bit_of_nat)
  then show ?thesis using assms(2) by (metis bit_take_bit_iff not_le)
qed

lemma offset_or:
  assumes "off < 64" shows "portCSA_TO_ADDRESS c + of_nat off = portCSA_TO_ADDRESS c OR of_nat off"
proof -
  note bit_small [OF assms]
  then have "portCSA_TO_ADDRESS c AND of_nat off = 0"
    by (intro bit_word_eqI) (auto simp: bit_and_iff bit_address not_le)
  then show ?thesis by (rule disjunctive_add_eq_or)
qed

text \<open>Every word of an area leads back to its link, so that areas with different links do not overlap.\<close>

lemma csa_of_offset:
  assumes "off < 64" shows "portADDRESS_TO_CSA (portCSA_TO_ADDRESS c + of_nat off) = link_of c"
proof -
  note bit_small [OF assms]
  then show ?thesis unfolding offset_or [OF assms]
    by (intro bit_word_eqI) (auto simp: bit_csa bit_link bit_or_iff bit_address)
qed


lemma csa_link: "portADDRESS_TO_CSA (portCSA_TO_ADDRESS c) = link_of c"
  using csa_of_offset [of 0 c] by simp

lemma address_link [simp]: "portCSA_TO_ADDRESS (link_of c) = portCSA_TO_ADDRESS c"
  by (intro bit_word_eqI) (auto simp: bit_address bit_link)

lemma link_link [simp]: "link_of (link_of c) = link_of c"
  by (simp add: and.assoc)

lemma link_zero: "portCSA_TO_ADDRESS c = 0 \<longleftrightarrow> link_of c = 0"
proof
  assume "portCSA_TO_ADDRESS c = 0"
  then show "link_of c = 0" using csa_link [of c] by (simp add: portADDRESS_TO_CSA_def)
next
  assume "link_of c = 0"
  then show "portCSA_TO_ADDRESS c = 0" using address_link [of c] by (simp add: portCSA_TO_ADDRESS_def)
qed

lemma context_link: "link_of (portINITIAL_PCXI_UPPER_CONTEXT_WORD OR c) = link_of c"
  by (simp add: portINITIAL_PCXI_UPPER_CONTEXT_WORD_def portCSA_FCX_MASK_def bit.conj_disj_distrib2)

lemma word_apart:
  assumes "i < 16" and "j < 16" and "link_of c \<noteq> link_of d"
  shows "portCSA_TO_ADDRESS c + 4 * of_nat i \<noteq> portCSA_TO_ADDRESS d + 4 * of_nat j"
proof
  assume e: "portCSA_TO_ADDRESS c + 4 * of_nat i = portCSA_TO_ADDRESS d + 4 * of_nat j"
  have "portADDRESS_TO_CSA (portCSA_TO_ADDRESS c + of_nat (4 * i)) = link_of c"
    "portADDRESS_TO_CSA (portCSA_TO_ADDRESS d + of_nat (4 * j)) = link_of d"
    using assms(1,2) by (intro csa_of_offset; simp)+
  with e assms(3) show False by simp
qed

lemma word_index:
  assumes "i < 16" and "j < 16" shows "a + 4 * of_nat i = (a + 4 * of_nat j :: u32) \<longleftrightarrow> i = j"
proof
  assume "a + 4 * of_nat i = (a + 4 * of_nat j :: u32)"
  then have "(of_nat (4 * i) :: u32) = of_nat (4 * j)" by simp
  then have "unat (of_nat (4 * i) :: u32) = unat (of_nat (4 * j) :: u32)" by (rule arg_cong)
  then show "i = j" using assms by (simp only: unat_of_nat) simp
qed simp

subsection \<open>Reading and writing the words of areas\<close>

definition area :: "port \<Rightarrow> u32 \<Rightarrow> nat \<Rightarrow> u32" where
  "area P c i = csa_word P (portCSA_TO_ADDRESS c) i"

lemma area_link [simp]: "area P (link_of c) = area P c"
  by (simp add: area_def fun_eq_iff)

lemma area_fields [simp]: "area (P\<lparr>FCX := v\<rparr>) = area P" "area (P\<lparr>PCXI := v\<rparr>) = area P"
  by (simp_all add: area_def csa_word_def fun_eq_iff)

lemma csa_set_fields [simp]: "FCX (csa_set a i v P) = FCX P" "FCX (csa_clear n a P) = FCX P"
  by (simp_all add: csa_set_def, induction n) (simp_all add: csa_set_def)

lemma area_set:
  assumes "i < 16" and "j < 16"
  shows "area (csa_set (portCSA_TO_ADDRESS d) j v P) c i = (if link_of c = link_of d \<and> i = j then v else area P c i)"
proof (cases "link_of c = link_of d")
  case True
  then have e: "portCSA_TO_ADDRESS c = portCSA_TO_ADDRESS d" by (metis address_link)
  show ?thesis using True word_index [OF assms] by (simp add: area_def csa_word_def csa_set_def e)
next
  case False
  then show ?thesis using word_apart [OF assms False] by (simp add: area_def csa_word_def csa_set_def)
qed

lemma area_clear:
  assumes "i < 16" and "n \<le> 16"
  shows "area (csa_clear n (portCSA_TO_ADDRESS d) P) c i = (if link_of c = link_of d \<and> i < n then 0 else area P c i)"
  using assms(2) by (induction n) (auto simp: area_set assms(1) less_Suc_eq)

subsection \<open>Chains of areas\<close>

text \<open>From a link, the areas of a chain down to the last one, whose link is zero.\<close>

fun csa_chain :: "port \<Rightarrow> u32 \<Rightarrow> u32 list \<Rightarrow> bool" where
  "csa_chain P v [] \<longleftrightarrow> link_of v = 0"
| "csa_chain P v (c # cs) \<longleftrightarrow> c = link_of v \<and> c \<noteq> 0 \<and> csa_chain P (area P c 0) cs"

lemma chain_links: "csa_chain P v cs \<Longrightarrow> c \<in> set cs \<Longrightarrow> link_of c = c \<and> c \<noteq> 0"
  by (induction cs arbitrary: v) auto

lemma csa_chain_cong:
  "csa_chain P v cs \<Longrightarrow> link_of v' = link_of v \<Longrightarrow> \<forall>c \<in> set cs. link_of (area P' c 0) = link_of (area P c 0) \<Longrightarrow>
   csa_chain P' v' cs"
proof (induction cs arbitrary: v v')
  case (Cons c cs)
  then show ?case using Cons.IH [of "area P c 0" "area P' c 0"] by auto
qed simp

lemma chain_unique: "csa_chain P v cs \<Longrightarrow> csa_chain P v ds \<Longrightarrow> cs = ds"
proof (induction cs arbitrary: v ds)
  case Nil
  then show ?case by (cases ds) auto
next
  case (Cons c cs)
  then show ?case by (cases ds) auto
qed

definition free_areas :: "port \<Rightarrow> u32 list \<Rightarrow> bool" where
  "free_areas P fs \<longleftrightarrow> csa_chain P (FCX P) fs \<and> distinct fs"

text \<open>A new context takes two areas from the free ones and leaves every other area alone.\<close>

theorem initialise_stack_spec:
  assumes f: "free_areas P (l # u # fs)"
  shows "\<exists>sp P'. pxPortInitialiseStack stk code arg P = Some (sp, P') \<and> free_areas P' fs \<and>
     csa_chain P' sp [l, u] \<and> area P' l 1 = code \<and> area P' l 8 = arg \<and> area P' u 2 = stk \<and>
     area P' u 1 = portSYSTEM_PROGRAM_STATUS_WORD \<and> (\<forall>c i. link_of c \<notin> {l, u} \<and> i < 16 \<longrightarrow> area P' c i = area P c i)"
proof -
  have c: "link_of (FCX P) = l" "l \<noteq> 0" "link_of (area P l 0) = u" "u \<noteq> 0" "csa_chain P (area P u 0) fs" "distinct (l # u # fs)"
    using f unfolding free_areas_def csa_chain.simps by blast+
  have lu: "link_of l = l" "link_of u = u" "u \<noteq> l"
    using c(6) by (metis c(1) link_link, metis c(3) link_link, auto)
  define L where "L = portCSA_TO_ADDRESS l"
  define U where "U = portCSA_TO_ADDRESS u"
  have L: "portCSA_TO_ADDRESS (FCX P) = L" using address_link [of "FCX P"] c(1) by (simp add: L_def)
  have l0: "csa_word P L 0 = area P l 0" by (simp add: area_def L_def)
  have U: "portCSA_TO_ADDRESS (csa_word P L 0) = U" using address_link [of "area P l 0"] c(3) l0 by (simp add: U_def)
  have nz: "L \<noteq> NULL" "U \<noteq> NULL" using lu c link_zero by (simp_all add: L_def U_def)
  have u0: "csa_word P U 0 = area P u 0" by (simp add: area_def U_def)
  have adr: "portADDRESS_TO_CSA U = u" "portADDRESS_TO_CSA L = l" using csa_link lu by (simp_all add: U_def L_def)
  define P1 where "P1 = csa_set U 1 portSYSTEM_PROGRAM_STATUS_WORD (csa_set U 2 stk (csa_clear 16 U (P\<lparr>FCX := area P u 0\<rparr>)))"
  define P2 where "P2 = csa_set L 0 (portINITIAL_PCXI_UPPER_CONTEXT_WORD OR u) (csa_set L 1 code (csa_set L 8 arg (csa_clear 16 L P1)))"
  have run: "pxPortInitialiseStack stk code arg P = Some (l, P2)"
    unfolding pxPortInitialiseStack_def
    using nz by (simp add: Let_def L U u0 adr P1_def P2_def portNUM_WORDS_IN_CSA_def)
  have a1: "area P1 c i = (if link_of c = u then (if i = 1 then portSYSTEM_PROGRAM_STATUS_WORD else if i = 2 then stk else 0) else area P c i)"
    if "i < 16" for c i
    using that unfolding P1_def U_def by (simp add: area_set area_clear lu)
  have a2: "area P2 c i = (if link_of c = l then (if i = 0 then portINITIAL_PCXI_UPPER_CONTEXT_WORD OR u
      else if i = 1 then code else if i = 8 then arg else 0) else area P1 c i)" if "i < 16" for c i
    using that unfolding P2_def L_def by (simp add: area_set area_clear lu)
  have "csa_chain P2 (area P u 0) fs"
  proof (rule csa_chain_cong [OF c(5) refl], intro ballI)
    fix d assume d: "d \<in> set fs"
    then have "link_of d = d" "d \<noteq> l" "d \<noteq> u" using chain_links [OF c(5)] c(6) by auto
    then show "link_of (area P2 d 0) = link_of (area P d 0)" by (simp add: a1 a2)
  qed
  moreover have "FCX P2 = area P u 0" by (simp add: P2_def P1_def)
  ultimately have "free_areas P2 fs" using c(6) by (simp add: free_areas_def)
  moreover have "csa_chain P2 l [l, u]"
    using lu c context_link [of u] by (simp add: a1 a2)
  moreover have "area P2 l 1 = code" "area P2 l 8 = arg" "area P2 u 2 = stk" "area P2 u 1 = portSYSTEM_PROGRAM_STATUS_WORD"
    using lu by (simp_all add: a1 a2)
  moreover have "\<forall>c i. link_of c \<notin> {l, u} \<and> i < 16 \<longrightarrow> area P2 c i = area P c i" by (simp add: a1 a2)
  ultimately show ?thesis using run by blast
qed

text \<open>Without two free areas the processor traps.\<close>

theorem initialise_stack_depleted:
  assumes "free_areas P fs" and "length fs < 2" shows "pxPortInitialiseStack stk code arg P = None"
proof -
  have l: "portCSA_TO_ADDRESS (FCX P) = NULL \<longleftrightarrow> fs = []"
    using assms(1) link_zero by (cases fs) (auto simp: free_areas_def)
  show ?thesis
  proof (cases fs)
    case Nil
    then show ?thesis using l by (simp add: pxPortInitialiseStack_def Let_def)
  next
    case (Cons c cs)
    then have c: "c = link_of (FCX P)" "link_of (area P c 0) = 0"
      using assms by (auto simp: free_areas_def)
    then have "portCSA_TO_ADDRESS (csa_word P (portCSA_TO_ADDRESS (FCX P)) 0) = NULL"
      using link_zero by (simp add: area_def)
    then show ?thesis by (simp add: pxPortInitialiseStack_def Let_def)
  qed
qed

text \<open>The loop of the reclamation ends at the last area of the chain.\<close>

lemma reclaim_loop_spec:
  assumes "csa_chain P v cs" and "distinct cs" and "cs \<noteq> []"
  shows "\<exists>P'. reclaim_loop (link_of v) P = Some (last cs, P') \<and> FCX P' = FCX P \<and>
     (\<forall>c i. i < 16 \<longrightarrow> area P' c i = (if link_of c \<in> set (butlast cs) \<and> i = 0 then link_of (area P c 0) else area P c i))"
  using assms
proof (induction cs arbitrary: v P)
  case (Cons c cs)
  have c: "c = link_of v" "c \<noteq> 0" "csa_chain P (area P c 0) cs" "link_of c = c" using Cons.prems(1) by auto
  have w: "csa_word P (portCSA_TO_ADDRESS (link_of v)) 0 = area P c 0" using c(1) by (simp add: area_def)
  show ?case
  proof (cases "cs = []")
    case True
    then have "link_of (area P c 0) = 0" using c(3) by simp
    then show ?thesis using True c(1) w
      by (intro exI [of _ P]) (simp add: reclaim_loop.simps [of "link_of v"] Let_def)
  next
    case False
    define P1 where "P1 = csa_set (portCSA_TO_ADDRESS c) 0 (link_of (area P c 0)) P"
    have nz: "link_of (area P c 0) \<noteq> 0" using c(3) False by (cases cs) auto
    have step: "reclaim_loop (link_of v) P = reclaim_loop (link_of (area P c 0)) P1"
      using nz w c(1) by (subst reclaim_loop.simps) (simp add: Let_def P1_def)
    have a1: "area P1 d i = (if link_of d = c \<and> i = 0 then link_of (area P c 0) else area P d i)" if "i < 16" for d i
      using that c(4) by (simp add: P1_def area_set)
    have "csa_chain P1 (area P c 0) cs"
      by (rule csa_chain_cong [OF c(3) refl]) (use a1 in auto)
    then obtain P' where P': "reclaim_loop (link_of (area P c 0)) P1 = Some (last cs, P')" "FCX P' = FCX P1"
      "\<forall>d i. i < 16 \<longrightarrow> area P' d i = (if link_of d \<in> set (butlast cs) \<and> i = 0 then link_of (area P1 d 0) else area P1 d i)"
      using Cons.IH [of P1 "area P c 0"] Cons.prems False by auto
    have "area P' d i = (if link_of d \<in> set (butlast (c # cs)) \<and> i = 0 then link_of (area P d 0) else area P d i)"
      if "i < 16" for d i
    proof (cases "link_of d = c")
      case True
      then have "area P d = area P c" by (metis area_link)
      then show ?thesis using True that P'(3) a1 False by auto
    next
      case False
      then show ?thesis using that P'(3) a1 \<open>cs \<noteq> []\<close> by auto
    qed
    then show ?thesis using P'(1,2) False step by (intro exI [of _ P']) (simp add: P1_def)
  qed
qed simp

text \<open>Reclaiming puts the areas of a task in front of the free ones.\<close>

theorem reclaim_spec:
  assumes f: "free_areas P fs" and c: "csa_chain P sp cs" and d: "distinct (cs @ fs)" and ne: "cs \<noteq> []"
  shows "\<exists>P'. vPortReclaimCSA sp P = Some P' \<and> free_areas P' (cs @ fs) \<and>
     (\<forall>c i. link_of c \<notin> set cs \<and> i < 16 \<longrightarrow> area P' c i = area P c i) \<and>
     (\<forall>c i. 0 < i \<and> i < 16 \<longrightarrow> area P' c i = area P c i)"
proof -
  obtain P1 where P1: "reclaim_loop (link_of sp) P = Some (last cs, P1)" "FCX P1 = FCX P"
    "\<And>c i. i < 16 \<Longrightarrow> area P1 c i = (if link_of c \<in> set (butlast cs) \<and> i = 0 then link_of (area P c 0) else area P c i)"
    using reclaim_loop_spec [OF c _ ne] d by auto
  define P2 where "P2 = (csa_set (portCSA_TO_ADDRESS (last cs)) 0 (FCX P) P1)\<lparr>FCX := link_of sp\<rparr>"
  have run: "vPortReclaimCSA sp P = Some P2" using P1(1,2) by (simp add: vPortReclaimCSA_def Let_def P2_def)
  have lc: "link_of (last cs) = last cs" using chain_links [OF c] ne by simp
  have a2: "area P2 c i = (if link_of c = last cs \<and> i = 0 then FCX P
      else if link_of c \<in> set (butlast cs) \<and> i = 0 then link_of (area P c 0) else area P c i)" if "i < 16" for c i
    using that lc by (simp add: P2_def area_set P1(3))
  have "csa_chain P2 v (xs @ fs)" if "csa_chain P v xs" "xs \<noteq> []" "last xs = last cs" "set xs \<subseteq> set cs" "distinct xs" for v xs
    using that
  proof (induction xs arbitrary: v)
    case (Cons x xs)
    have x: "x = link_of v" "x \<noteq> 0" "csa_chain P (area P x 0) xs" "link_of x = x" using Cons.prems(1) by auto
    show ?case
    proof (cases "xs = []")
      case True
      have "csa_chain P2 (FCX P) fs"
      proof (rule csa_chain_cong [where P = P, OF _ refl])
        show "csa_chain P (FCX P) fs" using f by (simp add: free_areas_def)
        show "\<forall>c \<in> set fs. link_of (area P2 c 0) = link_of (area P c 0)"
        proof
          fix e assume "e \<in> set fs"
          then have "link_of e = e" "e \<notin> set cs" using f d chain_links by (auto simp: free_areas_def)
          then show "link_of (area P2 e 0) = link_of (area P e 0)" using a2 ne by (auto dest: in_set_butlastD)
        qed
      qed
      then show ?thesis using True Cons.prems(3) x a2 by simp
    next
      case False
      then have nl: "x \<noteq> last cs" using Cons.prems(3,5) last_in_set [of xs] by auto
      have "link_of (area P2 x 0) = link_of (area P x 0)" using a2 [of 0 x] nl x(4) by simp
      moreover have "csa_chain P2 (area P x 0) (xs @ fs)" using Cons.IH [OF x(3) False] Cons.prems False by simp
      ultimately have "csa_chain P2 (area P2 x 0) (xs @ fs)" using csa_chain_cong [of P2 "area P x 0"] by simp
      then show ?thesis using x by simp
    qed
  qed simp
  from this [OF c ne refl subset_refl] d have "csa_chain P2 sp (cs @ fs)" by simp
  then have "csa_chain P2 (FCX P2) (cs @ fs)" using csa_chain_cong [of P2 sp] by (simp add: P2_def)
  then have "free_areas P2 (cs @ fs)" using d by (simp add: free_areas_def)
  moreover have "last cs \<in> set cs" using ne by simp
  ultimately show ?thesis using run a2 by (intro exI [of _ P2]) (auto dest: in_set_butlastD)
qed

end
