(* ===== verification/Kernel.thy ===== *)
theory Kernel
  imports KList HeapLayout ContextSave
begin

section \<open>The state of the kernel and the scheduler's core (FreeRtos/tasks.c)\<close>

text \<open>
  The file scope variables of \<open>tasks.c\<close> are the fields of the record \<open>kernel\<close>; the task control
  blocks live in the field \<open>tcbs\<close>, a store indexed by their addresses.  The list items embedded
  in a TCB are named by the TCB's address, which is also their owner; a list is named by a
  constructor of \<open>list_id\<close>, the lists of a queue or an event group by the address of the object.
  The heap, and the processor's context save areas and registers, are parts of the kernel's state.
  An API function is a step from the state in which it is called to the state in which it
  returns or in which another task has been switched in; code between \<open>taskENTER_CRITICAL\<close> and
  \<open>taskEXIT_CRITICAL\<close> runs as one step, so the nesting counter is not touched in between.
\<close>

subsection \<open>Data\<close>

datatype list_id =
    ReadyL nat
  | DelayedL1
  | DelayedL2
  | PendingReadyL
  | TerminationL
  | SuspendedL
  | WaitSendL ptr
  | WaitReceiveL ptr
  | EventBitsL ptr
  | TimerL1
  | TimerL2

datatype item_id = StateItem ptr | EventItem ptr | TimerItem ptr

primrec owner :: "item_id \<Rightarrow> ptr" where
  "owner (StateItem p) = p"
| "owner (EventItem p) = p"
| "owner (TimerItem p) = p"

record tcb =
  pxTopOfStack :: ptr
  uxPriority :: u32
  pxStack :: ptr
  pcTaskName :: "u8 list"
  uxCriticalNesting :: u32
  uxBasePriority :: u32
  uxMutexesHeld :: u32
  ulNotifiedValue :: u32
  ucNotifyState :: u8

record kernel =
  ls :: "(list_id, item_id) lists"
  tcbs :: "ptr \<Rightarrow> tcb"
  heap :: heap_t
  pxCurrentTCB :: ptr
  pxDelayedTaskList :: list_id
  pxOverflowDelayedTaskList :: list_id
  uxDeletedTasksWaitingCleanUp :: u32
  uxCurrentNumberOfTasks :: u32
  xTickCount :: u32
  uxTopReadyPriority :: u32
  xSchedulerRunning :: bool
  uxPendedTicks :: u32
  xYieldPending :: bool
  xNumOfOverflows :: u32
  uxTaskNumber :: u32
  xNextTaskUnblockTime :: u32
  xIdleTaskHandle :: ptr
  uxSchedulerSuspended :: u32
  cpu :: port

definition taskNOT_WAITING_NOTIFICATION :: u8 where "taskNOT_WAITING_NOTIFICATION = 0"
definition taskWAITING_NOTIFICATION :: u8 where "taskWAITING_NOTIFICATION = 1"
definition taskNOTIFICATION_RECEIVED :: u8 where "taskNOTIFICATION_RECEIVED = 2"
definition taskEVENT_LIST_ITEM_VALUE_IN_USE :: u32 where "taskEVENT_LIST_ITEM_VALUE_IN_USE = 0x80000000"

subsection \<open>The list primitives on the kernel's store\<close>

abbreviation cont_of :: "kernel \<Rightarrow> item_id \<Rightarrow> list_id option" where
  "cont_of k \<equiv> cont (ls k)"

abbreviation val_of :: "kernel \<Rightarrow> item_id \<Rightarrow> u32" where
  "val_of k \<equiv> ival (ls k)"

abbreviation items :: "kernel \<Rightarrow> list_id \<Rightarrow> item_id list" where
  "items k l \<equiv> l_elems l (ls k)"

abbreviation prio :: "kernel \<Rightarrow> ptr \<Rightarrow> u32" where
  "prio k p \<equiv> uxPriority (tcbs k p)"

definition k_remove :: "item_id \<Rightarrow> kernel \<Rightarrow> kernel option" where
  "k_remove i k = do { S \<leftarrow> l_remove i (ls k); Some (k\<lparr>ls := S\<rparr>) }"

definition k_insert_end :: "list_id \<Rightarrow> item_id \<Rightarrow> kernel \<Rightarrow> kernel" where
  "k_insert_end l i k = k\<lparr>ls := l_insert_end l i (ls k)\<rparr>"

definition k_insert :: "list_id \<Rightarrow> item_id \<Rightarrow> kernel \<Rightarrow> kernel" where
  "k_insert l i k = k\<lparr>ls := l_insert l i (ls k)\<rparr>"

definition k_set_value :: "item_id \<Rightarrow> u32 \<Rightarrow> kernel \<Rightarrow> kernel" where
  "k_set_value i v k = k\<lparr>ls := l_set_value i v (ls k)\<rparr>"

definition upd_tcb :: "ptr \<Rightarrow> (tcb \<Rightarrow> tcb) \<Rightarrow> kernel \<Rightarrow> kernel" where
  "upd_tcb p f k = k\<lparr>tcbs := (tcbs k)(p := f (tcbs k p))\<rparr>"

text \<open>Removing an event item that may or may not be in a list.\<close>

definition k_remove_event :: "ptr \<Rightarrow> kernel \<Rightarrow> kernel option" where
  "k_remove_event p k =
     (if cont_of k (EventItem p) \<noteq> None then k_remove (EventItem p) k else Some k)"

subsection \<open>Scheduling\<close>

definition prvGetTCBFromHandle :: "ptr \<Rightarrow> kernel \<Rightarrow> ptr" where
  "prvGetTCBFromHandle pxHandle k = (if pxHandle = NULL then pxCurrentTCB k else pxHandle)"

definition taskRECORD_READY_PRIORITY :: "u32 \<Rightarrow> kernel \<Rightarrow> kernel" where
  "taskRECORD_READY_PRIORITY p k =
     (if p > uxTopReadyPriority k then k\<lparr>uxTopReadyPriority := p\<rparr> else k)"

definition prvAddTaskToReadyList :: "ptr \<Rightarrow> kernel \<Rightarrow> kernel" where
  "prvAddTaskToReadyList pxTCB k =
     (let k = taskRECORD_READY_PRIORITY (prio k pxTCB) k
      in k_insert_end (ReadyL (unat (prio k pxTCB))) (StateItem pxTCB) k)"

text \<open>The loop of \<open>taskSELECT_HIGHEST_PRIORITY_TASK\<close>: a failed assertion is \<open>None\<close>.\<close>

function find_top_priority :: "kernel \<Rightarrow> u32 \<Rightarrow> u32 option" where
  "find_top_priority k uxTopPriority =
     (if items k (ReadyL (unat uxTopPriority)) = [] then
        (if uxTopPriority = 0 then None else find_top_priority k (uxTopPriority - 1))
      else Some uxTopPriority)"
  by pat_completeness auto
termination
proof (relation "measure (\<lambda>(k, t). unat t)")
  fix k :: kernel and t :: u32
  assume "t \<noteq> 0"
  then have "0 < unat t" by (simp add: unat_gt_0)
  then show "((k, t - 1), k, t) \<in> measure (\<lambda>(k, t). unat t)"
    by (simp add: unat_minus_one [OF \<open>t \<noteq> 0\<close>])
qed simp

declare find_top_priority.simps [simp del]

definition taskSELECT_HIGHEST_PRIORITY_TASK :: "kernel \<Rightarrow> kernel option" where
  "taskSELECT_HIGHEST_PRIORITY_TASK k =
     do {
       uxTopPriority \<leftarrow> find_top_priority k (uxTopReadyPriority k);
       (i, S) \<leftarrow> l_next (ReadyL (unat uxTopPriority)) (ls k);
       Some (k\<lparr>ls := S, pxCurrentTCB := owner i, uxTopReadyPriority := uxTopPriority\<rparr>)
     }"

definition vTaskSwitchContext :: "kernel \<Rightarrow> kernel option" where
  "vTaskSwitchContext k =
     (if uxSchedulerSuspended k \<noteq> 0 then Some (k\<lparr>xYieldPending := True\<rparr>)
      else taskSELECT_HIGHEST_PRIORITY_TASK (k\<lparr>xYieldPending := False\<rparr>))"

text \<open>\<open>portYIELD\<close> is a system call, taken at once; its handler runs \<open>vTaskSwitchContext\<close>.\<close>

definition portYIELD_WITHIN_API :: "kernel \<Rightarrow> kernel option" where
  "portYIELD_WITHIN_API k = vTaskSwitchContext k"

definition prvResetNextTaskUnblockTime :: "kernel \<Rightarrow> kernel" where
  "prvResetNextTaskUnblockTime k =
     (case l_head (pxDelayedTaskList k) (ls k) of
        None \<Rightarrow> k\<lparr>xNextTaskUnblockTime := portMAX_DELAY\<rparr>
      | Some i \<Rightarrow> k\<lparr>xNextTaskUnblockTime := val_of k (StateItem (owner i))\<rparr>)"

definition taskSWITCH_DELAYED_LISTS :: "kernel \<Rightarrow> kernel option" where
  "taskSWITCH_DELAYED_LISTS k =
     do {
       configASSERT (items k (pxDelayedTaskList k) = []);
       Some (prvResetNextTaskUnblockTime
         (k\<lparr>pxDelayedTaskList := pxOverflowDelayedTaskList k,
            pxOverflowDelayedTaskList := pxDelayedTaskList k,
            xNumOfOverflows := xNumOfOverflows k + 1\<rparr>))
     }"

definition prvAddCurrentTaskToDelayedList :: "u32 \<Rightarrow> bool \<Rightarrow> kernel \<Rightarrow> kernel option" where
  "prvAddCurrentTaskToDelayedList xTicksToWait xCanBlockIndefinitely k =
     do {
       let xConstTickCount = xTickCount k;
       let cur = pxCurrentTCB k;
       k \<leftarrow> k_remove (StateItem cur) k;
       Some (if xTicksToWait = portMAX_DELAY \<and> xCanBlockIndefinitely
             then k_insert_end SuspendedL (StateItem cur) k
             else
               (let xTimeToWake = xConstTickCount + xTicksToWait;
                    k = k_set_value (StateItem cur) xTimeToWake k
                in if xTimeToWake < xConstTickCount
                   then k_insert (pxOverflowDelayedTaskList k) (StateItem cur) k
                   else
                     (let k = k_insert (pxDelayedTaskList k) (StateItem cur) k
                      in if xTimeToWake < xNextTaskUnblockTime k
                         then k\<lparr>xNextTaskUnblockTime := xTimeToWake\<rparr> else k)))
     }"

subsection \<open>The tick and the suspension of the scheduler\<close>

text \<open>The loop of \<open>xTaskIncrementTick\<close> that wakes the tasks whose delay has expired.\<close>

partial_function (option) wake_expired :: "u32 \<Rightarrow> bool \<Rightarrow> kernel \<Rightarrow> (bool \<times> kernel) option" where
  "wake_expired xConstTickCount xSwitchRequired k =
     (case l_head (pxDelayedTaskList k) (ls k) of
        None \<Rightarrow> Some (xSwitchRequired, k\<lparr>xNextTaskUnblockTime := portMAX_DELAY\<rparr>)
      | Some i \<Rightarrow>
          (let pxTCB = owner i; xItemValue = val_of k (StateItem pxTCB) in
           if xConstTickCount < xItemValue
           then Some (xSwitchRequired, k\<lparr>xNextTaskUnblockTime := xItemValue\<rparr>)
           else do {
             k \<leftarrow> k_remove (StateItem pxTCB) k;
             k \<leftarrow> k_remove_event pxTCB k;
             let k = prvAddTaskToReadyList pxTCB k;
             wake_expired xConstTickCount
               (if prio k pxTCB \<ge> prio k (pxCurrentTCB k) then True else xSwitchRequired) k
           }))"

definition xTaskIncrementTick :: "kernel \<Rightarrow> (bool \<times> kernel) option" where
  "xTaskIncrementTick k =
     do {
       (xSwitchRequired, k) \<leftarrow>
         (if uxSchedulerSuspended k = 0 then
            do {
              let xConstTickCount = xTickCount k + 1;
              let k = k\<lparr>xTickCount := xConstTickCount\<rparr>;
              k \<leftarrow> (if xConstTickCount = 0 then taskSWITCH_DELAYED_LISTS k else Some k);
              (sw, k) \<leftarrow> (if xConstTickCount \<ge> xNextTaskUnblockTime k
                         then wake_expired xConstTickCount False k else Some (False, k));
              Some (if length (items k (ReadyL (unat (prio k (pxCurrentTCB k))))) > 1 then True else sw, k)
            }
          else Some (False, k\<lparr>uxPendedTicks := uxPendedTicks k + 1\<rparr>));
       Some (if xYieldPending k then True else xSwitchRequired, k)
     }"

definition vTaskSuspendAll :: "kernel \<Rightarrow> kernel" where
  "vTaskSuspendAll k = k\<lparr>uxSchedulerSuspended := uxSchedulerSuspended k + 1\<rparr>"

text \<open>\<open>xTaskResumeAll\<close>: readying the tasks that became ready meanwhile, and processing the ticks
  that were counted meanwhile.\<close>

partial_function (option) drain_pending :: "ptr \<Rightarrow> kernel \<Rightarrow> (ptr \<times> kernel) option" where
  "drain_pending pxTCB k =
     (case l_head PendingReadyL (ls k) of
        None \<Rightarrow> Some (pxTCB, k)
      | Some i \<Rightarrow> do {
          let pxTCB = owner i;
          k \<leftarrow> k_remove (EventItem pxTCB) k;
          k \<leftarrow> k_remove (StateItem pxTCB) k;
          let k = prvAddTaskToReadyList pxTCB k;
          drain_pending pxTCB
            (if prio k pxTCB \<ge> prio k (pxCurrentTCB k) then k\<lparr>xYieldPending := True\<rparr> else k)
        })"

partial_function (option) replay_ticks :: "u32 \<Rightarrow> kernel \<Rightarrow> kernel option" where
  "replay_ticks uxPendedCounts k =
     do {
       (sw, k) \<leftarrow> xTaskIncrementTick k;
       let k = (if sw then k\<lparr>xYieldPending := True\<rparr> else k);
       let uxPendedCounts = uxPendedCounts - 1;
       (if uxPendedCounts > 0 then replay_ticks uxPendedCounts k else Some k)
     }"

definition xTaskResumeAll :: "kernel \<Rightarrow> (bool \<times> kernel) option" where
  "xTaskResumeAll k =
     do {
       configASSERT (uxSchedulerSuspended k \<noteq> 0);
       let k = k\<lparr>uxSchedulerSuspended := uxSchedulerSuspended k - 1\<rparr>;
       (if uxSchedulerSuspended k = 0 \<and> uxCurrentNumberOfTasks k > 0 then
          do {
            (pxTCB, k) \<leftarrow> drain_pending NULL k;
            let k = (if pxTCB \<noteq> NULL then prvResetNextTaskUnblockTime k else k);
            k \<leftarrow> (if uxPendedTicks k > 0 then
                   do { k \<leftarrow> replay_ticks (uxPendedTicks k) k; Some (k\<lparr>uxPendedTicks := 0\<rparr>) }
                 else Some k);
            (if xYieldPending k then do { k \<leftarrow> portYIELD_WITHIN_API k; Some (True, k) }
             else Some (False, k))
          }
        else Some (False, k))
     }"

definition xTaskGetTickCount :: "kernel \<Rightarrow> u32" where
  "xTaskGetTickCount k = xTickCount k"

definition uxTaskGetNumberOfTasks :: "kernel \<Rightarrow> u32" where
  "uxTaskGetNumberOfTasks k = uxCurrentNumberOfTasks k"

end
