(* ===== verification/SchedInv.thy ===== *)
theory SchedInv
  imports Kernel
begin

section \<open>The scheduler's invariant\<close>

text \<open>
  What holds of the kernel's lists between two calls, and the lemmas that the list primitives
  keep it: every item is in at most one list, of a kind that may hold it; a task in a ready list
  is in the list of its priority, at most \<open>uxTopReadyPriority\<close>; the delayed lists are sorted,
  the current one after the tick and \<open>xNextTaskUnblockTime\<close>, the overflow one before the tick; a
  task that waits for an event is in a delayed list or the suspended list.  \<open>X\<close> holds the
  tasks an operation is in the middle of moving, which are exempt from the last clause, and
  \<open>lo\<close> is the least wake time in the current delayed list: the next tick, except while a tick is
  being processed.
\<close>

definition static_lists :: "list_id set" where
  "static_lists = ReadyL ` {..<configMAX_PRIORITIES} \<union>
     {DelayedL1, DelayedL2, PendingReadyL, TerminationL, SuspendedL}"

definition delayed_or_suspended :: "list_id set" where
  "delayed_or_suspended = {DelayedL1, DelayedL2, SuspendedL}"

fun event_list :: "list_id \<Rightarrow> bool" where
  "event_list (WaitSendL q) = True"
| "event_list (WaitReceiveL q) = True"
| "event_list (EventBitsL g) = True"
| "event_list l = False"

definition place_ok :: "nat \<Rightarrow> kernel \<Rightarrow> item_id \<Rightarrow> list_id \<Rightarrow> bool" where
  "place_ok lo k i l = (case i of
     StateItem p \<Rightarrow> unat (prio k p) < configMAX_PRIORITIES \<and>
       (case l of
          ReadyL n \<Rightarrow> n = unat (prio k p) \<and> prio k p \<le> uxTopReadyPriority k
        | SuspendedL \<Rightarrow> True
        | TerminationL \<Rightarrow> True
        | _ \<Rightarrow> if l = pxDelayedTaskList k then lo \<le> unat (val_of k i) \<and> xNextTaskUnblockTime k \<le> val_of k i
               else l = pxOverflowDelayedTaskList k \<and> val_of k i < xTickCount k)
   | EventItem p \<Rightarrow> l = PendingReadyL \<or> event_list l
   | TimerItem t \<Rightarrow> l = TimerL1 \<or> l = TimerL2)"

definition delayed_pair :: "kernel \<Rightarrow> bool" where
  "delayed_pair k \<longleftrightarrow> (pxDelayedTaskList k = DelayedL1 \<and> pxOverflowDelayedTaskList k = DelayedL2) \<or>
     (pxDelayedTaskList k = DelayedL2 \<and> pxOverflowDelayedTaskList k = DelayedL1)"

definition kinv_at :: "nat \<Rightarrow> list_id set \<Rightarrow> ptr set \<Rightarrow> kernel \<Rightarrow> bool" where
  "kinv_at lo Ls X k \<longleftrightarrow>
     lists_ok Ls (ls k) \<and> static_lists \<subseteq> Ls \<and>
     (\<forall>l \<in> {DelayedL1, DelayedL2}. sorted (map (val_of k) (items k l))) \<and>
     delayed_pair k \<and>
     unat (uxTopReadyPriority k) < configMAX_PRIORITIES \<and>
     (\<forall>i l. cont_of k i = Some l \<longrightarrow> place_ok lo k i l) \<and>
     (\<forall>p. p \<notin> X \<longrightarrow> cont_of k (EventItem p) \<noteq> None \<longrightarrow>
        (\<exists>l \<in> delayed_or_suspended. cont_of k (StateItem p) = Some l))"

abbreviation kinv :: "list_id set \<Rightarrow> ptr set \<Rightarrow> kernel \<Rightarrow> bool" where
  "kinv Ls X k \<equiv> kinv_at (Suc (unat (xTickCount k))) Ls X k"

subsection \<open>Reading the invariant\<close>

lemma kinvD:
  assumes "kinv_at lo Ls X k"
  shows "lists_ok Ls (ls k)" and "static_lists \<subseteq> Ls"
    and "sorted (map (val_of k) (items k DelayedL1))" and "sorted (map (val_of k) (items k DelayedL2))"
    and "delayed_pair k"
    and "unat (uxTopReadyPriority k) < configMAX_PRIORITIES"
    and "cont_of k i = Some l \<Longrightarrow> place_ok lo k i l"
    and "p \<notin> X \<Longrightarrow> cont_of k (EventItem p) \<noteq> None \<Longrightarrow>
        \<exists>l \<in> delayed_or_suspended. cont_of k (StateItem p) = Some l"
  using assms unfolding kinv_at_def by blast+

lemma static_mem [simp]:
  "ReadyL n \<in> static_lists \<longleftrightarrow> n < configMAX_PRIORITIES" "DelayedL1 \<in> static_lists"
  "DelayedL2 \<in> static_lists" "PendingReadyL \<in> static_lists" "TerminationL \<in> static_lists"
  "SuspendedL \<in> static_lists" "WaitSendL q \<notin> static_lists" "WaitReceiveL q \<notin> static_lists"
  "EventBitsL q \<notin> static_lists"
  by (auto simp: static_lists_def)

lemma kinv_delayed:
  assumes "kinv_at lo Ls X k"
  obtains "pxDelayedTaskList k = DelayedL1" "pxOverflowDelayedTaskList k = DelayedL2"
  | "pxDelayedTaskList k = DelayedL2" "pxOverflowDelayedTaskList k = DelayedL1"
  using kinvD(5) [OF assms] by (auto simp: delayed_pair_def)

lemma kinv_mono: "kinv_at lo Ls X k \<Longrightarrow> X \<subseteq> Y \<Longrightarrow> kinv_at lo Ls Y k"
  unfolding kinv_at_def by blast

lemma kinv_static: "kinv_at lo Ls X k \<Longrightarrow> l \<in> static_lists \<Longrightarrow> l \<in> Ls"
  unfolding kinv_at_def by blast

lemma mem_items: "kinv_at lo Ls X k \<Longrightarrow> l \<in> Ls \<Longrightarrow> i \<in> set (items k l) \<longleftrightarrow> cont_of k i = Some l"
  using lists_okD(2) [OF kinvD(1)] by blast

lemma item_in_Ls: "kinv_at lo Ls X k \<Longrightarrow> cont_of k i = Some l \<Longrightarrow> l \<in> Ls"
  using lists_ok_contD [OF kinvD(1)] by blast

lemma place_ok_simps [simp]:
  "place_ok lo k (StateItem p) (ReadyL n) \<longleftrightarrow> n < configMAX_PRIORITIES \<and> n = unat (prio k p) \<and>
     prio k p \<le> uxTopReadyPriority k"
  "place_ok lo k (StateItem p) SuspendedL \<longleftrightarrow> unat (prio k p) < configMAX_PRIORITIES"
  "place_ok lo k (StateItem p) TerminationL \<longleftrightarrow> unat (prio k p) < configMAX_PRIORITIES"
  "place_ok lo k (EventItem p) l \<longleftrightarrow> l = PendingReadyL \<or> event_list l"
  "place_ok lo k (TimerItem p) l \<longleftrightarrow> l = TimerL1 \<or> l = TimerL2"
  by (auto simp: place_ok_def)

lemma place_ok_delayed [simp]:
  assumes "delayed_pair k"
  shows "place_ok lo k (StateItem p) (pxDelayedTaskList k) \<longleftrightarrow> unat (prio k p) < configMAX_PRIORITIES \<and>
      lo \<le> unat (val_of k (StateItem p)) \<and> xNextTaskUnblockTime k \<le> val_of k (StateItem p)"
    and "place_ok lo k (StateItem p) (pxOverflowDelayedTaskList k) \<longleftrightarrow> unat (prio k p) < configMAX_PRIORITIES \<and>
      val_of k (StateItem p) < xTickCount k"
  using assms by (auto simp: place_ok_def delayed_pair_def)

lemma place_ok_state:
  assumes "place_ok lo k (StateItem p) l" and "delayed_pair k"
  shows "unat (prio k p) < configMAX_PRIORITIES"
    and "l = ReadyL (unat (prio k p)) \<or> l = SuspendedL \<or> l = TerminationL \<or>
      l = pxDelayedTaskList k \<or> l = pxOverflowDelayedTaskList k"
  using assms by (auto simp: place_ok_def split: list_id.splits if_splits)

lemma state_place:
  assumes "kinv_at lo Ls X k" and "cont_of k (StateItem p) = Some l"
  shows "unat (prio k p) < configMAX_PRIORITIES"
    and "l = ReadyL (unat (prio k p)) \<or> l = SuspendedL \<or> l = TerminationL \<or>
      l = pxDelayedTaskList k \<or> l = pxOverflowDelayedTaskList k"
  using place_ok_state [OF kinvD(7) [OF assms] kinvD(5) [OF assms(1)]] by simp_all

lemma ready_place:
  assumes "kinv_at lo Ls X k" and "cont_of k i = Some (ReadyL n)"
  shows "\<exists>p. i = StateItem p \<and> n = unat (prio k p) \<and> n < configMAX_PRIORITIES \<and> prio k p \<le> uxTopReadyPriority k"
  using kinvD(7) [OF assms] by (cases i) auto

lemma not_event_delayed:
  "delayed_pair k \<Longrightarrow> \<not> event_list (pxDelayedTaskList k) \<and> \<not> event_list (pxOverflowDelayedTaskList k) \<and>
     pxDelayedTaskList k \<noteq> PendingReadyL \<and> pxOverflowDelayedTaskList k \<noteq> PendingReadyL \<and>
     pxDelayedTaskList k \<notin> {TimerL1, TimerL2, SuspendedL, TerminationL, ReadyL n} \<and>
     pxOverflowDelayedTaskList k \<notin> {TimerL1, TimerL2, SuspendedL, TerminationL, ReadyL n}"
  by (auto simp: delayed_pair_def)

lemma delayed_place:
  assumes "kinv_at lo Ls X k" and "cont_of k i = Some (pxDelayedTaskList k)"
  shows "\<exists>p. i = StateItem p \<and> lo \<le> unat (val_of k i) \<and> xNextTaskUnblockTime k \<le> val_of k i"
  using kinvD(7) [OF assms] kinvD(5) [OF assms(1)] not_event_delayed [of k] by (cases i) auto

lemma overflow_place:
  assumes "kinv_at lo Ls X k" and "cont_of k i = Some (pxOverflowDelayedTaskList k)"
  shows "\<exists>p. i = StateItem p \<and> val_of k i < xTickCount k"
  using kinvD(7) [OF assms] kinvD(5) [OF assms(1)] not_event_delayed [of k] by (cases i) auto

lemma pending_place:
  assumes "kinv_at lo Ls X k" and "cont_of k i = Some PendingReadyL"
  shows "\<exists>p. i = EventItem p"
proof (cases i)
  case (StateItem p)
  with state_place(2) [OF assms(1), of p PendingReadyL] assms(2) not_event_delayed [OF kinvD(5) [OF assms(1)]]
  show ?thesis by auto
qed (use kinvD(7) [OF assms] in auto)

lemma kinv_delayed_mem: "kinv_at lo Ls X k \<Longrightarrow> pxDelayedTaskList k \<in> Ls \<and> pxOverflowDelayedTaskList k \<in> Ls \<and>
   pxDelayedTaskList k \<noteq> pxOverflowDelayedTaskList k"
  by (rule kinv_delayed) (auto intro: kinv_static)

lemma kinv_sorted: "kinv_at lo Ls X k \<Longrightarrow> sorted (map (val_of k) (items k (pxDelayedTaskList k)))"
  by (rule kinv_delayed) (auto dest: kinvD(3,4))

subsection \<open>Effects of the list primitives\<close>

lemmas k_defs [simp] = k_insert_end_def k_insert_def k_set_value_def upd_tcb_def

lemma l_fields [simp]:
  "cont (l_insert_end l i S) = (cont S)(i := Some l)" "cont (l_insert l i S) = (cont S)(i := Some l)"
  "cont (l_set_value i v S) = cont S"
  "ival (l_insert_end l i S) = ival S" "ival (l_insert l i S) = ival S"
  "ival (l_set_value i v S) = (ival S)(i := v)" "lst (l_set_value i v S) = lst S"
  "lst (l_insert_end l i S) = (lst S)(l := kl_insert_end i (lst S l))"
  "lst (l_insert l i S) = (lst S)(l := kl_insert (ival S) i (lst S l))"
  by (simp_all add: l_insert_end_def l_insert_def l_set_value_def)

text \<open>The store after a removal.\<close>

definition drop_item :: "item_id \<Rightarrow> (list_id, item_id) lists \<Rightarrow> (list_id, item_id) lists" where
  "drop_item i S = (case cont S i of None \<Rightarrow> S
     | Some l \<Rightarrow> S\<lparr>lst := (lst S)(l := kl_remove i (lst S l)), cont := (cont S)(i := None)\<rparr>)"

lemma k_remove_eq: "k_remove i k = (if cont_of k i = None then None else Some (k\<lparr>ls := drop_item i (ls k)\<rparr>))"
  by (auto simp: k_remove_def l_remove_def drop_item_def split: option.splits)

lemma k_remove_event_eq: "k_remove_event p k = Some (k\<lparr>ls := drop_item (EventItem p) (ls k)\<rparr>)"
  by (auto simp: k_remove_event_def k_remove_eq drop_item_def)

lemma drop_item_fields [simp]:
  "cont (drop_item i S) = (cont S)(i := None)" "ival (drop_item i S) = ival S"
  by (auto simp: drop_item_def split: option.splits)

lemma lists_ok_drop [simp]: "lists_ok Ls S \<Longrightarrow> lists_ok Ls (drop_item i S)"
proof (cases "cont S i")
  case (Some l)
  assume ok: "lists_ok Ls S"
  have "l_remove i S = Some (drop_item i S)" using Some by (simp add: l_remove_def drop_item_def)
  with ok show ?thesis by (rule lists_ok_remove)
qed (simp add: drop_item_def)

lemma elems_drop:
  assumes "lists_ok Ls S" and "l \<in> Ls"
  shows "l_elems l (drop_item i S) = remove1 i (l_elems l S)"
proof (cases "cont S i")
  case None
  with lists_ok_None [OF assms(1) None assms(2)] show ?thesis by (simp add: drop_item_def remove1_idem)
next
  case (Some m)
  then have "m \<noteq> l \<Longrightarrow> i \<notin> set (l_elems l S)" using lists_okD(2) [OF assms] by (metis option.inject)
  with Some show ?thesis by (simp add: drop_item_def remove1_idem)
qed

lemma sorted_remove1_map: "sorted (map f xs) \<Longrightarrow> sorted (map f (remove1 x xs))"
  by (induction xs) (auto dest: notin_set_remove1)

lemma sorted_kl_insert:
  assumes "sorted (map f (elems L))" shows "sorted (map f (elems (kl_insert f x L)))"
proof -
  let ?xs = "elems L" and ?P = "\<lambda>y. f y \<le> f x"
  have "sorted (map f (takeWhile ?P ?xs @ dropWhile ?P ?xs))" using assms by simp
  then have s: "sorted (map f (takeWhile ?P ?xs))" "sorted (map f (dropWhile ?P ?xs))"
    unfolding map_append sorted_append by blast+
  have "\<forall>y \<in> set (dropWhile ?P ?xs). f x \<le> f y"
  proof (cases "dropWhile ?P ?xs")
    case (Cons z zs)
    then have "\<not> ?P z" by (metis hd_dropWhile list.distinct(1) list.sel(1))
    with s(2) Cons show ?thesis by auto
  qed (simp del: dropWhile_eq_Nil_conv)
  moreover have "\<forall>y \<in> set (takeWhile ?P ?xs). ?P y" by (auto dest: set_takeWhileD)
  ultimately have "sorted (map f (takeWhile ?P ?xs @ x # dropWhile ?P ?xs))"
    using s by (fastforce simp: sorted_append)
  then show ?thesis by (simp add: kl_insert_def)
qed

lemma sorted_kl_insert_other:
  assumes "sorted (map f (elems L))" and "\<forall>y \<in> set (elems L). g y = f y"
  shows "sorted (map g (elems (kl_insert g x L)))"
proof (rule sorted_kl_insert)
  show "sorted (map g (elems L))" using assms by (simp cong: map_cong)
qed


subsection \<open>The primitives keep the invariant\<close>

lemma static_items_drop:
  "kinv_at lo Ls X k \<Longrightarrow> l \<in> static_lists \<Longrightarrow> l_elems l (drop_item i (ls k)) = remove1 i (items k l)"
  by (rule elems_drop [OF kinvD(1) kinv_static])

lemma place_ok_cong:
  assumes "val_of k' i = val_of k i" "\<And>p. prio k' p = prio k p" "uxTopReadyPriority k' = uxTopReadyPriority k"
    "pxDelayedTaskList k' = pxDelayedTaskList k" "pxOverflowDelayedTaskList k' = pxOverflowDelayedTaskList k"
    "xTickCount k' = xTickCount k" "xNextTaskUnblockTime k' = xNextTaskUnblockTime k"
  shows "place_ok lo k' i l = place_ok lo k i l"
  using assms by (cases i; cases l) (simp_all add: place_ok_def)

lemma kinv_drop_gen:
  assumes inv: "kinv_at lo Ls X k"
    and ev: "\<forall>q. q \<notin> X' \<longrightarrow> cont_of (k\<lparr>ls := drop_item i (ls k)\<rparr>) (EventItem q) \<noteq> None \<longrightarrow>
      (\<exists>l \<in> delayed_or_suspended. cont_of (k\<lparr>ls := drop_item i (ls k)\<rparr>) (StateItem q) = Some l)"
  shows "kinv_at lo Ls X' (k\<lparr>ls := drop_item i (ls k)\<rparr>)"
proof -
  let ?k = "k\<lparr>ls := drop_item i (ls k)\<rparr>"
  note D = kinvD [OF inv]
  have pl: "place_ok lo ?k = place_ok lo k" by (intro ext place_ok_cong) simp_all
  have srt: "sorted (map (val_of ?k) (items ?k l))" if "l \<in> {DelayedL1, DelayedL2}" for l
    using that D(3,4) static_items_drop [OF inv, of l i] by (auto simp: sorted_remove1_map)
  show ?thesis
    unfolding kinv_at_def pl using D srt ev by (simp add: delayed_pair_def)
qed

lemma kinv_drop:
  assumes inv: "kinv_at lo Ls X k"
  shows "kinv_at lo Ls (insert p X) (k\<lparr>ls := drop_item (StateItem p) (ls k)\<rparr>)"
    and "kinv_at lo Ls (X - {p}) (k\<lparr>ls := drop_item (EventItem p) (ls k)\<rparr>)"
    and "kinv_at lo Ls X (k\<lparr>ls := drop_item (TimerItem p) (ls k)\<rparr>)"
  using kinvD(8) [OF inv] by - (rule kinv_drop_gen [OF inv], simp)+

text \<open>Inserting an item that is in no list.\<close>

lemma kinv_insert_gen:
  assumes inv: "kinv_at lo Ls X k" and free: "cont_of k i = None" and l: "l \<in> Ls"
    and S': "S' = l_insert_end l i (ls k) \<and> l \<notin> {DelayedL1, DelayedL2} \<or> S' = l_insert l i (ls k)"
    and pl: "place_ok lo k i l"
    and ev: "\<forall>q. q \<notin> X' \<longrightarrow> cont S' (EventItem q) \<noteq> None \<longrightarrow>
      (\<exists>l \<in> delayed_or_suspended. cont S' (StateItem q) = Some l)"
  shows "kinv_at lo Ls X' (k\<lparr>ls := S'\<rparr>)"
proof -
  note D = kinvD [OF inv]
  have pl': "place_ok lo (k\<lparr>ls := S'\<rparr>) = place_ok lo k"
    by (intro ext place_ok_cong) (use S' in auto)
  have "lists_ok Ls S'"
    using S' lists_ok_insert_end [OF D(1) l free] lists_ok_insert [OF D(1) l free] by auto
  moreover have "sorted (map (ival S') (l_elems m S'))" if "m \<in> {DelayedL1, DelayedL2}" for m
    using S' that D(3,4) by (auto intro: sorted_kl_insert)
  moreover have "cont S' = (cont_of k)(i := Some l)" using S' by auto
  ultimately show ?thesis
    unfolding kinv_at_def pl' using D(2,5,6,7) pl ev by (simp add: delayed_pair_def)
qed

lemma kinv_set_value:
  assumes inv: "kinv_at lo Ls X k" and "cont_of k i = None \<or> (\<exists>p. i = EventItem p)"
  shows "kinv_at lo Ls X (k\<lparr>ls := l_set_value i v (ls k)\<rparr>)"
proof -
  let ?k = "k\<lparr>ls := l_set_value i v (ls k)\<rparr>"
  note D = kinvD [OF inv]
  have notin: "i \<notin> set (items k l)" if "l \<in> {DelayedL1, DelayedL2}" for l
  proof
    assume "i \<in> set (items k l)"
    then have c: "cont_of k i = Some l" using mem_items [OF inv, of l i] kinv_static [OF inv, of l] that by auto
    with assms(2) obtain p where "i = EventItem p" by auto
    with D(7) [OF c] that show False by auto
  qed
  have "place_ok lo ?k j l = place_ok lo k j l" if "cont_of k j = Some l" for j l
    using assms(2) that by (cases j) (auto simp: place_ok_def split: list_id.splits)
  moreover have "sorted (map (ival (ls ?k)) (items ?k l))" if "l \<in> {DelayedL1, DelayedL2}" for l
  proof -
    have "map ((ival (ls k))(i := v)) (items k l) = map (val_of k) (items k l)"
      using notin [OF that] by (intro map_cong) auto
    moreover have "sorted (map (val_of k) (items k l))" using D(3,4) that by auto
    ultimately have "sorted (map ((ival (ls k))(i := v)) (items k l))" by (rule ssubst)
    then show ?thesis by simp
  qed
  ultimately show ?thesis
    unfolding kinv_at_def using D by (simp add: delayed_pair_def)
qed

lemma kinv_exempt:
  assumes inv: "kinv_at lo Ls X k"
    and "cont_of k (EventItem p) = None \<or> (\<exists>l \<in> delayed_or_suspended. cont_of k (StateItem p) = Some l)"
  shows "kinv_at lo Ls (X - {p}) k"
proof -
  have "\<forall>q. q \<notin> X - {p} \<longrightarrow> cont_of k (EventItem q) \<noteq> None \<longrightarrow>
      (\<exists>l \<in> delayed_or_suspended. cont_of k (StateItem q) = Some l)"
    using kinvD(8) [OF inv] assms(2) by (metis Diff_iff singletonD)
  with inv show ?thesis unfolding kinv_at_def by argo
qed

lemma kinv_fields:
  assumes inv: "kinv_at lo Ls X k" and eq: "ls k' = ls k" "\<And>p. prio k' p = prio k p"
    "pxDelayedTaskList k' = pxDelayedTaskList k" "pxOverflowDelayedTaskList k' = pxOverflowDelayedTaskList k"
    "xTickCount k' = xTickCount k" "xNextTaskUnblockTime k' = xNextTaskUnblockTime k"
    "uxTopReadyPriority k' = uxTopReadyPriority k"
  shows "kinv_at lo Ls X k'"
proof -
  have "place_ok lo k' = place_ok lo k" by (intro ext place_ok_cong) (simp_all add: eq)
  moreover have "delayed_pair k' = delayed_pair k" by (simp add: delayed_pair_def eq)
  ultimately show ?thesis using inv unfolding kinv_at_def eq by simp
qed

end
