(* ===== verification/Sched.thy ===== *)
theory Sched
  imports SchedInv
begin

section \<open>Context switches and delays\<close>

text \<open>
  The context switch selects the head of the service order of the highest non-empty ready list;
  a task that delays itself goes to the list its wake time belongs to.  Both keep the invariant.
\<close>

subsection \<open>The context switch\<close>

lemma kinv_delayed_ne:
  assumes "kinv_at lo Ls X k"
  shows "ReadyL n \<noteq> pxDelayedTaskList k" and "ReadyL n \<noteq> pxOverflowDelayedTaskList k"
    and "SuspendedL \<noteq> pxDelayedTaskList k" and "SuspendedL \<noteq> pxOverflowDelayedTaskList k"
    and "TerminationL \<noteq> pxDelayedTaskList k" and "TerminationL \<noteq> pxOverflowDelayedTaskList k"
    and "PendingReadyL \<noteq> pxDelayedTaskList k" and "PendingReadyL \<noteq> pxOverflowDelayedTaskList k"
  using kinvD(5) [OF assms] by (auto simp: delayed_pair_def)

lemma find_top_priority_Some:
  "find_top_priority k t = Some n \<longleftrightarrow>
     n \<le> t \<and> items k (ReadyL (unat n)) \<noteq> [] \<and> (\<forall>m. n < m \<and> m \<le> t \<longrightarrow> items k (ReadyL (unat m)) = [])"
proof (induction k t rule: find_top_priority.induct)
  case (1 k t)
  show ?case
  proof (cases "items k (ReadyL (unat t)) = []")
    case True
    show ?thesis
    proof (cases "t = 0")
      case t0: True
      then have "find_top_priority k t = None" using True by (subst find_top_priority.simps) simp
      with True t0 show ?thesis by auto
    next
      case False
      have le: "m \<le> t - 1 \<longleftrightarrow> m \<le> t \<and> m \<noteq> t" for m
        using le_pred [OF False] by (auto simp: less_le)
      have "find_top_priority k t = find_top_priority k (t - 1)"
        using True False by (subst find_top_priority.simps) simp
      with 1 [OF True False] True le show ?thesis by auto
    qed
  next
    case False
    then have "find_top_priority k t = Some t" by (subst find_top_priority.simps) simp
    with False show ?thesis by (auto simp: leD) (metis less_le order_refl)
  qed
qed

lemma find_top_priority_None:
  "find_top_priority k t = None \<longleftrightarrow> (\<forall>m \<le> t. items k (ReadyL (unat m)) = [])"
proof -
  have "\<exists>n. find_top_priority k t = Some n" if m: "m \<le> t" "items k (ReadyL (unat m)) \<noteq> []" for m
    using m
  proof (induction k t rule: find_top_priority.induct)
    case (1 k t)
    show ?case
    proof (cases "items k (ReadyL (unat t)) = []")
      case True
      then have "m \<noteq> t" using "1.prems" by auto
      moreover from this have "t \<noteq> 0" using "1.prems"(1) by auto
      ultimately have "t \<noteq> 0" "m \<le> t - 1"
        using "1.prems"(1) le_pred [of t m] by (auto simp: less_le)
      with "1.IH" [OF True] "1.prems"(2) True show ?thesis by (subst find_top_priority.simps) simp
    next
      case False
      then show ?thesis by (subst find_top_priority.simps) simp
    qed
  qed
  moreover have "find_top_priority k t \<noteq> Some n" if "\<forall>m \<le> t. items k (ReadyL (unat m)) = []" for n
    using that find_top_priority_Some [of k t n] by auto
  ultimately show ?thesis by (metis not_None_eq)
qed


text \<open>The abstract view of the ready lists: for each priority, the tasks in service order.\<close>

definition ready_queue :: "kernel \<Rightarrow> nat \<Rightarrow> ptr list" where
  "ready_queue k n = map owner (rot (lst (ls k) (ReadyL n)))"

definition highest_ready :: "kernel \<Rightarrow> nat \<Rightarrow> bool" where
  "highest_ready k n \<longleftrightarrow> n < configMAX_PRIORITIES \<and> items k (ReadyL n) \<noteq> [] \<and>
     (\<forall>m. n < m \<and> m < configMAX_PRIORITIES \<longrightarrow> items k (ReadyL m) = [])"

definition some_ready :: "kernel \<Rightarrow> bool" where
  "some_ready k \<longleftrightarrow> (\<exists>n < configMAX_PRIORITIES. items k (ReadyL n) \<noteq> [])"

lemma ready_empty_above:
  assumes "kinv_at lo Ls X k" and "unat (uxTopReadyPriority k) < n" and "n < configMAX_PRIORITIES"
  shows "items k (ReadyL n) = []"
proof (rule ccontr)
  assume "items k (ReadyL n) \<noteq> []"
  then obtain i where "i \<in> set (items k (ReadyL n))" by (meson last_in_set)
  then have "cont_of k i = Some (ReadyL n)" using mem_items [OF assms(1)] kinv_static [OF assms(1)] assms(3) by auto
  from ready_place [OF assms(1) this] assms(2) show False by (auto simp: word_le_nat_alt)
qed

lemma find_top_priority_spec:
  assumes inv: "kinv_at lo Ls X k" and r: "some_ready k"
  shows "\<exists>t. find_top_priority k (uxTopReadyPriority k) = Some t \<and> highest_ready k (unat t)"
proof -
  let ?t = "uxTopReadyPriority k"
  note top = kinvD(6) [OF inv]
  obtain n where n: "n < configMAX_PRIORITIES" "items k (ReadyL n) \<noteq> []" using r by (auto simp: some_ready_def)
  have nt: "n \<le> unat ?t" using ready_empty_above [OF inv _ n(1)] n(2) by (meson not_le)
  then have "unat (of_nat n :: u32) = n" using unat_u32 [of ?t] by (intro unat_of_nat_small) simp
  then have "\<not> (\<forall>m \<le> ?t. items k (ReadyL (unat m)) = [])"
    using n(2) nt by (metis word_le_nat_alt)
  then obtain t where t: "find_top_priority k ?t = Some t" using find_top_priority_None by blast
  then have t': "t \<le> ?t" "items k (ReadyL (unat t)) \<noteq> []"
    "\<And>m. t < m \<Longrightarrow> m \<le> ?t \<Longrightarrow> items k (ReadyL (unat m)) = []" by (auto simp: find_top_priority_Some)
  have "items k (ReadyL m) = []" if m: "unat t < m" "m < configMAX_PRIORITIES" for m
  proof (cases "m \<le> unat ?t")
    case True
    then have "unat (of_nat m :: u32) = m" using unat_u32 [of ?t] by (intro unat_of_nat_small) simp
    with t'(3) [of "of_nat m"] m True show ?thesis by (simp add: word_less_nat_alt word_le_nat_alt)
  qed (use ready_empty_above [OF inv _ m(2)] in simp)
  with t t' top show ?thesis by (auto simp: highest_ready_def word_le_nat_alt)
qed

lemma l_next_fields:
  assumes "l_next l S = Some (i, S')"
  shows "cont S' = cont S" and "ival S' = ival S" and "l_elems m S' = l_elems m S"
    and "lst S' = (lst S)(l := kl_advance (lst S l))" and "kl_next (lst S l) = Some i"
  using assms by (auto simp: l_next_def split: option.splits)

theorem select_spec:
  assumes inv: "kinv_at lo Ls X k" and r: "some_ready k"
  shows "\<exists>k' n p q S. taskSELECT_HIGHEST_PRIORITY_TASK k = Some k' \<and> highest_ready k n \<and>
     ready_queue k n = p # q \<and> ready_queue k' = (ready_queue k)(n := q @ [p]) \<and>
     kinv_at lo Ls X k' \<and> cont_of k' = cont_of k \<and> val_of k' = val_of k \<and> items k' = items k \<and>
     cont_of k (StateItem p) = Some (ReadyL n) \<and> unat (prio k p) = n \<and>
     k' = k\<lparr>ls := S, pxCurrentTCB := p, uxTopReadyPriority := prio k p\<rparr>"
proof -
  obtain t where t: "find_top_priority k (uxTopReadyPriority k) = Some t" "highest_ready k (unat t)"
    using find_top_priority_spec [OF assms] by blast
  let ?l = "ReadyL (unat t)"
  have l: "?l \<in> Ls" using t(2) kinv_static [OF inv, of ?l] by (simp add: highest_ready_def)
  have ok: "kl_ok (lst (ls k) ?l)" by (rule lists_okD(1) [OF kinvD(1) [OF inv] l])
  have ne: "items k ?l \<noteq> []" using t(2) by (simp add: highest_ready_def)
  then obtain i rest where rot: "rot (lst (ls k) ?l) = i # rest"
    using length_rot [OF ok] by (metis length_0_conv list.exhaust)
  from rot_advance [OF ok rot] have nx: "kl_next (lst (ls k) ?l) = Some i" "rot (kl_advance (lst (ls k) ?l)) = rest @ [i]"
    by auto
  define S' where "S' = (ls k)\<lparr>lst := (lst (ls k))(?l := kl_advance (lst (ls k) ?l))\<rparr>"
  have S': "l_next ?l (ls k) = Some (i, S')" using nx by (simp add: l_next_def S'_def)
  note F = l_next_fields [OF S']
  have "i \<in> set (items k ?l)" using kl_next_in [OF ok nx(1)] .
  then have "cont_of k i = Some ?l" using mem_items [OF inv l] by simp
  then obtain p where p: "i = StateItem p" "unat t = unat (prio k p)" "cont_of k (StateItem p) = Some ?l"
    using ready_place [OF inv] by blast
  then have tp: "t = prio k p" by (simp add: word_unat_eq_iff)
  define k' where "k' = k\<lparr>ls := S', pxCurrentTCB := p, uxTopReadyPriority := t\<rparr>"
  have step: "taskSELECT_HIGHEST_PRIORITY_TASK k = Some k'"
    using t(1) S' p(1) by (simp add: taskSELECT_HIGHEST_PRIORITY_TASK_def k'_def)
  have pl: "place_ok lo k' j m" if c: "cont_of k' j = Some m" for j m
  proof (cases "\<exists>n. m = ReadyL n")
    case True
    then obtain n where n: "m = ReadyL n" by blast
    have c': "cont_of k j = Some (ReadyL n)" using c n F(1) by (simp add: k'_def)
    then obtain q where q: "j = StateItem q" "n = unat (prio k q)" "n < configMAX_PRIORITIES"
      using ready_place [OF inv] by blast
    have "j \<in> set (items k (ReadyL n))" using c' mem_items [OF inv item_in_Ls [OF inv c']] by simp
    then have "\<not> unat t < n" using t(2) q(3) by (auto simp: highest_ready_def)
    with q n show ?thesis by (simp add: k'_def word_le_nat_alt)
  next
    case False
    with kinvD(7) [OF inv, of j m] c F(1,2) show ?thesis
      by (cases j; cases m) (auto simp: place_ok_def k'_def)
  qed
  have "lists_ok Ls S'" by (rule lists_ok_next [OF kinvD(1) [OF inv] S'])
  then have inv': "kinv_at lo Ls X k'"
    using inv pl t(2) F
    by (simp add: kinv_at_def k'_def delayed_pair_def highest_ready_def)
  have "ready_queue k' = (ready_queue k)(unat t := map owner rest @ [p])"
    using F(4) nx(2) p(1) by (auto simp: ready_queue_def k'_def)
  then show ?thesis
    using step t(2) inv' F p rot tp
    by (intro exI [of _ k'] exI [of _ "unat t"] exI [of _ p] exI [of _ "map owner rest"] exI [of _ S'])
      (auto simp: ready_queue_def k'_def)
qed

text \<open>Round robin: the ready list of the highest priority is served in turn.\<close>

lemma switch_context_select:
  "uxSchedulerSuspended k = 0 \<Longrightarrow> vTaskSwitchContext k = taskSELECT_HIGHEST_PRIORITY_TASK (k\<lparr>xYieldPending := False\<rparr>)"
  by (simp add: vTaskSwitchContext_def)

lemma switch_context_inv:
  assumes "kinv_at lo Ls X k" and "some_ready k"
  shows "\<exists>k'. vTaskSwitchContext k = Some k' \<and> kinv_at lo Ls X k' \<and> cont_of k' = cont_of k \<and>
     items k' = items k \<and> val_of k' = val_of k \<and> tcbs k' = tcbs k \<and> xTickCount k' = xTickCount k \<and>
     uxPendedTicks k' = uxPendedTicks k \<and> uxSchedulerSuspended k' = uxSchedulerSuspended k \<and>
     uxCurrentNumberOfTasks k' = uxCurrentNumberOfTasks k"
proof (cases "uxSchedulerSuspended k = 0")
  case True
  let ?k = "k\<lparr>xYieldPending := False\<rparr>"
  have 1: "kinv_at lo Ls X ?k" by (rule kinv_fields [OF assms(1)]) simp_all
  have 2: "some_ready ?k" using assms(2) by (simp add: some_ready_def)
  obtain k' p S where sel: "taskSELECT_HIGHEST_PRIORITY_TASK ?k = Some k'"
    and inv': "kinv_at lo Ls X k'" and c: "cont_of k' = cont_of ?k" and it: "items k' = items ?k"
    and v: "val_of k' = val_of ?k" and k': "k' = ?k\<lparr>ls := S, pxCurrentTCB := p, uxTopReadyPriority := prio ?k p\<rparr>"
    using select_spec [OF 1 2] by blast
  have "vTaskSwitchContext k = Some k'" using sel True by (simp add: switch_context_select)
  moreover have "tcbs k' = tcbs k" "xTickCount k' = xTickCount k" "uxPendedTicks k' = uxPendedTicks k"
    "uxSchedulerSuspended k' = uxSchedulerSuspended k" "uxCurrentNumberOfTasks k' = uxCurrentNumberOfTasks k"
    by (simp_all add: k')
  moreover have "cont_of k' = cont_of k" "val_of k' = val_of k" using c v by simp_all
  moreover have "items k' = items k" unfolding it by simp
  ultimately show ?thesis using inv' by blast
next
  case False
  have "kinv_at lo Ls X (k\<lparr>xYieldPending := True\<rparr>)"
    by (rule kinv_fields [OF assms(1)]) simp_all
  with False show ?thesis by (simp add: vTaskSwitchContext_def)
qed

subsection \<open>Round robin\<close>

lemma switch_context_spec:
  assumes inv: "kinv_at lo Ls X k" and r: "some_ready k" and s: "uxSchedulerSuspended k = 0"
  shows "\<exists>k' n p q. vTaskSwitchContext k = Some k' \<and> highest_ready k n \<and>
     ready_queue k n = p # q \<and> ready_queue k' = (ready_queue k)(n := q @ [p]) \<and>
     kinv_at lo Ls X k' \<and> cont_of k' = cont_of k \<and> items k' = items k \<and> pxCurrentTCB k' = p \<and>
     unat (prio k p) = n \<and> tcbs k' = tcbs k \<and> uxSchedulerSuspended k' = 0"
proof -
  let ?k = "k\<lparr>xYieldPending := False\<rparr>"
  have 1: "kinv_at lo Ls X ?k" by (rule kinv_fields [OF inv]) simp_all
  have 2: "some_ready ?k" using r by (simp add: some_ready_def)
  obtain k' n p q S where sel: "taskSELECT_HIGHEST_PRIORITY_TASK ?k = Some k'" and h: "highest_ready ?k n"
    and rq: "ready_queue ?k n = p # q" "ready_queue k' = (ready_queue ?k)(n := q @ [p])"
    and inv': "kinv_at lo Ls X k'" and c: "cont_of k' = cont_of ?k" and it: "items k' = items ?k"
    and pr: "unat (prio ?k p) = n" and k': "k' = ?k\<lparr>ls := S, pxCurrentTCB := p, uxTopReadyPriority := prio ?k p\<rparr>"
    using select_spec [OF 1 2] by blast
  have "ready_queue ?k = ready_queue k" by (simp add: ready_queue_def fun_eq_iff)
  moreover have "vTaskSwitchContext k = Some k'" using sel s by (simp add: switch_context_select)
  moreover have "tcbs k' = tcbs k" "pxCurrentTCB k' = p" "uxSchedulerSuspended k' = 0"
    using s by (simp_all add: k')
  moreover have "items k' = items k" unfolding it by simp
  moreover have "highest_ready k n" using h by (simp add: highest_ready_def)
  ultimately show ?thesis using rq inv' c pr by auto
qed

text \<open>\<open>m\<close> context switches, and the tasks they switch in.\<close>

primrec switches :: "nat \<Rightarrow> kernel \<Rightarrow> (ptr list \<times> kernel) option" where
  "switches 0 k = Some ([], k)"
| "switches (Suc m) k = do {
     k \<leftarrow> vTaskSwitchContext k;
     (ps, k') \<leftarrow> switches m k;
     Some (pxCurrentTCB k # ps, k')
   }"

lemma highest_ready_unique: "highest_ready k n \<Longrightarrow> highest_ready k m \<Longrightarrow> n = m"
  unfolding highest_ready_def by (meson linorder_neqE_nat)

theorem switches_rotate:
  assumes "kinv_at lo Ls X k" and "highest_ready k n" and "uxSchedulerSuspended k = 0"
    and "ready_queue k n = ps @ qs"
  shows "\<exists>k'. switches (length ps) k = Some (ps, k') \<and> kinv_at lo Ls X k' \<and> ready_queue k' n = qs @ ps \<and>
     (\<forall>m. m \<noteq> n \<longrightarrow> ready_queue k' m = ready_queue k m)"
  using assms
proof (induction ps arbitrary: k qs)
  case Nil
  then show ?case by simp
next
  case (Cons p ps)
  have "some_ready k" using Cons.prems(2) by (auto simp: highest_ready_def some_ready_def)
  from switch_context_spec [OF Cons.prems(1) this Cons.prems(3)] obtain k1 m r q where
    k1: "vTaskSwitchContext k = Some k1" "highest_ready k m" "ready_queue k m = r # q"
     "ready_queue k1 = (ready_queue k)(m := q @ [r])"
     "kinv_at lo Ls X k1" "items k1 = items k" "pxCurrentTCB k1 = r" "uxSchedulerSuspended k1 = 0"
    by blast
  have m: "m = n" by (rule highest_ready_unique [OF k1(2) Cons.prems(2)])
  then have rq: "r = p" "q = ps @ qs" using k1(3) Cons.prems(4) by auto
  have "highest_ready k1 n" using k1(2) m k1(6) by (simp add: highest_ready_def fun_eq_iff)
  moreover have "ready_queue k1 n = ps @ (qs @ [p])" using k1(4) m rq by simp
  ultimately obtain k' where k': "switches (length ps) k1 = Some (ps, k')" "kinv_at lo Ls X k'"
    "ready_queue k' n = (qs @ [p]) @ ps" "\<forall>m. m \<noteq> n \<longrightarrow> ready_queue k' m = ready_queue k1 m"
    using Cons.IH [OF k1(5) _ k1(8)] by blast
  then show ?case using k1 m rq by (intro exI [of _ k']) simp
qed

subsection \<open>Making a task ready\<close>

lemma prvAddTaskToReadyList_eq:
  "prvAddTaskToReadyList p k = k\<lparr>uxTopReadyPriority := max (uxTopReadyPriority k) (prio k p),
     ls := l_insert_end (ReadyL (unat (prio k p))) (StateItem p) (ls k)\<rparr>"
  by (auto simp: prvAddTaskToReadyList_def taskRECORD_READY_PRIORITY_def Let_def max_def)

lemma prvAddTaskToReadyList_fields [simp]:
  "cont_of (prvAddTaskToReadyList p k) = (cont_of k)(StateItem p := Some (ReadyL (unat (prio k p))))"
  "val_of (prvAddTaskToReadyList p k) = val_of k" "tcbs (prvAddTaskToReadyList p k) = tcbs k"
  "xTickCount (prvAddTaskToReadyList p k) = xTickCount k" "pxCurrentTCB (prvAddTaskToReadyList p k) = pxCurrentTCB k"
  "pxDelayedTaskList (prvAddTaskToReadyList p k) = pxDelayedTaskList k"
  "pxOverflowDelayedTaskList (prvAddTaskToReadyList p k) = pxOverflowDelayedTaskList k"
  "uxSchedulerSuspended (prvAddTaskToReadyList p k) = uxSchedulerSuspended k"
  "xYieldPending (prvAddTaskToReadyList p k) = xYieldPending k"
  "xNextTaskUnblockTime (prvAddTaskToReadyList p k) = xNextTaskUnblockTime k"
  "uxPendedTicks (prvAddTaskToReadyList p k) = uxPendedTicks k"
  "uxCurrentNumberOfTasks (prvAddTaskToReadyList p k) = uxCurrentNumberOfTasks k"
  "l \<noteq> ReadyL (unat (prio k p)) \<Longrightarrow> items (prvAddTaskToReadyList p k) l = items k l"
  by (simp_all add: prvAddTaskToReadyList_eq)

lemma kinv_top:
  assumes inv: "kinv_at lo Ls X k" and "uxTopReadyPriority k \<le> t" and "unat t < configMAX_PRIORITIES"
  shows "kinv_at lo Ls X (k\<lparr>uxTopReadyPriority := t\<rparr>)"
proof -
  have "place_ok lo (k\<lparr>uxTopReadyPriority := t\<rparr>) i l" if "cont_of k i = Some l" for i l
    using kinvD(7) [OF inv that] assms(2) by (cases i; cases l) (auto simp: place_ok_def)
  with inv assms(3) show ?thesis by (simp add: kinv_at_def delayed_pair_def)
qed

lemma kinv_add_ready:
  assumes inv: "kinv_at lo Ls X k" and free: "cont_of k (StateItem p) = None"
    and p: "unat (prio k p) < configMAX_PRIORITIES"
  shows "kinv_at lo Ls X (prvAddTaskToReadyList p k)"
proof -
  let ?k = "k\<lparr>uxTopReadyPriority := max (uxTopReadyPriority k) (prio k p)\<rparr>"
  have inv': "kinv_at lo Ls X ?k"
    by (rule kinv_top [OF inv]) (use p kinvD(6) [OF inv] in \<open>auto simp: max_def\<close>)
  have "kinv_at lo Ls X (?k\<lparr>ls := l_insert_end (ReadyL (unat (prio k p))) (StateItem p) (ls ?k)\<rparr>)"
  proof (rule kinv_insert_gen [OF inv'])
    show "ReadyL (unat (prio k p)) \<in> Ls" using kinv_static [OF inv] p by simp
    show "\<forall>q. q \<notin> X \<longrightarrow> cont (l_insert_end (ReadyL (unat (prio k p))) (StateItem p) (ls ?k)) (EventItem q) \<noteq> None \<longrightarrow>
      (\<exists>l \<in> delayed_or_suspended.
        cont (l_insert_end (ReadyL (unat (prio k p))) (StateItem p) (ls ?k)) (StateItem q) = Some l)"
    proof (intro allI impI)
      fix q
      assume "q \<notin> X" "cont (l_insert_end (ReadyL (unat (prio k p))) (StateItem p) (ls ?k)) (EventItem q) \<noteq> None"
      then have "\<exists>l \<in> delayed_or_suspended. cont_of k (StateItem q) = Some l" using kinvD(8) [OF inv] by simp
      with free show "\<exists>l \<in> delayed_or_suspended.
        cont (l_insert_end (ReadyL (unat (prio k p))) (StateItem p) (ls ?k)) (StateItem q) = Some l" by auto
    qed
  qed (use free p in auto)
  then show ?thesis by (simp add: prvAddTaskToReadyList_eq)
qed

text \<open>A task moved from wherever it is to the ready lists, its event item out of any list.\<close>

definition make_ready :: "ptr \<Rightarrow> kernel \<Rightarrow> kernel" where
  "make_ready p k = prvAddTaskToReadyList p (k\<lparr>ls := drop_item (EventItem p) (drop_item (StateItem p) (ls k))\<rparr>)"

lemma make_ready_inv:
  assumes inv: "kinv_at lo Ls X k" and p: "unat (prio k p) < configMAX_PRIORITIES"
  shows "kinv_at lo Ls (X - {p}) (make_ready p k)"
proof -
  have 1: "kinv_at lo Ls (insert p X) (k\<lparr>ls := drop_item (StateItem p) (ls k)\<rparr>)" by (rule kinv_drop(1) [OF inv])
  have "kinv_at lo Ls (X - {p}) (k\<lparr>ls := drop_item (EventItem p) (drop_item (StateItem p) (ls k))\<rparr>)"
    using kinv_drop(2) [OF 1, of p] by simp
  then show ?thesis unfolding make_ready_def by (rule kinv_add_ready) (use p in simp_all)
qed

lemma make_ready_fields [simp]:
  "cont_of (make_ready p k) = (cont_of k)(EventItem p := None, StateItem p := Some (ReadyL (unat (prio k p))))"
  "val_of (make_ready p k) = val_of k" "tcbs (make_ready p k) = tcbs k"
  "xTickCount (make_ready p k) = xTickCount k" "pxCurrentTCB (make_ready p k) = pxCurrentTCB k"
  "pxDelayedTaskList (make_ready p k) = pxDelayedTaskList k"
  "pxOverflowDelayedTaskList (make_ready p k) = pxOverflowDelayedTaskList k"
  "uxSchedulerSuspended (make_ready p k) = uxSchedulerSuspended k"
  "xYieldPending (make_ready p k) = xYieldPending k"
  "xNextTaskUnblockTime (make_ready p k) = xNextTaskUnblockTime k"
  "uxPendedTicks (make_ready p k) = uxPendedTicks k"
  "uxCurrentNumberOfTasks (make_ready p k) = uxCurrentNumberOfTasks k"
  by (auto simp: make_ready_def)

lemma make_ready_items:
  assumes inv: "kinv_at lo Ls X k" and l: "l \<in> Ls" and "l \<noteq> ReadyL (unat (prio k p))"
  shows "items (make_ready p k) l = remove1 (EventItem p) (remove1 (StateItem p) (items k l))"
proof -
  have 1: "lists_ok Ls (drop_item (StateItem p) (ls k))" using kinvD(1) [OF inv] by simp
  have "items (make_ready p k) l = l_elems l (drop_item (EventItem p) (drop_item (StateItem p) (ls k)))"
    using assms(3) by (simp add: make_ready_def)
  also have "\<dots> = remove1 (EventItem p) (remove1 (StateItem p) (items k l))"
    by (simp add: elems_drop [OF 1 l] elems_drop [OF kinvD(1) [OF inv] l])
  finally show ?thesis .
qed

subsection \<open>Delays\<close>

lemma kinv_next:
  assumes inv: "kinv_at lo Ls X k"
    and n: "\<And>i. cont_of k i = Some (pxDelayedTaskList k) \<Longrightarrow> lo' \<le> unat (val_of k i) \<and> n \<le> val_of k i"
  shows "kinv_at lo' Ls X (k\<lparr>xNextTaskUnblockTime := n\<rparr>)"
proof -
  have "place_ok lo' (k\<lparr>xNextTaskUnblockTime := n\<rparr>) i l" if c: "cont_of k i = Some l" for i l
    using kinvD(7) [OF inv c] n [of i] c by (cases i; cases l) (auto simp: place_ok_def split: if_splits)
  with inv show ?thesis by (simp add: kinv_at_def delayed_pair_def)
qed

lemma delayed_head_least:
  assumes inv: "kinv_at lo Ls X k" and h: "l_head (pxDelayedTaskList k) (ls k) = Some i"
    and j: "cont_of k j = Some (pxDelayedTaskList k)"
  shows "val_of k i \<le> val_of k j"
proof -
  have "j \<in> set (items k (pxDelayedTaskList k))"
    using mem_items [OF inv item_in_Ls [OF inv j]] j by simp
  with kinv_sorted [OF inv] h show ?thesis by (cases "items k (pxDelayedTaskList k)") auto
qed

lemma delayed_head:
  assumes inv: "kinv_at lo Ls X k" and h: "l_head (pxDelayedTaskList k) (ls k) = Some i"
  shows "\<exists>p. i = StateItem p \<and> cont_of k (StateItem p) = Some (pxDelayedTaskList k)"
proof -
  have "i \<in> set (items k (pxDelayedTaskList k))" using hd_opt_in [OF h] .
  then have "cont_of k i = Some (pxDelayedTaskList k)"
    using mem_items [OF inv] kinv_delayed_mem [OF inv] by blast
  with delayed_place [OF inv this] show ?thesis by auto
qed

lemma delayed_empty:
  assumes inv: "kinv_at lo Ls X k" and h: "l_head (pxDelayedTaskList k) (ls k) = None"
  shows "cont_of k i \<noteq> Some (pxDelayedTaskList k)"
proof
  assume c: "cont_of k i = Some (pxDelayedTaskList k)"
  then have "i \<in> set (items k (pxDelayedTaskList k))" using mem_items [OF inv item_in_Ls [OF inv c]] by simp
  with h show False by (cases "items k (pxDelayedTaskList k)") auto
qed

lemma reset_inv:
  assumes inv: "kinv_at lo Ls X k"
  shows "kinv_at lo Ls X (prvResetNextTaskUnblockTime k)"
proof (cases "l_head (pxDelayedTaskList k) (ls k)")
  case None
  then show ?thesis
    using delayed_empty [OF inv None] by (auto simp: prvResetNextTaskUnblockTime_def intro!: kinv_next [OF inv])
next
  case (Some i)
  then obtain p where "i = StateItem p" using delayed_head [OF inv] by blast
  then have "prvResetNextTaskUnblockTime k = k\<lparr>xNextTaskUnblockTime := val_of k i\<rparr>"
    using Some by (simp add: prvResetNextTaskUnblockTime_def)
  moreover have "kinv_at lo Ls X (k\<lparr>xNextTaskUnblockTime := val_of k i\<rparr>)"
    using delayed_head_least [OF inv Some] delayed_place [OF inv] by (intro kinv_next [OF inv]) blast
  ultimately show ?thesis by simp
qed

lemma reset_fields [simp]:
  "ls (prvResetNextTaskUnblockTime k) = ls k" "tcbs (prvResetNextTaskUnblockTime k) = tcbs k"
  "xTickCount (prvResetNextTaskUnblockTime k) = xTickCount k"
  "pxCurrentTCB (prvResetNextTaskUnblockTime k) = pxCurrentTCB k"
  "pxDelayedTaskList (prvResetNextTaskUnblockTime k) = pxDelayedTaskList k"
  "pxOverflowDelayedTaskList (prvResetNextTaskUnblockTime k) = pxOverflowDelayedTaskList k"
  "uxSchedulerSuspended (prvResetNextTaskUnblockTime k) = uxSchedulerSuspended k"
  "xYieldPending (prvResetNextTaskUnblockTime k) = xYieldPending k"
  "uxPendedTicks (prvResetNextTaskUnblockTime k) = uxPendedTicks k"
  "uxTopReadyPriority (prvResetNextTaskUnblockTime k) = uxTopReadyPriority k"
  "uxCurrentNumberOfTasks (prvResetNextTaskUnblockTime k) = uxCurrentNumberOfTasks k"
  by (simp_all add: prvResetNextTaskUnblockTime_def split: option.split)

text \<open>Where a task that waits goes, and how many ticks it still has to wait.\<close>

definition delay_list :: "u32 \<Rightarrow> bool \<Rightarrow> kernel \<Rightarrow> list_id" where
  "delay_list w b k =
     (if w = portMAX_DELAY \<and> b then SuspendedL
      else if xTickCount k + w < xTickCount k then pxOverflowDelayedTaskList k else pxDelayedTaskList k)"

definition delayed :: "kernel \<Rightarrow> ptr \<Rightarrow> bool" where
  "delayed k p \<longleftrightarrow> cont_of k (StateItem p) \<in> {Some DelayedL1, Some DelayedL2}"

definition remaining :: "kernel \<Rightarrow> ptr \<Rightarrow> nat" where
  "remaining k p = unat (val_of k (StateItem p) - xTickCount k)"

lemma add_less_iff_wrap: "(t::u32) + w < t \<longleftrightarrow> 2 ^ 32 \<le> unat t + unat w"
proof -
  have "unat (t + w) = (if unat t + unat w < 2 ^ 32 then unat t + unat w else unat t + unat w - 2 ^ 32)"
    using unat_u32 [of t] unat_u32 [of w]
    by (simp add: unat_word_ariths mod_if)
  then show ?thesis using unat_u32 [of w] by (auto simp: word_less_nat_alt)
qed

lemma add_not_wrap: "\<not> (t::u32) + w < t \<Longrightarrow> unat (t + w) = unat t + unat w"
  unfolding add_less_iff_wrap by (intro unat_add_small) simp

lemma prvAddCurrentTaskToDelayedList_spec:
  assumes inv: "kinv Ls X k" and cur: "cont_of k (StateItem (pxCurrentTCB k)) \<noteq> None" and w: "w \<noteq> 0"
  shows "\<exists>k'. prvAddCurrentTaskToDelayedList w b k = Some k' \<and> kinv Ls (X - {pxCurrentTCB k}) k' \<and>
     cont_of k' = (cont_of k)(StateItem (pxCurrentTCB k) := Some (delay_list w b k)) \<and>
     val_of k' = (if delay_list w b k = SuspendedL then val_of k
       else (val_of k)(StateItem (pxCurrentTCB k) := xTickCount k + w)) \<and>
     tcbs k' = tcbs k \<and> pxCurrentTCB k' = pxCurrentTCB k \<and> xTickCount k' = xTickCount k \<and>
     uxSchedulerSuspended k' = uxSchedulerSuspended k \<and> xYieldPending k' = xYieldPending k \<and>
     uxPendedTicks k' = uxPendedTicks k \<and> uxCurrentNumberOfTasks k' = uxCurrentNumberOfTasks k"
proof -
  let ?c = "pxCurrentTCB k" and ?t = "xTickCount k + w"
  define k1 where "k1 = k\<lparr>ls := drop_item (StateItem ?c) (ls k)\<rparr>"
  have rm: "k_remove (StateItem ?c) k = Some k1" using cur by (simp add: k_remove_eq k1_def)
  have inv1: "kinv Ls (insert ?c X) k1" using kinv_drop(1) [OF inv] by (simp add: k1_def)
  have free: "cont_of k1 (StateItem ?c) = None" by (simp add: k1_def)
  obtain l0 where "cont_of k (StateItem ?c) = Some l0" using cur by auto
  then have p: "unat (prio k ?c) < configMAX_PRIORITIES" by (rule state_place(1) [OF inv])
  have ex: "kinv Ls (X - {?c}) k'" if "kinv Ls (insert ?c X) k'"
    "cont_of k' (StateItem ?c) = Some l" "l \<in> delayed_or_suspended" for k' l
    using kinv_exempt [OF that(1), of ?c] that(2,3) by auto
  have D: "pxDelayedTaskList k \<in> delayed_or_suspended \<and> pxOverflowDelayedTaskList k \<in> delayed_or_suspended \<and>
      pxDelayedTaskList k \<noteq> SuspendedL \<and> pxOverflowDelayedTaskList k \<noteq> SuspendedL"
    using kinvD(5) [OF inv] by (auto simp: delayed_pair_def delayed_or_suspended_def)
  have Ls: "SuspendedL \<in> Ls" "pxDelayedTaskList k \<in> Ls" "pxOverflowDelayedTaskList k \<in> Ls"
    using kinv_static [OF inv] kinv_delayed_mem [OF inv] by auto
  have ev: "\<exists>m \<in> delayed_or_suspended. cont_of k (StateItem q) = Some m"
    if "q \<notin> X" "cont_of k (EventItem q) = Some y" for q y
    using kinvD(8) [OF inv that(1)] that(2) by simp
  show ?thesis
  proof (cases "w = portMAX_DELAY \<and> b")
    case True
    let ?k = "k1\<lparr>ls := l_insert_end SuspendedL (StateItem ?c) (ls k1)\<rparr>"
    have "kinv Ls (insert ?c X) ?k"
      by (rule kinv_insert_gen [OF _ free]) (use inv1 Ls p ev in \<open>auto simp: k1_def\<close>)
    moreover have "prvAddCurrentTaskToDelayedList w b k = Some ?k"
      using True rm by (simp add: prvAddCurrentTaskToDelayedList_def Let_def)
    ultimately show ?thesis
      using True ex [of ?k SuspendedL] by (simp add: delay_list_def k1_def delayed_or_suspended_def)
  next
    case False
    define k2 where "k2 = k1\<lparr>ls := l_set_value (StateItem ?c) ?t (ls k1)\<rparr>"
    have inv2: "kinv Ls (insert ?c X) k2"
      using kinv_set_value [OF inv1, of "StateItem ?c" ?t] free by (simp add: k2_def)
    have free2: "cont_of k2 (StateItem ?c) = None" using free by (simp add: k2_def)
    show ?thesis
    proof (cases "?t < xTickCount k")
      case wrap: True
      let ?l = "pxOverflowDelayedTaskList k"
      let ?k = "k2\<lparr>ls := l_insert ?l (StateItem ?c) (ls k2)\<rparr>"
      have "kinv Ls (insert ?c X) ?k"
        by (rule kinv_insert_gen [where l = ?l, OF _ free2])
          (use inv2 Ls p ev wrap kinvD(5) [OF inv] in
            \<open>auto simp: k1_def k2_def place_ok_def delayed_pair_def\<close>)
      moreover have "prvAddCurrentTaskToDelayedList w b k = Some ?k"
        using False wrap rm by (auto simp: prvAddCurrentTaskToDelayedList_def Let_def k1_def k2_def)
      ultimately show ?thesis
        using False wrap ex [of ?k ?l] D by (auto simp: delay_list_def k1_def k2_def)
    next
      case nowrap: False
      let ?l = "pxDelayedTaskList k"
      define k3 where "k3 = k2\<lparr>xNextTaskUnblockTime := min ?t (xNextTaskUnblockTime k)\<rparr>"
      have "0 < unat w" using w by (simp add: unat_gt_0)
      with add_not_wrap [OF nowrap] have t: "Suc (unat (xTickCount k)) \<le> unat ?t" by simp
      have "min ?t (xNextTaskUnblockTime k) \<le> val_of k2 i \<and> Suc (unat (xTickCount k)) \<le> unat (val_of k2 i)"
        if "cont_of k2 i = Some (pxDelayedTaskList k2)" for i
      proof -
        have "xTickCount k2 = xTickCount k" "xNextTaskUnblockTime k2 = xNextTaskUnblockTime k"
          by (simp_all add: k1_def k2_def)
        with delayed_place [OF inv2 that] show ?thesis by (metis min.coboundedI2)
      qed
      then have inv3: "kinv Ls (insert ?c X) k3"
        using kinv_next [OF inv2] by (simp add: k1_def k2_def k3_def)
      let ?k = "k3\<lparr>ls := l_insert ?l (StateItem ?c) (ls k3)\<rparr>"
      have "kinv Ls (insert ?c X) ?k"
        by (rule kinv_insert_gen [where k = k3 and l = ?l])
          (use inv3 free2 Ls p ev t kinvD(5) [OF inv] in
            \<open>auto simp: k1_def k2_def k3_def place_ok_def delayed_pair_def\<close>)
      moreover have "(if ?t < xNextTaskUnblockTime k then (k2\<lparr>ls := S\<rparr>)\<lparr>xNextTaskUnblockTime := ?t\<rparr> else k2\<lparr>ls := S\<rparr>) =
          k3\<lparr>ls := S\<rparr>" for S
      proof (cases "?t < xNextTaskUnblockTime k")
        case False
        have "k2\<lparr>xNextTaskUnblockTime := xNextTaskUnblockTime k\<rparr> = k2" by (simp add: k1_def k2_def)
        with False show ?thesis by (simp add: k3_def min_def)
      qed (simp add: k3_def)
      from this [of "ls ?k"] have "prvAddCurrentTaskToDelayedList w b k = Some ?k"
        using False nowrap rm
        by (simp add: prvAddCurrentTaskToDelayedList_def Let_def k1_def k2_def k3_def) blast
      ultimately show ?thesis
        using False nowrap ex [of ?k ?l] D by (auto simp: delay_list_def k1_def k2_def k3_def)
    qed
  qed
qed

end
