(* ===== verification/Tick.thy ===== *)
theory Tick
  imports Sched
begin

section \<open>The tick, and suspending and resuming the scheduler\<close>

text \<open>
  The tick wakes just the tasks whose time has come, also when the counter wraps; resuming the
  scheduler empties the pending list and replays the ticks that were held back.  The loops end.
\<close>

subsection \<open>The tick\<close>

text \<open>The tasks whose wake time is not after \<open>t\<close>, in the order of the delayed list.\<close>

definition expired :: "u32 \<Rightarrow> kernel \<Rightarrow> ptr list" where
  "expired t k = map owner (takeWhile (\<lambda>i. val_of k i \<le> t) (items k (pxDelayedTaskList k)))"

lemma fold_make_ready_fields [simp]:
  "val_of (fold make_ready ps k) = val_of k" "tcbs (fold make_ready ps k) = tcbs k"
  "xTickCount (fold make_ready ps k) = xTickCount k" "pxCurrentTCB (fold make_ready ps k) = pxCurrentTCB k"
  "pxDelayedTaskList (fold make_ready ps k) = pxDelayedTaskList k"
  "pxOverflowDelayedTaskList (fold make_ready ps k) = pxOverflowDelayedTaskList k"
  "uxSchedulerSuspended (fold make_ready ps k) = uxSchedulerSuspended k"
  "xYieldPending (fold make_ready ps k) = xYieldPending k"
  "uxPendedTicks (fold make_ready ps k) = uxPendedTicks k"
  "uxCurrentNumberOfTasks (fold make_ready ps k) = uxCurrentNumberOfTasks k"
  "xNextTaskUnblockTime (fold make_ready ps k) = xNextTaskUnblockTime k"
  by (induction ps arbitrary: k) simp_all

lemma fold_make_ready_cont:
  "cont_of (fold make_ready ps k) (StateItem p) =
     (if p \<in> set ps then Some (ReadyL (unat (prio k p))) else cont_of k (StateItem p))"
  "cont_of (fold make_ready ps k) (EventItem p) = (if p \<in> set ps then None else cont_of k (EventItem p))"
  "cont_of (fold make_ready ps k) (TimerItem p) = cont_of k (TimerItem p)"
  by (induction ps arbitrary: k) auto

lemma fold_make_ready_inv:
  assumes "kinv_at lo Ls X k" and "\<forall>p \<in> set ps. unat (prio k p) < configMAX_PRIORITIES"
  shows "kinv_at lo Ls (X - set ps) (fold make_ready ps k)"
  using assms
proof (induction ps arbitrary: k X)
  case (Cons p ps)
  have "kinv_at lo Ls (X - {p}) (make_ready p k)" by (rule make_ready_inv) (use Cons.prems in auto)
  from Cons.IH [OF this] Cons.prems(2) show ?case by (simp add: set_diff_eq Diff_insert2)
qed simp

lemma delayed_items_state:
  assumes "kinv_at lo Ls X k" and "i \<in> set (items k (pxDelayedTaskList k))"
  shows "\<exists>p. i = StateItem p \<and> cont_of k i = Some (pxDelayedTaskList k) \<and>
    unat (prio k p) < configMAX_PRIORITIES"
proof -
  have c: "cont_of k i = Some (pxDelayedTaskList k)"
    using mem_items [OF assms(1)] kinv_delayed_mem [OF assms(1)] assms(2) by blast
  with delayed_place [OF assms(1) c] state_place(1) [OF assms(1)] show ?thesis by auto
qed

theorem wake_expired_eq:
  assumes inv: "kinv_at lo Ls X k"
  shows "wake_expired t sw k =
    Some (sw \<or> (\<exists>p \<in> set (expired t k). prio k (pxCurrentTCB k) \<le> prio k p),
          prvResetNextTaskUnblockTime (fold make_ready (expired t k) k))"
  using inv
proof (induction "length (items k (pxDelayedTaskList k))" arbitrary: k X sw rule: less_induct)
  case less
  let ?D = "items k (pxDelayedTaskList k)"
  show ?case
  proof (cases ?D)
    case Nil
    then have h: "l_head (pxDelayedTaskList k) (ls k) = None" by simp
    have "wake_expired t sw k = Some (sw, k\<lparr>xNextTaskUnblockTime := portMAX_DELAY\<rparr>)"
      by (subst wake_expired.simps) (simp add: h)
    with Nil show ?thesis by (simp add: expired_def prvResetNextTaskUnblockTime_def)
  next
    case (Cons i D)
    then obtain p where p: "i = StateItem p" "cont_of k (StateItem p) = Some (pxDelayedTaskList k)"
      "unat (prio k p) < configMAX_PRIORITIES"
      using delayed_items_state [OF less.prems, of i] by auto
    have h: "l_head (pxDelayedTaskList k) (ls k) = Some (StateItem p)" using Cons p(1) by simp
    show ?thesis
    proof (cases "t < val_of k (StateItem p)")
      case True
      then have "wake_expired t sw k = Some (sw, k\<lparr>xNextTaskUnblockTime := val_of k (StateItem p)\<rparr>)"
        by (subst wake_expired.simps) (simp add: h)
      moreover have "expired t k = []" using Cons p(1) True by (simp add: expired_def not_le)
      ultimately show ?thesis using h by (simp add: prvResetNextTaskUnblockTime_def)
    next
      case False
      let ?k = "make_ready p k"
      have inv': "kinv_at lo Ls X ?k"
        using kinv_mono [OF make_ready_inv [OF less.prems p(3)], of X] by blast
      have notready: "pxDelayedTaskList k \<noteq> ReadyL n" for n
        using not_event_delayed [OF kinvD(5) [OF less.prems]] by auto
      have "EventItem p \<notin> set ?D" using delayed_items_state [OF less.prems, of "EventItem p"] by auto
      then have D: "items ?k (pxDelayedTaskList ?k) = D"
        using make_ready_items [OF less.prems, of "pxDelayedTaskList k" p] notready
          kinv_delayed_mem [OF less.prems] Cons p(1) by (simp add: remove1_idem)
      have step: "wake_expired t sw k =
          wake_expired t (sw \<or> prio k (pxCurrentTCB k) \<le> prio k p) ?k"
        using False h p(2)
        by (subst wake_expired.simps)
          (auto simp: k_remove_eq k_remove_event_eq make_ready_def Let_def intro!: arg_cong3 [where f = wake_expired])
      have e: "expired t k = p # expired t ?k"
        using Cons p(1) False D by (simp add: expired_def not_less)
      have "length (items ?k (pxDelayedTaskList ?k)) < length ?D" using D Cons by simp
      from less.hyps [OF this inv'] show ?thesis by (simp add: step e disj_assoc)
    qed
  qed
qed

lemma takeWhile_sorted_filter:
  "sorted (map f xs) \<Longrightarrow> takeWhile (\<lambda>x. f x \<le> t) xs = filter (\<lambda>x. f x \<le> t) xs"
proof (induction xs)
  case (Cons x xs)
  show ?case
  proof (cases "f x \<le> t")
    case False
    then have "\<forall>y \<in> set xs. \<not> f y \<le> t" using Cons.prems by fastforce
    with False show ?thesis by (simp add: filter_empty_conv)
  qed (use Cons in auto)
qed simp

lemma set_expired:
  assumes inv: "kinv_at lo Ls X k"
  shows "set (expired t k) = {p. cont_of k (StateItem p) = Some (pxDelayedTaskList k) \<and> val_of k (StateItem p) \<le> t}"
proof -
  have "set (expired t k) = owner ` {i \<in> set (items k (pxDelayedTaskList k)). val_of k i \<le> t}"
    using takeWhile_sorted_filter [OF kinv_sorted [OF inv]] by (simp add: expired_def)
  also have "\<dots> = owner ` {i. (\<exists>p. i = StateItem p) \<and> cont_of k i = Some (pxDelayedTaskList k) \<and> val_of k i \<le> t}"
    using mem_items [OF inv] kinv_delayed_mem [OF inv] delayed_items_state [OF inv] by (intro arg_cong [where f = "image owner"]) blast
  finally show ?thesis by force
qed

text \<open>Waking the tasks in \<open>W\<close>, seen from the containers of the items.\<close>

fun ready_cont :: "ptr set \<Rightarrow> kernel \<Rightarrow> item_id \<Rightarrow> list_id option" where
  "ready_cont W k (StateItem p) = (if p \<in> W then Some (ReadyL (unat (prio k p))) else cont_of k (StateItem p))"
| "ready_cont W k (EventItem p) = (if p \<in> W then None else cont_of k (EventItem p))"
| "ready_cont W k (TimerItem p) = cont_of k (TimerItem p)"

lemma ready_cont_fold: "cont_of (fold make_ready ps k) = ready_cont (set ps) k"
proof
  fix i
  show "cont_of (fold make_ready ps k) i = ready_cont (set ps) k i"
    by (cases i) (simp_all add: fold_make_ready_cont)
qed

lemma ready_cont_empty [simp]: "ready_cont {} k = cont_of k"
proof
  fix i
  show "ready_cont {} k i = cont_of k i" by (cases i) simp_all
qed

definition wake_step :: "kernel \<Rightarrow> (bool \<times> kernel) option" where
  "wake_step k = (if xTickCount k \<ge> xNextTaskUnblockTime k
     then wake_expired (xTickCount k) False k else Some (False, k))"

lemma wake_step_spec:
  assumes inv: "kinv_at (unat (xTickCount k)) Ls X k"
  defines "W \<equiv> {p. cont_of k (StateItem p) = Some (pxDelayedTaskList k) \<and> val_of k (StateItem p) = xTickCount k}"
  shows "\<exists>k'. wake_step k = Some (\<exists>p \<in> W. prio k (pxCurrentTCB k) \<le> prio k p, k') \<and> kinv Ls X k' \<and>
     cont_of k' = ready_cont W k \<and> val_of k' = val_of k \<and> tcbs k' = tcbs k \<and>
     xTickCount k' = xTickCount k \<and> pxCurrentTCB k' = pxCurrentTCB k \<and>
     uxSchedulerSuspended k' = uxSchedulerSuspended k \<and> xYieldPending k' = xYieldPending k \<and>
     uxPendedTicks k' = uxPendedTicks k \<and> uxCurrentNumberOfTasks k' = uxCurrentNumberOfTasks k"
proof -
  let ?t = "xTickCount k"
  have lo: "?t \<le> val_of k i \<and> xNextTaskUnblockTime k \<le> val_of k i"
    if "cont_of k i = Some (pxDelayedTaskList k)" for i
    using delayed_place [OF inv that] by (auto simp: word_le_nat_alt)
  have W: "set (expired ?t k) = W"
    unfolding set_expired [OF inv] W_def using lo by (auto intro: antisym)
  show ?thesis
  proof (cases "xNextTaskUnblockTime k \<le> ?t")
    case False
    have gt: "?t < val_of k i" if "cont_of k i = Some (pxDelayedTaskList k)" for i
      using lo [OF that] False by (meson less_le_trans not_le)
    then have "W = {}" unfolding W_def by (metis (mono_tags, lifting) Collect_empty_eq less_irrefl)
    moreover have "kinv_at (Suc (unat ?t)) Ls X (k\<lparr>xNextTaskUnblockTime := xNextTaskUnblockTime k\<rparr>)"
      by (rule kinv_next [OF inv]) (use lo gt in \<open>auto simp: word_less_nat_alt Suc_le_eq\<close>)
    then have "kinv_at (Suc (unat ?t)) Ls X k" by simp
    ultimately show ?thesis using False by (simp add: wake_step_def)
  next
    case True
    let ?f = "fold make_ready (expired ?t k) k"
    have "\<forall>p \<in> set (expired ?t k). unat (prio k p) < configMAX_PRIORITIES"
      using W state_place(1) [OF inv] by (auto simp: W_def)
    from kinv_mono [OF fold_make_ready_inv [OF inv this], of X]
    have inv': "kinv_at (unat ?t) Ls X ?f" by blast
    have "Suc (unat ?t) \<le> unat (val_of ?f i) \<and> xNextTaskUnblockTime k \<le> val_of ?f i"
      if c: "cont_of ?f i = Some (pxDelayedTaskList ?f)" for i
    proof -
      obtain p where i: "i = StateItem p" using delayed_place [OF inv' c] by auto
      have "p \<notin> W" using c i W kinv_delayed_ne(1) [OF inv] by (auto simp: fold_make_ready_cont)
      moreover from this have "cont_of k i = Some (pxDelayedTaskList k)"
        using c i W by (simp add: fold_make_ready_cont)
      ultimately have "?t \<noteq> val_of k i" using i by (auto simp: W_def)
      with lo \<open>cont_of k i = Some (pxDelayedTaskList k)\<close> have "?t < val_of k i" by (simp add: order_less_le)
      then show ?thesis using lo \<open>cont_of k i = Some (pxDelayedTaskList k)\<close> by (simp add: word_less_nat_alt Suc_le_eq)
    qed
    then have "kinv_at (Suc (unat ?t)) Ls X (?f\<lparr>xNextTaskUnblockTime := xNextTaskUnblockTime k\<rparr>)"
      by (intro kinv_next [OF inv']) auto
    moreover have "?f\<lparr>xNextTaskUnblockTime := xNextTaskUnblockTime k\<rparr> = ?f"
      using fold_make_ready_fields(11) [of "expired ?t k" k] by simp
    ultimately have "kinv_at (Suc (unat ?t)) Ls X ?f" by metis
    from reset_inv [OF this] have inv'': "kinv Ls X (prvResetNextTaskUnblockTime ?f)" by simp
    have "wake_step k = Some (\<exists>p \<in> W. prio k (pxCurrentTCB k) \<le> prio k p, prvResetNextTaskUnblockTime ?f)"
      using True wake_expired_eq [OF inv, of ?t False] W by (simp add: wake_step_def)
    with inv'' show ?thesis
      using W by (intro exI [of _ "prvResetNextTaskUnblockTime ?f"]) (simp add: ready_cont_fold)
  qed
qed

text \<open>When the tick counter wraps, the current delayed list is empty and the lists are exchanged.\<close>

lemma switch_lists_inv:
  assumes inv: "kinv Ls X k" and wrap: "xTickCount k + 1 = 0"
  shows "\<exists>k'. taskSWITCH_DELAYED_LISTS (k\<lparr>xTickCount := 0\<rparr>) = Some k' \<and> kinv_at 0 Ls X k' \<and>
     cont_of k' = cont_of k \<and> val_of k' = val_of k \<and> tcbs k' = tcbs k \<and> items k' = items k \<and>
     xTickCount k' = 0 \<and> pxCurrentTCB k' = pxCurrentTCB k \<and>
     pxDelayedTaskList k' = pxOverflowDelayedTaskList k \<and> pxOverflowDelayedTaskList k' = pxDelayedTaskList k \<and>
     uxSchedulerSuspended k' = uxSchedulerSuspended k \<and> xYieldPending k' = xYieldPending k \<and>
     uxPendedTicks k' = uxPendedTicks k \<and> uxCurrentNumberOfTasks k' = uxCurrentNumberOfTasks k"
proof -
  have "xTickCount k = - 1" using wrap by (simp add: eq_neg_iff_add_eq_0)
  then have max: "unat (xTickCount k) = 2 ^ 32 - 1"
    by (simp add: unsigned_minus_1_eq_mask mask_eq_exp_minus_1)
  have empty: "cont_of k i \<noteq> Some (pxDelayedTaskList k)" for i
  proof
    assume "cont_of k i = Some (pxDelayedTaskList k)"
    from delayed_place [OF inv this] max unat_u32 [of "val_of k i"] show False by auto
  qed
  have "items k (pxDelayedTaskList k) = []"
  proof (rule ccontr)
    assume "items k (pxDelayedTaskList k) \<noteq> []"
    then have "hd (items k (pxDelayedTaskList k)) \<in> set (items k (pxDelayedTaskList k))" by simp
    from delayed_items_state [OF inv this] empty show False by blast
  qed
  define k1 where "k1 = k\<lparr>xTickCount := 0, pxDelayedTaskList := pxOverflowDelayedTaskList k,
     pxOverflowDelayedTaskList := pxDelayedTaskList k, xNumOfOverflows := xNumOfOverflows k + 1,
     xNextTaskUnblockTime := 0\<rparr>"
  have "place_ok 0 k1 i l" if c: "cont_of k i = Some l" for i l
    using kinvD(7) [OF inv c] empty [of i] c kinvD(5) [OF inv]
    by (cases i; cases l) (auto simp: place_ok_def k1_def delayed_pair_def split: if_splits)
  then have "kinv_at 0 Ls X k1"
    using inv by (auto simp: kinv_at_def k1_def delayed_pair_def)
  then have inv1: "kinv_at 0 Ls X (prvResetNextTaskUnblockTime k1)" by (rule reset_inv)
  have "prvResetNextTaskUnblockTime k1 = prvResetNextTaskUnblockTime
     (k\<lparr>xTickCount := 0, pxDelayedTaskList := pxOverflowDelayedTaskList k,
        pxOverflowDelayedTaskList := pxDelayedTaskList k, xNumOfOverflows := xNumOfOverflows k + 1\<rparr>)"
    by (simp add: prvResetNextTaskUnblockTime_def k1_def split: option.split)
  then have "taskSWITCH_DELAYED_LISTS (k\<lparr>xTickCount := 0\<rparr>) = Some (prvResetNextTaskUnblockTime k1)"
    using \<open>items k (pxDelayedTaskList k) = []\<close> by (simp add: taskSWITCH_DELAYED_LISTS_def)
  with inv1 show ?thesis by (intro exI [of _ "prvResetNextTaskUnblockTime k1"]) (simp add: k1_def)
qed

text \<open>The tasks that the next tick wakes.\<close>

definition due :: "kernel \<Rightarrow> ptr set" where
  "due k = {p. delayed k p \<and> val_of k (StateItem p) = xTickCount k + 1}"

definition time_slice :: "kernel \<Rightarrow> bool" where
  "time_slice k \<longleftrightarrow> length (items k (ReadyL (unat (prio k (pxCurrentTCB k))))) > 1"

lemma delayed_iff:
  "delayed_pair k \<Longrightarrow> delayed k p \<longleftrightarrow> cont_of k (StateItem p) = Some (pxDelayedTaskList k) \<or>
     cont_of k (StateItem p) = Some (pxOverflowDelayedTaskList k)"
  by (auto simp: delayed_def delayed_pair_def)

theorem tick_spec:
  assumes inv: "kinv Ls X k" and run: "uxSchedulerSuspended k = 0"
  shows "\<exists>k' sw. xTaskIncrementTick k = Some (sw, k') \<and> kinv Ls X k' \<and>
     xTickCount k' = xTickCount k + 1 \<and> cont_of k' = ready_cont (due k) k \<and>
     val_of k' = val_of k \<and> tcbs k' = tcbs k \<and> pxCurrentTCB k' = pxCurrentTCB k \<and>
     uxSchedulerSuspended k' = uxSchedulerSuspended k \<and> xYieldPending k' = xYieldPending k \<and>
     uxPendedTicks k' = uxPendedTicks k \<and> uxCurrentNumberOfTasks k' = uxCurrentNumberOfTasks k \<and>
     (sw \<longleftrightarrow> xYieldPending k \<or> time_slice k' \<or> (\<exists>p \<in> due k. prio k (pxCurrentTCB k) \<le> prio k p))"
proof -
  let ?t = "xTickCount k + 1"
  have "\<exists>k1. (if ?t = 0 then taskSWITCH_DELAYED_LISTS (k\<lparr>xTickCount := ?t\<rparr>) else Some (k\<lparr>xTickCount := ?t\<rparr>)) = Some k1 \<and>
     kinv_at (unat ?t) Ls X k1 \<and> cont_of k1 = cont_of k \<and> val_of k1 = val_of k \<and> tcbs k1 = tcbs k \<and>
     xTickCount k1 = ?t \<and> pxCurrentTCB k1 = pxCurrentTCB k \<and>
     due k = {p. cont_of k1 (StateItem p) = Some (pxDelayedTaskList k1) \<and> val_of k1 (StateItem p) = ?t} \<and>
     uxSchedulerSuspended k1 = uxSchedulerSuspended k \<and> xYieldPending k1 = xYieldPending k \<and>
     uxPendedTicks k1 = uxPendedTicks k \<and> uxCurrentNumberOfTasks k1 = uxCurrentNumberOfTasks k"
  proof (cases "?t = 0")
    case True
    obtain k1 where k1: "taskSWITCH_DELAYED_LISTS (k\<lparr>xTickCount := 0\<rparr>) = Some k1" "kinv_at 0 Ls X k1"
     "cont_of k1 = cont_of k" "val_of k1 = val_of k" "tcbs k1 = tcbs k"
     "xTickCount k1 = 0" "pxCurrentTCB k1 = pxCurrentTCB k"
     "pxDelayedTaskList k1 = pxOverflowDelayedTaskList k" "pxOverflowDelayedTaskList k1 = pxDelayedTaskList k"
     "uxSchedulerSuspended k1 = uxSchedulerSuspended k" "xYieldPending k1 = xYieldPending k"
     "uxPendedTicks k1 = uxPendedTicks k" "uxCurrentNumberOfTasks k1 = uxCurrentNumberOfTasks k"
      using switch_lists_inv [OF inv True] by blast
    have "cont_of k (StateItem p) \<noteq> Some (pxDelayedTaskList k)" if "val_of k (StateItem p) = 0" for p
      using delayed_place [OF inv, of "StateItem p"] that by auto
    then have "due k = {p. cont_of k1 (StateItem p) = Some (pxDelayedTaskList k1) \<and> val_of k1 (StateItem p) = ?t}"
      using k1(3,4,8) True delayed_iff [OF kinvD(5) [OF inv]] by (auto simp: due_def)
    with k1 True show ?thesis by simp
  next
    case False
    let ?k = "k\<lparr>xTickCount := ?t\<rparr>"
    have s: "unat ?t = Suc (unat (xTickCount k))"
      using False by (simp add: unatSuc add.commute)
    then have lt: "xTickCount k < ?t" by (simp add: word_less_nat_alt)
    have "place_ok (unat ?t) ?k i l" if c: "cont_of k i = Some l" for i l
      using kinvD(7) [OF inv c] s lt by (cases i; cases l) (auto simp: place_ok_def split: if_splits)
    then have "kinv_at (unat ?t) Ls X ?k" using inv by (auto simp: kinv_at_def delayed_pair_def)
    moreover have "val_of k (StateItem p) \<noteq> ?t" if "cont_of k (StateItem p) = Some (pxOverflowDelayedTaskList k)" for p
      using overflow_place [OF inv that] lt by auto
    then have "due k = {p. cont_of ?k (StateItem p) = Some (pxDelayedTaskList ?k) \<and> val_of ?k (StateItem p) = ?t}"
      using delayed_iff [OF kinvD(5) [OF inv]] by (auto simp: due_def)
    ultimately show ?thesis using False by auto
  qed
  then obtain k1 where sw1: "(if ?t = 0 then taskSWITCH_DELAYED_LISTS (k\<lparr>xTickCount := ?t\<rparr>) else Some (k\<lparr>xTickCount := ?t\<rparr>)) = Some k1"
    and inv0: "kinv_at (unat ?t) Ls X k1" and k1: "cont_of k1 = cont_of k" "val_of k1 = val_of k" "tcbs k1 = tcbs k"
     "xTickCount k1 = ?t" "pxCurrentTCB k1 = pxCurrentTCB k"
     and due: "due k = {p. cont_of k1 (StateItem p) = Some (pxDelayedTaskList k1) \<and> val_of k1 (StateItem p) = ?t}"
     and k1': "uxSchedulerSuspended k1 = uxSchedulerSuspended k" "xYieldPending k1 = xYieldPending k"
     "uxPendedTicks k1 = uxPendedTicks k" "uxCurrentNumberOfTasks k1 = uxCurrentNumberOfTasks k"
    by blast
  have inv1: "kinv_at (unat (xTickCount k1)) Ls X k1" using inv0 k1(4) by simp
  have due1: "due k = {p. cont_of k1 (StateItem p) = Some (pxDelayedTaskList k1) \<and> val_of k1 (StateItem p) = xTickCount k1}"
    unfolding k1(4) by (rule due)
  obtain k2 where k2: "wake_step k1 = Some (\<exists>p \<in> due k. prio k1 (pxCurrentTCB k1) \<le> prio k1 p, k2)" "kinv Ls X k2"
     "cont_of k2 = ready_cont (due k) k1" "val_of k2 = val_of k1" "tcbs k2 = tcbs k1"
     "xTickCount k2 = xTickCount k1" "pxCurrentTCB k2 = pxCurrentTCB k1"
     "uxSchedulerSuspended k2 = uxSchedulerSuspended k1" "xYieldPending k2 = xYieldPending k1"
     "uxPendedTicks k2 = uxPendedTicks k1" "uxCurrentNumberOfTasks k2 = uxCurrentNumberOfTasks k1"
    using wake_step_spec [OF inv1, folded due1] by blast
  have rc: "ready_cont (due k) k1 = ready_cont (due k) k"
  proof
    fix i
    show "ready_cont (due k) k1 i = ready_cont (due k) k i" using k1(1,3) by (cases i) simp_all
  qed
  have "xTaskIncrementTick k = Some (xYieldPending k \<or> time_slice k2 \<or> (\<exists>p \<in> due k. prio k (pxCurrentTCB k) \<le> prio k p), k2)"
  proof -
    have w: "(if xNextTaskUnblockTime k1 \<le> ?t then wake_expired ?t False k1 else Some (False, k1)) = wake_step k1"
      using k1(4) by (simp add: wake_step_def)
    show ?thesis
      unfolding xTaskIncrementTick_def Let_def sw1
      using run w k1(3,5) k1'(2) k2(1,5,7,9) by (simp add: time_slice_def)
  qed
  with k2 k1 k1' rc show ?thesis by simp
qed

subsection \<open>Suspending and resuming the scheduler\<close>

lemma drop_commute:
  assumes "cont S i = Some l" and "cont S j = Some m" and "l \<noteq> m"
  shows "drop_item i (drop_item j S) = drop_item j (drop_item i S)"
proof -
  have "i \<noteq> j" using assms by auto
  with assms show ?thesis by (simp add: drop_item_def fun_upd_twist)
qed

lemma make_ready_yield [simp]:
  "make_ready p (k\<lparr>xYieldPending := b\<rparr>) = (make_ready p k)\<lparr>xYieldPending := b\<rparr>"
  by (simp add: make_ready_def prvAddTaskToReadyList_eq)

lemma fold_make_ready_yield [simp]:
  "fold make_ready ps (k\<lparr>xYieldPending := b\<rparr>) = (fold make_ready ps k)\<lparr>xYieldPending := b\<rparr>"
  by (induction ps arbitrary: k) simp_all

definition pending :: "kernel \<Rightarrow> ptr list" where
  "pending k = map owner (items k PendingReadyL)"

lemma pending_items:
  assumes inv: "kinv_at lo Ls X k" and "i \<in> set (items k PendingReadyL)"
  shows "\<exists>p. i = EventItem p \<and> cont_of k i = Some PendingReadyL"
proof -
  have "cont_of k i = Some PendingReadyL" using mem_items [OF inv] kinv_static [OF inv] assms(2) by auto
  with pending_place [OF inv this] show ?thesis by blast
qed

lemma set_pending:
  assumes inv: "kinv_at lo Ls X k"
  shows "set (pending k) = {p. cont_of k (EventItem p) = Some PendingReadyL}"
proof -
  have "p \<in> set (pending k) \<longleftrightarrow> EventItem p \<in> set (items k PendingReadyL)" for p
    using pending_items [OF inv] by (force simp: pending_def image_iff)
  then show ?thesis using mem_items [OF inv kinv_static [OF inv]] by auto
qed

theorem drain_pending_eq:
  assumes "kinv_at lo Ls X k" and "set (pending k) \<inter> X = {}"
  shows "drain_pending p0 k = Some (last (p0 # pending k),
    (fold make_ready (pending k) k)\<lparr>xYieldPending := xYieldPending k \<or>
       (\<exists>p \<in> set (pending k). prio k (pxCurrentTCB k) \<le> prio k p)\<rparr>)"
  using assms
proof (induction "pending k" arbitrary: k p0)
  case Nil
  then have h: "l_head PendingReadyL (ls k) = None" by (simp add: pending_def)
  have "drain_pending p0 k = Some (p0, k)" by (subst drain_pending.simps) (simp add: h)
  with Nil show ?case by (simp add: Nil(1) [symmetric])
next
  case (Cons p ps)
  note inv = Cons.prems(1)
  obtain i L where L: "items k PendingReadyL = i # L" "owner i = p" "map owner L = ps"
    using Cons.hyps(2) by (cases "items k PendingReadyL") (auto simp: pending_def)
  obtain q where q: "i = EventItem q" "cont_of k i = Some PendingReadyL"
    using pending_items [OF inv, of i] L(1) by auto
  have i: "i = EventItem p" "cont_of k (EventItem p) = Some PendingReadyL" using q L(2) by auto
  have "p \<notin> X" using Cons.prems(2) Cons.hyps(2) by (metis disjoint_iff list.set_intros(1))
  then obtain l where l: "l \<in> delayed_or_suspended" "cont_of k (StateItem p) = Some l"
    using kinvD(8) [OF inv] i(2) by blast
  have pr: "unat (prio k p) < configMAX_PRIORITIES" by (rule state_place(1) [OF inv l(2)])
  have ne: "PendingReadyL \<noteq> l" using l(1) by (auto simp: delayed_or_suspended_def)
  let ?b = "xYieldPending k \<or> prio k (pxCurrentTCB k) \<le> prio k p"
  let ?k = "(make_ready p k)\<lparr>xYieldPending := ?b\<rparr>"
  have inv1: "kinv_at lo Ls X (make_ready p k)"
    using kinv_mono [OF make_ready_inv [OF inv pr], of X] by blast
  have inv2: "kinv_at lo Ls X ?k" by (rule kinv_fields [OF inv1]) simp_all
  have "StateItem p \<notin> set (items k PendingReadyL)" using pending_items [OF inv, of "StateItem p"] by auto
  then have it: "items ?k PendingReadyL = L"
    using make_ready_items [OF inv kinv_static [OF inv], of PendingReadyL p] L(1) i(1) by (simp add: remove1_idem)
  then have pe: "pending ?k = ps" using L(3) by (simp add: pending_def)
  have "k_remove (EventItem p) k = Some (k\<lparr>ls := drop_item (EventItem p) (ls k)\<rparr>)"
    using i(2) by (simp add: k_remove_eq)
  moreover have "k_remove (StateItem p) (k\<lparr>ls := drop_item (EventItem p) (ls k)\<rparr>) =
      Some (k\<lparr>ls := drop_item (EventItem p) (drop_item (StateItem p) (ls k))\<rparr>)"
    using l(2) drop_commute [OF i(2) l(2) ne] by (simp add: k_remove_eq)
  ultimately have "drain_pending p0 k = drain_pending p
      (if prio k p \<ge> prio k (pxCurrentTCB k) then (make_ready p k)\<lparr>xYieldPending := True\<rparr> else make_ready p k)"
    using L(1) i(1) by (subst drain_pending.simps) (simp add: make_ready_def [symmetric] Let_def)
  also have "(if prio k p \<ge> prio k (pxCurrentTCB k) then (make_ready p k)\<lparr>xYieldPending := True\<rparr> else make_ready p k) = ?k"
    using make_ready_fields(9) [of p k] by (cases "xYieldPending k") (auto simp del: make_ready_fields(9))
  finally have step: "drain_pending p0 k = drain_pending p ?k" .
  have "drain_pending p ?k = Some (last (p # pending ?k),
    (fold make_ready (pending ?k) ?k)\<lparr>xYieldPending := xYieldPending ?k \<or>
       (\<exists>q \<in> set (pending ?k). prio ?k (pxCurrentTCB ?k) \<le> prio ?k q)\<rparr>)"
  proof (rule Cons.hyps(1))
    show "ps = pending ?k" using pe by simp
    show "set (pending ?k) \<inter> X = {}" using Cons.prems(2) Cons.hyps(2) pe by (metis disjoint_iff list.set_intros(2))
  qed (rule inv2)
  moreover have "pending k = p # ps" using Cons.hyps(2) by simp
  ultimately show ?case by (simp add: step pe disj_assoc)
qed


text \<open>What a run of ticks leaves alone, and what it keeps.\<close>

definition tick_frame :: "kernel \<Rightarrow> kernel \<Rightarrow> bool" where
  "tick_frame k k' \<longleftrightarrow> tcbs k' = tcbs k \<and> pxCurrentTCB k' = pxCurrentTCB k \<and>
     uxSchedulerSuspended k' = uxSchedulerSuspended k \<and> uxCurrentNumberOfTasks k' = uxCurrentNumberOfTasks k \<and>
     uxPendedTicks k' = uxPendedTicks k \<and> val_of k' = val_of k \<and>
     (\<forall>i n. cont_of k i = Some (ReadyL n) \<longrightarrow> cont_of k' i = Some (ReadyL n)) \<and>
     (\<forall>i. cont_of k' i = Some PendingReadyL \<longrightarrow> cont_of k i = Some PendingReadyL)"

lemma tick_frame_refl [simp]: "tick_frame k k"
  by (simp add: tick_frame_def)

lemma tick_frame_trans: "tick_frame k k' \<Longrightarrow> tick_frame k' k'' \<Longrightarrow> tick_frame k k''"
  unfolding tick_frame_def by metis

lemma tick_frame_ready:
  assumes inv: "kinv_at lo Ls X k"
    and "cont_of k' = ready_cont W k" "tcbs k' = tcbs k" "val_of k' = val_of k" "pxCurrentTCB k' = pxCurrentTCB k"
    "uxSchedulerSuspended k' = uxSchedulerSuspended k" "uxPendedTicks k' = uxPendedTicks k"
    "uxCurrentNumberOfTasks k' = uxCurrentNumberOfTasks k"
  shows "tick_frame k k'"
proof -
  have "ready_cont W k i = Some (ReadyL n)" if "cont_of k i = Some (ReadyL n)" for i n
    using ready_place [OF inv that] that by auto
  moreover have "cont_of k i = Some PendingReadyL" if "ready_cont W k i = Some PendingReadyL" for i
    using that by (cases i) (auto split: if_splits)
  ultimately show ?thesis using assms by (simp add: tick_frame_def)
qed

lemma tick_frame_yield:
  "tick_frame k k' \<Longrightarrow> tick_frame k (k'\<lparr>xYieldPending := b\<rparr>)"
  by (simp add: tick_frame_def)

theorem replay_ticks_spec:
  assumes "kinv Ls X k" and "uxSchedulerSuspended k = 0" and "0 < n"
  shows "\<exists>k'. replay_ticks n k = Some k' \<and> kinv Ls X k' \<and> xTickCount k' = xTickCount k + n \<and> tick_frame k k'"
  using assms
proof (induction "unat n" arbitrary: n k)
  case 0
  then show ?case by (simp add: unat_eq_0)
next
  case (Suc m)
  obtain k1 sw where k1: "xTaskIncrementTick k = Some (sw, k1)" "kinv Ls X k1" "xTickCount k1 = xTickCount k + 1"
    "cont_of k1 = ready_cont (due k) k" "val_of k1 = val_of k" "tcbs k1 = tcbs k" "pxCurrentTCB k1 = pxCurrentTCB k"
    "uxSchedulerSuspended k1 = uxSchedulerSuspended k" "uxPendedTicks k1 = uxPendedTicks k"
    "uxCurrentNumberOfTasks k1 = uxCurrentNumberOfTasks k"
    using tick_spec [OF Suc.prems(1,2)] by blast
  define k2 where "k2 = (if sw then k1\<lparr>xYieldPending := True\<rparr> else k1)"
  have f1: "tick_frame k k1" by (rule tick_frame_ready [OF Suc.prems(1) k1(4,6,5,7,8,9,10)])
  then have f2: "tick_frame k k2" by (simp add: k2_def tick_frame_yield)
  have inv2: "kinv Ls X k2" by (rule kinv_fields [where k = k1]) (use k1(2) in \<open>simp_all add: k2_def\<close>)
  have t2: "xTickCount k2 = xTickCount k + 1" using k1(3) by (simp add: k2_def)
  have n0: "n \<noteq> 0" using Suc.prems(3) by auto
  have m: "m = unat (n - 1)" using Suc.hyps(2) n0 by (simp add: unat_minus_one)
  have step: "replay_ticks n k = (if n - 1 > 0 then replay_ticks (n - 1) k2 else Some k2)"
    by (subst replay_ticks.simps) (simp add: k1(1) k2_def)
  show ?case
  proof (cases "n - 1 > 0")
    case True
    have "uxSchedulerSuspended k2 = 0" using f2 Suc.prems(2) by (simp add: tick_frame_def)
    from Suc.hyps(1) [OF m inv2 this True] obtain k' where
      "replay_ticks (n - 1) k2 = Some k'" "kinv Ls X k'" "xTickCount k' = xTickCount k2 + (n - 1)" "tick_frame k2 k'"
      by blast
    then show ?thesis using step True t2 tick_frame_trans [OF f2] by (simp add: algebra_simps)
  next
    case False
    then have "n = 1" by (simp add: word_gt_0 algebra_simps)
    with step False inv2 t2 f2 show ?thesis by simp
  qed
qed


lemma some_ready_iff:
  assumes "kinv_at lo Ls X k"
  shows "some_ready k \<longleftrightarrow> (\<exists>p n. cont_of k (StateItem p) = Some (ReadyL n))"
proof
  assume "some_ready k"
  then obtain n where n: "n < configMAX_PRIORITIES" "items k (ReadyL n) \<noteq> []" by (auto simp: some_ready_def)
  then obtain i where "i \<in> set (items k (ReadyL n))" by (meson last_in_set)
  then have "cont_of k i = Some (ReadyL n)"
    using mem_items [OF assms kinv_static [OF assms]] n(1) by simp
  with ready_place [OF assms this] show "\<exists>p n. cont_of k (StateItem p) = Some (ReadyL n)" by blast
next
  assume "\<exists>p n. cont_of k (StateItem p) = Some (ReadyL n)"
  then obtain p n where c: "cont_of k (StateItem p) = Some (ReadyL n)" by blast
  then have "StateItem p \<in> set (items k (ReadyL n))" using mem_items [OF assms item_in_Ls [OF assms c]] by simp
  then have "items k (ReadyL n) \<noteq> []" by auto
  moreover have "n < configMAX_PRIORITIES" using ready_place [OF assms c] by blast
  ultimately show "some_ready k" by (auto simp: some_ready_def)
qed

lemma pending_empty_iff:
  assumes "kinv_at lo Ls X k"
  shows "pending k = [] \<longleftrightarrow> (\<forall>i. cont_of k i \<noteq> Some PendingReadyL)"
proof -
  have "pending k = [] \<longleftrightarrow> items k PendingReadyL = []" by (simp add: pending_def)
  also have "\<dots> \<longleftrightarrow> (\<forall>i. i \<notin> set (items k PendingReadyL))" by auto
  finally show ?thesis using mem_items [OF assms kinv_static [OF assms]] by simp
qed

text \<open>The body of \<open>xTaskResumeAll\<close> before the yield: the pending tasks are made ready and the
  pended ticks are replayed.\<close>

definition resume_body :: "kernel \<Rightarrow> kernel option" where
  "resume_body k =
     do {
       (pxTCB, k) \<leftarrow> drain_pending NULL k;
       let k = (if pxTCB \<noteq> NULL then prvResetNextTaskUnblockTime k else k);
       (if uxPendedTicks k > 0 then
          do { k \<leftarrow> replay_ticks (uxPendedTicks k) k; Some (k\<lparr>uxPendedTicks := 0\<rparr>) }
        else Some k)
     }"

lemma xTaskResumeAll_eq:
  "xTaskResumeAll k =
     (if uxSchedulerSuspended k = 0 then None
      else
        (let k = k\<lparr>uxSchedulerSuspended := uxSchedulerSuspended k - 1\<rparr> in
         if uxSchedulerSuspended k = 0 \<and> uxCurrentNumberOfTasks k > 0
         then do {
           k \<leftarrow> resume_body k;
           (if xYieldPending k then do { k \<leftarrow> portYIELD_WITHIN_API k; Some (True, k) } else Some (False, k))
         }
         else Some (False, k)))"
  by (auto simp: xTaskResumeAll_def resume_body_def Let_def split: option.split prod.split bind_splits)

lemma resume_body_spec:
  assumes inv: "kinv Ls {} k" and susp: "uxSchedulerSuspended k = 0"
  shows "\<exists>k'. resume_body k = Some k' \<and> kinv Ls {} k' \<and> xTickCount k' = xTickCount k + uxPendedTicks k \<and>
     uxPendedTicks k' = 0 \<and> uxSchedulerSuspended k' = 0 \<and> pending k' = [] \<and>
     (\<forall>p \<in> set (pending k). cont_of k' (StateItem p) = Some (ReadyL (unat (prio k p)))) \<and>
     tcbs k' = tcbs k \<and> pxCurrentTCB k' = pxCurrentTCB k \<and>
     uxCurrentNumberOfTasks k' = uxCurrentNumberOfTasks k \<and>
     (\<forall>i n. cont_of k i = Some (ReadyL n) \<longrightarrow> cont_of k' i = Some (ReadyL n))"
proof -
  let ?ps = "pending k"
  let ?f = "fold make_ready ?ps k"
  define k1 where "k1 = ?f\<lparr>xYieldPending := xYieldPending k \<or>
       (\<exists>p \<in> set ?ps. prio k (pxCurrentTCB k) \<le> prio k p)\<rparr>"
  have drain: "drain_pending NULL k = Some (last (NULL # ?ps), k1)"
    using drain_pending_eq [OF inv, of NULL] by (simp add: k1_def)
  have prs: "unat (prio k p) < configMAX_PRIORITIES" if "p \<in> set ?ps" for p
  proof -
    have "cont_of k (EventItem p) = Some PendingReadyL" using that set_pending [OF inv] by blast
    then obtain l where "cont_of k (StateItem p) = Some l" using kinvD(8) [OF inv, of p] by auto
    then show ?thesis by (rule state_place(1) [OF inv])
  qed
  then have f: "kinv Ls {} ?f" using fold_make_ready_inv [OF inv, of ?ps] by simp
  have inv1: "kinv Ls {} k1" by (rule kinv_fields [where k = ?f]) (use f in \<open>simp_all add: k1_def\<close>)
  define k2 where "k2 = (if last (NULL # ?ps) \<noteq> NULL then prvResetNextTaskUnblockTime k1 else k1)"
  have inv2: "kinv Ls {} k2" using inv1 reset_inv [OF inv1] by (simp add: k2_def)
  have c1: "cont_of k1 = ready_cont (set ?ps) k" by (simp add: k1_def ready_cont_fold)
  have ls2: "ls k2 = ls k1" by (simp add: k2_def)
  have F2: "tcbs k2 = tcbs k" "pxCurrentTCB k2 = pxCurrentTCB k" "xTickCount k2 = xTickCount k"
    "uxPendedTicks k2 = uxPendedTicks k" "uxSchedulerSuspended k2 = 0" "uxCurrentNumberOfTasks k2 = uxCurrentNumberOfTasks k"
    using susp by (simp_all add: k2_def k1_def)
  have body: "resume_body k = (if uxPendedTicks k2 > 0 then
      do { k \<leftarrow> replay_ticks (uxPendedTicks k2) k2; Some (k\<lparr>uxPendedTicks := 0\<rparr>) } else Some k2)"
    unfolding resume_body_def drain k2_def Let_def by (simp only: bind.bind_lunit prod.case)
  have nopend: "cont_of k2 i \<noteq> Some PendingReadyL" for i
  proof
    assume c: "cont_of k2 i = Some PendingReadyL"
    then obtain p where "i = EventItem p" using pending_place [OF inv2 c] by blast
    with c c1 ls2 set_pending [OF inv] show False by (auto split: if_splits)
  qed
  have rdy: "cont_of k2 i = Some (ReadyL n)" if "cont_of k i = Some (ReadyL n)" for i n
    using ready_place [OF inv that] that c1 ls2 by auto
  have woken: "cont_of k2 (StateItem p) = Some (ReadyL (unat (prio k p)))" if "p \<in> set ?ps" for p
    using that c1 ls2 by simp
  show ?thesis
  proof (cases "uxPendedTicks k > 0")
    case True
    obtain k3 where k3: "replay_ticks (uxPendedTicks k) k2 = Some k3" "kinv Ls {} k3"
      "xTickCount k3 = xTickCount k2 + uxPendedTicks k" "tick_frame k2 k3"
      using replay_ticks_spec [OF inv2 F2(5) True] by blast
    let ?k = "k3\<lparr>uxPendedTicks := 0\<rparr>"
    have "kinv Ls {} ?k" by (rule kinv_fields [where k = k3]) (use k3(2) in simp_all)
    moreover have "resume_body k = Some ?k"
      using True k3(1) F2(4) by (simp add: body)
    moreover have "pending ?k = []"
      using pending_empty_iff [OF calculation(1)] nopend k3(4) by (auto simp: tick_frame_def)
    ultimately show ?thesis
      using k3(3,4) F2 woken rdy by (intro exI [of _ ?k]) (auto simp: tick_frame_def)
  next
    case False
    then have "uxPendedTicks k = 0" by (simp add: word_gt_0)
    moreover have "resume_body k = Some k2"
      using False F2(4) by (simp add: body)
    moreover have "pending k2 = []" using pending_empty_iff [OF inv2] nopend by auto
    ultimately show ?thesis using inv2 F2 woken rdy by (intro exI [of _ k2]) auto
  qed
qed

theorem xTaskResumeAll_spec:
  assumes inv: "kinv Ls {} k" and susp: "uxSchedulerSuspended k = 1" and n: "uxCurrentNumberOfTasks k \<noteq> 0"
    and ready: "some_ready k"
  shows "\<exists>b k'. xTaskResumeAll k = Some (b, k') \<and> kinv Ls {} k' \<and>
     xTickCount k' = xTickCount k + uxPendedTicks k \<and> uxPendedTicks k' = 0 \<and>
     uxSchedulerSuspended k' = 0 \<and> pending k' = [] \<and>
     (\<forall>p \<in> set (pending k). cont_of k' (StateItem p) = Some (ReadyL (unat (prio k p)))) \<and>
     tcbs k' = tcbs k \<and> (\<not> b \<longrightarrow> pxCurrentTCB k' = pxCurrentTCB k) \<and>
     uxCurrentNumberOfTasks k' = uxCurrentNumberOfTasks k \<and>
     (\<forall>i n. cont_of k i = Some (ReadyL n) \<longrightarrow> cont_of k' i = Some (ReadyL n))"
proof -
  let ?k = "k\<lparr>uxSchedulerSuspended := 0\<rparr>"
  have inv0: "kinv Ls {} ?k" by (rule kinv_fields [where k = k]) (use inv in simp_all)
  have p0: "pending ?k = pending k" by (simp add: pending_def)
  obtain k1 where k1: "resume_body ?k = Some k1" "kinv Ls {} k1" "xTickCount k1 = xTickCount ?k + uxPendedTicks ?k"
     "uxPendedTicks k1 = 0" "uxSchedulerSuspended k1 = 0" "pending k1 = []"
     "\<forall>p \<in> set (pending ?k). cont_of k1 (StateItem p) = Some (ReadyL (unat (prio ?k p)))"
     "tcbs k1 = tcbs ?k" "pxCurrentTCB k1 = pxCurrentTCB ?k"
     "uxCurrentNumberOfTasks k1 = uxCurrentNumberOfTasks ?k"
     "\<forall>i n. cont_of ?k i = Some (ReadyL n) \<longrightarrow> cont_of k1 i = Some (ReadyL n)"
    using resume_body_spec [OF inv0] by auto
  have step: "xTaskResumeAll k = (if xYieldPending k1
      then do { k \<leftarrow> portYIELD_WITHIN_API k1; Some (True, k) } else Some (False, k1))"
    using susp n k1(1) by (simp add: xTaskResumeAll_eq Let_def word_gt_0)
  show ?thesis
  proof (cases "xYieldPending k1")
    case True
    have "some_ready k1"
    proof -
      obtain p m where "cont_of k (StateItem p) = Some (ReadyL m)" using ready some_ready_iff [OF inv] by blast
      with k1(11) have "cont_of k1 (StateItem p) = Some (ReadyL m)" by simp
      then show ?thesis using some_ready_iff [OF k1(2)] by blast
    qed
    then obtain k2 where k2: "vTaskSwitchContext k1 = Some k2" "kinv_at (Suc (unat (xTickCount k1))) Ls {} k2"
      "cont_of k2 = cont_of k1" "items k2 = items k1" "val_of k2 = val_of k1" "tcbs k2 = tcbs k1"
      "xTickCount k2 = xTickCount k1" "uxPendedTicks k2 = uxPendedTicks k1"
      "uxSchedulerSuspended k2 = uxSchedulerSuspended k1" "uxCurrentNumberOfTasks k2 = uxCurrentNumberOfTasks k1"
      using switch_context_inv [OF k1(2)] by blast
    have "pending k2 = []" using k1(6) k2(4) by (simp add: pending_def fun_eq_iff)
    then show ?thesis
      using step True k1 k2 p0
      by (intro exI [of _ True] exI [of _ k2]) (simp add: portYIELD_WITHIN_API_def)
  next
    case False
    then show ?thesis using step k1 p0 by (intro exI [of _ False] exI [of _ k1]) simp
  qed
qed

lemma xTaskResumeAll_nested:
  assumes "1 < uxSchedulerSuspended k"
  shows "xTaskResumeAll k = Some (False, k\<lparr>uxSchedulerSuspended := uxSchedulerSuspended k - 1\<rparr>)"
  using assms by (auto simp: xTaskResumeAll_eq Let_def)

end
