(* ===== verification/TaskApi.thy ===== *)
theory TaskApi
  imports Tick
begin

section \<open>Delays, priorities, suspension and resumption of tasks (FreeRtos/tasks.c)\<close>

text \<open>
  The calls by which a task delays itself, changes a priority, and suspends or resumes a task.
\<close>

subsection \<open>Operations\<close>

definition vTaskDelay :: "u32 \<Rightarrow> kernel \<Rightarrow> kernel option" where
  "vTaskDelay xTicksToDelay k =
     do {
       (xAlreadyYielded, k) \<leftarrow>
         (if xTicksToDelay > 0 then
            do {
              configASSERT (uxSchedulerSuspended k = 0);
              let k = vTaskSuspendAll k;
              k \<leftarrow> prvAddCurrentTaskToDelayedList xTicksToDelay False k;
              xTaskResumeAll k
            }
          else Some (False, k));
       (if \<not> xAlreadyYielded then portYIELD_WITHIN_API k else Some k)
     }"

text \<open>Whether \<open>vTaskDelayUntil\<close> has to wait, from the three time values.\<close>

definition delay_until_waits :: "u32 \<Rightarrow> u32 \<Rightarrow> u32 \<Rightarrow> bool" where
  "delay_until_waits xConstTickCount xPreviousWakeTime xTimeToWake =
     (if xConstTickCount < xPreviousWakeTime
      then xTimeToWake < xPreviousWakeTime \<and> xTimeToWake > xConstTickCount
      else xTimeToWake < xPreviousWakeTime \<or> xTimeToWake > xConstTickCount)"

text \<open>The first result is the new value of \<open>*pxPreviousWakeTime\<close>.\<close>

definition vTaskDelayUntil :: "u32 \<Rightarrow> u32 \<Rightarrow> kernel \<Rightarrow> (u32 \<times> kernel) option" where
  "vTaskDelayUntil xPreviousWakeTime xTimeIncrement k =
     do {
       configASSERT (xTimeIncrement > 0);
       configASSERT (uxSchedulerSuspended k = 0);
       let k = vTaskSuspendAll k;
       let xConstTickCount = xTickCount k;
       let xTimeToWake = xPreviousWakeTime + xTimeIncrement;
       k \<leftarrow> (if delay_until_waits xConstTickCount xPreviousWakeTime xTimeToWake
            then prvAddCurrentTaskToDelayedList (xTimeToWake - xConstTickCount) False k else Some k);
       (xAlreadyYielded, k) \<leftarrow> xTaskResumeAll k;
       k \<leftarrow> (if \<not> xAlreadyYielded then portYIELD_WITHIN_API k else Some k);
       Some (xTimeToWake, k)
     }"

definition uxTaskPriorityGet :: "ptr \<Rightarrow> kernel \<Rightarrow> u32" where
  "uxTaskPriorityGet xTask k = prio k (prvGetTCBFromHandle xTask k)"

definition vTaskPrioritySet :: "ptr \<Rightarrow> u32 \<Rightarrow> kernel \<Rightarrow> kernel option" where
  "vTaskPrioritySet xTask uxNewPriority k =
     do {
       configASSERT (uxNewPriority < of_nat configMAX_PRIORITIES);
       let uxNewPriority = (if uxNewPriority \<ge> of_nat configMAX_PRIORITIES
                            then of_nat configMAX_PRIORITIES - 1 else uxNewPriority);
       let pxTCB = prvGetTCBFromHandle xTask k;
       let uxCurrentBasePriority = uxBasePriority (tcbs k pxTCB);
       (if uxCurrentBasePriority \<noteq> uxNewPriority then
          do {
            let xYieldRequired =
              (if uxNewPriority > uxCurrentBasePriority
               then pxTCB \<noteq> pxCurrentTCB k \<and> uxNewPriority \<ge> prio k (pxCurrentTCB k)
               else pxTCB = pxCurrentTCB k);
            let uxPriorityUsedOnEntry = prio k pxTCB;
            let k = (if uxBasePriority (tcbs k pxTCB) = prio k pxTCB
                     then upd_tcb pxTCB (uxPriority_update (\<lambda>_. uxNewPriority)) k else k);
            let k = upd_tcb pxTCB (uxBasePriority_update (\<lambda>_. uxNewPriority)) k;
            let k = (if val_of k (EventItem pxTCB) AND taskEVENT_LIST_ITEM_VALUE_IN_USE = 0
                     then k_set_value (EventItem pxTCB) (of_nat configMAX_PRIORITIES - uxNewPriority) k else k);
            k \<leftarrow> (if cont_of k (StateItem pxTCB) = Some (ReadyL (unat uxPriorityUsedOnEntry))
                 then do { k \<leftarrow> k_remove (StateItem pxTCB) k; Some (prvAddTaskToReadyList pxTCB k) }
                 else Some k);
            (if xYieldRequired then portYIELD_WITHIN_API k else Some k)
          }
        else Some k)
     }"

definition vTaskSuspend :: "ptr \<Rightarrow> kernel \<Rightarrow> kernel option" where
  "vTaskSuspend xTaskToSuspend k =
     do {
       let pxTCB = prvGetTCBFromHandle xTaskToSuspend k;
       k \<leftarrow> k_remove (StateItem pxTCB) k;
       k \<leftarrow> k_remove_event pxTCB k;
       let k = k_insert_end SuspendedL (StateItem pxTCB) k;
       let k = (if ucNotifyState (tcbs k pxTCB) = taskWAITING_NOTIFICATION
                then upd_tcb pxTCB (ucNotifyState_update (\<lambda>_. taskNOT_WAITING_NOTIFICATION)) k else k);
       let k = (if xSchedulerRunning k then prvResetNextTaskUnblockTime k else k);
       (if pxTCB = pxCurrentTCB k then
          (if xSchedulerRunning k then
             do { configASSERT (uxSchedulerSuspended k = 0); portYIELD_WITHIN_API k }
           else
             (if of_nat (length (items k SuspendedL)) = uxCurrentNumberOfTasks k
              then Some (k\<lparr>pxCurrentTCB := NULL\<rparr>)
              else vTaskSwitchContext k))
        else Some k)
     }"

definition prvTaskIsTaskSuspended :: "ptr \<Rightarrow> kernel \<Rightarrow> bool option" where
  "prvTaskIsTaskSuspended xTask k =
     do {
       configASSERT (xTask \<noteq> NULL);
       Some (cont_of k (StateItem xTask) = Some SuspendedL \<and>
             cont_of k (EventItem xTask) \<noteq> Some PendingReadyL \<and>
             cont_of k (EventItem xTask) = None)
     }"

definition vTaskResume :: "ptr \<Rightarrow> kernel \<Rightarrow> kernel option" where
  "vTaskResume pxTCB k =
     do {
       configASSERT (pxTCB \<noteq> NULL);
       (if pxTCB \<noteq> NULL \<and> pxTCB \<noteq> pxCurrentTCB k then
          do {
            b \<leftarrow> prvTaskIsTaskSuspended pxTCB k;
            (if b then
               do {
                 k \<leftarrow> k_remove (StateItem pxTCB) k;
                 let k = prvAddTaskToReadyList pxTCB k;
                 (if prio k pxTCB \<ge> prio k (pxCurrentTCB k) then portYIELD_WITHIN_API k else Some k)
               }
             else Some k)
          }
        else Some k)
     }"

definition xTaskResumeFromISR :: "ptr \<Rightarrow> kernel \<Rightarrow> (bool \<times> kernel) option" where
  "xTaskResumeFromISR pxTCB k =
     do {
       configASSERT (pxTCB \<noteq> NULL);
       b \<leftarrow> prvTaskIsTaskSuspended pxTCB k;
       (if b then
          (if uxSchedulerSuspended k = 0 then
             do {
               let xYieldRequired = (prio k pxTCB \<ge> prio k (pxCurrentTCB k));
               k \<leftarrow> k_remove (StateItem pxTCB) k;
               Some (xYieldRequired, prvAddTaskToReadyList pxTCB k)
             }
           else Some (False, k_insert_end PendingReadyL (EventItem pxTCB) k))
        else Some (False, k))
     }"

subsection \<open>Delays\<close>

text \<open>The state with the scheduler suspended once more.\<close>

lemma suspend_inv: "kinv Ls X k \<Longrightarrow> kinv Ls X (vTaskSuspendAll k)"
  unfolding vTaskSuspendAll_def by (rule kinv_fields [where k = k]) simp_all

text \<open>A call is legal when the scheduler runs, the caller is in its ready list and some other task
  is ready to take over.\<close>

definition can_block :: "kernel \<Rightarrow> bool" where
  "can_block k \<longleftrightarrow> uxSchedulerSuspended k = 0 \<and> uxCurrentNumberOfTasks k \<noteq> 0 \<and>
     cont_of k (StateItem (pxCurrentTCB k)) = Some (ReadyL (unat (prio k (pxCurrentTCB k)))) \<and>
     cont_of k (EventItem (pxCurrentTCB k)) = None \<and>
     (\<exists>q n. q \<noteq> pxCurrentTCB k \<and> cont_of k (StateItem q) = Some (ReadyL n))"

text \<open>The block of a task with the scheduler suspended, followed by the resumption and the yield.\<close>

definition block_and_yield :: "u32 \<Rightarrow> bool \<Rightarrow> kernel \<Rightarrow> kernel option" where
  "block_and_yield w b k =
     do {
       k \<leftarrow> prvAddCurrentTaskToDelayedList w b (vTaskSuspendAll k);
       (y, k) \<leftarrow> xTaskResumeAll k;
       (if \<not> y then portYIELD_WITHIN_API k else Some k)
     }"

lemma vTaskDelay_eq:
  "uxSchedulerSuspended k = 0 \<Longrightarrow> 0 < w \<Longrightarrow> vTaskDelay w k = block_and_yield w False k"
  by (simp add: vTaskDelay_def block_and_yield_def Let_def split: option.split bind_splits)

text \<open>Between calls with the scheduler running, no tick is pended and no task is pending.\<close>

definition settled :: "kernel \<Rightarrow> bool" where
  "settled k \<longleftrightarrow> uxPendedTicks k = 0 \<and> items k PendingReadyL = []"

lemma resume_settled:
  assumes "uxSchedulerSuspended k = 1" and "uxCurrentNumberOfTasks k \<noteq> 0" and "settled k"
  shows "xTaskResumeAll k =
    (if xYieldPending k then do { k \<leftarrow> vTaskSwitchContext (k\<lparr>uxSchedulerSuspended := 0\<rparr>); Some (True, k) }
     else Some (False, k\<lparr>uxSchedulerSuspended := 0\<rparr>))"
proof -
  let ?k = "k\<lparr>uxSchedulerSuspended := 0\<rparr>"
  have "l_head PendingReadyL (ls ?k) = None" using assms(3) by (simp add: settled_def)
  then have "drain_pending NULL ?k = Some (NULL, ?k)" by (subst drain_pending.simps) simp
  then have "resume_body ?k = Some ?k" using assms(3) by (simp add: resume_body_def settled_def Let_def)
  then show ?thesis
    using assms(1,2) by (simp add: xTaskResumeAll_eq Let_def word_gt_0 portYIELD_WITHIN_API_def)
qed

lemma resume_then_yield:
  assumes "uxSchedulerSuspended k = 1" and "uxCurrentNumberOfTasks k \<noteq> 0" and "settled k"
  shows "do { (y, k) \<leftarrow> xTaskResumeAll k; (if \<not> y then portYIELD_WITHIN_API k else Some k) } =
    vTaskSwitchContext (k\<lparr>uxSchedulerSuspended := 0\<rparr>)"
  by (simp add: resume_settled [OF assms] portYIELD_WITHIN_API_def split: bind_splits)

theorem block_and_yield_spec:
  assumes inv: "kinv Ls X k" and cb: "can_block k" and st: "settled k" and w: "w \<noteq> 0"
  shows "\<exists>k'. block_and_yield w b k = Some k' \<and> kinv Ls (X - {pxCurrentTCB k}) k' \<and>
     cont_of k' = (cont_of k)(StateItem (pxCurrentTCB k) := Some (delay_list w b k)) \<and>
     val_of k' = (if delay_list w b k = SuspendedL then val_of k
       else (val_of k)(StateItem (pxCurrentTCB k) := xTickCount k + w)) \<and>
     tcbs k' = tcbs k \<and> xTickCount k' = xTickCount k \<and> uxSchedulerSuspended k' = 0 \<and>
     uxPendedTicks k' = 0 \<and> uxCurrentNumberOfTasks k' = uxCurrentNumberOfTasks k \<and>
     pxCurrentTCB k' \<noteq> pxCurrentTCB k \<and>
     (\<exists>n. cont_of k' (StateItem (pxCurrentTCB k')) = Some (ReadyL n) \<and> highest_ready k' n)"
proof -
  let ?c = "pxCurrentTCB k" and ?s = "vTaskSuspendAll k"
  have inv0: "kinv Ls X ?s" by (rule suspend_inv [OF inv])
  have F: "pxCurrentTCB ?s = ?c" "ls ?s = ls k" "xTickCount ?s = xTickCount k" "uxSchedulerSuspended ?s = 1"
    "uxCurrentNumberOfTasks ?s \<noteq> 0" "uxPendedTicks ?s = 0" "tcbs ?s = tcbs k"
    using cb st by (simp_all add: vTaskSuspendAll_def can_block_def settled_def)
  have dl: "delay_list w b ?s = delay_list w b k"
    by (simp add: delay_list_def vTaskSuspendAll_def)
  have "cont_of ?s (StateItem (pxCurrentTCB ?s)) \<noteq> None" using cb F by (simp add: can_block_def)
  from prvAddCurrentTaskToDelayedList_spec [OF inv0 this w, of b]
  obtain k1 where k1: "prvAddCurrentTaskToDelayedList w b ?s = Some k1" "kinv Ls (X - {?c}) k1"
     "cont_of k1 = (cont_of k)(StateItem ?c := Some (delay_list w b k))"
     "val_of k1 = (if delay_list w b k = SuspendedL then val_of k
       else (val_of k)(StateItem ?c := xTickCount k + w))"
     "tcbs k1 = tcbs k" "xTickCount k1 = xTickCount k" "uxSchedulerSuspended k1 = 1"
     "uxPendedTicks k1 = 0" "uxCurrentNumberOfTasks k1 = uxCurrentNumberOfTasks ?s"
    unfolding dl F by blast
  have dl_ne: "delay_list w b k \<noteq> PendingReadyL" "delay_list w b k \<noteq> ReadyL n" for n
    using kinvD(5) [OF inv] by (auto simp: delay_list_def delayed_pair_def)
  have "pending k1 = []"
  proof -
    have "pending k = []" using st by (simp add: settled_def pending_def)
    then show ?thesis using pending_empty_iff [OF inv] pending_empty_iff [OF k1(2)] k1(3) dl_ne by simp
  qed
  then have st1: "settled k1" using k1(8) by (simp add: settled_def pending_def)
  define k2 where "k2 = k1\<lparr>uxSchedulerSuspended := 0\<rparr>"
  have "uxCurrentNumberOfTasks k1 \<noteq> 0" using F(5) k1(9) by simp
  from resume_then_yield [OF k1(7) this st1] have step: "block_and_yield w b k = vTaskSwitchContext k2"
    by (simp add: block_and_yield_def k1(1) k2_def)
  define k3 where "k3 = k2\<lparr>xYieldPending := False\<rparr>"
  have inv3: "kinv Ls (X - {?c}) k3"
    by (rule kinv_fields [where k = k1]) (use k1(2) in \<open>simp_all add: k2_def k3_def\<close>)
  have step': "block_and_yield w b k = taskSELECT_HIGHEST_PRIORITY_TASK k3"
    unfolding step by (simp add: k2_def k3_def switch_context_select)
  obtain q n where q: "q \<noteq> ?c" "cont_of k (StateItem q) = Some (ReadyL n)"
    using cb by (auto simp: can_block_def)
  then have "cont_of k3 (StateItem q) = Some (ReadyL n)" using k1(3) by (simp add: k2_def k3_def)
  then have "some_ready k3" using some_ready_iff [OF inv3] by blast
  from select_spec [OF inv3 this] obtain k' m p r S where
    sel: "taskSELECT_HIGHEST_PRIORITY_TASK k3 = Some k'" and hi: "highest_ready k3 m"
    and i': "kinv_at (Suc (unat (xTickCount k3))) Ls (X - {?c}) k'" and co: "cont_of k' = cont_of k3"
    and vl: "val_of k' = val_of k3" and it: "items k' = items k3"
    and pc: "cont_of k3 (StateItem p) = Some (ReadyL m)"
    and k': "k' = k3\<lparr>ls := S, pxCurrentTCB := p, uxTopReadyPriority := prio k3 p\<rparr>"
    by blast
  have fields: "tcbs k' = tcbs k" "xTickCount k' = xTickCount k" "uxSchedulerSuspended k' = 0"
     "uxPendedTicks k' = 0" "uxCurrentNumberOfTasks k' = uxCurrentNumberOfTasks k" "pxCurrentTCB k' = p"
    using k1 by (simp_all add: k' k2_def k3_def vTaskSuspendAll_def)
  have c3: "cont_of k' = (cont_of k)(StateItem ?c := Some (delay_list w b k))"
    using co k1(3) by (simp add: k2_def k3_def)
  have v3: "val_of k' = (if delay_list w b k = SuspendedL then val_of k
       else (val_of k)(StateItem ?c := xTickCount k + w))"
    using vl k1(4) by (simp add: k2_def k3_def)
  have "cont_of k3 (StateItem ?c) = Some (delay_list w b k)" using co c3 by (metis fun_upd_same)
  then have "p \<noteq> ?c" using pc dl_ne by (metis option.inject)
  moreover have "highest_ready k' m" using hi it by (simp add: highest_ready_def fun_eq_iff)
  moreover have "kinv Ls (X - {?c}) k'" using i' fields(2) k1(6) by (simp add: k2_def k3_def)
  ultimately show ?thesis
    using sel step' fields c3 v3 pc co by (intro exI [of _ k']) auto
qed


text \<open>One tick of a delayed task: it is readied when one tick remains, and counts down otherwise.\<close>

lemma remaining_due: "delayed k p \<Longrightarrow> p \<in> due k \<longleftrightarrow> remaining k p = 1"
proof -
  assume d: "delayed k p"
  have "val_of k (StateItem p) = xTickCount k + 1 \<longleftrightarrow> val_of k (StateItem p) - xTickCount k = 1"
    by (auto simp: algebra_simps)
  also have "\<dots> \<longleftrightarrow> unat (val_of k (StateItem p) - xTickCount k) = unat (1 :: u32)"
    by (metis word_unat_eq_iff)
  finally show ?thesis using d by (simp add: due_def remaining_def)
qed

lemma unat_diff_Suc:
  assumes "(v::u32) \<noteq> t" shows "unat (v - (t + 1)) = unat (v - t) - 1"
proof -
  have "v - t \<noteq> 0" using assms by simp
  then have "unat (v - t - 1) = unat (v - t) - 1" by (rule unat_minus_one)
  then show ?thesis by (simp add: algebra_simps)
qed

lemma delayed_not_now:
  assumes "kinv Ls X k" and "delayed k p" shows "val_of k (StateItem p) \<noteq> xTickCount k"
  using delayed_iff [OF kinvD(5) [OF assms(1)]] assms delayed_place [OF assms(1), of "StateItem p"]
    overflow_place [OF assms(1), of "StateItem p"] by auto

lemma tick_delayed:
  assumes inv: "kinv Ls X k" and run: "uxSchedulerSuspended k = 0" and d: "delayed k p"
    and t: "xTaskIncrementTick k = Some (sw, k')"
  shows "kinv Ls X k'" and "uxSchedulerSuspended k' = 0" and "tcbs k' = tcbs k"
    and "remaining k p = 1 \<Longrightarrow> cont_of k' (StateItem p) = Some (ReadyL (unat (prio k p)))"
    and "remaining k p \<noteq> 1 \<Longrightarrow> delayed k' p \<and> remaining k' p = remaining k p - 1"
proof -
  obtain k1 s1 where k1: "xTaskIncrementTick k = Some (s1, k1)" "kinv Ls X k1"
     "xTickCount k1 = xTickCount k + 1" "cont_of k1 = ready_cont (due k) k"
     "val_of k1 = val_of k" "tcbs k1 = tcbs k" "uxSchedulerSuspended k1 = uxSchedulerSuspended k"
    using tick_spec [OF inv run] by blast
  then have k': "k' = k1" using t by simp
  show "kinv Ls X k'" "uxSchedulerSuspended k' = 0" "tcbs k' = tcbs k" using k' k1 run by auto
  show "remaining k p = 1 \<Longrightarrow> cont_of k' (StateItem p) = Some (ReadyL (unat (prio k p)))"
    using remaining_due [OF d] k' k1(4) by simp
  show "remaining k p \<noteq> 1 \<Longrightarrow> delayed k' p \<and> remaining k' p = remaining k p - 1"
    using remaining_due [OF d] k' k1(3,4,5) d unat_diff_Suc [OF delayed_not_now [OF inv d]]
    by (simp add: delayed_def remaining_def)
qed

primrec ticks :: "nat \<Rightarrow> kernel \<Rightarrow> kernel option" where
  "ticks 0 k = Some k"
| "ticks (Suc n) k = do { (sw, k) \<leftarrow> xTaskIncrementTick k; ticks n k }"

lemma ticks_last: "ticks (Suc n) k = do { k \<leftarrow> ticks n k; (sw, k) \<leftarrow> xTaskIncrementTick k; Some k }"
proof (induction n arbitrary: k)
  case (Suc n)
  show ?case
  proof (cases "xTaskIncrementTick k")
    case (Some r)
    with Suc [of "snd r"] show ?thesis by (simp add: case_prod_unfold)
  qed simp
qed (simp add: case_prod_unfold)

lemma ticks_count:
  assumes "kinv Ls X k" and "uxSchedulerSuspended k = 0" and "delayed k p" and "n < remaining k p"
  shows "\<exists>k'. ticks n k = Some k' \<and> kinv Ls X k' \<and> uxSchedulerSuspended k' = 0 \<and> tcbs k' = tcbs k \<and>
     delayed k' p \<and> remaining k' p = remaining k p - n"
  using assms
proof (induction n arbitrary: k)
  case (Suc n)
  obtain sw k1 where k1: "xTaskIncrementTick k = Some (sw, k1)" using tick_spec [OF Suc.prems(1,2)] by blast
  note T = tick_delayed [OF Suc.prems(1,2,3) k1]
  have r: "remaining k p \<noteq> 1" using Suc.prems(4) by simp
  then have "n < remaining k1 p" using T(5) Suc.prems(4) by simp
  from Suc.IH [OF T(1,2) _ this] T(5) [OF r] obtain k' where k': "ticks n k1 = Some k'" "kinv Ls X k'"
    "uxSchedulerSuspended k' = 0" "tcbs k' = tcbs k1" "delayed k' p" "remaining k' p = remaining k1 p - n" by blast
  with k1 T(3) T(5) [OF r] show ?case by simp
qed simp

theorem ticks_wake:
  assumes "kinv Ls X k" and "uxSchedulerSuspended k = 0" and "delayed k p"
  shows "\<exists>k'. ticks (remaining k p) k = Some k' \<and> kinv Ls X k' \<and>
     cont_of k' (StateItem p) = Some (ReadyL (unat (prio k p)))"
proof -
  have r: "0 < remaining k p"
    using delayed_not_now [OF assms(1,3)] by (auto simp: remaining_def unat_eq_zero intro!: gr0I)
  then obtain m where m: "remaining k p = Suc m" by (cases "remaining k p") auto
  obtain k1 where k1: "ticks m k = Some k1" "kinv Ls X k1" "uxSchedulerSuspended k1 = 0" "tcbs k1 = tcbs k"
    "delayed k1 p" "remaining k1 p = 1"
    using ticks_count [OF assms, of m] m by auto
  obtain sw k2 where k2: "xTaskIncrementTick k1 = Some (sw, k2)" using tick_spec [OF k1(2,3)] by blast
  note T = tick_delayed [OF k1(2,3,5) k2]
  have "ticks (remaining k p) k = Some k2"
    unfolding m ticks_last using k1(1) k2 by simp
  then show ?thesis using T(1) T(4) [OF k1(6)] k1(4) by auto
qed

subsection \<open>Periodic delays\<close>

lemma delay_until_waits_iff:
  "delay_until_waits t p (p + i) \<longleftrightarrow> t - p < i"
proof -
  have a: "unat (p + i) = (if unat p + unat i < 2 ^ 32 then unat p + unat i else unat p + unat i - 2 ^ 32)"
    using unat_u32 [of p] unat_u32 [of i] by (simp add: unat_word_ariths mod_if)
  have b: "unat (t - p) = (if unat p \<le> unat t then unat t - unat p else 2 ^ 32 + unat t - unat p)"
    using unat_u32 [of t] unat_u32 [of p]
    by (auto simp: unat_sub_if_size word_size)
  show ?thesis
    using unat_u32 [of p] unat_u32 [of i] unat_u32 [of t]
    by (auto simp: delay_until_waits_def word_less_nat_alt a b)
qed

lemma delay_until_amount:
  assumes "t - p < (i :: u32)" shows "unat (p + i - t) = unat i - unat (t - p)"
proof -
  have "p + i - t = i - (t - p)" by simp
  moreover have "unat (i - (t - p)) = unat i - unat (t - p)"
    using assms by (intro unat_sub) simp
  ultimately show ?thesis by (simp only:)
qed

subsection \<open>Changing a priority\<close>

lemma kinv_upd_prio:
  assumes inv: "kinv_at lo Ls X k" and "\<And>n. cont_of k (StateItem p) \<noteq> Some (ReadyL n)"
    and "unat (uxPriority (f (tcbs k p))) < configMAX_PRIORITIES"
  shows "kinv_at lo Ls X (k\<lparr>tcbs := (tcbs k)(p := f (tcbs k p))\<rparr>)"
proof -
  let ?k = "k\<lparr>tcbs := (tcbs k)(p := f (tcbs k p))\<rparr>"
  have "place_ok lo ?k i l" if c: "cont_of k i = Some l" for i l
    using kinvD(7) [OF inv c] assms(2,3) c
    by (cases i; cases l) (auto simp: place_ok_def split: if_splits)
  with inv show ?thesis by (simp add: kinv_at_def delayed_pair_def)
qed

lemma drop_set_value:
  "i \<noteq> j \<Longrightarrow> drop_item i (l_set_value j v S) = l_set_value j v (drop_item i S)"
  by (simp add: drop_item_def l_set_value_def split: option.split)

text \<open>Re-queueing a ready task under a new priority.\<close>

lemma requeue_inv:
  assumes inv: "kinv_at lo Ls {} k" and c: "cont_of k (StateItem p) = Some (ReadyL n)"
    and f: "unat (uxPriority (f (tcbs k p))) < configMAX_PRIORITIES"
  shows "kinv_at lo Ls {} (prvAddTaskToReadyList p
     (k\<lparr>tcbs := (tcbs k)(p := f (tcbs k p)), ls := drop_item (StateItem p) (ls k)\<rparr>))"
proof -
  let ?d = "k\<lparr>ls := drop_item (StateItem p) (ls k)\<rparr>"
  have e: "cont_of k (EventItem p) = None"
  proof (rule ccontr)
    assume "cont_of k (EventItem p) \<noteq> None"
    from kinvD(8) [OF inv _ this] c show False by (auto simp: delayed_or_suspended_def)
  qed
  have 1: "kinv_at lo Ls {p} ?d" by (rule kinv_drop(1) [OF inv])
  have 2: "kinv_at lo Ls ({p} - {p}) ?d" by (rule kinv_exempt [OF 1]) (use e in simp)
  have "kinv_at lo Ls {} (?d\<lparr>tcbs := (tcbs ?d)(p := f (tcbs ?d p))\<rparr>)"
    by (rule kinv_upd_prio) (use 2 f in simp_all)
  moreover have "?d\<lparr>tcbs := (tcbs ?d)(p := f (tcbs ?d p))\<rparr> =
      k\<lparr>tcbs := (tcbs k)(p := f (tcbs k p)), ls := drop_item (StateItem p) (ls k)\<rparr>" by simp
  ultimately have "kinv_at lo Ls {} (k\<lparr>tcbs := (tcbs k)(p := f (tcbs k p)), ls := drop_item (StateItem p) (ls k)\<rparr>)"
    by metis
  then show ?thesis by (rule kinv_add_ready) (use f in simp_all)
qed

text \<open>The change of priority without the yield.\<close>

definition new_prio :: "u32 \<Rightarrow> tcb \<Rightarrow> tcb" where
  "new_prio n t = (if uxBasePriority t = uxPriority t then t\<lparr>uxPriority := n\<rparr> else t)\<lparr>uxBasePriority := n\<rparr>"

definition set_priority :: "ptr \<Rightarrow> u32 \<Rightarrow> kernel \<Rightarrow> kernel" where
  "set_priority p n k =
     (let S = (if val_of k (EventItem p) AND taskEVENT_LIST_ITEM_VALUE_IN_USE = 0
               then l_set_value (EventItem p) (of_nat configMAX_PRIORITIES - n) (ls k) else ls k);
          T = (tcbs k)(p := new_prio n (tcbs k p))
      in if cont_of k (StateItem p) = Some (ReadyL (unat (prio k p)))
         then prvAddTaskToReadyList p (k\<lparr>tcbs := T, ls := drop_item (StateItem p) S\<rparr>)
         else k\<lparr>tcbs := T, ls := S\<rparr>)"

lemma of_nat_max_prio [simp]: "(of_nat configMAX_PRIORITIES :: u32) = 6"
  by (simp add: configMAX_PRIORITIES_def)

lemma vTaskPrioritySet_eq:
  assumes "unat n < configMAX_PRIORITIES" and p: "prvGetTCBFromHandle x k = p"
  shows "vTaskPrioritySet x n k =
     (let c = uxBasePriority (tcbs k p) in
      if c = n then Some k
      else if (if n > c then p \<noteq> pxCurrentTCB k \<and> n \<ge> prio k (pxCurrentTCB k) else p = pxCurrentTCB k)
           then vTaskSwitchContext (set_priority p n k) else Some (set_priority p n k))"
proof -
  have n: "n < 6" using assms(1) by (simp add: configMAX_PRIORITIES_def word_less_nat_alt)
  let ?T = "(tcbs k)(p := new_prio n (tcbs k p))"
  have T: "upd_tcb p (uxBasePriority_update (\<lambda>_. n)) (if uxBasePriority (tcbs k p) = prio k p
      then upd_tcb p (uxPriority_update (\<lambda>_. n)) k else k) = k\<lparr>tcbs := ?T\<rparr>"
    by (auto simp: new_prio_def)
  have n': "(if of_nat configMAX_PRIORITIES \<le> n then of_nat configMAX_PRIORITIES - 1 else n) = n"
  proof -
    have "\<not> 6 \<le> n" using n not_le by blast
    then show ?thesis by simp
  qed
  show ?thesis
    unfolding vTaskPrioritySet_def Let_def n' p T
    using n by (auto simp: set_priority_def portYIELD_WITHIN_API_def k_remove_eq Let_def drop_item_def)
qed


lemma set_priority_inv:
  assumes inv: "kinv Ls {} k" and n: "unat n < configMAX_PRIORITIES"
  shows "kinv Ls {} (set_priority p n k)"
proof -
  define S where "S = (if val_of k (EventItem p) AND taskEVENT_LIST_ITEM_VALUE_IN_USE = 0
               then l_set_value (EventItem p) (of_nat configMAX_PRIORITIES - n) (ls k) else ls k)"
  define k0 where "k0 = k\<lparr>ls := S\<rparr>"
  have inv0: "kinv Ls {} k0"
    using kinv_set_value [OF inv, of "EventItem p"] inv by (simp add: k0_def S_def)
  have c0: "cont_of k0 = cont_of k" by (simp add: k0_def S_def)
  show ?thesis
  proof (cases "\<exists>m. cont_of k (StateItem p) = Some (ReadyL m)")
    case True
    then obtain m where m: "cont_of k (StateItem p) = Some (ReadyL m)" by blast
    then have mp: "m = unat (prio k p)" "m < configMAX_PRIORITIES" using ready_place [OF inv] by blast+
    have "unat (uxPriority (new_prio n (tcbs k0 p))) < configMAX_PRIORITIES"
      using n mp by (simp add: new_prio_def k0_def)
    from requeue_inv [where f = "new_prio n" and n = m, OF inv0 _ this] m c0 have
      "kinv Ls {} (prvAddTaskToReadyList p (k0\<lparr>tcbs := (tcbs k0)(p := new_prio n (tcbs k0 p)),
         ls := drop_item (StateItem p) (ls k0)\<rparr>))" by (simp add: k0_def)
    then show ?thesis using m mp by (simp add: set_priority_def S_def k0_def Let_def)
  next
    case False
    then have c: "cont_of k (StateItem p) \<noteq> Some (ReadyL m)" for m by blast
    have "kinv Ls {} (k0\<lparr>tcbs := (tcbs k0)(p := new_prio n (tcbs k0 p))\<rparr>)"
    proof (cases "unat (uxPriority (new_prio n (tcbs k0 p))) < configMAX_PRIORITIES")
      case True
      have "kinv_at (Suc (unat (xTickCount k0))) Ls {} (k0\<lparr>tcbs := (tcbs k0)(p := new_prio n (tcbs k0 p))\<rparr>)"
        by (rule kinv_upd_prio [where f = "new_prio n", OF inv0 _ True]) (use c c0 in simp)
      then show ?thesis by simp
    next
      case False
      then have "uxPriority (new_prio n (tcbs k0 p)) = prio k0 p" using n by (auto simp: new_prio_def split: if_splits)
      then have pr: "prio (k0\<lparr>tcbs := (tcbs k0)(p := new_prio n (tcbs k0 p))\<rparr>) q = prio k0 q" for q by simp
      have "kinv_at (Suc (unat (xTickCount k0))) Ls {} (k0\<lparr>tcbs := (tcbs k0)(p := new_prio n (tcbs k0 p))\<rparr>)"
        by (rule kinv_fields [OF inv0 _ pr]) simp_all
      then show ?thesis by simp
    qed
    moreover have "set_priority p n k = k0\<lparr>tcbs := (tcbs k0)(p := new_prio n (tcbs k0 p))\<rparr>"
      using c by (simp add: set_priority_def S_def k0_def Let_def)
    ultimately show ?thesis by metis
  qed
qed

lemma set_priority_fields:
  assumes inv: "kinv Ls {} k"
  shows "tcbs (set_priority p n k) = (tcbs k)(p := new_prio n (tcbs k p))"
    and "cont_of (set_priority p n k) = (if \<exists>m. cont_of k (StateItem p) = Some (ReadyL m)
      then (cont_of k)(StateItem p := Some (ReadyL (unat (uxPriority (new_prio n (tcbs k p)))))) else cont_of k)"
    and "xTickCount (set_priority p n k) = xTickCount k" and "pxCurrentTCB (set_priority p n k) = pxCurrentTCB k"
    and "uxSchedulerSuspended (set_priority p n k) = uxSchedulerSuspended k"
proof -
  have r: "m = unat (prio k p)" if "cont_of k (StateItem p) = Some (ReadyL m)" for m
    using ready_place [OF inv that] by auto
  show "tcbs (set_priority p n k) = (tcbs k)(p := new_prio n (tcbs k p))"
    "xTickCount (set_priority p n k) = xTickCount k" "pxCurrentTCB (set_priority p n k) = pxCurrentTCB k"
    "uxSchedulerSuspended (set_priority p n k) = uxSchedulerSuspended k"
    by (simp_all add: set_priority_def Let_def)
  show "cont_of (set_priority p n k) = (if \<exists>m. cont_of k (StateItem p) = Some (ReadyL m)
      then (cont_of k)(StateItem p := Some (ReadyL (unat (uxPriority (new_prio n (tcbs k p)))))) else cont_of k)"
  proof (cases "\<exists>m. cont_of k (StateItem p) = Some (ReadyL m)")
    case True
    then have "cont_of k (StateItem p) = Some (ReadyL (unat (prio k p)))" using r by auto
    then show ?thesis by (simp add: set_priority_def Let_def)
  next
    case False
    then have "cont_of k (StateItem p) \<noteq> Some (ReadyL (unat (prio k p)))" by blast
    with False show ?thesis by (simp add: set_priority_def Let_def)
  qed
qed

lemma set_priority_some_ready:
  assumes "kinv Ls {} k" and "some_ready k" and n: "unat n < configMAX_PRIORITIES"
  shows "some_ready (set_priority p n k)"
proof -
  obtain q m where q: "cont_of k (StateItem q) = Some (ReadyL m)" using assms(1,2) some_ready_iff by blast
  have "\<exists>m. cont_of (set_priority p n k) (StateItem q) = Some (ReadyL m)"
    using q by (auto simp: set_priority_fields(2) [OF assms(1)])
  then show ?thesis using some_ready_iff [OF set_priority_inv [OF assms(1) n]] by blast
qed

theorem vTaskPrioritySet_spec:
  assumes inv: "kinv Ls {} k" and r: "some_ready k" and n: "unat n < configMAX_PRIORITIES"
    and p: "prvGetTCBFromHandle x k = p"
  shows "\<exists>k'. vTaskPrioritySet x n k = Some k' \<and> kinv Ls {} k' \<and> xTickCount k' = xTickCount k \<and>
     (uxBasePriority (tcbs k p) \<noteq> n \<longrightarrow> tcbs k' = (tcbs k)(p := new_prio n (tcbs k p)) \<and>
        cont_of k' = cont_of (set_priority p n k)) \<and>
     (uxBasePriority (tcbs k p) = n \<longrightarrow> k' = k)"
proof (cases "uxBasePriority (tcbs k p) = n")
  case True
  then show ?thesis using inv by (simp add: vTaskPrioritySet_eq [OF n p] Let_def)
next
  case False
  let ?k = "set_priority p n k"
  note F = set_priority_fields [OF inv, of p n]
  have inv': "kinv Ls {} ?k" by (rule set_priority_inv [OF inv n])
  obtain k2 where k2: "vTaskSwitchContext ?k = Some k2" "kinv_at (Suc (unat (xTickCount ?k))) Ls {} k2"
    "cont_of k2 = cont_of ?k" "tcbs k2 = tcbs ?k" "xTickCount k2 = xTickCount ?k"
    using switch_context_inv [OF inv' set_priority_some_ready [OF inv r n]] by blast
  show ?thesis
    unfolding vTaskPrioritySet_eq [OF n p] Let_def if_not_P [OF False]
    using k2 inv' F False by auto
qed

subsection \<open>Suspending and resuming a task\<close>

definition move_suspended :: "ptr \<Rightarrow> kernel \<Rightarrow> kernel" where
  "move_suspended p k = k\<lparr>ls := l_insert_end SuspendedL (StateItem p)
     (drop_item (EventItem p) (drop_item (StateItem p) (ls k)))\<rparr>"

definition stop_waiting :: "tcb \<Rightarrow> tcb" where
  "stop_waiting t = (if ucNotifyState t = taskWAITING_NOTIFICATION
     then t\<lparr>ucNotifyState := taskNOT_WAITING_NOTIFICATION\<rparr> else t)"

lemma move_suspended_inv:
  assumes inv: "kinv_at lo Ls X k" and p: "unat (prio k p) < configMAX_PRIORITIES"
  shows "kinv_at lo Ls (X - {p}) (move_suspended p k)"
proof -
  let ?d = "k\<lparr>ls := drop_item (EventItem p) (drop_item (StateItem p) (ls k))\<rparr>"
  have 1: "kinv_at lo Ls (insert p X) (k\<lparr>ls := drop_item (StateItem p) (ls k)\<rparr>)" by (rule kinv_drop(1) [OF inv])
  have 2: "kinv_at lo Ls (X - {p}) ?d" using kinv_drop(2) [OF 1, of p] by simp
  have "kinv_at lo Ls (X - {p}) (?d\<lparr>ls := l_insert_end SuspendedL (StateItem p) (ls ?d)\<rparr>)"
  proof (rule kinv_insert_gen [OF 2, where l = SuspendedL and i = "StateItem p"])
    show "SuspendedL \<in> Ls" using kinv_static [OF inv] by simp
    show "\<forall>q. q \<notin> X - {p} \<longrightarrow> cont (l_insert_end SuspendedL (StateItem p) (ls ?d)) (EventItem q) \<noteq> None \<longrightarrow>
      (\<exists>l \<in> delayed_or_suspended. cont (l_insert_end SuspendedL (StateItem p) (ls ?d)) (StateItem q) = Some l)"
    proof (intro allI impI)
      fix q
      assume a: "q \<notin> X - {p}" and b: "cont (l_insert_end SuspendedL (StateItem p) (ls ?d)) (EventItem q) \<noteq> None"
      have "q \<noteq> p" using b by auto
      with a have "q \<notin> X" by simp
      with kinvD(8) [OF inv, of q] b \<open>q \<noteq> p\<close>
      show "\<exists>l \<in> delayed_or_suspended. cont (l_insert_end SuspendedL (StateItem p) (ls ?d)) (StateItem q) = Some l"
        by simp
    qed
  qed (use p in simp_all)
  then show ?thesis by (simp add: move_suspended_def)
qed

text \<open>Updates of a TCB that keep its priority.\<close>

lemma kinv_upd_same:
  assumes "kinv_at lo Ls X k" and "uxPriority (f (tcbs k p)) = prio k p"
  shows "kinv_at lo Ls X (k\<lparr>tcbs := (tcbs k)(p := f (tcbs k p))\<rparr>)"
  by (rule kinv_fields [OF assms(1)]) (use assms(2) in simp_all)

lemma stop_waiting_prio [simp]: "uxPriority (stop_waiting t) = uxPriority t"
  by (simp add: stop_waiting_def)

theorem vTaskSuspend_spec:
  assumes inv: "kinv Ls {} k" and run: "xSchedulerRunning k" and c: "cont_of k (StateItem p) \<noteq> None"
    and p: "prvGetTCBFromHandle x k = p" 
    and self: "p = pxCurrentTCB k \<Longrightarrow> uxSchedulerSuspended k = 0 \<and>
      (\<exists>q n. q \<noteq> p \<and> cont_of k (StateItem q) = Some (ReadyL n))"
  shows "\<exists>k'. vTaskSuspend x k = Some k' \<and> kinv Ls {} k' \<and>
     cont_of k' = (cont_of k)(StateItem p := Some SuspendedL, EventItem p := None) \<and>
     tcbs k' = (tcbs k)(p := stop_waiting (tcbs k p)) \<and>
     (if p = pxCurrentTCB k then pxCurrentTCB k' \<noteq> p \<and>
        (\<exists>n. cont_of k' (StateItem (pxCurrentTCB k')) = Some (ReadyL n) \<and> highest_ready k' n)
      else pxCurrentTCB k' = pxCurrentTCB k)"
proof -
  obtain l where l: "cont_of k (StateItem p) = Some l" using c by auto
  have pr: "unat (prio k p) < configMAX_PRIORITIES" by (rule state_place(1) [OF inv l])
  define k1 where "k1 = move_suspended p k"
  define k2 where "k2 = k1\<lparr>tcbs := (tcbs k1)(p := stop_waiting (tcbs k1 p))\<rparr>"
  define k3 where "k3 = prvResetNextTaskUnblockTime k2"
  have inv1: "kinv Ls {} k1" using move_suspended_inv [OF inv pr] by (simp add: k1_def move_suspended_def)
  have "kinv_at (Suc (unat (xTickCount k1))) Ls {} k2"
    unfolding k2_def by (rule kinv_upd_same [OF inv1]) simp
  then have inv2: "kinv Ls {} k2" by (simp add: k2_def)
  have inv3: "kinv Ls {} k3" using reset_inv [OF inv2] by (simp add: k3_def)
  have F: "cont_of k3 = (cont_of k)(StateItem p := Some SuspendedL, EventItem p := None)"
    "tcbs k3 = (tcbs k)(p := stop_waiting (tcbs k p))" "pxCurrentTCB k3 = pxCurrentTCB k"
    "uxSchedulerSuspended k3 = uxSchedulerSuspended k"
    by (auto simp: k3_def k2_def k1_def move_suspended_def)
  have notify: "(if ucNotifyState (tcbs k1 p) = taskWAITING_NOTIFICATION
      then upd_tcb p (ucNotifyState_update (\<lambda>_. taskNOT_WAITING_NOTIFICATION)) k1 else k1) = k2"
    by (simp add: k2_def stop_waiting_def)
  let ?d = "k\<lparr>ls := drop_item (StateItem p) (ls k)\<rparr>" 
  let ?e = "k\<lparr>ls := drop_item (EventItem p) (drop_item (StateItem p) (ls k))\<rparr>"
  have 1: "k_remove (StateItem p) k = Some ?d" using l by (simp add: k_remove_eq)
  have 2: "k_remove_event p ?d = Some ?e" by (simp add: k_remove_event_eq)
  have 3: "k_insert_end SuspendedL (StateItem p) ?e = k1" by (simp add: k1_def move_suspended_def)
  have r2: "xSchedulerRunning k2 = True" using run by (simp add: k2_def k1_def move_suspended_def)
  then have r3: "xSchedulerRunning k3 = True"
    by (simp add: k3_def prvResetNextTaskUnblockTime_def split: option.split)
  have step: "vTaskSuspend x k = (if p = pxCurrentTCB k
      then (if uxSchedulerSuspended k = 0 then vTaskSwitchContext k3 else None) else Some k3)"
    unfolding vTaskSuspend_def Let_def p
    by (simp only: 1 2 3 notify r2 r3 bind.bind_lunit if_True k3_def [symmetric] F(3,4)
        configASSERT_bind portYIELD_WITHIN_API_def)
  show ?thesis
  proof (cases "p = pxCurrentTCB k")
    case False
    then show ?thesis using step inv3 F by simp
  next
    case True
    then obtain q n where q: "q \<noteq> p" "cont_of k (StateItem q) = Some (ReadyL n)" and s: "uxSchedulerSuspended k = 0"
      using self by blast
    define k4 where "k4 = k3\<lparr>xYieldPending := False\<rparr>"
    have inv4: "kinv Ls {} k4" by (rule kinv_fields [where k = k3]) (use inv3 in \<open>simp_all add: k4_def\<close>)
    have "cont_of k4 (StateItem q) = Some (ReadyL n)" using q F(1) by (simp add: k4_def)
    then have "some_ready k4" using some_ready_iff [OF inv4] by blast
    from select_spec [OF inv4 this] obtain k' m r S where
      sel: "taskSELECT_HIGHEST_PRIORITY_TASK k4 = Some k'" and hi: "highest_ready k4 m"
      and i': "kinv_at (Suc (unat (xTickCount k4))) Ls {} k'" and co: "cont_of k' = cont_of k4"
      and it: "items k' = items k4" and rc: "cont_of k4 (StateItem r) = Some (ReadyL m)"
      and k': "k' = k4\<lparr>ls := S, pxCurrentTCB := r, uxTopReadyPriority := prio k4 r\<rparr>"
      by blast
    have "vTaskSuspend x k = Some k'"
      using step True s sel F(4) by (simp add: switch_context_select k4_def)
    moreover have "kinv Ls {} k'" using i' by (simp add: k')
    moreover have c': "cont_of k' = (cont_of k)(StateItem p := Some SuspendedL, EventItem p := None)"
      using co F(1) by (simp add: k4_def)
    moreover have "tcbs k' = (tcbs k)(p := stop_waiting (tcbs k p))" using F(2) by (simp add: k' k4_def)
    moreover have "pxCurrentTCB k' = r" by (simp add: k')
    moreover have "cont_of k' (StateItem r) = Some (ReadyL m)" using rc co by simp
    moreover from this have "r \<noteq> p" using c' by auto
    moreover have "highest_ready k' m" using hi it by (simp add: highest_ready_def fun_eq_iff)
    ultimately show ?thesis using True by auto
  qed
qed

lemma is_suspended_iff:
  "p \<noteq> NULL \<Longrightarrow> prvTaskIsTaskSuspended p k =
     Some (cont_of k (StateItem p) = Some SuspendedL \<and> cont_of k (EventItem p) = None)"
  by (auto simp: prvTaskIsTaskSuspended_def)

text \<open>A suspended task made ready again, before any yield.\<close>

lemma resume_ready_inv:
  assumes inv: "kinv Ls {} k" and s: "cont_of k (StateItem p) = Some SuspendedL" and e: "cont_of k (EventItem p) = None"
  shows "k_remove (StateItem p) k = Some (k\<lparr>ls := drop_item (StateItem p) (ls k)\<rparr>)"
    and "prvAddTaskToReadyList p (k\<lparr>ls := drop_item (StateItem p) (ls k)\<rparr>) = make_ready p k"
    and "kinv Ls {} (make_ready p k)"
proof -
  show "k_remove (StateItem p) k = Some (k\<lparr>ls := drop_item (StateItem p) (ls k)\<rparr>)"
    using s by (simp add: k_remove_eq)
  have "drop_item (EventItem p) (drop_item (StateItem p) (ls k)) = drop_item (StateItem p) (ls k)"
    using e by (simp add: drop_item_def split: option.split)
  then show "prvAddTaskToReadyList p (k\<lparr>ls := drop_item (StateItem p) (ls k)\<rparr>) = make_ready p k"
    by (simp add: make_ready_def)
  have "unat (prio k p) < configMAX_PRIORITIES" by (rule state_place(1) [OF inv s])
  from make_ready_inv [OF inv this] show "kinv Ls {} (make_ready p k)" by simp
qed

theorem vTaskResume_spec:
  assumes inv: "kinv Ls {} k" and p: "p \<noteq> NULL" "p \<noteq> pxCurrentTCB k"
  shows "\<exists>k'. vTaskResume p k = Some k' \<and> kinv Ls {} k' \<and> tcbs k' = tcbs k \<and>
     (if cont_of k (StateItem p) = Some SuspendedL \<and> cont_of k (EventItem p) = None
      then cont_of k' = (cont_of k)(StateItem p := Some (ReadyL (unat (prio k p)))) \<and>
        (prio k p < prio k (pxCurrentTCB k) \<longrightarrow> pxCurrentTCB k' = pxCurrentTCB k)
      else k' = k)"
proof (cases "cont_of k (StateItem p) = Some SuspendedL \<and> cont_of k (EventItem p) = None")
  case False
  then show ?thesis using inv p by (auto simp: vTaskResume_def is_suspended_iff)
next
  case True
  then have s: "cont_of k (StateItem p) = Some SuspendedL" and e: "cont_of k (EventItem p) = None" by auto
  note R = resume_ready_inv [OF inv s e]
  let ?k = "make_ready p k"
  have co: "cont_of ?k = (cont_of k)(StateItem p := Some (ReadyL (unat (prio k p))))"
    using e by (auto simp: fun_eq_iff)
  have step: "vTaskResume p k = (if prio k (pxCurrentTCB k) \<le> prio k p then vTaskSwitchContext ?k else Some ?k)"
    using p s e R(1,2) by (simp add: vTaskResume_def is_suspended_iff portYIELD_WITHIN_API_def Let_def)
  have "some_ready ?k" using some_ready_iff [OF R(3)] co by auto
  then obtain k2 where k2: "vTaskSwitchContext ?k = Some k2" "kinv_at (Suc (unat (xTickCount ?k))) Ls {} k2"
    "cont_of k2 = cont_of ?k" "tcbs k2 = tcbs ?k" "xTickCount k2 = xTickCount ?k"
    using switch_context_inv [OF R(3)] by blast
  show ?thesis
  proof (cases "prio k (pxCurrentTCB k) \<le> prio k p")
    case True
    then have "vTaskResume p k = Some k2" using step k2(1) by simp
    then show ?thesis using k2 s e co True by (intro exI [of _ k2]) (auto simp: not_less)
  next
    case False
    then have "vTaskResume p k = Some ?k" using step by simp
    then show ?thesis using R(3) s e co by (intro exI [of _ ?k]) auto
  qed
qed

end
