(* ===== verification/TaskEvents.thy ===== *)
theory TaskEvents
  imports TaskApi
begin

section \<open>Event lists and time-outs (FreeRtos/tasks.c)\<close>

text \<open>
  The functions by which queues, semaphores and event groups block a task on one of their lists
  and wake it again, and the time-out state that lets a blocked task go on waiting for the rest
  of its time.
\<close>

subsection \<open>Blocking on an event list\<close>

text \<open>A list argument is a name, never NULL, so \<open>configASSERT (pxEventList)\<close> holds.\<close>

definition vTaskPlaceOnEventList :: "list_id \<Rightarrow> u32 \<Rightarrow> kernel \<Rightarrow> kernel option" where
  "vTaskPlaceOnEventList pxEventList xTicksToWait k =
     do {
       let k = k_insert pxEventList (EventItem (pxCurrentTCB k)) k;
       prvAddCurrentTaskToDelayedList xTicksToWait True k
     }"

definition vTaskPlaceOnUnorderedEventList :: "list_id \<Rightarrow> u32 \<Rightarrow> u32 \<Rightarrow> kernel \<Rightarrow> kernel option" where
  "vTaskPlaceOnUnorderedEventList pxEventList xNewItemValue xTicksToWait k =
     do {
       configASSERT (uxSchedulerSuspended k \<noteq> 0);
       let k = k_set_value (EventItem (pxCurrentTCB k)) (xNewItemValue OR taskEVENT_LIST_ITEM_VALUE_IN_USE) k;
       let k = k_insert_end pxEventList (EventItem (pxCurrentTCB k)) k;
       prvAddCurrentTaskToDelayedList xTicksToWait True k
     }"

definition vTaskPlaceOnEventListRestricted :: "list_id \<Rightarrow> u32 \<Rightarrow> bool \<Rightarrow> kernel \<Rightarrow> kernel option" where
  "vTaskPlaceOnEventListRestricted pxEventList xTicksToWait xWaitIndefinitely k =
     do {
       let k = k_insert_end pxEventList (EventItem (pxCurrentTCB k)) k;
       let xTicksToWait = (if xWaitIndefinitely then portMAX_DELAY else xTicksToWait);
       prvAddCurrentTaskToDelayedList xTicksToWait xWaitIndefinitely k
     }"

subsection \<open>Waking from an event list\<close>

text \<open>The caller has checked that the list is not empty; reading the head of an empty list is
  \<open>None\<close>.\<close>

definition xTaskRemoveFromEventList :: "list_id \<Rightarrow> kernel \<Rightarrow> (bool \<times> kernel) option" where
  "xTaskRemoveFromEventList pxEventList k =
     do {
       i \<leftarrow> l_head pxEventList (ls k);
       let pxUnblockedTCB = owner i;
       configASSERT (pxUnblockedTCB \<noteq> NULL);
       k \<leftarrow> k_remove (EventItem pxUnblockedTCB) k;
       k \<leftarrow> (if uxSchedulerSuspended k = 0 then
              do { k \<leftarrow> k_remove (StateItem pxUnblockedTCB) k; Some (prvAddTaskToReadyList pxUnblockedTCB k) }
            else Some (k_insert_end PendingReadyL (EventItem pxUnblockedTCB) k));
       Some (if prio k pxUnblockedTCB > prio k (pxCurrentTCB k)
             then (True, k\<lparr>xYieldPending := True\<rparr>) else (False, k))
     }"

definition vTaskRemoveFromUnorderedEventList :: "item_id \<Rightarrow> u32 \<Rightarrow> kernel \<Rightarrow> kernel option" where
  "vTaskRemoveFromUnorderedEventList pxEventListItem xNewItemValue k =
     do {
       configASSERT (uxSchedulerSuspended k \<noteq> 0);
       let k = k_set_value pxEventListItem (xNewItemValue OR taskEVENT_LIST_ITEM_VALUE_IN_USE) k;
       let pxUnblockedTCB = owner pxEventListItem;
       configASSERT (pxUnblockedTCB \<noteq> NULL);
       k \<leftarrow> k_remove pxEventListItem k;
       k \<leftarrow> k_remove (StateItem pxUnblockedTCB) k;
       let k = prvAddTaskToReadyList pxUnblockedTCB k;
       Some (if prio k pxUnblockedTCB > prio k (pxCurrentTCB k) then k\<lparr>xYieldPending := True\<rparr> else k)
     }"

definition vTaskMissedYield :: "kernel \<Rightarrow> kernel" where
  "vTaskMissedYield k = k\<lparr>xYieldPending := True\<rparr>"

definition uxTaskResetEventItemValue :: "kernel \<Rightarrow> u32 \<times> kernel" where
  "uxTaskResetEventItemValue k =
     (let uxReturn = val_of k (EventItem (pxCurrentTCB k))
      in (uxReturn, k_set_value (EventItem (pxCurrentTCB k))
            (of_nat configMAX_PRIORITIES - prio k (pxCurrentTCB k)) k))"

subsection \<open>Time-outs\<close>

record TimeOut_t =
  xOverflowCount :: u32
  xTimeOnEntering :: u32

definition vTaskInternalSetTimeOutState :: "kernel \<Rightarrow> TimeOut_t" where
  "vTaskInternalSetTimeOutState k = \<lparr>xOverflowCount = xNumOfOverflows k, xTimeOnEntering = xTickCount k\<rparr>"

definition vTaskSetTimeOutState :: "kernel \<Rightarrow> TimeOut_t" where
  "vTaskSetTimeOutState k = \<lparr>xOverflowCount = xNumOfOverflows k, xTimeOnEntering = xTickCount k\<rparr>"

text \<open>The result, and what is left in \<open>*pxTimeOut\<close> and \<open>*pxTicksToWait\<close>.\<close>

definition xTaskCheckForTimeOut :: "TimeOut_t \<Rightarrow> u32 \<Rightarrow> kernel \<Rightarrow> bool \<times> TimeOut_t \<times> u32" where
  "xTaskCheckForTimeOut pxTimeOut pxTicksToWait k =
     (let xConstTickCount = xTickCount k;
          xElapsedTime = xConstTickCount - xTimeOnEntering pxTimeOut
      in if pxTicksToWait = portMAX_DELAY then (False, pxTimeOut, pxTicksToWait)
         else if xNumOfOverflows k \<noteq> xOverflowCount pxTimeOut \<and> xConstTickCount \<ge> xTimeOnEntering pxTimeOut
         then (True, pxTimeOut, pxTicksToWait)
         else if xElapsedTime < pxTicksToWait
         then (False, vTaskInternalSetTimeOutState k, pxTicksToWait - xElapsedTime)
         else (True, pxTimeOut, 0))"

subsection \<open>Effect on the invariant\<close>

lemma event_place: "event_list l \<Longrightarrow> place_ok lo k (EventItem p) l"
  by simp

lemma kinv_event_insert:
  assumes inv: "kinv_at lo Ls X k" and l: "l \<in> Ls" "event_list l" and free: "cont_of k (EventItem p) = None"
    and S': "S' = l_insert_end l (EventItem p) (ls k) \<or> S' = l_insert l (EventItem p) (ls k)"
  shows "kinv_at lo Ls (insert p X) (k\<lparr>ls := S'\<rparr>)"
proof (rule kinv_insert_gen [OF inv free l(1)])
  show "S' = l_insert_end l (EventItem p) (ls k) \<and> l \<notin> {DelayedL1, DelayedL2} \<or> S' = l_insert l (EventItem p) (ls k)"
    using S' l(2) by auto
  show "place_ok lo k (EventItem p) l" using l(2) by simp
  have "cont S' = (cont_of k)(EventItem p := Some l)" using S' by auto
  then show "\<forall>q. q \<notin> insert p X \<longrightarrow> cont S' (EventItem q) \<noteq> None \<longrightarrow>
      (\<exists>l \<in> delayed_or_suspended. cont S' (StateItem q) = Some l)"
    using kinvD(8) [OF inv] by auto
qed

text \<open>What all ways of blocking on an event list have in common: the event item goes to the list,
  the state item to a delayed list or the suspended list.\<close>

lemma block_on_spec:
  assumes inv: "kinv Ls X k" and l: "l \<in> Ls" "event_list l"
    and free: "cont_of k (EventItem (pxCurrentTCB k)) = None"
    and cur: "cont_of k (StateItem (pxCurrentTCB k)) \<noteq> None" and w: "w \<noteq> 0"
    and S': "S' = l_insert_end l (EventItem (pxCurrentTCB k)) (ls k) \<or> S' = l_insert l (EventItem (pxCurrentTCB k)) (ls k)"
  shows "\<exists>k'. prvAddCurrentTaskToDelayedList w b (k\<lparr>ls := S'\<rparr>) = Some k' \<and> kinv Ls (X - {pxCurrentTCB k}) k' \<and>
     cont_of k' = (cont_of k)(EventItem (pxCurrentTCB k) := Some l,
       StateItem (pxCurrentTCB k) := Some (delay_list w b k)) \<and>
     val_of k' = (if delay_list w b k = SuspendedL then val_of k
       else (val_of k)(StateItem (pxCurrentTCB k) := xTickCount k + w)) \<and>
     tcbs k' = tcbs k \<and> pxCurrentTCB k' = pxCurrentTCB k \<and> xTickCount k' = xTickCount k \<and>
     uxSchedulerSuspended k' = uxSchedulerSuspended k \<and> xYieldPending k' = xYieldPending k \<and>
     uxPendedTicks k' = uxPendedTicks k \<and> uxCurrentNumberOfTasks k' = uxCurrentNumberOfTasks k"
proof -
  let ?c = "pxCurrentTCB k" and ?k = "k\<lparr>ls := S'\<rparr>"
  have C: "cont S' = (cont_of k)(EventItem ?c := Some l)" "ival S' = val_of k" using S' by auto
  have inv1: "kinv Ls (insert ?c X) ?k"
    using kinv_event_insert [OF inv l free S'] by simp
  have "cont_of ?k (StateItem (pxCurrentTCB ?k)) \<noteq> None" using cur C by simp
  from prvAddCurrentTaskToDelayedList_spec [OF inv1 this w, of b] obtain k' where
    "prvAddCurrentTaskToDelayedList w b ?k = Some k'" and i': "kinv Ls (insert ?c X - {?c}) k'" and
    "cont_of k' = (cont_of ?k)(StateItem ?c := Some (delay_list w b ?k))" and
    "val_of k' = (if delay_list w b ?k = SuspendedL then val_of ?k
       else (val_of ?k)(StateItem ?c := xTickCount ?k + w))" and
    "tcbs k' = tcbs k \<and> pxCurrentTCB k' = ?c \<and> xTickCount k' = xTickCount k \<and>
     uxSchedulerSuspended k' = uxSchedulerSuspended k \<and> xYieldPending k' = xYieldPending k \<and>
     uxPendedTicks k' = uxPendedTicks k \<and> uxCurrentNumberOfTasks k' = uxCurrentNumberOfTasks k"
    by auto
  moreover have "delay_list w b ?k = delay_list w b k" by (simp add: delay_list_def)
  moreover have "kinv Ls (X - {?c}) k'" using i' by (rule kinv_mono) auto
  ultimately show ?thesis using C by simp
qed

subsection \<open>Waking\<close>

lemma event_head:
  assumes inv: "kinv_at lo Ls X k" and l: "l \<in> Ls" "event_list l" and h: "l_head l (ls k) = Some i"
  shows "\<exists>p. i = EventItem p \<and> cont_of k (EventItem p) = Some l \<and> items k l = EventItem p # tl (items k l)"
proof -
  have it: "items k l = i # tl (items k l)" using h by (cases "items k l") (auto simp: hd_opt_def)
  then have c: "cont_of k i = Some l" using mem_items [OF inv l(1), of i] by (metis list.set_intros(1))
  show ?thesis
  proof (cases i)
    case (StateItem p)
    with state_place(2) [OF inv, of p l] c l(2) not_event_delayed [OF kinvD(5) [OF inv]] show ?thesis by auto
  next
    case (TimerItem t)
    with kinvD(7) [OF inv c] l(2) show ?thesis by auto
  qed (use c it in auto)
qed

lemma waiting_state:
  assumes inv: "kinv_at lo Ls X k" and p: "p \<notin> X" and c: "cont_of k (EventItem p) = Some l"
  obtains m where "cont_of k (StateItem p) = Some m" and "m \<in> delayed_or_suspended"
    and "unat (prio k p) < configMAX_PRIORITIES"
  using kinvD(8) [OF inv p] c state_place(1) [OF inv] by blast

lemma drop_both_make_ready:
  assumes inv: "kinv_at lo Ls X k" and p: "p \<notin> X" and c: "cont_of k (EventItem p) = Some l" and e: "l \<notin> delayed_or_suspended"
  shows "do { k \<leftarrow> k_remove (EventItem p) k; k \<leftarrow> k_remove (StateItem p) k; Some (prvAddTaskToReadyList p k) } =
     Some (make_ready p k)"
proof -
  obtain m where m: "cont_of k (StateItem p) = Some m" "m \<in> delayed_or_suspended"
    using waiting_state [OF inv p c] by blast
  then have "m \<noteq> l" using e by auto
  then have "drop_item (StateItem p) (drop_item (EventItem p) (ls k)) =
      drop_item (EventItem p) (drop_item (StateItem p) (ls k))"
    using m(1) c by (intro drop_commute) auto
  then show ?thesis using m(1) c by (simp add: k_remove_eq make_ready_def)
qed

lemma event_not_delayed: "event_list l \<Longrightarrow> l \<notin> delayed_or_suspended"
  by (cases l) (auto simp: delayed_or_suspended_def)

theorem remove_from_event_list_running:
  assumes inv: "kinv_at lo Ls X k" and l: "l \<in> Ls" "event_list l" and run: "uxSchedulerSuspended k = 0"
    and h: "l_head l (ls k) = Some (EventItem p)" and p: "p \<noteq> NULL" "p \<notin> X"
  shows "xTaskRemoveFromEventList l k =
      Some (prio k (pxCurrentTCB k) < prio k p,
        (make_ready p k)\<lparr>xYieldPending := xYieldPending k \<or> prio k (pxCurrentTCB k) < prio k p\<rparr>)"
    and "kinv_at lo Ls X (make_ready p k)"
proof -
  have c: "cont_of k (EventItem p) = Some l" using event_head [OF inv l h] by auto
  have r: "unat (prio k p) < configMAX_PRIORITIES" using waiting_state [OF inv p(2) c] by blast
  have "do { k \<leftarrow> k_remove (EventItem p) k; k \<leftarrow> k_remove (StateItem p) k; Some (prvAddTaskToReadyList p k) } =
      Some (make_ready p k)"
    by (rule drop_both_make_ready [OF inv p(2) c event_not_delayed [OF l(2)]])
  then show "xTaskRemoveFromEventList l k =
      Some (prio k (pxCurrentTCB k) < prio k p,
        (make_ready p k)\<lparr>xYieldPending := xYieldPending k \<or> prio k (pxCurrentTCB k) < prio k p\<rparr>)"
    using h p(1) run by (auto simp: xTaskRemoveFromEventList_def k_remove_eq c split: if_splits)
  show "kinv_at lo Ls X (make_ready p k)"
    using make_ready_inv [OF inv r] kinv_mono by blast
qed

text \<open>While the scheduler is suspended the task stays in its delayed list, and its event item
  joins the pending list.\<close>

definition make_pending :: "ptr \<Rightarrow> kernel \<Rightarrow> kernel" where
  "make_pending p k = k\<lparr>ls := l_insert_end PendingReadyL (EventItem p) (drop_item (EventItem p) (ls k))\<rparr>"

lemma make_pending_fields [simp]:
  "cont_of (make_pending p k) = (cont_of k)(EventItem p := Some PendingReadyL)"
  "val_of (make_pending p k) = val_of k" "tcbs (make_pending p k) = tcbs k"
  "pxCurrentTCB (make_pending p k) = pxCurrentTCB k" "xTickCount (make_pending p k) = xTickCount k"
  "uxSchedulerSuspended (make_pending p k) = uxSchedulerSuspended k"
  "xYieldPending (make_pending p k) = xYieldPending k" "uxPendedTicks (make_pending p k) = uxPendedTicks k"
  "uxCurrentNumberOfTasks (make_pending p k) = uxCurrentNumberOfTasks k"
  by (simp_all add: make_pending_def)

lemma make_pending_inv:
  assumes inv: "kinv_at lo Ls X k" and p: "p \<notin> X" and c: "cont_of k (EventItem p) = Some l"
  shows "kinv_at lo Ls X (make_pending p k)"
proof -
  obtain m where m: "cont_of k (StateItem p) = Some m" "m \<in> delayed_or_suspended"
    using waiting_state [OF inv p c] by blast
  let ?k = "k\<lparr>ls := drop_item (EventItem p) (ls k)\<rparr>" and ?S = "l_insert_end PendingReadyL (EventItem p) (drop_item (EventItem p) (ls k))"
  have "kinv_at lo Ls (X - {p}) ?k" by (rule kinv_drop(2) [OF inv])
  then have i1: "kinv_at lo Ls X ?k" by (rule kinv_mono) auto
  have ev: "\<forall>q. q \<notin> X \<longrightarrow> cont ?S (EventItem q) \<noteq> None \<longrightarrow>
      (\<exists>l \<in> delayed_or_suspended. cont ?S (StateItem q) = Some l)"
    using kinvD(8) [OF inv] m by auto
  have "kinv_at lo Ls X (?k\<lparr>ls := ?S\<rparr>)"
    by (rule kinv_insert_gen [OF i1 _ _ _ _ ev, of "EventItem p" PendingReadyL]) (use kinv_static [OF inv] in auto)
  then show ?thesis by (simp add: make_pending_def)
qed

theorem remove_from_event_list_suspended:
  assumes inv: "kinv_at lo Ls X k" and l: "l \<in> Ls" "event_list l" and run: "uxSchedulerSuspended k \<noteq> 0"
    and h: "l_head l (ls k) = Some (EventItem p)" and p: "p \<noteq> NULL" "p \<notin> X"
  shows "xTaskRemoveFromEventList l k =
      Some (prio k (pxCurrentTCB k) < prio k p,
        (make_pending p k)\<lparr>xYieldPending := xYieldPending k \<or> prio k (pxCurrentTCB k) < prio k p\<rparr>)"
    and "kinv_at lo Ls X (make_pending p k)"
proof -
  have c: "cont_of k (EventItem p) = Some l" using event_head [OF inv l h] by auto
  show "xTaskRemoveFromEventList l k =
      Some (prio k (pxCurrentTCB k) < prio k p,
        (make_pending p k)\<lparr>xYieldPending := xYieldPending k \<or> prio k (pxCurrentTCB k) < prio k p\<rparr>)"
    using h p(1) run by (auto simp: xTaskRemoveFromEventList_def k_remove_eq c make_pending_def split: if_splits)
  show "kinv_at lo Ls X (make_pending p k)" by (rule make_pending_inv [OF inv p(2) c])
qed

lemma kinv_yield:
  "kinv_at lo Ls X k \<Longrightarrow> kinv_at lo Ls X (k\<lparr>xYieldPending := b\<rparr>)"
  by (rule kinv_fields [where k = k]) simp_all

text \<open>Both cases at once: one task is woken from a list with waiting tasks.\<close>

definition wake :: "ptr \<Rightarrow> kernel \<Rightarrow> kernel" where
  "wake p k = (if uxSchedulerSuspended k = 0 then make_ready p k else make_pending p k)
     \<lparr>xYieldPending := xYieldPending k \<or> prio k (pxCurrentTCB k) < prio k p\<rparr>"

theorem remove_from_event_list_wake:
  assumes inv: "kinv_at lo Ls X k" and l: "l \<in> Ls" "event_list l"
    and h: "l_head l (ls k) = Some (EventItem p)" and p: "p \<noteq> NULL" "p \<notin> X"
  shows "xTaskRemoveFromEventList l k = Some (prio k (pxCurrentTCB k) < prio k p, wake p k)"
    and "kinv_at lo Ls X (wake p k)"
  using remove_from_event_list_running [OF inv l _ h p] remove_from_event_list_suspended [OF inv l _ h p]
  by (auto simp: wake_def intro: kinv_yield)

lemma wake_fields [simp]:
  "val_of (wake p k) = val_of k" "tcbs (wake p k) = tcbs k" "pxCurrentTCB (wake p k) = pxCurrentTCB k"
  "xTickCount (wake p k) = xTickCount k" "uxSchedulerSuspended (wake p k) = uxSchedulerSuspended k"
  "uxPendedTicks (wake p k) = uxPendedTicks k" "uxCurrentNumberOfTasks (wake p k) = uxCurrentNumberOfTasks k"
  "xYieldPending (wake p k) \<longleftrightarrow> xYieldPending k \<or> prio k (pxCurrentTCB k) < prio k p"
  by (simp_all add: wake_def)

lemma wake_cont:
  "cont_of (wake p k) = (if uxSchedulerSuspended k = 0
     then (cont_of k)(EventItem p := None, StateItem p := Some (ReadyL (unat (prio k p))))
     else (cont_of k)(EventItem p := Some PendingReadyL))"
  by (simp add: wake_def)

lemma wake_items:
  assumes inv: "kinv_at lo Ls X k" and l: "l \<in> Ls" "event_list l"
  shows "items (wake p k) l = remove1 (EventItem p) (items k l)"
proof (cases "uxSchedulerSuspended k = 0")
  case True
  have "l \<noteq> ReadyL (unat (prio k p))" using l(2) by auto
  from make_ready_items [OF inv l(1) this]
  have "items (wake p k) l = remove1 (EventItem p) (remove1 (StateItem p) (items k l))"
    using True by (simp add: wake_def)
  moreover have "StateItem p \<notin> set (items k l)"
  proof
    assume "StateItem p \<in> set (items k l)"
    then have "cont_of k (StateItem p) = Some l" using mem_items [OF inv l(1)] by blast
    from state_place(2) [OF inv this] l(2) not_event_delayed [OF kinvD(5) [OF inv]] show False by auto
  qed
  ultimately show ?thesis by (simp add: remove1_idem)
next
  case False
  have "l \<noteq> PendingReadyL" using l(2) by auto
  with False elems_drop [OF kinvD(1) [OF inv] l(1)] show ?thesis
    by (simp add: wake_def make_pending_def)
qed

subsection \<open>Time\<close>

text \<open>The count of ticks since the scheduler started, modulo \<open>2 ^ 64\<close>: the overflow counter
  extends the tick counter.\<close>

definition kernel_time :: "kernel \<Rightarrow> nat" where
  "kernel_time k = unat (xNumOfOverflows k) * 2 ^ 32 + unat (xTickCount k)"

lemma fold_make_ready_overflows [simp]: "xNumOfOverflows (fold make_ready ps k) = xNumOfOverflows k"
proof (induction ps arbitrary: k)
  case (Cons p ps)
  have "xNumOfOverflows (make_ready p k) = xNumOfOverflows k"
    by (simp add: make_ready_def prvAddTaskToReadyList_eq)
  with Cons.IH [of "make_ready p k"] show ?case by simp
qed simp

lemma reset_overflows [simp]: "xNumOfOverflows (prvResetNextTaskUnblockTime k) = xNumOfOverflows k"
  by (simp add: prvResetNextTaskUnblockTime_def split: option.split)

lemma unat_minus_1: "unat (- 1 :: u32) = 2 ^ 32 - 1"
  by (simp add: unsigned_minus_1_eq_mask mask_eq_exp_minus_1)

lemma wake_step_overflows:
  assumes "kinv_at lo Ls X k" and "wake_step k = Some (b, k')"
  shows "xNumOfOverflows k' = xNumOfOverflows k"
  using assms(2) wake_expired_eq [OF assms(1), of "xTickCount k" False]
  by (auto simp: wake_step_def split: if_splits)

lemma wake_step_returns:
  assumes "kinv_at lo Ls X k" obtains b k' where "wake_step k = Some (b, k')"
  using wake_expired_eq [OF assms, of "xTickCount k" False] that by (cases "xTickCount k \<ge> xNextTaskUnblockTime k") (auto simp: wake_step_def)

lemma kinv_advance:
  assumes inv: "kinv Ls X k" and nw: "xTickCount k + 1 \<noteq> 0"
  shows "kinv_at (unat (xTickCount k + 1)) Ls X (k\<lparr>xTickCount := xTickCount k + 1\<rparr>)"
proof -
  let ?t = "xTickCount k + 1" and ?k = "k\<lparr>xTickCount := xTickCount k + 1\<rparr>"
  have s: "unat ?t = Suc (unat (xTickCount k))" using nw by (simp add: unatSuc add.commute)
  then have lt: "xTickCount k < ?t" by (simp add: word_less_nat_alt)
  have "place_ok (unat ?t) ?k i l" if c: "cont_of k i = Some l" for i l
    using kinvD(7) [OF inv c] s lt by (cases i; cases l) (auto simp: place_ok_def split: if_splits)
  then show ?thesis using inv by (auto simp: kinv_at_def delayed_pair_def)
qed

lemma tick_overflows:
  assumes inv: "kinv Ls X k" and run: "uxSchedulerSuspended k = 0" and t: "xTaskIncrementTick k = Some (sw, k')"
  shows "xNumOfOverflows k' = (if xTickCount k + 1 = 0 then xNumOfOverflows k + 1 else xNumOfOverflows k)"
proof -
  let ?k = "k\<lparr>xTickCount := xTickCount k + 1\<rparr>"
  have step: "xNumOfOverflows k' = xNumOfOverflows k1"
    if sw1: "(if xTickCount k + 1 = 0 then taskSWITCH_DELAYED_LISTS ?k else Some ?k) = Some k1"
      and i1: "kinv_at lo Ls X k1" and tc: "xTickCount k1 = xTickCount k + 1" for k1 lo
  proof -
    obtain b k2 where k2: "wake_step k1 = Some (b, k2)" using wake_step_returns [OF i1] .
    then have w: "(if xNextTaskUnblockTime k1 \<le> xTickCount k + 1 then wake_expired (xTickCount k + 1) False k1
        else Some (False, k1)) = Some (b, k2)"
      unfolding wake_step_def tc .
    have "k' = k2" using t run w unfolding xTaskIncrementTick_def Let_def sw1 by simp
    with wake_step_overflows [OF i1 k2] show ?thesis by simp
  qed
  show ?thesis
  proof (cases "xTickCount k + 1 = 0")
    case True
    obtain k1 where k1: "taskSWITCH_DELAYED_LISTS (k\<lparr>xTickCount := 0\<rparr>) = Some k1" "kinv_at 0 Ls X k1" "xTickCount k1 = 0"
      using switch_lists_inv [OF inv True] by blast
    have "xNumOfOverflows k1 = xNumOfOverflows k + 1"
      using k1(1) by (auto simp: taskSWITCH_DELAYED_LISTS_def split: if_splits)
    with step [OF _ k1(2)] k1(1,3) True show ?thesis by simp
  next
    case False
    with step [OF _ kinv_advance [OF inv]] show ?thesis by simp
  qed
qed

theorem tick_time:
  assumes inv: "kinv Ls X k" and run: "uxSchedulerSuspended k = 0" and t: "xTaskIncrementTick k = Some (sw, k')"
  shows "kernel_time k' = (kernel_time k + 1) mod 2 ^ 64"
proof -
  have tc: "xTickCount k' = xTickCount k + 1" using tick_spec [OF inv run] t by auto
  have ov: "xNumOfOverflows k' = (if xTickCount k + 1 = 0 then xNumOfOverflows k + 1 else xNumOfOverflows k)"
    by (rule tick_overflows [OF inv run t])
  have b: "unat (xTickCount k) < 2 ^ 32" "unat (xNumOfOverflows k) < 2 ^ 32" by (rule unat_u32)+
  show ?thesis
  proof (cases "xTickCount k + 1 = 0")
    case True
    then have m: "unat (xTickCount k) = 2 ^ 32 - 1" by (simp add: eq_neg_iff_add_eq_0 [symmetric] unat_minus_1)
    show ?thesis
    proof (cases "xNumOfOverflows k + 1 = 0")
      case o: True
      then have "unat (xNumOfOverflows k) = 2 ^ 32 - 1" by (simp add: eq_neg_iff_add_eq_0 [symmetric] unat_minus_1)
      with True o m ov tc show ?thesis by (simp add: kernel_time_def)
    next
      case False
      then have "unat (xNumOfOverflows k + 1) = Suc (unat (xNumOfOverflows k))" by (simp add: unatSuc add.commute)
      moreover have "Suc (unat (xNumOfOverflows k)) < 2 ^ 32" using unat_u32 [of "xNumOfOverflows k + 1"] calculation by simp
      ultimately show ?thesis using True m ov tc by (simp add: kernel_time_def)
    qed
  next
    case False
    then have "unat (xTickCount k + 1) = Suc (unat (xTickCount k))" by (simp add: unatSuc add.commute)
    moreover from this have "Suc (unat (xTickCount k)) < 2 ^ 32" using unat_u32 [of "xTickCount k + 1"] by simp
    ultimately show ?thesis using False ov tc b by (simp add: kernel_time_def)
  qed
qed

lemma unat_sub_wrap:
  "unat ((x::u32) - y) = (if unat y \<le> unat x then unat x - unat y else unat x + 2 ^ 32 - unat y)"
  by (simp add: unat_sub_if_size word_size)

lemma word_unat_eq: "unat (x :: u32) = n \<Longrightarrow> x = of_nat n"
  by auto

lemma elapsed_cases:
  fixes M t t0 d :: nat and i i0 :: nat
  assumes "i * M + t = i0 * M + t0 + d" and "t < M" and "t0 < M" and "d < 2 * M - t0"
  shows "i = i0 \<and> t = t0 + d \<or> i \<noteq> i0 \<and> t0 \<le> t \<and> M \<le> d \<or> i \<noteq> i0 \<and> t < t0 \<and> d + t0 = M + t"
proof -
  have "i0 \<le> i"
  proof (rule ccontr)
    assume "\<not> i0 \<le> i"
    then have "Suc i * M \<le> i0 * M" by (intro mult_le_mono1) simp
    with assms show False by simp
  qed
  then obtain n where n: "i = i0 + n" by (metis le_iff_add)
  have e: "n * M + t = t0 + d" using assms(1) by (simp add: n add_mult_distrib)
  have "n < 2"
  proof (rule ccontr)
    assume "\<not> n < 2"
    then have "2 * M \<le> n * M" by (intro mult_le_mono1) simp
    with e assms(2-4) show False by linarith
  qed
  then consider "n = 0" | "n = 1" by linarith
  then show ?thesis using e assms n by cases auto
qed

theorem timeout_exact:
  assumes w: "w \<noteq> portMAX_DELAY" and d: "kernel_time k = kernel_time k0 + d"
    and lim: "d < 2 ^ 33 - unat (xTickCount k0)"
  shows "fst (xTaskCheckForTimeOut (vTaskInternalSetTimeOutState k0) w k) \<longleftrightarrow> unat w \<le> d"
    and "d < unat w \<Longrightarrow> snd (xTaskCheckForTimeOut (vTaskInternalSetTimeOutState k0) w k) =
      (vTaskInternalSetTimeOutState k, w - of_nat d)"
proof -
  let ?t = "xTickCount k" and ?s = "xTickCount k0"
  have wM: "unat w < 2 ^ 32" by (rule unat_u32)
  have "unat (xNumOfOverflows k) * 2 ^ 32 + unat ?t = unat (xNumOfOverflows k0) * 2 ^ 32 + unat ?s + d"
    using d unfolding kernel_time_def .
  from elapsed_cases [OF this unat_u32 unat_u32]
  consider (same) "unat (xNumOfOverflows k) = unat (xNumOfOverflows k0)" "unat ?t = unat ?s + d"
    | (long) "unat (xNumOfOverflows k) \<noteq> unat (xNumOfOverflows k0)" "unat ?s \<le> unat ?t" "2 ^ 32 \<le> d"
    | (wrap) "unat (xNumOfOverflows k) \<noteq> unat (xNumOfOverflows k0)" "unat ?t < unat ?s" "d + unat ?s = 2 ^ 32 + unat ?t"
    using lim by auto
  then have *: "(fst (xTaskCheckForTimeOut (vTaskInternalSetTimeOutState k0) w k) \<longleftrightarrow> unat w \<le> d) \<and>
    (d < unat w \<longrightarrow> snd (xTaskCheckForTimeOut (vTaskInternalSetTimeOutState k0) w k) =
      (vTaskInternalSetTimeOutState k, w - of_nat d))"
  proof cases
    case same
    then have e: "unat (?t - ?s) = d" by (simp add: unat_sub_wrap)
    then have "?t - ?s = of_nat d" by (metis word_unat_eq)
    moreover have "xNumOfOverflows k = xNumOfOverflows k0" using same by (simp add: word_unat_eq_iff)
    ultimately show ?thesis using same e w
      by (auto simp: xTaskCheckForTimeOut_def vTaskInternalSetTimeOutState_def Let_def word_less_nat_alt)
  next
    case long
    with w wM show ?thesis
      by (auto simp: xTaskCheckForTimeOut_def vTaskInternalSetTimeOutState_def Let_def word_le_nat_alt)
  next
    case wrap
    then have e: "unat (?t - ?s) = d" by (simp add: unat_sub_wrap)
    then have "?t - ?s = of_nat d" by (metis word_unat_eq)
    with wrap e w show ?thesis
      by (auto simp: xTaskCheckForTimeOut_def vTaskInternalSetTimeOutState_def Let_def word_less_nat_alt word_le_nat_alt)
  qed
  show "fst (xTaskCheckForTimeOut (vTaskInternalSetTimeOutState k0) w k) \<longleftrightarrow> unat w \<le> d"
    using * by blast
  show "d < unat w \<Longrightarrow> snd (xTaskCheckForTimeOut (vTaskInternalSetTimeOutState k0) w k) =
      (vTaskInternalSetTimeOutState k, w - of_nat d)"
    using * by blast
qed

subsection \<open>Switching to another task\<close>

definition runs_highest :: "kernel \<Rightarrow> bool" where
  "runs_highest k \<longleftrightarrow> (\<exists>n. cont_of k (StateItem (pxCurrentTCB k)) = Some (ReadyL n) \<and> highest_ready k n)"

lemma switch_runs_highest:
  assumes inv: "kinv Ls X k" and run: "uxSchedulerSuspended k = 0" and r: "some_ready k"
  shows "\<exists>k'. vTaskSwitchContext k = Some k' \<and> kinv Ls X k' \<and> cont_of k' = cont_of k \<and> val_of k' = val_of k \<and>
     items k' = items k \<and> tcbs k' = tcbs k \<and> xTickCount k' = xTickCount k \<and> uxSchedulerSuspended k' = 0 \<and>
     uxPendedTicks k' = uxPendedTicks k \<and> uxCurrentNumberOfTasks k' = uxCurrentNumberOfTasks k \<and> runs_highest k'"
proof -
  define k0 where "k0 = k\<lparr>xYieldPending := False\<rparr>"
  have i0: "kinv Ls X k0" unfolding k0_def using kinv_yield [OF inv] by simp
  have r0: "some_ready k0" using r by (simp add: some_ready_def k0_def)
  obtain k' n p S where k': "taskSELECT_HIGHEST_PRIORITY_TASK k0 = Some k'" "highest_ready k0 n"
     "kinv Ls X k'" "cont_of k' = cont_of k0" "val_of k' = val_of k0" "items k' = items k0"
     "cont_of k0 (StateItem p) = Some (ReadyL n)"
     "k' = k0\<lparr>ls := S, pxCurrentTCB := p, uxTopReadyPriority := prio k0 p\<rparr>"
    using select_spec [OF i0 r0] by auto
  have "vTaskSwitchContext k = Some k'" using k'(1) run by (simp add: switch_context_select k0_def)
  moreover have "highest_ready k' n" using k'(2,6) by (simp add: highest_ready_def fun_eq_iff)
  moreover have "pxCurrentTCB k' = p" "tcbs k' = tcbs k" "xTickCount k' = xTickCount k" "uxSchedulerSuspended k' = 0"
     "uxPendedTicks k' = uxPendedTicks k" "uxCurrentNumberOfTasks k' = uxCurrentNumberOfTasks k"
    using run by (simp_all add: k'(8) k0_def)
  moreover have "cont_of k0 = cont_of k" "val_of k0 = val_of k" "items k0 = items k" by (simp_all add: k0_def)
  ultimately show ?thesis
    using k'(3-7) unfolding runs_highest_def by (intro exI [of _ k']) simp
qed

lemma runs_highest_other: "runs_highest k \<Longrightarrow> \<forall>n. cont_of k (StateItem c) \<noteq> Some (ReadyL n) \<Longrightarrow> pxCurrentTCB k \<noteq> c"
  unfolding runs_highest_def by auto

text \<open>Blocking without suspending the scheduler: the running task is delayed, and another runs.\<close>

lemma delay_and_switch:
  assumes inv: "kinv Ls X k" and cb: "can_block k" and w: "w \<noteq> 0"
  shows "\<exists>k'. do { k \<leftarrow> prvAddCurrentTaskToDelayedList w b k; portYIELD_WITHIN_API k } = Some k' \<and>
     kinv Ls (X - {pxCurrentTCB k}) k' \<and>
     cont_of k' = (cont_of k)(StateItem (pxCurrentTCB k) := Some (delay_list w b k)) \<and>
     val_of k' = (if delay_list w b k = SuspendedL then val_of k
       else (val_of k)(StateItem (pxCurrentTCB k) := xTickCount k + w)) \<and>
     tcbs k' = tcbs k \<and> xTickCount k' = xTickCount k \<and> uxSchedulerSuspended k' = 0 \<and>
     pxCurrentTCB k' \<noteq> pxCurrentTCB k \<and> runs_highest k'"
proof -
  let ?c = "pxCurrentTCB k"
  have cur: "cont_of k (StateItem ?c) \<noteq> None" using cb by (simp add: can_block_def)
  obtain k1 where k1: "prvAddCurrentTaskToDelayedList w b k = Some k1" "kinv Ls (X - {?c}) k1"
     "cont_of k1 = (cont_of k)(StateItem ?c := Some (delay_list w b k))"
     "val_of k1 = (if delay_list w b k = SuspendedL then val_of k
       else (val_of k)(StateItem ?c := xTickCount k + w))"
     "tcbs k1 = tcbs k" "xTickCount k1 = xTickCount k" "uxSchedulerSuspended k1 = uxSchedulerSuspended k"
    using prvAddCurrentTaskToDelayedList_spec [OF inv cur w, of b] by blast
  obtain q n where q: "q \<noteq> ?c" "cont_of k (StateItem q) = Some (ReadyL n)" and s: "uxSchedulerSuspended k = 0"
    using cb by (auto simp: can_block_def)
  have "some_ready k1" using some_ready_iff [OF k1(2)] q k1(3) by auto
  then obtain k2 where k2: "vTaskSwitchContext k1 = Some k2" "kinv Ls (X - {?c}) k2" "cont_of k2 = cont_of k1"
     "val_of k2 = val_of k1" "tcbs k2 = tcbs k1" "xTickCount k2 = xTickCount k1" "uxSchedulerSuspended k2 = 0"
     "runs_highest k2"
    using switch_runs_highest [OF k1(2)] k1(7) s by auto
  have "delay_list w b k \<noteq> ReadyL n" for n
    using kinvD(5) [OF inv] by (auto simp: delay_list_def delayed_pair_def)
  then have "pxCurrentTCB k2 \<noteq> ?c" by (intro runs_highest_other [OF k2(8)]) (simp add: k2(3) k1(3))
  then show ?thesis using k1 k2 by (intro exI [of _ k2]) (simp add: portYIELD_WITHIN_API_def)
qed

lemma ticks_time:
  assumes "kinv Ls X k" and "uxSchedulerSuspended k = 0"
  shows "\<exists>k'. ticks n k = Some k' \<and> kinv Ls X k' \<and> uxSchedulerSuspended k' = 0 \<and>
     kernel_time k' = (kernel_time k + n) mod 2 ^ 64"
  using assms
proof (induction n arbitrary: k)
  case 0
  have "kernel_time k < 2 ^ 64"
    using unat_u32 [of "xNumOfOverflows k"] unat_u32 [of "xTickCount k"] by (simp add: kernel_time_def)
  with 0 show ?case by simp
next
  case (Suc n)
  obtain sw k1 where k1: "xTaskIncrementTick k = Some (sw, k1)" "kinv Ls X k1"
     "uxSchedulerSuspended k1 = uxSchedulerSuspended k"
    using tick_spec [OF Suc.prems] by blast
  have t: "kernel_time k1 = (kernel_time k + 1) mod 2 ^ 64" by (rule tick_time [OF Suc.prems k1(1)])
  from Suc.IH [OF k1(2)] k1(3) Suc.prems(2) obtain k' where k': "ticks n k1 = Some k'" "kinv Ls X k'"
    "uxSchedulerSuspended k' = 0" "kernel_time k' = (kernel_time k1 + n) mod 2 ^ 64" by auto
  have "kernel_time k' = (kernel_time k + Suc n) mod 2 ^ 64"
    using k'(4) unfolding t by (simp add: mod_add_left_eq)
  with k1(1) k' show ?case by simp
qed

end
