(* ===== verification/TaskMutex.thy ===== *)
theory TaskMutex
  imports TaskApi
begin

section \<open>Priority inheritance (FreeRtos/tasks.c)\<close>

text \<open>
  What \<open>queue.c\<close> calls when a task blocks on a mutex, gives it back, or gives up waiting for it:
  the holder runs at the priority of the most urgent waiting task, and falls back to its base
  priority when it holds no mutex any more.
\<close>

subsection \<open>The functions\<close>

definition xTaskPriorityInherit :: "ptr \<Rightarrow> kernel \<Rightarrow> (bool \<times> kernel) option" where
  "xTaskPriorityInherit pxMutexHolder k =
     (if pxMutexHolder \<noteq> NULL then
        (if prio k pxMutexHolder < prio k (pxCurrentTCB k) then
           do {
             let uxNew = prio k (pxCurrentTCB k);
             let k = (if val_of k (EventItem pxMutexHolder) AND taskEVENT_LIST_ITEM_VALUE_IN_USE = 0
                      then k_set_value (EventItem pxMutexHolder) (of_nat configMAX_PRIORITIES - uxNew) k else k);
             k \<leftarrow> (if cont_of k (StateItem pxMutexHolder) = Some (ReadyL (unat (prio k pxMutexHolder)))
                  then do {
                    k \<leftarrow> k_remove (StateItem pxMutexHolder) k;
                    let k = upd_tcb pxMutexHolder (uxPriority_update (\<lambda>_. uxNew)) k;
                    Some (prvAddTaskToReadyList pxMutexHolder k)
                  }
                  else Some (upd_tcb pxMutexHolder (uxPriority_update (\<lambda>_. uxNew)) k));
             Some (True, k)
           }
         else Some (uxBasePriority (tcbs k pxMutexHolder) < prio k (pxCurrentTCB k), k))
      else Some (False, k))"

definition xTaskPriorityDisinherit :: "ptr \<Rightarrow> kernel \<Rightarrow> (bool \<times> kernel) option" where
  "xTaskPriorityDisinherit pxMutexHolder k =
     (if pxMutexHolder \<noteq> NULL then
        do {
          configASSERT (pxMutexHolder = pxCurrentTCB k);
          configASSERT (uxMutexesHeld (tcbs k pxMutexHolder) \<noteq> 0);
          let k = upd_tcb pxMutexHolder (uxMutexesHeld_update (\<lambda>n. n - 1)) k;
          (if prio k pxMutexHolder \<noteq> uxBasePriority (tcbs k pxMutexHolder) \<and> uxMutexesHeld (tcbs k pxMutexHolder) = 0
           then do {
             k \<leftarrow> k_remove (StateItem pxMutexHolder) k;
             let k = upd_tcb pxMutexHolder (\<lambda>t. t\<lparr>uxPriority := uxBasePriority t\<rparr>) k;
             let k = k_set_value (EventItem pxMutexHolder) (of_nat configMAX_PRIORITIES - prio k pxMutexHolder) k;
             Some (True, prvAddTaskToReadyList pxMutexHolder k)
           }
           else Some (False, k))
        }
      else Some (False, k))"

definition vTaskPriorityDisinheritAfterTimeout :: "ptr \<Rightarrow> u32 \<Rightarrow> kernel \<Rightarrow> kernel option" where
  "vTaskPriorityDisinheritAfterTimeout pxMutexHolder uxHighestPriorityWaitingTask k =
     (if pxMutexHolder \<noteq> NULL then
        do {
          configASSERT (uxMutexesHeld (tcbs k pxMutexHolder) \<noteq> 0);
          let uxPriorityToUse =
            (if uxBasePriority (tcbs k pxMutexHolder) < uxHighestPriorityWaitingTask
             then uxHighestPriorityWaitingTask else uxBasePriority (tcbs k pxMutexHolder));
          (if prio k pxMutexHolder \<noteq> uxPriorityToUse \<and> uxMutexesHeld (tcbs k pxMutexHolder) = 1
           then do {
             configASSERT (pxMutexHolder \<noteq> pxCurrentTCB k);
             let uxPriorityUsedOnEntry = prio k pxMutexHolder;
             let k = upd_tcb pxMutexHolder (uxPriority_update (\<lambda>_. uxPriorityToUse)) k;
             let k = (if val_of k (EventItem pxMutexHolder) AND taskEVENT_LIST_ITEM_VALUE_IN_USE = 0
                      then k_set_value (EventItem pxMutexHolder) (of_nat configMAX_PRIORITIES - uxPriorityToUse) k else k);
             (if cont_of k (StateItem pxMutexHolder) = Some (ReadyL (unat uxPriorityUsedOnEntry))
              then do { k \<leftarrow> k_remove (StateItem pxMutexHolder) k; Some (prvAddTaskToReadyList pxMutexHolder k) }
              else Some k)
           }
           else Some k)
        }
      else Some k)"

definition pvTaskIncrementMutexHeldCount :: "kernel \<Rightarrow> ptr \<times> kernel" where
  "pvTaskIncrementMutexHeldCount k =
     (let k = (if pxCurrentTCB k \<noteq> NULL
               then upd_tcb (pxCurrentTCB k) (uxMutexesHeld_update (\<lambda>n. n + 1)) k else k)
      in (pxCurrentTCB k, k))"

definition xTaskGetCurrentTaskHandle :: "kernel \<Rightarrow> ptr" where
  "xTaskGetCurrentTaskHandle k = pxCurrentTCB k"

datatype scheduler_state = taskSCHEDULER_SUSPENDED | taskSCHEDULER_NOT_STARTED | taskSCHEDULER_RUNNING

definition xTaskGetSchedulerState :: "kernel \<Rightarrow> scheduler_state" where
  "xTaskGetSchedulerState k =
     (if \<not> xSchedulerRunning k then taskSCHEDULER_NOT_STARTED
      else if uxSchedulerSuspended k = 0 then taskSCHEDULER_RUNNING else taskSCHEDULER_SUSPENDED)"

subsection \<open>Moving a task to another priority\<close>

text \<open>The common effect: the task control block changes, the event item gets a new value unless it
  is in use otherwise, a ready task moves to the ready list of its new priority.\<close>

definition event_value :: "ptr \<Rightarrow> u32 option \<Rightarrow> kernel \<Rightarrow> (list_id, item_id) lists" where
  "event_value p v k = (case v of None \<Rightarrow> ls k | Some v \<Rightarrow> l_set_value (EventItem p) v (ls k))"

definition requeue :: "ptr \<Rightarrow> (tcb \<Rightarrow> tcb) \<Rightarrow> u32 option \<Rightarrow> kernel \<Rightarrow> kernel" where
  "requeue p f v k =
     (let T = (tcbs k)(p := f (tcbs k p)) in
      if cont_of k (StateItem p) = Some (ReadyL (unat (prio k p)))
      then prvAddTaskToReadyList p (k\<lparr>tcbs := T, ls := drop_item (StateItem p) (event_value p v k)\<rparr>)
      else k\<lparr>tcbs := T, ls := event_value p v k\<rparr>)"

lemma event_value_fields [simp]:
  "cont (event_value p v k) = cont_of k" "lst (event_value p v k) = lst (ls k)"
  by (simp_all add: event_value_def split: option.split)

lemma requeue_inv':
  assumes inv: "kinv Ls {} k" and n: "unat (uxPriority (f (tcbs k p))) < configMAX_PRIORITIES"
  shows "kinv Ls {} (requeue p f v k)"
proof -
  define k0 where "k0 = k\<lparr>ls := event_value p v k\<rparr>"
  have inv0: "kinv Ls {} k0"
    using kinv_set_value [OF inv, of "EventItem p"] inv by (simp add: k0_def event_value_def split: option.split)
  have c0: "cont_of k0 = cont_of k" "tcbs k0 = tcbs k" by (simp_all add: k0_def)
  show ?thesis
  proof (cases "cont_of k (StateItem p) = Some (ReadyL (unat (prio k p)))")
    case True
    have "kinv Ls {} (prvAddTaskToReadyList p (k0\<lparr>tcbs := (tcbs k0)(p := f (tcbs k0 p)),
         ls := drop_item (StateItem p) (ls k0)\<rparr>))"
      using requeue_inv [where f = f and n = "unat (prio k p)", OF inv0] True n c0 by simp
    then show ?thesis using True by (simp add: requeue_def k0_def Let_def)
  next
    case False
    then have c: "cont_of k0 (StateItem p) \<noteq> Some (ReadyL m)" for m
      using ready_place [OF inv, of "StateItem p" m] c0 by auto
    have "kinv_at (Suc (unat (xTickCount k0))) Ls {} (k0\<lparr>tcbs := (tcbs k0)(p := f (tcbs k0 p))\<rparr>)"
      by (rule kinv_upd_prio [where f = f, OF inv0 c]) (use n c0 in simp)
    moreover have "requeue p f v k = k0\<lparr>tcbs := (tcbs k0)(p := f (tcbs k0 p))\<rparr>"
      using False by (simp add: requeue_def k0_def Let_def)
    ultimately show ?thesis by (simp add: k0_def)
  qed
qed

lemma requeue_fields [simp]:
  "tcbs (requeue p f v k) = (tcbs k)(p := f (tcbs k p))" "xTickCount (requeue p f v k) = xTickCount k"
  "pxCurrentTCB (requeue p f v k) = pxCurrentTCB k" "uxSchedulerSuspended (requeue p f v k) = uxSchedulerSuspended k"
  "uxCurrentNumberOfTasks (requeue p f v k) = uxCurrentNumberOfTasks k"
  "uxPendedTicks (requeue p f v k) = uxPendedTicks k" "xYieldPending (requeue p f v k) = xYieldPending k"
  by (simp_all add: requeue_def Let_def)

lemma requeue_cont:
  assumes inv: "kinv_at lo Ls X k"
  shows "cont_of (requeue p f v k) = (if \<exists>m. cont_of k (StateItem p) = Some (ReadyL m)
      then (cont_of k)(StateItem p := Some (ReadyL (unat (uxPriority (f (tcbs k p)))))) else cont_of k)"
proof (cases "\<exists>m. cont_of k (StateItem p) = Some (ReadyL m)")
  case True
  then have "cont_of k (StateItem p) = Some (ReadyL (unat (prio k p)))" using ready_place [OF inv] by force
  then show ?thesis by (simp add: requeue_def Let_def)
next
  case False
  then have "cont_of k (StateItem p) \<noteq> Some (ReadyL (unat (prio k p)))" by blast
  with False show ?thesis by (simp add: requeue_def Let_def)
qed

subsection \<open>Inheriting\<close>

lemma tcbs_ls_swap: "k\<lparr>tcbs := T, ls := S\<rparr> = k\<lparr>ls := S, tcbs := T\<rparr>"
  by simp

definition if_free :: "kernel \<Rightarrow> ptr \<Rightarrow> u32 \<Rightarrow> u32 option" where
  "if_free k p v = (if val_of k (EventItem p) AND taskEVENT_LIST_ITEM_VALUE_IN_USE = 0 then Some v else None)"

lemma xTaskPriorityInherit_eq:
  "xTaskPriorityInherit h k =
     (if h = NULL then Some (False, k)
      else if prio k h < prio k (pxCurrentTCB k)
      then Some (True, requeue h (uxPriority_update (\<lambda>_. prio k (pxCurrentTCB k)))
             (if_free k h (6 - prio k (pxCurrentTCB k))) k)
      else Some (uxBasePriority (tcbs k h) < prio k (pxCurrentTCB k), k))"
  by (auto simp: xTaskPriorityInherit_def requeue_def event_value_def if_free_def Let_def k_remove_eq drop_set_value tcbs_ls_swap)

text \<open>The holder of a mutex runs at least at the priority of the task that waits for it.\<close>

theorem inherit_spec:
  assumes inv: "kinv Ls {} k" and h: "h \<noteq> NULL" and c: "unat (prio k (pxCurrentTCB k)) < configMAX_PRIORITIES"
  shows "\<exists>k'. xTaskPriorityInherit h k =
        Some (prio k h < prio k (pxCurrentTCB k) \<or> uxBasePriority (tcbs k h) < prio k (pxCurrentTCB k), k') \<and>
     kinv Ls {} k' \<and>
     tcbs k' = (tcbs k)(h := (tcbs k h)\<lparr>uxPriority := max (prio k h) (prio k (pxCurrentTCB k))\<rparr>) \<and>
     cont_of k' = (if \<exists>m. cont_of k (StateItem h) = Some (ReadyL m)
       then (cont_of k)(StateItem h := Some (ReadyL (unat (prio k' h)))) else cont_of k) \<and>
     pxCurrentTCB k' = pxCurrentTCB k \<and> xTickCount k' = xTickCount k \<and>
     uxSchedulerSuspended k' = uxSchedulerSuspended k \<and> uxPendedTicks k' = uxPendedTicks k \<and>
     uxCurrentNumberOfTasks k' = uxCurrentNumberOfTasks k"
proof (cases "prio k h < prio k (pxCurrentTCB k)")
  case True
  let ?f = "uxPriority_update (\<lambda>_. prio k (pxCurrentTCB k))" and ?v = "if_free k h (6 - prio k (pxCurrentTCB k))"
  have "kinv Ls {} (requeue h ?f ?v k)" using requeue_inv' [where f = ?f, OF inv] c by simp
  moreover have "max (prio k h) (prio k (pxCurrentTCB k)) = prio k (pxCurrentTCB k)" using True by (simp add: max_def less_imp_le)
  ultimately show ?thesis
    using True h requeue_cont [OF inv, of h ?f ?v]
    by (intro exI [of _ "requeue h ?f ?v k"]) (simp add: xTaskPriorityInherit_eq)
next
  case False
  have "cont_of k = (if \<exists>m. cont_of k (StateItem h) = Some (ReadyL m)
       then (cont_of k)(StateItem h := Some (ReadyL (unat (prio k h)))) else cont_of k)"
    using ready_place [OF inv, of "StateItem h"] by (auto simp: fun_eq_iff)
  moreover have "max (prio k h) (prio k (pxCurrentTCB k)) = prio k h" using False by (simp add: max_def)
  ultimately show ?thesis
    using False h inv by (intro exI [of _ k]) (simp add: xTaskPriorityInherit_eq fun_upd_idem)
qed

subsection \<open>Giving the mutex back\<close>

definition give_back :: "tcb \<Rightarrow> tcb" where
  "give_back t = (if uxMutexesHeld t = 1 then t\<lparr>uxMutexesHeld := 0, uxPriority := uxBasePriority t\<rparr>
     else t\<lparr>uxMutexesHeld := uxMutexesHeld t - 1\<rparr>)"

lemma last_mutex: "uxMutexesHeld t = 1 \<Longrightarrow> uxMutexesHeld_update (\<lambda>n. n - 1) t = t\<lparr>uxMutexesHeld := 0\<rparr>"
  by (cases t) simp

lemma give_back_other:
  "uxPriority t = uxBasePriority t \<or> uxMutexesHeld t \<noteq> 1 \<Longrightarrow> give_back t = uxMutexesHeld_update (\<lambda>n. n - 1) t"
  by (cases t) (auto simp: give_back_def)

theorem disinherit_spec:
  assumes inv: "kinv Ls {} k" and cur: "\<exists>m. cont_of k (StateItem (pxCurrentTCB k)) = Some (ReadyL m)"
    and h: "pxCurrentTCB k \<noteq> NULL" and m: "uxMutexesHeld (tcbs k (pxCurrentTCB k)) \<noteq> 0"
    and b: "unat (uxBasePriority (tcbs k (pxCurrentTCB k))) < configMAX_PRIORITIES"
  shows "\<exists>k'. xTaskPriorityDisinherit (pxCurrentTCB k) k =
        Some (prio k' (pxCurrentTCB k) \<noteq> prio k (pxCurrentTCB k), k') \<and> kinv Ls {} k' \<and>
     tcbs k' = (tcbs k)(pxCurrentTCB k := give_back (tcbs k (pxCurrentTCB k))) \<and>
     cont_of k' = (cont_of k)(StateItem (pxCurrentTCB k) := Some (ReadyL (unat (prio k' (pxCurrentTCB k))))) \<and>
     pxCurrentTCB k' = pxCurrentTCB k \<and> xTickCount k' = xTickCount k \<and>
     uxSchedulerSuspended k' = uxSchedulerSuspended k \<and> uxPendedTicks k' = uxPendedTicks k \<and>
     uxCurrentNumberOfTasks k' = uxCurrentNumberOfTasks k"
proof -
  let ?c = "pxCurrentTCB k"
  let ?t = "tcbs k ?c"
  have c: "cont_of k (StateItem ?c) = Some (ReadyL (unat (prio k ?c)))" using cur ready_place [OF inv] by force
  have pr: "unat (prio k ?c) < configMAX_PRIORITIES" using ready_place [OF inv c] by auto
  have g: "unat (uxPriority (give_back ?t)) < configMAX_PRIORITIES" using pr b by (simp add: give_back_def)
  show ?thesis
  proof (cases "prio k ?c \<noteq> uxBasePriority ?t \<and> uxMutexesHeld ?t = 1")
    case True
    let ?v = "Some (6 - uxBasePriority ?t)"
    have eq: "xTaskPriorityDisinherit ?c k = Some (True, requeue ?c give_back ?v k)"
      using True h m c by (simp add: xTaskPriorityDisinherit_def requeue_def k_remove_eq give_back_def
        event_value_def Let_def drop_set_value last_mutex tcbs_ls_swap)
    show ?thesis
      using eq True requeue_inv' [where f = give_back and p = ?c, OF inv g] requeue_cont [OF inv, of ?c give_back ?v] cur
      by (intro exI [of _ "requeue ?c give_back ?v k"]) (auto simp: give_back_def)
  next
    case False
    let ?k = "k\<lparr>tcbs := (tcbs k)(?c := give_back ?t)\<rparr>"
    have p: "uxPriority (give_back ?t) = prio k ?c" using False by (auto simp: give_back_def)
    have "xTaskPriorityDisinherit ?c k = Some (False, ?k)"
      using False h m give_back_other [of ?t] by (auto simp: xTaskPriorityDisinherit_def Let_def)
    moreover have "kinv Ls {} ?k" using kinv_upd_same [where f = give_back, OF inv p] by simp
    moreover have "(cont_of k)(StateItem ?c := Some (ReadyL (unat (prio k ?c)))) = cont_of k"
      using c by (auto simp: fun_eq_iff)
    ultimately show ?thesis using p by (intro exI [of _ ?k]) simp
  qed
qed

subsection \<open>Giving up waiting\<close>

theorem disinherit_after_timeout_spec:
  assumes inv: "kinv Ls {} k" and h: "h \<noteq> NULL" "h \<noteq> pxCurrentTCB k" and m: "uxMutexesHeld (tcbs k h) \<noteq> 0"
    and b: "unat (max (uxBasePriority (tcbs k h)) n) < configMAX_PRIORITIES"
  shows "\<exists>k'. vTaskPriorityDisinheritAfterTimeout h n k = Some k' \<and> kinv Ls {} k' \<and>
     tcbs k' = (tcbs k)(h := (tcbs k h)\<lparr>uxPriority :=
       (if uxMutexesHeld (tcbs k h) = 1 then max (uxBasePriority (tcbs k h)) n else prio k h)\<rparr>) \<and>
     cont_of k' = (if \<exists>m. cont_of k (StateItem h) = Some (ReadyL m)
       then (cont_of k)(StateItem h := Some (ReadyL (unat (prio k' h)))) else cont_of k) \<and>
     pxCurrentTCB k' = pxCurrentTCB k \<and> xTickCount k' = xTickCount k \<and>
     uxSchedulerSuspended k' = uxSchedulerSuspended k \<and> uxPendedTicks k' = uxPendedTicks k \<and>
     uxCurrentNumberOfTasks k' = uxCurrentNumberOfTasks k"
proof -
  let ?n = "max (uxBasePriority (tcbs k h)) n"
  have mx: "(if uxBasePriority (tcbs k h) < n then n else uxBasePriority (tcbs k h)) = ?n" by (auto simp: max_def dest: antisym)
  show ?thesis
  proof (cases "prio k h \<noteq> ?n \<and> uxMutexesHeld (tcbs k h) = 1")
    case True
    let ?f = "uxPriority_update (\<lambda>_. ?n)" and ?v = "if_free k h (6 - ?n)"
    have "vTaskPriorityDisinheritAfterTimeout h n k = Some (requeue h ?f ?v k)"
      unfolding vTaskPriorityDisinheritAfterTimeout_def mx Let_def using True h m
      by (auto simp: requeue_def event_value_def if_free_def Let_def k_remove_eq drop_set_value tcbs_ls_swap)
    then show ?thesis
      using True requeue_inv' [where f = ?f and p = h, OF inv] b requeue_cont [OF inv, of h ?f ?v]
      by (intro exI [of _ "requeue h ?f ?v k"]) simp
  next
    case False
    have "vTaskPriorityDisinheritAfterTimeout h n k = Some k"
      unfolding vTaskPriorityDisinheritAfterTimeout_def mx Let_def using False h m by auto
    moreover have "cont_of k = (if \<exists>m. cont_of k (StateItem h) = Some (ReadyL m)
       then (cont_of k)(StateItem h := Some (ReadyL (unat (prio k h)))) else cont_of k)"
      using ready_place [OF inv, of "StateItem h"] by (auto simp: fun_eq_iff)
    ultimately show ?thesis using False inv by (intro exI [of _ k]) (auto simp: fun_upd_idem)
  qed
qed

end
