(* ===== verification/System.thy ===== *)
theory System
  imports TaskEvents TaskMutex
begin

section \<open>The state of the system\<close>

text \<open>
  The objects that are built on the kernel live in stores indexed by their addresses, next to the
  kernel's own state; \<open>mem\<close> is the memory that holds the items of queues and the buffers of
  their users.  (The headers of the heap's blocks are in the heap's own store: the allocator's
  contract keeps them apart from what is inside the blocks.)  A call into the kernel changes the
  kernel's part only.
\<close>

record xQUEUE =
  pcHead :: ptr
  pcTail :: ptr
  pcWriteTo :: ptr
  u_word :: u32
  uxMessagesWaiting :: u32
  uxLength :: u32
  uxItemSize :: u32
  cRxLock :: u8
  cTxLock :: u8

text \<open>The macros that rename two fields in a mutex, and the two members of the union \<open>u\<close>.\<close>

abbreviation (input) pxMutexHolder :: "xQUEUE \<Rightarrow> ptr" where "pxMutexHolder \<equiv> pcTail"
abbreviation (input) uxQueueType :: "xQUEUE \<Rightarrow> ptr" where "uxQueueType \<equiv> pcHead"
abbreviation (input) pcReadFrom :: "xQUEUE \<Rightarrow> ptr" where "pcReadFrom \<equiv> u_word"
abbreviation (input) uxRecursiveCallCount :: "xQUEUE \<Rightarrow> u32" where "uxRecursiveCallCount \<equiv> u_word"
abbreviation (input) queueQUEUE_IS_MUTEX :: ptr where "queueQUEUE_IS_MUTEX \<equiv> NULL"

record StreamBuffer_t =
  xTail :: u32
  xHead :: u32
  xLength :: u32
  xTriggerLevelBytes :: u32
  xTaskWaitingToReceive :: ptr
  xTaskWaitingToSend :: ptr
  pucBuffer :: ptr
  ucFlags :: u8

record EventGroup_t =
  uxEventBits :: u32

record xTIMER =
  pcTimerName :: ptr
  xTimerPeriodInTicks :: u32
  uxAutoReload :: u32
  pvTimerID :: ptr
  pxCallbackFunction :: ptr

text \<open>The last fields are the static variables of \<open>timers.c\<close>; \<open>xLastTime\<close> is the one of
  \<open>prvSampleTimeNow\<close>.\<close>

record sys =
  kern :: kernel
  queues :: "ptr \<Rightarrow> xQUEUE"
  mem :: "ptr \<Rightarrow> u8"
  streams :: "ptr \<Rightarrow> StreamBuffer_t"
  groups :: "ptr \<Rightarrow> EventGroup_t"
  timers :: "ptr \<Rightarrow> xTIMER"
  pxCurrentTimerList :: list_id
  pxOverflowTimerList :: list_id
  xTimerQueue :: ptr
  xTimerTaskHandle :: ptr
  xLastTime :: u32

definition on_kern :: "(kernel \<Rightarrow> kernel option) \<Rightarrow> sys \<Rightarrow> sys option" where
  "on_kern f s = do { k \<leftarrow> f (kern s); Some (s\<lparr>kern := k\<rparr>) }"

definition on_kern_r :: "(kernel \<Rightarrow> ('r \<times> kernel) option) \<Rightarrow> sys \<Rightarrow> ('r \<times> sys) option" where
  "on_kern_r f s = do { (r, k) \<leftarrow> f (kern s); Some (r, s\<lparr>kern := k\<rparr>) }"

definition upd_queue :: "ptr \<Rightarrow> (xQUEUE \<Rightarrow> xQUEUE) \<Rightarrow> sys \<Rightarrow> sys" where
  "upd_queue q f s = s\<lparr>queues := (queues s)(q := f (queues s q))\<rparr>"

text \<open>\<open>memcpy\<close>, for regions that do not overlap.\<close>

definition memcpy :: "ptr \<Rightarrow> ptr \<Rightarrow> u32 \<Rightarrow> (ptr \<Rightarrow> u8) \<Rightarrow> ptr \<Rightarrow> u8" where
  "memcpy dst src n m = (\<lambda>a. if a - dst < n then m (src + (a - dst)) else m a)"

definition bytes :: "ptr \<Rightarrow> u32 \<Rightarrow> (ptr \<Rightarrow> u8) \<Rightarrow> u8 list" where
  "bytes p n m = map (\<lambda>i. m (p + of_nat i)) [0..<unat n]"

definition put_bytes :: "ptr \<Rightarrow> u8 list \<Rightarrow> (ptr \<Rightarrow> u8) \<Rightarrow> ptr \<Rightarrow> u8" where
  "put_bytes p bs m = (\<lambda>a. if unat (a - p) < length bs then bs ! unat (a - p) else m a)"

text \<open>The four bytes of a word in memory, the least significant first.\<close>

definition word_bytes :: "u32 \<Rightarrow> u8 list" where
  "word_bytes w = map (\<lambda>i. ucast (drop_bit (8 * i) w)) [0..<4]"

definition bytes_word :: "u8 list \<Rightarrow> u32" where
  "bytes_word bs = foldr (\<lambda>b w. ucast b OR push_bit 8 w) (take 4 bs) 0"

text \<open>\<open>pvPortMalloc\<close> and \<open>vPortFree\<close> work on the heap with the scheduler suspended.\<close>

definition pvPortMalloc :: "u32 \<Rightarrow> kernel \<Rightarrow> (ptr \<times> kernel) option" where
  "pvPortMalloc xWantedSize k =
     do {
       let k = vTaskSuspendAll k;
       (pvReturn, h) \<leftarrow> heap_malloc xWantedSize (heap k);
       (y, k) \<leftarrow> xTaskResumeAll (k\<lparr>heap := h\<rparr>);
       Some (pvReturn, k)
     }"

definition vPortFree :: "ptr \<Rightarrow> kernel \<Rightarrow> kernel option" where
  "vPortFree pv k =
     (if pv \<noteq> NULL then
        do {
          let k = vTaskSuspendAll k;
          h \<leftarrow> heap_free pv (heap k);
          (y, k) \<leftarrow> xTaskResumeAll (k\<lparr>heap := h\<rparr>);
          Some k
        }
      else Some k)"

lemma on_kern_Some: "f (kern s) = Some k \<Longrightarrow> on_kern f s = Some (s\<lparr>kern := k\<rparr>)"
  by (simp add: on_kern_def)

lemma on_kern_r_Some: "f (kern s) = Some (r, k) \<Longrightarrow> on_kern_r f s = Some (r, s\<lparr>kern := k\<rparr>)"
  by (simp add: on_kern_r_def)

lemma upd_queue_fields [simp]:
  "kern (upd_queue q f s) = kern s" "mem (upd_queue q f s) = mem s"
  "queues (upd_queue q f s) = (queues s)(q := f (queues s q))"
  by (simp_all add: upd_queue_def)

lemma bytes_length [simp]: "length (bytes p n m) = unat n"
  by (simp add: bytes_def)

lemma word_bytes_length [simp]: "length (word_bytes w) = 4"
  by (simp add: word_bytes_def)

lemma bytes_word_bytes [simp]: "bytes_word (word_bytes w @ bs) = w"
proof -
  have "word_bytes w = [ucast w, ucast (drop_bit 8 w), ucast (drop_bit 16 w), ucast (drop_bit 24 w)]"
    by (simp add: word_bytes_def upt_conv_Cons)
  then have "bytes_word (word_bytes w @ bs) = ucast (ucast w :: u8) OR push_bit 8 (ucast (ucast (drop_bit 8 w) :: u8) OR
      push_bit 8 (ucast (ucast (drop_bit 16 w) :: u8) OR push_bit 8 (ucast (ucast (drop_bit 24 w) :: u8))))"
    by (simp add: bytes_word_def)
  also have "\<dots> = w"
  proof (rule bit_word_eqI)
    fix n assume "n < LENGTH(32)"
    then show "bit (ucast (ucast w :: u8) OR push_bit 8 (ucast (ucast (drop_bit 8 w) :: u8) OR
      push_bit 8 (ucast (ucast (drop_bit 16 w) :: u8) OR push_bit 8 (ucast (ucast (drop_bit 24 w) :: u8)))) :: u32) n = bit w n"
      by (cases "n < 8"; cases "n < 16"; cases "n < 24") (auto simp: bit_simps)
  qed
  finally show ?thesis .
qed

end
