(* ===== verification/Queue.thy ===== *)
theory Queue
  imports System
begin

section \<open>Queues, semaphores and mutexes (FreeRtos/queue.c)\<close>

text \<open>
  A queue is a ring of \<open>uxLength\<close> slots of \<open>uxItemSize\<close> bytes each; a semaphore is a queue of
  items of size 0, a mutex is a semaphore of length 1 whose \<open>pcHead\<close> is NULL and whose \<open>pcTail\<close> is
  the holder.  Each blocking call is a loop: a critical section that tries (\<open>_try\<close>), and, when it
  has to wait, a section with the scheduler suspended (\<open>_wait\<close>), after which the loop starts
  again, at once or when the caller has been woken.  Other tasks may run wherever one of these
  parts ends.  What a call keeps in its local variables
  meanwhile, the ticks left and the time-out state, is an argument and a result.
\<close>

datatype outcome =
    Return bool
  | Leave u32 TimeOut_t
  | Expired u32 TimeOut_t
  | Again u32 TimeOut_t

datatype copy_position = queueSEND_TO_BACK | queueSEND_TO_FRONT | queueOVERWRITE

definition queueUNLOCKED :: u8 where "queueUNLOCKED = - 1"
definition queueLOCKED_UNMODIFIED :: u8 where "queueLOCKED_UNMODIFIED = 0"

definition sizeof_Queue_t :: u32 where "sizeof_Queue_t = 72"

subsection \<open>Copying items\<close>

definition prvCopyDataToQueue :: "ptr \<Rightarrow> ptr \<Rightarrow> copy_position \<Rightarrow> sys \<Rightarrow> (bool \<times> sys) option" where
  "prvCopyDataToQueue q pvItemToQueue xPosition s =
     do {
       let Q = queues s q;
       (xReturn, uxMessages, s) \<leftarrow>
         (if uxItemSize Q = 0 then
            (if uxQueueType Q = queueQUEUE_IS_MUTEX then
               do {
                 (b, s) \<leftarrow> on_kern_r (xTaskPriorityDisinherit (pxMutexHolder Q)) s;
                 Some (b, uxMessagesWaiting Q, upd_queue q (pcTail_update (\<lambda>_. NULL)) s)
               }
             else Some (False, uxMessagesWaiting Q, s))
          else if xPosition = queueSEND_TO_BACK then
            (let s = s\<lparr>mem := memcpy (pcWriteTo Q) pvItemToQueue (uxItemSize Q) (mem s)\<rparr>;
                 w = pcWriteTo Q + uxItemSize Q;
                 w = (if w \<ge> pcTail Q then pcHead Q else w)
             in Some (False, uxMessagesWaiting Q, upd_queue q (pcWriteTo_update (\<lambda>_. w)) s))
          else
            (let s = s\<lparr>mem := memcpy (pcReadFrom Q) pvItemToQueue (uxItemSize Q) (mem s)\<rparr>;
                 r = pcReadFrom Q - uxItemSize Q;
                 r = (if r < pcHead Q then pcTail Q - uxItemSize Q else r);
                 n = (if xPosition = queueOVERWRITE
                      then (if uxMessagesWaiting Q > 0 then uxMessagesWaiting Q - 1 else uxMessagesWaiting Q)
                      else uxMessagesWaiting Q)
             in Some (False, n, upd_queue q (u_word_update (\<lambda>_. r)) s)));
       Some (xReturn, upd_queue q (uxMessagesWaiting_update (\<lambda>_. uxMessages + 1)) s)
     }"

definition prvCopyDataFromQueue :: "ptr \<Rightarrow> ptr \<Rightarrow> sys \<Rightarrow> sys" where
  "prvCopyDataFromQueue q pvBuffer s =
     (let Q = queues s q in
      if uxItemSize Q \<noteq> 0 then
        (let r = pcReadFrom Q + uxItemSize Q;
             r = (if r \<ge> pcTail Q then pcHead Q else r)
         in upd_queue q (u_word_update (\<lambda>_. r)) (s\<lparr>mem := memcpy pvBuffer r (uxItemSize Q) (mem s)\<rparr>))
      else s)"

definition prvIsQueueEmpty :: "ptr \<Rightarrow> sys \<Rightarrow> bool" where
  "prvIsQueueEmpty q s = (uxMessagesWaiting (queues s q) = 0)"

definition prvIsQueueFull :: "ptr \<Rightarrow> sys \<Rightarrow> bool" where
  "prvIsQueueFull q s = (uxMessagesWaiting (queues s q) = uxLength (queues s q))"

subsection \<open>Locking\<close>

definition prvLockQueue :: "ptr \<Rightarrow> sys \<Rightarrow> sys" where
  "prvLockQueue q s =
     (let s = (if cRxLock (queues s q) = queueUNLOCKED
               then upd_queue q (cRxLock_update (\<lambda>_. queueLOCKED_UNMODIFIED)) s else s)
      in if cTxLock (queues s q) = queueUNLOCKED
         then upd_queue q (cTxLock_update (\<lambda>_. queueLOCKED_UNMODIFIED)) s else s)"

text \<open>The two loops of \<open>prvUnlockQueue\<close>; the lock counts are signed bytes.\<close>

partial_function (option) unlock_wake :: "list_id \<Rightarrow> u8 \<Rightarrow> kernel \<Rightarrow> kernel option" where
  "unlock_wake l c k =
     (if sint c > 0 then
        (if items k l \<noteq> [] then
           do {
             (b, k) \<leftarrow> xTaskRemoveFromEventList l k;
             unlock_wake l (c - 1) (if b then vTaskMissedYield k else k)
           }
         else Some k)
      else Some k)"

definition prvUnlockQueue :: "ptr \<Rightarrow> sys \<Rightarrow> sys option" where
  "prvUnlockQueue q s =
     do {
       s \<leftarrow> on_kern (unlock_wake (WaitReceiveL q) (cTxLock (queues s q))) s;
       let s = upd_queue q (cTxLock_update (\<lambda>_. queueUNLOCKED)) s;
       s \<leftarrow> on_kern (unlock_wake (WaitSendL q) (cRxLock (queues s q))) s;
       Some (upd_queue q (cRxLock_update (\<lambda>_. queueUNLOCKED)) s)
     }"

text \<open>The ends of a section with the scheduler suspended: blocking on a list of the queue, or not.\<close>

definition block_on :: "ptr \<Rightarrow> list_id \<Rightarrow> u32 \<Rightarrow> sys \<Rightarrow> sys option" where
  "block_on q l xTicksToWait s =
     do {
       s \<leftarrow> on_kern (vTaskPlaceOnEventList l xTicksToWait) s;
       s \<leftarrow> prvUnlockQueue q s;
       (xAlreadyYielded, s) \<leftarrow> on_kern_r xTaskResumeAll s;
       (if \<not> xAlreadyYielded then on_kern portYIELD_WITHIN_API s else Some s)
     }"

definition stop_waiting_on :: "ptr \<Rightarrow> sys \<Rightarrow> sys option" where
  "stop_waiting_on q s =
     do { s \<leftarrow> prvUnlockQueue q s; (y, s) \<leftarrow> on_kern_r xTaskResumeAll s; Some s }"

text \<open>Waking the first task of a list, if there is one; the flag says whether to yield.\<close>

definition wake_first :: "list_id \<Rightarrow> kernel \<Rightarrow> (bool \<times> kernel) option" where
  "wake_first l k = (if items k l \<noteq> [] then xTaskRemoveFromEventList l k else Some (False, k))"

definition wake_and_yield :: "list_id \<Rightarrow> sys \<Rightarrow> sys option" where
  "wake_and_yield l s =
     do { (b, s) \<leftarrow> on_kern_r (wake_first l) s; (if b then on_kern portYIELD_WITHIN_API s else Some s) }"

subsection \<open>Creation\<close>

definition xQueueGenericReset :: "ptr \<Rightarrow> bool \<Rightarrow> sys \<Rightarrow> sys option" where
  "xQueueGenericReset q xNewQueue s =
     do {
       configASSERT (q \<noteq> NULL);
       let s = upd_queue q (\<lambda>Q. Q\<lparr>pcTail := pcHead Q + uxLength Q * uxItemSize Q, uxMessagesWaiting := 0,
                  pcWriteTo := pcHead Q, u_word := pcHead Q + (uxLength Q - 1) * uxItemSize Q,
                  cRxLock := queueUNLOCKED, cTxLock := queueUNLOCKED\<rparr>) s;
       (if \<not> xNewQueue then
          (if items (kern s) (WaitSendL q) \<noteq> [] then wake_and_yield (WaitSendL q) s else Some s)
        else Some (s\<lparr>kern := (kern s)\<lparr>ls := l_initialise (WaitReceiveL q) (l_initialise (WaitSendL q) (ls (kern s)))\<rparr>\<rparr>))
     }"

definition prvInitialiseNewQueue :: "u32 \<Rightarrow> u32 \<Rightarrow> ptr \<Rightarrow> ptr \<Rightarrow> sys \<Rightarrow> sys option" where
  "prvInitialiseNewQueue uxQueueLength uxSize pucQueueStorage pxNewQueue s =
     (let s = upd_queue pxNewQueue (pcHead_update (\<lambda>_. if uxSize = 0 then pxNewQueue else pucQueueStorage)) s;
          s = upd_queue pxNewQueue (\<lambda>Q. Q\<lparr>uxLength := uxQueueLength, uxItemSize := uxSize\<rparr>) s
      in xQueueGenericReset pxNewQueue True s)"

definition xQueueGenericCreate :: "u32 \<Rightarrow> u32 \<Rightarrow> sys \<Rightarrow> (ptr \<times> sys) option" where
  "xQueueGenericCreate uxQueueLength uxSize s =
     do {
       configASSERT (uxQueueLength > 0);
       let xQueueSizeInBytes = (if uxSize = 0 then 0 else uxQueueLength * uxSize);
       (pxNewQueue, s) \<leftarrow> on_kern_r (pvPortMalloc (sizeof_Queue_t + xQueueSizeInBytes)) s;
       (if pxNewQueue \<noteq> NULL then
          do {
            s \<leftarrow> prvInitialiseNewQueue uxQueueLength uxSize (pxNewQueue + sizeof_Queue_t) pxNewQueue s;
            Some (pxNewQueue, s)
          }
        else Some (NULL, s))
     }"

definition xQueueCreateCountingSemaphore :: "u32 \<Rightarrow> u32 \<Rightarrow> sys \<Rightarrow> (ptr \<times> sys) option" where
  "xQueueCreateCountingSemaphore uxMaxCount uxInitialCount s =
     do {
       configASSERT (uxMaxCount \<noteq> 0);
       configASSERT (uxInitialCount \<le> uxMaxCount);
       (xHandle, s) \<leftarrow> xQueueGenericCreate uxMaxCount 0 s;
       Some (xHandle, if xHandle \<noteq> NULL then upd_queue xHandle (uxMessagesWaiting_update (\<lambda>_. uxInitialCount)) s else s)
     }"

definition vQueueDelete :: "ptr \<Rightarrow> sys \<Rightarrow> sys option" where
  "vQueueDelete q s = do { configASSERT (q \<noteq> NULL); on_kern (vPortFree q) s }"

subsection \<open>Sending\<close>

text \<open>The part of a send inside the critical section when there is room.\<close>

definition send_now :: "ptr \<Rightarrow> ptr \<Rightarrow> copy_position \<Rightarrow> sys \<Rightarrow> sys option" where
  "send_now q pvItemToQueue xCopyPosition s =
     do {
       (xYieldRequired, s) \<leftarrow> prvCopyDataToQueue q pvItemToQueue xCopyPosition s;
       (if items (kern s) (WaitReceiveL q) \<noteq> [] then wake_and_yield (WaitReceiveL q) s
        else if xYieldRequired then on_kern portYIELD_WITHIN_API s else Some s)
     }"

definition set_time_out :: "TimeOut_t option \<Rightarrow> kernel \<Rightarrow> TimeOut_t" where
  "set_time_out xTimeOut k = (case xTimeOut of None \<Rightarrow> vTaskInternalSetTimeOutState k | Some t \<Rightarrow> t)"

definition send_try :: "ptr \<Rightarrow> ptr \<Rightarrow> copy_position \<Rightarrow> u32 \<Rightarrow> TimeOut_t option \<Rightarrow> sys \<Rightarrow> (outcome \<times> sys) option" where
  "send_try q pvItemToQueue xCopyPosition xTicksToWait xTimeOut s =
     (if uxMessagesWaiting (queues s q) < uxLength (queues s q) \<or> xCopyPosition = queueOVERWRITE
      then do { s \<leftarrow> send_now q pvItemToQueue xCopyPosition s; Some (Return True, s) }
      else if xTicksToWait = 0 then Some (Return False, s)
      else Some (Leave xTicksToWait (set_time_out xTimeOut (kern s)), s))"

definition send_wait :: "ptr \<Rightarrow> u32 \<Rightarrow> TimeOut_t \<Rightarrow> sys \<Rightarrow> (outcome \<times> sys) option" where
  "send_wait q xTicksToWait xTimeOut s =
     do {
       let s = s\<lparr>kern := vTaskSuspendAll (kern s)\<rparr>;
       let s = prvLockQueue q s;
       let (expired, xTimeOut, xTicksToWait) = xTaskCheckForTimeOut xTimeOut xTicksToWait (kern s);
       (if \<not> expired then
          do {
            s \<leftarrow> (if prvIsQueueFull q s then block_on q (WaitSendL q) xTicksToWait s else stop_waiting_on q s);
            Some (Again xTicksToWait xTimeOut, s)
          }
        else do { s \<leftarrow> stop_waiting_on q s; Some (Return False, s) })
     }"

text \<open>The assertions on entry.\<close>

definition may_wait :: "u32 \<Rightarrow> kernel \<Rightarrow> bool" where
  "may_wait xTicksToWait k = (\<not> (xTaskGetSchedulerState k = taskSCHEDULER_SUSPENDED \<and> xTicksToWait \<noteq> 0))"

definition send_asserts :: "ptr \<Rightarrow> ptr \<Rightarrow> copy_position \<Rightarrow> sys \<Rightarrow> unit option" where
  "send_asserts q pvItemToQueue xCopyPosition s =
     do {
       configASSERT (q \<noteq> NULL);
       configASSERT (\<not> (pvItemToQueue = NULL \<and> uxItemSize (queues s q) \<noteq> 0));
       configASSERT (\<not> (xCopyPosition = queueOVERWRITE \<and> uxLength (queues s q) \<noteq> 1))
     }"

text \<open>The first pass of the loop of \<open>xQueueGenericSend\<close>; each later pass is \<open>send_pass\<close> with what
  \<open>Again\<close> holds.\<close>

definition send_pass :: "ptr \<Rightarrow> ptr \<Rightarrow> copy_position \<Rightarrow> u32 \<Rightarrow> TimeOut_t option \<Rightarrow> sys \<Rightarrow> (outcome \<times> sys) option" where
  "send_pass q pvItemToQueue xCopyPosition xTicksToWait xTimeOut s =
     do {
       (r, s) \<leftarrow> send_try q pvItemToQueue xCopyPosition xTicksToWait xTimeOut s;
       (case r of Leave w t \<Rightarrow> send_wait q w t s | _ \<Rightarrow> Some (r, s))
     }"

definition xQueueGenericSend :: "ptr \<Rightarrow> ptr \<Rightarrow> u32 \<Rightarrow> copy_position \<Rightarrow> sys \<Rightarrow> (outcome \<times> sys) option" where
  "xQueueGenericSend q pvItemToQueue xTicksToWait xCopyPosition s =
     do {
       send_asserts q pvItemToQueue xCopyPosition s;
       configASSERT (may_wait xTicksToWait (kern s));
       send_pass q pvItemToQueue xCopyPosition xTicksToWait None s
     }"

text \<open>The versions for interrupts: a flag \<open>*pxHigherPriorityTaskWoken\<close> that is only ever set, or no
  flag; while the queue is locked they count, for \<open>prvUnlockQueue\<close> to make up for.\<close>

definition wake_from_isr :: "list_id \<Rightarrow> bool option \<Rightarrow> sys \<Rightarrow> (bool option \<times> sys) option" where
  "wake_from_isr l pxHigherPriorityTaskWoken s =
     do {
       (b, s) \<leftarrow> on_kern_r (wake_first l) s;
       Some (if b \<and> pxHigherPriorityTaskWoken \<noteq> None then Some True else pxHigherPriorityTaskWoken, s)
     }"

definition xQueueGenericSendFromISR ::
    "ptr \<Rightarrow> ptr \<Rightarrow> bool option \<Rightarrow> copy_position \<Rightarrow> sys \<Rightarrow> (bool \<times> bool option \<times> sys) option" where
  "xQueueGenericSendFromISR q pvItemToQueue pxHigherPriorityTaskWoken xCopyPosition s =
     do {
       send_asserts q pvItemToQueue xCopyPosition s;
       (if uxMessagesWaiting (queues s q) < uxLength (queues s q) \<or> xCopyPosition = queueOVERWRITE then
          do {
            let cTx = cTxLock (queues s q);
            (b, s) \<leftarrow> prvCopyDataToQueue q pvItemToQueue xCopyPosition s;
            (woken, s) \<leftarrow>
              (if cTx = queueUNLOCKED then wake_from_isr (WaitReceiveL q) pxHigherPriorityTaskWoken s
               else Some (pxHigherPriorityTaskWoken, upd_queue q (cTxLock_update (\<lambda>_. cTx + 1)) s));
            Some (True, woken, s)
          }
        else Some (False, pxHigherPriorityTaskWoken, s))
     }"

definition xQueueGiveFromISR :: "ptr \<Rightarrow> bool option \<Rightarrow> sys \<Rightarrow> (bool \<times> bool option \<times> sys) option" where
  "xQueueGiveFromISR q pxHigherPriorityTaskWoken s =
     do {
       configASSERT (q \<noteq> NULL);
       configASSERT (uxItemSize (queues s q) = 0);
       configASSERT (\<not> (uxQueueType (queues s q) = queueQUEUE_IS_MUTEX \<and> pxMutexHolder (queues s q) \<noteq> NULL));
       let uxMessages = uxMessagesWaiting (queues s q);
       (if uxMessages < uxLength (queues s q) then
          do {
            let cTx = cTxLock (queues s q);
            let s = upd_queue q (uxMessagesWaiting_update (\<lambda>_. uxMessages + 1)) s;
            (woken, s) \<leftarrow>
              (if cTx = queueUNLOCKED then wake_from_isr (WaitReceiveL q) pxHigherPriorityTaskWoken s
               else Some (pxHigherPriorityTaskWoken, upd_queue q (cTxLock_update (\<lambda>_. cTx + 1)) s));
            Some (True, woken, s)
          }
        else Some (False, pxHigherPriorityTaskWoken, s))
     }"

subsection \<open>Receiving\<close>

definition receive_now :: "ptr \<Rightarrow> ptr \<Rightarrow> sys \<Rightarrow> sys option" where
  "receive_now q pvBuffer s =
     do {
       let uxMessages = uxMessagesWaiting (queues s q);
       let s = prvCopyDataFromQueue q pvBuffer s;
       let s = upd_queue q (uxMessagesWaiting_update (\<lambda>_. uxMessages - 1)) s;
       (if items (kern s) (WaitSendL q) \<noteq> [] then wake_and_yield (WaitSendL q) s else Some s)
     }"

definition receive_try :: "ptr \<Rightarrow> ptr \<Rightarrow> u32 \<Rightarrow> TimeOut_t option \<Rightarrow> sys \<Rightarrow> (outcome \<times> sys) option" where
  "receive_try q pvBuffer xTicksToWait xTimeOut s =
     (if uxMessagesWaiting (queues s q) > 0
      then do { s \<leftarrow> receive_now q pvBuffer s; Some (Return True, s) }
      else if xTicksToWait = 0 then Some (Return False, s)
      else Some (Leave xTicksToWait (set_time_out xTimeOut (kern s)), s))"

definition receive_wait :: "ptr \<Rightarrow> u32 \<Rightarrow> TimeOut_t \<Rightarrow> sys \<Rightarrow> (outcome \<times> sys) option" where
  "receive_wait q xTicksToWait xTimeOut s =
     do {
       let s = s\<lparr>kern := vTaskSuspendAll (kern s)\<rparr>;
       let s = prvLockQueue q s;
       let (expired, xTimeOut, xTicksToWait) = xTaskCheckForTimeOut xTimeOut xTicksToWait (kern s);
       (if \<not> expired then
          do {
            s \<leftarrow> (if prvIsQueueEmpty q s then block_on q (WaitReceiveL q) xTicksToWait s else stop_waiting_on q s);
            Some (Again xTicksToWait xTimeOut, s)
          }
        else
          do {
            s \<leftarrow> stop_waiting_on q s;
            Some (Expired xTicksToWait xTimeOut, s)
          })
     }"

text \<open>After the time-out, and after the scheduler has been resumed, the queue is looked at again.\<close>

definition receive_expired :: "ptr \<Rightarrow> u32 \<Rightarrow> TimeOut_t \<Rightarrow> sys \<Rightarrow> outcome" where
  "receive_expired q xTicksToWait xTimeOut s =
     (if prvIsQueueEmpty q s then Return False else Again xTicksToWait xTimeOut)"

definition receive_pass :: "ptr \<Rightarrow> ptr \<Rightarrow> u32 \<Rightarrow> TimeOut_t option \<Rightarrow> sys \<Rightarrow> (outcome \<times> sys) option" where
  "receive_pass q pvBuffer xTicksToWait xTimeOut s =
     do {
       (r, s) \<leftarrow> receive_try q pvBuffer xTicksToWait xTimeOut s;
       (case r of Leave w t \<Rightarrow> receive_wait q w t s | _ \<Rightarrow> Some (r, s))
     }"

definition receive_asserts :: "ptr \<Rightarrow> ptr \<Rightarrow> sys \<Rightarrow> unit option" where
  "receive_asserts q pvBuffer s =
     do {
       configASSERT (q \<noteq> NULL);
       configASSERT (\<not> (pvBuffer = NULL \<and> uxItemSize (queues s q) \<noteq> 0))
     }"

definition xQueueReceive :: "ptr \<Rightarrow> ptr \<Rightarrow> u32 \<Rightarrow> sys \<Rightarrow> (outcome \<times> sys) option" where
  "xQueueReceive q pvBuffer xTicksToWait s =
     do {
       receive_asserts q pvBuffer s;
       configASSERT (may_wait xTicksToWait (kern s));
       receive_pass q pvBuffer xTicksToWait None s
     }"

definition xQueueReceiveFromISR :: "ptr \<Rightarrow> ptr \<Rightarrow> bool option \<Rightarrow> sys \<Rightarrow> (bool \<times> bool option \<times> sys) option" where
  "xQueueReceiveFromISR q pvBuffer pxHigherPriorityTaskWoken s =
     do {
       receive_asserts q pvBuffer s;
       let uxMessages = uxMessagesWaiting (queues s q);
       (if uxMessages > 0 then
          do {
            let cRx = cRxLock (queues s q);
            let s = prvCopyDataFromQueue q pvBuffer s;
            let s = upd_queue q (uxMessagesWaiting_update (\<lambda>_. uxMessages - 1)) s;
            (woken, s) \<leftarrow>
              (if cRx = queueUNLOCKED then wake_from_isr (WaitSendL q) pxHigherPriorityTaskWoken s
               else Some (pxHigherPriorityTaskWoken, upd_queue q (cRxLock_update (\<lambda>_. cRx + 1)) s));
            Some (True, woken, s)
          }
        else Some (False, pxHigherPriorityTaskWoken, s))
     }"

subsection \<open>Peeking\<close>

definition peek_now :: "ptr \<Rightarrow> ptr \<Rightarrow> sys \<Rightarrow> sys option" where
  "peek_now q pvBuffer s =
     do {
       let pcOriginalReadPosition = pcReadFrom (queues s q);
       let s = prvCopyDataFromQueue q pvBuffer s;
       let s = upd_queue q (u_word_update (\<lambda>_. pcOriginalReadPosition)) s;
       (if items (kern s) (WaitReceiveL q) \<noteq> [] then wake_and_yield (WaitReceiveL q) s else Some s)
     }"

definition peek_try :: "ptr \<Rightarrow> ptr \<Rightarrow> u32 \<Rightarrow> TimeOut_t option \<Rightarrow> sys \<Rightarrow> (outcome \<times> sys) option" where
  "peek_try q pvBuffer xTicksToWait xTimeOut s =
     (if uxMessagesWaiting (queues s q) > 0
      then do { s \<leftarrow> peek_now q pvBuffer s; Some (Return True, s) }
      else if xTicksToWait = 0 then Some (Return False, s)
      else Some (Leave xTicksToWait (set_time_out xTimeOut (kern s)), s))"

text \<open>The waiting part of the loop of \<open>xQueuePeek\<close> is the one of \<open>xQueueReceive\<close>.\<close>

definition xQueuePeek_pass :: "ptr \<Rightarrow> ptr \<Rightarrow> u32 \<Rightarrow> TimeOut_t option \<Rightarrow> sys \<Rightarrow> (outcome \<times> sys) option" where
  "xQueuePeek_pass q pvBuffer xTicksToWait xTimeOut s =
     do {
       (r, s) \<leftarrow> peek_try q pvBuffer xTicksToWait xTimeOut s;
       (case r of Leave w t \<Rightarrow> receive_wait q w t s | _ \<Rightarrow> Some (r, s))
     }"

definition xQueuePeek :: "ptr \<Rightarrow> ptr \<Rightarrow> u32 \<Rightarrow> sys \<Rightarrow> (outcome \<times> sys) option" where
  "xQueuePeek q pvBuffer xTicksToWait s =
     do {
       receive_asserts q pvBuffer s;
       configASSERT (may_wait xTicksToWait (kern s));
       xQueuePeek_pass q pvBuffer xTicksToWait None s
     }"

definition xQueuePeekFromISR :: "ptr \<Rightarrow> ptr \<Rightarrow> sys \<Rightarrow> (bool \<times> sys) option" where
  "xQueuePeekFromISR q pvBuffer s =
     do {
       receive_asserts q pvBuffer s;
       configASSERT (uxItemSize (queues s q) \<noteq> 0);
       Some (if uxMessagesWaiting (queues s q) > 0 then
               (let pcOriginalReadPosition = pcReadFrom (queues s q)
                in (True, upd_queue q (u_word_update (\<lambda>_. pcOriginalReadPosition)) (prvCopyDataFromQueue q pvBuffer s)))
             else (False, s))
     }"

definition uxQueueMessagesWaiting :: "ptr \<Rightarrow> sys \<Rightarrow> u32 option" where
  "uxQueueMessagesWaiting q s = do { configASSERT (q \<noteq> NULL); Some (uxMessagesWaiting (queues s q)) }"

definition uxQueueSpacesAvailable :: "ptr \<Rightarrow> sys \<Rightarrow> u32 option" where
  "uxQueueSpacesAvailable q s =
     do { configASSERT (q \<noteq> NULL); Some (uxLength (queues s q) - uxMessagesWaiting (queues s q)) }"

definition uxQueueMessagesWaitingFromISR :: "ptr \<Rightarrow> sys \<Rightarrow> u32 option" where
  "uxQueueMessagesWaitingFromISR q s = do { configASSERT (q \<noteq> NULL); Some (uxMessagesWaiting (queues s q)) }"

definition xQueueIsQueueEmptyFromISR :: "ptr \<Rightarrow> sys \<Rightarrow> bool option" where
  "xQueueIsQueueEmptyFromISR q s = do { configASSERT (q \<noteq> NULL); Some (uxMessagesWaiting (queues s q) = 0) }"

definition xQueueIsQueueFullFromISR :: "ptr \<Rightarrow> sys \<Rightarrow> bool option" where
  "xQueueIsQueueFullFromISR q s =
     do { configASSERT (q \<noteq> NULL); Some (uxMessagesWaiting (queues s q) = uxLength (queues s q)) }"

text \<open>For the timer task: it blocks on a locked queue without a loop and without a yield.\<close>

definition vQueueWaitForMessageRestricted :: "ptr \<Rightarrow> u32 \<Rightarrow> bool \<Rightarrow> sys \<Rightarrow> sys option" where
  "vQueueWaitForMessageRestricted q xTicksToWait xWaitIndefinitely s =
     do {
       let s = prvLockQueue q s;
       s \<leftarrow> (if uxMessagesWaiting (queues s q) = 0
            then on_kern (vTaskPlaceOnEventListRestricted (WaitReceiveL q) xTicksToWait xWaitIndefinitely) s
            else Some s);
       prvUnlockQueue q s
     }"

end
