(* ===== verification/Tasks.thy ===== *)
theory Tasks
  imports System
begin

section \<open>Creating and deleting tasks, starting the scheduler (FreeRtos/tasks.c)\<close>

definition configMAX_TASK_NAME_LEN :: nat where "configMAX_TASK_NAME_LEN = 16"
definition configMINIMAL_STACK_SIZE :: "16 word" where "configMINIMAL_STACK_SIZE = 256"
definition sizeof_StackType_t :: u32 where "sizeof_StackType_t = 4"
definition sizeof_TCB_t :: u32 where "sizeof_TCB_t = 88"
definition pdPASS :: u32 where "pdPASS = 1"
definition pdFAIL :: u32 where "pdFAIL = 0"
definition errCOULD_NOT_ALLOCATE_REQUIRED_MEMORY :: u32 where "errCOULD_NOT_ALLOCATE_REQUIRED_MEMORY = - 1"

text \<open>Where \<open>pxCreatedTask\<close> points: nowhere, into memory, or to a static variable.\<close>

datatype handle_place = NoHandle | HandleAt ptr | AtIdleHandle | AtTimerHandle

fun store_handle :: "handle_place \<Rightarrow> ptr \<Rightarrow> sys \<Rightarrow> sys" where
  "store_handle NoHandle p s = s"
| "store_handle (HandleAt a) p s = s\<lparr>mem := put_bytes a (word_bytes p) (mem s)\<rparr>"
| "store_handle AtIdleHandle p s = s\<lparr>kern := (kern s)\<lparr>xIdleTaskHandle := p\<rparr>\<rparr>"
| "store_handle AtTimerHandle p s = s\<lparr>xTimerTaskHandle := p\<rparr>"

subsection \<open>Creation\<close>

text \<open>The parameter \<open>uxPriority\<close> is \<open>n\<close> below.\<close>

text \<open>The loop that copies the name: \<open>n\<close> characters may still follow, \<open>x\<close> is the next one.\<close>

primrec copy_name :: "nat \<Rightarrow> nat \<Rightarrow> (nat \<Rightarrow> u8) \<Rightarrow> u8 list \<Rightarrow> u8 list" where
  "copy_name 0 x pcName dst = dst"
| "copy_name (Suc n) x pcName dst =
     (let dst = dst[x := pcName x] in if pcName x = 0 then dst else copy_name n (Suc x) pcName dst)"

definition prvInitialiseNewTask ::
  "ptr \<Rightarrow> ptr \<Rightarrow> u32 \<Rightarrow> ptr \<Rightarrow> u32 \<Rightarrow> handle_place \<Rightarrow> ptr \<Rightarrow> sys \<Rightarrow> sys option" where
  "prvInitialiseNewTask pxTaskCode pcName ulStackDepth pvParameters n pxCreatedTask pxNewTCB s =
     do {
       let k = kern s;
       let pxTopOfStack = pxStack (tcbs k pxNewTCB) + sizeof_StackType_t * (ulStackDepth - 1);
       let pxTopOfStack = pxTopOfStack AND NOT portBYTE_ALIGNMENT_MASK;
       configASSERT (pxTopOfStack AND portBYTE_ALIGNMENT_MASK = 0);
       let k = upd_tcb pxNewTCB (pcTaskName_update (\<lambda>old.
         (copy_name configMAX_TASK_NAME_LEN 0 (\<lambda>x. mem s (pcName + of_nat x)) old)[configMAX_TASK_NAME_LEN - 1 := 0])) k;
       let n = (if n \<ge> of_nat configMAX_PRIORITIES then of_nat configMAX_PRIORITIES - 1 else n);
       let k = upd_tcb pxNewTCB (\<lambda>t. t\<lparr>uxPriority := n, uxBasePriority := n, uxMutexesHeld := 0\<rparr>) k;
       let k = k\<lparr>ls := l_init_item (EventItem pxNewTCB) (l_init_item (StateItem pxNewTCB) (ls k))\<rparr>;
       let k = k_set_value (EventItem pxNewTCB) (of_nat configMAX_PRIORITIES - n) k;
       let k = upd_tcb pxNewTCB (\<lambda>t. t\<lparr>uxCriticalNesting := 0, ulNotifiedValue := 0,
         ucNotifyState := taskNOT_WAITING_NOTIFICATION\<rparr>) k;
       (newTop, c) \<leftarrow> pxPortInitialiseStack pxTopOfStack pxTaskCode pvParameters (cpu k);
       let k = upd_tcb pxNewTCB (pxTopOfStack_update (\<lambda>_. newTop)) (k\<lparr>cpu := c\<rparr>);
       Some (store_handle pxCreatedTask pxNewTCB (s\<lparr>kern := k\<rparr>))
     }"

definition prvInitialiseTaskLists :: "kernel \<Rightarrow> kernel" where
  "prvInitialiseTaskLists k =
     (let S = fold (\<lambda>n. l_initialise (ReadyL n)) [0..<configMAX_PRIORITIES] (ls k);
          S = fold l_initialise [DelayedL1, DelayedL2, PendingReadyL, TerminationL, SuspendedL] S
      in k\<lparr>ls := S, pxDelayedTaskList := DelayedL1, pxOverflowDelayedTaskList := DelayedL2\<rparr>)"

definition prvAddNewTaskToReadyList :: "ptr \<Rightarrow> kernel \<Rightarrow> kernel option" where
  "prvAddNewTaskToReadyList pxNewTCB k =
     do {
       let k = k\<lparr>uxCurrentNumberOfTasks := uxCurrentNumberOfTasks k + 1\<rparr>;
       let k = (if pxCurrentTCB k = NULL then
                  (let k = k\<lparr>pxCurrentTCB := pxNewTCB\<rparr>
                   in if uxCurrentNumberOfTasks k = 1 then prvInitialiseTaskLists k else k)
                else if \<not> xSchedulerRunning k \<and> prio k (pxCurrentTCB k) \<le> prio k pxNewTCB
                then k\<lparr>pxCurrentTCB := pxNewTCB\<rparr> else k);
       let k = k\<lparr>uxTaskNumber := uxTaskNumber k + 1\<rparr>;
       let k = prvAddTaskToReadyList pxNewTCB k;
       (if xSchedulerRunning k \<and> prio k (pxCurrentTCB k) < prio k pxNewTCB
        then portYIELD_WITHIN_API k else Some k)
     }"

definition xTaskCreate ::
  "ptr \<Rightarrow> ptr \<Rightarrow> 16 word \<Rightarrow> ptr \<Rightarrow> u32 \<Rightarrow> handle_place \<Rightarrow> sys \<Rightarrow> (u32 \<times> sys) option" where
  "xTaskCreate pxTaskCode pcName usStackDepth pvParameters n pxCreatedTask s =
     do {
       (stack, s) \<leftarrow> on_kern_r (pvPortMalloc (ucast usStackDepth * sizeof_StackType_t)) s;
       (pxNewTCB, s) \<leftarrow>
         (if stack \<noteq> NULL then
            do {
              (p, s) \<leftarrow> on_kern_r (pvPortMalloc sizeof_TCB_t) s;
              (if p \<noteq> NULL then Some (p, s\<lparr>kern := upd_tcb p (pxStack_update (\<lambda>_. stack)) (kern s)\<rparr>)
               else do { s \<leftarrow> on_kern (vPortFree stack) s; Some (p, s) })
            }
          else Some (NULL, s));
       (if pxNewTCB \<noteq> NULL then
          do {
            s \<leftarrow> prvInitialiseNewTask pxTaskCode pcName (ucast usStackDepth) pvParameters n pxCreatedTask pxNewTCB s;
            s \<leftarrow> on_kern (prvAddNewTaskToReadyList pxNewTCB) s;
            Some (pdPASS, s)
          }
        else Some (errCOULD_NOT_ALLOCATE_REQUIRED_MEMORY, s))
     }"

subsection \<open>Deletion\<close>

definition prvDeleteTCB :: "ptr \<Rightarrow> kernel \<Rightarrow> kernel option" where
  "prvDeleteTCB pxTCB k =
     do {
       c \<leftarrow> vPortReclaimCSA (pxTopOfStack (tcbs k pxTCB)) (cpu k);
       let k = k\<lparr>cpu := c\<rparr>;
       k \<leftarrow> vPortFree (pxStack (tcbs k pxTCB)) k;
       vPortFree pxTCB k
     }"

definition vTaskDelete :: "ptr \<Rightarrow> kernel \<Rightarrow> kernel option" where
  "vTaskDelete xTaskToDelete k =
     do {
       let pxTCB = prvGetTCBFromHandle xTaskToDelete k;
       k \<leftarrow> k_remove (StateItem pxTCB) k;
       k \<leftarrow> k_remove_event pxTCB k;
       let k = k\<lparr>uxTaskNumber := uxTaskNumber k + 1\<rparr>;
       k \<leftarrow> (if pxTCB = pxCurrentTCB k then
              (let k = k_insert_end TerminationL (StateItem pxTCB) k
               in Some (k\<lparr>uxDeletedTasksWaitingCleanUp := uxDeletedTasksWaitingCleanUp k + 1\<rparr>))
            else
              do {
                let k = k\<lparr>uxCurrentNumberOfTasks := uxCurrentNumberOfTasks k - 1\<rparr>;
                k \<leftarrow> prvDeleteTCB pxTCB k;
                Some (prvResetNextTaskUnblockTime k)
              });
       (if xSchedulerRunning k \<and> pxTCB = pxCurrentTCB k then
          do { configASSERT (uxSchedulerSuspended k = 0); portYIELD_WITHIN_API k }
        else Some k)
     }"

text \<open>The idle task reclaims what the tasks that deleted themselves have left.  A head entry is expected:
  \<open>l_head\<close> of an empty list would make the code read the end marker as an item.\<close>

partial_function (option) prvCheckTasksWaitingTermination :: "kernel \<Rightarrow> kernel option" where
  "prvCheckTasksWaitingTermination k =
     (if uxDeletedTasksWaitingCleanUp k > 0 then
        do {
          i \<leftarrow> l_head TerminationL (ls k);
          let pxTCB = owner i;
          k \<leftarrow> k_remove (StateItem pxTCB) k;
          let k = k\<lparr>uxCurrentNumberOfTasks := uxCurrentNumberOfTasks k - 1,
            uxDeletedTasksWaitingCleanUp := uxDeletedTasksWaitingCleanUp k - 1\<rparr>;
          k \<leftarrow> prvDeleteTCB pxTCB k;
          prvCheckTasksWaitingTermination k
        }
      else Some k)"

text \<open>One pass of the endless loop of the idle task: with \<open>configIDLE_SHOULD_YIELD\<close> and the hooks off, it
  only cleans up.\<close>

definition prvIdleTask_pass :: "kernel \<Rightarrow> kernel option" where
  "prvIdleTask_pass k = prvCheckTasksWaitingTermination k"

subsection \<open>Queries\<close>

definition xTaskGetTickCountFromISR :: "kernel \<Rightarrow> u32" where
  "xTaskGetTickCountFromISR k = xTickCount k"

definition pcTaskGetName :: "ptr \<Rightarrow> kernel \<Rightarrow> u8 list option" where
  "pcTaskGetName xTaskToQuery k =
     do {
       let pxTCB = prvGetTCBFromHandle xTaskToQuery k;
       configASSERT (pxTCB \<noteq> NULL);
       Some (pcTaskName (tcbs k pxTCB))
     }"

definition uxTaskPriorityGetFromISR :: "ptr \<Rightarrow> kernel \<Rightarrow> u32" where
  "uxTaskPriorityGetFromISR xTask k = prio k (prvGetTCBFromHandle xTask k)"

end
