(* ===== verification/Timers.thy ===== *)
theory Timers
  imports Queue Tasks
begin

section \<open>Software timers (FreeRtos/timers.c)\<close>

text \<open>
  The timer task owns the two lists of active timers; everyone else sends it commands through the queue
  \<open>xTimerQueue\<close>.  A command of type \<open>DaemonTaskMessage_t\<close> is 12 bytes in memory: the command, the value
  and the timer's address; \<open>pxMessage\<close> is the address of the local variable that holds it.  The
  callbacks of the timers are code of the application: \<open>callback f t\<close> is the effect of a call of the
  function at address \<open>f\<close> for the timer \<open>t\<close>.
\<close>

type_synonym timer_callback = "ptr \<Rightarrow> ptr \<Rightarrow> sys \<Rightarrow> sys option"

definition tmrCOMMAND_START_DONT_TRACE :: u32 where "tmrCOMMAND_START_DONT_TRACE = 0"
definition tmrCOMMAND_START :: u32 where "tmrCOMMAND_START = 1"
definition tmrCOMMAND_RESET :: u32 where "tmrCOMMAND_RESET = 2"
definition tmrCOMMAND_STOP :: u32 where "tmrCOMMAND_STOP = 3"
definition tmrCOMMAND_CHANGE_PERIOD :: u32 where "tmrCOMMAND_CHANGE_PERIOD = 4"
definition tmrCOMMAND_DELETE :: u32 where "tmrCOMMAND_DELETE = 5"
definition tmrFIRST_FROM_ISR_COMMAND :: u32 where "tmrFIRST_FROM_ISR_COMMAND = 6"
definition tmrCOMMAND_START_FROM_ISR :: u32 where "tmrCOMMAND_START_FROM_ISR = 6"
definition tmrCOMMAND_RESET_FROM_ISR :: u32 where "tmrCOMMAND_RESET_FROM_ISR = 7"
definition tmrCOMMAND_STOP_FROM_ISR :: u32 where "tmrCOMMAND_STOP_FROM_ISR = 8"
definition tmrCOMMAND_CHANGE_PERIOD_FROM_ISR :: u32 where "tmrCOMMAND_CHANGE_PERIOD_FROM_ISR = 9"

definition configTIMER_TASK_PRIORITY :: u32 where "configTIMER_TASK_PRIORITY = 3"
definition configTIMER_QUEUE_LENGTH :: u32 where "configTIMER_QUEUE_LENGTH = 5"
definition configTIMER_TASK_STACK_DEPTH :: "16 word" where "configTIMER_TASK_STACK_DEPTH = configMINIMAL_STACK_SIZE"
definition sizeof_DaemonTaskMessage_t :: u32 where "sizeof_DaemonTaskMessage_t = 12"
definition sizeof_Timer_t :: u32 where "sizeof_Timer_t = 40"

abbreviation pdTRUE :: u32 where "pdTRUE \<equiv> 1"

definition upd_timer :: "ptr \<Rightarrow> (xTIMER \<Rightarrow> xTIMER) \<Rightarrow> sys \<Rightarrow> sys" where
  "upd_timer t f s = s\<lparr>timers := (timers s)(t := f (timers s t))\<rparr>"

abbreviation period :: "ptr \<Rightarrow> sys \<Rightarrow> u32" where
  "period t s \<equiv> xTimerPeriodInTicks (timers s t)"

abbreviation upd_kern :: "(kernel \<Rightarrow> kernel) \<Rightarrow> sys \<Rightarrow> sys" where
  "upd_kern f s \<equiv> s\<lparr>kern := f (kern s)\<rparr>"

subsection \<open>Messages\<close>

definition write_message :: "ptr \<Rightarrow> u32 \<Rightarrow> u32 \<Rightarrow> ptr \<Rightarrow> sys \<Rightarrow> sys" where
  "write_message pxMessage xMessageID xMessageValue pxTimer s =
     s\<lparr>mem := put_bytes pxMessage (word_bytes xMessageID @ word_bytes xMessageValue @ word_bytes pxTimer) (mem s)\<rparr>"

definition message_id :: "ptr \<Rightarrow> sys \<Rightarrow> u32" where
  "message_id pxMessage s = bytes_word (bytes pxMessage 4 (mem s))"

definition message_value :: "ptr \<Rightarrow> sys \<Rightarrow> u32" where
  "message_value pxMessage s = bytes_word (bytes (pxMessage + 4) 4 (mem s))"

definition message_timer :: "ptr \<Rightarrow> sys \<Rightarrow> ptr" where
  "message_timer pxMessage s = bytes_word (bytes (pxMessage + 8) 4 (mem s))"

subsection \<open>Creation\<close>

definition prvCheckForValidListAndQueue :: "sys \<Rightarrow> sys option" where
  "prvCheckForValidListAndQueue s =
     (if xTimerQueue s = NULL then
        do {
          let s = upd_kern (\<lambda>k. k\<lparr>ls := l_initialise TimerL2 (l_initialise TimerL1 (ls k))\<rparr>) s;
          let s = s\<lparr>pxCurrentTimerList := TimerL1, pxOverflowTimerList := TimerL2\<rparr>;
          (q, s) \<leftarrow> xQueueGenericCreate configTIMER_QUEUE_LENGTH sizeof_DaemonTaskMessage_t s;
          Some (s\<lparr>xTimerQueue := q\<rparr>)
        }
      else Some s)"

text \<open>The addresses of the function \<open>prvTimerTask\<close> and of the name "Tmr Svc" are parameters.\<close>

definition xTimerCreateTimerTask :: "ptr \<Rightarrow> ptr \<Rightarrow> sys \<Rightarrow> (u32 \<times> sys) option" where
  "xTimerCreateTimerTask timer_task_code timer_task_name s =
     do {
       s \<leftarrow> prvCheckForValidListAndQueue s;
       (xReturn, s) \<leftarrow>
         (if xTimerQueue s \<noteq> NULL
          then xTaskCreate timer_task_code timer_task_name configTIMER_TASK_STACK_DEPTH NULL configTIMER_TASK_PRIORITY AtTimerHandle s
          else Some (pdFAIL, s));
       configASSERT (xReturn \<noteq> 0);
       Some (xReturn, s)
     }"

definition prvInitialiseNewTimer :: "ptr \<Rightarrow> u32 \<Rightarrow> u32 \<Rightarrow> ptr \<Rightarrow> ptr \<Rightarrow> ptr \<Rightarrow> sys \<Rightarrow> sys option" where
  "prvInitialiseNewTimer pcName xPeriod xReload pvID pxCallback pxNewTimer s =
     do {
       configASSERT (xPeriod > 0);
       (if pxNewTimer \<noteq> NULL then
          do {
            s \<leftarrow> prvCheckForValidListAndQueue s;
            let s = upd_timer pxNewTimer (\<lambda>t. t\<lparr>pcTimerName := pcName, xTimerPeriodInTicks := xPeriod,
              uxAutoReload := xReload, pvTimerID := pvID, pxCallbackFunction := pxCallback\<rparr>) s;
            Some (upd_kern (\<lambda>k. k\<lparr>ls := l_init_item (TimerItem pxNewTimer) (ls k)\<rparr>) s)
          }
        else Some s)
     }"

definition xTimerCreate :: "ptr \<Rightarrow> u32 \<Rightarrow> u32 \<Rightarrow> ptr \<Rightarrow> ptr \<Rightarrow> sys \<Rightarrow> (ptr \<times> sys) option" where
  "xTimerCreate pcName xPeriod xReload pvID pxCallback s =
     do {
       (pxNewTimer, s) \<leftarrow> on_kern_r (pvPortMalloc sizeof_Timer_t) s;
       s \<leftarrow> (if pxNewTimer \<noteq> NULL then prvInitialiseNewTimer pcName xPeriod xReload pvID pxCallback pxNewTimer s else Some s);
       Some (pxNewTimer, s)
     }"

subsection \<open>Commands\<close>

text \<open>The result is the one of the send; without a queue it is \<open>pdFAIL\<close>.\<close>

definition xTimerGenericCommand ::
  "ptr \<Rightarrow> ptr \<Rightarrow> u32 \<Rightarrow> u32 \<Rightarrow> bool option \<Rightarrow> u32 \<Rightarrow> sys \<Rightarrow> (outcome \<times> bool option \<times> sys) option" where
  "xTimerGenericCommand pxMessage xTimer xCommandID xOptionalValue pxHigherPriorityTaskWoken xTicksToWait s =
     do {
       configASSERT (xTimer \<noteq> NULL);
       (if xTimerQueue s \<noteq> NULL then
          do {
            let s = write_message pxMessage xCommandID xOptionalValue xTimer s;
            (if sint xCommandID < sint tmrFIRST_FROM_ISR_COMMAND then
               (if xTaskGetSchedulerState (kern s) = taskSCHEDULER_RUNNING then
                  do {
                    (r, s) \<leftarrow> xQueueGenericSend (xTimerQueue s) pxMessage xTicksToWait queueSEND_TO_BACK s;
                    Some (r, pxHigherPriorityTaskWoken, s)
                  }
                else
                  do {
                    (r, s) \<leftarrow> xQueueGenericSend (xTimerQueue s) pxMessage 0 queueSEND_TO_BACK s;
                    Some (r, pxHigherPriorityTaskWoken, s)
                  })
             else
               do {
                 (b, w, s) \<leftarrow> xQueueGenericSendFromISR (xTimerQueue s) pxMessage pxHigherPriorityTaskWoken queueSEND_TO_BACK s;
                 Some (Return b, w, s)
               })
          }
        else Some (Return False, pxHigherPriorityTaskWoken, s))
     }"

text \<open>The timer task sends commands to itself, without waiting, and asserts that the queue took them.\<close>

definition reload_later :: "ptr \<Rightarrow> ptr \<Rightarrow> u32 \<Rightarrow> sys \<Rightarrow> sys option" where
  "reload_later pxMessage pxTimer xOptionalValue s =
     do {
       (xResult, w, s) \<leftarrow> xTimerGenericCommand pxMessage pxTimer tmrCOMMAND_START_DONT_TRACE xOptionalValue None 0 s;
       configASSERT (xResult = Return True);
       Some s
     }"

subsection \<open>The lists of active timers\<close>

definition prvInsertTimerInActiveList :: "ptr \<Rightarrow> u32 \<Rightarrow> u32 \<Rightarrow> u32 \<Rightarrow> sys \<Rightarrow> bool \<times> sys" where
  "prvInsertTimerInActiveList pxTimer xNextExpiryTime xTimeNow xCommandTime s =
     (let s = upd_kern (k_set_value (TimerItem pxTimer) xNextExpiryTime) s in
      if xNextExpiryTime \<le> xTimeNow then
        (if xTimeNow - xCommandTime \<ge> period pxTimer s then (True, s)
         else (False, upd_kern (k_insert (pxOverflowTimerList s) (TimerItem pxTimer)) s))
      else
        (if xTimeNow < xCommandTime \<and> xNextExpiryTime \<ge> xCommandTime then (True, s)
         else (False, upd_kern (k_insert (pxCurrentTimerList s) (TimerItem pxTimer)) s)))"

definition prvGetNextExpireTime :: "sys \<Rightarrow> u32 \<times> bool" where
  "prvGetNextExpireTime s =
     (case l_head (pxCurrentTimerList s) (ls (kern s)) of
        None \<Rightarrow> (0, True)
      | Some i \<Rightarrow> (val_of (kern s) i, False))"

definition prvProcessExpiredTimer :: "timer_callback \<Rightarrow> ptr \<Rightarrow> u32 \<Rightarrow> u32 \<Rightarrow> sys \<Rightarrow> sys option" where
  "prvProcessExpiredTimer callback pxMessage xNextExpireTime xTimeNow s =
     do {
       i \<leftarrow> l_head (pxCurrentTimerList s) (ls (kern s));
       let pxTimer = owner i;
       s \<leftarrow> on_kern (k_remove (TimerItem pxTimer)) s;
       s \<leftarrow> (if uxAutoReload (timers s pxTimer) = pdTRUE then
              (let (xProcess, s) = prvInsertTimerInActiveList pxTimer (xNextExpireTime + period pxTimer s) xTimeNow xNextExpireTime s
               in if xProcess then reload_later pxMessage pxTimer xNextExpireTime s else Some s)
            else Some s);
       callback (pxCallbackFunction (timers s pxTimer)) pxTimer s
     }"

text \<open>The loop of \<open>prvSwitchTimerLists\<close>: the tick has wrapped around, so every timer left in the current
  list has expired.\<close>

partial_function (option) expire_all :: "timer_callback \<Rightarrow> ptr \<Rightarrow> sys \<Rightarrow> sys option" where
  "expire_all callback pxMessage s =
     (case l_head (pxCurrentTimerList s) (ls (kern s)) of
        None \<Rightarrow> Some s
      | Some i \<Rightarrow>
          do {
            let xNextExpireTime = val_of (kern s) i;
            let pxTimer = owner i;
            s \<leftarrow> on_kern (k_remove (TimerItem pxTimer)) s;
            s \<leftarrow> callback (pxCallbackFunction (timers s pxTimer)) pxTimer s;
            s \<leftarrow> (if uxAutoReload (timers s pxTimer) = pdTRUE then
                   (let xReloadTime = xNextExpireTime + period pxTimer s in
                    if xReloadTime > xNextExpireTime then
                      Some (upd_kern (\<lambda>k. k_insert (pxCurrentTimerList s) (TimerItem pxTimer)
                        (k_set_value (TimerItem pxTimer) xReloadTime k)) s)
                    else reload_later pxMessage pxTimer xNextExpireTime s)
                 else Some s);
            expire_all callback pxMessage s
          })"

definition prvSwitchTimerLists :: "timer_callback \<Rightarrow> ptr \<Rightarrow> sys \<Rightarrow> sys option" where
  "prvSwitchTimerLists callback pxMessage s =
     do {
       s \<leftarrow> expire_all callback pxMessage s;
       Some (s\<lparr>pxCurrentTimerList := pxOverflowTimerList s, pxOverflowTimerList := pxCurrentTimerList s\<rparr>)
     }"

definition prvSampleTimeNow :: "timer_callback \<Rightarrow> ptr \<Rightarrow> sys \<Rightarrow> (u32 \<times> bool \<times> sys) option" where
  "prvSampleTimeNow callback pxMessage s =
     do {
       let xTimeNow = xTaskGetTickCount (kern s);
       (b, s) \<leftarrow>
         (if xTimeNow < xLastTime s then do { s \<leftarrow> prvSwitchTimerLists callback pxMessage s; Some (True, s) }
          else Some (False, s));
       Some (xTimeNow, b, s\<lparr>xLastTime := xTimeNow\<rparr>)
     }"

subsection \<open>The timer task\<close>

text \<open>What follows when the scheduler has been resumed, at which point other tasks may run first: a timer has
  expired, or the commands are next.\<close>

datatype timer_next = TimerExpired u32 u32 | TimerCommands

definition prvProcessTimerOrBlockTask :: "timer_callback \<Rightarrow> ptr \<Rightarrow> u32 \<Rightarrow> bool \<Rightarrow> sys \<Rightarrow> (timer_next \<times> sys) option" where
  "prvProcessTimerOrBlockTask callback pxMessage xNextExpireTime xListWasEmpty s =
     do {
       let s = upd_kern vTaskSuspendAll s;
       (xTimeNow, xTimerListsWereSwitched, s) \<leftarrow> prvSampleTimeNow callback pxMessage s;
       (if \<not> xTimerListsWereSwitched then
          (if \<not> xListWasEmpty \<and> xNextExpireTime \<le> xTimeNow then
             do { (y, s) \<leftarrow> on_kern_r xTaskResumeAll s; Some (TimerExpired xNextExpireTime xTimeNow, s) }
           else
             do {
               let xListWasEmpty = (if xListWasEmpty then items (kern s) (pxOverflowTimerList s) = [] else xListWasEmpty);
               s \<leftarrow> vQueueWaitForMessageRestricted (xTimerQueue s) (xNextExpireTime - xTimeNow) xListWasEmpty s;
               (y, s) \<leftarrow> on_kern_r xTaskResumeAll s;
               s \<leftarrow> (if \<not> y then on_kern portYIELD_WITHIN_API s else Some s);
               Some (TimerCommands, s)
             })
        else do { (y, s) \<leftarrow> on_kern_r xTaskResumeAll s; Some (TimerCommands, s) })
     }"

text \<open>The body of the loop of \<open>prvProcessReceivedCommands\<close>, for the message at \<open>xMessage\<close>; the timer may
  be active or not.\<close>

definition start_timer :: "timer_callback \<Rightarrow> ptr \<Rightarrow> ptr \<Rightarrow> ptr \<Rightarrow> u32 \<Rightarrow> sys \<Rightarrow> sys option" where
  "start_timer callback xMessage pxMessage pxTimer xTimeNow s =
     (let (xProcess, s) = prvInsertTimerInActiveList pxTimer (message_value xMessage s + period pxTimer s) xTimeNow
            (message_value xMessage s) s
      in if xProcess then
           do {
             s \<leftarrow> callback (pxCallbackFunction (timers s pxTimer)) pxTimer s;
             (if uxAutoReload (timers s pxTimer) = pdTRUE
              then reload_later pxMessage pxTimer (message_value xMessage s + period pxTimer s) s
              else Some s)
           }
         else Some s)"

definition change_period :: "ptr \<Rightarrow> ptr \<Rightarrow> u32 \<Rightarrow> sys \<Rightarrow> sys option" where
  "change_period xMessage pxTimer xTimeNow s =
     do {
       let s = upd_timer pxTimer (xTimerPeriodInTicks_update (\<lambda>_. message_value xMessage s)) s;
       configASSERT (period pxTimer s > 0);
       Some (snd (prvInsertTimerInActiveList pxTimer (xTimeNow + period pxTimer s) xTimeNow xTimeNow s))
     }"

definition process_command :: "timer_callback \<Rightarrow> ptr \<Rightarrow> ptr \<Rightarrow> sys \<Rightarrow> sys option" where
  "process_command callback xMessage pxMessage s =
     (if sint (message_id xMessage s) \<ge> 0 then
        do {
          let pxTimer = message_timer xMessage s;
          s \<leftarrow> (if cont_of (kern s) (TimerItem pxTimer) \<noteq> None then on_kern (k_remove (TimerItem pxTimer)) s else Some s);
          (xTimeNow, b, s) \<leftarrow> prvSampleTimeNow callback pxMessage s;
          let xMessageID = message_id xMessage s;
          (if xMessageID \<in> {tmrCOMMAND_START, tmrCOMMAND_START_FROM_ISR, tmrCOMMAND_RESET, tmrCOMMAND_RESET_FROM_ISR,
                tmrCOMMAND_START_DONT_TRACE}
           then start_timer callback xMessage pxMessage pxTimer xTimeNow s
           else if xMessageID \<in> {tmrCOMMAND_STOP, tmrCOMMAND_STOP_FROM_ISR} then Some s
           else if xMessageID \<in> {tmrCOMMAND_CHANGE_PERIOD, tmrCOMMAND_CHANGE_PERIOD_FROM_ISR}
           then change_period xMessage pxTimer xTimeNow s
           else if xMessageID = tmrCOMMAND_DELETE then on_kern (vPortFree pxTimer) s
           else Some s)
        }
      else Some s)"

text \<open>The loop, as it runs when no other task comes in between.\<close>

partial_function (option) prvProcessReceivedCommands :: "timer_callback \<Rightarrow> ptr \<Rightarrow> ptr \<Rightarrow> sys \<Rightarrow> sys option" where
  "prvProcessReceivedCommands callback xMessage pxMessage s =
     do {
       (r, s) \<leftarrow> xQueueReceive (xTimerQueue s) xMessage 0 s;
       (if r = Return True then
          do {
            s \<leftarrow> process_command callback xMessage pxMessage s;
            prvProcessReceivedCommands callback xMessage pxMessage s
          }
        else Some s)
     }"

text \<open>The endless loop of \<open>prvTimerTask\<close> goes through these parts; between two of them other tasks may run.\<close>

definition prvTimerTask_wait :: "timer_callback \<Rightarrow> ptr \<Rightarrow> sys \<Rightarrow> (timer_next \<times> sys) option" where
  "prvTimerTask_wait callback pxMessage s =
     (let (xNextExpireTime, xListWasEmpty) = prvGetNextExpireTime s
      in prvProcessTimerOrBlockTask callback pxMessage xNextExpireTime xListWasEmpty s)"

definition prvTimerTask_expire :: "timer_callback \<Rightarrow> ptr \<Rightarrow> timer_next \<Rightarrow> sys \<Rightarrow> sys option" where
  "prvTimerTask_expire callback pxMessage r s =
     (case r of
        TimerExpired xNextExpireTime xTimeNow \<Rightarrow> prvProcessExpiredTimer callback pxMessage xNextExpireTime xTimeNow s
      | TimerCommands \<Rightarrow> Some s)"

definition prvTimerTask_commands :: "timer_callback \<Rightarrow> ptr \<Rightarrow> ptr \<Rightarrow> sys \<Rightarrow> sys option" where
  "prvTimerTask_commands callback xMessage pxMessage s = prvProcessReceivedCommands callback xMessage pxMessage s"

subsection \<open>Queries\<close>

definition xTimerGetTimerDaemonTaskHandle :: "sys \<Rightarrow> ptr option" where
  "xTimerGetTimerDaemonTaskHandle s = do { configASSERT (xTimerTaskHandle s \<noteq> NULL); Some (xTimerTaskHandle s) }"

definition xTimerGetPeriod :: "ptr \<Rightarrow> sys \<Rightarrow> u32 option" where
  "xTimerGetPeriod xTimer s = do { configASSERT (xTimer \<noteq> NULL); Some (period xTimer s) }"

definition xTimerGetExpiryTime :: "ptr \<Rightarrow> sys \<Rightarrow> u32 option" where
  "xTimerGetExpiryTime xTimer s = do { configASSERT (xTimer \<noteq> NULL); Some (val_of (kern s) (TimerItem xTimer)) }"

definition pcTimerGetName :: "ptr \<Rightarrow> sys \<Rightarrow> ptr option" where
  "pcTimerGetName xTimer s = do { configASSERT (xTimer \<noteq> NULL); Some (pcTimerName (timers s xTimer)) }"

definition xTimerIsTimerActive :: "ptr \<Rightarrow> sys \<Rightarrow> bool option" where
  "xTimerIsTimerActive xTimer s = do { configASSERT (xTimer \<noteq> NULL); Some (cont_of (kern s) (TimerItem xTimer) \<noteq> None) }"

definition pvTimerGetTimerID :: "ptr \<Rightarrow> sys \<Rightarrow> ptr option" where
  "pvTimerGetTimerID xTimer s = do { configASSERT (xTimer \<noteq> NULL); Some (pvTimerID (timers s xTimer)) }"

definition vTimerSetTimerID :: "ptr \<Rightarrow> ptr \<Rightarrow> sys \<Rightarrow> sys option" where
  "vTimerSetTimerID xTimer pvNewID s =
     do { configASSERT (xTimer \<noteq> NULL); Some (upd_timer xTimer (pvTimerID_update (\<lambda>_. pvNewID)) s) }"

end
