(* ===== verification/Mutex.thy ===== *)
theory Mutex
  imports Queue
begin

section \<open>Taking and giving semaphores and mutexes (FreeRtos/queue.c)\<close>

text \<open>
  \<open>xQueueSemaphoreTake\<close> has the loop of \<open>xQueueReceive\<close>; a task that waits for a mutex passes its
  priority on to the holder, and when it gives up the holder falls back.  The local variable
  \<open>xInheritanceOccurred\<close> is one more argument of a pass.
\<close>

datatype take_outcome =
    Took bool
  | TakeLeave u32 TimeOut_t
  | TakeExpired u32 TimeOut_t bool
  | TakeAgain u32 TimeOut_t bool

definition prvGetDisinheritPriorityAfterTimeout :: "ptr \<Rightarrow> kernel \<Rightarrow> u32" where
  "prvGetDisinheritPriorityAfterTimeout q k =
     (case items k (WaitReceiveL q) of
        [] \<Rightarrow> 0
      | i # _ \<Rightarrow> of_nat configMAX_PRIORITIES - val_of k i)"

definition take_now :: "ptr \<Rightarrow> sys \<Rightarrow> sys option" where
  "take_now q s =
     do {
       let uxSemaphoreCount = uxMessagesWaiting (queues s q);
       let s = upd_queue q (uxMessagesWaiting_update (\<lambda>_. uxSemaphoreCount - 1)) s;
       let s = (if uxQueueType (queues s q) = queueQUEUE_IS_MUTEX
                then (let (t, k) = pvTaskIncrementMutexHeldCount (kern s)
                      in upd_queue q (pcTail_update (\<lambda>_. t)) (s\<lparr>kern := k\<rparr>))
                else s);
       (if items (kern s) (WaitSendL q) \<noteq> [] then wake_and_yield (WaitSendL q) s else Some s)
     }"

definition take_try :: "ptr \<Rightarrow> u32 \<Rightarrow> TimeOut_t option \<Rightarrow> bool \<Rightarrow> sys \<Rightarrow> (take_outcome \<times> sys) option" where
  "take_try q xTicksToWait xTimeOut xInheritanceOccurred s =
     (if uxMessagesWaiting (queues s q) > 0
      then do { s \<leftarrow> take_now q s; Some (Took True, s) }
      else if xTicksToWait = 0 then
        do { configASSERT (\<not> xInheritanceOccurred); Some (Took False, s) }
      else Some (TakeLeave xTicksToWait (set_time_out xTimeOut (kern s)), s))"

definition take_wait :: "ptr \<Rightarrow> u32 \<Rightarrow> TimeOut_t \<Rightarrow> bool \<Rightarrow> sys \<Rightarrow> (take_outcome \<times> sys) option" where
  "take_wait q xTicksToWait xTimeOut xInheritanceOccurred s =
     do {
       let s = s\<lparr>kern := vTaskSuspendAll (kern s)\<rparr>;
       let s = prvLockQueue q s;
       let (expired, xTimeOut, xTicksToWait) = xTaskCheckForTimeOut xTimeOut xTicksToWait (kern s);
       (if \<not> expired then
          (if prvIsQueueEmpty q s then
             do {
               (inherited, s) \<leftarrow>
                 (if uxQueueType (queues s q) = queueQUEUE_IS_MUTEX
                  then on_kern_r (xTaskPriorityInherit (pxMutexHolder (queues s q))) s
                  else Some (xInheritanceOccurred, s));
               s \<leftarrow> block_on q (WaitReceiveL q) xTicksToWait s;
               Some (TakeAgain xTicksToWait xTimeOut inherited, s)
             }
           else do { s \<leftarrow> stop_waiting_on q s; Some (TakeAgain xTicksToWait xTimeOut xInheritanceOccurred, s) })
        else
          do {
            s \<leftarrow> stop_waiting_on q s;
            Some (TakeExpired xTicksToWait xTimeOut xInheritanceOccurred, s)
          })
     }"

definition take_expired :: "ptr \<Rightarrow> u32 \<Rightarrow> TimeOut_t \<Rightarrow> bool \<Rightarrow> sys \<Rightarrow> (take_outcome \<times> sys) option" where
  "take_expired q xTicksToWait xTimeOut xInheritanceOccurred s =
     (if prvIsQueueEmpty q s then
        do {
          s \<leftarrow> (if xInheritanceOccurred
               then on_kern (vTaskPriorityDisinheritAfterTimeout (pxMutexHolder (queues s q))
                      (prvGetDisinheritPriorityAfterTimeout q (kern s))) s
               else Some s);
          Some (Took False, s)
        }
      else Some (TakeAgain xTicksToWait xTimeOut xInheritanceOccurred, s))"

definition take_pass :: "ptr \<Rightarrow> u32 \<Rightarrow> TimeOut_t option \<Rightarrow> bool \<Rightarrow> sys \<Rightarrow> (take_outcome \<times> sys) option" where
  "take_pass q xTicksToWait xTimeOut xInheritanceOccurred s =
     do {
       (r, s) \<leftarrow> take_try q xTicksToWait xTimeOut xInheritanceOccurred s;
       (case r of TakeLeave w t \<Rightarrow> take_wait q w t xInheritanceOccurred s | _ \<Rightarrow> Some (r, s))
     }"

definition xQueueSemaphoreTake :: "ptr \<Rightarrow> u32 \<Rightarrow> sys \<Rightarrow> (take_outcome \<times> sys) option" where
  "xQueueSemaphoreTake q xTicksToWait s =
     do {
       configASSERT (q \<noteq> NULL);
       configASSERT (uxItemSize (queues s q) = 0);
       configASSERT (may_wait xTicksToWait (kern s));
       take_pass q xTicksToWait None False s
     }"

subsection \<open>Mutexes\<close>

definition prvInitialiseMutex :: "ptr \<Rightarrow> sys \<Rightarrow> sys option" where
  "prvInitialiseMutex pxNewQueue s =
     (if pxNewQueue \<noteq> NULL then
        do {
          let s = upd_queue pxNewQueue (\<lambda>Q. Q\<lparr>pcTail := NULL, pcHead := queueQUEUE_IS_MUTEX, u_word := 0\<rparr>) s;
          (r, s) \<leftarrow> xQueueGenericSend pxNewQueue NULL 0 queueSEND_TO_BACK s;
          Some s
        }
      else Some s)"

definition xQueueCreateMutex :: "sys \<Rightarrow> (ptr \<times> sys) option" where
  "xQueueCreateMutex s =
     do {
       (pxNewQueue, s) \<leftarrow> xQueueGenericCreate 1 0 s;
       s \<leftarrow> prvInitialiseMutex pxNewQueue s;
       Some (pxNewQueue, s)
     }"

definition xQueueGiveMutexRecursive :: "ptr \<Rightarrow> sys \<Rightarrow> (bool \<times> sys) option" where
  "xQueueGiveMutexRecursive xMutex s =
     do {
       configASSERT (xMutex \<noteq> NULL);
       (if pxMutexHolder (queues s xMutex) = xTaskGetCurrentTaskHandle (kern s) then
          do {
            let s = upd_queue xMutex (u_word_update (\<lambda>n. n - 1)) s;
            s \<leftarrow> (if uxRecursiveCallCount (queues s xMutex) = 0
                 then do { (r, s) \<leftarrow> xQueueGenericSend xMutex NULL 0 queueSEND_TO_BACK s; Some s }
                 else Some s);
            Some (True, s)
          }
        else Some (False, s))
     }"

text \<open>A recursive take: at once when the caller holds the mutex already, otherwise it is a take, and
  the count goes up when that has succeeded (\<open>recursive_taken\<close>).\<close>

definition recursive_taken :: "ptr \<Rightarrow> take_outcome \<Rightarrow> sys \<Rightarrow> take_outcome \<times> sys" where
  "recursive_taken xMutex r s =
     (r, if r = Took True then upd_queue xMutex (u_word_update (\<lambda>n. n + 1)) s else s)"

definition xQueueTakeMutexRecursive :: "ptr \<Rightarrow> u32 \<Rightarrow> sys \<Rightarrow> (take_outcome \<times> sys) option" where
  "xQueueTakeMutexRecursive xMutex xTicksToWait s =
     do {
       configASSERT (xMutex \<noteq> NULL);
       (if pxMutexHolder (queues s xMutex) = xTaskGetCurrentTaskHandle (kern s)
        then Some (Took True, upd_queue xMutex (u_word_update (\<lambda>n. n + 1)) s)
        else do {
          (r, s) \<leftarrow> xQueueSemaphoreTake xMutex xTicksToWait s;
          Some (recursive_taken xMutex r s)
        })
     }"

end
