(* ===== verification/QueueRing.thy ===== *)
theory QueueRing
  imports Queue
begin

section \<open>The ring of slots is a list of items\<close>

text \<open>
  The abstraction of a queue's storage: \<open>ring Q r\<close> says that the pointers of \<open>Q\<close> are those of a
  ring whose first item is in slot \<open>r\<close>, and \<open>contents Q r m\<close> is the list of its items in memory
  \<open>m\<close>.  Copying an item to the back, to the front or over the only one, and copying one out, are
  the list operations.
\<close>

definition slot :: "xQUEUE \<Rightarrow> nat \<Rightarrow> ptr" where
  "slot Q i = pcHead Q + of_nat i * uxItemSize Q"

definition geom :: "xQUEUE \<Rightarrow> bool" where
  "geom Q \<longleftrightarrow> uxItemSize Q \<noteq> 0 \<and> uxLength Q \<noteq> 0 \<and>
     unat (pcHead Q) + unat (uxLength Q) * unat (uxItemSize Q) < 2 ^ 32 \<and>
     unat (uxItemSize Q) \<le> unat (pcHead Q) \<and> pcTail Q = slot Q (unat (uxLength Q))"

definition ring :: "xQUEUE \<Rightarrow> nat \<Rightarrow> bool" where
  "ring Q r \<longleftrightarrow> (let L = unat (uxLength Q); n = unat (uxMessagesWaiting Q) in
     geom Q \<and> r < L \<and> n \<le> L \<and> pcReadFrom Q = slot Q ((r + L - 1) mod L) \<and> pcWriteTo Q = slot Q ((r + n) mod L))"

definition contents :: "xQUEUE \<Rightarrow> nat \<Rightarrow> (ptr \<Rightarrow> u8) \<Rightarrow> u8 list list" where
  "contents Q r m = map (\<lambda>i. bytes (slot Q ((r + i) mod unat (uxLength Q))) (uxItemSize Q) m)
     [0..<unat (uxMessagesWaiting Q)]"

text \<open>Queue \<open>q\<close> holds the items \<open>xs\<close>.\<close>

definition holds :: "ptr \<Rightarrow> sys \<Rightarrow> u8 list list \<Rightarrow> bool" where
  "holds q s xs \<longleftrightarrow> (\<exists>r. ring (queues s q) r \<and> xs = contents (queues s q) r (mem s))"

text \<open>A region that lies outside the slots.\<close>

definition outside :: "ptr \<Rightarrow> u32 \<Rightarrow> xQUEUE \<Rightarrow> bool" where
  "outside p n Q \<longleftrightarrow> unat p + unat n \<le> 2 ^ 32 \<and>
     (unat p + unat n \<le> unat (pcHead Q) \<or> unat (pcTail Q) \<le> unat p)"

subsection \<open>Addresses\<close>

lemma unat_slot:
  assumes "geom Q" and "i \<le> unat (uxLength Q)"
  shows "unat (slot Q i) = unat (pcHead Q) + i * unat (uxItemSize Q)"
proof -
  have "i * unat (uxItemSize Q) \<le> unat (uxLength Q) * unat (uxItemSize Q)" using assms(2) by simp
  then have lt: "unat (pcHead Q) + i * unat (uxItemSize Q) < 2 ^ 32" using assms(1) unfolding geom_def by linarith
  have "slot Q i = of_nat (unat (pcHead Q) + i * unat (uxItemSize Q))" by (simp add: slot_def)
  then show ?thesis using unat_of_nat_small [OF lt] by simp
qed

lemma in_region:
  assumes "unat dst + unat n \<le> 2 ^ 32"
  shows "(a :: u32) - dst < n \<longleftrightarrow> unat dst \<le> unat a \<and> unat a < unat dst + unat n"
  using assms unat_u32 [of a] unat_u32 [of dst]
  by (auto simp: word_less_nat_alt unat_sub_if_size word_size)

lemma bytes_memcpy_self:
  assumes "unat dst + unat n \<le> 2 ^ 32"
  shows "bytes dst n (memcpy dst src n m) = bytes src n m"
proof -
  have "memcpy dst src n m (dst + of_nat i) = m (src + of_nat i)" if "i < unat n" for i
  proof -
    have "i < 2 ^ 32" using that unat_u32 [of n] by simp
    then have "(of_nat i :: u32) < n" using that by (simp add: word_less_nat_alt unat_of_nat_small)
    then show ?thesis by (simp add: memcpy_def)
  qed
  then show ?thesis by (simp add: bytes_def)
qed

lemma bytes_memcpy_other:
  assumes "unat dst + unat n \<le> 2 ^ 32" and "unat p + unat k \<le> 2 ^ 32"
    and "unat dst + unat n \<le> unat p \<or> unat p + unat k \<le> unat dst"
  shows "bytes p k (memcpy dst src n m) = bytes p k m"
proof -
  have "memcpy dst src n m (p + of_nat i) = m (p + of_nat i)" if "i < unat k" for i
  proof -
    have "unat p + i < 2 ^ 32" using that assms(2) by simp
    moreover have "unat (of_nat i :: u32) = i" using that unat_u32 [of k] by (simp add: unat_of_nat_small)
    ultimately have "unat (p + of_nat i) = unat p + i" by (metis unat_add_small)
    then have "\<not> p + of_nat i - dst < n" using in_region [OF assms(1)] that assms(3) by auto
    then show ?thesis by (simp add: memcpy_def)
  qed
  then show ?thesis by (simp add: bytes_def)
qed

lemma bytes_put:
  assumes "unat p + length bs \<le> 2 ^ 32" and "unat n = length bs"
  shows "bytes p n (put_bytes p bs m) = bs"
proof (rule nth_equalityI)
  fix i assume "i < length (bytes p n (put_bytes p bs m))"
  then have i: "i < length bs" using assms(2) by simp
  then have "unat (of_nat i :: u32) = i" using assms(2) unat_u32 [of n] by (simp add: unat_of_nat)
  with i show "bytes p n (put_bytes p bs m) ! i = bs ! i" using assms(2) by (simp add: bytes_def put_bytes_def)
qed (simp add: assms)

lemma bytes_put_other:
  assumes "unat dst + length bs \<le> 2 ^ 32" and "unat p + unat k \<le> 2 ^ 32"
    and "unat dst + length bs \<le> unat p \<or> unat p + unat k \<le> unat dst"
  shows "bytes p k (put_bytes dst bs m) = bytes p k m"
proof -
  have "put_bytes dst bs m (p + of_nat i) = m (p + of_nat i)" if "i < unat k" for i
  proof -
    have "unat p + i < 2 ^ 32" using that assms(2) by simp
    moreover have "unat (of_nat i :: u32) = i" using that unat_u32 [of k] by (simp add: unat_of_nat_small)
    ultimately have "unat (p + of_nat i) = unat p + i" by (metis unat_add_small)
    then have "\<not> unat (p + of_nat i - dst) < length bs"
      using that assms(1,3) unat_u32 [of p] unat_u32 [of dst] by (auto simp: unat_sub_wrap)
    then show ?thesis by (simp add: put_bytes_def)
  qed
  then show ?thesis by (simp add: bytes_def)
qed

lemma slot_end:
  assumes "geom Q" and "i < unat (uxLength Q)"
  shows "unat (slot Q i) + unat (uxItemSize Q) \<le> unat (pcTail Q)" and "unat (pcHead Q) \<le> unat (slot Q i)"
    and "unat (pcTail Q) < 2 ^ 32"
proof -
  have "Suc i * unat (uxItemSize Q) \<le> unat (uxLength Q) * unat (uxItemSize Q)" using assms(2) by (intro mult_le_mono1) simp
  then show "unat (slot Q i) + unat (uxItemSize Q) \<le> unat (pcTail Q)"
    using assms unat_slot [OF assms(1)] by (simp add: geom_def)
  show "unat (pcHead Q) \<le> unat (slot Q i)" using assms unat_slot [OF assms(1)] by simp
  show "unat (pcTail Q) < 2 ^ 32" by (rule unat_u32)
qed

lemma slots_apart:
  assumes "geom Q" and "i < unat (uxLength Q)" and "j < unat (uxLength Q)" and "i \<noteq> j"
  shows "unat (slot Q i) + unat (uxItemSize Q) \<le> unat (slot Q j) \<or> unat (slot Q j) + unat (uxItemSize Q) \<le> unat (slot Q i)"
proof -
  consider "Suc i \<le> j" | "Suc j \<le> i" using assms(4) by linarith
  then show ?thesis
  proof cases
    case 1
    then have "Suc i * unat (uxItemSize Q) \<le> j * unat (uxItemSize Q)" by (intro mult_le_mono1)
    then show ?thesis using assms unat_slot [OF assms(1)] by simp
  next
    case 2
    then have "Suc j * unat (uxItemSize Q) \<le> i * unat (uxItemSize Q)" by (intro mult_le_mono1)
    then show ?thesis using assms unat_slot [OF assms(1)] by simp
  qed
qed

lemma slot_write_other:
  assumes "geom Q" and "i < unat (uxLength Q)" and "j < unat (uxLength Q)" and "i \<noteq> j"
  shows "bytes (slot Q j) (uxItemSize Q) (memcpy (slot Q i) src (uxItemSize Q) m) = bytes (slot Q j) (uxItemSize Q) m"
  using slots_apart [OF assms] slot_end [OF assms(1,2)] slot_end [OF assms(1,3)]
  by (intro bytes_memcpy_other) auto

lemma slot_write_self:
  assumes "geom Q" and "i < unat (uxLength Q)"
  shows "bytes (slot Q i) (uxItemSize Q) (memcpy (slot Q i) src (uxItemSize Q) m) = bytes src (uxItemSize Q) m"
  using slot_end [OF assms] by (intro bytes_memcpy_self) auto

lemma slot_write_outside:
  assumes "geom Q" and "i < unat (uxLength Q)" and "outside p n Q"
  shows "bytes (slot Q i) (uxItemSize Q) (memcpy p src n m) = bytes (slot Q i) (uxItemSize Q) m"
  using slot_end [OF assms(1,2)] assms(3) by (intro bytes_memcpy_other) (auto simp: outside_def)

text \<open>Stepping to the next and to the previous slot, as the code does it.\<close>

lemma next_slot:
  assumes g: "geom Q" and i: "i < unat (uxLength Q)"
  shows "(if slot Q i + uxItemSize Q \<ge> pcTail Q then pcHead Q else slot Q i + uxItemSize Q) =
    slot Q (Suc i mod unat (uxLength Q))"
proof -
  have s: "slot Q i + uxItemSize Q = slot Q (Suc i)" by (simp add: slot_def algebra_simps)
  have t: "pcTail Q = slot Q (unat (uxLength Q))" using g by (simp add: geom_def)
  have S: "0 < unat (uxItemSize Q)" using g by (simp add: geom_def unat_gt_0)
  have "slot Q (Suc i) \<ge> pcTail Q \<longleftrightarrow> Suc i = unat (uxLength Q)"
    unfolding t word_le_nat_alt using unat_slot [OF g, of "Suc i"] unat_slot [OF g, of "unat (uxLength Q)"] i S
    by (auto simp del: mult_Suc)
  then show ?thesis unfolding s using i by (auto simp: slot_def)
qed

lemma prev_slot:
  assumes g: "geom Q" and i: "i < unat (uxLength Q)"
  shows "(if slot Q i - uxItemSize Q < pcHead Q then pcTail Q - uxItemSize Q else slot Q i - uxItemSize Q) =
    slot Q ((i + unat (uxLength Q) - 1) mod unat (uxLength Q))"
proof (cases i)
  case 0
  have S: "0 < unat (uxItemSize Q)" using g by (simp add: geom_def unat_gt_0)
  have "unat (pcHead Q - uxItemSize Q) = unat (pcHead Q) - unat (uxItemSize Q)"
    using g by (intro unat_sub_small) (simp add: geom_def)
  then have "slot Q i - uxItemSize Q < pcHead Q" using 0 S g by (simp add: slot_def word_less_nat_alt geom_def)
  moreover have "pcTail Q - uxItemSize Q = slot Q (unat (uxLength Q) - 1)"
  proof -
    obtain l where l: "unat (uxLength Q) = Suc l" using i by (cases "unat (uxLength Q)") auto
    then show ?thesis using g by (simp add: geom_def slot_def algebra_simps)
  qed
  ultimately show ?thesis using 0 i by simp
next
  case (Suc j)
  have e: "slot Q i - uxItemSize Q = slot Q j" by (simp add: slot_def Suc algebra_simps)
  have "\<not> slot Q j < pcHead Q" using slot_end(2) [OF g, of j] i Suc by (simp add: word_less_nat_alt)
  then show ?thesis unfolding e using i Suc by simp
qed

subsection \<open>The operations on the list of items\<close>

lemma mod_wrap: "a < 2 * L \<Longrightarrow> a mod L = (if a < L then a else a - (L :: nat))"
  by (simp add: mod_if)

lemma ring_index_inj:
  assumes "r < (L :: nat)" and "i < L" and "j < L"
  shows "(r + i) mod L = (r + j) mod L \<longleftrightarrow> i = j"
  using assms by (auto simp: mod_wrap)

lemma slot_updates [simp]:
  "slot (pcWriteTo_update f Q) = slot Q" "slot (u_word_update f Q) = slot Q"
  "slot (uxMessagesWaiting_update f Q) = slot Q" "slot (cRxLock_update g Q) = slot Q"
  "slot (cTxLock_update g Q) = slot Q"
  by (simp_all add: slot_def fun_eq_iff)

lemma geom_updates [simp]:
  "geom (pcWriteTo_update f Q) = geom Q" "geom (u_word_update f Q) = geom Q"
  "geom (uxMessagesWaiting_update f Q) = geom Q" "geom (cRxLock_update g Q) = geom Q"
  "geom (cTxLock_update g Q) = geom Q"
  by (simp_all add: geom_def)

lemma length_contents [simp]: "length (contents Q r m) = unat (uxMessagesWaiting Q)"
  by (simp add: contents_def)

lemma ringD:
  assumes "ring Q r"
  shows "geom Q" and "r < unat (uxLength Q)" and "unat (uxMessagesWaiting Q) \<le> unat (uxLength Q)"
    and "pcReadFrom Q = slot Q ((r + unat (uxLength Q) - 1) mod unat (uxLength Q))"
    and "pcWriteTo Q = slot Q ((r + unat (uxMessagesWaiting Q)) mod unat (uxLength Q))"
  using assms by (simp_all add: ring_def Let_def)

lemma messages_Suc:
  assumes "unat (n :: u32) < unat (l :: u32)"
  shows "unat (n + 1) = Suc (unat n)"
proof -
  have "unat n + unat (1 :: u32) < 2 ^ 32" using assms unat_u32 [of l] by simp
  from unat_add_small [OF this] show ?thesis by simp
qed

text \<open>Writing behind the last item.\<close>

lemma ring_send_back:
  assumes R: "ring Q r" and n: "unat (uxMessagesWaiting Q) < unat (uxLength Q)"
    and w: "w = (if pcWriteTo Q + uxItemSize Q \<ge> pcTail Q then pcHead Q else pcWriteTo Q + uxItemSize Q)"
  shows "ring (Q\<lparr>pcWriteTo := w, uxMessagesWaiting := uxMessagesWaiting Q + 1\<rparr>) r"
    and "contents (Q\<lparr>pcWriteTo := w, uxMessagesWaiting := uxMessagesWaiting Q + 1\<rparr>) r
           (memcpy (pcWriteTo Q) p (uxItemSize Q) m) = contents Q r m @ [bytes p (uxItemSize Q) m]"
proof -
  let ?L = "unat (uxLength Q)" and ?n = "unat (uxMessagesWaiting Q)"
  let ?Q = "Q\<lparr>pcWriteTo := w, uxMessagesWaiting := uxMessagesWaiting Q + 1\<rparr>"
  note D = ringD [OF R]
  have L: "0 < ?L" using D(2) by simp
  have i: "(r + ?n) mod ?L < ?L" using L by simp
  have "w = slot Q (Suc ((r + ?n) mod ?L) mod ?L)" unfolding w D(5) by (rule next_slot [OF D(1) i])
  then have w': "w = slot Q ((r + Suc ?n) mod ?L)" by (simp add: mod_Suc_eq)
  have s: "unat (uxMessagesWaiting Q + 1) = Suc ?n" by (rule messages_Suc [OF n])
  show "ring ?Q r" using D n w' by (simp add: ring_def s Let_def)
  have "bytes (slot Q ((r + j) mod ?L)) (uxItemSize Q) (memcpy (pcWriteTo Q) p (uxItemSize Q) m) =
      bytes (slot Q ((r + j) mod ?L)) (uxItemSize Q) m" if "j < ?n" for j
  proof -
    have "(r + ?n) mod ?L \<noteq> (r + j) mod ?L" using ring_index_inj [OF D(2), of ?n j] that n by simp
    then show ?thesis unfolding D(5) using L by (intro slot_write_other [OF D(1) i]) simp_all
  qed
  then show "contents ?Q r (memcpy (pcWriteTo Q) p (uxItemSize Q) m) = contents Q r m @ [bytes p (uxItemSize Q) m]"
    using slot_write_self [OF D(1) i] D(5) by (simp add: contents_def s)
qed

text \<open>Writing before the first item.\<close>

lemma ring_send_front:
  assumes R: "ring Q r" and n: "unat (uxMessagesWaiting Q) < unat (uxLength Q)"
    and w: "w = (if pcReadFrom Q - uxItemSize Q < pcHead Q then pcTail Q - uxItemSize Q else pcReadFrom Q - uxItemSize Q)"
  defines "r' \<equiv> (r + unat (uxLength Q) - 1) mod unat (uxLength Q)"
  shows "ring (Q\<lparr>u_word := w, uxMessagesWaiting := uxMessagesWaiting Q + 1\<rparr>) r'"
    and "contents (Q\<lparr>u_word := w, uxMessagesWaiting := uxMessagesWaiting Q + 1\<rparr>) r'
           (memcpy (pcReadFrom Q) p (uxItemSize Q) m) = bytes p (uxItemSize Q) m # contents Q r m"
proof -
  let ?L = "unat (uxLength Q)" and ?n = "unat (uxMessagesWaiting Q)"
  let ?Q = "Q\<lparr>u_word := w, uxMessagesWaiting := uxMessagesWaiting Q + 1\<rparr>"
  note D = ringD [OF R]
  have L: "0 < ?L" using D(2) by simp
  have i: "r' < ?L" using L by (simp add: r'_def)
  have rd: "pcReadFrom Q = slot Q r'" using D(4) by (simp add: r'_def)
  have "w = slot Q ((r' + ?L - 1) mod ?L)" unfolding w rd by (rule prev_slot [OF D(1) i])
  have s: "unat (uxMessagesWaiting Q + 1) = Suc ?n" by (rule messages_Suc [OF n])
  have step: "(r' + Suc j) mod ?L = (r + j) mod ?L" if "j < ?L" for j
    using that D(2) by (auto simp: r'_def mod_wrap)
  have "(r' + Suc ?n) mod ?L = (r + ?n) mod ?L" by (rule step [OF n])
  then show "ring ?Q r'"
    using D(1,3,5) n i \<open>w = slot Q ((r' + ?L - 1) mod ?L)\<close> by (simp add: ring_def s Let_def)
  have "bytes (slot Q ((r + j) mod ?L)) (uxItemSize Q) (memcpy (pcReadFrom Q) p (uxItemSize Q) m) =
      bytes (slot Q ((r + j) mod ?L)) (uxItemSize Q) m" if "j < ?n" for j
  proof -
    have "r' \<noteq> (r + j) mod ?L" using that n D(2) by (auto simp: r'_def mod_wrap split: if_splits)
    then show ?thesis unfolding rd using L by (intro slot_write_other [OF D(1) i]) simp_all
  qed
  moreover have "[0..<Suc ?n] = 0 # map Suc [0..<?n]" by (simp add: map_Suc_upt upt_conv_Cons del: upt_Suc)
  moreover have "r' mod ?L = r'" using i by simp
  ultimately show "contents ?Q r' (memcpy (pcReadFrom Q) p (uxItemSize Q) m) = bytes p (uxItemSize Q) m # contents Q r m"
    using slot_write_self [OF D(1) i] rd step n by (simp add: contents_def s del: upt_Suc)
qed

text \<open>Reading the first item.\<close>

lemma ring_receive:
  assumes R: "ring Q r" and n: "0 < unat (uxMessagesWaiting Q)" and o: "outside p (uxItemSize Q) Q"
    and w: "w = (if pcReadFrom Q + uxItemSize Q \<ge> pcTail Q then pcHead Q else pcReadFrom Q + uxItemSize Q)"
  shows "w = slot Q r"
    and "bytes p (uxItemSize Q) (memcpy p w (uxItemSize Q) m) = hd (contents Q r m)"
    and "contents Q r (memcpy p w (uxItemSize Q) m) = contents Q r m"
    and "ring (Q\<lparr>u_word := w, uxMessagesWaiting := uxMessagesWaiting Q - 1\<rparr>) (Suc r mod unat (uxLength Q))"
    and "contents (Q\<lparr>u_word := w, uxMessagesWaiting := uxMessagesWaiting Q - 1\<rparr>) (Suc r mod unat (uxLength Q))
           (memcpy p w (uxItemSize Q) m) = tl (contents Q r m)"
proof -
  let ?L = "unat (uxLength Q)" and ?n = "unat (uxMessagesWaiting Q)" and ?r = "Suc r mod unat (uxLength Q)"
  let ?Q = "Q\<lparr>u_word := w, uxMessagesWaiting := uxMessagesWaiting Q - 1\<rparr>"
  note D = ringD [OF R]
  have L: "0 < ?L" using D(2) by simp
  obtain l where l: "?n = Suc l" using n by (cases ?n) auto
  have "w = slot Q (Suc ((r + ?L - 1) mod ?L) mod ?L)" unfolding w D(4) using L by (intro next_slot [OF D(1)]) simp
  also have "Suc ((r + ?L - 1) mod ?L) mod ?L = r" using D(2) by (auto simp: mod_wrap)
  finally show wr: "w = slot Q r" .
  have c: "contents Q r m = bytes (slot Q r) (uxItemSize Q) m # map (\<lambda>i. bytes (slot Q ((r + Suc i) mod ?L)) (uxItemSize Q) m) [0..<l]"
    using D(2) by (simp add: contents_def l upt_conv_Cons map_Suc_upt [symmetric] del: upt_Suc)
  have same: "bytes (slot Q (j mod ?L)) (uxItemSize Q) (memcpy p w (uxItemSize Q) m) = bytes (slot Q (j mod ?L)) (uxItemSize Q) m" for j
    using L by (intro slot_write_outside [OF D(1) _ o]) simp
  show "bytes p (uxItemSize Q) (memcpy p w (uxItemSize Q) m) = hd (contents Q r m)"
    using o by (simp add: c wr bytes_memcpy_self outside_def)
  show "contents Q r (memcpy p w (uxItemSize Q) m) = contents Q r m" by (simp add: contents_def same)
  have s: "unat (uxMessagesWaiting Q - 1) = l" using l by (subst unat_sub_small) simp_all
  have r': "(?r + ?L - Suc 0) mod ?L = r" using D(2) by (auto simp: mod_wrap)
  have wt: "(?r + l) mod ?L = (r + ?n) mod ?L" by (simp add: l mod_simps)
  show "ring ?Q ?r" using D(1,3,5) L l wr by (simp add: ring_def s r' wt Let_def)
  have "(?r + i) mod ?L = (r + Suc i) mod ?L" for i by (simp add: mod_simps)
  then show "contents ?Q ?r (memcpy p w (uxItemSize Q) m) = tl (contents Q r m)"
    by (simp add: contents_def [of ?Q] s same c)
qed

end
