(* ===== verification/QueueSpec.thy ===== *)
theory QueueSpec
  imports QueueRing
begin

section \<open>What the queue functions do\<close>

subsection \<open>Copying, on the list of items\<close>

definition same_queue :: "ptr \<Rightarrow> sys \<Rightarrow> sys \<Rightarrow> bool" where
  "same_queue q s s' \<longleftrightarrow> kern s' = kern s \<and> (\<forall>p. p \<noteq> q \<longrightarrow> queues s' p = queues s p) \<and>
     uxLength (queues s' q) = uxLength (queues s q) \<and> uxItemSize (queues s' q) = uxItemSize (queues s q) \<and>
     pcHead (queues s' q) = pcHead (queues s q) \<and> pcTail (queues s' q) = pcTail (queues s q) \<and>
     cRxLock (queues s' q) = cRxLock (queues s q) \<and> cTxLock (queues s' q) = cTxLock (queues s q)"

definition same_shape :: "ptr \<Rightarrow> sys \<Rightarrow> sys \<Rightarrow> bool" where
  "same_shape q s s' \<longleftrightarrow> uxLength (queues s' q) = uxLength (queues s q) \<and> uxItemSize (queues s' q) = uxItemSize (queues s q) \<and>
     pcHead (queues s' q) = pcHead (queues s q) \<and> pcTail (queues s' q) = pcTail (queues s q)"

abbreviation item_at :: "ptr \<Rightarrow> ptr \<Rightarrow> sys \<Rightarrow> u8 list" where
  "item_at p q s \<equiv> bytes p (uxItemSize (queues s q)) (mem s)"

lemma holds_length:
  "holds q s xs \<Longrightarrow> length xs = unat (uxMessagesWaiting (queues s q))"
  by (auto simp: holds_def)

lemma holds_bound: "holds q s xs \<Longrightarrow> length xs \<le> unat (uxLength (queues s q))"
  by (auto simp: holds_def dest: ringD(3))

lemma holds_size: "holds q s xs \<Longrightarrow> uxItemSize (queues s q) \<noteq> 0"
  by (auto simp: holds_def geom_def dest: ringD(1))

lemma copy_back:
  assumes h: "holds q s xs" and n: "length xs < unat (uxLength (queues s q))"
  shows "\<exists>s'. prvCopyDataToQueue q p queueSEND_TO_BACK s = Some (False, s') \<and> holds q s' (xs @ [item_at p q s]) \<and>
     same_queue q s s'"
proof -
  let ?Q = "queues s q"
  obtain r where r: "ring ?Q r" "xs = contents ?Q r (mem s)" using h by (auto simp: holds_def)
  have n': "unat (uxMessagesWaiting ?Q) < unat (uxLength ?Q)" using n holds_length [OF h] by simp
  define w where "w = (if pcWriteTo ?Q + uxItemSize ?Q \<ge> pcTail ?Q then pcHead ?Q else pcWriteTo ?Q + uxItemSize ?Q)"
  define s' where "s' = s\<lparr>mem := memcpy (pcWriteTo ?Q) p (uxItemSize ?Q) (mem s),
     queues := (queues s)(q := ?Q\<lparr>pcWriteTo := w, uxMessagesWaiting := uxMessagesWaiting ?Q + 1\<rparr>)\<rparr>"
  have "prvCopyDataToQueue q p queueSEND_TO_BACK s = Some (False, s')"
    using holds_size [OF h] by (simp add: prvCopyDataToQueue_def s'_def w_def upd_queue_def Let_def)
  moreover have "holds q s' (xs @ [item_at p q s])"
    using ring_send_back(1) [OF r(1) n' w_def] ring_send_back(2) [OF r(1) n' w_def, of p "mem s"] r(2) by (auto simp: holds_def s'_def)
  ultimately show ?thesis by (intro exI [of _ s']) (simp add: same_queue_def s'_def)
qed

lemma copy_front:
  assumes h: "holds q s xs" and n: "length xs < unat (uxLength (queues s q))"
  shows "\<exists>s'. prvCopyDataToQueue q p queueSEND_TO_FRONT s = Some (False, s') \<and> holds q s' (item_at p q s # xs) \<and>
     same_queue q s s'"
proof -
  let ?Q = "queues s q"
  obtain r where r: "ring ?Q r" "xs = contents ?Q r (mem s)" using h by (auto simp: holds_def)
  have n': "unat (uxMessagesWaiting ?Q) < unat (uxLength ?Q)" using n holds_length [OF h] by simp
  define w where "w = (if pcReadFrom ?Q - uxItemSize ?Q < pcHead ?Q then pcTail ?Q - uxItemSize ?Q else pcReadFrom ?Q - uxItemSize ?Q)"
  define s' where "s' = s\<lparr>mem := memcpy (pcReadFrom ?Q) p (uxItemSize ?Q) (mem s),
     queues := (queues s)(q := ?Q\<lparr>u_word := w, uxMessagesWaiting := uxMessagesWaiting ?Q + 1\<rparr>)\<rparr>"
  have "prvCopyDataToQueue q p queueSEND_TO_FRONT s = Some (False, s')"
    using holds_size [OF h] by (simp add: prvCopyDataToQueue_def s'_def w_def upd_queue_def Let_def)
  moreover have "holds q s' (item_at p q s # xs)"
    using ring_send_front(1) [OF r(1) n' w_def] ring_send_front(2) [OF r(1) n' w_def, of p "mem s"] r(2) by (auto simp: holds_def s'_def)
  ultimately show ?thesis by (intro exI [of _ s']) (simp add: same_queue_def s'_def)
qed

text \<open>Overwriting, which the assertions allow on a queue of length 1 only.\<close>

lemma ring_forget:
  assumes "ring Q r" and "uxLength Q = 1" and "uxMessagesWaiting Q = 0 \<or> uxMessagesWaiting Q = 1"
  shows "ring (Q\<lparr>uxMessagesWaiting := 0\<rparr>) r"
  using assms ringD(2) [OF assms(1)] by (auto simp: ring_def Let_def)

lemma copy_overwrite:
  assumes h: "holds q s xs" and l: "uxLength (queues s q) = 1"
  shows "\<exists>s'. prvCopyDataToQueue q p queueOVERWRITE s = Some (False, s') \<and> holds q s' [item_at p q s] \<and> same_queue q s s'"
proof -
  let ?Q = "queues s q"
  obtain r where r: "ring ?Q r" "xs = contents ?Q r (mem s)" using h by (auto simp: holds_def)
  have "unat (uxMessagesWaiting ?Q) \<le> 1" using ringD(3) [OF r(1)] l by simp
  then have "unat (uxMessagesWaiting ?Q) = 0 \<or> unat (uxMessagesWaiting ?Q) = 1" by linarith
  then have n: "uxMessagesWaiting ?Q = 0 \<or> uxMessagesWaiting ?Q = 1" by (metis unat_eq_zero word_unat_eq of_nat_1)
  let ?R = "?Q\<lparr>uxMessagesWaiting := 0\<rparr>"
  have R: "ring ?R r" by (rule ring_forget [OF r(1) l n])
  define w where "w = (if pcReadFrom ?Q - uxItemSize ?Q < pcHead ?Q then pcTail ?Q - uxItemSize ?Q else pcReadFrom ?Q - uxItemSize ?Q)"
  define c where "c = (if uxMessagesWaiting ?Q > 0 then uxMessagesWaiting ?Q - 1 else uxMessagesWaiting ?Q)"
  have c: "c = 0" using n by (auto simp: c_def)
  define s' where "s' = s\<lparr>mem := memcpy (pcReadFrom ?Q) p (uxItemSize ?Q) (mem s),
     queues := (queues s)(q := ?Q\<lparr>u_word := w, uxMessagesWaiting := c + 1\<rparr>)\<rparr>"
  have "prvCopyDataToQueue q p queueOVERWRITE s = Some (False, s')"
    using holds_size [OF h] by (simp add: prvCopyDataToQueue_def c_def [symmetric] s'_def w_def upd_queue_def Let_def)
  moreover have "holds q s' [item_at p q s]"
    using ring_send_front(1) [OF R, of w] ring_send_front(2) [OF R, of w p "mem s"] l by (auto simp: c holds_def s'_def w_def contents_def [of ?R])
  ultimately show ?thesis by (intro exI [of _ s']) (simp add: same_queue_def s'_def)
qed

lemma copy_from:
  assumes h: "holds q s (x # xs)" and o: "outside p (uxItemSize (queues s q)) (queues s q)"
  shows "item_at p q (prvCopyDataFromQueue q p s) = x"
    and "holds q (upd_queue q (uxMessagesWaiting_update (\<lambda>_. uxMessagesWaiting (queues s q) - 1))
           (prvCopyDataFromQueue q p s)) xs"
    and "holds q (upd_queue q (u_word_update (\<lambda>_. u_word (queues s q))) (prvCopyDataFromQueue q p s)) (x # xs)"
    and "same_queue q s (prvCopyDataFromQueue q p s)"
    and "uxMessagesWaiting (queues (prvCopyDataFromQueue q p s) q) = uxMessagesWaiting (queues s q)"
proof -
  let ?Q = "queues s q"
  obtain r where r: "ring ?Q r" "x # xs = contents ?Q r (mem s)" using h by (auto simp: holds_def)
  have n: "0 < unat (uxMessagesWaiting ?Q)" using holds_length [OF h] by (metis length_greater_0_conv list.distinct(1))
  define w where "w = (if pcReadFrom ?Q + uxItemSize ?Q \<ge> pcTail ?Q then pcHead ?Q else pcReadFrom ?Q + uxItemSize ?Q)"
  have eq: "prvCopyDataFromQueue q p s = s\<lparr>mem := memcpy p w (uxItemSize ?Q) (mem s),
      queues := (queues s)(q := ?Q\<lparr>u_word := w\<rparr>)\<rparr>"
    using holds_size [OF h] by (simp add: prvCopyDataFromQueue_def w_def upd_queue_def Let_def)
  note R = ring_receive(1) [OF r(1) n o w_def] ring_receive(2,3) [OF r(1) n o w_def, of "mem s"]
    ring_receive(4) [OF r(1) n o w_def] ring_receive(5) [OF r(1) n o w_def, of "mem s"]
  show "item_at p q (prvCopyDataFromQueue q p s) = x" using R(2) r(2) [symmetric] by (simp add: eq)
  show "holds q (upd_queue q (uxMessagesWaiting_update (\<lambda>_. uxMessagesWaiting ?Q - 1))
           (prvCopyDataFromQueue q p s)) xs"
    using R(4,5) r(2) [symmetric] by (auto simp: holds_def eq)
  have "?Q\<lparr>u_word := u_word ?Q\<rparr> = ?Q" by simp
  then show "holds q (upd_queue q (u_word_update (\<lambda>_. u_word ?Q)) (prvCopyDataFromQueue q p s)) (x # xs)"
    using R(3) r by (auto simp: holds_def eq)
  show "same_queue q s (prvCopyDataFromQueue q p s)" "uxMessagesWaiting (queues (prvCopyDataFromQueue q p s) q) = uxMessagesWaiting ?Q"
    by (simp_all add: same_queue_def eq)
qed

subsection \<open>Waking waiting tasks\<close>

definition waiters :: "list_id \<Rightarrow> kernel \<Rightarrow> ptr list" where
  "waiters l k = map owner (items k l)"

lemma waiters_head:
  assumes inv: "kinv_at lo Ls X k" and l: "l \<in> Ls" "event_list l" and w: "waiters l k = p # ps"
  shows "l_head l (ls k) = Some (EventItem p)"
proof -
  obtain i where i: "items k l = i # tl (items k l)" "owner i = p" using w by (cases "items k l") (auto simp: waiters_def)
  then have h: "l_head l (ls k) = Some i" by (metis hd_opt_def list.simps(5))
  from event_head [OF inv l h] i(2) h show ?thesis by auto
qed

lemma waiters_wake:
  assumes inv: "kinv_at lo Ls X k" and l: "l \<in> Ls" "event_list l" and w: "waiters l k = p # ps"
  shows "waiters l (wake p k) = ps"
proof -
  have h: "l_head l (ls k) = Some (EventItem p)" by (rule waiters_head [OF inv l w])
  have it: "items k l = EventItem p # tl (items k l)" using event_head [OF inv l h] by auto
  then have "map owner (tl (items k l)) = ps" using w unfolding waiters_def by (metis list.sel(3) map_tl)
  moreover have "items (wake p k) l = tl (items k l)"
    using wake_items [OF inv l, of p] it by (metis remove1.simps(2))
  ultimately show ?thesis by (simp add: waiters_def)
qed

lemma missed_yield_wake [simp]:
  "(if prio k (pxCurrentTCB k) < prio k p then vTaskMissedYield (wake p k) else wake p k) = wake p k"
  by (auto simp: vTaskMissedYield_def wake_def)

lemma sint_pred:
  assumes "0 < sint (c :: u8)" shows "sint (c - 1) = sint c - 1"
proof -
  have "sint c < 2 ^ 7" using sint_lt [of c] by simp
  then have "signed_take_bit 7 (sint c - 1) = sint c - 1"
    using assms by (intro signed_take_bit_int_eq_self) auto
  then show ?thesis by (simp add: sint_word_ariths)
qed

text \<open>\<open>prvUnlockQueue\<close> makes up for the interrupts that found the queue locked: it wakes a task for
  each, as long as there are any.\<close>

theorem unlock_wake_spec:
  assumes "kinv_at lo Ls {} k" and "l \<in> Ls" and "event_list l" and "NULL \<notin> set (waiters l k)"
  shows "unlock_wake l c k = Some (fold wake (take (nat (sint c)) (waiters l k)) k) \<and>
     kinv_at lo Ls {} (fold wake (take (nat (sint c)) (waiters l k)) k)"
  using assms
proof (induction "nat (sint c)" arbitrary: c k)
  case 0
  then show ?case by (simp add: unlock_wake.simps [of l c])
next
  case (Suc n)
  then have c: "0 < sint c" by simp
  have n: "n = nat (sint (c - 1))" using Suc.hyps(2) sint_pred [OF c] by simp
  show ?case
  proof (cases "waiters l k")
    case Nil
    then have "items k l = []" by (simp add: waiters_def)
    with Nil Suc.prems(1) show ?thesis by (simp add: unlock_wake.simps [of l c])
  next
    case (Cons p ps)
    then have ne: "items k l \<noteq> []" by (auto simp: waiters_def)
    have h: "l_head l (ls k) = Some (EventItem p)" by (rule waiters_head [OF Suc.prems(1-3) Cons])
    have p: "p \<noteq> NULL" using Suc.prems(4) Cons by auto
    note R = remove_from_event_list_wake [OF Suc.prems(1-3) h p]
    have w: "waiters l (wake p k) = ps" by (rule waiters_wake [OF Suc.prems(1-3) Cons])
    have "NULL \<notin> set (waiters l (wake p k))" using Suc.prems(4) Cons w by auto
    from Suc.hyps(1) [OF n R(2) Suc.prems(2,3) this] w
    have IH: "unlock_wake l (c - 1) (wake p k) = Some (fold wake (take n ps) (wake p k))"
      "kinv_at lo Ls {} (fold wake (take n ps) (wake p k))" by (simp_all add: n)
    have "unlock_wake l c k = unlock_wake l (c - 1) (wake p k)"
      using c ne R(1) by (simp add: unlock_wake.simps [of l c])
    then show ?thesis using IH Cons Suc.hyps(2) [symmetric] by simp
  qed
qed

lemma unlock_wake_none: "\<not> 0 < sint c \<Longrightarrow> unlock_wake l c k = Some k"
  by (simp add: unlock_wake.simps)

text \<open>One task woken by a send or a receive, and the switch to it when it is more urgent.\<close>

theorem wake_and_yield_spec:
  assumes inv: "kinv Ls {} (kern s)" and l: "l \<in> Ls" "event_list l" and run: "uxSchedulerSuspended (kern s) = 0"
    and w: "waiters l (kern s) = p # ps" and p: "p \<noteq> NULL"
  shows "\<exists>k'. wake_and_yield l s = Some (s\<lparr>kern := k'\<rparr>) \<and> kinv Ls {} k' \<and> tcbs k' = tcbs (kern s) \<and>
     cont_of k' = (cont_of (kern s))(EventItem p := None, StateItem p := Some (ReadyL (unat (prio (kern s) p)))) \<and>
     waiters l k' = ps \<and> uxSchedulerSuspended k' = 0 \<and> xTickCount k' = xTickCount (kern s) \<and>
     (if prio (kern s) (pxCurrentTCB (kern s)) < prio (kern s) p then runs_highest k'
      else pxCurrentTCB k' = pxCurrentTCB (kern s))"
proof -
  let ?k = "kern s"
  have h: "l_head l (ls ?k) = Some (EventItem p)" by (rule waiters_head [OF inv l w])
  have ne: "items ?k l \<noteq> []" using w by (auto simp: waiters_def)
  note R = remove_from_event_list_wake [OF inv l h p]
  have i: "kinv Ls {} (wake p ?k)" using R(2) by simp
  have c: "cont_of (wake p ?k) = (cont_of ?k)(EventItem p := None, StateItem p := Some (ReadyL (unat (prio ?k p))))"
    using run by (simp add: wake_cont)
  have eq: "wake_and_yield l s = (if prio ?k (pxCurrentTCB ?k) < prio ?k p
      then on_kern portYIELD_WITHIN_API (s\<lparr>kern := wake p ?k\<rparr>) else Some (s\<lparr>kern := wake p ?k\<rparr>))"
    using ne R(1) by (simp add: wake_and_yield_def wake_first_def on_kern_r_def)
  have ww: "waiters l (wake p ?k) = ps" by (rule waiters_wake [OF inv l w])
  show ?thesis
  proof (cases "prio ?k (pxCurrentTCB ?k) < prio ?k p")
    case True
    have "some_ready (wake p ?k)" using some_ready_iff [OF i] c by (intro iffD2 [OF some_ready_iff [OF i]]) auto
    then obtain k' where k': "vTaskSwitchContext (wake p ?k) = Some k'" "kinv Ls {} k'" "cont_of k' = cont_of (wake p ?k)"
        "items k' = items (wake p ?k)" "tcbs k' = tcbs (wake p ?k)" "runs_highest k'" "uxSchedulerSuspended k' = 0"
        "xTickCount k' = xTickCount (wake p ?k)"
      using switch_runs_highest [OF i] run by auto
    moreover have "waiters l k' = ps" using ww fun_cong [OF k'(4), of l] by (simp add: waiters_def)
    ultimately show ?thesis using True eq c
      by (intro exI [of _ k']) (simp add: on_kern_def portYIELD_WITHIN_API_def)
  next
    case False
    then show ?thesis using eq c i run ww by (intro exI [of _ "wake p ?k"]) simp
  qed
qed

subsection \<open>Sending and receiving without waiting\<close>

definition no_null :: "kernel \<Rightarrow> bool" where
  "no_null k \<longleftrightarrow> (\<forall>i. cont_of k i \<noteq> None \<longrightarrow> owner i \<noteq> NULL)"

text \<open>The kernel between two calls, with the lists of queue \<open>q\<close> among its lists.\<close>

lemma fold_wake_fields [simp]:
  "xTickCount (fold wake ps k) = xTickCount k" "tcbs (fold wake ps k) = tcbs k"
  "pxCurrentTCB (fold wake ps k) = pxCurrentTCB k"
  by (induction ps arbitrary: k) simp_all

lemma no_null_wake: "no_null k \<Longrightarrow> p \<noteq> NULL \<Longrightarrow> no_null (wake p k)"
  by (simp add: no_null_def wake_cont)

lemma no_null_fold_wake: "no_null k \<Longrightarrow> NULL \<notin> set ps \<Longrightarrow> no_null (fold wake ps k)"
  by (induction ps arbitrary: k) (simp_all add: no_null_wake)

definition usable :: "list_id set \<Rightarrow> ptr \<Rightarrow> sys \<Rightarrow> bool" where
  "usable Ls q s \<longleftrightarrow> kinv Ls {} (kern s) \<and> WaitReceiveL q \<in> Ls \<and> WaitSendL q \<in> Ls \<and>
     uxSchedulerSuspended (kern s) = 0 \<and> no_null (kern s)"

lemma no_null_waiters:
  assumes "kinv_at lo Ls X k" and "l \<in> Ls" and "no_null k"
  shows "NULL \<notin> set (waiters l k)"
proof
  assume "NULL \<in> set (waiters l k)"
  then obtain i where "i \<in> set (items k l)" "owner i = NULL" by (auto simp: waiters_def)
  with mem_items [OF assms(1,2), of i] assms(3) show False by (auto simp: no_null_def)
qed

text \<open>The task that a send or a receive wakes is ready afterwards, the others wait on.\<close>

definition woken :: "list_id \<Rightarrow> kernel \<Rightarrow> kernel \<Rightarrow> bool" where
  "woken l k k' \<longleftrightarrow> waiters l k' = tl (waiters l k) \<and> tcbs k' = tcbs k \<and>
     (case waiters l k of
        [] \<Rightarrow> cont_of k' = cont_of k \<and> pxCurrentTCB k' = pxCurrentTCB k
      | p # _ \<Rightarrow> cont_of k' = (cont_of k)(EventItem p := None, StateItem p := Some (ReadyL (unat (prio k p)))) \<and>
          (if prio k (pxCurrentTCB k) < prio k p then runs_highest k' else pxCurrentTCB k' = pxCurrentTCB k))"

lemma wake_and_yield_woken:
  assumes u: "usable Ls q s" and l: "l = WaitReceiveL q \<or> l = WaitSendL q" and ne: "items (kern s) l \<noteq> []"
  shows "\<exists>k'. wake_and_yield l s = Some (s\<lparr>kern := k'\<rparr>) \<and> woken l (kern s) k' \<and> usable Ls q (s\<lparr>kern := k'\<rparr>)"
proof -
  have inv: "kinv Ls {} (kern s)" and lL: "l \<in> Ls" "event_list l" and run: "uxSchedulerSuspended (kern s) = 0"
    and nn: "no_null (kern s)"
    using u l by (auto simp: usable_def)
  obtain p ps where w: "waiters l (kern s) = p # ps" using ne by (cases "waiters l (kern s)") (auto simp: waiters_def)
  then have p: "p \<noteq> NULL" using no_null_waiters [OF inv lL(1) nn] by auto
  obtain k' where k': "wake_and_yield l s = Some (s\<lparr>kern := k'\<rparr>)" "kinv Ls {} k'" "tcbs k' = tcbs (kern s)"
     "cont_of k' = (cont_of (kern s))(EventItem p := None, StateItem p := Some (ReadyL (unat (prio (kern s) p))))"
     "waiters l k' = ps" "uxSchedulerSuspended k' = 0"
     "if prio (kern s) (pxCurrentTCB (kern s)) < prio (kern s) p then runs_highest k'
      else pxCurrentTCB k' = pxCurrentTCB (kern s)"
    using wake_and_yield_spec [OF inv lL run w p] by blast
  have "no_null k'" using nn p by (auto simp: no_null_def k'(4))
  then have "usable Ls q (s\<lparr>kern := k'\<rparr>)" using u k'(2,6) by (simp add: usable_def)
  moreover have "woken l (kern s) k'" using k'(3,4,5,7) w by (simp add: woken_def)
  ultimately show ?thesis using k'(1) by blast
qed

lemma woken_none: "items k l = [] \<Longrightarrow> woken l k k"
  by (simp add: woken_def waiters_def)

fun put :: "copy_position \<Rightarrow> 'a \<Rightarrow> 'a list \<Rightarrow> 'a list" where
  "put queueSEND_TO_BACK x xs = xs @ [x]"
| "put queueSEND_TO_FRONT x xs = x # xs"
| "put queueOVERWRITE x xs = [x]"

lemma copy_put:
  assumes h: "holds q s xs" and n: "pos = queueOVERWRITE \<or> length xs < unat (uxLength (queues s q))"
    and l: "pos = queueOVERWRITE \<Longrightarrow> uxLength (queues s q) = 1"
  shows "\<exists>s'. prvCopyDataToQueue q p pos s = Some (False, s') \<and> holds q s' (put pos (item_at p q s) xs) \<and> same_queue q s s'"
  using copy_back [OF h] copy_front [OF h] copy_overwrite [OF h] n l by (cases pos) auto

lemma holds_kern [simp]: "holds q (s\<lparr>kern := k\<rparr>) xs = holds q s xs"
  by (simp add: holds_def)

lemma copy_from_kern [simp]: "kern (prvCopyDataFromQueue q p s) = kern s"
  by (simp add: prvCopyDataFromQueue_def Let_def)

lemma same_shape_kern [simp]: "same_shape q s (s'\<lparr>kern := k\<rparr>) = same_shape q s s'"
  by (simp add: same_shape_def)

lemma same_shapeD: "same_shape q s s' \<Longrightarrow> uxItemSize (queues s' q) = uxItemSize (queues s q)"
  by (simp add: same_shape_def)

theorem send_now_spec:
  assumes h: "holds q s xs" and n: "pos = queueOVERWRITE \<or> length xs < unat (uxLength (queues s q))"
    and l: "pos = queueOVERWRITE \<Longrightarrow> uxLength (queues s q) = 1" and u: "usable Ls q s"
  shows "\<exists>s'. send_now q p pos s = Some s' \<and> holds q s' (put pos (item_at p q s) xs) \<and> usable Ls q s' \<and>
     woken (WaitReceiveL q) (kern s) (kern s') \<and> same_shape q s s'"
proof -
  obtain s1 where s1: "prvCopyDataToQueue q p pos s = Some (False, s1)" "holds q s1 (put pos (item_at p q s) xs)"
    "same_queue q s s1"
    using copy_put [OF h n l] by blast
  then have k: "kern s1 = kern s" and f: "same_shape q s s1" by (simp_all add: same_queue_def same_shape_def)
  have u1: "usable Ls q s1" using u by (simp add: usable_def k)
  show ?thesis
  proof (cases "items (kern s) (WaitReceiveL q) = []")
    case True
    then show ?thesis using s1 k f u1 woken_none
      by (intro exI [of _ s1]) (simp add: send_now_def)
  next
    case False
    obtain k' where k': "wake_and_yield (WaitReceiveL q) s1 = Some (s1\<lparr>kern := k'\<rparr>)"
      "woken (WaitReceiveL q) (kern s1) k'" "usable Ls q (s1\<lparr>kern := k'\<rparr>)"
      using wake_and_yield_woken [OF u1, of "WaitReceiveL q"] False k by auto
    then show ?thesis using s1 k f False
      by (intro exI [of _ "s1\<lparr>kern := k'\<rparr>"]) (simp add: send_now_def)
  qed
qed

theorem receive_now_spec:
  assumes h: "holds q s (x # xs)" and o: "outside p (uxItemSize (queues s q)) (queues s q)" and u: "usable Ls q s"
  shows "\<exists>s'. receive_now q p s = Some s' \<and> holds q s' xs \<and> item_at p q s' = x \<and> usable Ls q s' \<and>
     woken (WaitSendL q) (kern s) (kern s') \<and> same_shape q s s'"
proof -
  define s1 where "s1 = upd_queue q (uxMessagesWaiting_update (\<lambda>_. uxMessagesWaiting (queues s q) - 1)) (prvCopyDataFromQueue q p s)"
  note C = copy_from [OF h o]
  have k: "kern s1 = kern s" and f: "same_shape q s s1" using C(4) by (simp_all add: same_queue_def same_shape_def s1_def)
  have i: "item_at p q s1 = x" using C(1) by (simp add: s1_def)
  have u1: "usable Ls q s1" using u by (simp add: usable_def k)
  have h1: "holds q s1 xs" using C(2) by (simp add: s1_def)
  show ?thesis
  proof (cases "items (kern s) (WaitSendL q) = []")
    case True
    then show ?thesis using h1 i k f u1 woken_none
      by (intro exI [of _ s1]) (simp add: receive_now_def s1_def [symmetric])
  next
    case False
    obtain k' where k': "wake_and_yield (WaitSendL q) s1 = Some (s1\<lparr>kern := k'\<rparr>)"
      "woken (WaitSendL q) (kern s1) k'" "usable Ls q (s1\<lparr>kern := k'\<rparr>)"
      using wake_and_yield_woken [OF u1, of "WaitSendL q"] False k by auto
    then show ?thesis using h1 i k f False
      by (intro exI [of _ "s1\<lparr>kern := k'\<rparr>"]) (simp add: receive_now_def s1_def [symmetric])
  qed
qed

theorem peek_now_spec:
  assumes h: "holds q s (x # xs)" and o: "outside p (uxItemSize (queues s q)) (queues s q)" and u: "usable Ls q s"
  shows "\<exists>s'. peek_now q p s = Some s' \<and> holds q s' (x # xs) \<and> item_at p q s' = x \<and> usable Ls q s' \<and>
     woken (WaitReceiveL q) (kern s) (kern s') \<and> same_shape q s s'"
proof -
  define s1 where "s1 = upd_queue q (u_word_update (\<lambda>_. u_word (queues s q))) (prvCopyDataFromQueue q p s)"
  note C = copy_from [OF h o]
  have k: "kern s1 = kern s" and f: "same_shape q s s1"
    using C(4) by (simp_all add: same_queue_def same_shape_def s1_def)
  have i: "item_at p q s1 = x" using C(1) by (simp add: s1_def)
  have u1: "usable Ls q s1" using u by (simp add: usable_def k)
  have h1: "holds q s1 (x # xs)" using C(3) by (simp add: s1_def)
  show ?thesis
  proof (cases "items (kern s) (WaitReceiveL q) = []")
    case True
    then show ?thesis using h1 i k f u1 woken_none
      by (intro exI [of _ s1]) (simp add: peek_now_def s1_def [symmetric])
  next
    case False
    obtain k' where k': "wake_and_yield (WaitReceiveL q) s1 = Some (s1\<lparr>kern := k'\<rparr>)"
      "woken (WaitReceiveL q) (kern s1) k'" "usable Ls q (s1\<lparr>kern := k'\<rparr>)"
      using wake_and_yield_woken [OF u1, of "WaitReceiveL q"] False k by auto
    then show ?thesis using h1 i k f False
      by (intro exI [of _ "s1\<lparr>kern := k'\<rparr>"]) (simp add: peek_now_def s1_def [symmetric])
  qed
qed

end
