(* ===== verification/BoundedQueue.thy ===== *)
theory BoundedQueue
  imports QueueSpec
begin

section \<open>The contract of a bounded queue\<close>

text \<open>
  What a client of a queue relies on when it sends and receives without waiting: a send is
  accepted while there is room and adds the item behind the others, a receive delivers the first
  item, and both leave the queue alone when they fail.  From this alone follows, for every
  sequence of calls, that the items come out in the order in which they went in.
\<close>

datatype 'p queue_call = Send 'p | Receive 'p

datatype 'i event = Sent 'i | Refused | Got 'i | Nothing

primrec sent :: "'i event list \<Rightarrow> 'i list" where
  "sent [] = []"
| "sent (e # es) = (case e of Sent i \<Rightarrow> i # sent es | _ \<Rightarrow> sent es)"

primrec got :: "'i event list \<Rightarrow> 'i list" where
  "got [] = []"
| "got (e # es) = (case e of Got i \<Rightarrow> i # got es | _ \<Rightarrow> got es)"

locale bounded_queue =
  fixes send :: "'p \<Rightarrow> 's \<Rightarrow> (bool \<times> 's) option" and receive :: "'p \<Rightarrow> 's \<Rightarrow> (bool \<times> 's) option"
    and content :: "'s \<Rightarrow> 'i list \<Rightarrow> bool" and read :: "'p \<Rightarrow> 's \<Rightarrow> 'i" and room :: "'s \<Rightarrow> nat"
    and buffer :: "'p \<Rightarrow> 's \<Rightarrow> bool"
  assumes bound: "content s xs \<Longrightarrow> length xs \<le> room s"
    and send_room: "content s xs \<Longrightarrow> buffer p s \<Longrightarrow> length xs < room s \<Longrightarrow>
      \<exists>s'. send p s = Some (True, s') \<and> content s' (xs @ [read p s]) \<and> room s' = room s \<and> buffer p' s' = buffer p' s"
    and send_full: "content s xs \<Longrightarrow> buffer p s \<Longrightarrow> length xs = room s \<Longrightarrow> send p s = Some (False, s)"
    and receive_item: "content s (x # xs) \<Longrightarrow> buffer p s \<Longrightarrow>
      \<exists>s'. receive p s = Some (True, s') \<and> content s' xs \<and> read p s' = x \<and> room s' = room s \<and> buffer p' s' = buffer p' s"
    and receive_empty: "content s [] \<Longrightarrow> buffer p s \<Longrightarrow> receive p s = Some (False, s)"
begin

primrec call :: "'p queue_call \<Rightarrow> 's \<Rightarrow> ('i event \<times> 's) option" where
  "call (Send p) s = do { (b, s') \<leftarrow> send p s; Some (if b then Sent (read p s) else Refused, s') }"
| "call (Receive p) s = do { (b, s') \<leftarrow> receive p s; Some (if b then Got (read p s') else Nothing, s') }"

primrec calls :: "'p queue_call list \<Rightarrow> 's \<Rightarrow> ('i event list \<times> 's) option" where
  "calls [] s = Some ([], s)"
| "calls (c # cs) s = do { (e, s) \<leftarrow> call c s; (es, s) \<leftarrow> calls cs s; Some (e # es, s) }"

primrec place :: "'p queue_call \<Rightarrow> 'p" where
  "place (Send p) = p"
| "place (Receive p) = p"

lemma call_fifo:
  assumes c: "content s xs" and b: "buffer (place c) s"
  shows "\<exists>e s' ys. call c s = Some (e, s') \<and> content s' ys \<and> got [e] @ ys = xs @ sent [e] \<and>
     room s' = room s \<and> buffer p' s' = buffer p' s"
proof (cases c)
  case (Send p)
  show ?thesis
  proof (cases "length xs < room s")
    case True
    then show ?thesis using send_room [OF c _ True, of p p'] b Send by fastforce
  next
    case False
    then have "length xs = room s" using bound [OF c] by simp
    then show ?thesis using send_full [OF c, of p] b c Send by auto
  qed
next
  case (Receive p)
  show ?thesis
  proof (cases xs)
    case Nil
    then show ?thesis using receive_empty [of s p] b c Receive by auto
  next
    case (Cons x ys)
    then show ?thesis using receive_item [of s x ys p p'] b c Receive by fastforce
  qed
qed

lemma call_det:
  assumes "content s xs" and "buffer (place c) s" and "call c s = Some (e, s')"
  shows "buffer p' s' = buffer p' s"
  using call_fifo [OF assms(1,2), of p'] assms(3) by auto

text \<open>First in, first out: what has been received, followed by what is left, is what was there
  followed by what has been accepted.\<close>

theorem calls_fifo:
  assumes "content s xs" and "\<forall>c \<in> set cs. buffer (place c) s"
  shows "\<exists>es s' ys. calls cs s = Some (es, s') \<and> content s' ys \<and> got es @ ys = xs @ sent es \<and> room s' = room s"
  using assms
proof (induction cs arbitrary: s xs)
  case (Cons c cs)
  obtain e s1 ys where e: "call c s = Some (e, s1)" "content s1 ys" "got [e] @ ys = xs @ sent [e]" "room s1 = room s"
    using call_fifo [OF Cons.prems(1), of c] Cons.prems(2) by fastforce
  have b: "buffer p s1 = buffer p s" for p using call_det [OF Cons.prems(1) _ e(1)] Cons.prems(2) by simp
  have "\<forall>c \<in> set cs. buffer (place c) s1" using Cons.prems(2) b by simp
  from Cons.IH [OF e(2) this] obtain es s2 zs where "calls cs s1 = Some (es, s2)" "content s2 zs"
    "got es @ zs = ys @ sent es" "room s2 = room s1" by blast
  moreover have "got (e # es) @ zs = xs @ sent (e # es)"
    using e(3) calculation(3) by (cases e) auto
  ultimately show ?case using e by auto
qed simp

end

subsection \<open>The queues of the kernel keep the contract\<close>

definition fifo_send :: "ptr \<Rightarrow> ptr \<Rightarrow> sys \<Rightarrow> (bool \<times> sys) option" where
  "fifo_send q p s = do { (r, s) \<leftarrow> xQueueGenericSend q p 0 queueSEND_TO_BACK s; Some (r = Return True, s) }"

definition fifo_receive :: "ptr \<Rightarrow> ptr \<Rightarrow> sys \<Rightarrow> (bool \<times> sys) option" where
  "fifo_receive q p s = do { (r, s) \<leftarrow> xQueueReceive q p 0 s; Some (r = Return True, s) }"

definition fifo_content :: "list_id set \<Rightarrow> ptr \<Rightarrow> sys \<Rightarrow> u8 list list \<Rightarrow> bool" where
  "fifo_content Ls q s xs \<longleftrightarrow> holds q s xs \<and> usable Ls q s \<and> q \<noteq> NULL"

definition fifo_buffer :: "ptr \<Rightarrow> ptr \<Rightarrow> sys \<Rightarrow> bool" where
  "fifo_buffer q p s \<longleftrightarrow> p \<noteq> NULL \<and> outside p (uxItemSize (queues s q)) (queues s q)"

definition fifo_room :: "ptr \<Rightarrow> sys \<Rightarrow> nat" where
  "fifo_room q s = unat (uxLength (queues s q))"

lemma may_wait_0 [simp]: "may_wait 0 k"
  by (simp add: may_wait_def)

lemma messages_less: "holds q s xs \<Longrightarrow> uxMessagesWaiting (queues s q) < uxLength (queues s q) \<longleftrightarrow> length xs < fifo_room q s"
  by (simp add: holds_length fifo_room_def word_less_nat_alt)

lemma messages_pos: "holds q s xs \<Longrightarrow> 0 < uxMessagesWaiting (queues s q) \<longleftrightarrow> xs \<noteq> []"
  using holds_length [of q s xs] by (auto simp: word_gt_0 unat_eq_zero)

lemma fifo_buffer_shape: "same_shape q s s' \<Longrightarrow> fifo_buffer q p s' = fifo_buffer q p s"
  by (simp add: fifo_buffer_def outside_def same_shape_def)

lemma fifo_send_eq:
  assumes "holds q s xs" and "fifo_buffer q p s" and "q \<noteq> NULL"
  shows "fifo_send q p s = (if length xs < fifo_room q s
     then do { s \<leftarrow> send_now q p queueSEND_TO_BACK s; Some (True, s) } else Some (False, s))"
  using assms messages_less [OF assms(1)]
  by (simp add: fifo_send_def xQueueGenericSend_def send_asserts_def send_pass_def send_try_def fifo_buffer_def)

lemma fifo_receive_eq:
  assumes "holds q s xs" and "fifo_buffer q p s" and "q \<noteq> NULL"
  shows "fifo_receive q p s = (if xs \<noteq> []
     then do { s \<leftarrow> receive_now q p s; Some (True, s) } else Some (False, s))"
  using assms messages_pos [OF assms(1)]
  by (simp add: fifo_receive_def xQueueReceive_def receive_asserts_def receive_pass_def receive_try_def fifo_buffer_def)

interpretation queue: bounded_queue "fifo_send q" "fifo_receive q" "fifo_content Ls q" "\<lambda>p s. item_at p q s"
    "fifo_room q" "fifo_buffer q" for Ls q
proof unfold_locales
  fix s xs p p'
  assume c: "fifo_content Ls q s xs" and b: "fifo_buffer q p s"
  then have h: "holds q s xs" and u: "usable Ls q s" and q: "q \<noteq> NULL" by (simp_all add: fifo_content_def)
  show "length xs = fifo_room q s \<Longrightarrow> fifo_send q p s = Some (False, s)"
    by (simp add: fifo_send_eq [OF h b q])
  assume n: "length xs < fifo_room q s"
  then have "queueSEND_TO_BACK = queueOVERWRITE \<or> length xs < unat (uxLength (queues s q))" by (simp add: fifo_room_def)
  from send_now_spec [OF h this _ u, of p] obtain s' where "send_now q p queueSEND_TO_BACK s = Some s'"
    "holds q s' (xs @ [item_at p q s])" "usable Ls q s'" "same_shape q s s'" by auto
  then show "\<exists>s'. fifo_send q p s = Some (True, s') \<and> fifo_content Ls q s' (xs @ [item_at p q s]) \<and>
      fifo_room q s' = fifo_room q s \<and> fifo_buffer q p' s' = fifo_buffer q p' s"
    using n q fifo_buffer_shape [of q s s' p'] by (simp add: fifo_send_eq [OF h b q] fifo_content_def fifo_room_def same_shape_def)
next
  fix s x xs p p'
  assume c: "fifo_content Ls q s (x # xs)" and b: "fifo_buffer q p s"
  then have h: "holds q s (x # xs)" and u: "usable Ls q s" and q: "q \<noteq> NULL" by (simp_all add: fifo_content_def)
  have "outside p (uxItemSize (queues s q)) (queues s q)" using b by (simp add: fifo_buffer_def)
  from receive_now_spec [OF h this u] obtain s' where "receive_now q p s = Some s'"
    "holds q s' xs" "item_at p q s' = x" "usable Ls q s'" "same_shape q s s'" by blast
  then show "\<exists>s'. fifo_receive q p s = Some (True, s') \<and> fifo_content Ls q s' xs \<and> item_at p q s' = x \<and>
      fifo_room q s' = fifo_room q s \<and> fifo_buffer q p' s' = fifo_buffer q p' s"
    using q fifo_buffer_shape [of q s s' p'] by (simp add: fifo_receive_eq [OF h b q] fifo_content_def fifo_room_def same_shape_def)
next
  fix s p
  assume "fifo_content Ls q s []" and b: "fifo_buffer q p s"
  then have h: "holds q s []" and q: "q \<noteq> NULL" by (simp_all add: fifo_content_def)
  show "fifo_receive q p s = Some (False, s)" by (simp add: fifo_receive_eq [OF h b q])
next
  fix s xs
  assume "fifo_content Ls q s xs"
  then show "length xs \<le> fifo_room q s" using holds_bound [of q s xs] by (simp add: fifo_content_def fifo_room_def)
qed

end
