(* ===== verification/QueueBlock.thy ===== *)
theory QueueBlock
  imports BoundedQueue
begin

section \<open>Blocking on a queue\<close>

subsection \<open>The order of the waiting tasks\<close>

lemma add_delayed_items:
  assumes inv: "kinv_at lo Ls X k" and e: "event_list l"
    and a: "prvAddCurrentTaskToDelayedList w b k = Some k'"
  shows "items k' l = items k l"
proof -
  obtain m where m: "cont_of k (StateItem (pxCurrentTCB k)) = Some m"
    using a by (cases "cont_of k (StateItem (pxCurrentTCB k))") (auto simp: prvAddCurrentTaskToDelayedList_def k_remove_eq Let_def)
  have "m \<noteq> l" using state_place(2) [OF inv m] e not_event_delayed [OF kinvD(5) [OF inv]] by auto
  then have "l_elems l (drop_item (StateItem (pxCurrentTCB k)) (ls k)) = items k l" using m by (simp add: drop_item_def)
  moreover have "l \<noteq> SuspendedL" "l \<noteq> pxDelayedTaskList k" "l \<noteq> pxOverflowDelayedTaskList k"
    using e not_event_delayed [OF kinvD(5) [OF inv]] by auto
  ultimately show ?thesis
    using a m by (auto simp: prvAddCurrentTaskToDelayedList_def k_remove_eq Let_def split: if_splits)
qed

text \<open>A task that blocks on an ordered list goes behind the tasks that are at least as urgent and
  before the others.\<close>

definition in_order :: "list_id \<Rightarrow> item_id \<Rightarrow> kernel \<Rightarrow> item_id list" where
  "in_order l i k = takeWhile (\<lambda>j. val_of k j \<le> val_of k i) (items k l) @
     i # dropWhile (\<lambda>j. val_of k j \<le> val_of k i) (items k l)"

lemma in_order_sorted:
  assumes "sorted (map (val_of k) (items k l))"
  shows "sorted (map (val_of k) (in_order l i k))"
  using sorted_kl_insert [OF assms, of i] by (simp add: kl_insert_def in_order_def)

subsection \<open>Blocking\<close>

text \<open>The caller has suspended the scheduler, and the queue is locked and no interrupt has come.\<close>

definition ready_to_block :: "list_id set \<Rightarrow> kernel \<Rightarrow> bool" where
  "ready_to_block Ls k \<longleftrightarrow> kinv Ls {} k \<and> uxSchedulerSuspended k = 1 \<and> uxCurrentNumberOfTasks k \<noteq> 0 \<and> settled k \<and>
     cont_of k (StateItem (pxCurrentTCB k)) = Some (ReadyL (unat (prio k (pxCurrentTCB k)))) \<and>
     cont_of k (EventItem (pxCurrentTCB k)) = None \<and>
     (\<exists>q n. q \<noteq> pxCurrentTCB k \<and> cont_of k (StateItem q) = Some (ReadyL n))"

text \<open>The caller \<open>c\<close> waits on list \<open>l\<close>, and another task runs.\<close>

definition blocked_on :: "list_id \<Rightarrow> u32 \<Rightarrow> kernel \<Rightarrow> kernel \<Rightarrow> bool" where
  "blocked_on l w k k' \<longleftrightarrow> (let c = pxCurrentTCB k in
     cont_of k' = (cont_of k)(EventItem c := Some l, StateItem c := Some (delay_list w True k)) \<and>
     items k' l = in_order l (EventItem c) k \<and>
     val_of k' = (if delay_list w True k = SuspendedL then val_of k
       else (val_of k)(StateItem c := xTickCount k + w)) \<and>
     tcbs k' = tcbs k \<and> xTickCount k' = xTickCount k \<and> uxSchedulerSuspended k' = 0 \<and>
     pxCurrentTCB k' \<noteq> c \<and> runs_highest k')"

text \<open>Placing the caller on an event list in either way, with or without a time limit, resuming the scheduler,
  and yielding unless that has been done.\<close>

lemma place_then_switch:
  assumes r: "ready_to_block Ls k" and l: "l \<in> Ls" "event_list l" and w: "w \<noteq> 0"
    and S: "S = l_insert_end l (EventItem (pxCurrentTCB k)) (ls k) \<or> S = l_insert l (EventItem (pxCurrentTCB k)) (ls k)"
  shows "\<exists>k1 k'. prvAddCurrentTaskToDelayedList w b (k\<lparr>ls := S\<rparr>) = Some k1 \<and>
     do { (y, k) \<leftarrow> xTaskResumeAll k1; (if \<not> y then portYIELD_WITHIN_API k else Some k) } = Some k' \<and>
     kinv Ls {} k' \<and> items k' l = l_elems l S \<and>
     cont_of k' = (cont_of k)(EventItem (pxCurrentTCB k) := Some l, StateItem (pxCurrentTCB k) := Some (delay_list w b k)) \<and>
     val_of k' = (if delay_list w b k = SuspendedL then val_of k
       else (val_of k)(StateItem (pxCurrentTCB k) := xTickCount k + w)) \<and>
     tcbs k' = tcbs k \<and> xTickCount k' = xTickCount k \<and> uxSchedulerSuspended k' = 0 \<and>
     pxCurrentTCB k' \<noteq> pxCurrentTCB k \<and> runs_highest k'"
proof -
  let ?c = "pxCurrentTCB k"
  have inv: "kinv Ls {} k" and n: "uxCurrentNumberOfTasks k \<noteq> 0" and st: "settled k"
    and c: "cont_of k (StateItem ?c) = Some (ReadyL (unat (prio k ?c)))" and e: "cont_of k (EventItem ?c) = None"
    using r by (auto simp: ready_to_block_def)
  obtain q m where q: "q \<noteq> ?c" "cont_of k (StateItem q) = Some (ReadyL m)" using r by (auto simp: ready_to_block_def)
  have c': "cont_of k (StateItem ?c) \<noteq> None" using c by simp
  obtain k1 where k1: "prvAddCurrentTaskToDelayedList w b (k\<lparr>ls := S\<rparr>) = Some k1" "kinv Ls ({} - {?c}) k1"
     "cont_of k1 = (cont_of k)(EventItem ?c := Some l, StateItem ?c := Some (delay_list w b k))"
     "val_of k1 = (if delay_list w b k = SuspendedL then val_of k
       else (val_of k)(StateItem ?c := xTickCount k + w))"
     "tcbs k1 = tcbs k" "pxCurrentTCB k1 = ?c" "xTickCount k1 = xTickCount k"
     "uxSchedulerSuspended k1 = uxSchedulerSuspended k" "uxPendedTicks k1 = uxPendedTicks k"
     "uxCurrentNumberOfTasks k1 = uxCurrentNumberOfTasks k"
    using block_on_spec [OF inv l e c' w S, of b] by blast
  have dl: "delay_list w b k \<noteq> PendingReadyL" "delay_list w b k \<noteq> ReadyL n" for n
    using kinvD(5) [OF inv] by (auto simp: delay_list_def delayed_pair_def)
  have lp: "l \<noteq> PendingReadyL" using l(2) by auto
  have i1: "kinv Ls {} k1" using k1(2) by simp
  have "pending k = []" using st by (simp add: settled_def pending_def)
  then have "pending k1 = []" using pending_empty_iff [OF inv] pending_empty_iff [OF i1] k1(3) dl lp by simp
  then have st1: "settled k1" using k1(9) st by (simp add: settled_def pending_def)
  define k2 where "k2 = k1\<lparr>uxSchedulerSuspended := 0\<rparr>"
  have i2: "kinv Ls {} k2" by (rule kinv_fields [where k = k1]) (use i1 in \<open>simp_all add: k2_def\<close>)
  have sw: "do { (y, k) \<leftarrow> xTaskResumeAll k1; (if \<not> y then portYIELD_WITHIN_API k else Some k) } = vTaskSwitchContext k2"
    unfolding k2_def using resume_then_yield [OF _ _ st1] r k1(8,10) by (simp add: ready_to_block_def)
  have "some_ready k2" using some_ready_iff [OF i2] q k1(3) by (auto simp: k2_def)
  then obtain k' where k': "vTaskSwitchContext k2 = Some k'" "kinv Ls {} k'" "cont_of k' = cont_of k2"
     "val_of k' = val_of k2" "items k' = items k2" "tcbs k' = tcbs k2" "xTickCount k' = xTickCount k2"
     "uxSchedulerSuspended k' = 0" "runs_highest k'"
    using switch_runs_highest [OF i2] by (auto simp: k2_def)
  have iS: "kinv_at (Suc (unat (xTickCount k))) Ls {?c} (k\<lparr>ls := S\<rparr>)"
    using kinv_event_insert [OF inv l e S] by auto
  have "items k1 l = l_elems l S" using add_delayed_items [OF iS l(2) k1(1)] by simp
  then have "items k' l = l_elems l S" using fun_cong [OF k'(5), of l] by (simp add: k2_def)
  moreover have "pxCurrentTCB k' \<noteq> ?c"
    by (rule runs_highest_other [OF k'(9)]) (use k'(3) k1(3) dl in \<open>simp add: k2_def\<close>)
  ultimately show ?thesis
    using sw k' k1(1,3-5,7) by (intro exI [of _ k1] exI [of _ k']) (simp add: k2_def)
qed

lemma place_and_switch:
  assumes r: "ready_to_block Ls k" and l: "l \<in> Ls" "event_list l" and w: "w \<noteq> 0"
  shows "\<exists>k1 k'. vTaskPlaceOnEventList l w k = Some k1 \<and>
     do { (y, k) \<leftarrow> xTaskResumeAll k1; (if \<not> y then portYIELD_WITHIN_API k else Some k) } = Some k' \<and>
     kinv Ls {} k' \<and> blocked_on l w k k'"
proof -
  have "l_elems l (l_insert l (EventItem (pxCurrentTCB k)) (ls k)) = in_order l (EventItem (pxCurrentTCB k)) k"
    by (simp add: in_order_def kl_insert_def)
  then show ?thesis
    using place_then_switch [OF r l w disjI2 [OF refl], of True]
    by (elim exE conjE, intro exI conjI) (simp_all add: vTaskPlaceOnEventList_def blocked_on_def Let_def)
qed

definition unlocked :: "ptr \<Rightarrow> sys \<Rightarrow> bool" where
  "unlocked q s \<longleftrightarrow> cRxLock (queues s q) = queueUNLOCKED \<and> cTxLock (queues s q) = queueUNLOCKED"

lemma lock_then:
  assumes "unlocked q s"
  shows "kern (prvLockQueue q s) = kern s" and "mem (prvLockQueue q s) = mem s"
    and "queues (prvLockQueue q s) = (queues s)(q := (queues s q)\<lparr>cRxLock := 0, cTxLock := 0\<rparr>)"
  using assms by (simp_all add: unlocked_def prvLockQueue_def Let_def queueUNLOCKED_def queueLOCKED_UNMODIFIED_def)

lemma unlock_untouched:
  assumes "cRxLock (queues s q) = 0" and "cTxLock (queues s q) = 0"
  shows "prvUnlockQueue q s = Some (upd_queue q (\<lambda>Q. Q\<lparr>cTxLock := queueUNLOCKED, cRxLock := queueUNLOCKED\<rparr>) s)"
  using assms by (simp add: prvUnlockQueue_def on_kern_def unlock_wake_none upd_queue_def)

lemma relock: "unlocked q s \<Longrightarrow> upd_queue q (\<lambda>Q. Q\<lparr>cTxLock := queueUNLOCKED, cRxLock := queueUNLOCKED\<rparr>)
   (prvLockQueue q s) = s"
proof -
  assume u: "unlocked q s"
  have "(queues s q)\<lparr>cTxLock := queueUNLOCKED, cRxLock := queueUNLOCKED\<rparr> = queues s q"
    using u by (simp add: unlocked_def)
  moreover have "prvLockQueue q s = s\<lparr>queues := (queues s)(q := (queues s q)\<lparr>cRxLock := 0, cTxLock := 0\<rparr>)\<rparr>"
    using u by (simp add: unlocked_def prvLockQueue_def upd_queue_def Let_def queueUNLOCKED_def queueLOCKED_UNMODIFIED_def)
  ultimately show ?thesis by (simp add: upd_queue_def)
qed

text \<open>A section that locks an idle queue, waits on it, and finds nothing to make up for.\<close>

lemma unlock_after:
  assumes u: "unlocked q s"
  shows "prvUnlockQueue q ((prvLockQueue q s)\<lparr>kern := k\<rparr>) = Some (s\<lparr>kern := k\<rparr>)"
proof -
  let ?L = "prvLockQueue q s"
  have "prvUnlockQueue q (?L\<lparr>kern := k\<rparr>) = Some (upd_queue q (\<lambda>Q. Q\<lparr>cTxLock := queueUNLOCKED, cRxLock := queueUNLOCKED\<rparr>) (?L\<lparr>kern := k\<rparr>))"
    by (rule unlock_untouched) (simp_all add: lock_then(3) [OF u])
  also have "\<dots> = Some ((upd_queue q (\<lambda>Q. Q\<lparr>cTxLock := queueUNLOCKED, cRxLock := queueUNLOCKED\<rparr>) ?L)\<lparr>kern := k\<rparr>)"
    by (simp add: upd_queue_def)
  finally show ?thesis by (simp only: relock [OF u])
qed

lemma locked_block:
  assumes r: "ready_to_block Ls (kern s)" and l: "l \<in> Ls" "event_list l" and w: "w \<noteq> 0" and u: "unlocked q s"
  shows "\<exists>k'. block_on q l w (prvLockQueue q s) = Some (s\<lparr>kern := k'\<rparr>) \<and> kinv Ls {} k' \<and> blocked_on l w (kern s) k'"
proof -
  obtain k1 k' where k: "vTaskPlaceOnEventList l w (kern s) = Some k1"
     "do { (y, k) \<leftarrow> xTaskResumeAll k1; (if \<not> y then portYIELD_WITHIN_API k else Some k) } = Some k'"
     "kinv Ls {} k'" "blocked_on l w (kern s) k'"
    using place_and_switch [OF r l w] by blast
  let ?L = "prvLockQueue q s"
  note unlock_after [OF u]
  moreover obtain y k2 where y: "xTaskResumeAll k1 = Some (y, k2)" "(if \<not> y then portYIELD_WITHIN_API k2 else Some k2) = Some k'"
    using k(2) by (cases "xTaskResumeAll k1") auto
  ultimately have "block_on q l w ?L = Some (s\<lparr>kern := k'\<rparr>)"
    using k(1) by (cases y) (simp_all add: block_on_def on_kern_def on_kern_r_def lock_then(1) [OF u])
  with k show ?thesis by blast
qed

lemma check_at_once:
  assumes "w \<noteq> 0" and "xNumOfOverflows k' = xNumOfOverflows k" and "xTickCount k' = xTickCount k"
  shows "xTaskCheckForTimeOut (vTaskInternalSetTimeOutState k) w k' = (False, vTaskInternalSetTimeOutState k, w)"
  using assms by (simp add: xTaskCheckForTimeOut_def vTaskInternalSetTimeOutState_def Let_def word_gt_0)

lemma suspended_ready_to_block:
  assumes u: "usable Ls q s" and cb: "can_block (kern s)" and st: "settled (kern s)"
  shows "ready_to_block Ls (vTaskSuspendAll (kern s))"
  using assms suspend_inv [where Ls = Ls and X = "{}" and k = "kern s"]
  by (simp add: usable_def can_block_def ready_to_block_def vTaskSuspendAll_def settled_def)

lemma blocked_on_suspend: "blocked_on l w (vTaskSuspendAll k) k' = blocked_on l w k k'"
  by (simp add: blocked_on_def in_order_def delay_list_def vTaskSuspendAll_def Let_def)

lemma no_null_blocked:
  assumes "no_null k" and "blocked_on l w k k'" and "pxCurrentTCB k \<noteq> NULL"
  shows "no_null k'"
  using assms by (auto simp: blocked_on_def no_null_def Let_def)

lemma can_block_current: "can_block k \<Longrightarrow> no_null k \<Longrightarrow> pxCurrentTCB k \<noteq> NULL"
  by (force simp: can_block_def no_null_def)

lemma usable_blocked:
  assumes "usable Ls q s" and "can_block (kern s)" and "kinv Ls {} k'" and "blocked_on l w (kern s) k'"
  shows "usable Ls q (s\<lparr>kern := k'\<rparr>)"
  using assms no_null_blocked [OF _ assms(4)] can_block_current [OF assms(2)]
  by (auto simp: usable_def blocked_on_def Let_def)

lemma suspend_commute:
  "prvLockQueue q (s\<lparr>kern := k\<rparr>) = (prvLockQueue q s)\<lparr>kern := k\<rparr>"
  by (simp add: prvLockQueue_def upd_queue_def Let_def)

text \<open>Sending to a full queue, and receiving from an empty one, with time to wait.\<close>

theorem send_blocks:
  assumes h: "holds q s xs" and full: "length xs = unat (uxLength (queues s q))" and pos: "pos \<noteq> queueOVERWRITE"
    and u: "usable Ls q s" and cb: "can_block (kern s)" and st: "settled (kern s)" and ul: "unlocked q s"
    and w: "w \<noteq> 0"
  shows "\<exists>k'. send_pass q p pos w None s = Some (Again w (vTaskInternalSetTimeOutState (kern s)), s\<lparr>kern := k'\<rparr>) \<and>
     usable Ls q (s\<lparr>kern := k'\<rparr>) \<and> blocked_on (WaitSendL q) w (kern s) k'"
proof -
  let ?s = "s\<lparr>kern := vTaskSuspendAll (kern s)\<rparr>"
  have ul': "unlocked q ?s" using ul by (simp add: unlocked_def)
  have kL: "kern (prvLockQueue q ?s) = vTaskSuspendAll (kern s)" using lock_then(1) [OF ul'] by simp
  have l: "WaitSendL q \<in> Ls" using u by (simp add: usable_def)
  have n: "uxMessagesWaiting (queues s q) = uxLength (queues s q)"
    using full holds_length [OF h] by (simp add: word_unat_eq_iff)
  have "ready_to_block Ls (kern ?s)" using suspended_ready_to_block [OF u cb st] by simp
  from locked_block [OF this l _ w ul'] obtain k' where
    k': "block_on q (WaitSendL q) w (prvLockQueue q ?s) = Some (?s\<lparr>kern := k'\<rparr>)" "kinv Ls {} k'"
      "blocked_on (WaitSendL q) w (vTaskSuspendAll (kern s)) k'" by auto
  have "prvIsQueueFull q (prvLockQueue q ?s)" using n by (simp add: prvIsQueueFull_def lock_then(3) [OF ul'])
  moreover have "xTaskCheckForTimeOut (vTaskInternalSetTimeOutState (kern s)) w (kern (prvLockQueue q ?s)) =
      (False, vTaskInternalSetTimeOutState (kern s), w)"
    by (rule check_at_once [OF w]) (simp_all only: kL, simp_all add: vTaskSuspendAll_def)
  ultimately have "send_wait q w (vTaskInternalSetTimeOutState (kern s)) s =
      Some (Again w (vTaskInternalSetTimeOutState (kern s)), s\<lparr>kern := k'\<rparr>)"
    using k'(1) by (simp add: send_wait_def Let_def)
  then have "send_pass q p pos w None s = Some (Again w (vTaskInternalSetTimeOutState (kern s)), s\<lparr>kern := k'\<rparr>)"
    using n pos w by (simp add: send_pass_def send_try_def set_time_out_def)
  then show ?thesis using k'(2,3) usable_blocked [OF u cb] by (auto simp: blocked_on_suspend)
qed

theorem receive_blocks:
  assumes h: "holds q s [] \<or> uxMessagesWaiting (queues s q) = 0"
    and u: "usable Ls q s" and cb: "can_block (kern s)" and st: "settled (kern s)" and ul: "unlocked q s"
    and w: "w \<noteq> 0"
  shows "\<exists>k'. receive_pass q p w None s = Some (Again w (vTaskInternalSetTimeOutState (kern s)), s\<lparr>kern := k'\<rparr>) \<and>
     usable Ls q (s\<lparr>kern := k'\<rparr>) \<and> blocked_on (WaitReceiveL q) w (kern s) k'"
proof -
  let ?s = "s\<lparr>kern := vTaskSuspendAll (kern s)\<rparr>"
  have ul': "unlocked q ?s" using ul by (simp add: unlocked_def)
  have kL: "kern (prvLockQueue q ?s) = vTaskSuspendAll (kern s)" using lock_then(1) [OF ul'] by simp
  have l: "WaitReceiveL q \<in> Ls" using u by (simp add: usable_def)
  have n: "uxMessagesWaiting (queues s q) = 0"
    using h holds_length [of q s "[]"] by (auto simp: unat_eq_zero)
  have "ready_to_block Ls (kern ?s)" using suspended_ready_to_block [OF u cb st] by simp
  from locked_block [OF this l _ w ul'] obtain k' where
    k': "block_on q (WaitReceiveL q) w (prvLockQueue q ?s) = Some (?s\<lparr>kern := k'\<rparr>)" "kinv Ls {} k'"
      "blocked_on (WaitReceiveL q) w (vTaskSuspendAll (kern s)) k'" by auto
  have "prvIsQueueEmpty q (prvLockQueue q ?s)" using n by (simp add: prvIsQueueEmpty_def lock_then(3) [OF ul'])
  moreover have "xTaskCheckForTimeOut (vTaskInternalSetTimeOutState (kern s)) w (kern (prvLockQueue q ?s)) =
      (False, vTaskInternalSetTimeOutState (kern s), w)"
    by (rule check_at_once [OF w]) (simp_all only: kL, simp_all add: vTaskSuspendAll_def)
  ultimately have "receive_wait q w (vTaskInternalSetTimeOutState (kern s)) s =
      Some (Again w (vTaskInternalSetTimeOutState (kern s)), s\<lparr>kern := k'\<rparr>)"
    using k'(1) by (simp add: receive_wait_def Let_def)
  then have "receive_pass q p w None s = Some (Again w (vTaskInternalSetTimeOutState (kern s)), s\<lparr>kern := k'\<rparr>)"
    using n w by (simp add: receive_pass_def receive_try_def set_time_out_def)
  then show ?thesis using k'(2,3) usable_blocked [OF u cb] by (auto simp: blocked_on_suspend)
qed

text \<open>A sender that had to wait is woken by the next receive, finds room, and stores its item.\<close>

theorem blocked_sender_proceeds:
  assumes h: "holds q s (x # xs)" and full: "length (x # xs) = unat (uxLength (queues s q))"
    and u: "usable Ls q s" and cb: "can_block (kern s)" and st: "settled (kern s)" and ul: "unlocked q s"
    and w: "w \<noteq> 0" and alone: "waiters (WaitSendL q) (kern s) = []"
    and b: "fifo_buffer q b s" and q: "q \<noteq> NULL"
  defines "c \<equiv> pxCurrentTCB (kern s)" and "t \<equiv> vTaskInternalSetTimeOutState (kern s)"
  shows "\<exists>s1 s2 s3. send_pass q p queueSEND_TO_BACK w None s = Some (Again w t, s1) \<and> pxCurrentTCB (kern s1) \<noteq> c \<and>
     xQueueReceive q b 0 s1 = Some (Return True, s2) \<and> item_at b q s2 = x \<and>
     cont_of (kern s2) (StateItem c) = Some (ReadyL (unat (prio (kern s) c))) \<and>
     send_pass q p queueSEND_TO_BACK w (Some t) s2 = Some (Return True, s3) \<and> holds q s3 (xs @ [item_at p q s2])"
proof -
  obtain k1 where k1: "send_pass q p queueSEND_TO_BACK w None s = Some (Again w t, s\<lparr>kern := k1\<rparr>)"
     "usable Ls q (s\<lparr>kern := k1\<rparr>)" "blocked_on (WaitSendL q) w (kern s) k1"
    using send_blocks [OF h full _ u cb st ul w, of queueSEND_TO_BACK p] by (auto simp: t_def)
  let ?s1 = "s\<lparr>kern := k1\<rparr>"
  have h1: "holds q ?s1 (x # xs)" using h by simp
  have b1: "outside b (uxItemSize (queues ?s1 q)) (queues ?s1 q)" and bN: "b \<noteq> NULL" using b by (simp_all add: fifo_buffer_def)
  have "items (kern s) (WaitSendL q) = []" using alone by (simp add: waiters_def)
  then have wt: "waiters (WaitSendL q) k1 = [c]" using k1(3) by (simp add: blocked_on_def in_order_def waiters_def c_def Let_def)
  obtain s2 where s2: "receive_now q b ?s1 = Some s2" "holds q s2 xs" "item_at b q s2 = x" "usable Ls q s2"
    "woken (WaitSendL q) k1 (kern s2)" "same_shape q ?s1 s2"
    using receive_now_spec [OF h1 b1 k1(2)] by auto
  have "0 < uxMessagesWaiting (queues ?s1 q)" using messages_pos [OF h1] by simp
  then have rcv: "xQueueReceive q b 0 ?s1 = Some (Return True, s2)"
    using s2(1) q bN by (simp add: xQueueReceive_def receive_asserts_def receive_pass_def receive_try_def)
  have tk: "tcbs k1 = tcbs (kern s)" "pxCurrentTCB k1 \<noteq> c" using k1(3) by (simp_all add: blocked_on_def c_def Let_def)
  have rd: "cont_of (kern s2) (StateItem c) = Some (ReadyL (unat (prio (kern s) c)))"
    using s2(5) wt tk(1) by (simp add: woken_def)
  have n: "length xs < unat (uxLength (queues s2 q))" using full s2(6) by (simp add: same_shape_def)
  obtain s3 where s3: "send_now q p queueSEND_TO_BACK s2 = Some s3" "holds q s3 (xs @ [item_at p q s2])"
    using send_now_spec [OF s2(2) _ _ s2(4), of queueSEND_TO_BACK p] n by auto
  have "uxMessagesWaiting (queues s2 q) < uxLength (queues s2 q)" using messages_less [OF s2(2)] n by (simp add: fifo_room_def)
  then have "send_pass q p queueSEND_TO_BACK w (Some t) s2 = Some (Return True, s3)"
    using s3(1) by (simp add: send_pass_def send_try_def)
  then show ?thesis using k1(1) tk(2) rcv s2(3) rd s3(2) by (intro exI [of _ ?s1] exI [of _ s2] exI [of _ s3]) simp
qed

subsection \<open>Giving up\<close>

text \<open>A wait that has used up its time ends without success, and leaves the queue as it is.\<close>

lemma stop_waiting_untouched:
  assumes "cRxLock (queues s q) = 0" and "cTxLock (queues s q) = 0" and "xTaskResumeAll (kern s) = Some (y, k)"
  shows "stop_waiting_on q s =
     Some ((upd_queue q (\<lambda>Q. Q\<lparr>cTxLock := queueUNLOCKED, cRxLock := queueUNLOCKED\<rparr>) s)\<lparr>kern := k\<rparr>)"
  using assms unlock_untouched [OF assms(1,2)] by (simp add: stop_waiting_on_def on_kern_r_def)

lemma check_suspended: "fst (xTaskCheckForTimeOut t w (vTaskSuspendAll k)) = fst (xTaskCheckForTimeOut t w k)"
  by (simp add: xTaskCheckForTimeOut_def vTaskSuspendAll_def Let_def)

theorem send_gives_up:
  assumes u: "usable Ls q s" and ul: "unlocked q s" and n: "uxCurrentNumberOfTasks (kern s) \<noteq> 0"
    and r: "some_ready (kern s)" and ex: "fst (xTaskCheckForTimeOut t w (kern s))"
  shows "\<exists>k'. send_wait q w t s = Some (Return False, s\<lparr>kern := k'\<rparr>) \<and> kinv Ls {} k' \<and>
     uxSchedulerSuspended k' = 0 \<and> tcbs k' = tcbs (kern s)"
proof -
  let ?s = "s\<lparr>kern := vTaskSuspendAll (kern s)\<rparr>"
  have ul': "unlocked q ?s" using ul by (simp add: unlocked_def)
  have kL: "kern (prvLockQueue q ?s) = vTaskSuspendAll (kern s)" using lock_then(1) [OF ul'] by simp
  have i: "kinv Ls {} (vTaskSuspendAll (kern s))" using u suspend_inv by (simp add: usable_def)
  have "uxSchedulerSuspended (vTaskSuspendAll (kern s)) = 1" "uxCurrentNumberOfTasks (vTaskSuspendAll (kern s)) \<noteq> 0"
    "some_ready (vTaskSuspendAll (kern s))"
    using u n r by (simp_all add: usable_def vTaskSuspendAll_def some_ready_def)
  from xTaskResumeAll_spec [OF i this] obtain y k' where k': "xTaskResumeAll (vTaskSuspendAll (kern s)) = Some (y, k')"
    "kinv Ls {} k'" "uxSchedulerSuspended k' = 0" "tcbs k' = tcbs (vTaskSuspendAll (kern s))" by blast
  have "stop_waiting_on q (prvLockQueue q ?s) = Some (s\<lparr>kern := k'\<rparr>)"
    using stop_waiting_untouched [of "prvLockQueue q ?s" q y k'] k'(1) lock_then(3) [OF ul'] relock [OF ul']
    by (simp add: kL)
  moreover have "fst (xTaskCheckForTimeOut t w (kern (prvLockQueue q ?s)))"
    unfolding kL using ex by (simp only: check_suspended)
  ultimately have "send_wait q w t s = Some (Return False, s\<lparr>kern := k'\<rparr>)"
    by (simp add: send_wait_def Let_def split_beta)
  then show ?thesis using k' by (intro exI [of _ k']) (simp add: vTaskSuspendAll_def)
qed

end
