(* ===== verification/MutexSpec.thy ===== *)
theory MutexSpec
  imports Mutex QueueBlock
begin

section \<open>What the semaphore and mutex functions do\<close>

definition sem_ok :: "ptr \<Rightarrow> sys \<Rightarrow> bool" where
  "sem_ok q s \<longleftrightarrow> q \<noteq> NULL \<and> uxItemSize (queues s q) = 0 \<and> pcHead (queues s q) \<noteq> NULL \<and>
     uxMessagesWaiting (queues s q) \<le> uxLength (queues s q)"

text \<open>A mutex is free, and then nobody holds it, or taken, and then someone does.\<close>

definition mutex_ok :: "ptr \<Rightarrow> sys \<Rightarrow> bool" where
  "mutex_ok q s \<longleftrightarrow> q \<noteq> NULL \<and> uxItemSize (queues s q) = 0 \<and> pcHead (queues s q) = NULL \<and>
     uxLength (queues s q) = 1 \<and>
     (uxMessagesWaiting (queues s q) = 1 \<and> pxMutexHolder (queues s q) = NULL \<or>
      uxMessagesWaiting (queues s q) = 0 \<and> pxMutexHolder (queues s q) \<noteq> NULL)"

definition holder :: "ptr \<Rightarrow> sys \<Rightarrow> ptr option" where
  "holder q s = (if uxMessagesWaiting (queues s q) = 0 then Some (pxMutexHolder (queues s q)) else None)"

subsection \<open>Taking\<close>

lemma usable_upd_queue [simp]: "usable Ls q (upd_queue p f s) = usable Ls q s"
  by (simp add: usable_def)

text \<open>A counting semaphore: a take lowers the count, a give raises it up to the maximum.\<close>

theorem semaphore_take:
  assumes ok: "sem_ok q s" and n: "uxMessagesWaiting (queues s q) \<noteq> 0" and ws: "waiters (WaitSendL q) (kern s) = []"
  shows "take_pass q w t b s = Some (Took True, upd_queue q (uxMessagesWaiting_update (\<lambda>_. uxMessagesWaiting (queues s q) - 1)) s)"
proof -
  have "items (kern s) (WaitSendL q) = []" using ws by (simp add: waiters_def)
  then show ?thesis
    using ok n by (simp add: take_pass_def take_try_def take_now_def sem_ok_def word_gt_0 Let_def)
qed

theorem semaphore_take_none:
  assumes "sem_ok q s" and "uxMessagesWaiting (queues s q) = 0"
  shows "xQueueSemaphoreTake q 0 s = Some (Took False, s)"
  using assms by (simp add: xQueueSemaphoreTake_def take_pass_def take_try_def sem_ok_def)

theorem semaphore_give:
  assumes ok: "sem_ok q s" and u: "usable Ls q s"
  shows "uxMessagesWaiting (queues s q) = uxLength (queues s q) \<Longrightarrow>
      xQueueGenericSend q NULL 0 queueSEND_TO_BACK s = Some (Return False, s)"
    and "uxMessagesWaiting (queues s q) \<noteq> uxLength (queues s q) \<Longrightarrow>
      \<exists>s'. xQueueGenericSend q NULL 0 queueSEND_TO_BACK s = Some (Return True, s') \<and>
        queues s' = (queues s)(q := (queues s q)\<lparr>uxMessagesWaiting := uxMessagesWaiting (queues s q) + 1\<rparr>) \<and>
        usable Ls q s' \<and> woken (WaitReceiveL q) (kern s) (kern s')"
proof -
  show "uxMessagesWaiting (queues s q) = uxLength (queues s q) \<Longrightarrow>
      xQueueGenericSend q NULL 0 queueSEND_TO_BACK s = Some (Return False, s)"
    using ok by (simp add: sem_ok_def xQueueGenericSend_def send_asserts_def send_pass_def send_try_def)
  assume "uxMessagesWaiting (queues s q) \<noteq> uxLength (queues s q)"
  then have lt: "uxMessagesWaiting (queues s q) < uxLength (queues s q)" using ok by (simp add: sem_ok_def less_le)
  define s1 where "s1 = upd_queue q (uxMessagesWaiting_update (\<lambda>_. uxMessagesWaiting (queues s q) + 1)) s"
  have u1: "usable Ls q s1" and k1: "kern s1 = kern s" using u by (simp_all add: s1_def)
  have c: "prvCopyDataToQueue q NULL queueSEND_TO_BACK s = Some (False, s1)"
    using ok by (simp add: prvCopyDataToQueue_def sem_ok_def s1_def Let_def)
  have eq: "xQueueGenericSend q NULL 0 queueSEND_TO_BACK s = do { s' \<leftarrow> send_now q NULL queueSEND_TO_BACK s; Some (Return True, s') }"
    using ok lt by (simp add: sem_ok_def xQueueGenericSend_def send_asserts_def send_pass_def send_try_def)
  show "\<exists>s'. xQueueGenericSend q NULL 0 queueSEND_TO_BACK s = Some (Return True, s') \<and>
        queues s' = (queues s)(q := (queues s q)\<lparr>uxMessagesWaiting := uxMessagesWaiting (queues s q) + 1\<rparr>) \<and>
        usable Ls q s' \<and> woken (WaitReceiveL q) (kern s) (kern s')"
  proof (cases "items (kern s) (WaitReceiveL q) = []")
    case True
    then show ?thesis using eq c k1 u1 woken_none [OF True]
      by (intro exI [of _ s1]) (simp add: send_now_def, simp add: s1_def)
  next
    case False
    obtain k' where "wake_and_yield (WaitReceiveL q) s1 = Some (s1\<lparr>kern := k'\<rparr>)"
      "woken (WaitReceiveL q) (kern s1) k'" "usable Ls q (s1\<lparr>kern := k'\<rparr>)"
      using wake_and_yield_woken [OF u1, of "WaitReceiveL q"] False k1 by auto
    then show ?thesis using eq c k1 False
      by (intro exI [of _ "s1\<lparr>kern := k'\<rparr>"]) (simp add: send_now_def, simp add: s1_def)
  qed
qed

text \<open>A free mutex goes to the caller.\<close>

theorem mutex_take_free:
  assumes ok: "mutex_ok q s" and fr: "holder q s = None" and ws: "waiters (WaitSendL q) (kern s) = []"
    and c: "pxCurrentTCB (kern s) \<noteq> NULL"
  shows "\<exists>s'. take_pass q w t b s = Some (Took True, s') \<and> mutex_ok q s' \<and> holder q s' = Some (pxCurrentTCB (kern s)) \<and>
     ls (kern s') = ls (kern s) \<and> pxCurrentTCB (kern s') = pxCurrentTCB (kern s) \<and>
     tcbs (kern s') = (tcbs (kern s))(pxCurrentTCB (kern s) := uxMutexesHeld_update (\<lambda>n. n + 1) (tcbs (kern s) (pxCurrentTCB (kern s))))"
proof -
  let ?k = "kern s"
  have n: "uxMessagesWaiting (queues s q) = 1" using ok fr by (auto simp: mutex_ok_def holder_def split: if_splits)
  have "items ?k (WaitSendL q) = []" using ws by (simp add: waiters_def)
  then have "take_pass q w t b s = Some (Took True, upd_queue q (pcTail_update (\<lambda>_. pxCurrentTCB ?k))
      ((upd_queue q (uxMessagesWaiting_update (\<lambda>_. 0)) s)\<lparr>kern := upd_tcb (pxCurrentTCB ?k) (uxMutexesHeld_update (\<lambda>n. n + 1)) ?k\<rparr>))"
    using ok n c
    by (simp add: take_pass_def take_try_def take_now_def mutex_ok_def pvTaskIncrementMutexHeldCount_def word_gt_0 Let_def)
  then show ?thesis using ok c by (simp add: mutex_ok_def holder_def)
qed

text \<open>A taken mutex is refused at once when there is no time to wait, and only its holder can
  give it: for another task the assertion in \<open>xTaskPriorityDisinherit\<close> fails.\<close>

theorem mutex_take_refused:
  assumes ok: "mutex_ok q s" and h: "holder q s = Some h"
  shows "xQueueSemaphoreTake q 0 s = Some (Took False, s)"
    and "h \<noteq> pxCurrentTCB (kern s) \<Longrightarrow> xQueueGenericSend q NULL 0 queueSEND_TO_BACK s = None"
  using assms
  by (auto simp: mutex_ok_def holder_def xQueueSemaphoreTake_def take_pass_def take_try_def xQueueGenericSend_def
    send_asserts_def send_pass_def send_try_def send_now_def prvCopyDataToQueue_def on_kern_r_def
    xTaskPriorityDisinherit_def Let_def split: if_splits)

subsection \<open>Waiting for a mutex\<close>

lemma inherit_ready_to_block:
  assumes r: "ready_to_block Ls k" and h: "h \<noteq> NULL" "h \<noteq> pxCurrentTCB k"
  shows "\<exists>b k1. xTaskPriorityInherit h k = Some (b, k1) \<and> ready_to_block Ls k1 \<and>
     tcbs k1 = (tcbs k)(h := (tcbs k h)\<lparr>uxPriority := max (prio k h) (prio k (pxCurrentTCB k))\<rparr>) \<and>
     pxCurrentTCB k1 = pxCurrentTCB k \<and> xTickCount k1 = xTickCount k \<and>
     (b \<longleftrightarrow> prio k h < prio k (pxCurrentTCB k) \<or> uxBasePriority (tcbs k h) < prio k (pxCurrentTCB k)) \<and>
     (\<forall>i. i \<noteq> StateItem h \<longrightarrow> cont_of k1 i = cont_of k i)"
proof -
  let ?c = "pxCurrentTCB k"
  have inv: "kinv Ls {} k" and c: "cont_of k (StateItem ?c) = Some (ReadyL (unat (prio k ?c)))"
    and st: "settled k" using r by (auto simp: ready_to_block_def)
  have pc: "unat (prio k ?c) < configMAX_PRIORITIES" using ready_place [OF inv c] by auto
  obtain k1 where k1: "xTaskPriorityInherit h k =
        Some (prio k h < prio k ?c \<or> uxBasePriority (tcbs k h) < prio k ?c, k1)" "kinv Ls {} k1"
     "tcbs k1 = (tcbs k)(h := (tcbs k h)\<lparr>uxPriority := max (prio k h) (prio k ?c)\<rparr>)"
     "cont_of k1 = (if \<exists>m. cont_of k (StateItem h) = Some (ReadyL m)
       then (cont_of k)(StateItem h := Some (ReadyL (unat (prio k1 h)))) else cont_of k)"
     "pxCurrentTCB k1 = ?c" "xTickCount k1 = xTickCount k" "uxSchedulerSuspended k1 = uxSchedulerSuspended k"
     "uxPendedTicks k1 = uxPendedTicks k" "uxCurrentNumberOfTasks k1 = uxCurrentNumberOfTasks k"
    using inherit_spec [OF inv h(1) pc] by blast
  have other: "cont_of k1 i = cont_of k i" if "i \<noteq> StateItem h" for i
    using that by (simp add: k1(4))
  have rdy: "\<exists>n. cont_of k1 (StateItem q) = Some (ReadyL n)" if "cont_of k (StateItem q) = Some (ReadyL m)" for q m
    using that by (auto simp: k1(4))
  have "pending k = []" using st by (simp add: settled_def pending_def)
  then have "\<forall>i. cont_of k i \<noteq> Some PendingReadyL" using pending_empty_iff [OF inv] by blast
  then have "\<forall>i. cont_of k1 i \<noteq> Some PendingReadyL" by (simp add: k1(4))
  then have "pending k1 = []" using pending_empty_iff [OF k1(2)] by blast
  then have "settled k1" using st k1(8) by (simp add: settled_def pending_def)
  moreover have "cont_of k1 (StateItem ?c) = Some (ReadyL (unat (prio k1 ?c)))" using c h(2) other k1(3) by simp
  moreover have "\<exists>q n. q \<noteq> ?c \<and> cont_of k1 (StateItem q) = Some (ReadyL n)" using r rdy by (force simp: ready_to_block_def)
  ultimately have "ready_to_block Ls k1" using r k1(2,5,7,9) other by (simp add: ready_to_block_def)
  with k1 other show ?thesis by blast
qed

text \<open>A task that has to wait for a mutex lends the holder its priority.\<close>

theorem mutex_take_blocks:
  assumes ok: "mutex_ok q s" and h: "holder q s = Some h" "h \<noteq> pxCurrentTCB (kern s)"
    and u: "usable Ls q s" and cb: "can_block (kern s)" and st: "settled (kern s)" and ul: "unlocked q s"
    and w: "w \<noteq> 0"
  shows "\<exists>k' b. take_pass q w None i s =
        Some (TakeAgain w (vTaskInternalSetTimeOutState (kern s)) b, s\<lparr>kern := k'\<rparr>) \<and>
     kinv Ls {} k' \<and> cont_of k' (EventItem (pxCurrentTCB (kern s))) = Some (WaitReceiveL q) \<and>
     cont_of k' (StateItem (pxCurrentTCB (kern s))) = Some (delay_list w True (kern s)) \<and>
     pxCurrentTCB k' \<noteq> pxCurrentTCB (kern s) \<and> runs_highest k' \<and>
     tcbs k' = (tcbs (kern s))(h := (tcbs (kern s) h)\<lparr>uxPriority :=
       max (prio (kern s) h) (prio (kern s) (pxCurrentTCB (kern s)))\<rparr>) \<and>
     (b \<longleftrightarrow> prio (kern s) h < prio (kern s) (pxCurrentTCB (kern s)) \<or>
        uxBasePriority (tcbs (kern s) h) < prio (kern s) (pxCurrentTCB (kern s)))"
proof -
  let ?c = "pxCurrentTCB (kern s)" and ?ks = "vTaskSuspendAll (kern s)" and ?t = "vTaskInternalSetTimeOutState (kern s)"
  let ?s = "s\<lparr>kern := ?ks\<rparr>"
  have sF: "pxCurrentTCB ?ks = ?c" "tcbs ?ks = tcbs (kern s)" "xTickCount ?ks = xTickCount (kern s)"
    "xNumOfOverflows ?ks = xNumOfOverflows (kern s)" "ls ?ks = ls (kern s)" by (simp_all add: vTaskSuspendAll_def)
  have n: "uxMessagesWaiting (queues s q) = 0" "pxMutexHolder (queues s q) = h" "h \<noteq> NULL"
    using ok h by (auto simp: mutex_ok_def holder_def split: if_splits)
  have l: "WaitReceiveL q \<in> Ls" using u by (simp add: usable_def)
  have h2: "h \<noteq> pxCurrentTCB ?ks" using h(2) sF by simp
  obtain b k1 where k1: "xTaskPriorityInherit h ?ks = Some (b, k1)" "ready_to_block Ls k1"
     "tcbs k1 = (tcbs (kern s))(h := (tcbs (kern s) h)\<lparr>uxPriority := max (prio (kern s) h) (prio (kern s) ?c)\<rparr>)"
     "pxCurrentTCB k1 = ?c" "xTickCount k1 = xTickCount (kern s)"
     "b \<longleftrightarrow> prio (kern s) h < prio (kern s) ?c \<or> uxBasePriority (tcbs (kern s) h) < prio (kern s) ?c"
     "\<forall>i. i \<noteq> StateItem h \<longrightarrow> cont_of k1 i = cont_of (kern s) i"
    using inherit_ready_to_block [OF suspended_ready_to_block [OF u cb st] n(3) h2] unfolding sF by blast
  let ?s1 = "s\<lparr>kern := k1\<rparr>"
  have ul1: "unlocked q ?s1" and ul': "unlocked q ?s" using ul by (simp_all add: unlocked_def)
  have "ready_to_block Ls (kern ?s1)" using k1(2) by simp
  from locked_block [OF this l _ w ul1] obtain k' where
    k': "block_on q (WaitReceiveL q) w (prvLockQueue q ?s1) = Some (s\<lparr>kern := k'\<rparr>)" "kinv Ls {} k'"
      "blocked_on (WaitReceiveL q) w k1 k'" by auto
  have kL: "kern (prvLockQueue q ?s) = ?ks" using lock_then(1) [OF ul'] by simp
  have qL: "queues (prvLockQueue q ?s) q = (queues s q)\<lparr>cRxLock := 0, cTxLock := 0\<rparr>" using lock_then(3) [OF ul'] by simp
  have inh: "on_kern_r (xTaskPriorityInherit h) (prvLockQueue q ?s) = Some (b, prvLockQueue q ?s1)"
  proof -
    have "(prvLockQueue q ?s)\<lparr>kern := k1\<rparr> = prvLockQueue q ?s1" by (simp add: suspend_commute)
    then show ?thesis using k1(1) kL by (simp add: on_kern_r_def)
  qed
  have "xTaskCheckForTimeOut ?t w (kern (prvLockQueue q ?s)) = (False, ?t, w)"
    by (rule check_at_once [OF w]) (simp_all only: kL sF)
  then have "take_wait q w ?t i s = Some (TakeAgain w ?t b, s\<lparr>kern := k'\<rparr>)"
    using n ok inh k'(1) qL by (simp add: take_wait_def Let_def prvIsQueueEmpty_def mutex_ok_def)
  then have "take_pass q w None i s = Some (TakeAgain w ?t b, s\<lparr>kern := k'\<rparr>)"
    using n w by (simp add: take_pass_def take_try_def set_time_out_def)
  moreover have "delay_list w True k1 = delay_list w True (kern s)"
  proof -
    have "pxDelayedTaskList k1 = pxDelayedTaskList (kern s) \<and> pxOverflowDelayedTaskList k1 = pxOverflowDelayedTaskList (kern s)"
      using k1(1) n(3) by (auto simp: xTaskPriorityInherit_eq vTaskSuspendAll_def requeue_def prvAddTaskToReadyList_eq Let_def split: if_splits)
    then show ?thesis using k1(5) by (simp add: delay_list_def)
  qed
  ultimately show ?thesis
    using k'(2,3) k1(3,4,6) by (intro exI [of _ k'] exI [of _ b]) (simp add: blocked_on_def Let_def)
qed

subsection \<open>Giving a mutex\<close>

lemma disinherit_items:
  assumes inv: "kinv_at lo Ls X k" and d: "xTaskPriorityDisinherit h k = Some (b, k')" and l: "event_list l"
  shows "items k' l = items k l"
proof -
  have "l_elems l (drop_item (StateItem h) (ls k)) = items k l" if "cont_of k (StateItem h) = Some m" for m
  proof -
    have "m \<noteq> l" using state_place(2) [OF inv that] l not_event_delayed [OF kinvD(5) [OF inv]] by auto
    then show ?thesis using that by (simp add: drop_item_def)
  qed
  moreover have "l \<noteq> ReadyL n" for n using l by auto
  ultimately show ?thesis
    using d by (auto simp: xTaskPriorityDisinherit_def k_remove_eq prvAddTaskToReadyList_eq Let_def
      split: if_splits)
qed

text \<open>The holder gives the mutex: it is free, the holder is back at its base priority if it holds no
  other, and the first waiting task is ready to try again.\<close>

theorem mutex_give:
  assumes ok: "mutex_ok q s" and h: "holder q s = Some (pxCurrentTCB (kern s))" and u: "usable Ls q s"
    and c: "\<exists>m. cont_of (kern s) (StateItem (pxCurrentTCB (kern s))) = Some (ReadyL m)"
    and m: "uxMutexesHeld (tcbs (kern s) (pxCurrentTCB (kern s))) \<noteq> 0"
    and b: "unat (uxBasePriority (tcbs (kern s) (pxCurrentTCB (kern s)))) < configMAX_PRIORITIES"
  shows "\<exists>s'. xQueueGenericSend q NULL 0 queueSEND_TO_BACK s = Some (Return True, s') \<and> mutex_ok q s' \<and>
     holder q s' = None \<and> usable Ls q s' \<and>
     tcbs (kern s') = (tcbs (kern s))(pxCurrentTCB (kern s) := give_back (tcbs (kern s) (pxCurrentTCB (kern s)))) \<and>
     (case waiters (WaitReceiveL q) (kern s) of
        [] \<Rightarrow> if prio (kern s') (pxCurrentTCB (kern s)) \<noteq> prio (kern s) (pxCurrentTCB (kern s))
              then runs_highest (kern s') else pxCurrentTCB (kern s') = pxCurrentTCB (kern s)
      | p # ps \<Rightarrow> waiters (WaitReceiveL q) (kern s') = ps \<and> cont_of (kern s') (EventItem p) = None \<and>
          cont_of (kern s') (StateItem p) = Some (ReadyL (unat (prio (kern s') p))) \<and>
          (prio (kern s') (pxCurrentTCB (kern s)) < prio (kern s') p \<longrightarrow> runs_highest (kern s')))"
proof -
  let ?k = "kern s" and ?c = "pxCurrentTCB (kern s)"
  have inv: "kinv Ls {} ?k" and nn: "no_null ?k" and run: "uxSchedulerSuspended ?k = 0" and lL: "WaitReceiveL q \<in> Ls"
    using u by (auto simp: usable_def)
  have Q: "uxItemSize (queues s q) = 0" "pcHead (queues s q) = NULL" "uxLength (queues s q) = 1" "q \<noteq> NULL"
    "uxMessagesWaiting (queues s q) = 0" "pxMutexHolder (queues s q) = ?c" and cN: "?c \<noteq> NULL"
    using ok h by (auto simp: mutex_ok_def holder_def split: if_splits)
  obtain k1 where k1: "xTaskPriorityDisinherit ?c ?k = Some (prio k1 ?c \<noteq> prio ?k ?c, k1)" "kinv Ls {} k1"
     "tcbs k1 = (tcbs ?k)(?c := give_back (tcbs ?k ?c))"
     "cont_of k1 = (cont_of ?k)(StateItem ?c := Some (ReadyL (unat (prio k1 ?c))))"
     "pxCurrentTCB k1 = ?c" "uxSchedulerSuspended k1 = uxSchedulerSuspended ?k"
    using disinherit_spec [OF inv c cN m b] by blast
  define s1 where "s1 = s\<lparr>queues := (queues s)(q := (queues s q)\<lparr>pcTail := NULL, uxMessagesWaiting := 1\<rparr>), kern := k1\<rparr>"
  have cp: "prvCopyDataToQueue q NULL queueSEND_TO_BACK s = Some (prio k1 ?c \<noteq> prio ?k ?c, s1)"
    using Q k1(1) by (simp add: prvCopyDataToQueue_def on_kern_r_def s1_def upd_queue_def Let_def)
  have eq: "xQueueGenericSend q NULL 0 queueSEND_TO_BACK s = do { s' \<leftarrow> send_now q NULL queueSEND_TO_BACK s; Some (Return True, s') }"
    using Q by (simp add: xQueueGenericSend_def send_asserts_def send_pass_def send_try_def)
  have ks: "kern s1 = k1" by (simp add: s1_def)
  have "no_null k1" using nn cN by (auto simp: no_null_def k1(4))
  then have u1: "usable Ls q s1" using u k1(2,6) by (simp add: usable_def ks)
  have ok1: "mutex_ok q (s1\<lparr>kern := k\<rparr>) \<and> holder q (s1\<lparr>kern := k\<rparr>) = None" for k
    using Q by (simp add: mutex_ok_def holder_def s1_def)
  have same: "items k1 (WaitReceiveL q) = items ?k (WaitReceiveL q)"
    using disinherit_items [OF inv k1(1), of "WaitReceiveL q"] by simp
  then have wt: "waiters (WaitReceiveL q) k1 = waiters (WaitReceiveL q) ?k" by (simp add: waiters_def)
  show ?thesis
  proof (cases "items ?k (WaitReceiveL q) = []")
    case True
    then have w0: "waiters (WaitReceiveL q) ?k = []" by (simp add: waiters_def)
    have st: "xQueueGenericSend q NULL 0 queueSEND_TO_BACK s = (if prio k1 ?c \<noteq> prio ?k ?c
        then do { s \<leftarrow> on_kern portYIELD_WITHIN_API s1; Some (Return True, s) } else Some (Return True, s1))"
      using eq cp True same ks by (simp add: send_now_def)
    show ?thesis
    proof (cases "prio k1 ?c \<noteq> prio ?k ?c")
      case y: True
      have "some_ready k1" by (rule iffD2 [OF some_ready_iff [OF k1(2)]]) (use k1(4) in auto)
      from switch_runs_highest [OF k1(2) _ this] k1(6) run obtain k2 where
        k2: "vTaskSwitchContext k1 = Some k2" "kinv Ls {} k2" "cont_of k2 = cont_of k1" "tcbs k2 = tcbs k1"
          "uxSchedulerSuspended k2 = 0" "runs_highest k2" by auto
      have "no_null k2" using \<open>no_null k1\<close> by (simp add: no_null_def k2(3))
      then have "usable Ls q (s1\<lparr>kern := k2\<rparr>)" using u1 k2(2,5) by (simp add: usable_def)
      moreover have "xQueueGenericSend q NULL 0 queueSEND_TO_BACK s = Some (Return True, s1\<lparr>kern := k2\<rparr>)"
        using st y k2(1) by (simp add: on_kern_def ks portYIELD_WITHIN_API_def)
      ultimately show ?thesis using ok1 [of k2] k2(4,6) k1(3) w0 y
        by (intro exI [of _ "s1\<lparr>kern := k2\<rparr>"]) simp
    next
      case False
      then show ?thesis using st ok1 [of k1] u1 k1(3,5) w0 ks
        by (intro exI [of _ s1]) (simp add: s1_def)
    qed
  next
    case False
    obtain p ps where w: "waiters (WaitReceiveL q) ?k = p # ps" using False by (cases "waiters (WaitReceiveL q) ?k") (auto simp: waiters_def)
    obtain k' where k': "wake_and_yield (WaitReceiveL q) s1 = Some (s1\<lparr>kern := k'\<rparr>)"
      "woken (WaitReceiveL q) k1 k'" "usable Ls q (s1\<lparr>kern := k'\<rparr>)"
      using wake_and_yield_woken [OF u1, of "WaitReceiveL q"] False same ks by auto
    have "xQueueGenericSend q NULL 0 queueSEND_TO_BACK s = Some (Return True, s1\<lparr>kern := k'\<rparr>)"
      using eq cp k'(1) False same ks by (simp add: send_now_def)
    moreover have wk: "waiters (WaitReceiveL q) k' = ps" "tcbs k' = tcbs k1"
      "cont_of k' = (cont_of k1)(EventItem p := None, StateItem p := Some (ReadyL (unat (prio k1 p))))"
      "prio k1 ?c < prio k1 p \<longrightarrow> runs_highest k'"
      using k'(2) w wt k1(5) by (simp_all add: woken_def)
    have pr: "prio k' x = prio k1 x" for x using wk(2) by simp
    ultimately show ?thesis using k'(3) ok1 [of k'] k1(3) w
      by (intro exI [of _ "s1\<lparr>kern := k'\<rparr>"]) (simp add: pr wk(1,3,4), simp add: wk(2))
  qed
qed

end
