(* ===== verification/Allocator.thy ===== *)
theory Allocator
  imports HeapLayout
begin

section \<open>The contract of the allocator\<close>

text \<open>
  What the rest of the kernel relies on: an allocation returns \<open>NULL\<close> and changes nothing, or a
  new block disjoint from every live one; a release of a live block succeeds and removes just
  that block.  \<open>live\<close> holds the address and the size of the payload of every block handed out.
\<close>

definition apart :: "ptr \<times> nat \<Rightarrow> ptr \<times> nat \<Rightarrow> bool" where
  "apart x y \<longleftrightarrow> fst x \<noteq> fst y \<and>
     (unat (fst x) + snd x \<le> unat (fst y) \<or> unat (fst y) + snd y \<le> unat (fst x))"

locale allocator =
  fixes alloc :: "u32 \<Rightarrow> 'h \<Rightarrow> (ptr \<times> 'h) option"
    and free :: "ptr \<Rightarrow> 'h \<Rightarrow> 'h option"
    and valid :: "'h \<Rightarrow> bool"
    and live :: "'h \<Rightarrow> (ptr \<times> nat) set"
  assumes alloc_spec: "valid h \<Longrightarrow> \<exists>p h'. alloc n h = Some (p, h') \<and> valid h' \<and>
      (if p = NULL then live h' = live h
       else \<exists>m \<ge> unat n. live h' = insert (p, m) (live h) \<and> (\<forall>x \<in> live h. apart (p, m) x))"
    and free_spec: "valid h \<Longrightarrow> (p, m) \<in> live h \<Longrightarrow>
      \<exists>h'. free p h = Some h' \<and> valid h' \<and> live h' = live h - {(p, m)}"
    and live_spec: "valid h \<Longrightarrow> (p, m) \<in> live h \<Longrightarrow> p \<noteq> NULL \<and> unat p + m < 2 ^ 32"
    and live_apart: "valid h \<Longrightarrow> x \<in> live h \<Longrightarrow> y \<in> live h \<Longrightarrow> x \<noteq> y \<Longrightarrow> apart x y"
begin

lemma alloc_cases:
  assumes "valid h"
  obtains (full) h' where "alloc n h = Some (NULL, h')" and "valid h'" and "live h' = live h"
  | (ok) p m h' where "alloc n h = Some (p, h')" and "valid h'" and "p \<noteq> NULL" and "unat n \<le> m"
      and "live h' = insert (p, m) (live h)" and "\<forall>x \<in> live h. apart (p, m) x"
  using alloc_spec [OF assms, of n] by (metis (full_types))

lemma live_unique: "valid h \<Longrightarrow> (p, m) \<in> live h \<Longrightarrow> (p, k) \<in> live h \<Longrightarrow> m = k"
  using live_apart [of h "(p, m)" "(p, k)"] by (fastforce simp: apart_def)

lemma alloc_fresh:
  assumes "valid h" and "alloc n h = Some (p, h')" and "p \<noteq> NULL"
  shows "p \<notin> fst ` live h" and "\<exists>m. (p, m) \<in> live h'"
proof -
  obtain m where m: "live h' = insert (p, m) (live h)" "\<forall>x \<in> live h. apart (p, m) x" "valid h'"
    using alloc_spec [OF assms(1), of n] assms(2,3) by auto
  then show "\<exists>m. (p, m) \<in> live h'" by auto
  show "p \<notin> fst ` live h" using m(2) by (fastforce simp: apart_def)
qed

text \<open>A block just allocated can be released, which restores the live blocks.\<close>

lemma alloc_free:
  assumes "valid h" and "alloc n h = Some (p, h')" and "p \<noteq> NULL"
  shows "\<exists>h''. free p h' = Some h'' \<and> valid h'' \<and> live h'' = live h"
proof -
  obtain m where m: "live h' = insert (p, m) (live h)" "valid h'"
    using alloc_spec [OF assms(1), of n] assms(2,3) by auto
  have "p \<notin> fst ` live h" by (rule alloc_fresh(1) [OF assms])
  then have "live h = live h' - {(p, m)}" using m(1) by (auto simp: image_iff)
  then show ?thesis using free_spec [OF m(2), of p m] m(1) by auto
qed

end

text \<open>The blocks of a layout are determined by the headers.\<close>

lemma layout_det:
  assumes "tiles lo L hi" and "tiles lo L' hi" and "hi < 2 ^ 32" and "hi - lo < 2 ^ 31"
    and "\<forall>(a, n, u) \<in> set L. size_of h a = (if u then n OR 0x80000000 else n)"
    and "\<forall>(a, n, u) \<in> set L'. size_of h a = (if u then n OR 0x80000000 else n)"
  shows "L = L'"
  using assms
proof (induction lo L hi arbitrary: L' rule: tiles.induct)
  case (1 lo hi)
  have "L' = []" if "tiles lo L' lo" for L'
    using that by (cases L') (fastforce dest: tiles_le)+
  from this [of L'] 1 show ?case by auto
next
  case (2 lo a n u L hi)
  have L: "tiles (lo + unat n) L hi" "unat a = lo" "8 \<le> unat n" using "2.prems"(1) by auto
  obtain b m v L'' where L': "L' = (b, m, v) # L''"
    using "2.prems"(2) L tiles_le [OF L(1)] by (cases L') auto
  then have L'': "tiles (lo + unat m) L'' hi" "b = a" using "2.prems"(2) L(2) by (auto simp: word_unat_eq_iff)
  have nm: "unat n < 2 ^ 31" "unat m < 2 ^ 31"
    using tiles_le [OF L(1)] tiles_le [OF L''(1)] "2.prems"(4) by auto
  have "(if u then n OR 0x80000000 else n) = (if v then m OR 0x80000000 else m)"
    using "2.prems"(5,6) L' L'' by force
  moreover have "n AND 0x80000000 = 0" "m AND 0x80000000 = 0"
    using nm by (simp_all add: top_bit_clear [THEN iffD2])
  ultimately have "u = v \<and> n = m"
    using top_bit_undo nm top_bit_set by (metis (full_types))
  moreover have "L = L''"
    by (rule "2.IH") (use L L'' "2.prems" L' calculation in auto)
  ultimately show ?case using L' L'' by simp
qed

lemma heap_inv_headers:
  assumes "heap_inv h L" shows "\<forall>(a, n, u) \<in> set L. size_of h a = (if u then n OR 0x80000000 else n)"
proof safe
  fix a n u
  assume m: "(a, n, u) \<in> set L"
  show "size_of h a = (if u then n OR 0x80000000 else n)"
  proof (cases u)
    case True
    with heap_inv_used [OF assms] m show ?thesis by simp
  next
    case False
    then have "(a, n) \<in> set (free_blocks L)" using m by (simp add: in_free_blocks)
    then show ?thesis using heap_inv_chain(2) [OF assms] False by force
  qed
qed

lemma heap_inv_unique: "heap_inv h L \<Longrightarrow> heap_inv h L' \<Longrightarrow> L = L'"
  by (rule layout_det [OF heap_invD(1) heap_invD(1) heap_invD(7) heap_invD(9) heap_inv_headers heap_inv_headers])

definition heap_valid :: "heap_t \<Rightarrow> bool" where
  "heap_valid h \<longleftrightarrow> (\<exists>L. heap_inv h L)"

definition heap_live :: "heap_t \<Rightarrow> (ptr \<times> nat) set" where
  "heap_live h = {(a + 8, unat n - 8) |a n. \<exists>L. heap_inv h L \<and> (a, n, True) \<in> set L}"

lemma heap_live_eq:
  assumes "heap_inv h L" shows "heap_live h = (\<lambda>(a, n). (a + 8, unat n - 8)) ` set (used_blocks L)"
proof -
  have "\<exists>L'. heap_inv h L' \<and> (a, n, True) \<in> set L' \<longleftrightarrow> (a, n) \<in> set (used_blocks L)" for a n
    using heap_inv_unique [OF assms] assms in_used_blocks by blast
  then have "heap_live h = {(a + 8, unat n - 8) |a n. (a, n) \<in> set (used_blocks L)}"
    unfolding heap_live_def using heap_inv_unique [OF assms] assms in_used_blocks by blast
  then show ?thesis by force
qed

lemma heap_invE:
  assumes "heap_valid h"
  obtains L where "heap_inv h L" "heap_live h = (\<lambda>(a, n). (a + 8, unat n - 8)) ` set (used_blocks L)"
  using assms heap_live_eq by (auto simp: heap_valid_def)

text \<open>Two used blocks of a layout do not overlap.\<close>

lemma tiles_disjoint:
  assumes "tiles lo L hi" and "(a, n, u) \<in> set L" and "(b, m, v) \<in> set L" and "a \<noteq> b"
  shows "unat a + unat n \<le> unat b \<or> unat b + unat m \<le> unat a"
  using assms
proof (induction lo L hi rule: tiles.induct)
  case (2 lo c k w L hi)
  then have "lo + unat k \<le> unat x" if "(x, l, y) \<in> set L" for x l y
    using that tiles_bounds(1) by auto
  with 2 show ?case by (auto split: if_splits)
qed simp

lemma payload:
  assumes inv: "heap_inv h L" and a: "(a, n, True) \<in> set L"
  shows "unat (a + 8) = unat a + 8" and "a + 8 \<noteq> NULL" and "unat (a + 8) + (unat n - 8) = unat a + unat n"
    and "unat a + unat n < 2 ^ 32"
proof -
  note blk = heap_inv_block [OF inv a]
  show s: "unat (a + 8) = unat a + 8" using blk(4) by (subst unat_add_small) auto
  then show "a + 8 \<noteq> NULL" by (metis add_is_0 unat_0 zero_neq_numeral)
  show "unat (a + 8) + (unat n - 8) = unat a + unat n" using s blk(8) by simp
  show "unat a + unat n < 2 ^ 32" using blk(7) heap_invD(7) [OF inv] by simp
qed

lemma payload_apart:
  assumes inv: "heap_inv h L" and "(a, n, True) \<in> set L" and "(b, m, True) \<in> set L" and "a \<noteq> b"
  shows "apart (a + 8, unat n - 8) (b + 8, unat m - 8)"
  using tiles_disjoint [OF heap_invD(1) [OF inv] assms(2-4)] payload [OF inv assms(2)]
    payload [OF inv assms(3)] assms(4)
  by (auto simp: apart_def)

lemma alloc_first_used:
  assumes "alloc_first w L = Some (a, L')"
  shows "\<exists>k \<ge> w. set (used_blocks L') = insert (a, k) (set (used_blocks L))"
proof -
  obtain A n C where "L = A @ (a, n, False) # C" "w \<le> n"
     "L' = A @ (if n - w > heapMINIMUM_BLOCK_SIZE then [(a, w, True), (a + w, n - w, False)]
               else [(a, n, True)]) @ C"
    using alloc_first_Some [OF assms] by blast
  then show ?thesis by (cases "n - w > heapMINIMUM_BLOCK_SIZE") auto
qed

lemma alloc_first_notin:
  assumes "tiles lo L hi" and "alloc_first w L = Some (a, L')" shows "(a, n) \<notin> set (used_blocks L)"
proof -
  obtain A m C where L: "L = A @ (a, m, False) # C" using alloc_first_Some [OF assms(2)] by blast
  then have "(a, m, False) \<in> set L" by simp
  from same_addr [OF assms(1) this] show ?thesis by (auto simp: in_used_blocks)
qed

lemma used_release:
  assumes "tiles lo L hi" and "(a, n, True) \<in> set L"
  shows "set (used_blocks (release a L)) = set (used_blocks L) - {(a, n)}"
proof -
  obtain A C where L: "L = A @ (a, n, True) # C" using assms(2) by (metis in_set_conv_decomp)
  then have "(a, m) \<notin> set (used_blocks A @ used_blocks C)" for m
    using tiles_addr_notin(2,3) [of lo A a n True C hi] assms(1) by (auto simp: in_used_blocks)
  then show ?thesis using release_at [of lo A a n C hi] assms(1) L by auto
qed


lemma heap_alloc_contract:
  assumes "heap_valid h"
  shows "\<exists>p h'. heap_malloc n h = Some (p, h') \<and> heap_valid h' \<and>
     (if p = NULL then heap_live h' = heap_live h
      else \<exists>m \<ge> unat n. heap_live h' = insert (p, m) (heap_live h) \<and> (\<forall>x \<in> heap_live h. apart (p, m) x))"
proof -
  obtain L where L: "heap_inv h L" "heap_live h = (\<lambda>(a, n). (a + 8, unat n - 8)) ` set (used_blocks L)"
    using assms by (rule heap_invE)
  obtain h' where h': "heap_malloc n h = Some (fst (malloc_spec n L), h')" "heap_inv h' (snd (malloc_spec n L))"
    using heap_malloc_spec [OF L(1)] by blast
  note live' = heap_live_eq [OF h'(2)]
  show ?thesis
  proof (cases "n = 0 \<or> 2 ^ 31 \<le> unat n \<or> alloc_first (rounded_size n) L = None")
    case True
    then have "malloc_spec n L = (NULL, L)" by (auto simp: malloc_spec_def)
    with h' live' L(2) show ?thesis by (auto simp: heap_valid_def)
  next
    case False
    then obtain a L' where a: "alloc_first (rounded_size n) L = Some (a, L')" by auto
    then have ms: "malloc_spec n L = (a + 8, L')" using False by (simp add: malloc_spec_def)
    obtain k where k: "rounded_size n \<le> k" "set (used_blocks L') = insert (a, k) (set (used_blocks L))"
      using alloc_first_used [OF a] by blast
    have inv': "heap_inv h' L'" using h'(2) ms by simp
    have ak: "(a, k, True) \<in> set L'" using k(2) in_used_blocks by blast
    have "0 < n" using False by (simp add: word_neq_0_conv)
    then have "unat (rounded_size n) = 4 * ((unat n + 11) div 4)"
      using False by (intro rounded_size_unat) auto
    then have "unat n \<le> unat k - 8" using k(1) by (simp add: word_le_nat_alt)
    moreover have "heap_live h' = insert (a + 8, unat k - 8) (heap_live h)"
      using live' ms k(2) L(2) by simp
    moreover have "apart (a + 8, unat k - 8) x" if "x \<in> heap_live h" for x
    proof -
      obtain b m where x: "x = (b + 8, unat m - 8)" "(b, m) \<in> set (used_blocks L)"
        using \<open>x \<in> heap_live h\<close> L(2) by auto
      then have "(b, m, True) \<in> set L'" using k(2) in_used_blocks by blast
      moreover have "a \<noteq> b" using alloc_first_notin [OF heap_invD(1) [OF L(1)] a] x(2) by auto
      ultimately show ?thesis using payload_apart [OF inv' ak] x(1) by simp
    qed
    ultimately show ?thesis using h'(1) ms inv' payload(2) [OF inv' ak] by (auto simp: heap_valid_def)
  qed
qed

interpretation heap4: allocator heap_malloc heap_free heap_valid heap_live
proof unfold_locales
  fix h n
  assume "heap_valid h"
  then show "\<exists>p h'. heap_malloc n h = Some (p, h') \<and> heap_valid h' \<and>
     (if p = NULL then heap_live h' = heap_live h
      else \<exists>m \<ge> unat n. heap_live h' = insert (p, m) (heap_live h) \<and> (\<forall>x \<in> heap_live h. apart (p, m) x))"
    by (rule heap_alloc_contract)
next
  fix h p m
  assume v: "heap_valid h" and "(p, m) \<in> heap_live h"
  obtain L where L: "heap_inv h L" "heap_live h = (\<lambda>(a, n). (a + 8, unat n - 8)) ` set (used_blocks L)"
    using v by (rule heap_invE)
  with \<open>(p, m) \<in> heap_live h\<close> obtain a n where p: "p = a + 8" "m = unat n - 8" "(a, n, True) \<in> set L"
    by (auto simp: in_used_blocks)
  have u: "set (used_blocks (release a L)) = set (used_blocks L) - {(a, n)}"
    by (rule used_release [OF heap_invD(1) [OF L(1)] p(3)])
  obtain h' where h': "heap_free p h = Some h'" "heap_inv h' (release a L)"
    using heap_free_release [OF L(1) p(3)] p(1) by auto
  have inj: "inj_on (\<lambda>(a, n). (a + 8, unat n - 8)) (set (used_blocks L))"
    using same_addr [OF heap_invD(1) [OF L(1)]] by (auto simp: inj_on_def in_used_blocks)
  have "heap_live h' = heap_live h - {(p, m)}"
    using heap_live_eq [OF h'(2)] u L(2) inj_on_image_set_diff [OF inj, of "set (used_blocks L)" "{(a, n)}"] p
    by (auto simp: in_used_blocks)
  with h' show "\<exists>h'. heap_free p h = Some h' \<and> heap_valid h' \<and> heap_live h' = heap_live h - {(p, m)}"
    by (auto simp: heap_valid_def)
next
  fix h p m
  assume v: "heap_valid h" and "(p, m) \<in> heap_live h"
  obtain L where L: "heap_inv h L" "heap_live h = (\<lambda>(a, n). (a + 8, unat n - 8)) ` set (used_blocks L)"
    using v by (rule heap_invE)
  with \<open>(p, m) \<in> heap_live h\<close> obtain a n where p: "p = a + 8" "m = unat n - 8" "(a, n, True) \<in> set L"
    by (auto simp: in_used_blocks)
  from payload [OF L(1) p(3)] p(1,2) show "p \<noteq> NULL \<and> unat p + m < 2 ^ 32" by metis
next
  fix h x y
  assume v: "heap_valid h" and "x \<in> heap_live h" "y \<in> heap_live h" "x \<noteq> y"
  obtain L where L: "heap_inv h L" "heap_live h = (\<lambda>(a, n). (a + 8, unat n - 8)) ` set (used_blocks L)"
    using v by (rule heap_invE)
  have ex: "\<exists>a n. z = (a + 8, unat n - 8) \<and> (a, n, True) \<in> set L" if "z \<in> heap_live h" for z
    using that L(2) in_used_blocks by auto
  obtain a n b m where
    x: "x = (a + 8, unat n - 8)" "(a, n, True) \<in> set L" and y: "y = (b + 8, unat m - 8)" "(b, m, True) \<in> set L"
    using ex [OF \<open>x \<in> heap_live h\<close>] ex [OF \<open>y \<in> heap_live h\<close>] by blast
  have "a \<noteq> b"
  proof
    assume "a = b"
    then have "n = m" using same_addr [OF heap_invD(1) [OF L(1)] x(2)] y(2) by blast
    with \<open>a = b\<close> x(1) y(1) \<open>x \<noteq> y\<close> show False by simp
  qed
  from payload_apart [OF L(1) x(2) y(2) this] show "apart x y" using x(1) y(1) by simp
qed

end
