(* ===== verification/QueueCreate.thy ===== *)
theory QueueCreate
  imports MutexSpec Allocator
begin

section \<open>Creating queues\<close>

subsection \<open>Allocating with the scheduler suspended\<close>

text \<open>No task waits to be made ready, no tick and no yield is pending.\<close>

definition quiet :: "kernel \<Rightarrow> bool" where
  "quiet k \<longleftrightarrow> uxSchedulerSuspended k = 0 \<and> settled k \<and> \<not> xYieldPending k"

lemma resume_quiet:
  assumes "quiet k"
  shows "xTaskResumeAll ((vTaskSuspendAll k)\<lparr>heap := h\<rparr>) = Some (False, k\<lparr>heap := h\<rparr>)"
proof -
  define k1 where "k1 = (vTaskSuspendAll k)\<lparr>heap := h\<rparr>"
  have f: "uxSchedulerSuspended k1 = 1" "settled k1" "\<not> xYieldPending k1"
    using assms by (simp_all add: quiet_def vTaskSuspendAll_def settled_def k1_def)
  have e: "k1\<lparr>uxSchedulerSuspended := 0\<rparr> = k\<lparr>heap := h\<rparr>"
    using assms by (cases k) (simp add: quiet_def vTaskSuspendAll_def k1_def)
  have "xTaskResumeAll k1 = Some (False, k\<lparr>heap := h\<rparr>)"
  proof (cases "uxCurrentNumberOfTasks k1 = 0")
    case True
    moreover have "uxCurrentNumberOfTasks k1 = uxCurrentNumberOfTasks k"
      using arg_cong [OF e, of uxCurrentNumberOfTasks] by simp
    ultimately show ?thesis using f(1) e by (simp add: xTaskResumeAll_def Let_def)
  next
    case False
    then show ?thesis using resume_settled [OF f(1) False f(2)] f(3) e by simp
  qed
  then show ?thesis by (simp add: k1_def)
qed

lemma resume_quiet_same: "quiet k \<Longrightarrow> xTaskResumeAll (vTaskSuspendAll k) = Some (False, k)"
  using resume_quiet [of k "heap k"] by (simp add: vTaskSuspendAll_def)

lemma pvPortMalloc_quiet:
  assumes "quiet k" and "heap_malloc n (heap k) = Some (p, h')"
  shows "pvPortMalloc n k = Some (p, k\<lparr>heap := h'\<rparr>)"
  using assms resume_quiet [OF assms(1), of h'] by (simp add: pvPortMalloc_def vTaskSuspendAll_def)

lemma vPortFree_quiet:
  assumes "quiet k" and "heap_free p (heap k) = Some h'" and "p \<noteq> NULL"
  shows "vPortFree p k = Some (k\<lparr>heap := h'\<rparr>)"
  using assms resume_quiet [OF assms(1), of h'] by (simp add: vPortFree_def vTaskSuspendAll_def)

lemma live_bounds:
  assumes "heap_valid h" and "(p, m) \<in> heap_live h"
  shows "unat (heap_base h) < unat p" and "unat p + m < 2 ^ 32"
proof -
  obtain L a n where L: "heap_inv h L" "(a, n, True) \<in> set L" "p = a + 8" "m = unat n - 8"
    using assms(2) by (auto simp: heap_live_def)
  note P = payload [OF L(1,2)]
  have "unat (heap_base h) \<le> unat a" using tiles_bounds(1) [OF _ L(2)] L(1) by (auto simp: heap_inv_def)
  then show "unat (heap_base h) < unat p" using P(1) L(3) by simp
  show "unat p + m < 2 ^ 32" using P(3,4) L(3,4) by simp
qed

subsection \<open>New lists\<close>

lemma kinv_initialise:
  assumes inv: "kinv_at lo Ls X k" and l: "l \<notin> Ls"
  shows "kinv_at lo (insert l Ls) X (k\<lparr>ls := l_initialise l (ls k)\<rparr>)"
proof -
  have c: "cont_of k i \<noteq> Some l" for i using item_in_Ls [OF inv] l by blast
  have st: "l \<notin> static_lists" using kinvD(2) [OF inv] l by blast
  have C: "cont (l_initialise l (ls k)) = cont_of k" "ival (l_initialise l (ls k)) = val_of k"
    by (simp_all add: l_initialise_def)
  have it: "l_elems m (l_initialise l (ls k)) = items k m" if "m \<noteq> l" for m
    using that by (simp add: l_initialise_def)
  let ?k = "k\<lparr>ls := l_initialise l (ls k)\<rparr>"
  have "place_ok lo ?k i m = place_ok lo k i m" for i m by (rule place_ok_cong) (simp_all add: C)
  moreover have "lists_ok (insert l Ls) (l_initialise l (ls k))"
    using lists_ok_initialise [OF kinvD(1) [OF inv]] c by blast
  moreover have "l \<noteq> DelayedL1" "l \<noteq> DelayedL2" using st by auto
  ultimately show ?thesis
    using inv unfolding kinv_at_def by (auto simp: C it delayed_pair_def)
qed

text \<open>The lists of queues belong to live blocks of the heap.\<close>

definition lists_live :: "list_id set \<Rightarrow> kernel \<Rightarrow> bool" where
  "lists_live Ls k \<longleftrightarrow> (\<forall>q. WaitSendL q \<in> Ls \<or> WaitReceiveL q \<in> Ls \<longrightarrow> q \<in> fst ` heap_live (heap k))"

lemma new_ring:
  assumes "uxItemSize Q \<noteq> 0" and "uxLength Q \<noteq> 0" and "unat (pcHead Q) + unat (uxLength Q) * unat (uxItemSize Q) < 2 ^ 32"
    and "unat (uxItemSize Q) \<le> unat (pcHead Q)" and "pcTail Q = pcHead Q + uxLength Q * uxItemSize Q"
    and "uxMessagesWaiting Q = 0" and "pcWriteTo Q = pcHead Q"
    and "u_word Q = pcHead Q + (uxLength Q - 1) * uxItemSize Q"
  shows "ring Q 0"
proof -
  have g: "geom Q" using assms by (simp add: geom_def slot_def)
  have L: "0 < unat (uxLength Q)" using assms(2) by (simp add: unat_gt_0)
  have "unat (uxLength Q - 1) = unat (uxLength Q) - 1" using assms(2) by (rule unat_minus_one)
  then have "(of_nat (unat (uxLength Q) - 1) :: u32) = uxLength Q - 1" by (metis word_unat_eq)
  then have "u_word Q = slot Q (unat (uxLength Q) - 1)" using assms(8) by (simp add: slot_def)
  moreover have "pcWriteTo Q = slot Q 0" using assms(7) by (simp add: slot_def)
  ultimately show ?thesis using g L assms(6) by (simp add: ring_def Let_def)
qed

subsection \<open>A new queue\<close>

text \<open>A queue is created empty in a block of its own, unless the heap is exhausted; \<open>bytes\<close> is what
  it takes.\<close>

definition queue_bytes :: "u32 \<Rightarrow> u32 \<Rightarrow> nat" where
  "queue_bytes L S = 72 + unat L * unat S"

definition fits :: "u32 \<Rightarrow> u32 \<Rightarrow> kernel \<Rightarrow> bool" where
  "fits L S k \<longleftrightarrow> L \<noteq> 0 \<and> queue_bytes L S < 2 ^ 31 \<and> unat S \<le> unat (heap_base (heap k))"

lemma queue_size:
  assumes "queue_bytes L S < 2 ^ 31"
  shows "unat (L * S) = unat L * unat S" and "unat (72 + L * S) = queue_bytes L S"
proof -
  have "unat L * unat S < 2 ^ 32" using assms by (simp add: queue_bytes_def)
  then show m: "unat (L * S) = unat L * unat S" by (simp add: unat_word_ariths)
  have "unat (72 :: u32) + unat (L * S) < 2 ^ 32" using assms m by (simp add: queue_bytes_def)
  from unat_add_small [OF this] show "unat (72 + L * S) = queue_bytes L S" using m by (simp add: queue_bytes_def)
qed

definition fresh_queue :: "u32 \<Rightarrow> u32 \<Rightarrow> ptr \<Rightarrow> xQUEUE \<Rightarrow> bool" where
  "fresh_queue L S p Q \<longleftrightarrow> uxLength Q = L \<and> uxItemSize Q = S \<and> uxMessagesWaiting Q = 0 \<and>
     cRxLock Q = queueUNLOCKED \<and> cTxLock Q = queueUNLOCKED \<and>
     (if S = 0 then pcHead Q = p else pcHead Q = p + 72 \<and> ring Q 0)"

lemma init_queue:
  assumes p: "p \<noteq> NULL"
  shows "\<exists>Q. prvInitialiseNewQueue L S (p + sizeof_Queue_t) p s =
     Some (s\<lparr>queues := (queues s)(p := Q), kern := (kern s)\<lparr>ls := l_initialise (WaitReceiveL p) (l_initialise (WaitSendL p) (ls (kern s)))\<rparr>\<rparr>) \<and>
     uxLength Q = L \<and> uxItemSize Q = S \<and> uxMessagesWaiting Q = 0 \<and> cRxLock Q = queueUNLOCKED \<and> cTxLock Q = queueUNLOCKED \<and>
     pcHead Q = (if S = 0 then p else p + 72) \<and> pcTail Q = pcHead Q + L * S \<and> pcWriteTo Q = pcHead Q \<and>
     u_word Q = pcHead Q + (L - 1) * S"
  using p by (intro exI [of _ "(queues s p)\<lparr>pcHead := if S = 0 then p else p + 72, uxLength := L, uxItemSize := S,
      pcTail := (if S = 0 then p else p + 72) + L * S, uxMessagesWaiting := 0, pcWriteTo := if S = 0 then p else p + 72,
      u_word := (if S = 0 then p else p + 72) + (L - 1) * S, cRxLock := queueUNLOCKED, cTxLock := queueUNLOCKED\<rparr>"])
    (simp add: prvInitialiseNewQueue_def xQueueGenericReset_def upd_queue_def sizeof_Queue_t_def Let_def)

theorem create_queue:
  assumes inv: "kinv Ls {} (kern s)" and q: "quiet (kern s)" and hv: "heap_valid (heap (kern s))"
    and ll: "lists_live Ls (kern s)" and f: "fits L S (kern s)"
  shows "\<exists>p s'. xQueueGenericCreate L S s = Some (p, s') \<and> quiet (kern s') \<and> heap_valid (heap (kern s')) \<and>
     cont_of (kern s') = cont_of (kern s) \<and>
     (if p = NULL then heap_live (heap (kern s')) = heap_live (heap (kern s)) \<and> queues s' = queues s
      else (\<exists>m \<ge> queue_bytes L S. heap_live (heap (kern s')) = insert (p, m) (heap_live (heap (kern s))) \<and>
             (\<forall>x \<in> heap_live (heap (kern s)). apart (p, m) x)) \<and>
        kinv (insert (WaitReceiveL p) (insert (WaitSendL p) Ls)) {} (kern s') \<and>
        lists_live (insert (WaitReceiveL p) (insert (WaitSendL p) Ls)) (kern s') \<and>
        items (kern s') (WaitSendL p) = [] \<and> items (kern s') (WaitReceiveL p) = [] \<and>
        (\<forall>q. q \<noteq> p \<longrightarrow> queues s' q = queues s q) \<and> fresh_queue L S p (queues s' p))"
proof -
  let ?k = "kern s" and ?n = "72 + L * S"
  have L: "L \<noteq> 0" and b: "queue_bytes L S < 2 ^ 31" and hb: "unat S \<le> unat (heap_base (heap ?k))"
    using f by (simp_all add: fits_def)
  have n: "unat ?n = queue_bytes L S" by (rule queue_size(2) [OF b])
  obtain p h' where a: "heap_malloc ?n (heap ?k) = Some (p, h')" "heap_valid h'" and
    live: "if p = NULL then heap_live h' = heap_live (heap ?k)
      else \<exists>m \<ge> unat ?n. heap_live h' = insert (p, m) (heap_live (heap ?k)) \<and> (\<forall>x \<in> heap_live (heap ?k). apart (p, m) x)"
    using heap_alloc_contract [OF hv, of ?n] by blast
  have base: "heap_base h' = heap_base (heap ?k)"
  proof -
    obtain Lo where Lo: "heap_inv (heap ?k) Lo" using hv by (auto simp: heap_valid_def)
    show ?thesis using heap_malloc_spec [OF Lo, of ?n] a(1) by auto
  qed
  define s1 where "s1 = s\<lparr>kern := ?k\<lparr>heap := h'\<rparr>\<rparr>"
  have q1: "quiet (kern s1)" using q by (simp add: s1_def quiet_def settled_def)
  have sz: "sizeof_Queue_t + (if S = 0 then 0 else L * S) = ?n" by (simp add: sizeof_Queue_t_def)
  have m1: "on_kern_r (pvPortMalloc ?n) s = Some (p, s1)"
    using pvPortMalloc_quiet [OF q a(1)] by (simp add: on_kern_r_def s1_def)
  have L0: "0 < L" using L by (simp add: word_gt_0)
  have cr: "xQueueGenericCreate L S s = (if p \<noteq> NULL
      then do { s \<leftarrow> prvInitialiseNewQueue L S (p + sizeof_Queue_t) p s1; Some (p, s) } else Some (NULL, s1))"
    using L0 m1 by (simp add: xQueueGenericCreate_def sz Let_def)
  show ?thesis
  proof (cases "p = NULL")
    case True
    then show ?thesis using cr q1 a(2) live by (intro exI [of _ NULL] exI [of _ s1]) (simp add: s1_def)
  next
    case False
    obtain m where m: "unat ?n \<le> m" "heap_live h' = insert (p, m) (heap_live (heap ?k))"
      "\<forall>x \<in> heap_live (heap ?k). apart (p, m) x" using live False by auto
    have B: "unat (heap_base (heap ?k)) < unat p" "unat p + m < 2 ^ 32"
      using live_bounds [OF a(2), of p m] m(2) base by simp_all
    have p72: "unat (p + 72) = unat p + 72"
    proof -
      have "unat p + unat (72 :: u32) < 2 ^ 32" using B(2) m(1) n by (simp add: queue_bytes_def)
      from unat_add_small [OF this] show ?thesis by simp
    qed
    have fresh: "WaitSendL p \<notin> Ls" "WaitReceiveL p \<notin> Ls"
    proof -
      have "p \<notin> fst ` heap_live (heap ?k)" using m(3) by (force simp: apart_def)
      then show "WaitSendL p \<notin> Ls" "WaitReceiveL p \<notin> Ls" using ll by (auto simp: lists_live_def)
    qed
    obtain Q where Q: "prvInitialiseNewQueue L S (p + sizeof_Queue_t) p s1 =
       Some (s1\<lparr>queues := (queues s1)(p := Q), kern := (kern s1)\<lparr>ls := l_initialise (WaitReceiveL p) (l_initialise (WaitSendL p) (ls (kern s1)))\<rparr>\<rparr>)"
       "uxLength Q = L" "uxItemSize Q = S" "uxMessagesWaiting Q = 0" "cRxLock Q = queueUNLOCKED" "cTxLock Q = queueUNLOCKED"
       "pcHead Q = (if S = 0 then p else p + 72)" "pcTail Q = pcHead Q + L * S" "pcWriteTo Q = pcHead Q"
       "u_word Q = pcHead Q + (L - 1) * S"
      using init_queue [OF False, of L S s1] by blast
    define s' where "s' = s1\<lparr>queues := (queues s1)(p := Q), kern := (kern s1)\<lparr>ls := l_initialise (WaitReceiveL p) (l_initialise (WaitSendL p) (ls (kern s1)))\<rparr>\<rparr>"
    have "fresh_queue L S p Q"
    proof (cases "S = 0")
      case False
      have "ring Q 0"
      proof (rule new_ring)
        show "unat (pcHead Q) + unat (uxLength Q) * unat (uxItemSize Q) < 2 ^ 32"
          using Q False p72 B(2) m(1) n by (simp add: queue_bytes_def)
        show "unat (uxItemSize Q) \<le> unat (pcHead Q)" using Q False p72 B(1) hb by simp
      qed (use Q False L in simp_all)
      then show ?thesis using Q False by (simp add: fresh_queue_def)
    qed (use Q in \<open>simp add: fresh_queue_def\<close>)
    moreover have i1: "kinv Ls {} (kern s1)" by (rule kinv_fields [where k = ?k]) (use inv in \<open>simp_all add: s1_def\<close>)
    have "kinv (insert (WaitReceiveL p) (insert (WaitSendL p) Ls)) {} (kern s')"
      using kinv_initialise [OF kinv_initialise [OF i1 fresh(1)], of "WaitReceiveL p"] fresh(2) by (simp add: s'_def)
    moreover have "lists_live (insert (WaitReceiveL p) (insert (WaitSendL p) Ls)) (kern s')"
      using ll m(2) by (auto simp: lists_live_def s'_def s1_def)
    moreover have "items (kern s') (WaitSendL p) = []" "items (kern s') (WaitReceiveL p) = []"
      by (simp_all add: s'_def l_initialise_def kl_empty_def)
    moreover have "quiet (kern s')" using q1 by (simp add: quiet_def settled_def s'_def l_initialise_def)
    moreover have "cont_of (kern s') = cont_of ?k" by (simp add: s'_def s1_def l_initialise_def)
    moreover have "xQueueGenericCreate L S s = Some (p, s')" using cr False Q(1) by (simp add: s'_def)
    ultimately show ?thesis using False a(2) m n
      by (intro exI [of _ p] exI [of _ s']) (auto simp: s'_def s1_def)
  qed
qed

text \<open>A new mutex is free, a new counting semaphore has its initial count.\<close>

lemma fits_semaphore [simp]: "fits L 0 k \<longleftrightarrow> L \<noteq> 0"
  by (simp add: fits_def queue_bytes_def)

theorem create_mutex:
  assumes inv: "kinv Ls {} (kern s)" and q: "quiet (kern s)" and hv: "heap_valid (heap (kern s))"
    and ll: "lists_live Ls (kern s)"
  shows "\<exists>p s'. xQueueCreateMutex s = Some (p, s') \<and> cont_of (kern s') = cont_of (kern s) \<and>
     (p \<noteq> NULL \<longrightarrow> mutex_ok p s' \<and> holder p s' = None \<and> unlocked p s' \<and>
        kinv (insert (WaitReceiveL p) (insert (WaitSendL p) Ls)) {} (kern s'))"
proof -
  have "fits 1 0 (kern s)" by simp
  from create_queue [OF inv q hv ll this] obtain p s1 where s1: "xQueueGenericCreate 1 0 s = Some (p, s1)"
    "cont_of (kern s1) = cont_of (kern s)" and
    np: "p \<noteq> NULL \<Longrightarrow> kinv (insert (WaitReceiveL p) (insert (WaitSendL p) Ls)) {} (kern s1) \<and>
      items (kern s1) (WaitReceiveL p) = [] \<and> fresh_queue 1 0 p (queues s1 p)"
    by (metis (no_types, lifting))
  show ?thesis
  proof (cases "p = NULL")
    case True
    then show ?thesis using s1 by (simp add: xQueueCreateMutex_def prvInitialiseMutex_def)
  next
    case False
    let ?Q = "queues s1 p"
    have F: "uxLength ?Q = 1" "uxItemSize ?Q = 0" "uxMessagesWaiting ?Q = 0" "cRxLock ?Q = queueUNLOCKED" "cTxLock ?Q = queueUNLOCKED"
      and e: "items (kern s1) (WaitReceiveL p) = []"
      using np [OF False] by (simp_all add: fresh_queue_def)
    define s2 where "s2 = upd_queue p (\<lambda>Q. Q\<lparr>pcTail := NULL, pcHead := NULL, u_word := 0\<rparr>) s1"
    define s3 where "s3 = upd_queue p (uxMessagesWaiting_update (\<lambda>_. 1)) (upd_queue p (pcTail_update (\<lambda>_. NULL)) s2)"
    have "xQueueGenericSend p NULL 0 queueSEND_TO_BACK s2 = Some (Return True, s3)"
      using F e False by (simp add: xQueueGenericSend_def send_asserts_def send_pass_def send_try_def send_now_def
        prvCopyDataToQueue_def on_kern_r_def xTaskPriorityDisinherit_def s2_def s3_def Let_def upd_queue_def)
    then have "xQueueCreateMutex s = Some (p, s3)"
      using s1(1) False by (simp add: xQueueCreateMutex_def prvInitialiseMutex_def s2_def [symmetric])
    moreover have "mutex_ok p s3 \<and> holder p s3 = None \<and> unlocked p s3"
      using F False by (simp add: mutex_ok_def holder_def unlocked_def s3_def s2_def)
    ultimately show ?thesis using s1(2) np [OF False] by (intro exI [of _ p] exI [of _ s3]) (simp add: s3_def s2_def)
  qed
qed

theorem create_semaphore:
  assumes inv: "kinv Ls {} (kern s)" and q: "quiet (kern s)" and hv: "heap_valid (heap (kern s))"
    and ll: "lists_live Ls (kern s)" and m: "mx \<noteq> 0" and i: "n \<le> mx"
  shows "\<exists>p s'. xQueueCreateCountingSemaphore mx n s = Some (p, s') \<and>
     (p \<noteq> NULL \<longrightarrow> sem_ok p s' \<and> uxMessagesWaiting (queues s' p) = n \<and> uxLength (queues s' p) = mx \<and>
        kinv (insert (WaitReceiveL p) (insert (WaitSendL p) Ls)) {} (kern s'))"
proof -
  have "fits mx 0 (kern s)" using m by simp
  from create_queue [OF inv q hv ll this] obtain p s1 where s1: "xQueueGenericCreate mx 0 s = Some (p, s1)" and
    np: "p \<noteq> NULL \<Longrightarrow> kinv (insert (WaitReceiveL p) (insert (WaitSendL p) Ls)) {} (kern s1) \<and>
      fresh_queue mx 0 p (queues s1 p)"
    by (metis (no_types, lifting))
  show ?thesis
    using s1 np m i by (cases "p = NULL") (auto simp: xQueueCreateCountingSemaphore_def sem_ok_def fresh_queue_def)
qed

subsection \<open>Where the code goes wrong\<close>

text \<open>The product of length and item size is not checked for overflow: a queue of \<open>2 ^ 16\<close> items of
  \<open>2 ^ 16\<close> bytes gets a block that holds its header only.\<close>

theorem create_overflow:
  assumes inv: "kinv Ls {} (kern s)" and q: "quiet (kern s)" and hv: "heap_valid (heap (kern s))"
    and m: "heap_malloc 72 (heap (kern s)) = Some (p, h')" "p \<noteq> NULL"
  shows "\<exists>s'. xQueueGenericCreate 0x10000 0x10000 s = Some (p, s') \<and> heap (kern s') = h' \<and>
     uxLength (queues s' p) = 0x10000 \<and> uxItemSize (queues s' p) = 0x10000 \<and>
     pcTail (queues s' p) = pcHead (queues s' p)"
proof -
  define s1 where "s1 = s\<lparr>kern := (kern s)\<lparr>heap := h'\<rparr>\<rparr>"
  have "on_kern_r (pvPortMalloc 72) s = Some (p, s1)"
    using pvPortMalloc_quiet [OF q m(1)] by (simp add: on_kern_r_def s1_def)
  moreover have z: "(0x10000 :: u32) * 0x10000 = 0" by code_simp
  ultimately show ?thesis
    using m(2) unfolding xQueueGenericCreate_def prvInitialiseNewQueue_def z
    by (simp add: xQueueGenericReset_def sizeof_Queue_t_def Let_def s1_def)
qed

text \<open>The count of a locked queue is a signed byte: the 128th interrupt makes it negative, and the
  tasks that wait are not woken when the queue is unlocked.\<close>

theorem lock_count_overflow:
  assumes l: "cTxLock (queues s q) = 127" and r: "\<not> 0 < sint (cRxLock (queues s q))"
    and ok: "sem_ok q s" and n: "uxMessagesWaiting (queues s q) < uxLength (queues s q)"
  shows "\<exists>s' s''. xQueueGiveFromISR q w s = Some (True, w, s') \<and> prvUnlockQueue q s' = Some s'' \<and> kern s'' = kern s"
proof -
  have "(127 :: u8) \<noteq> queueUNLOCKED" by (simp add: queueUNLOCKED_def)
  moreover have "sint (127 + 1 :: u8) = - 128" by code_simp
  then have "\<not> 0 < sint (128 :: u8)" by simp
  ultimately show ?thesis
    using l ok n r by (simp add: xQueueGiveFromISR_def sem_ok_def prvUnlockQueue_def on_kern_def unlock_wake_none Let_def)
qed

text \<open>A task that waits for a mutex with a time limit and has lent its priority, and that finds the
  mutex free when its time is up, tries again with no time left; if another task has taken the
  mutex by then, the assertion that no inheritance has occurred fails.\<close>

theorem retry_after_timeout_stops:
  assumes ok: "mutex_ok q s1" and fr: "holder q s1 = None" and ws: "waiters (WaitSendL q) (kern s1) = []"
    and c: "pxCurrentTCB (kern s1) \<noteq> NULL"
  shows "take_expired q 0 t True s1 = Some (TakeAgain 0 t True, s1)"
    and "\<exists>s2. take_pass q w None False s1 = Some (Took True, s2) \<and> take_pass q 0 (Some t) True s2 = None"
proof -
  have "uxMessagesWaiting (queues s1 q) \<noteq> 0" using fr by (auto simp: holder_def split: if_splits)
  then show "take_expired q 0 t True s1 = Some (TakeAgain 0 t True, s1)"
    by (simp add: take_expired_def prvIsQueueEmpty_def)
  obtain s2 where s2: "take_pass q w None False s1 = Some (Took True, s2)" "holder q s2 = Some (pxCurrentTCB (kern s1))"
    using mutex_take_free [OF ok fr ws c] by blast
  then have "uxMessagesWaiting (queues s2 q) = 0" by (auto simp: holder_def split: if_splits)
  then have "take_pass q 0 (Some t) True s2 = None" by (simp add: take_pass_def take_try_def)
  with s2(1) show "\<exists>s2. take_pass q w None False s1 = Some (Took True, s2) \<and> take_pass q 0 (Some t) True s2 = None"
    by blast
qed

subsection \<open>Recursive mutexes\<close>

text \<open>The holder takes it once more, and gives it back as often.\<close>

theorem recursive_nested:
  assumes ok: "mutex_ok q s" and h: "holder q s = Some (pxCurrentTCB (kern s))"
  defines "n \<equiv> u_word (queues s q)"
  shows "\<exists>s'. xQueueTakeMutexRecursive q w s = Some (Took True, s') \<and> u_word (queues s' q) = n + 1 \<and>
       mutex_ok q s' \<and> holder q s' = holder q s \<and> kern s' = kern s"
    and "n \<noteq> 1 \<Longrightarrow> \<exists>s'. xQueueGiveMutexRecursive q s = Some (True, s') \<and> u_word (queues s' q) = n - 1 \<and>
       mutex_ok q s' \<and> holder q s' = holder q s \<and> kern s' = kern s"
    and "n = 1 \<Longrightarrow> xQueueGiveMutexRecursive q s =
       do { (r, s') \<leftarrow> xQueueGenericSend q NULL 0 queueSEND_TO_BACK (upd_queue q (u_word_update (\<lambda>_. 0)) s); Some (True, s') }"
proof -
  have *: "pxMutexHolder (queues s q) = pxCurrentTCB (kern s)"
    using h by (simp add: holder_def split: if_splits)
  show "\<exists>s'. xQueueTakeMutexRecursive q w s = Some (Took True, s') \<and> u_word (queues s' q) = n + 1 \<and>
       mutex_ok q s' \<and> holder q s' = holder q s \<and> kern s' = kern s"
    using ok * by (auto simp: n_def xQueueTakeMutexRecursive_def xTaskGetCurrentTaskHandle_def
      mutex_ok_def holder_def upd_queue_def split: if_splits)
  show "\<exists>s'. xQueueGiveMutexRecursive q s = Some (True, s') \<and> u_word (queues s' q) = n - 1 \<and>
       mutex_ok q s' \<and> holder q s' = holder q s \<and> kern s' = kern s" if "n \<noteq> 1"
    using ok * that by (auto simp: n_def xQueueGiveMutexRecursive_def xTaskGetCurrentTaskHandle_def
      mutex_ok_def holder_def upd_queue_def split: if_splits)
  show "xQueueGiveMutexRecursive q s =
       do { (r, s') \<leftarrow> xQueueGenericSend q NULL 0 queueSEND_TO_BACK (upd_queue q (u_word_update (\<lambda>_. 0)) s); Some (True, s') }"
    if "n = 1"
  proof -
    have "u_word_update (\<lambda>n. n - 1) (queues s q) = (queues s q)\<lparr>u_word := 0\<rparr>"
      using that by (cases "queues s q") (simp add: n_def)
    then have u: "upd_queue q (u_word_update (\<lambda>n. n - 1)) s = upd_queue q (u_word_update (\<lambda>_. 0)) s"
      by (simp add: upd_queue_def)
    show ?thesis
      using that ok * by (simp add: n_def xQueueGiveMutexRecursive_def xTaskGetCurrentTaskHandle_def u mutex_ok_def
        split: option.splits prod.splits)
        (cases "xQueueGenericSend q NULL 0 queueSEND_TO_BACK (upd_queue q (u_word_update (\<lambda>_. 0)) s)", auto)
  qed
qed

end
