(* ===== verification/TimersSpec.thy ===== *)
theory TimersSpec
  imports Timers QueueCreate QueueBlock
begin

section \<open>What the timers promise\<close>

subsection \<open>When a timer is due\<close>

text \<open>The comparison of expiry time, command time and current time amounts to a comparison of the ticks that
  have passed since the command with the period, whatever the tick counter was.\<close>

definition overdue :: "u32 \<Rightarrow> u32 \<Rightarrow> u32 \<Rightarrow> bool" where
  "overdue p c n \<longleftrightarrow> p \<le> n - c"

lemma overdue_iff:
  "(if c + p \<le> n then p \<le> n - c else n < c \<and> c \<le> c + p) \<longleftrightarrow> overdue p c (n :: u32)"
proof -
  have a: "unat (c + p) = (if unat c + unat p < 2 ^ 32 then unat c + unat p else unat c + unat p - 2 ^ 32)"
    using unat_u32 [of p] unat_u32 [of c] by (simp add: unat_word_ariths mod_if)
  have b: "unat (n - c) = (if unat c \<le> unat n then unat n - unat c else 2 ^ 32 + unat n - unat c)"
    using unat_u32 [of n] unat_u32 [of c] by (auto simp: unat_sub_if_size word_size)
  show ?thesis
    using unat_u32 [of p] unat_u32 [of c] unat_u32 [of n]
    by (auto simp: overdue_def word_less_nat_alt word_le_nat_alt a b)
qed

lemma ticks_left:
  assumes "\<not> overdue p c n" shows "unat (c + p - n) = unat p - unat (n - c)"
  using assms delay_until_amount [of n c p] by (simp add: overdue_def not_le)

subsection \<open>The lists of active timers\<close>

abbreviation timer_list :: "list_id \<Rightarrow> bool" where
  "timer_list l \<equiv> l = TimerL1 \<or> l = TimerL2"

text \<open>The two lists are sorted; a timer in the overflow list expires after the counter has wrapped around, at
  most when it reaches again the value it had when the timer task last looked.\<close>

definition timers_ok :: "list_id set \<Rightarrow> sys \<Rightarrow> bool" where
  "timers_ok Ls s \<longleftrightarrow> kinv Ls {} (kern s) \<and> TimerL1 \<in> Ls \<and> TimerL2 \<in> Ls \<and>
     {pxCurrentTimerList s, pxOverflowTimerList s} = {TimerL1, TimerL2} \<and>
     (\<forall>l \<in> {TimerL1, TimerL2}. sorted (map (val_of (kern s)) (items (kern s) l))) \<and>
     (\<forall>i. cont_of (kern s) i = Some (pxOverflowTimerList s) \<longrightarrow> val_of (kern s) i \<le> xLastTime s)"

lemma timers_okD:
  assumes "timers_ok Ls s"
  shows "kinv Ls {} (kern s)" and "TimerL1 \<in> Ls" and "TimerL2 \<in> Ls"
    and "timer_list (pxCurrentTimerList s)" and "timer_list (pxOverflowTimerList s)"
    and "pxCurrentTimerList s \<noteq> pxOverflowTimerList s"
    and "timer_list l \<Longrightarrow> sorted (map (val_of (kern s)) (items (kern s) l))"
    and "cont_of (kern s) i = Some (pxOverflowTimerList s) \<Longrightarrow> val_of (kern s) i \<le> xLastTime s"
  using assms by (auto simp: timers_ok_def doubleton_eq_iff)

lemma timer_item:
  assumes "kinv_at lo Ls X k" and "cont_of k i = Some l" and "timer_list l"
  shows "i = TimerItem (owner i)"
proof (cases i)
  case (StateItem p)
  with state_place(2) [OF assms(1), of p l] assms(2,3) kinvD(5) [OF assms(1)] show ?thesis
    by (auto simp: delayed_pair_def)
next
  case (EventItem p)
  with kinvD(7) [OF assms(1,2)] assms(3) show ?thesis by auto
qed simp

definition with_lists :: "sys \<Rightarrow> (list_id, item_id) lists \<Rightarrow> sys" where
  "with_lists s S = s\<lparr>kern := (kern s)\<lparr>ls := S\<rparr>\<rparr>"

lemma with_lists_fields [simp]:
  "kern (with_lists s S) = (kern s)\<lparr>ls := S\<rparr>" "timers (with_lists s S) = timers s" "mem (with_lists s S) = mem s"
  "pxCurrentTimerList (with_lists s S) = pxCurrentTimerList s" "pxOverflowTimerList (with_lists s S) = pxOverflowTimerList s"
  "xLastTime (with_lists s S) = xLastTime s" "xTimerQueue (with_lists s S) = xTimerQueue s" "queues (with_lists s S) = queues s"
  "with_lists (with_lists s S) S' = with_lists s S'"
  by (simp_all add: with_lists_def)

lemma timers_ok_with_lists:
  assumes ok: "timers_ok Ls s" and inv: "kinv_at (Suc (unat (xTickCount (kern s)))) Ls {} ((kern s)\<lparr>ls := S\<rparr>)"
    and srt: "\<And>l. timer_list l \<Longrightarrow> sorted (map (ival S) (l_elems l S))"
    and v: "\<And>i. cont S i = Some (pxOverflowTimerList s) \<Longrightarrow> ival S i \<le> xLastTime s"
  shows "timers_ok Ls (with_lists s S)"
  using timers_okD(2,3) [OF ok] inv srt v ok by (simp add: timers_ok_def)

lemma timer_off:
  assumes ok: "timers_ok Ls s"
  shows "timers_ok Ls (with_lists s (drop_item (TimerItem t) (ls (kern s))))"
proof (rule timers_ok_with_lists [OF ok kinv_drop(3) [OF timers_okD(1) [OF ok]]])
  note D = timers_okD [OF ok]
  fix l assume l: "timer_list l"
  then have "l \<in> Ls" using D(2,3) by auto
  then show "sorted (map (ival (drop_item (TimerItem t) (ls (kern s)))) (l_elems l (drop_item (TimerItem t) (ls (kern s)))))"
    using D(7) [OF l] elems_drop [OF kinvD(1) [OF D(1)], of l "TimerItem t"] by (simp add: sorted_remove1_map)
qed (use timers_okD(8) [OF ok] in \<open>simp split: if_splits\<close>)

lemma timer_value:
  assumes ok: "timers_ok Ls s" and free: "cont_of (kern s) (TimerItem t) = None"
  shows "timers_ok Ls (with_lists s (l_set_value (TimerItem t) v (ls (kern s))))"
proof (rule timers_ok_with_lists [OF ok kinv_set_value [OF timers_okD(1) [OF ok]]])
  note D = timers_okD [OF ok]
  fix l assume l: "timer_list l"
  then have "l \<in> Ls" using D(2,3) by auto
  then have "TimerItem t \<notin> set (items (kern s) l)" using free mem_items [OF D(1), of l] by auto
  then have "map ((val_of (kern s))(TimerItem t := v)) (items (kern s) l) = map (val_of (kern s)) (items (kern s) l)"
    by (rule map_fun_upd_notin)
  with D(7) [OF l] have "sorted (map ((val_of (kern s))(TimerItem t := v)) (items (kern s) l))" by (simp only:)
  then show "sorted (map (ival (l_set_value (TimerItem t) v (ls (kern s)))) (l_elems l (l_set_value (TimerItem t) v (ls (kern s)))))"
    by simp
qed (use timers_okD(8) [OF ok] free in auto)

lemma timer_on:
  assumes ok: "timers_ok Ls s" and free: "cont_of (kern s) (TimerItem t) = None" and l: "timer_list l"
    and v: "l = pxOverflowTimerList s \<Longrightarrow> val_of (kern s) (TimerItem t) \<le> xLastTime s"
  shows "timers_ok Ls (with_lists s (l_insert l (TimerItem t) (ls (kern s))))"
proof (rule timers_ok_with_lists [OF ok])
  note D = timers_okD [OF ok]
  show "kinv_at (Suc (unat (xTickCount (kern s)))) Ls {} ((kern s)\<lparr>ls := l_insert l (TimerItem t) (ls (kern s))\<rparr>)"
    using kinv_insert_gen [OF D(1) free, of l] l D(2,3) kinvD(8) [OF D(1)] by auto
  show "sorted (map (ival (l_insert l (TimerItem t) (ls (kern s)))) (l_elems l' (l_insert l (TimerItem t) (ls (kern s)))))"
    if "timer_list l'" for l'
    using D(7) [OF that] sorted_kl_insert [OF D(7) [OF l, unfolded l_fields]] by simp
qed (use timers_okD(8) [OF ok] v in \<open>auto split: if_splits\<close>)

text \<open>\<open>prvInsertTimerInActiveList\<close>: an overdue timer is handed back, any other goes to the list in which it
  expires in its time.\<close>

definition expiry_list :: "u32 \<Rightarrow> u32 \<Rightarrow> sys \<Rightarrow> list_id" where
  "expiry_list v n s = (if v \<le> n then pxOverflowTimerList s else pxCurrentTimerList s)"

lemma insert_timer_eq:
  "prvInsertTimerInActiveList t (c + period t s) n c s =
     (overdue (period t s) c n, with_lists s
        (let S = l_set_value (TimerItem t) (c + period t s) (ls (kern s))
         in if overdue (period t s) c n then S else l_insert (expiry_list (c + period t s) n s) (TimerItem t) S))"
  using overdue_iff [of c "period t s" n]
  by (auto simp: prvInsertTimerInActiveList_def expiry_list_def with_lists_def Let_def split: if_splits)

theorem insert_timer_spec:
  assumes ok: "timers_ok Ls s" and free: "cont_of (kern s) (TimerItem t) = None" and n: "n = xLastTime s"
  shows "\<exists>S. prvInsertTimerInActiveList t (c + period t s) n c s = (overdue (period t s) c n, with_lists s S) \<and>
     timers_ok Ls (with_lists s S) \<and> ival S = (val_of (kern s))(TimerItem t := c + period t s) \<and>
     cont S = (if overdue (period t s) c n then cont_of (kern s)
       else (cont_of (kern s))(TimerItem t := Some (expiry_list (c + period t s) n s))) \<and>
     (\<forall>l. \<not> timer_list l \<longrightarrow> l_elems l S = items (kern s) l)"
proof -
  let ?v = "c + period t s"
  let ?S = "l_set_value (TimerItem t) ?v (ls (kern s))"
  note D = timers_okD [OF ok]
  note ok1 = timer_value [OF ok free, of ?v]
  have "timers_ok Ls (with_lists (with_lists s ?S) (l_insert (expiry_list ?v n s) (TimerItem t) (ls (kern (with_lists s ?S)))))"
    by (rule timer_on [OF ok1]) (use D(4-6) free n in \<open>simp_all add: expiry_list_def split: if_splits\<close>)
  with ok1 show ?thesis unfolding insert_timer_eq
    by (intro exI [of _ "if overdue (period t s) c n then ?S else l_insert (expiry_list ?v n s) (TimerItem t) ?S"])
      (use D(4,5) in \<open>auto simp: Let_def expiry_list_def\<close>)
qed

lemma sample_time:
  assumes "timers_ok Ls s" and "xLastTime s \<le> xTickCount (kern s)"
  shows "prvSampleTimeNow callback m s = Some (xTickCount (kern s), False, s\<lparr>xLastTime := xTickCount (kern s)\<rparr>)"
    and "timers_ok Ls (s\<lparr>xLastTime := xTickCount (kern s)\<rparr>)"
proof -
  have "\<not> xTickCount (kern s) < xLastTime s" using assms(2) by (simp add: not_less)
  then show "prvSampleTimeNow callback m s = Some (xTickCount (kern s), False, s\<lparr>xLastTime := xTickCount (kern s)\<rparr>)"
    by (simp add: prvSampleTimeNow_def xTaskGetTickCount_def Let_def)
  show "timers_ok Ls (s\<lparr>xLastTime := xTickCount (kern s)\<rparr>)"
    using assms by (fastforce simp: timers_ok_def)
qed

lemma message_fields [simp]:
  "message_id m (with_lists s S) = message_id m s" "message_value m (with_lists s S) = message_value m s"
  "message_timer m (with_lists s S) = message_timer m s"
  "message_id m (s\<lparr>xLastTime := n\<rparr>) = message_id m s" "message_value m (s\<lparr>xLastTime := n\<rparr>) = message_value m s"
  "message_timer m (s\<lparr>xLastTime := n\<rparr>) = message_timer m s"
  by (simp_all add: message_id_def message_value_def message_timer_def)

definition start_commands :: "u32 set" where
  "start_commands = {tmrCOMMAND_START, tmrCOMMAND_START_FROM_ISR, tmrCOMMAND_RESET, tmrCOMMAND_RESET_FROM_ISR,
     tmrCOMMAND_START_DONT_TRACE}"

lemma start_commands_nonneg: "i \<in> start_commands \<Longrightarrow> 0 \<le> sint i"
  by (auto simp: start_commands_def tmrCOMMAND_START_def tmrCOMMAND_START_FROM_ISR_def tmrCOMMAND_RESET_def
      tmrCOMMAND_RESET_FROM_ISR_def tmrCOMMAND_START_DONT_TRACE_def)

text \<open>Taking the timer off its list, as the timer task does first for every command.\<close>

lemma take_off:
  "(if cont_of (kern s) (TimerItem t) \<noteq> None then on_kern (k_remove (TimerItem t)) s else Some s) =
     Some (with_lists s (drop_item (TimerItem t) (ls (kern s))))"
  by (auto simp: on_kern_def k_remove_eq with_lists_def drop_item_def)

theorem expired_timer:
  assumes ok: "timers_ok Ls s" and hd: "l_head (pxCurrentTimerList s) (ls (kern s)) = Some (TimerItem t)"
  defines "v \<equiv> val_of (kern s) (TimerItem t)" and "n \<equiv> xLastTime s"
  defines "again \<equiv> uxAutoReload (timers s t) = pdTRUE" and "late \<equiv> overdue (period t s) v n"
  shows "\<exists>S. timers_ok Ls (with_lists s S) \<and> (again \<longrightarrow> ival S = (val_of (kern s))(TimerItem t := v + period t s)) \<and>
     cont S = (cont_of (kern s))(TimerItem t := (if again \<and> \<not> late then Some (expiry_list (v + period t s) n s) else None)) \<and>
     prvProcessExpiredTimer callback m v n s =
       do {
         s \<leftarrow> (if again \<and> late then reload_later m t v (with_lists s S) else Some (with_lists s S));
         callback (pxCallbackFunction (timers s t)) t s
       }"
proof -
  let ?S = "drop_item (TimerItem t) (ls (kern s))"
  note ok0 = timer_off [OF ok, of t]
  have c: "cont_of (kern s) (TimerItem t) \<noteq> None"
    using hd_opt_in [OF hd] mem_items [OF timers_okD(1) [OF ok], of "pxCurrentTimerList s"] timers_okD(2-4) [OF ok] by auto
  then have rm: "on_kern (k_remove (TimerItem t)) s = Some (with_lists s ?S)"
    by (auto simp: on_kern_def k_remove_eq with_lists_def)
  show ?thesis
  proof (cases again)
    case False
    then have "prvProcessExpiredTimer callback m v n s = callback (pxCallbackFunction (timers s t)) t (with_lists s ?S)"
      by (simp add: prvProcessExpiredTimer_def hd rm again_def)
    with False ok0 show ?thesis by (intro exI [of _ ?S]) (simp add: fun_eq_iff)
  next
    case True
    obtain S where S: "prvInsertTimerInActiveList t (v + period t s) n v (with_lists s ?S) = (late, with_lists s S)"
      "timers_ok Ls (with_lists s S)" "ival S = (val_of (kern s))(TimerItem t := v + period t s)"
      "cont S = (if late then cont ?S else (cont ?S)(TimerItem t := Some (expiry_list (v + period t s) n s)))"
      using insert_timer_spec [OF ok0, of t n v] by (auto simp: n_def late_def expiry_list_def)
    have "prvProcessExpiredTimer callback m v n s =
       do {
         s \<leftarrow> (if again \<and> late then reload_later m t v (with_lists s S) else Some (with_lists s S));
         callback (pxCallbackFunction (timers s t)) t s
       }"
      using True by (simp add: prvProcessExpiredTimer_def hd rm again_def S(1))
    with S(2-4) True show ?thesis by (intro exI [of _ S]) (simp add: fun_eq_iff)
  qed
qed

subsection \<open>The commands of the timer task to itself\<close>

definition same_timers :: "sys \<Rightarrow> sys \<Rightarrow> bool" where
  "same_timers s s' \<longleftrightarrow> timers s' = timers s \<and> pxCurrentTimerList s' = pxCurrentTimerList s \<and>
     pxOverflowTimerList s' = pxOverflowTimerList s \<and> xTimerQueue s' = xTimerQueue s \<and> xLastTime s' = xLastTime s"

lemma copy_same_timers:
  assumes "prvCopyDataToQueue q p pos s = Some (b, s')" and "uxItemSize (queues s q) \<noteq> 0"
  shows "same_timers s s'"
  using assms by (auto simp: prvCopyDataToQueue_def same_timers_def upd_queue_def Let_def split: if_splits)

definition command_bytes :: "u32 \<Rightarrow> u32 \<Rightarrow> ptr \<Rightarrow> u8 list" where
  "command_bytes i v t = word_bytes i @ word_bytes v @ word_bytes t"

lemma command_bytes_length [simp]: "length (command_bytes i v t) = 12"
  by (simp add: command_bytes_def)

text \<open>The queue of the timers holds \<open>xs\<close>, has room for \<open>n\<close> more commands, and no one waits for them: the timer
  task, the only receiver, is running.  \<open>m\<close> is the address of a local variable.\<close>

definition command_room :: "nat \<Rightarrow> ptr \<Rightarrow> u8 list list \<Rightarrow> sys \<Rightarrow> bool" where
  "command_room n m xs s \<longleftrightarrow> (let q = xTimerQueue s in
     q \<noteq> NULL \<and> m \<noteq> NULL \<and> holds q s xs \<and> uxItemSize (queues s q) = 12 \<and> outside m 12 (queues s q) \<and>
     items (kern s) (WaitReceiveL q) = [] \<and> length xs + n \<le> unat (uxLength (queues s q)))"

text \<open>A message lies at \<open>x\<close>, apart from the local variable at \<open>m\<close> and from the queue.\<close>

definition message_at :: "ptr \<Rightarrow> ptr \<Rightarrow> u8 list \<Rightarrow> sys \<Rightarrow> bool" where
  "message_at x m b s \<longleftrightarrow> bytes x 12 (mem s) = b \<and> outside x 12 (queues s (xTimerQueue s)) \<and>
     (unat x + 12 \<le> unat m \<or> unat m + 12 \<le> unat x)"

lemma copy_back_other:
  assumes h: "holds q s xs" and c: "prvCopyDataToQueue q p queueSEND_TO_BACK s = Some (False, s')"
    and o: "outside x n (queues s q)"
  shows "bytes x n (mem s') = bytes x n (mem s)"
proof -
  let ?Q = "queues s q"
  obtain r where r: "ring ?Q r" using h by (auto simp: holds_def)
  note R = ringD [OF r]
  have "(r + unat (uxMessagesWaiting ?Q)) mod unat (uxLength ?Q) < unat (uxLength ?Q)" using R(2) by simp
  note W = slot_end [OF R(1) this]
  have "mem s' = memcpy (pcWriteTo ?Q) p (uxItemSize ?Q) (mem s)"
    using c holds_size [OF h] by (auto simp: prvCopyDataToQueue_def upd_queue_def Let_def)
  then show ?thesis using W o R(5) by (auto simp: outside_def intro!: bytes_memcpy_other)
qed

lemma holds_write:
  assumes h: "holds q s xs" and o: "outside m n (queues s q)" and n: "length bs = unat n"
  shows "holds q (s\<lparr>mem := put_bytes m bs (mem s)\<rparr>) xs"
proof -
  let ?Q = "queues s q"
  obtain r where r: "ring ?Q r" "xs = contents ?Q r (mem s)" using h by (auto simp: holds_def)
  note R = ringD [OF r(1)]
  have "bytes (slot ?Q i) (uxItemSize ?Q) (put_bytes m bs (mem s)) = bytes (slot ?Q i) (uxItemSize ?Q) (mem s)"
    if "i < unat (uxLength ?Q)" for i
    using slot_end [OF R(1) that] o n by (intro bytes_put_other) (auto simp: outside_def)
  then have "contents ?Q r (put_bytes m bs (mem s)) = contents ?Q r (mem s)"
    using R(2) by (simp add: contents_def)
  then show ?thesis using r by (auto simp: holds_def)
qed

text \<open>A command sent while the queue has room and no one waits for it.\<close>

theorem send_command:
  assumes r: "command_room (Suc n) m xs s" and t: "t \<noteq> NULL" and i: "sint i < 6"
  shows "\<exists>s'. xTimerGenericCommand m t i v None w s = Some (Return True, None, s') \<and>
     command_room n m (xs @ [command_bytes i v t]) s' \<and> kern s' = kern s \<and> same_timers s s' \<and>
     (\<forall>x b. message_at x m b s \<longrightarrow> message_at x m b s')"
proof -
  let ?q = "xTimerQueue s" and ?c = "command_bytes i v t"
  define s1 where "s1 = s\<lparr>mem := put_bytes m ?c (mem s)\<rparr>"
  have r': "?q \<noteq> NULL" "m \<noteq> NULL" "holds ?q s xs" "uxItemSize (queues s ?q) = 12" "outside m 12 (queues s ?q)"
    "items (kern s) (WaitReceiveL ?q) = []" "length xs + Suc n \<le> unat (uxLength (queues s ?q))"
    using r by (auto simp: command_room_def Let_def)
  have h1: "holds ?q s1 xs" unfolding s1_def by (rule holds_write [OF r'(3,5)]) simp
  have len: "length xs < unat (uxLength (queues s1 ?q))" using r'(7) by (simp add: s1_def)
  have item: "item_at m ?q s1 = ?c"
    using r'(4,5) by (simp add: s1_def bytes_put outside_def)
  from copy_back [OF h1 len, of m] obtain s2 where
    s2: "prvCopyDataToQueue ?q m queueSEND_TO_BACK s1 = Some (False, s2)" "holds ?q s2 (xs @ [?c])" "same_queue ?q s1 s2"
    unfolding item by blast
  have st: "same_timers s1 s2" using copy_same_timers [OF s2(1)] r'(4) by (simp add: s1_def)
  have k: "kern s2 = kern s" using s2(3) by (simp add: same_queue_def s1_def)
  have "fifo_room ?q s1 = unat (uxLength (queues s1 ?q))" by (simp add: fifo_room_def)
  then have "uxMessagesWaiting (queues s1 ?q) < uxLength (queues s1 ?q)" using messages_less [OF h1] len by simp
  then have "xQueueGenericSend ?q m w queueSEND_TO_BACK s1 = Some (Return True, s2)"
    if "xTaskGetSchedulerState (kern s) = taskSCHEDULER_RUNNING \<or> w = 0" for w
    using r' s2(1) k that by (auto simp: xQueueGenericSend_def send_asserts_def send_pass_def send_try_def send_now_def s1_def
      may_wait_def)
  then have "xTimerGenericCommand m t i v None w s = Some (Return True, None, s2)"
    using t r'(1) i by (simp add: xTimerGenericCommand_def write_message_def s1_def command_bytes_def tmrFIRST_FROM_ISR_COMMAND_def Let_def)
  moreover have "command_room n m (xs @ [?c]) s2"
    using r' s2(2,3) st k by (auto simp: command_room_def same_timers_def same_queue_def outside_def s1_def Let_def)
  moreover have "same_timers s s2" using st by (simp add: same_timers_def s1_def)
  moreover have "message_at x m b s2" if x: "message_at x m b s" for x b
  proof -
    have o: "outside x 12 (queues s1 ?q)" and d: "unat x + 12 \<le> unat m \<or> unat m + 12 \<le> unat x"
      using x by (simp_all add: message_at_def s1_def)
    have "bytes x 12 (mem s1) = bytes x 12 (mem s)"
      using o d r'(5) unfolding s1_def by (auto simp: outside_def intro!: bytes_put_other)
    then show ?thesis using x copy_back_other [OF h1 s2(1) o] s2(3) st o
      by (simp add: message_at_def same_queue_def same_timers_def outside_def s1_def)
  qed
  ultimately show ?thesis using k by blast
qed

theorem reload_later_spec:
  assumes r: "command_room (Suc n) m xs s" and t: "t \<noteq> NULL"
  shows "\<exists>s'. reload_later m t v s = Some s' \<and> command_room n m (xs @ [command_bytes tmrCOMMAND_START_DONT_TRACE v t]) s' \<and>
     kern s' = kern s \<and> same_timers s s' \<and> (\<forall>x b. message_at x m b s \<longrightarrow> message_at x m b s')"
proof -
  have "sint tmrCOMMAND_START_DONT_TRACE < 6" by (simp add: tmrCOMMAND_START_DONT_TRACE_def)
  from send_command [OF r t this, of v 0] show ?thesis by (auto simp: reload_later_def)
qed

text \<open>The assertion in the timer task fails when the queue is full.\<close>

lemma reload_later_full:
  assumes h: "holds (xTimerQueue s) s xs" and full: "length xs = unat (uxLength (queues s (xTimerQueue s)))"
    and q: "xTimerQueue s \<noteq> NULL" "m \<noteq> NULL" "uxItemSize (queues s (xTimerQueue s)) = 12" "outside m 12 (queues s (xTimerQueue s))"
  shows "reload_later m t v s = None"
proof -
  let ?q = "xTimerQueue s"
  define s1 where "s1 = s\<lparr>mem := put_bytes m (command_bytes tmrCOMMAND_START_DONT_TRACE v t) (mem s)\<rparr>"
  have h1: "holds ?q s1 xs" unfolding s1_def by (rule holds_write [OF h q(4)]) simp
  have "\<not> uxMessagesWaiting (queues s1 ?q) < uxLength (queues s1 ?q)"
    using messages_less [OF h1] full by (simp add: fifo_room_def s1_def)
  then have "xQueueGenericSend ?q m 0 queueSEND_TO_BACK s1 = Some (Return False, s1)"
    using q by (simp add: xQueueGenericSend_def send_asserts_def send_pass_def send_try_def s1_def)
  then show ?thesis
    using q(1) by (simp add: reload_later_def xTimerGenericCommand_def write_message_def s1_def command_bytes_def
      tmrCOMMAND_START_DONT_TRACE_def tmrFIRST_FROM_ISR_COMMAND_def Let_def)
qed

subsection \<open>The wrap-around of the tick\<close>

text \<open>The timers in a list, the ticks that their expiry times may still grow by, and those that will have to
  be started again by a command.\<close>

definition timers_in :: "list_id \<Rightarrow> sys \<Rightarrow> ptr set" where
  "timers_in l s = {t. cont_of (kern s) (TimerItem t) = Some l}"

definition ticks_up :: "list_id \<Rightarrow> sys \<Rightarrow> nat" where
  "ticks_up l s = (\<Sum>t \<in> timers_in l s. 2 ^ 32 - unat (val_of (kern s) (TimerItem t)))"

definition reloading :: "list_id \<Rightarrow> sys \<Rightarrow> ptr set" where
  "reloading l s = {t \<in> timers_in l s. uxAutoReload (timers s t) = pdTRUE}"

text \<open>A callback that leaves the timers, their lists and their queue alone.\<close>

definition leaves_timers :: "list_id set \<Rightarrow> ptr \<Rightarrow> timer_callback \<Rightarrow> bool" where
  "leaves_timers Ls m callback \<longleftrightarrow> (\<forall>f t s n xs. timers_ok Ls s \<and> command_room n m xs s \<longrightarrow>
     (\<exists>s'. callback f t s = Some s' \<and> timers_ok Ls s' \<and> command_room n m xs s' \<and> same_timers s s' \<and>
       (\<forall>t. cont_of (kern s') (TimerItem t) = cont_of (kern s) (TimerItem t) \<and>
            val_of (kern s') (TimerItem t) = val_of (kern s) (TimerItem t))))"

text \<open>A callback that leaves the message at \<open>x\<close> alone.\<close>

definition leaves_message :: "ptr \<Rightarrow> ptr \<Rightarrow> timer_callback \<Rightarrow> bool" where
  "leaves_message x m callback \<longleftrightarrow>
     (\<forall>f t s s' b. callback f t s = Some s' \<and> message_at x m b s \<longrightarrow> message_at x m b s')"

lemma message_at_with_lists [simp]: "message_at x m b (with_lists s S) = message_at x m b s"
  by (simp add: message_at_def with_lists_def)

lemma timers_in_items:
  assumes "timers_ok Ls s" and "timer_list l"
  shows "set (items (kern s) l) = TimerItem ` timers_in l s"
proof -
  note inv = timers_okD(1) [OF assms(1)]
  have "l \<in> Ls" using timers_okD(2,3) [OF assms(1)] assms(2) by auto
  then have "set (items (kern s) l) = {i. cont_of (kern s) i = Some l}" using mem_items [OF inv] by auto
  also have "\<dots> = TimerItem ` timers_in l s"
    using timer_item [OF inv _ assms(2)] by (fastforce simp: timers_in_def image_iff)
  finally show ?thesis .
qed

lemma timers_in_finite: "timers_ok Ls s \<Longrightarrow> timer_list l \<Longrightarrow> finite (timers_in l s)"
  using timers_in_items [of Ls s l] by (metis finite_set finite_imageD inj_onI item_id.inject(3))

lemma room_mono: "command_room n m xs s \<Longrightarrow> n' \<le> n \<Longrightarrow> command_room n' m xs s"
  by (simp add: command_room_def Let_def)

lemma room_same:
  assumes "command_room n m xs s" and "mem s' = mem s" and "queues s' = queues s" and "xTimerQueue s' = xTimerQueue s"
    and "items (kern s') (WaitReceiveL (xTimerQueue s)) = items (kern s) (WaitReceiveL (xTimerQueue s))"
  shows "command_room n m xs s'"
  using assms by (simp add: command_room_def holds_def Let_def)

lemma ticks_up_off:
  assumes ok: "timers_ok Ls s" and l: "timer_list l" and t: "t \<in> timers_in l s"
    and t': "timers_in l s' = timers_in l s - {t}"
    and v: "\<And>u. u \<noteq> t \<Longrightarrow> val_of (kern s') (TimerItem u) = val_of (kern s) (TimerItem u)"
  shows "ticks_up l s = ticks_up l s' + (2 ^ 32 - unat (val_of (kern s) (TimerItem t)))"
proof -
  note f = timers_in_finite [OF ok l]
  have "ticks_up l s' = (\<Sum>u \<in> timers_in l s - {t}. 2 ^ 32 - unat (val_of (kern s) (TimerItem u)))"
    unfolding ticks_up_def t' by (rule sum.cong) (use v in auto)
  then show ?thesis unfolding ticks_up_def using sum.remove [OF f t, of "\<lambda>u. 2 ^ 32 - unat (val_of (kern s) (TimerItem u))"] by simp
qed

lemma timer_head:
  assumes ok: "timers_ok Ls s" and l: "timer_list l" and h: "l_head l (ls (kern s)) = Some i"
  obtains t where "i = TimerItem t" and "t \<in> timers_in l s"
proof -
  have "i \<in> TimerItem ` timers_in l s" using timers_in_items [OF ok l] hd_opt_in [OF h] by simp
  then show ?thesis using that by auto
qed

text \<open>One pass of the loop: the timer at the head has been called; if it is to run again it is back in the list
  with a later expiry time, or a command has been sent.\<close>

lemma expire_step:
  assumes ok: "timers_ok Ls s" and cb: "leaves_timers Ls m callback"
    and room: "command_room (card (reloading (pxCurrentTimerList s) s)) m xs s"
    and nn: "NULL \<notin> timers_in (pxCurrentTimerList s) s"
    and hd: "l_head (pxCurrentTimerList s) (ls (kern s)) = Some i"
  shows "\<exists>t s' ms. i = TimerItem t \<and> t \<in> timers_in (pxCurrentTimerList s) s \<and>
     expire_all callback m s = expire_all callback m s' \<and> timers_ok Ls s' \<and> same_timers s s' \<and>
     (\<forall>u. u \<noteq> t \<longrightarrow> cont_of (kern s') (TimerItem u) = cont_of (kern s) (TimerItem u) \<and>
        val_of (kern s') (TimerItem u) = val_of (kern s) (TimerItem u)) \<and>
     (\<forall>x b. leaves_message x m callback \<and> message_at x m b s \<longrightarrow> message_at x m b s') \<and>
     cont_of (kern s') (TimerItem t) \<in> {None, Some (pxCurrentTimerList s)} \<and>
     ticks_up (pxCurrentTimerList s) s' < ticks_up (pxCurrentTimerList s) s \<and>
     card (reloading (pxCurrentTimerList s) s) = card (reloading (pxCurrentTimerList s) s') + length ms \<and>
     command_room (card (reloading (pxCurrentTimerList s) s')) m (xs @ ms) s'"
proof -
  let ?l = "pxCurrentTimerList s" and ?n = "card (reloading (pxCurrentTimerList s) s)"
  note D = timers_okD [OF ok]
  obtain t where t: "i = TimerItem t" "t \<in> timers_in ?l s" using timer_head [OF ok D(4) hd] by blast
  define v where "v = val_of (kern s) (TimerItem t)"
  have ct: "cont_of (kern s) (TimerItem t) = Some ?l" using t(2) by (simp add: timers_in_def)
  define s1 where "s1 = with_lists s (drop_item (TimerItem t) (ls (kern s)))"
  have rm: "on_kern (k_remove (TimerItem t)) s = Some s1"
    using ct by (simp add: on_kern_def k_remove_eq s1_def with_lists_def)
  have ok1: "timers_ok Ls s1" unfolding s1_def by (rule timer_off [OF ok])
  have w1: "items (kern s1) (WaitReceiveL q) = items (kern s) (WaitReceiveL q)" for q
    using D(4) ct by (auto simp: s1_def drop_item_def)
  have room1: "command_room ?n m xs s1" by (rule room_same [OF room]) (use w1 in \<open>simp_all add: s1_def\<close>)
  from cb ok1 room1 obtain s2 where s2: "callback (pxCallbackFunction (timers s1 t)) t s1 = Some s2" "timers_ok Ls s2"
    "command_room ?n m xs s2" "same_timers s1 s2"
    "\<And>t. cont_of (kern s2) (TimerItem t) = cont_of (kern s1) (TimerItem t)"
    "\<And>t. val_of (kern s2) (TimerItem t) = val_of (kern s1) (TimerItem t)"
    unfolding leaves_timers_def by meson
  have st: "same_timers s s2" using s2(4) by (simp add: same_timers_def s1_def)
  then have T: "timers s2 = timers s" "pxCurrentTimerList s2 = ?l" "pxOverflowTimerList s2 = pxOverflowTimerList s"
    by (simp_all add: same_timers_def)
  have msg: "\<forall>x b. leaves_message x m callback \<and> message_at x m b s \<longrightarrow> message_at x m b s2"
    using s2(1) unfolding leaves_message_def s1_def by (metis message_at_with_lists)
  have c2: "cont_of (kern s2) (TimerItem u) = (if u = t then None else cont_of (kern s) (TimerItem u))" for u
    by (simp add: s2(5) s1_def)
  have v2: "val_of (kern s2) (TimerItem u) = val_of (kern s) (TimerItem u)" for u by (simp add: s2(6) s1_def)
  have in2: "timers_in ?l s2 = timers_in ?l s - {t}" by (auto simp: timers_in_def c2)
  have up2: "ticks_up ?l s = ticks_up ?l s2 + (2 ^ 32 - unat v)"
    unfolding v_def by (rule ticks_up_off [OF ok D(4) t(2) in2 v2])
  have re2: "reloading ?l s2 = reloading ?l s - {t}" by (auto simp: reloading_def in2 T(1))
  have fin: "finite (reloading ?l s)" using timers_in_finite [OF ok D(4)] by (simp add: reloading_def)
  have vlt: "unat v < 2 ^ 32" by (rule unat_u32)
  have eq: "expire_all callback m s = do {
      s \<leftarrow> (if uxAutoReload (timers s t) = pdTRUE then
             (if v + period t s > v then Some (with_lists s2 (l_insert ?l (TimerItem t) (l_set_value (TimerItem t) (v + period t s) (ls (kern s2)))))
              else reload_later m t v s2)
           else Some s2);
      expire_all callback m s }"
    using hd s2(1) by (subst expire_all.simps) (simp add: t(1) rm T v_def [symmetric] s1_def with_lists_def Let_def)
  show ?thesis
  proof (cases "uxAutoReload (timers s t) = pdTRUE")
    case auto: True
    then have tr: "t \<in> reloading ?l s" using t(2) by (simp add: reloading_def)
    then have n: "?n = Suc (card (reloading ?l s2))" unfolding re2 by (rule card.remove [OF fin])
    show ?thesis
    proof (cases "v + period t s > v")
      case True
      let ?S1 = "l_set_value (TimerItem t) (v + period t s) (ls (kern s2))"
      define s3 where "s3 = with_lists s2 (l_insert ?l (TimerItem t) ?S1)"
      have f2: "cont_of (kern s2) (TimerItem t) = None" by (simp add: c2)
      have ok3: "timers_ok Ls s3"
        using timer_on [OF timer_value [OF s2(2) f2, of "v + period t s"], of t ?l] f2 D(4,6) T by (simp add: s3_def)
      have in3: "timers_in ?l s3 = timers_in ?l s" using ct by (auto simp: timers_in_def s3_def c2 split: if_splits)
      have "ticks_up ?l s3 = ticks_up ?l s2 + (2 ^ 32 - unat (val_of (kern s3) (TimerItem t)))"
        by (rule ticks_up_off [OF ok3 D(4)]) (use t(2) in3 in2 in \<open>simp_all add: s3_def\<close>)
      then have "ticks_up ?l s3 = ticks_up ?l s2 + (2 ^ 32 - unat (v + period t s))" by (simp add: s3_def)
      moreover have "unat v < unat (v + period t s)" using True by (simp add: word_less_nat_alt)
      ultimately have "ticks_up ?l s3 < ticks_up ?l s" using up2 vlt unat_u32 [of "v + period t s"] by linarith
      moreover have re3: "reloading ?l s3 = reloading ?l s" by (simp add: reloading_def in3) (simp add: s3_def T)
      moreover have "command_room ?n m xs s3"
        by (rule room_same [OF s2(3)]) (use D(4) in \<open>auto simp: s3_def\<close>)
      moreover have "expire_all callback m s = expire_all callback m s3" using eq auto True by (simp add: s3_def)
      moreover have "same_timers s s3" using st by (simp add: same_timers_def s3_def)
      moreover have "cont_of (kern s3) (TimerItem u) = (if u = t then Some ?l else cont_of (kern s) (TimerItem u))" for u
        by (simp add: s3_def c2)
      moreover have "u \<noteq> t \<Longrightarrow> val_of (kern s3) (TimerItem u) = val_of (kern s) (TimerItem u)" for u
        using v2 by (simp add: s3_def)
      moreover have "\<forall>x b. leaves_message x m callback \<and> message_at x m b s \<longrightarrow> message_at x m b s3"
        using msg by (simp add: s3_def)
      ultimately show ?thesis using t ok3 by (intro exI [of _ t] exI [of _ s3] exI [of _ "[]"]) simp
    next
      case False
      have tn: "t \<noteq> NULL" using nn t(2) by auto
      obtain s3 where s3: "reload_later m t v s2 = Some s3"
        "command_room (card (reloading ?l s2)) m (xs @ [command_bytes tmrCOMMAND_START_DONT_TRACE v t]) s3"
        "kern s3 = kern s2" "same_timers s2 s3" "\<forall>x b. message_at x m b s2 \<longrightarrow> message_at x m b s3"
        using reload_later_spec [OF s2(3) [unfolded n] tn] by blast
      have T3: "timers s3 = timers s" "pxCurrentTimerList s3 = ?l" using s3(4) T by (simp_all add: same_timers_def)
      have "timers_ok Ls s3" using s2(2) s3(3,4) by (simp add: timers_ok_def same_timers_def)
      moreover have "ticks_up ?l s3 = ticks_up ?l s2" "reloading ?l s3 = reloading ?l s2"
        by (simp_all add: ticks_up_def reloading_def timers_in_def s3(3) T T3)
      moreover have "expire_all callback m s = expire_all callback m s3" using eq auto False s3(1) by simp
      moreover have "same_timers s s3" using st s3(4) by (simp add: same_timers_def)
      ultimately show ?thesis using t s3(2,3,5) c2 v2 n up2 vlt msg
        by (intro exI [of _ t] exI [of _ s3] exI [of _ "[command_bytes tmrCOMMAND_START_DONT_TRACE v t]"]) simp
    qed
  next
    case False
    then have "reloading ?l s2 = reloading ?l s" unfolding re2 by (auto simp: reloading_def)
    moreover have "expire_all callback m s = expire_all callback m s2" using eq False by simp
    ultimately show ?thesis using t s2(2,3) st c2 v2 up2 vlt msg
      by (intro exI [of _ t] exI [of _ s2] exI [of _ "[]"]) simp
  qed
qed

theorem expire_all_ends:
  assumes "timers_ok Ls s" and "leaves_timers Ls m callback"
    and "command_room (card (reloading (pxCurrentTimerList s) s)) m xs s"
    and "NULL \<notin> timers_in (pxCurrentTimerList s) s"
  shows "\<exists>s' ms. expire_all callback m s = Some s' \<and> timers_ok Ls s' \<and> same_timers s s' \<and>
     timers_in (pxCurrentTimerList s) s' = {} \<and> items (kern s') (pxCurrentTimerList s) = [] \<and>
     (\<forall>t. cont_of (kern s') (TimerItem t) = (if t \<in> timers_in (pxCurrentTimerList s) s then None else cont_of (kern s) (TimerItem t))) \<and>
     (\<forall>t. t \<notin> timers_in (pxCurrentTimerList s) s \<longrightarrow> val_of (kern s') (TimerItem t) = val_of (kern s) (TimerItem t)) \<and>
     (\<forall>x b. leaves_message x m callback \<and> message_at x m b s \<longrightarrow> message_at x m b s') \<and>
     length ms = card (reloading (pxCurrentTimerList s) s) \<and> command_room 0 m (xs @ ms) s'"
  using assms
proof (induction "ticks_up (pxCurrentTimerList s) s" arbitrary: s xs rule: less_induct)
  case less
  let ?l = "pxCurrentTimerList s"
  note D = timers_okD [OF less.prems(1)]
  show ?case
  proof (cases "l_head ?l (ls (kern s))")
    case None
    then have e: "items (kern s) ?l = []" by (cases "items (kern s) ?l") (simp_all add: hd_opt_def)
    then have "timers_in ?l s = {}" using timers_in_items [OF less.prems(1) D(4)] by simp
    moreover have "expire_all callback m s = Some s" using None by (subst expire_all.simps) simp
    ultimately show ?thesis using less.prems(1,3) e
      by (intro exI [of _ s] exI [of _ "[]"]) (simp add: same_timers_def reloading_def)
  next
    case (Some i)
    from expire_step [OF less.prems Some] obtain t s1 ms where s1: "t \<in> timers_in ?l s"
      "expire_all callback m s = expire_all callback m s1" "timers_ok Ls s1" "same_timers s s1"
      "\<And>u. u \<noteq> t \<Longrightarrow> cont_of (kern s1) (TimerItem u) = cont_of (kern s) (TimerItem u)"
      "\<And>u. u \<noteq> t \<Longrightarrow> val_of (kern s1) (TimerItem u) = val_of (kern s) (TimerItem u)"
      "\<forall>x b. leaves_message x m callback \<and> message_at x m b s \<longrightarrow> message_at x m b s1"
      "cont_of (kern s1) (TimerItem t) \<in> {None, Some ?l}" "ticks_up ?l s1 < ticks_up ?l s"
      "card (reloading ?l s) = card (reloading ?l s1) + length ms" "command_room (card (reloading ?l s1)) m (xs @ ms) s1"
      by blast
    have l1: "pxCurrentTimerList s1 = ?l" using s1(4) by (simp add: same_timers_def)
    have sub: "timers_in ?l s1 \<subseteq> timers_in ?l s"
    proof
      fix u assume "u \<in> timers_in ?l s1"
      then show "u \<in> timers_in ?l s" using s1(1,5) by (cases "u = t") (simp_all add: timers_in_def)
    qed
    obtain s' ms' where R: "expire_all callback m s1 = Some s'" "timers_ok Ls s'" "same_timers s1 s'" "timers_in ?l s' = {}"
      "items (kern s') ?l = []"
      "\<forall>t. cont_of (kern s') (TimerItem t) = (if t \<in> timers_in ?l s1 then None else cont_of (kern s1) (TimerItem t))"
      "\<forall>t. t \<notin> timers_in ?l s1 \<longrightarrow> val_of (kern s') (TimerItem t) = val_of (kern s1) (TimerItem t)"
      "\<forall>x b. leaves_message x m callback \<and> message_at x m b s1 \<longrightarrow> message_at x m b s'"
      "length ms' = card (reloading ?l s1)" "command_room 0 m ((xs @ ms) @ ms') s'"
      using less.hyps [of s1 "xs @ ms", unfolded l1, OF s1(9,3) less.prems(2) s1(11)] sub less.prems(4) by blast
    have "cont_of (kern s') (TimerItem u) = (if u \<in> timers_in ?l s then None else cont_of (kern s) (TimerItem u))" for u
    proof (cases "u = t")
      case True
      then show ?thesis using R(6) s1(1,8) by (auto simp: timers_in_def)
    next
      case False
      then have "u \<in> timers_in ?l s1 \<longleftrightarrow> u \<in> timers_in ?l s" using s1(5) by (simp add: timers_in_def)
      then show ?thesis using R(6) s1(5) [OF False] by simp
    qed
    moreover have "val_of (kern s') (TimerItem u) = val_of (kern s) (TimerItem u)" if "u \<notin> timers_in ?l s" for u
    proof -
      have "u \<noteq> t" "u \<notin> timers_in ?l s1" using that s1(1) sub by auto
      then show ?thesis using R(7) s1(6) by simp
    qed
    moreover have "same_timers s s'" using s1(4) R(3) by (simp add: same_timers_def)
    ultimately show ?thesis using R s1(2,7,10) by (intro exI [of _ s'] exI [of _ "ms @ ms'"]) simp
  qed
qed

text \<open>So the switch of the lists returns: the timers that were due in the old epoch have been served, the ones
  that wait for the new one are current, and no timer waits for the next wrap-around.\<close>

theorem switch_lists_ends:
  assumes ok: "timers_ok Ls s" and "leaves_timers Ls m callback"
    and "command_room (card (reloading (pxCurrentTimerList s) s)) m xs s"
    and "NULL \<notin> timers_in (pxCurrentTimerList s) s"
  shows "\<exists>s' ms. prvSwitchTimerLists callback m s = Some s' \<and> timers_ok Ls (s'\<lparr>xLastTime := n\<rparr>) \<and> timers s' = timers s \<and>
     pxCurrentTimerList s' = pxOverflowTimerList s \<and> pxOverflowTimerList s' = pxCurrentTimerList s \<and>
     timers_in (pxCurrentTimerList s') s' = timers_in (pxOverflowTimerList s) s \<and> timers_in (pxOverflowTimerList s') s' = {} \<and>
     (\<forall>t. cont_of (kern s') (TimerItem t) = (if t \<in> timers_in (pxCurrentTimerList s) s then None else cont_of (kern s) (TimerItem t))) \<and>
     (\<forall>t. t \<notin> timers_in (pxCurrentTimerList s) s \<longrightarrow> val_of (kern s') (TimerItem t) = val_of (kern s) (TimerItem t)) \<and>
     (\<forall>x b. leaves_message x m callback \<and> message_at x m b s \<longrightarrow> message_at x m b s') \<and>
     length ms = card (reloading (pxCurrentTimerList s) s) \<and> command_room 0 m (xs @ ms) s'"
proof -
  let ?l = "pxCurrentTimerList s"
  obtain s' ms where s': "expire_all callback m s = Some s'" "timers_ok Ls s'" "same_timers s s'" "timers_in ?l s' = {}"
    "\<forall>t. cont_of (kern s') (TimerItem t) = (if t \<in> timers_in ?l s then None else cont_of (kern s) (TimerItem t))"
    "\<forall>t. t \<notin> timers_in ?l s \<longrightarrow> val_of (kern s') (TimerItem t) = val_of (kern s) (TimerItem t)"
    "\<forall>x b. leaves_message x m callback \<and> message_at x m b s \<longrightarrow> message_at x m b s'"
    "length ms = card (reloading ?l s)" "command_room 0 m (xs @ ms) s'"
    using expire_all_ends [OF assms] by blast
  let ?s = "s'\<lparr>pxCurrentTimerList := pxOverflowTimerList s', pxOverflowTimerList := pxCurrentTimerList s'\<rparr>"
  have l: "pxCurrentTimerList s' = ?l" "pxOverflowTimerList s' = pxOverflowTimerList s" "timers s' = timers s"
    using s'(3) by (simp_all add: same_timers_def)
  note D = timers_okD [OF ok] and D' = timers_okD [OF s'(2)]
  have none: "cont_of (kern s') i \<noteq> Some ?l" for i
  proof
    assume i: "cont_of (kern s') i = Some ?l"
    then have "i = TimerItem (owner i)" using timer_item [OF D'(1)] D(4) by blast
    with i s'(4) show False unfolding timers_in_def by (metis (mono_tags) empty_iff mem_Collect_eq)
  qed
  have "timers_ok Ls (?s\<lparr>xLastTime := n\<rparr>)"
    using s'(2) none l by (auto simp: timers_ok_def insert_commute)
  moreover have "timers_in (pxOverflowTimerList s) ?s = timers_in (pxOverflowTimerList s) s"
    using s'(5) D(6) by (auto simp: timers_in_def)
  moreover have "command_room 0 m (xs @ ms) ?s" by (rule room_same [OF s'(9)]) simp_all
  moreover have "message_at x m b ?s = message_at x m b s'" for x b by (simp add: message_at_def)
  ultimately show ?thesis using s'(1,4,5,6,7,8) l
    by (intro exI [of _ ?s] exI [of _ ms]) (simp add: prvSwitchTimerLists_def timers_in_def)
qed

subsection \<open>Commands\<close>

text \<open>A command comes out of memory as it went in.\<close>

lemma bytes_split: "n = a + b \<Longrightarrow> unat a + unat b < 2 ^ 32 \<Longrightarrow> bytes p n m = bytes p a m @ bytes (p + a) b m"
proof -
  assume n: "n = a + b" and lt: "unat a + unat b < 2 ^ 32"
  then have "unat n = unat a + unat b" by (simp add: unat_add_small)
  moreover have "[0..<unat a + unat b] = [0..<unat a] @ map (\<lambda>i. i + unat a) [0..<unat b]"
    by (simp add: map_add_upt upt_add_eq_append [of 0] add.commute)
  ultimately show ?thesis by (simp add: bytes_def ac_simps)
qed

lemma message_of_bytes:
  assumes "bytes x 12 (mem s) = command_bytes i v t"
  shows "message_id x s = i" and "message_value x s = v" and "message_timer x s = t"
proof -
  have "bytes x 12 (mem s) = bytes x 4 (mem s) @ bytes (x + 4) 8 (mem s)" by (rule bytes_split) simp_all
  also have "bytes (x + 4) 8 (mem s) = bytes (x + 4) 4 (mem s) @ bytes (x + 4 + 4) 4 (mem s)" by (rule bytes_split) simp_all
  finally have "bytes x 4 (mem s) @ bytes (x + 4) 4 (mem s) @ bytes (x + 8) 4 (mem s) = command_bytes i v t"
    using assms by (simp add: add.assoc)
  then have "bytes x 4 (mem s) = word_bytes i" "bytes (x + 4) 4 (mem s) = word_bytes v" "bytes (x + 8) 4 (mem s) = word_bytes t"
    by (simp_all add: command_bytes_def append_eq_append_conv)
  then show "message_id x s = i" "message_value x s = v" "message_timer x s = t"
    using bytes_word_bytes [of _ "[]"] by (simp_all add: message_id_def message_value_def message_timer_def)
qed

text \<open>The timer task receives the commands in the order in which they were sent.\<close>

definition command_queue :: "ptr \<Rightarrow> u8 list list \<Rightarrow> sys \<Rightarrow> bool" where
  "command_queue x xs s \<longleftrightarrow> (let q = xTimerQueue s in
     q \<noteq> NULL \<and> x \<noteq> NULL \<and> holds q s xs \<and> uxItemSize (queues s q) = 12 \<and> outside x 12 (queues s q) \<and>
     items (kern s) (WaitSendL q) = [])"

lemma copy_from_same_timers: "same_timers s (prvCopyDataFromQueue q p s)"
  by (simp add: prvCopyDataFromQueue_def same_timers_def upd_queue_def Let_def)

theorem receive_command:
  assumes c: "command_queue x (command_bytes i v t # xs) s"
  shows "\<exists>s'. prvProcessReceivedCommands callback x m s =
       do { s \<leftarrow> process_command callback x m s'; prvProcessReceivedCommands callback x m s } \<and>
     message_id x s' = i \<and> message_value x s' = v \<and> message_timer x s' = t \<and>
     command_queue x xs s' \<and> kern s' = kern s \<and> same_timers s s'"
proof -
  let ?q = "xTimerQueue s"
  have q: "?q \<noteq> NULL" "x \<noteq> NULL" "holds ?q s (command_bytes i v t # xs)" "uxItemSize (queues s ?q) = 12" "outside x 12 (queues s ?q)"
    "items (kern s) (WaitSendL ?q) = []"
    using c by (auto simp: command_queue_def Let_def)
  define s' where "s' = upd_queue ?q (uxMessagesWaiting_update (\<lambda>_. uxMessagesWaiting (queues s ?q) - 1)) (prvCopyDataFromQueue ?q x s)"
  have o: "outside x (uxItemSize (queues s ?q)) (queues s ?q)" using q(4,5) by simp
  note C = copy_from [OF q(3) o]
  have st: "same_timers s s'" using copy_from_same_timers [of s ?q x] by (simp add: s'_def same_timers_def upd_queue_def)
  have k: "kern s' = kern s" by (simp add: s'_def)
  have "0 < uxMessagesWaiting (queues s ?q)" using messages_pos [OF q(3)] by simp
  then have "xQueueReceive ?q x 0 s = Some (Return True, s')"
    using q(1,2,6) C(4,5) by (simp add: xQueueReceive_def receive_asserts_def receive_pass_def receive_try_def receive_now_def
      s'_def same_queue_def Let_def)
  then have "prvProcessReceivedCommands callback x m s =
       do { s \<leftarrow> process_command callback x m s'; prvProcessReceivedCommands callback x m s }"
    by (subst prvProcessReceivedCommands.simps) simp
  moreover have "bytes x 12 (mem s') = command_bytes i v t"
    using C(1,4) q(4) by (simp add: s'_def same_queue_def)
  then have "message_id x s' = i \<and> message_value x s' = v \<and> message_timer x s' = t" using message_of_bytes by blast
  moreover have "command_queue x xs s'"
    using q C(2,4) st k by (auto simp: command_queue_def same_timers_def same_queue_def outside_def s'_def Let_def)
  ultimately show ?thesis using k st by blast
qed

lemma no_command:
  assumes "command_queue x [] s" shows "prvProcessReceivedCommands callback x m s = Some s"
proof -
  have h: "holds (xTimerQueue s) s []" "xTimerQueue s \<noteq> NULL" "x \<noteq> NULL" using assms by (auto simp: command_queue_def Let_def)
  have "\<not> 0 < uxMessagesWaiting (queues s (xTimerQueue s))" using messages_pos [OF h(1)] by simp
  then have "xQueueReceive (xTimerQueue s) x 0 s = Some (Return False, s)"
    using h(2,3) by (simp add: xQueueReceive_def receive_asserts_def receive_pass_def receive_try_def)
  then show ?thesis by (subst prvProcessReceivedCommands.simps) simp
qed

subsection \<open>Commands to start a timer\<close>

text \<open>
  Taking a command, the timer task looks at the tick.  If it has wrapped around since the last look, the timers
  of the old epoch have expired: all that are left in the current list, apart from the timer \<open>t\<close> of the command,
  which has been taken off its list before.  They are served, and the two lists are switched.
\<close>

definition old_epoch :: "ptr \<Rightarrow> sys \<Rightarrow> ptr set" where
  "old_epoch t s = (if xTickCount (kern s) < xLastTime s then timers_in (pxCurrentTimerList s) s - {t} else {})"

definition epoch_lists :: "sys \<Rightarrow> list_id \<times> list_id" where
  "epoch_lists s = (if xTickCount (kern s) < xLastTime s then (pxOverflowTimerList s, pxCurrentTimerList s)
     else (pxCurrentTimerList s, pxOverflowTimerList s))"

text \<open>The commands that restart the auto-reload timers among them.\<close>

definition restarts :: "ptr \<Rightarrow> sys \<Rightarrow> nat" where
  "restarts t s = card {u \<in> old_epoch t s. uxAutoReload (timers s u) = pdTRUE}"

text \<open>What serving them needs: callbacks that leave the timers and the message alone, and room for the commands.\<close>

definition can_switch :: "list_id set \<Rightarrow> ptr \<Rightarrow> ptr \<Rightarrow> u8 list list \<Rightarrow> timer_callback \<Rightarrow> sys \<Rightarrow> bool" where
  "can_switch Ls x m xs callback s \<longleftrightarrow> leaves_timers Ls m callback \<and> leaves_message x m callback \<and>
     message_at x m (bytes x 12 (mem s)) s \<and> command_room (restarts (message_timer x s) s) m xs s \<and>
     NULL \<notin> old_epoch (message_timer x s) s"

lemma message_same:
  assumes "bytes x 12 (mem s') = bytes x 12 (mem s)"
  shows "message_id x s' = message_id x s" and "message_value x s' = message_value x s" and "message_timer x s' = message_timer x s"
proof -
  have split: "bytes x 12 m = bytes x 4 m @ bytes (x + 4) 4 m @ bytes (x + 8) 4 m" for m
  proof -
    have "bytes x 12 m = bytes x 4 m @ bytes (x + 4) 8 m" by (rule bytes_split) simp_all
    also have "bytes (x + 4) 8 m = bytes (x + 4) 4 m @ bytes (x + 4 + 4) 4 m" by (rule bytes_split) simp_all
    finally show ?thesis by (simp add: add.assoc)
  qed
  have "bytes x 4 (mem s') = bytes x 4 (mem s)" "bytes (x + 4) 4 (mem s') = bytes (x + 4) 4 (mem s)"
    "bytes (x + 8) 4 (mem s') = bytes (x + 8) 4 (mem s)"
    using assms unfolding split by (simp_all add: append_eq_append_conv)
  then show "message_id x s' = message_id x s" "message_value x s' = message_value x s" "message_timer x s' = message_timer x s"
    by (simp_all add: message_id_def message_value_def message_timer_def)
qed

lemma command_sample:
  assumes ok: "timers_ok Ls s" and off: "cont_of (kern s) (TimerItem t) = None"
    and w: "xTickCount (kern s) < xLastTime s \<Longrightarrow> leaves_timers Ls m callback \<and> leaves_message x m callback \<and>
      message_at x m (bytes x 12 (mem s)) s \<and> command_room (restarts t s) m xs s \<and> NULL \<notin> old_epoch t s"
  shows "\<exists>s' ms. prvSampleTimeNow callback m s = Some (xTickCount (kern s), xTickCount (kern s) < xLastTime s, s') \<and>
     timers_ok Ls s' \<and> timers s' = timers s \<and> xLastTime s' = xTickCount (kern s) \<and>
     (pxCurrentTimerList s', pxOverflowTimerList s') = epoch_lists s \<and>
     (\<forall>u. cont_of (kern s') (TimerItem u) = (if u \<in> old_epoch t s then None else cont_of (kern s) (TimerItem u))) \<and>
     (\<forall>u. u \<notin> old_epoch t s \<longrightarrow> val_of (kern s') (TimerItem u) = val_of (kern s) (TimerItem u)) \<and>
     bytes x 12 (mem s') = bytes x 12 (mem s) \<and>
     length ms = restarts t s \<and> (xTickCount (kern s) < xLastTime s \<longrightarrow> command_room 0 m (xs @ ms) s')"
proof (cases "xTickCount (kern s) < xLastTime s")
  case False
  then have n: "xLastTime s \<le> xTickCount (kern s)" by (simp add: not_less)
  show ?thesis using False sample_time [OF ok n]
    by (intro exI [of _ "s\<lparr>xLastTime := xTickCount (kern s)\<rparr>"] exI [of _ "[]"])
      (simp add: epoch_lists_def old_epoch_def restarts_def)
next
  case True
  have old: "old_epoch t s = timers_in (pxCurrentTimerList s) s" using True off by (auto simp: old_epoch_def timers_in_def)
  then have r: "restarts t s = card (reloading (pxCurrentTimerList s) s)" by (simp add: restarts_def reloading_def)
  have W: "leaves_timers Ls m callback" "leaves_message x m callback" "message_at x m (bytes x 12 (mem s)) s"
    "command_room (card (reloading (pxCurrentTimerList s) s)) m xs s" "NULL \<notin> timers_in (pxCurrentTimerList s) s"
    using w [OF True] by (simp_all add: r old)
  obtain s1 ms where s1: "prvSwitchTimerLists callback m s = Some s1"
    "timers_ok Ls (s1\<lparr>xLastTime := xTickCount (kern s)\<rparr>)" "timers s1 = timers s"
    "pxCurrentTimerList s1 = pxOverflowTimerList s" "pxOverflowTimerList s1 = pxCurrentTimerList s"
    "\<forall>t. cont_of (kern s1) (TimerItem t) = (if t \<in> timers_in (pxCurrentTimerList s) s then None else cont_of (kern s) (TimerItem t))"
    "\<forall>t. t \<notin> timers_in (pxCurrentTimerList s) s \<longrightarrow> val_of (kern s1) (TimerItem t) = val_of (kern s) (TimerItem t)"
    "\<forall>x b. leaves_message x m callback \<and> message_at x m b s \<longrightarrow> message_at x m b s1"
    "length ms = card (reloading (pxCurrentTimerList s) s)" "command_room 0 m (xs @ ms) s1"
    using switch_lists_ends [OF ok W(1,4,5), of "xTickCount (kern s)"] by blast
  have b: "bytes x 12 (mem s1) = bytes x 12 (mem s)" using s1(8) W(2,3) by (auto simp: message_at_def)
  have "command_room 0 m (xs @ ms) (s1\<lparr>xLastTime := xTickCount (kern s)\<rparr>)" by (rule room_same [OF s1(10)]) simp_all
  then show ?thesis using True s1 b
    by (intro exI [of _ "s1\<lparr>xLastTime := xTickCount (kern s)\<rparr>"] exI [of _ ms])
      (simp add: prvSampleTimeNow_def xTaskGetTickCount_def epoch_lists_def old r Let_def)
qed

theorem start_command:
  assumes ok: "timers_ok Ls s" and id: "message_id x s \<in> start_commands"
    and w: "xTickCount (kern s) < xLastTime s \<Longrightarrow> can_switch Ls x m xs callback s"
  defines "t \<equiv> message_timer x s" and "c \<equiv> message_value x s" and "n \<equiv> xTickCount (kern s)"
  shows "\<exists>s' ms. timers_ok Ls s' \<and> timers s' = timers s \<and> (pxCurrentTimerList s', pxOverflowTimerList s') = epoch_lists s \<and>
     (\<forall>u. cont_of (kern s') (TimerItem u) =
        (if u = t then if overdue (period t s) c n then None else Some ((if c + period t s \<le> n then snd else fst) (epoch_lists s))
         else if u \<in> old_epoch t s then None else cont_of (kern s) (TimerItem u))) \<and>
     val_of (kern s') (TimerItem t) = c + period t s \<and>
     (\<forall>u. u \<noteq> t \<and> u \<notin> old_epoch t s \<longrightarrow> val_of (kern s') (TimerItem u) = val_of (kern s) (TimerItem u)) \<and>
     length ms = restarts t s \<and> (n < xLastTime s \<longrightarrow> command_room 0 m (xs @ ms) s') \<and>
     process_command callback x m s =
       (if overdue (period t s) c n then
          do {
            s \<leftarrow> callback (pxCallbackFunction (timers s t)) t s';
            (if uxAutoReload (timers s t) = pdTRUE then reload_later m t (message_value x s + period t s) s else Some s)
          }
        else Some s')"
proof -
  define s0 where "s0 = with_lists s (drop_item (TimerItem t) (ls (kern s)))"
  have ok0: "timers_ok Ls s0" unfolding s0_def by (rule timer_off [OF ok])
  have off0: "cont_of (kern s0) (TimerItem t) = None" by (simp add: s0_def)
  have n0: "xTickCount (kern s0) = n" "xLastTime s0 = xLastTime s" "timers s0 = timers s" "mem s0 = mem s" "epoch_lists s0 = epoch_lists s"
    by (simp_all add: s0_def n_def epoch_lists_def)
  have old0: "old_epoch t s0 = old_epoch t s" by (auto simp: old_epoch_def timers_in_def s0_def)
  have re0: "restarts t s0 = restarts t s" by (simp add: restarts_def old0 n0(3))
  have w0: "leaves_timers Ls m callback \<and> leaves_message x m callback \<and> message_at x m (bytes x 12 (mem s0)) s0 \<and>
      command_room (restarts t s0) m xs s0 \<and> NULL \<notin> old_epoch t s0" if "xTickCount (kern s0) < xLastTime s0"
  proof -
    have C: "can_switch Ls x m xs callback s" using w that by (simp add: n0 n_def)
    have "command_room (restarts t s) m xs s0"
    proof (rule room_same)
      show "command_room (restarts t s) m xs s" using C by (simp add: can_switch_def t_def)
      have "cont_of (kern s) (TimerItem t) \<noteq> Some (WaitReceiveL q)" for q
        using kinvD(7) [OF timers_okD(1) [OF ok], of "TimerItem t" "WaitReceiveL q"] by auto
      then show "items (kern s0) (WaitReceiveL (xTimerQueue s)) = items (kern s) (WaitReceiveL (xTimerQueue s))"
        by (auto simp: s0_def drop_item_def split: option.splits)
    qed (simp_all add: s0_def)
    with C show ?thesis unfolding re0 old0 by (simp add: can_switch_def t_def s0_def)
  qed
  obtain s1 ms where s1: "prvSampleTimeNow callback m s0 = Some (n, n < xLastTime s, s1)"
    "timers_ok Ls s1" "timers s1 = timers s" "xLastTime s1 = n"
    "(pxCurrentTimerList s1, pxOverflowTimerList s1) = epoch_lists s"
    "\<forall>u. cont_of (kern s1) (TimerItem u) = (if u \<in> old_epoch t s then None else cont_of (kern s0) (TimerItem u))"
    "\<forall>u. u \<notin> old_epoch t s \<longrightarrow> val_of (kern s1) (TimerItem u) = val_of (kern s0) (TimerItem u)"
    "bytes x 12 (mem s1) = bytes x 12 (mem s)"
    "length ms = restarts t s" "n < xLastTime s \<longrightarrow> command_room 0 m (xs @ ms) s1"
    using command_sample [OF ok0 off0, of m callback x xs] w0 unfolding n0 old0 re0 by blast
  have f: "cont_of (kern s1) (TimerItem t) = None" using s1(6) off0 by simp
  have p: "period t s1 = period t s" "message_value x s1 = c" "message_id x s1 = message_id x s"
    using s1(3) message_same [OF s1(8)] by (simp_all add: c_def)
  have el: "expiry_list v n s1 = (if v \<le> n then snd else fst) (epoch_lists s)" for v
    using s1(5) by (cases "epoch_lists s") (simp add: expiry_list_def)
  obtain S where S: "prvInsertTimerInActiveList t (c + period t s) n c s1 = (overdue (period t s) c n, with_lists s1 S)"
    "timers_ok Ls (with_lists s1 S)" "ival S = (val_of (kern s1))(TimerItem t := c + period t s)"
    "cont S = (if overdue (period t s) c n then cont_of (kern s1)
       else (cont_of (kern s1))(TimerItem t := Some (expiry_list (c + period t s) n s1)))"
    "\<forall>l. \<not> timer_list l \<longrightarrow> l_elems l S = items (kern s1) l"
    using insert_timer_spec [OF s1(2) f s1(4) [symmetric], of c, unfolded p] by blast
  have "process_command callback x m s = start_timer callback x m t n s1"
    using s1(1) [unfolded s0_def] id start_commands_nonneg [OF id] p(3)
    unfolding process_command_def t_def [symmetric] take_off
    by (simp add: start_commands_def Let_def)
  also have "\<dots> = (if overdue (period t s) c n then
          do {
            s \<leftarrow> callback (pxCallbackFunction (timers s t)) t (with_lists s1 S);
            (if uxAutoReload (timers s t) = pdTRUE then reload_later m t (message_value x s + period t s) s else Some s)
          }
        else Some (with_lists s1 S))"
    unfolding start_timer_def p S(1) Let_def by (simp add: s1(3))
  finally have eq: "process_command callback x m s = \<dots>" .
  have "n < xLastTime s \<longrightarrow> command_room 0 m (xs @ ms) (with_lists s1 S)"
    using s1(10) S(5) by (auto elim!: room_same)
  then show ?thesis using eq S(2-4) s1(3,5,6,7,9) el
    by (intro exI [of _ "with_lists s1 S"] exI [of _ ms]) (auto simp: s0_def)
qed

subsection \<open>Waiting for the next expiry\<close>

lemma next_expiry:
  assumes "l_head (pxCurrentTimerList s) (ls (kern s)) = Some i"
  shows "prvGetNextExpireTime s = (val_of (kern s) i, False)"
  using assms by (simp add: prvGetNextExpireTime_def)

lemma sample_suspended:
  assumes "xLastTime s \<le> xTickCount (kern s)"
  shows "prvSampleTimeNow callback m (s\<lparr>kern := vTaskSuspendAll (kern s)\<rparr>) =
     Some (xTickCount (kern s), False, s\<lparr>kern := vTaskSuspendAll (kern s), xLastTime := xTickCount (kern s)\<rparr>)"
  using assms by (simp add: prvSampleTimeNow_def xTaskGetTickCount_def vTaskSuspendAll_def Let_def not_less [symmetric])

text \<open>When the least expiry time has been reached, the timer is served.\<close>

theorem wait_expires:
  assumes hd: "l_head (pxCurrentTimerList s) (ls (kern s)) = Some i" and n: "xLastTime s \<le> xTickCount (kern s)"
    and q: "quiet (kern s)" and due: "val_of (kern s) i \<le> xTickCount (kern s)"
  shows "prvTimerTask_wait callback m s =
     Some (TimerExpired (val_of (kern s) i) (xTickCount (kern s)), s\<lparr>xLastTime := xTickCount (kern s)\<rparr>)"
proof -
  show ?thesis
    using due resume_quiet_same [OF q] by (simp add: prvTimerTask_wait_def next_expiry [OF hd] prvProcessTimerOrBlockTask_def sample_suspended [OF n] on_kern_r_def)
qed

text \<open>Otherwise the timer task blocks, on the queue of the commands, until exactly that time.\<close>

theorem wait_sleeps:
  assumes u: "usable Ls q s" and q: "q = xTimerQueue s" and hd: "l_head (pxCurrentTimerList s) (ls (kern s)) = Some i"
    and n: "xLastTime s \<le> xTickCount (kern s)" and cb: "can_block (kern s)" and st: "settled (kern s)" and ul: "unlocked q s"
    and e: "uxMessagesWaiting (queues s q) = 0" and later: "xTickCount (kern s) < val_of (kern s) i"
  defines "c \<equiv> pxCurrentTCB (kern s)"
  shows "\<exists>k'. prvTimerTask_wait callback m s = Some (TimerCommands, s\<lparr>kern := k', xLastTime := xTickCount (kern s)\<rparr>) \<and>
     kinv Ls {} k' \<and> delayed k' c \<and> val_of k' (StateItem c) = val_of (kern s) i \<and> cont_of k' (EventItem c) = Some (WaitReceiveL q) \<and>
     (\<forall>t. cont_of k' (TimerItem t) = cont_of (kern s) (TimerItem t) \<and> val_of k' (TimerItem t) = val_of (kern s) (TimerItem t)) \<and>
     xTickCount k' = xTickCount (kern s) \<and> pxCurrentTCB k' \<noteq> c \<and> runs_highest k'"
proof -
  let ?k = "kern s" and ?w = "val_of (kern s) i - xTickCount (kern s)" and ?l = "WaitReceiveL q"
  let ?k1 = "vTaskSuspendAll ?k" and ?S = "l_insert_end ?l (EventItem c) (ls ?k)"
  have w: "?w \<noteq> 0" using later by auto
  have r: "ready_to_block Ls ?k1" by (rule suspended_ready_to_block [OF u cb st])
  have l: "?l \<in> Ls" "event_list ?l" using u by (simp_all add: usable_def)
  have f: "ls ?k1 = ls ?k" "pxCurrentTCB ?k1 = c" "xTickCount ?k1 = xTickCount ?k" by (simp_all add: vTaskSuspendAll_def c_def)
  have "?S = l_insert_end ?l (EventItem (pxCurrentTCB ?k1)) (ls ?k1)" by (simp add: f)
  from place_then_switch [OF r l w disjI1 [OF this], of False] obtain k2 k' where
    k2: "prvAddCurrentTaskToDelayedList ?w False (?k1\<lparr>ls := ?S\<rparr>) = Some k2"
    and k': "do { (y, k) \<leftarrow> xTaskResumeAll k2; (if \<not> y then portYIELD_WITHIN_API k else Some k) } = Some k'"
      "kinv Ls {} k'" "cont_of k' = (cont_of ?k1)(EventItem c := Some ?l, StateItem c := Some (delay_list ?w False ?k1))"
      "val_of k' = (if delay_list ?w False ?k1 = SuspendedL then val_of ?k1
         else (val_of ?k1)(StateItem c := xTickCount ?k1 + ?w))"
      "xTickCount k' = xTickCount ?k1" "pxCurrentTCB k' \<noteq> c" "runs_highest k'"
    unfolding f by blast
  have dl: "delay_list ?w False ?k1 = DelayedL1 \<or> delay_list ?w False ?k1 = DelayedL2"
    using kinvD(5) [OF u [unfolded usable_def, THEN conjunct1]] by (auto simp: delay_list_def delayed_pair_def vTaskSuspendAll_def)
  define s1 where "s1 = s\<lparr>kern := ?k1, xLastTime := xTickCount ?k\<rparr>"
  have ul1: "unlocked q s1" using ul by (simp add: unlocked_def s1_def)
  note L = lock_then [OF ul1]
  have "vTaskPlaceOnEventListRestricted ?l ?w False ?k1 = Some k2"
    using k2 by (simp add: vTaskPlaceOnEventListRestricted_def f)
  then have "vQueueWaitForMessageRestricted q ?w False s1 = Some (s1\<lparr>kern := k2\<rparr>)"
    using unlock_after [OF ul1, of k2] e by (simp add: vQueueWaitForMessageRestricted_def L(1,3) on_kern_def Let_def) (simp add: s1_def)
  then have "prvTimerTask_wait callback m s = do {
      (y, s) \<leftarrow> on_kern_r xTaskResumeAll (s1\<lparr>kern := k2\<rparr>);
      s \<leftarrow> (if \<not> y then on_kern portYIELD_WITHIN_API s else Some s);
      Some (TimerCommands, s) }"
    using later q by (simp add: not_le [symmetric] prvTimerTask_wait_def next_expiry [OF hd] prvProcessTimerOrBlockTask_def sample_suspended [OF n] s1_def)
  also have "\<dots> = Some (TimerCommands, s1\<lparr>kern := k'\<rparr>)"
    using k'(1) by (cases "xTaskResumeAll k2") (auto simp: on_kern_r_def on_kern_def split: if_splits)
  finally have "prvTimerTask_wait callback m s = Some (TimerCommands, s\<lparr>kern := k', xLastTime := xTickCount ?k\<rparr>)"
    by (simp add: s1_def)
  then show ?thesis using k'(2-7) dl f by (intro exI [of _ k']) (auto simp: delayed_def)
qed

end
