(* ===== verification/Port.thy ===== *)
theory Port
  imports Timers
begin

unbundle bit_operations_syntax

section \<open>Interrupts and context switches of the port (FreeRtos/portable/tricore)\<close>

text \<open>
  \<open>ICR\<close> holds the current priority of the processor in its low byte and the global enable bit in bit 15.
  The service requests of the kernel's timer and yield interrupts, the barriers and the acknowledgement of
  the timer are hardware that leaves the kernel's state alone.
\<close>

definition portCCPN_MASK :: u32 where "portCCPN_MASK = 0x000000FF"
definition portRESTORE_PSW_MASK :: u32 where "portRESTORE_PSW_MASK = NOT 0x000000FF"
definition portINITIAL_SYSCON :: u32 where "portINITIAL_SYSCON = 0"
definition configMAX_SYSCALL_INTERRUPT_PRIORITY :: u32 where "configMAX_SYSCALL_INTERRUPT_PRIORITY = 64"
definition ICR_IE :: u32 where "ICR_IE = 0x00008000"

definition disable :: "port \<Rightarrow> port" where
  "disable P = P\<lparr>ICR := ICR P AND NOT ICR_IE\<rparr>"

definition enable :: "port \<Rightarrow> port" where
  "enable P = P\<lparr>ICR := ICR P OR ICR_IE\<rparr>"

subsection \<open>Interrupt masks\<close>

definition portDISABLE_INTERRUPTS :: "port \<Rightarrow> port" where
  "portDISABLE_INTERRUPTS P =
     (let P = disable P;
          ulICR = ICR P AND NOT portCCPN_MASK;
          ulICR = ulICR OR configMAX_SYSCALL_INTERRUPT_PRIORITY
      in enable (P\<lparr>ICR := ulICR\<rparr>))"

definition portENABLE_INTERRUPTS :: "port \<Rightarrow> port" where
  "portENABLE_INTERRUPTS P =
     (let P = disable P;
          ulICR = ICR P AND NOT portCCPN_MASK
      in enable (P\<lparr>ICR := ulICR\<rparr>))"

definition uxPortSetInterruptMaskFromISR :: "port \<Rightarrow> u32 \<times> port" where
  "uxPortSetInterruptMaskFromISR P =
     (let P = disable P;
          uxReturn = ICR P;
          P = P\<lparr>ICR := (uxReturn AND NOT portCCPN_MASK) OR configMAX_SYSCALL_INTERRUPT_PRIORITY\<rparr>
      in (uxReturn AND portCCPN_MASK, enable P))"

definition portCLEAR_INTERRUPT_MASK_FROM_ISR :: "u32 \<Rightarrow> port \<Rightarrow> port" where
  "portCLEAR_INTERRUPT_MASK_FROM_ISR uxSavedMaskValue P =
     (let P = disable P;
          ulICR = ICR P AND NOT portCCPN_MASK;
          ulICR = ulICR OR uxSavedMaskValue
      in enable (P\<lparr>ICR := ulICR\<rparr>))"

subsection \<open>Critical sections (FreeRtos/tasks.c)\<close>

text \<open>\<open>portASSERT_IF_IN_ISR\<close> is empty in this port.\<close>

definition vTaskEnterCritical :: "kernel \<Rightarrow> kernel" where
  "vTaskEnterCritical k =
     (let k = k\<lparr>cpu := portDISABLE_INTERRUPTS (cpu k)\<rparr>
      in if xSchedulerRunning k then upd_tcb (pxCurrentTCB k) (uxCriticalNesting_update (\<lambda>n. n + 1)) k else k)"

definition vTaskExitCritical :: "kernel \<Rightarrow> kernel" where
  "vTaskExitCritical k =
     (if xSchedulerRunning k then
        (if uxCriticalNesting (tcbs k (pxCurrentTCB k)) > 0 then
           (let k = upd_tcb (pxCurrentTCB k) (uxCriticalNesting_update (\<lambda>n. n - 1)) k
            in if uxCriticalNesting (tcbs k (pxCurrentTCB k)) = 0
               then k\<lparr>cpu := portENABLE_INTERRUPTS (cpu k)\<rparr> else k)
         else k)
      else k)"

subsection \<open>Context switches\<close>

text \<open>\<open>pxTopOfStack\<close> is the first word of a TCB, \<open>*pxCurrentTCB\<close>.  The handler's own upper context is in the area
  to which \<open>PCXI\<close> points; its word 0 links to the lower context of the interrupted task, and what is
  in it when the handler returns is the context that is restored.\<close>

definition switch_link :: "kernel \<Rightarrow> kernel option" where
  "switch_link k =
     do {
       let k = k\<lparr>cpu := disable (cpu k)\<rparr>;
       let xUpperCSA = PCXI (cpu k);
       let pxUpperCSA = portCSA_TO_ADDRESS xUpperCSA;
       let k = upd_tcb (pxCurrentTCB k) (pxTopOfStack_update (\<lambda>_. csa_word (cpu k) pxUpperCSA 0)) k;
       k \<leftarrow> vTaskSwitchContext k;
       Some (k\<lparr>cpu := csa_set pxUpperCSA 0 (pxTopOfStack (tcbs k (pxCurrentTCB k))) (cpu k)\<rparr>)
     }"

definition portSYSCALL_TASK_YIELD :: nat where "portSYSCALL_TASK_YIELD = 0"

definition prvTrapYield :: "nat \<Rightarrow> kernel \<Rightarrow> kernel option" where
  "prvTrapYield iTrapIdentification k =
     (if iTrapIdentification = portSYSCALL_TASK_YIELD then switch_link k else None)"

definition prvInterruptYield :: "kernel \<Rightarrow> kernel option" where
  "prvInterruptYield k = switch_link k"

definition prvSystemTickHandler :: "kernel \<Rightarrow> kernel option" where
  "prvSystemTickHandler k =
     do {
       let (ulSavedInterruptMask, P) = uxPortSetInterruptMaskFromISR (cpu k);
       (lYieldRequired, k) \<leftarrow> xTaskIncrementTick (k\<lparr>cpu := P\<rparr>);
       let k = k\<lparr>cpu := portCLEAR_INTERRUPT_MASK_FROM_ISR ulSavedInterruptMask (cpu k)\<rparr>;
       (if lYieldRequired then switch_link k else Some k)
     }"

subsection \<open>Starting and stopping\<close>

text \<open>Up to the load of the first task's context: the instructions that follow, \<open>rslcx\<close> and \<open>rfe\<close>, restore it
  and do not return.  The set-up of the timer and of the service request is hardware.\<close>

definition xPortStartScheduler :: "kernel \<Rightarrow> kernel" where
  "xPortStartScheduler k =
     (let P = disable (cpu k);
          P = P\<lparr>SYSCON := portINITIAL_SYSCON\<rparr>;
          P = P\<lparr>PSW := PSW P AND portRESTORE_PSW_MASK\<rparr>
      in k\<lparr>cpu := P\<lparr>PCXI := pxTopOfStack (tcbs k (pxCurrentTCB k))\<rparr>\<rparr>)"

text \<open>The addresses of the code and of the names of the two tasks are parameters.\<close>

definition vTaskStartScheduler :: "ptr \<Rightarrow> ptr \<Rightarrow> ptr \<Rightarrow> ptr \<Rightarrow> sys \<Rightarrow> sys option" where
  "vTaskStartScheduler idle_code idle_name timer_code timer_name s =
     do {
       (xReturn, s) \<leftarrow> xTaskCreate idle_code idle_name configMINIMAL_STACK_SIZE NULL 0 AtIdleHandle s;
       (xReturn, s) \<leftarrow> (if xReturn = pdPASS then xTimerCreateTimerTask timer_code timer_name s else Some (xReturn, s));
       (if xReturn = pdPASS then
          Some (upd_kern (\<lambda>k. xPortStartScheduler (k\<lparr>cpu := portDISABLE_INTERRUPTS (cpu k),
            xNextTaskUnblockTime := portMAX_DELAY, xSchedulerRunning := True, xTickCount := 0\<rparr>)) s)
        else do { configASSERT (xReturn \<noteq> errCOULD_NOT_ALLOCATE_REQUIRED_MEMORY); Some s })
     }"

text \<open>\<open>vPortEndScheduler\<close> does nothing.\<close>

definition vTaskEndScheduler :: "kernel \<Rightarrow> kernel" where
  "vTaskEndScheduler k = k\<lparr>cpu := portDISABLE_INTERRUPTS (cpu k), xSchedulerRunning := False\<rparr>"

end
