(* ===== verification/PortSpec.thy ===== *)
theory PortSpec
  imports Port
begin

unbundle bit_operations_syntax

section \<open>What the port promises\<close>

subsection \<open>Masks\<close>

text \<open>Interrupts up to the system call priority are masked, or all are open.\<close>

lemma port_bits:
  "bit portCCPN_MASK n \<longleftrightarrow> n < 8" "bit ICR_IE n \<longleftrightarrow> n = 15" "bit configMAX_SYSCALL_INTERRUPT_PRIORITY n \<longleftrightarrow> n = 6"
proof -
  have e: "portCCPN_MASK = mask 8" "ICR_IE = push_bit 15 1" "configMAX_SYSCALL_INTERRUPT_PRIORITY = push_bit 6 1"
    by (simp_all add: portCCPN_MASK_def ICR_IE_def configMAX_SYSCALL_INTERRUPT_PRIORITY_def mask_eq_exp_minus_1 push_bit_eq_mult)
  show "bit portCCPN_MASK n \<longleftrightarrow> n < 8" unfolding e by (auto simp: bit_simps)
  have "n < 32 \<and> k \<le> n \<and> n - k = 0 \<longleftrightarrow> n = k" if "k < 32" for k :: nat using that by auto
  then show "bit ICR_IE n \<longleftrightarrow> n = 15" "bit configMAX_SYSCALL_INTERRUPT_PRIORITY n \<longleftrightarrow> n = 6"
    unfolding e by (auto simp: bit_push_bit_iff bit_1_iff simp del: push_bit_of_1)
qed

definition CCPN :: "port \<Rightarrow> u32" where
  "CCPN P = ICR P AND portCCPN_MASK"

lemma CCPN_fields [simp]:
  "CCPN (portDISABLE_INTERRUPTS P) = configMAX_SYSCALL_INTERRUPT_PRIORITY"
  "CCPN (portENABLE_INTERRUPTS P) = 0"
  by (simp_all add: CCPN_def portDISABLE_INTERRUPTS_def portENABLE_INTERRUPTS_def disable_def enable_def Let_def
      ICR_IE_def portCCPN_MASK_def configMAX_SYSCALL_INTERRUPT_PRIORITY_def bit.conj_disj_distrib2 and.assoc)

text \<open>What an interrupt routine masks, it restores.\<close>

theorem mask_round_trip:
  assumes "uxPortSetInterruptMaskFromISR P = (m, P')"
  shows "m = CCPN P" and "CCPN P' = configMAX_SYSCALL_INTERRUPT_PRIORITY"
    and "portCLEAR_INTERRUPT_MASK_FROM_ISR m P' = P\<lparr>ICR := ICR P OR ICR_IE\<rparr>"
proof -
  have m: "m = (ICR P AND NOT ICR_IE) AND portCCPN_MASK" and
    P': "P' = P\<lparr>ICR := ((ICR P AND NOT ICR_IE) AND NOT portCCPN_MASK OR configMAX_SYSCALL_INTERRUPT_PRIORITY) OR ICR_IE\<rparr>"
    using assms by (auto simp: uxPortSetInterruptMaskFromISR_def disable_def enable_def Let_def)
  show "m = CCPN P" unfolding m CCPN_def by (rule bit_word_eqI) (auto simp: bit_simps port_bits)
  show "CCPN P' = configMAX_SYSCALL_INTERRUPT_PRIORITY"
    unfolding P' CCPN_def by (rule bit_word_eqI) (auto simp: bit_simps port_bits)
  have "((ICR P' AND NOT ICR_IE) AND NOT portCCPN_MASK OR m) OR ICR_IE = ICR P OR ICR_IE"
    unfolding P' m by (rule bit_word_eqI) (auto simp: bit_simps port_bits)
  then show "portCLEAR_INTERRUPT_MASK_FROM_ISR m P' = P\<lparr>ICR := ICR P OR ICR_IE\<rparr>"
    by (simp add: portCLEAR_INTERRUPT_MASK_FROM_ISR_def disable_def enable_def Let_def) (simp add: P')
qed

subsection \<open>Critical sections nest\<close>

text \<open>While the scheduler runs, the interrupts that may use the kernel are masked as long as the running task
  is in a critical section, and only then opened again.\<close>

primrec enter_times :: "nat \<Rightarrow> kernel \<Rightarrow> kernel" where
  "enter_times 0 k = k"
| "enter_times (Suc n) k = vTaskEnterCritical (enter_times n k)"

primrec exit_times :: "nat \<Rightarrow> kernel \<Rightarrow> kernel" where
  "exit_times 0 k = k"
| "exit_times (Suc n) k = vTaskExitCritical (exit_times n k)"

abbreviation nesting :: "kernel \<Rightarrow> u32" where
  "nesting k \<equiv> uxCriticalNesting (tcbs k (pxCurrentTCB k))"

lemma enter_critical:
  "CCPN (cpu (vTaskEnterCritical k)) = configMAX_SYSCALL_INTERRUPT_PRIORITY"
  "xSchedulerRunning (vTaskEnterCritical k) = xSchedulerRunning k" "pxCurrentTCB (vTaskEnterCritical k) = pxCurrentTCB k"
  "nesting (vTaskEnterCritical k) = (if xSchedulerRunning k then nesting k + 1 else nesting k)"
  by (simp_all add: vTaskEnterCritical_def Let_def)

lemma exit_critical:
  "xSchedulerRunning (vTaskExitCritical k) = xSchedulerRunning k" "pxCurrentTCB (vTaskExitCritical k) = pxCurrentTCB k"
  "xSchedulerRunning k \<Longrightarrow> nesting k \<noteq> 0 \<Longrightarrow> nesting (vTaskExitCritical k) = nesting k - 1"
  "xSchedulerRunning k \<Longrightarrow> nesting k \<noteq> 0 \<Longrightarrow>
     CCPN (cpu (vTaskExitCritical k)) = (if nesting k = 1 then 0 else CCPN (cpu k))"
  by (auto simp: vTaskExitCritical_def Let_def word_neq_0_conv)

lemma enter_many:
  assumes "xSchedulerRunning k"
  shows "nesting (enter_times n k) = nesting k + of_nat n" and "xSchedulerRunning (enter_times n k)"
    and "pxCurrentTCB (enter_times n k) = pxCurrentTCB k"
proof -
  have "nesting (enter_times n k) = nesting k + of_nat n \<and> xSchedulerRunning (enter_times n k) \<and>
      pxCurrentTCB (enter_times n k) = pxCurrentTCB k"
  proof (induction n)
    case (Suc n)
    then have c: "pxCurrentTCB (enter_times n k) = pxCurrentTCB k"
      and "uxCriticalNesting (tcbs (enter_times n k) (pxCurrentTCB k)) = nesting k + of_nat n" by auto
    with Suc assms enter_critical(2-4) [of "enter_times n k"] show ?case unfolding c by (simp add: ac_simps)
  qed (simp add: assms)
  then show "nesting (enter_times n k) = nesting k + of_nat n" "xSchedulerRunning (enter_times n k)"
    "pxCurrentTCB (enter_times n k) = pxCurrentTCB k" by blast+
qed

theorem critical_sections_nest:
  assumes r: "xSchedulerRunning k" and z: "nesting k = 0" and n: "n < 2 ^ 32" and j: "j \<le> n" and m: "0 < n"
  shows "nesting (exit_times j (enter_times n k)) = of_nat (n - j) \<and> xSchedulerRunning (exit_times j (enter_times n k)) \<and>
    CCPN (cpu (exit_times j (enter_times n k))) = (if j = n then 0 else configMAX_SYSCALL_INTERRUPT_PRIORITY)"
  using j
proof (induction j)
  case 0
  obtain i where "n = Suc i" using m by (cases n) auto
  then have "CCPN (cpu (enter_times n k)) = configMAX_SYSCALL_INTERRUPT_PRIORITY" by (simp add: enter_critical)
  with enter_many [OF r, of n] z m show ?case by simp
next
  case (Suc j)
  let ?k = "exit_times j (enter_times n k)"
  have IH: "nesting ?k = of_nat (n - j)" "xSchedulerRunning ?k" "CCPN (cpu ?k) = configMAX_SYSCALL_INTERRUPT_PRIORITY"
    using Suc by auto
  have u: "unat (nesting ?k) = n - j" unfolding IH(1) using n by (intro unat_of_nat_small) simp
  then have nz: "nesting ?k \<noteq> 0" using Suc.prems by auto
  have one: "nesting ?k = 1 \<longleftrightarrow> Suc j = n" unfolding word_unat_eq_iff using u Suc.prems by auto
  have "(of_nat (n - j) :: u32) - 1 = of_nat (n - Suc j)" using Suc.prems by (simp add: of_nat_diff)
  then show ?case using exit_critical(3,4) [OF IH(2) nz] exit_critical(1,2) [of ?k] IH one by simp
qed

subsection \<open>A context switch\<close>

lemma find_top_ls: "ls k' = ls k \<Longrightarrow> find_top_priority k' t = find_top_priority k t"
  by (induction k t rule: find_top_priority.induct) (simp add: find_top_priority.simps [of k'] find_top_priority.simps)

lemma switch_other_fields:
  "vTaskSwitchContext (k\<lparr>cpu := P, tcbs := T\<rparr>) =
     map_option (\<lambda>k. k\<lparr>cpu := P, tcbs := T\<rparr>) (vTaskSwitchContext k)"
proof -
  have "find_top_priority (k\<lparr>cpu := P, tcbs := T, xYieldPending := False\<rparr>) t = find_top_priority (k\<lparr>xYieldPending := False\<rparr>) t" for t
    by (rule find_top_ls) simp
  then show ?thesis
    by (auto simp: vTaskSwitchContext_def taskSELECT_HIGHEST_PRIORITY_TASK_def split: bind_splits prod.splits)
qed

text \<open>The link to the context of the interrupted task, in the area of the handler.\<close>

definition link_word :: "kernel \<Rightarrow> u32" where
  "link_word k = area (cpu k) (PCXI (cpu k)) 0"

lemma switch_link_eq:
  "switch_link k =
     do {
       k' \<leftarrow> vTaskSwitchContext k;
       let T = (tcbs k)(pxCurrentTCB k := (tcbs k (pxCurrentTCB k))\<lparr>pxTopOfStack := link_word k\<rparr>);
       Some (k'\<lparr>cpu := csa_set (portCSA_TO_ADDRESS (PCXI (cpu k))) 0 (pxTopOfStack (T (pxCurrentTCB k'))) (disable (cpu k)), tcbs := T\<rparr>)
     }"
proof -
  let ?T = "(tcbs k)(pxCurrentTCB k := (tcbs k (pxCurrentTCB k))\<lparr>pxTopOfStack := link_word k\<rparr>)"
  have "csa_word (disable (cpu k)) (portCSA_TO_ADDRESS (PCXI (cpu k))) 0 = link_word k"
    by (simp add: link_word_def area_def csa_word_def disable_def)
  then have "switch_link k = do {
      k' \<leftarrow> vTaskSwitchContext (k\<lparr>cpu := disable (cpu k), tcbs := ?T\<rparr>);
      Some (k'\<lparr>cpu := csa_set (portCSA_TO_ADDRESS (PCXI (cpu k))) 0 (pxTopOfStack (tcbs k' (pxCurrentTCB k'))) (cpu k')\<rparr>) }"
    by (simp add: switch_link_def Let_def disable_def)
  also have "\<dots> = do {
      k' \<leftarrow> map_option (\<lambda>k'. k'\<lparr>cpu := disable (cpu k), tcbs := ?T\<rparr>) (vTaskSwitchContext k);
      Some (k'\<lparr>cpu := csa_set (portCSA_TO_ADDRESS (PCXI (cpu k))) 0 (pxTopOfStack (tcbs k' (pxCurrentTCB k'))) (cpu k')\<rparr>) }"
    by (simp only: switch_other_fields)
  finally show ?thesis by (cases "vTaskSwitchContext k") (simp_all add: Let_def)
qed

text \<open>A switch saves the link of the task that runs in its TCB and puts the one saved in the TCB of the chosen
  task into the handler's area; nothing else of the areas or of other tasks changes.\<close>

lemma switch_link_links:
  assumes "switch_link k = Some k'"
  shows "link_word k' = pxTopOfStack (tcbs k' (pxCurrentTCB k'))" and "pxTopOfStack (tcbs k' (pxCurrentTCB k)) = link_word k"
    and "p \<noteq> pxCurrentTCB k \<Longrightarrow> tcbs k' p = tcbs k p"
    and "a \<noteq> portCSA_TO_ADDRESS (PCXI (cpu k)) \<Longrightarrow> csa_mem (cpu k') a = csa_mem (cpu k) a"
    and "PCXI (cpu k') = PCXI (cpu k)" and "map_option pxCurrentTCB (vTaskSwitchContext k) = Some (pxCurrentTCB k')"
  using assms by (auto simp: switch_link_eq link_word_def area_def csa_word_def csa_set_def disable_def Let_def split: bind_splits)

text \<open>To the rest of the kernel, a switch is \<open>vTaskSwitchContext\<close>.\<close>

lemma switch_link_spec:
  assumes inv: "kinv Ls X k" and r: "some_ready k" and s: "uxSchedulerSuspended k = 0"
  shows "\<exists>k' n p q. switch_link k = Some k' \<and> highest_ready k n \<and> ready_queue k n = p # q \<and>
     ready_queue k' = (ready_queue k)(n := q @ [p]) \<and> kinv Ls X k' \<and> some_ready k' \<and> uxSchedulerSuspended k' = 0 \<and>
     pxCurrentTCB k' = p \<and> items k' = items k"
proof -
  obtain k0 n p q where k0: "vTaskSwitchContext k = Some k0" "highest_ready k n" "ready_queue k n = p # q"
    "ready_queue k0 = (ready_queue k)(n := q @ [p])" "kinv_at (Suc (unat (xTickCount k))) Ls X k0" "items k0 = items k"
    "pxCurrentTCB k0 = p" "tcbs k0 = tcbs k" "uxSchedulerSuspended k0 = 0"
    using switch_context_spec [OF inv r s] by blast
  have t: "xTickCount k0 = xTickCount k" using switch_context_inv [OF inv r] k0(1) by auto
  define T where "T = (tcbs k)(pxCurrentTCB k := (tcbs k (pxCurrentTCB k))\<lparr>pxTopOfStack := link_word k\<rparr>)"
  define k' where "k' = k0\<lparr>cpu := csa_set (portCSA_TO_ADDRESS (PCXI (cpu k))) 0 (pxTopOfStack (T p)) (disable (cpu k)), tcbs := T\<rparr>"
  have "switch_link k = Some k'" by (simp add: switch_link_eq k0(1,7) T_def k'_def Let_def)
  moreover have "kinv_at (Suc (unat (xTickCount k))) Ls X k'"
    by (rule kinv_fields [OF k0(5)]) (simp_all add: k'_def T_def k0(8))
  then have "kinv Ls X k'" by (simp add: k'_def t)
  moreover have "ready_queue k' = ready_queue k0" by (simp add: ready_queue_def fun_eq_iff k'_def)
  moreover have "some_ready k'" using r fun_cong [OF k0(6)] by (simp add: some_ready_def k'_def)
  ultimately show ?thesis using k0 by (intro exI [of _ k'] exI [of _ n] exI [of _ p] exI [of _ q]) (simp add: k'_def)
qed

lemma wake_expired_frame:
  assumes "wake_expired t b k = Some r"
  shows "tcbs (snd r) = tcbs k \<and> cpu (snd r) = cpu k \<and> pxCurrentTCB (snd r) = pxCurrentTCB k"
proof (rule wake_expired.raw_induct [OF _ assms])
  fix f t b k r
  assume IH: "\<And>t b k r. f t b k = Some r \<Longrightarrow>
      tcbs (snd r) = tcbs k \<and> cpu (snd r) = cpu k \<and> pxCurrentTCB (snd r) = pxCurrentTCB k"
    and e: "(case l_head (pxDelayedTaskList k) (ls k) of
        None \<Rightarrow> Some (b, k\<lparr>xNextTaskUnblockTime := portMAX_DELAY\<rparr>)
      | Some i \<Rightarrow>
          (let pxTCB = owner i; xItemValue = val_of k (StateItem pxTCB) in
           if t < xItemValue then Some (b, k\<lparr>xNextTaskUnblockTime := xItemValue\<rparr>)
           else do {
             k \<leftarrow> k_remove (StateItem pxTCB) k;
             k \<leftarrow> k_remove_event pxTCB k;
             let k = prvAddTaskToReadyList pxTCB k;
             f t (if prio k pxTCB \<ge> prio k (pxCurrentTCB k) then True else b) k
           })) = Some r"
  show "tcbs (snd r) = tcbs k \<and> cpu (snd r) = cpu k \<and> pxCurrentTCB (snd r) = pxCurrentTCB k"
    using e by (auto simp: k_remove_eq k_remove_event_eq Let_def prvAddTaskToReadyList_eq split: option.splits if_splits dest!: IH)
qed

lemma reset_cpu [simp]: "cpu (prvResetNextTaskUnblockTime k) = cpu k"
  by (simp add: prvResetNextTaskUnblockTime_def split: option.splits)

lemma tick_frame_port:
  assumes "xTaskIncrementTick k = Some (sw, k')"
  shows "tcbs k' = tcbs k" and "cpu k' = cpu k" and "pxCurrentTCB k' = pxCurrentTCB k"
proof -
  have "tcbs k' = tcbs k \<and> cpu k' = cpu k \<and> pxCurrentTCB k' = pxCurrentTCB k"
    using assms by (auto simp: xTaskIncrementTick_def taskSWITCH_DELAYED_LISTS_def Let_def reset_fields
        dest!: wake_expired_frame split: bind_splits if_splits)
  then show "tcbs k' = tcbs k" "cpu k' = cpu k" "pxCurrentTCB k' = pxCurrentTCB k" by blast+
qed

text \<open>While the task \<open>p\<close> does not run, anything may happen that neither changes the running task nor what is
  saved for \<open>p\<close>, and the handlers may switch to tasks other than \<open>p\<close>.\<close>

inductive away :: "ptr \<Rightarrow> kernel \<Rightarrow> kernel \<Rightarrow> bool" for p where
  away_start: "away p k k"
| away_work: "away p k k1 \<Longrightarrow> pxCurrentTCB k2 = pxCurrentTCB k1 \<Longrightarrow> pxTopOfStack (tcbs k2 p) = pxTopOfStack (tcbs k1 p) \<Longrightarrow>
    away p k k2"
| away_trap: "away p k k1 \<Longrightarrow> prvTrapYield n k1 = Some k2 \<Longrightarrow> pxCurrentTCB k2 \<noteq> p \<Longrightarrow> away p k k2"
| away_interrupt: "away p k k1 \<Longrightarrow> prvInterruptYield k1 = Some k2 \<Longrightarrow> pxCurrentTCB k2 \<noteq> p \<Longrightarrow> away p k k2"
| away_tick: "away p k k1 \<Longrightarrow> prvSystemTickHandler k1 = Some k2 \<Longrightarrow> pxCurrentTCB k2 \<noteq> p \<Longrightarrow> away p k k2"

lemma tick_handler_switch:
  assumes "prvSystemTickHandler k = Some k'"
  obtains k1 where "tcbs k1 = tcbs k" "pxCurrentTCB k1 = pxCurrentTCB k" "link_word k1 = link_word k" "PCXI (cpu k1) = PCXI (cpu k)"
    and "k' = k1 \<or> switch_link k1 = Some k'"
proof -
  obtain m P where m: "uxPortSetInterruptMaskFromISR (cpu k) = (m, P)" by fastforce
  then have P: "PCXI P = PCXI (cpu k)" "csa_mem P = csa_mem (cpu k)"
    by (auto simp: uxPortSetInterruptMaskFromISR_def disable_def enable_def Let_def)
  obtain sw k0 where k0: "xTaskIncrementTick (k\<lparr>cpu := P\<rparr>) = Some (sw, k0)"
    and e: "(if sw then switch_link (k0\<lparr>cpu := portCLEAR_INTERRUPT_MASK_FROM_ISR m (cpu k0)\<rparr>)
      else Some (k0\<lparr>cpu := portCLEAR_INTERRUPT_MASK_FROM_ISR m (cpu k0)\<rparr>)) = Some k'"
    using assms m by (auto simp: prvSystemTickHandler_def Let_def split: bind_splits prod.splits)
  note F = tick_frame_port [OF k0]
  let ?k1 = "k0\<lparr>cpu := portCLEAR_INTERRUPT_MASK_FROM_ISR m (cpu k0)\<rparr>"
  have "PCXI (cpu ?k1) = PCXI (cpu k)" "csa_mem (cpu ?k1) = csa_mem (cpu k)"
    using F(2) P by (simp_all add: portCLEAR_INTERRUPT_MASK_FROM_ISR_def disable_def enable_def Let_def)
  moreover from this have "link_word ?k1 = link_word k" by (simp add: link_word_def area_def csa_word_def)
  ultimately show thesis using that [of ?k1] F e by (auto split: if_splits)
qed

lemma away_saved:
  assumes "away p k k'" and "pxCurrentTCB k \<noteq> p"
  shows "pxCurrentTCB k' \<noteq> p \<and> pxTopOfStack (tcbs k' p) = pxTopOfStack (tcbs k p)"
  using assms
proof (induction rule: away.induct)
  case (away_trap k k1 n k2)
  then have "switch_link k1 = Some k2" by (simp add: prvTrapYield_def split: if_splits)
  from switch_link_links(3) [OF this] away_trap show ?case by metis
next
  case (away_interrupt k k1 k2)
  then have "switch_link k1 = Some k2" by (simp add: prvInterruptYield_def)
  from switch_link_links(3) [OF this] away_interrupt show ?case by metis
next
  case (away_tick k k1 k2)
  from tick_handler_switch [OF away_tick(2)] obtain k3 where
    "tcbs k3 = tcbs k1" "pxCurrentTCB k3 = pxCurrentTCB k1" "k2 = k3 \<or> switch_link k3 = Some k2" by metis
  with switch_link_links(3) [of k3 k2 p] away_tick show ?case by metis
qed auto

text \<open>A handler that hands the processor over to another task.\<close>

definition hands_over :: "kernel \<Rightarrow> kernel \<Rightarrow> bool" where
  "hands_over k k' \<longleftrightarrow> pxCurrentTCB k' \<noteq> pxCurrentTCB k \<and>
     (prvTrapYield portSYSCALL_TASK_YIELD k = Some k' \<or> prvInterruptYield k = Some k' \<or> prvSystemTickHandler k = Some k')"

lemma hands_over_link:
  assumes "hands_over k k'"
  shows "pxTopOfStack (tcbs k' (pxCurrentTCB k)) = link_word k" and "link_word k' = pxTopOfStack (tcbs k (pxCurrentTCB k'))"
proof -
  obtain k1 where k1: "tcbs k1 = tcbs k" "pxCurrentTCB k1 = pxCurrentTCB k" "link_word k1 = link_word k" "switch_link k1 = Some k'"
  proof (cases "prvSystemTickHandler k = Some k'")
    case True
    then show thesis using that tick_handler_switch [OF True] assms unfolding hands_over_def by metis
  next
    case False
    then show thesis using that [of k] assms by (auto simp: hands_over_def prvTrapYield_def prvInterruptYield_def)
  qed
  have "pxCurrentTCB k' \<noteq> pxCurrentTCB k1" using assms k1(2) by (simp add: hands_over_def)
  with switch_link_links(1,2) [OF k1(4)] switch_link_links(3) [OF k1(4), of "pxCurrentTCB k'"] k1(1-3)
  show "pxTopOfStack (tcbs k' (pxCurrentTCB k)) = link_word k" "link_word k' = pxTopOfStack (tcbs k (pxCurrentTCB k'))" by simp_all
qed

theorem context_restored:
  assumes "hands_over k k1" and "away (pxCurrentTCB k) k1 k2" and "hands_over k2 k3" and "pxCurrentTCB k3 = pxCurrentTCB k"
  shows "link_word k3 = link_word k"
proof -
  have "pxCurrentTCB k1 \<noteq> pxCurrentTCB k" using assms(1) by (simp add: hands_over_def)
  from away_saved [OF assms(2) this] have "pxTopOfStack (tcbs k2 (pxCurrentTCB k)) = pxTopOfStack (tcbs k1 (pxCurrentTCB k))" by blast
  with hands_over_link(1) [OF assms(1)] hands_over_link(2) [OF assms(3)] assms(4) show ?thesis by simp
qed

end
