(* ===== verification/TaskNotify.thy ===== *)
theory TaskNotify
  imports TaskEvents
begin

section \<open>Task notifications (FreeRtos/tasks.c)\<close>

text \<open>
  A task that waits for a notification is in a delayed list or the suspended list and in no event
  list.  A call that may block is split where it leaves its first critical section: the first
  part may switch to another task, the second is what the caller does when it runs again.  A
  result that the code writes through a pointer is part of the result here; a pointer that may
  be NULL is an option.
\<close>

subsection \<open>Waiting\<close>

definition ulTaskNotifyTake_wait :: "u32 \<Rightarrow> kernel \<Rightarrow> kernel option" where
  "ulTaskNotifyTake_wait xTicksToWait k =
     (if ulNotifiedValue (tcbs k (pxCurrentTCB k)) = 0 then
        do {
          let k = upd_tcb (pxCurrentTCB k) (ucNotifyState_update (\<lambda>_. taskWAITING_NOTIFICATION)) k;
          (if xTicksToWait > 0 then
             do { k \<leftarrow> prvAddCurrentTaskToDelayedList xTicksToWait True k; portYIELD_WITHIN_API k }
           else Some k)
        }
      else Some k)"

definition ulTaskNotifyTake_finish :: "bool \<Rightarrow> kernel \<Rightarrow> u32 \<times> kernel" where
  "ulTaskNotifyTake_finish xClearCountOnExit k =
     (let cur = pxCurrentTCB k;
          ulReturn = ulNotifiedValue (tcbs k cur);
          k = (if ulReturn \<noteq> 0 then
                 (if xClearCountOnExit then upd_tcb cur (ulNotifiedValue_update (\<lambda>_. 0)) k
                  else upd_tcb cur (ulNotifiedValue_update (\<lambda>_. ulReturn - 1)) k)
               else k);
          k = upd_tcb cur (ucNotifyState_update (\<lambda>_. taskNOT_WAITING_NOTIFICATION)) k
      in (ulReturn, k))"

definition xTaskNotifyWait_wait :: "u32 \<Rightarrow> u32 \<Rightarrow> kernel \<Rightarrow> kernel option" where
  "xTaskNotifyWait_wait ulBitsToClearOnEntry xTicksToWait k =
     (if ucNotifyState (tcbs k (pxCurrentTCB k)) \<noteq> taskNOTIFICATION_RECEIVED then
        do {
          let cur = pxCurrentTCB k;
          let k = upd_tcb cur (ulNotifiedValue_update (\<lambda>v. v AND NOT ulBitsToClearOnEntry)) k;
          let k = upd_tcb cur (ucNotifyState_update (\<lambda>_. taskWAITING_NOTIFICATION)) k;
          (if xTicksToWait > 0 then
             do { k \<leftarrow> prvAddCurrentTaskToDelayedList xTicksToWait True k; portYIELD_WITHIN_API k }
           else Some k)
        }
      else Some k)"

text \<open>The result, the value for \<open>*pulNotificationValue\<close>, and the state.\<close>

definition xTaskNotifyWait_finish :: "u32 \<Rightarrow> kernel \<Rightarrow> bool \<times> u32 \<times> kernel" where
  "xTaskNotifyWait_finish ulBitsToClearOnExit k =
     (let cur = pxCurrentTCB k;
          pulNotificationValue = ulNotifiedValue (tcbs k cur);
          (xReturn, k) =
            (if ucNotifyState (tcbs k cur) \<noteq> taskNOTIFICATION_RECEIVED then (False, k)
             else (True, upd_tcb cur (ulNotifiedValue_update (\<lambda>v. v AND NOT ulBitsToClearOnExit)) k))
      in (xReturn, pulNotificationValue, upd_tcb cur (ucNotifyState_update (\<lambda>_. taskNOT_WAITING_NOTIFICATION)) k))"

definition xTaskNotifyStateClear :: "ptr \<Rightarrow> kernel \<Rightarrow> bool \<times> kernel" where
  "xTaskNotifyStateClear xTask k =
     (let pxTCB = prvGetTCBFromHandle xTask k in
      if ucNotifyState (tcbs k pxTCB) = taskNOTIFICATION_RECEIVED
      then (True, upd_tcb pxTCB (ucNotifyState_update (\<lambda>_. taskNOT_WAITING_NOTIFICATION)) k)
      else (False, k))"

subsection \<open>Notifying\<close>

datatype eNotifyAction = eNoAction | eSetBits | eIncrement | eSetValueWithOverwrite | eSetValueWithoutOverwrite

text \<open>The \<open>switch\<close> on the action: the result, and the new notification value.\<close>

definition notify_value :: "eNotifyAction \<Rightarrow> u32 \<Rightarrow> u8 \<Rightarrow> u32 \<Rightarrow> bool \<times> u32" where
  "notify_value eAction ulValue ucOriginalNotifyState v =
     (case eAction of
        eSetBits \<Rightarrow> (True, v OR ulValue)
      | eIncrement \<Rightarrow> (True, v + 1)
      | eSetValueWithOverwrite \<Rightarrow> (True, ulValue)
      | eSetValueWithoutOverwrite \<Rightarrow>
          (if ucOriginalNotifyState \<noteq> taskNOTIFICATION_RECEIVED then (True, ulValue) else (False, v))
      | eNoAction \<Rightarrow> (True, v))"

text \<open>The result, the value for \<open>*pulPreviousNotificationValue\<close>, and the state.\<close>

definition xTaskGenericNotify :: "ptr \<Rightarrow> u32 \<Rightarrow> eNotifyAction \<Rightarrow> kernel \<Rightarrow> (bool \<times> u32 \<times> kernel) option" where
  "xTaskGenericNotify pxTCB ulValue eAction k =
     do {
       configASSERT (pxTCB \<noteq> NULL);
       let pulPreviousNotificationValue = ulNotifiedValue (tcbs k pxTCB);
       let ucOriginalNotifyState = ucNotifyState (tcbs k pxTCB);
       let k = upd_tcb pxTCB (ucNotifyState_update (\<lambda>_. taskNOTIFICATION_RECEIVED)) k;
       let (xReturn, v) = notify_value eAction ulValue ucOriginalNotifyState (ulNotifiedValue (tcbs k pxTCB));
       let k = upd_tcb pxTCB (ulNotifiedValue_update (\<lambda>_. v)) k;
       k \<leftarrow> (if ucOriginalNotifyState = taskWAITING_NOTIFICATION then
              do {
                k \<leftarrow> k_remove (StateItem pxTCB) k;
                let k = prvAddTaskToReadyList pxTCB k;
                configASSERT (cont_of k (EventItem pxTCB) = None);
                (if prio k pxTCB > prio k (pxCurrentTCB k) then portYIELD_WITHIN_API k else Some k)
              }
            else Some k);
       Some (xReturn, pulPreviousNotificationValue, k)
     }"

text \<open>What the two interrupt versions share: readying the task, or making it pending, and
  reporting that a task of higher priority is ready.\<close>

definition notify_wake_isr :: "ptr \<Rightarrow> u8 \<Rightarrow> bool option \<Rightarrow> kernel \<Rightarrow> (bool option \<times> kernel) option" where
  "notify_wake_isr pxTCB ucOriginalNotifyState pxHigherPriorityTaskWoken k =
     (if ucOriginalNotifyState = taskWAITING_NOTIFICATION then
        do {
          configASSERT (cont_of k (EventItem pxTCB) = None);
          k \<leftarrow> (if uxSchedulerSuspended k = 0
               then do { k \<leftarrow> k_remove (StateItem pxTCB) k; Some (prvAddTaskToReadyList pxTCB k) }
               else Some (k_insert_end PendingReadyL (EventItem pxTCB) k));
          Some (if prio k pxTCB > prio k (pxCurrentTCB k)
                then (case pxHigherPriorityTaskWoken of
                        Some _ \<Rightarrow> (Some True, k)
                      | None \<Rightarrow> (None, k\<lparr>xYieldPending := True\<rparr>))
                else (pxHigherPriorityTaskWoken, k))
        }
      else Some (pxHigherPriorityTaskWoken, k))"

definition xTaskGenericNotifyFromISR ::
    "ptr \<Rightarrow> u32 \<Rightarrow> eNotifyAction \<Rightarrow> bool option \<Rightarrow> kernel \<Rightarrow> (bool \<times> u32 \<times> bool option \<times> kernel) option" where
  "xTaskGenericNotifyFromISR pxTCB ulValue eAction pxHigherPriorityTaskWoken k =
     do {
       configASSERT (pxTCB \<noteq> NULL);
       let pulPreviousNotificationValue = ulNotifiedValue (tcbs k pxTCB);
       let ucOriginalNotifyState = ucNotifyState (tcbs k pxTCB);
       let k = upd_tcb pxTCB (ucNotifyState_update (\<lambda>_. taskNOTIFICATION_RECEIVED)) k;
       let (xReturn, v) = notify_value eAction ulValue ucOriginalNotifyState (ulNotifiedValue (tcbs k pxTCB));
       let k = upd_tcb pxTCB (ulNotifiedValue_update (\<lambda>_. v)) k;
       (woken, k) \<leftarrow> notify_wake_isr pxTCB ucOriginalNotifyState pxHigherPriorityTaskWoken k;
       Some (xReturn, pulPreviousNotificationValue, woken, k)
     }"

definition vTaskNotifyGiveFromISR :: "ptr \<Rightarrow> bool option \<Rightarrow> kernel \<Rightarrow> (bool option \<times> kernel) option" where
  "vTaskNotifyGiveFromISR pxTCB pxHigherPriorityTaskWoken k =
     do {
       configASSERT (pxTCB \<noteq> NULL);
       let ucOriginalNotifyState = ucNotifyState (tcbs k pxTCB);
       let k = upd_tcb pxTCB (ucNotifyState_update (\<lambda>_. taskNOTIFICATION_RECEIVED)) k;
       let k = upd_tcb pxTCB (ulNotifiedValue_update (\<lambda>v. v + 1)) k;
       notify_wake_isr pxTCB ucOriginalNotifyState pxHigherPriorityTaskWoken k
     }"

subsection \<open>Effect\<close>

definition notified :: "eNotifyAction \<Rightarrow> u32 \<Rightarrow> tcb \<Rightarrow> tcb" where
  "notified a v t = t\<lparr>ucNotifyState := taskNOTIFICATION_RECEIVED,
     ulNotifiedValue := snd (notify_value a v (ucNotifyState t) (ulNotifiedValue t))\<rparr>"

lemma notified_prio [simp]: "uxPriority (notified a v t) = uxPriority t"
  by (simp add: notified_def)

lemma upd_tcb_twice: "upd_tcb p g (upd_tcb p f k) = upd_tcb p (\<lambda>t. g (f t)) k"
  by simp

lemma ready_again:
  assumes inv: "kinv Ls X k" and c: "cont_of k (StateItem p) \<noteq> None" and e: "cont_of k (EventItem p) = None"
  shows "do { k \<leftarrow> k_remove (StateItem p) k; Some (prvAddTaskToReadyList p k) } = Some (make_ready p k)"
    and "kinv Ls X (make_ready p k)"
proof -
  obtain l where l: "cont_of k (StateItem p) = Some l" using c by auto
  have "cont (drop_item (StateItem p) (ls k)) (EventItem p) = None" using e by simp
  then have "drop_item (EventItem p) (drop_item (StateItem p) (ls k)) = drop_item (StateItem p) (ls k)"
    by (simp add: drop_item_def [of "EventItem p"])
  then show "do { k \<leftarrow> k_remove (StateItem p) k; Some (prvAddTaskToReadyList p k) } = Some (make_ready p k)"
    using l by (simp add: k_remove_eq make_ready_def)
  have "kinv Ls (X - {p}) (make_ready p k)"
    using make_ready_inv [OF inv state_place(1) [OF inv l]] by simp
  then have "kinv_at (Suc (unat (xTickCount (make_ready p k)))) Ls X (make_ready p k)" by (rule kinv_mono) auto
  then show "kinv Ls X (make_ready p k)" .
qed

lemma make_ready_some: "kinv Ls X (make_ready p k) \<Longrightarrow> some_ready (make_ready p k)"
  using some_ready_iff by fastforce

lemma if_None_bind: "(if c then m else None) \<bind> f = (if c then m \<bind> f else None)"
  by simp

lemma notify_eq:
  assumes "p \<noteq> NULL"
  shows "xTaskGenericNotify p v a k =
    (let k1 = upd_tcb p (notified a v) k;
         r = fst (notify_value a v (ucNotifyState (tcbs k p)) (ulNotifiedValue (tcbs k p)))
     in if ucNotifyState (tcbs k p) = taskWAITING_NOTIFICATION
        then do {
          k2 \<leftarrow> k_remove (StateItem p) k1;
          let k2 = prvAddTaskToReadyList p k2;
          configASSERT (cont_of k2 (EventItem p) = None);
          k3 \<leftarrow> (if prio k2 p > prio k2 (pxCurrentTCB k2) then portYIELD_WITHIN_API k2 else Some k2);
          Some (r, ulNotifiedValue (tcbs k p), k3)
        }
        else Some (r, ulNotifiedValue (tcbs k p), k1))"
  using assms by (simp add: xTaskGenericNotify_def notified_def Let_def split_beta if_None_bind)

theorem notify_spec:
  assumes inv: "kinv Ls X k" and p: "p \<noteq> NULL"
    and w: "ucNotifyState (tcbs k p) = taskWAITING_NOTIFICATION \<Longrightarrow>
      cont_of k (StateItem p) \<noteq> None \<and> cont_of k (EventItem p) = None"
  shows "\<exists>k'. xTaskGenericNotify p v a k =
        Some (fst (notify_value a v (ucNotifyState (tcbs k p)) (ulNotifiedValue (tcbs k p))), ulNotifiedValue (tcbs k p), k') \<and>
     kinv Ls X k' \<and> tcbs k' = (tcbs k)(p := notified a v (tcbs k p)) \<and> xTickCount k' = xTickCount k \<and>
     uxSchedulerSuspended k' = uxSchedulerSuspended k \<and>
     cont_of k' = (if ucNotifyState (tcbs k p) = taskWAITING_NOTIFICATION
       then (cont_of k)(StateItem p := Some (ReadyL (unat (prio k p)))) else cont_of k) \<and>
     (if ucNotifyState (tcbs k p) = taskWAITING_NOTIFICATION \<and> prio k (pxCurrentTCB k) < prio k p
      then uxSchedulerSuspended k = 0 \<longrightarrow> runs_highest k' else pxCurrentTCB k' = pxCurrentTCB k)"
proof -
  define k1 where "k1 = upd_tcb p (notified a v) k"
  let ?w = "ucNotifyState (tcbs k p) = taskWAITING_NOTIFICATION"
  let ?r = "fst (notify_value a v (ucNotifyState (tcbs k p)) (ulNotifiedValue (tcbs k p)))"
  have i1: "kinv Ls X k1" using kinv_upd_same [where f = "notified a v", OF inv] by (simp add: k1_def)
  have f1: "cont_of k1 = cont_of k" "pxCurrentTCB k1 = pxCurrentTCB k" "\<And>q. prio k1 q = prio k q"
    "xTickCount k1 = xTickCount k" "tcbs k1 = (tcbs k)(p := notified a v (tcbs k p))"
    "uxSchedulerSuspended k1 = uxSchedulerSuspended k"
    by (simp_all add: k1_def)
  show ?thesis
  proof (cases ?w)
    case False
    then show ?thesis using p i1 f1 by (intro exI [of _ k1]) (simp add: notify_eq k1_def Let_def)
  next
    case True
    have c: "cont_of k1 (StateItem p) \<noteq> None" and e: "cont_of k1 (EventItem p) = None" using w [OF True] f1(1) by auto
    let ?m = "make_ready p k1"
    note rm = ready_again [OF i1 c e]
    obtain k2 where k2: "k_remove (StateItem p) k1 = Some k2" "prvAddTaskToReadyList p k2 = ?m"
      using rm(1) by (auto split: bind_splits)
    have e2: "cont_of k2 (EventItem p) = None" using k2(1) e by (auto simp: k_remove_eq split: if_splits)
    have eq: "xTaskGenericNotify p v a k = do {
          k3 \<leftarrow> (if prio k p > prio k (pxCurrentTCB k) then portYIELD_WITHIN_API ?m else Some ?m);
          Some (?r, ulNotifiedValue (tcbs k p), k3) }"
      using True k2 e2 f1 p by (simp add: notify_eq k1_def [symmetric] Let_def del: k_defs)
    have cm: "cont_of ?m = (cont_of k)(StateItem p := Some (ReadyL (unat (prio k p))))"
      using e f1 by (auto simp: fun_eq_iff)
    show ?thesis
    proof (cases "prio k (pxCurrentTCB k) < prio k p")
      case y: True
      have r: "some_ready ?m" by (rule make_ready_some [OF rm(2)])
      obtain k3 where k3: "vTaskSwitchContext ?m = Some k3" "kinv_at (Suc (unat (xTickCount ?m))) Ls X k3"
        "cont_of k3 = cont_of ?m" "tcbs k3 = tcbs ?m" "xTickCount k3 = xTickCount ?m"
        "uxSchedulerSuspended k3 = uxSchedulerSuspended ?m"
        using switch_context_inv [OF rm(2) r] by blast
      have "runs_highest k3" if "uxSchedulerSuspended k = 0"
        using switch_runs_highest [OF rm(2) _ r] that k3(1) f1(6) by auto
      then show ?thesis using True y eq k3 cm f1
        by (intro exI [of _ k3]) (simp add: portYIELD_WITHIN_API_def)
    next
      case False
      then show ?thesis using True eq cm f1 rm(2) by (intro exI [of _ ?m]) simp
    qed
  qed
qed

subsection \<open>Notifying from an interrupt\<close>

lemma make_pending_free: "cont_of k (EventItem p) = None \<Longrightarrow> k_insert_end PendingReadyL (EventItem p) k = make_pending p k"
  by (simp add: make_pending_def drop_item_def)

lemma make_pending_inv_free:
  assumes inv: "kinv_at lo Ls X k" and e: "cont_of k (EventItem p) = None"
    and s: "cont_of k (StateItem p) = Some m" "m \<in> delayed_or_suspended"
  shows "kinv_at lo Ls X (make_pending p k)"
proof -
  let ?S = "l_insert_end PendingReadyL (EventItem p) (ls k)"
  have ev: "\<forall>q. q \<notin> X \<longrightarrow> cont ?S (EventItem q) \<noteq> None \<longrightarrow>
      (\<exists>l \<in> delayed_or_suspended. cont ?S (StateItem q) = Some l)"
    using kinvD(8) [OF inv] s by auto
  have "kinv_at lo Ls X (k\<lparr>ls := ?S\<rparr>)"
    by (rule kinv_insert_gen [OF inv e _ _ _ ev, of PendingReadyL]) (use kinv_static [OF inv] in auto)
  then show ?thesis using make_pending_free [OF e] by simp
qed

text \<open>The task is ready, or pending while the scheduler is suspended; the flag of the caller, or
  \<open>xYieldPending\<close> when there is none, tells of a task of higher priority.\<close>

theorem notify_wake_isr_spec:
  assumes inv: "kinv Ls X k" and s: "cont_of k (StateItem p) = Some m" and e: "cont_of k (EventItem p) = None"
    and d: "uxSchedulerSuspended k \<noteq> 0 \<Longrightarrow> m \<in> delayed_or_suspended"
  shows "\<exists>k'. notify_wake_isr p taskWAITING_NOTIFICATION w k =
       Some (if prio k (pxCurrentTCB k) < prio k p \<and> w \<noteq> None then Some True else w, k') \<and>
     kinv Ls X k' \<and> tcbs k' = tcbs k \<and> pxCurrentTCB k' = pxCurrentTCB k \<and>
     cont_of k' = (if uxSchedulerSuspended k = 0 then (cont_of k)(StateItem p := Some (ReadyL (unat (prio k p))))
       else (cont_of k)(EventItem p := Some PendingReadyL)) \<and>
     xYieldPending k' = (xYieldPending k \<or> prio k (pxCurrentTCB k) < prio k p \<and> w = None)"
proof -
  let ?y = "prio k (pxCurrentTCB k) < prio k p"
  let ?m = "if uxSchedulerSuspended k = 0 then make_ready p k else make_pending p k"
  have m: "(if uxSchedulerSuspended k = 0
         then do { k \<leftarrow> k_remove (StateItem p) k; Some (prvAddTaskToReadyList p k) }
         else Some (k_insert_end PendingReadyL (EventItem p) k)) = Some ?m"
    using ready_again(1) [OF inv _ e] s make_pending_free [OF e] by auto
  have i: "kinv Ls X ?m"
    using ready_again(2) [OF inv _ e] make_pending_inv_free [OF inv e s d] s by auto
  let ?k' = "if ?y \<and> w = None then ?m\<lparr>xYieldPending := True\<rparr> else ?m"
  have "kinv Ls X ?k'" using kinv_yield [OF i, of True] i by simp
  moreover have "notify_wake_isr p taskWAITING_NOTIFICATION w k =
       Some (if ?y \<and> w \<noteq> None then Some True else w, ?k')"
    unfolding notify_wake_isr_def m using e by (auto split: option.splits)
  ultimately show ?thesis
    using e by (intro exI [of _ ?k']) (auto simp: fun_eq_iff)
qed

subsection \<open>A notification value as a counting semaphore\<close>

definition give_isr :: "ptr \<Rightarrow> kernel \<Rightarrow> kernel option" where
  "give_isr p k = do { (w, k) \<leftarrow> vTaskNotifyGiveFromISR p None k; Some k }"

primrec gives :: "nat \<Rightarrow> ptr \<Rightarrow> kernel \<Rightarrow> kernel option" where
  "gives 0 p k = Some k"
| "gives (Suc n) p k = do { k \<leftarrow> give_isr p k; gives n p k }"

lemma give_isr_running:
  assumes "p \<noteq> NULL" and "ucNotifyState (tcbs k p) \<noteq> taskWAITING_NOTIFICATION"
  shows "give_isr p k = Some (k\<lparr>tcbs := (tcbs k)(p := (tcbs k p)\<lparr>ucNotifyState := taskNOTIFICATION_RECEIVED,
     ulNotifiedValue := ulNotifiedValue (tcbs k p) + 1\<rparr>)\<rparr>)"
proof -
  have inc: "ulNotifiedValue_update (\<lambda>v. v + 1) (ucNotifyState_update (\<lambda>_. taskNOTIFICATION_RECEIVED) t) =
      t\<lparr>ucNotifyState := taskNOTIFICATION_RECEIVED, ulNotifiedValue := ulNotifiedValue t + 1\<rparr>" for t :: tcb
    by (cases t) simp
  show ?thesis
    using assms by (simp add: inc give_isr_def vTaskNotifyGiveFromISR_def notify_wake_isr_def Let_def)
qed

lemma gives_running:
  assumes "p \<noteq> NULL" and "ucNotifyState (tcbs k p) \<noteq> taskWAITING_NOTIFICATION"
  shows "\<exists>k'. gives n p k = Some k' \<and> ls k' = ls k \<and> pxCurrentTCB k' = pxCurrentTCB k \<and>
     ulNotifiedValue (tcbs k' p) = ulNotifiedValue (tcbs k p) + of_nat n \<and>
     ucNotifyState (tcbs k' p) = (if n = 0 then ucNotifyState (tcbs k p) else taskNOTIFICATION_RECEIVED)"
  using assms(2)
proof (induction n arbitrary: k)
  case (Suc n)
  define k1 where "k1 = k\<lparr>tcbs := (tcbs k)(p := (tcbs k p)\<lparr>ucNotifyState := taskNOTIFICATION_RECEIVED,
     ulNotifiedValue := ulNotifiedValue (tcbs k p) + 1\<rparr>)\<rparr>"
  have g: "give_isr p k = Some k1" unfolding k1_def by (rule give_isr_running [OF assms(1) Suc.prems])
  have "ucNotifyState (tcbs k1 p) \<noteq> taskWAITING_NOTIFICATION"
    by (simp add: k1_def taskNOTIFICATION_RECEIVED_def taskWAITING_NOTIFICATION_def)
  from Suc.IH [OF this] obtain k' where "gives n p k1 = Some k'" "ls k' = ls k1" "pxCurrentTCB k' = pxCurrentTCB k1"
     "ulNotifiedValue (tcbs k' p) = ulNotifiedValue (tcbs k1 p) + of_nat n"
     "ucNotifyState (tcbs k' p) = (if n = 0 then ucNotifyState (tcbs k1 p) else taskNOTIFICATION_RECEIVED)"
    by blast
  then show ?case using g by (intro exI [of _ k']) (simp add: k1_def algebra_simps)
qed simp

text \<open>The whole call, when it does not block.\<close>

definition ulTaskNotifyTake :: "bool \<Rightarrow> u32 \<Rightarrow> kernel \<Rightarrow> (u32 \<times> kernel) option" where
  "ulTaskNotifyTake xClearCountOnExit xTicksToWait k =
     do { k \<leftarrow> ulTaskNotifyTake_wait xTicksToWait k; Some (ulTaskNotifyTake_finish xClearCountOnExit k) }"

lemma take_available:
  assumes "ulNotifiedValue (tcbs k (pxCurrentTCB k)) \<noteq> 0"
  shows "\<exists>k'. ulTaskNotifyTake c w k = Some (ulNotifiedValue (tcbs k (pxCurrentTCB k)), k') \<and> ls k' = ls k \<and>
     pxCurrentTCB k' = pxCurrentTCB k \<and>
     ulNotifiedValue (tcbs k' (pxCurrentTCB k)) = (if c then 0 else ulNotifiedValue (tcbs k (pxCurrentTCB k)) - 1) \<and>
     ucNotifyState (tcbs k' (pxCurrentTCB k)) = taskNOT_WAITING_NOTIFICATION"
  using assms
  by (simp add: ulTaskNotifyTake_def ulTaskNotifyTake_wait_def ulTaskNotifyTake_finish_def Let_def)

text \<open>Blocking until a notification comes.\<close>

theorem take_blocks:
  assumes inv: "kinv Ls X k" and cb: "can_block k" and w: "w \<noteq> 0"
    and z: "ulNotifiedValue (tcbs k (pxCurrentTCB k)) = 0"
  shows "\<exists>k'. ulTaskNotifyTake_wait w k = Some k' \<and> kinv Ls (X - {pxCurrentTCB k}) k' \<and>
     cont_of k' = (cont_of k)(StateItem (pxCurrentTCB k) := Some (delay_list w True k)) \<and>
     tcbs k' = (tcbs k)(pxCurrentTCB k := (tcbs k (pxCurrentTCB k))\<lparr>ucNotifyState := taskWAITING_NOTIFICATION\<rparr>) \<and>
     uxSchedulerSuspended k' = 0 \<and> pxCurrentTCB k' \<noteq> pxCurrentTCB k \<and> runs_highest k'"
proof -
  let ?c = "pxCurrentTCB k" and ?f = "ucNotifyState_update (\<lambda>_. taskWAITING_NOTIFICATION)"
  define k1 where "k1 = upd_tcb ?c ?f k"
  have i1: "kinv Ls X k1" using kinv_upd_same [where f = ?f, OF inv] by (simp add: k1_def)
  have cb1: "can_block k1" using cb by (simp add: can_block_def k1_def)
  have f1: "cont_of k1 = cont_of k" "pxCurrentTCB k1 = ?c" "delay_list w True k1 = delay_list w True k"
    "tcbs k1 = (tcbs k)(?c := ?f (tcbs k ?c))"
    by (simp_all add: k1_def delay_list_def)
  have "ulTaskNotifyTake_wait w k = do { k \<leftarrow> prvAddCurrentTaskToDelayedList w True k1; portYIELD_WITHIN_API k }"
    using z w by (simp add: ulTaskNotifyTake_wait_def k1_def Let_def word_gt_0)
  with delay_and_switch [OF i1 cb1 w, of True] f1 show ?thesis by auto
qed

theorem take_handshake:
  assumes inv: "kinv Ls {} k" and cb: "can_block k" and w: "w \<noteq> 0" and c: "pxCurrentTCB k \<noteq> NULL"
    and z: "ulNotifiedValue (tcbs k (pxCurrentTCB k)) = 0"
  shows "\<exists>k1 k2. ulTaskNotifyTake_wait w k = Some k1 \<and> pxCurrentTCB k1 \<noteq> pxCurrentTCB k \<and> runs_highest k1 \<and>
     xTaskGenericNotify (pxCurrentTCB k) v eIncrement k1 = Some (True, 0, k2) \<and> kinv Ls {} k2 \<and>
     cont_of k2 (StateItem (pxCurrentTCB k)) = Some (ReadyL (unat (prio k (pxCurrentTCB k)))) \<and>
     (\<forall>k3. pxCurrentTCB k3 = pxCurrentTCB k \<and> tcbs k3 (pxCurrentTCB k) = tcbs k2 (pxCurrentTCB k) \<longrightarrow>
        fst (ulTaskNotifyTake_finish b k3) = 1)"
proof -
  let ?c = "pxCurrentTCB k"
  obtain k1 where k1: "ulTaskNotifyTake_wait w k = Some k1" "kinv Ls ({} - {?c}) k1"
     "cont_of k1 = (cont_of k)(StateItem ?c := Some (delay_list w True k))"
     "tcbs k1 = (tcbs k)(?c := (tcbs k ?c)\<lparr>ucNotifyState := taskWAITING_NOTIFICATION\<rparr>)"
     "pxCurrentTCB k1 \<noteq> ?c" "runs_highest k1"
    using take_blocks [OF inv cb w z] by blast
  have i1: "kinv Ls {} k1" using k1(2) by simp
  have e: "cont_of k1 (EventItem ?c) = None" using cb k1(3) by (simp add: can_block_def)
  obtain k2 where k2: "xTaskGenericNotify ?c v eIncrement k1 = Some (True, 0, k2)" "kinv Ls {} k2"
     "tcbs k2 = (tcbs k1)(?c := notified eIncrement v (tcbs k1 ?c))"
     "cont_of k2 = (cont_of k1)(StateItem ?c := Some (ReadyL (unat (prio k1 ?c))))"
    using notify_spec [OF i1 c, of v eIncrement] k1(3,4) e z by (auto simp: notify_value_def)
  have "ulNotifiedValue (tcbs k2 ?c) = 1" using k2(3) k1(4) z by (simp add: notified_def notify_value_def)
  then have "fst (ulTaskNotifyTake_finish b k3) = 1" if "pxCurrentTCB k3 = ?c \<and> tcbs k3 ?c = tcbs k2 ?c" for k3
    using that by (simp add: ulTaskNotifyTake_finish_def Let_def)
  with k1 k2 show ?thesis by (intro exI [of _ k1] exI [of _ k2]) simp
qed

end
