(* ===== verification/ListStore.thy ===== *)
theory ListStore
  imports KList
begin

section \<open>The contract of the lists\<close>

text \<open>
  The kernel uses its lists through five operations.  \<open>list_store\<close> is the contract of a store of
  lists: every legal operation succeeds, with the result and the effect of the abstract store.
  The pointer structures of \<open>list.c\<close> meet it, and so does the abstract store itself; whatever
  sequence of operations the kernel runs has the same results on both.
\<close>

datatype ('l, 'i) list_cmd =
    CInsertEnd 'l 'i
  | CInsert 'l 'i
  | CRemove 'i
  | CNext 'l
  | CValue 'i u32

datatype 'i list_out = ODone | OCount u32 | OOwner 'i

fun abs_step :: "('l, 'i) list_cmd \<Rightarrow> ('l, 'i) lists \<Rightarrow> ('i list_out \<times> ('l, 'i) lists) option" where
  "abs_step (CInsertEnd l i) S = Some (ODone, l_insert_end l i S)"
| "abs_step (CInsert l i) S = Some (ODone, l_insert l i S)"
| "abs_step (CRemove i) S = do {
     l \<leftarrow> cont S i; S' \<leftarrow> l_remove i S; Some (OCount (of_nat (length (l_elems l S'))), S') }"
| "abs_step (CNext l) S = do { (i, S') \<leftarrow> l_next l S; Some (OOwner i, S') }"
| "abs_step (CValue i v) S = Some (ODone, l_set_value i v S)"

fun ptr_step :: "('l, 'i) list_cmd \<Rightarrow> ('l, 'i) pstore \<Rightarrow> ('i list_out \<times> ('l, 'i) pstore) option" where
  "ptr_step (CInsertEnd l i) s = Some (ODone, vListInsertEnd l i s)"
| "ptr_step (CInsert l i) s = map_option (Pair ODone) (vListInsert l i s)"
| "ptr_step (CRemove i) s = do { (n, s') \<leftarrow> uxListRemove i s; Some (OCount n, s') }"
| "ptr_step (CNext l) s = (case listGET_OWNER_OF_NEXT_ENTRY l s of
     (Item i, s') \<Rightarrow> Some (OOwner i, s') | (End _, _) \<Rightarrow> None)"
| "ptr_step (CValue i v) s = Some (ODone, s\<lparr>xItemValue := (xItemValue s)(Item i := v)\<rparr>)"

text \<open>What the kernel guarantees: it inserts only items that are in no list, removes only items
  that are in one, and takes the next entry of non-empty lists only.\<close>

fun legal :: "'l set \<Rightarrow> ('l, 'i) list_cmd \<Rightarrow> ('l, 'i) lists \<Rightarrow> bool" where
  "legal Ls (CInsertEnd l i) S \<longleftrightarrow> l \<in> Ls \<and> cont S i = None"
| "legal Ls (CInsert l i) S \<longleftrightarrow> l \<in> Ls \<and> cont S i = None"
| "legal Ls (CRemove i) S \<longleftrightarrow> cont S i \<noteq> None"
| "legal Ls (CNext l) S \<longleftrightarrow> l \<in> Ls \<and> l_elems l S \<noteq> []"
| "legal Ls (CValue i v) S \<longleftrightarrow> True"

text \<open>Running a sequence of commands, collecting the results.\<close>

fun run :: "('c \<Rightarrow> 's \<Rightarrow> ('o \<times> 's) option) \<Rightarrow> 'c list \<Rightarrow> 's \<Rightarrow> ('o list \<times> 's) option" where
  "run step [] s = Some ([], s)"
| "run step (c # cs) s = do {
     (x, s') \<leftarrow> step c s; (xs, s'') \<leftarrow> run step cs s'; Some (x # xs, s'') }"

fun legal_run :: "'l set \<Rightarrow> ('l, 'i) list_cmd list \<Rightarrow> ('l, 'i) lists \<Rightarrow> bool" where
  "legal_run Ls [] S \<longleftrightarrow> True"
| "legal_run Ls (c # cs) S \<longleftrightarrow> legal Ls c S \<and>
     (case abs_step c S of None \<Rightarrow> False | Some (x, S') \<Rightarrow> legal_run Ls cs S')"

locale list_store =
  fixes step :: "('l, 'i) list_cmd \<Rightarrow> 's \<Rightarrow> ('i list_out \<times> 's) option"
    and abstracts :: "'l set \<Rightarrow> 's \<Rightarrow> ('l, 'i) lists \<Rightarrow> bool"
  assumes step_sim: "abstracts Ls s S \<Longrightarrow> legal Ls c S \<Longrightarrow>
      \<exists>x s' S'. step c s = Some (x, s') \<and> abs_step c S = Some (x, S') \<and> abstracts Ls s' S'"
    and well_formed: "abstracts Ls s S \<Longrightarrow> lists_ok Ls S"
begin

lemma run_sim:
  "abstracts Ls s S \<Longrightarrow> legal_run Ls cs S \<Longrightarrow>
   \<exists>xs s' S'. run step cs s = Some (xs, s') \<and> run abs_step cs S = Some (xs, S') \<and>
     abstracts Ls s' S' \<and> lists_ok Ls S'"
proof (induction cs arbitrary: s S)
  case Nil
  then show ?case by (simp add: well_formed)
next
  case (Cons c cs)
  then have "legal Ls c S" by simp
  from step_sim [OF Cons.prems(1) this] obtain x s' S' where
    c: "step c s = Some (x, s')" "abs_step c S = Some (x, S')" "abstracts Ls s' S'" by blast
  with Cons.prems(2) have "legal_run Ls cs S'" by simp
  from Cons.IH [OF c(3) this] obtain xs s'' S'' where
    "run step cs s' = Some (xs, s'')" "run abs_step cs S' = Some (xs, S'')" "abstracts Ls s'' S''" "lists_ok Ls S''"
    by blast
  with c show ?case by simp
qed

end

lemma abs_step_ok:
  assumes ok: "lists_ok Ls S" and lg: "legal Ls c S"
  shows "\<exists>x S'. abs_step c S = Some (x, S') \<and> lists_ok Ls S'"
proof (cases c)
  case (CRemove i)
  with lg obtain l where l: "cont S i = Some l" by auto
  then obtain S' where "l_remove i S = Some S'" by (auto simp: l_remove_def)
  with CRemove l lists_ok_remove [OF ok this] show ?thesis by simp
next
  case (CNext l)
  then obtain i where "kl_next (lst S l) = Some i" using lg kl_next_exists [of "lst S l"] by auto
  then obtain S' where S': "l_next l S = Some (i, S')" by (simp add: l_next_def)
  with CNext lists_ok_next [OF ok S'] show ?thesis by simp
qed (use lists_ok_insert_end [OF ok] lists_ok_insert [OF ok] ok lg in auto)

interpretation abstract_lists: list_store abs_step "\<lambda>Ls s S. s = S \<and> lists_ok Ls S"
  by unfold_locales (use abs_step_ok in auto)

lemma ptr_step_sim:
  assumes r: "refines Ls s S" and lg: "legal Ls c S"
  shows "\<exists>x s' S'. ptr_step c s = Some (x, s') \<and> abs_step c S = Some (x, S') \<and> refines Ls s' S'"
proof (cases c)
  case (CInsertEnd l i)
  with refines_vListInsertEnd [OF r, of l i] lg show ?thesis by auto
next
  case (CInsert l i)
  with lg obtain s' where "vListInsert l i s = Some s'" "refines Ls s' (l_insert l i S)"
    using refines_vListInsert [OF r, of l i] by auto
  with CInsert show ?thesis by simp
next
  case (CRemove i)
  with lg obtain l where l: "cont S i = Some l" by auto
  from refines_uxListRemove [OF r l] CRemove l show ?thesis by auto
next
  case (CNext l)
  then have "l \<in> Ls" "l_elems l S \<noteq> []" using lg by auto
  from refines_listGET_OWNER_OF_NEXT_ENTRY [OF r this] CNext show ?thesis by auto
next
  case (CValue i v)
  with refines_value [OF r, of i v] show ?thesis by simp
qed

interpretation pointer_lists: list_store ptr_step refines
proof unfold_locales
  fix Ls and s :: "('l, 'i) pstore" and S c
  assume "refines Ls s S" "legal Ls c S"
  then show "\<exists>x s' S'. ptr_step c s = Some (x, s') \<and> abs_step c S = Some (x, S') \<and> refines Ls s' S'"
    by (rule ptr_step_sim)
qed (simp add: refines_def)

end
