(* ===== verification/Stream.thy ===== *)
theory Stream
  imports System TaskNotify
begin

section \<open>Stream buffers and message buffers (FreeRtos/stream_buffer.c)\<close>

text \<open>
  A stream buffer is a ring of bytes at \<open>pucBuffer\<close> with one byte kept free, between one sender and
  one receiver; a message buffer stores the length of each message, four bytes, before it.  What a
  caller hands over at a pointer is taken as the list of bytes there (the caller's data and the ring
  do not overlap).  A call that has to wait ends its step with \<open>SbAgain\<close>; its continuation, when the
  task runs again, is a step of its own (\<open>sb_send_woken\<close>, \<open>sb_receive_woken\<close>).
\<close>

definition sbBYTES_TO_STORE_MESSAGE_LENGTH :: u32 where "sbBYTES_TO_STORE_MESSAGE_LENGTH = 4"
definition sbFLAGS_IS_MESSAGE_BUFFER :: u8 where "sbFLAGS_IS_MESSAGE_BUFFER = 1"
definition sbFLAGS_IS_STATICALLY_ALLOCATED :: u8 where "sbFLAGS_IS_STATICALLY_ALLOCATED = 2"
definition sizeof_StreamBuffer_t :: u32 where "sizeof_StreamBuffer_t = 32"
definition UINT32_MAX :: u32 where "UINT32_MAX = 0xffffffff"

definition upd_stream :: "ptr \<Rightarrow> (StreamBuffer_t \<Rightarrow> StreamBuffer_t) \<Rightarrow> sys \<Rightarrow> sys" where
  "upd_stream x f s = s\<lparr>streams := (streams s)(x := f (streams s x))\<rparr>"

definition is_message_buffer :: "StreamBuffer_t \<Rightarrow> bool" where
  "is_message_buffer B \<longleftrightarrow> ucFlags B AND sbFLAGS_IS_MESSAGE_BUFFER \<noteq> 0"

subsection \<open>Waking the task at the other end\<close>

definition sbRECEIVE_COMPLETED :: "ptr \<Rightarrow> sys \<Rightarrow> sys option" where
  "sbRECEIVE_COMPLETED x s =
     do {
       let s = s\<lparr>kern := vTaskSuspendAll (kern s)\<rparr>;
       s \<leftarrow> (if xTaskWaitingToSend (streams s x) \<noteq> NULL then
              do {
                (r, v, k) \<leftarrow> xTaskGenericNotify (xTaskWaitingToSend (streams s x)) 0 eNoAction (kern s);
                Some (upd_stream x (xTaskWaitingToSend_update (\<lambda>_. NULL)) (s\<lparr>kern := k\<rparr>))
              }
            else Some s);
       (y, s) \<leftarrow> on_kern_r xTaskResumeAll s;
       Some s
     }"

definition sbSEND_COMPLETED :: "ptr \<Rightarrow> sys \<Rightarrow> sys option" where
  "sbSEND_COMPLETED x s =
     do {
       let s = s\<lparr>kern := vTaskSuspendAll (kern s)\<rparr>;
       s \<leftarrow> (if xTaskWaitingToReceive (streams s x) \<noteq> NULL then
              do {
                (r, v, k) \<leftarrow> xTaskGenericNotify (xTaskWaitingToReceive (streams s x)) 0 eNoAction (kern s);
                Some (upd_stream x (xTaskWaitingToReceive_update (\<lambda>_. NULL)) (s\<lparr>kern := k\<rparr>))
              }
            else Some s);
       (y, s) \<leftarrow> on_kern_r xTaskResumeAll s;
       Some s
     }"

definition xStreamBufferSendCompletedFromISR :: "ptr \<Rightarrow> bool option \<Rightarrow> sys \<Rightarrow> (bool \<times> bool option \<times> sys) option" where
  "xStreamBufferSendCompletedFromISR x pxHigherPriorityTaskWoken s =
     do {
       configASSERT (x \<noteq> NULL);
       (if xTaskWaitingToReceive (streams s x) \<noteq> NULL then
          do {
            (r, v, woken, k) \<leftarrow> xTaskGenericNotifyFromISR (xTaskWaitingToReceive (streams s x)) 0 eNoAction
              pxHigherPriorityTaskWoken (kern s);
            Some (True, woken, upd_stream x (xTaskWaitingToReceive_update (\<lambda>_. NULL)) (s\<lparr>kern := k\<rparr>))
          }
        else Some (False, pxHigherPriorityTaskWoken, s))
     }"

definition xStreamBufferReceiveCompletedFromISR :: "ptr \<Rightarrow> bool option \<Rightarrow> sys \<Rightarrow> (bool \<times> bool option \<times> sys) option" where
  "xStreamBufferReceiveCompletedFromISR x pxHigherPriorityTaskWoken s =
     do {
       configASSERT (x \<noteq> NULL);
       (if xTaskWaitingToSend (streams s x) \<noteq> NULL then
          do {
            (r, v, woken, k) \<leftarrow> xTaskGenericNotifyFromISR (xTaskWaitingToSend (streams s x)) 0 eNoAction
              pxHigherPriorityTaskWoken (kern s);
            Some (True, woken, upd_stream x (xTaskWaitingToSend_update (\<lambda>_. NULL)) (s\<lparr>kern := k\<rparr>))
          }
        else Some (False, pxHigherPriorityTaskWoken, s))
     }"

text \<open>The macros with \<open>FROM_ISR\<close> in their names do the same and drop the result.\<close>

definition sbSEND_COMPLETE_FROM_ISR :: "ptr \<Rightarrow> bool option \<Rightarrow> sys \<Rightarrow> (bool option \<times> sys) option" where
  "sbSEND_COMPLETE_FROM_ISR x pxHigherPriorityTaskWoken s =
     (if xTaskWaitingToReceive (streams s x) \<noteq> NULL then
        do {
          (r, v, woken, k) \<leftarrow> xTaskGenericNotifyFromISR (xTaskWaitingToReceive (streams s x)) 0 eNoAction
            pxHigherPriorityTaskWoken (kern s);
          Some (woken, upd_stream x (xTaskWaitingToReceive_update (\<lambda>_. NULL)) (s\<lparr>kern := k\<rparr>))
        }
      else Some (pxHigherPriorityTaskWoken, s))"

definition sbRECEIVE_COMPLETED_FROM_ISR :: "ptr \<Rightarrow> bool option \<Rightarrow> sys \<Rightarrow> (bool option \<times> sys) option" where
  "sbRECEIVE_COMPLETED_FROM_ISR x pxHigherPriorityTaskWoken s =
     (if xTaskWaitingToSend (streams s x) \<noteq> NULL then
        do {
          (r, v, woken, k) \<leftarrow> xTaskGenericNotifyFromISR (xTaskWaitingToSend (streams s x)) 0 eNoAction
            pxHigherPriorityTaskWoken (kern s);
          Some (woken, upd_stream x (xTaskWaitingToSend_update (\<lambda>_. NULL)) (s\<lparr>kern := k\<rparr>))
        }
      else Some (pxHigherPriorityTaskWoken, s))"

subsection \<open>The ring of bytes\<close>

definition prvBytesInBuffer :: "StreamBuffer_t \<Rightarrow> u32" where
  "prvBytesInBuffer B =
     (let xCount = xLength B + xHead B - xTail B
      in if xCount \<ge> xLength B then xCount - xLength B else xCount)"

definition xStreamBufferSpacesAvailable :: "ptr \<Rightarrow> sys \<Rightarrow> u32 option" where
  "xStreamBufferSpacesAvailable x s =
     do {
       configASSERT (x \<noteq> NULL);
       let B = streams s x;
       let xSpace = xLength B + xTail B - xHead B - 1;
       Some (if xSpace \<ge> xLength B then xSpace - xLength B else xSpace)
     }"

definition xStreamBufferBytesAvailable :: "ptr \<Rightarrow> sys \<Rightarrow> u32 option" where
  "xStreamBufferBytesAvailable x s = do { configASSERT (x \<noteq> NULL); Some (prvBytesInBuffer (streams s x)) }"

definition prvWriteBytesToBuffer :: "ptr \<Rightarrow> u8 list \<Rightarrow> u32 \<Rightarrow> sys \<Rightarrow> (u32 \<times> sys) option" where
  "prvWriteBytesToBuffer x pucData xCount s =
     do {
       configASSERT (xCount > 0);
       let B = streams s x;
       let xNextHead = xHead B;
       let xFirstLength = min (xLength B - xNextHead) xCount;
       configASSERT (xNextHead + xFirstLength \<le> xLength B);
       let s = s\<lparr>mem := put_bytes (pucBuffer B + xNextHead) (take (unat xFirstLength) pucData) (mem s)\<rparr>;
       s \<leftarrow> (if xCount > xFirstLength then
              do {
                configASSERT (xCount - xFirstLength \<le> xLength B);
                Some (s\<lparr>mem := put_bytes (pucBuffer B)
                  (take (unat (xCount - xFirstLength)) (drop (unat xFirstLength) pucData)) (mem s)\<rparr>)
              }
            else Some s);
       let xNextHead = xNextHead + xCount;
       let xNextHead = (if xNextHead \<ge> xLength B then xNextHead - xLength B else xNextHead);
       Some (xCount, upd_stream x (xHead_update (\<lambda>_. xNextHead)) s)
     }"

text \<open>The bytes read are a result; the caller of the code gives the place to put them.\<close>

definition prvReadBytesFromBuffer :: "ptr \<Rightarrow> u32 \<Rightarrow> u32 \<Rightarrow> sys \<Rightarrow> (u32 \<times> u8 list \<times> sys) option" where
  "prvReadBytesFromBuffer x xMaxCount xBytesAvailable s =
     (let xCount = min xBytesAvailable xMaxCount in
      if xCount > 0 then
        do {
          let B = streams s x;
          let xNextTail = xTail B;
          let xFirstLength = min (xLength B - xNextTail) xCount;
          configASSERT (xFirstLength \<le> xMaxCount);
          configASSERT (xNextTail + xFirstLength \<le> xLength B);
          let first = bytes (pucBuffer B + xNextTail) xFirstLength (mem s);
          configASSERT (xCount > xFirstLength \<longrightarrow> xCount \<le> xMaxCount);
          let rest = (if xCount > xFirstLength then bytes (pucBuffer B) (xCount - xFirstLength) (mem s) else []);
          let xNextTail = xNextTail + xCount;
          let xNextTail = (if xNextTail \<ge> xLength B then xNextTail - xLength B else xNextTail);
          Some (xCount, first @ rest, upd_stream x (xTail_update (\<lambda>_. xNextTail)) s)
        }
      else Some (xCount, [], s))"

definition prvWriteMessageToBuffer :: "ptr \<Rightarrow> u8 list \<Rightarrow> u32 \<Rightarrow> u32 \<Rightarrow> u32 \<Rightarrow> sys \<Rightarrow> (u32 \<times> sys) option" where
  "prvWriteMessageToBuffer x pvTxData xDataLengthBytes xSpace xRequiredSpace s =
     do {
       (xShouldWrite, xDataLengthBytes, s) \<leftarrow>
         (if xSpace = 0 then Some (False, xDataLengthBytes, s)
          else if \<not> is_message_buffer (streams s x) then Some (True, min xDataLengthBytes xSpace, s)
          else if xSpace \<ge> xRequiredSpace then
            do {
              (n, s) \<leftarrow> prvWriteBytesToBuffer x (word_bytes xDataLengthBytes) sbBYTES_TO_STORE_MESSAGE_LENGTH s;
              Some (True, xDataLengthBytes, s)
            }
          else Some (False, xDataLengthBytes, s));
       (if xShouldWrite then prvWriteBytesToBuffer x pvTxData xDataLengthBytes s else Some (0, s))
     }"

definition prvReadMessageFromBuffer :: "ptr \<Rightarrow> u32 \<Rightarrow> u32 \<Rightarrow> u32 \<Rightarrow> sys \<Rightarrow> (u32 \<times> u8 list \<times> sys) option" where
  "prvReadMessageFromBuffer x xBufferLengthBytes xBytesAvailable xBytesToStoreMessageLength s =
     do {
       (xNextMessageLength, xBytesAvailable, s) \<leftarrow>
         (if xBytesToStoreMessageLength \<noteq> 0 then
            do {
              let xOriginalTail = xTail (streams s x);
              (n, bs, s) \<leftarrow> prvReadBytesFromBuffer x xBytesToStoreMessageLength xBytesAvailable s;
              let xNextMessageLength = bytes_word bs;
              let xBytesAvailable = xBytesAvailable - xBytesToStoreMessageLength;
              Some (if xNextMessageLength > xBufferLengthBytes
                    then (0, xBytesAvailable, upd_stream x (xTail_update (\<lambda>_. xOriginalTail)) s)
                    else (xNextMessageLength, xBytesAvailable, s))
            }
          else Some (xBufferLengthBytes, xBytesAvailable, s));
       prvReadBytesFromBuffer x xNextMessageLength xBytesAvailable s
     }"

subsection \<open>Sending\<close>

datatype sb_outcome =
    SbDone u32
  | SbAgain u32 TimeOut_t u32

definition sb_required :: "ptr \<Rightarrow> u32 \<Rightarrow> sys \<Rightarrow> u32" where
  "sb_required x xDataLengthBytes s =
     (if is_message_buffer (streams s x) then xDataLengthBytes + sbBYTES_TO_STORE_MESSAGE_LENGTH else xDataLengthBytes)"

text \<open>The critical section of the loop: the space, and whether the task has to wait for more.\<close>

definition sb_send_try :: "ptr \<Rightarrow> u32 \<Rightarrow> sys \<Rightarrow> (u32 \<times> bool \<times> sys) option" where
  "sb_send_try x xRequiredSpace s =
     do {
       xSpace \<leftarrow> xStreamBufferSpacesAvailable x s;
       (if xSpace < xRequiredSpace then
          do {
            let s = s\<lparr>kern := snd (xTaskNotifyStateClear NULL (kern s))\<rparr>;
            configASSERT (xTaskWaitingToSend (streams s x) = NULL);
            Some (xSpace, True, upd_stream x (xTaskWaitingToSend_update (\<lambda>_. xTaskGetCurrentTaskHandle (kern s))) s)
          }
        else Some (xSpace, False, s))
     }"

definition sb_send_write :: "ptr \<Rightarrow> ptr \<Rightarrow> u32 \<Rightarrow> u32 \<Rightarrow> sys \<Rightarrow> (u32 \<times> sys) option" where
  "sb_send_write x pvTxData xDataLengthBytes xSpace s =
     do {
       xSpace \<leftarrow> (if xSpace = 0 then xStreamBufferSpacesAvailable x s else Some xSpace);
       (xReturn, s) \<leftarrow> prvWriteMessageToBuffer x (bytes pvTxData xDataLengthBytes (mem s)) xDataLengthBytes xSpace
         (sb_required x xDataLengthBytes s) s;
       s \<leftarrow> (if xReturn > 0 \<and> prvBytesInBuffer (streams s x) \<ge> xTriggerLevelBytes (streams s x)
            then sbSEND_COMPLETED x s else Some s);
       Some (xReturn, s)
     }"

definition sb_send_pass :: "ptr \<Rightarrow> ptr \<Rightarrow> u32 \<Rightarrow> u32 \<Rightarrow> TimeOut_t \<Rightarrow> sys \<Rightarrow> (sb_outcome \<times> sys) option" where
  "sb_send_pass x pvTxData xDataLengthBytes xTicksToWait xTimeOut s =
     do {
       (xSpace, wait, s) \<leftarrow> sb_send_try x (sb_required x xDataLengthBytes s) s;
       (if wait then
          do { s \<leftarrow> on_kern (xTaskNotifyWait_wait 0 xTicksToWait) s; Some (SbAgain xTicksToWait xTimeOut xSpace, s) }
        else
          do { (n, s) \<leftarrow> sb_send_write x pvTxData xDataLengthBytes xSpace s; Some (SbDone n, s) })
     }"

text \<open>From the return of \<open>xTaskNotifyWait\<close> to the next wait or the end.\<close>

definition sb_send_woken :: "ptr \<Rightarrow> ptr \<Rightarrow> u32 \<Rightarrow> u32 \<Rightarrow> TimeOut_t \<Rightarrow> u32 \<Rightarrow> sys \<Rightarrow> (sb_outcome \<times> sys) option" where
  "sb_send_woken x pvTxData xDataLengthBytes xTicksToWait xTimeOut xSpace s =
     do {
       let (r, v, k) = xTaskNotifyWait_finish UINT32_MAX (kern s);
       let s = upd_stream x (xTaskWaitingToSend_update (\<lambda>_. NULL)) (s\<lparr>kern := k\<rparr>);
       let (expired, xTimeOut, xTicksToWait) = xTaskCheckForTimeOut xTimeOut xTicksToWait (kern s);
       (if \<not> expired then sb_send_pass x pvTxData xDataLengthBytes xTicksToWait xTimeOut s
        else do { (n, s) \<leftarrow> sb_send_write x pvTxData xDataLengthBytes xSpace s; Some (SbDone n, s) })
     }"

definition xStreamBufferSend :: "ptr \<Rightarrow> ptr \<Rightarrow> u32 \<Rightarrow> u32 \<Rightarrow> sys \<Rightarrow> (sb_outcome \<times> sys) option" where
  "xStreamBufferSend x pvTxData xDataLengthBytes xTicksToWait s =
     do {
       configASSERT (pvTxData \<noteq> NULL);
       configASSERT (x \<noteq> NULL);
       (if xTicksToWait \<noteq> 0
        then sb_send_pass x pvTxData xDataLengthBytes xTicksToWait (vTaskSetTimeOutState (kern s)) s
        else do { (n, s) \<leftarrow> sb_send_write x pvTxData xDataLengthBytes 0 s; Some (SbDone n, s) })
     }"

definition xStreamBufferSendFromISR :: "ptr \<Rightarrow> ptr \<Rightarrow> u32 \<Rightarrow> bool option \<Rightarrow> sys \<Rightarrow> (u32 \<times> bool option \<times> sys) option" where
  "xStreamBufferSendFromISR x pvTxData xDataLengthBytes pxHigherPriorityTaskWoken s =
     do {
       configASSERT (pvTxData \<noteq> NULL);
       configASSERT (x \<noteq> NULL);
       xSpace \<leftarrow> xStreamBufferSpacesAvailable x s;
       (xReturn, s) \<leftarrow> prvWriteMessageToBuffer x (bytes pvTxData xDataLengthBytes (mem s)) xDataLengthBytes xSpace
         (sb_required x xDataLengthBytes s) s;
       (woken, s) \<leftarrow> (if xReturn > 0 \<and> prvBytesInBuffer (streams s x) \<ge> xTriggerLevelBytes (streams s x)
                     then sbSEND_COMPLETE_FROM_ISR x pxHigherPriorityTaskWoken s
                     else Some (pxHigherPriorityTaskWoken, s));
       Some (xReturn, woken, s)
     }"

subsection \<open>Receiving\<close>

definition sb_header :: "StreamBuffer_t \<Rightarrow> u32" where
  "sb_header B = (if is_message_buffer B then sbBYTES_TO_STORE_MESSAGE_LENGTH else 0)"

definition sb_receive_read :: "ptr \<Rightarrow> ptr \<Rightarrow> u32 \<Rightarrow> u32 \<Rightarrow> sys \<Rightarrow> (u32 \<times> sys) option" where
  "sb_receive_read x pvRxData xBufferLengthBytes xBytesAvailable s =
     do {
       (n, s) \<leftarrow> (if xBytesAvailable > sb_header (streams s x) then
                   do {
                     (n, bs, s) \<leftarrow> prvReadMessageFromBuffer x xBufferLengthBytes xBytesAvailable (sb_header (streams s x)) s;
                     Some (n, s\<lparr>mem := put_bytes pvRxData bs (mem s)\<rparr>)
                   }
                 else Some (0, s));
       s \<leftarrow> (if n \<noteq> 0 then sbRECEIVE_COMPLETED x s else Some s);
       Some (n, s)
     }"

text \<open>\<open>None\<close> as the first result: the task waits, and goes on with \<open>sb_receive_woken\<close>.\<close>

definition xStreamBufferReceive :: "ptr \<Rightarrow> ptr \<Rightarrow> u32 \<Rightarrow> u32 \<Rightarrow> sys \<Rightarrow> (u32 option \<times> sys) option" where
  "xStreamBufferReceive x pvRxData xBufferLengthBytes xTicksToWait s =
     do {
       configASSERT (pvRxData \<noteq> NULL);
       configASSERT (x \<noteq> NULL);
       let xBytesAvailable = prvBytesInBuffer (streams s x);
       (if xTicksToWait \<noteq> 0 \<and> xBytesAvailable \<le> sb_header (streams s x) then
          do {
            let s = s\<lparr>kern := snd (xTaskNotifyStateClear NULL (kern s))\<rparr>;
            configASSERT (xTaskWaitingToReceive (streams s x) = NULL);
            let s = upd_stream x (xTaskWaitingToReceive_update (\<lambda>_. xTaskGetCurrentTaskHandle (kern s))) s;
            s \<leftarrow> on_kern (xTaskNotifyWait_wait 0 xTicksToWait) s;
            Some (None, s)
          }
        else
          do { (n, s) \<leftarrow> sb_receive_read x pvRxData xBufferLengthBytes xBytesAvailable s; Some (Some n, s) })
     }"

definition sb_receive_woken :: "ptr \<Rightarrow> ptr \<Rightarrow> u32 \<Rightarrow> sys \<Rightarrow> (u32 \<times> sys) option" where
  "sb_receive_woken x pvRxData xBufferLengthBytes s =
     do {
       let (r, v, k) = xTaskNotifyWait_finish UINT32_MAX (kern s);
       let s = upd_stream x (xTaskWaitingToReceive_update (\<lambda>_. NULL)) (s\<lparr>kern := k\<rparr>);
       sb_receive_read x pvRxData xBufferLengthBytes (prvBytesInBuffer (streams s x)) s
     }"

definition xStreamBufferReceiveFromISR :: "ptr \<Rightarrow> ptr \<Rightarrow> u32 \<Rightarrow> bool option \<Rightarrow> sys \<Rightarrow> (u32 \<times> bool option \<times> sys) option" where
  "xStreamBufferReceiveFromISR x pvRxData xBufferLengthBytes pxHigherPriorityTaskWoken s =
     do {
       configASSERT (pvRxData \<noteq> NULL);
       configASSERT (x \<noteq> NULL);
       let xBytesAvailable = prvBytesInBuffer (streams s x);
       (if xBytesAvailable > sb_header (streams s x) then
          do {
            (n, bs, s) \<leftarrow> prvReadMessageFromBuffer x xBufferLengthBytes xBytesAvailable (sb_header (streams s x)) s;
            let s = s\<lparr>mem := put_bytes pvRxData bs (mem s)\<rparr>;
            (woken, s) \<leftarrow> (if n \<noteq> 0 then sbRECEIVE_COMPLETED_FROM_ISR x pxHigherPriorityTaskWoken s
                          else Some (pxHigherPriorityTaskWoken, s));
            Some (n, woken, s)
          }
        else Some (0, pxHigherPriorityTaskWoken, s))
     }"

subsection \<open>Creation, reset and queries\<close>

definition prvInitialiseNewStreamBuffer :: "ptr \<Rightarrow> ptr \<Rightarrow> u32 \<Rightarrow> u32 \<Rightarrow> bool \<Rightarrow> sys \<Rightarrow> sys" where
  "prvInitialiseNewStreamBuffer x pucBuf xBufferSizeBytes xTriggerLevel xIsMessageBuffer s =
     upd_stream x (\<lambda>_. \<lparr>xTail = 0, xHead = 0, xLength = xBufferSizeBytes, xTriggerLevelBytes = xTriggerLevel,
         xTaskWaitingToReceive = NULL, xTaskWaitingToSend = NULL, pucBuffer = pucBuf,
         ucFlags = (if xIsMessageBuffer then 0 OR sbFLAGS_IS_MESSAGE_BUFFER else 0)\<rparr>)
       (s\<lparr>mem := put_bytes pucBuf (replicate (unat xBufferSizeBytes) 0x55) (mem s)\<rparr>)"

definition xStreamBufferGenericCreate :: "u32 \<Rightarrow> u32 \<Rightarrow> bool \<Rightarrow> sys \<Rightarrow> (ptr \<times> sys) option" where
  "xStreamBufferGenericCreate xBufferSizeBytes xTriggerLevel xIsMessageBuffer s =
     do {
       configASSERT (xBufferSizeBytes > sbBYTES_TO_STORE_MESSAGE_LENGTH);
       configASSERT (xTriggerLevel \<le> xBufferSizeBytes);
       let xTriggerLevel = (if xTriggerLevel = 0 then 1 else xTriggerLevel);
       let xBufferSizeBytes = xBufferSizeBytes + 1;
       (p, s) \<leftarrow> on_kern_r (pvPortMalloc (xBufferSizeBytes + sizeof_StreamBuffer_t)) s;
       Some (p, if p \<noteq> NULL
                then prvInitialiseNewStreamBuffer p (p + sizeof_StreamBuffer_t) xBufferSizeBytes xTriggerLevel xIsMessageBuffer s
                else s)
     }"

definition vStreamBufferDelete :: "ptr \<Rightarrow> sys \<Rightarrow> sys option" where
  "vStreamBufferDelete x s =
     do {
       configASSERT (x \<noteq> NULL);
       (if ucFlags (streams s x) AND sbFLAGS_IS_STATICALLY_ALLOCATED = 0 then on_kern (vPortFree x) s
        else Some (upd_stream x (\<lambda>_. \<lparr>xTail = 0, xHead = 0, xLength = 0, xTriggerLevelBytes = 0,
          xTaskWaitingToReceive = NULL, xTaskWaitingToSend = NULL, pucBuffer = NULL, ucFlags = 0\<rparr>) s))
     }"

definition xStreamBufferReset :: "ptr \<Rightarrow> sys \<Rightarrow> (bool \<times> sys) option" where
  "xStreamBufferReset x s =
     do {
       configASSERT (x \<noteq> NULL);
       let B = streams s x;
       Some (if xTaskWaitingToReceive B = NULL \<and> xTaskWaitingToSend B = NULL
             then (True, prvInitialiseNewStreamBuffer x (pucBuffer B) (xLength B) (xTriggerLevelBytes B) (is_message_buffer B) s)
             else (False, s))
     }"

definition xStreamBufferSetTriggerLevel :: "ptr \<Rightarrow> u32 \<Rightarrow> sys \<Rightarrow> (bool \<times> sys) option" where
  "xStreamBufferSetTriggerLevel x xTriggerLevel s =
     do {
       configASSERT (x \<noteq> NULL);
       let xTriggerLevel = (if xTriggerLevel = 0 then 1 else xTriggerLevel);
       Some (if xTriggerLevel \<le> xLength (streams s x)
             then (True, upd_stream x (xTriggerLevelBytes_update (\<lambda>_. xTriggerLevel)) s) else (False, s))
     }"

definition xStreamBufferIsEmpty :: "ptr \<Rightarrow> sys \<Rightarrow> bool option" where
  "xStreamBufferIsEmpty x s = do { configASSERT (x \<noteq> NULL); Some (xHead (streams s x) = xTail (streams s x)) }"

definition xStreamBufferIsFull :: "ptr \<Rightarrow> sys \<Rightarrow> bool option" where
  "xStreamBufferIsFull x s =
     do {
       configASSERT (x \<noteq> NULL);
       xSpace \<leftarrow> xStreamBufferSpacesAvailable x s;
       Some (xSpace \<le> sb_header (streams s x))
     }"

end
