(* ===== verification/StreamSpec.thy ===== *)
theory StreamSpec
  imports Stream QueueRing
begin

section \<open>The ring of bytes is a list of bytes\<close>

definition sb_ok :: "StreamBuffer_t \<Rightarrow> bool" where
  "sb_ok B \<longleftrightarrow> 2 \<le> unat (xLength B) \<and> unat (xLength B) < 2 ^ 31 \<and> xHead B < xLength B \<and> xTail B < xLength B"

definition sb_count :: "StreamBuffer_t \<Rightarrow> nat" where
  "sb_count B = (unat (xHead B) + unat (xLength B) - unat (xTail B)) mod unat (xLength B)"

definition sb_room :: "StreamBuffer_t \<Rightarrow> nat" where
  "sb_room B = unat (xLength B) - 1"

definition sb_content :: "StreamBuffer_t \<Rightarrow> (ptr \<Rightarrow> u8) \<Rightarrow> u8 list" where
  "sb_content B m = map (\<lambda>i. m (pucBuffer B + of_nat ((unat (xTail B) + i) mod unat (xLength B)))) [0..<sb_count B]"

lemma length_sb_content [simp]: "length (sb_content B m) = sb_count B"
  by (simp add: sb_content_def)

lemma sb_okD:
  assumes "sb_ok B"
  shows "0 < unat (xLength B)" and "unat (xHead B) < unat (xLength B)" and "unat (xTail B) < unat (xLength B)"
    and "unat (xLength B) < 2 ^ 31" and "2 \<le> unat (xLength B)"
  using assms by (auto simp: sb_ok_def word_less_nat_alt)

lemma sb_count_less: "sb_ok B \<Longrightarrow> sb_count B < unat (xLength B)"
  using sb_okD(1) by (simp add: sb_count_def)

lemma sb_count_le: "sb_ok B \<Longrightarrow> sb_count B \<le> sb_room B"
  using sb_count_less by (fastforce simp: sb_room_def)

lemma sb_head:
  assumes "sb_ok B" shows "unat (xHead B) = (unat (xTail B) + sb_count B) mod unat (xLength B)"
proof -
  have "(unat (xTail B) + sb_count B) mod unat (xLength B) = (unat (xHead B) + unat (xLength B)) mod unat (xLength B)"
    using sb_okD(3) [OF assms] unfolding sb_count_def by (simp add: mod_add_right_eq)
  then show ?thesis using sb_okD(2) [OF assms] by simp
qed

lemma bytes_in_buffer:
  assumes ok: "sb_ok B"
  shows "unat (prvBytesInBuffer B) = sb_count B"
proof -
  note D = sb_okD [OF ok]
  have a: "unat (xLength B + xHead B) = unat (xLength B) + unat (xHead B)"
    using D by (intro unat_add_small) simp
  have "xTail B \<le> xLength B + xHead B" using D a by (simp add: word_le_nat_alt)
  then have b: "unat (xLength B + xHead B - xTail B) = unat (xLength B) + unat (xHead B) - unat (xTail B)"
    by (simp add: unat_sub a)
  have "unat (xLength B + xHead B - xTail B - xLength B) = unat (xHead B) - unat (xTail B)"
    if "unat (xTail B) \<le> unat (xHead B)"
    using that D b by (subst unat_sub) (auto simp: word_le_nat_alt)
  then show ?thesis
    using D b unfolding prvBytesInBuffer_def sb_count_def Let_def
    by (auto simp: word_le_nat_alt mod_wrap)
qed

lemma spaces_available:
  assumes ok: "sb_ok (streams s x)" and x: "x \<noteq> NULL"
  obtains sp where "xStreamBufferSpacesAvailable x s = Some sp" and "unat sp = sb_room (streams s x) - sb_count (streams s x)"
proof -
  let ?B = "streams s x"
  note D = sb_okD [OF ok]
  have a: "unat (xLength ?B + xTail ?B) = unat (xLength ?B) + unat (xTail ?B)"
    using D by (intro unat_add_small) simp
  have "xHead ?B \<le> xLength ?B + xTail ?B" using D a by (simp add: word_le_nat_alt)
  then have b: "unat (xLength ?B + xTail ?B - xHead ?B) = unat (xLength ?B) + unat (xTail ?B) - unat (xHead ?B)"
    by (simp add: unat_sub a)
  have "xLength ?B + xTail ?B - xHead ?B \<noteq> 0" using b D by auto
  then have c: "unat (xLength ?B + xTail ?B - xHead ?B - 1) = unat (xLength ?B) + unat (xTail ?B) - unat (xHead ?B) - 1"
    by (simp add: unat_minus_one b)
  have d: "unat (xLength ?B + xTail ?B - xHead ?B - 1 - xLength ?B) = unat (xTail ?B) - unat (xHead ?B) - 1"
    if "unat (xHead ?B) < unat (xTail ?B)"
    using that D c by (subst unat_sub) (auto simp: word_le_nat_alt)
  define sp where "sp = (if xLength ?B + xTail ?B - xHead ?B - 1 \<ge> xLength ?B
    then xLength ?B + xTail ?B - xHead ?B - 1 - xLength ?B else xLength ?B + xTail ?B - xHead ?B - 1)"
  have "xStreamBufferSpacesAvailable x s = Some sp"
    using x by (simp add: xStreamBufferSpacesAvailable_def sp_def Let_def)
  moreover have "unat sp = sb_room ?B - sb_count ?B"
    using D c d unfolding sp_def sb_room_def sb_count_def by (auto simp: word_le_nat_alt mod_wrap)
  ultimately show ?thesis by (rule that)
qed

subsection \<open>Writing and reading a ring in memory\<close>

lemma put_bytes_at:
  assumes "off \<le> (L :: nat)" and "j < L" and "L < 2 ^ 31" and "length bs \<le> L"
  shows "put_bytes (p + of_nat off) bs m (p + of_nat j) =
    (if off \<le> j \<and> j < off + length bs then bs ! (j - off) else m (p + of_nat j))"
proof -
  have "unat (of_nat j :: u32) = j" "unat (of_nat off :: u32) = off" using assms by (simp_all add: unat_of_nat)
  then have "unat (of_nat j - of_nat off :: u32) = (if off \<le> j then j - off else j + 2 ^ 32 - off)"
    using unat_sub_wrap [of "of_nat j" "of_nat off"] by simp
  moreover have "p + of_nat j - (p + of_nat off) = (of_nat j - of_nat off :: u32)" by simp
  ultimately show ?thesis using assms unfolding put_bytes_def by auto
qed

definition ring_write :: "ptr \<Rightarrow> nat \<Rightarrow> nat \<Rightarrow> u8 list \<Rightarrow> (ptr \<Rightarrow> u8) \<Rightarrow> ptr \<Rightarrow> u8" where
  "ring_write p L h bs m = put_bytes p (drop (L - h) bs) (put_bytes (p + of_nat h) (take (L - h) bs) m)"

lemma ring_write_in:
  assumes "h < L" and "L < 2 ^ 31" and "length bs \<le> L" and "d < length bs"
  shows "ring_write p L h bs m (p + of_nat ((h + d) mod L)) = bs ! d"
proof -
  have j: "(h + d) mod L < L" using assms by simp
  show ?thesis
    using put_bytes_at [OF _ j assms(2), of 0] put_bytes_at [OF _ j assms(2), of h] assms
    by (auto simp: ring_write_def mod_wrap min_def)
qed

lemma ring_write_out:
  assumes "h < L" and "L < 2 ^ 31" and "length bs \<le> L" and "j < L" and "\<And>d. d < length bs \<Longrightarrow> (h + d) mod L \<noteq> j"
  shows "ring_write p L h bs m (p + of_nat j) = m (p + of_nat j)"
proof -
  have "\<not> (h \<le> j \<and> j < h + min (length bs) (L - h))"
  proof
    assume "h \<le> j \<and> j < h + min (length bs) (L - h)"
    then have "j - h < length bs" "(h + (j - h)) mod L = j" using assms(4) by auto
    then show False using assms(5) by blast
  qed
  moreover have "\<not> j < length bs - (L - h)"
  proof
    assume "j < length bs - (L - h)"
    then have "L - h + j < length bs" "(h + (L - h + j)) mod L = j" using assms(1,4) by auto
    then show False using assms(5) by blast
  qed
  ultimately show ?thesis
    using put_bytes_at [OF _ assms(4,2), of 0] put_bytes_at [OF _ assms(4,2), of h] assms(1,3)
    by (auto simp: ring_write_def min_def split: if_splits)
qed

lemma sb_content_append:
  assumes ok: "sb_ok B" and n: "sb_count B + length bs \<le> sb_room B" and h: "unat h' = (unat (xHead B) + length bs) mod unat (xLength B)"
  shows "sb_ok (B\<lparr>xHead := h'\<rparr>)" and "sb_count (B\<lparr>xHead := h'\<rparr>) = sb_count B + length bs"
    and "sb_content (B\<lparr>xHead := h'\<rparr>) (ring_write (pucBuffer B) (unat (xLength B)) (unat (xHead B)) bs m) =
      sb_content B m @ bs"
proof -
  let ?L = "unat (xLength B)" and ?t = "unat (xTail B)" and ?n = "sb_count B"
  note D = sb_okD [OF ok]
  have nl: "?n + length bs < ?L" using n D(5) by (simp add: sb_room_def)
  have "unat h' < ?L" using h D by simp
  then show ok': "sb_ok (B\<lparr>xHead := h'\<rparr>)" using ok by (simp add: sb_ok_def word_less_nat_alt)
  have h'': "unat h' = (?t + (?n + length bs)) mod ?L"
    unfolding h sb_head [OF ok] by (simp add: mod_add_left_eq add.assoc)
  have c: "sb_count (B\<lparr>xHead := h'\<rparr>) < ?L" using sb_count_less [OF ok'] by simp
  have "(?t + sb_count (B\<lparr>xHead := h'\<rparr>)) mod ?L = (?t + (?n + length bs)) mod ?L"
    using sb_head [OF ok'] h'' by simp
  with ring_index_inj [OF D(3) c nl] show c': "sb_count (B\<lparr>xHead := h'\<rparr>) = ?n + length bs" by simp
  have wr: "ring_write (pucBuffer B) ?L (unat (xHead B)) bs m (pucBuffer B + of_nat ((?t + i) mod ?L)) =
      (sb_content B m @ bs) ! i" if i: "i < ?n + length bs" for i
  proof (cases "i < ?n")
    case True
    have "(unat (xHead B) + d) mod ?L \<noteq> (?t + i) mod ?L" if "d < length bs" for d
    proof -
      have "(unat (xHead B) + d) mod ?L = (?t + (?n + d)) mod ?L"
        unfolding sb_head [OF ok] by (simp add: mod_add_left_eq add.assoc)
      with ring_index_inj [OF D(3), of "?n + d" i] that True nl show ?thesis by simp
    qed
    then show ?thesis
      using ring_write_out [OF D(2,4), of bs "(?t + i) mod ?L"] nl D True
      by (simp add: sb_content_def nth_append)
  next
    case False
    then have "(?t + i) mod ?L = (?t + ?n + (i - ?n)) mod ?L" by simp
    then have "(?t + i) mod ?L = (unat (xHead B) + (i - ?n)) mod ?L"
      unfolding sb_head [OF ok] by (simp only: mod_add_left_eq)
    then show ?thesis
      using ring_write_in [OF D(2,4), of bs "i - ?n"] nl i False by (simp add: nth_append)
  qed
  show "sb_content (B\<lparr>xHead := h'\<rparr>) (ring_write (pucBuffer B) ?L (unat (xHead B)) bs m) = sb_content B m @ bs"
    by (rule nth_equalityI) (use c' wr in \<open>simp_all add: sb_content_def\<close>)
qed

lemma sb_content_drop:
  assumes ok: "sb_ok B" and n: "n \<le> sb_count B" and t: "unat t' = (unat (xTail B) + n) mod unat (xLength B)"
  shows "sb_ok (B\<lparr>xTail := t'\<rparr>)" and "sb_count (B\<lparr>xTail := t'\<rparr>) = sb_count B - n"
    and "sb_content (B\<lparr>xTail := t'\<rparr>) m = drop n (sb_content B m)"
proof -
  let ?L = "unat (xLength B)" and ?t = "unat (xTail B)"
  note D = sb_okD [OF ok]
  have t'': "unat t' < ?L" using t D by simp
  then show ok': "sb_ok (B\<lparr>xTail := t'\<rparr>)" using ok by (simp add: sb_ok_def word_less_nat_alt)
  have c: "sb_count (B\<lparr>xTail := t'\<rparr>) < ?L" using sb_count_less [OF ok'] by simp
  have r: "sb_count B - n < ?L" using sb_count_less [OF ok] by simp
  have "(unat t' + (sb_count B - n)) mod ?L = (?t + n + (sb_count B - n)) mod ?L"
    unfolding t by (simp only: mod_add_left_eq)
  also have "\<dots> = unat (xHead B)" using n sb_head [OF ok] by simp
  also have "\<dots> = (unat t' + sb_count (B\<lparr>xTail := t'\<rparr>)) mod ?L" using sb_head [OF ok'] by simp
  finally show c': "sb_count (B\<lparr>xTail := t'\<rparr>) = sb_count B - n"
    using ring_index_inj [OF t'' r c] by simp
  have "(unat t' + i) mod ?L = (?t + (n + i)) mod ?L" for i
    unfolding t by (simp add: mod_add_left_eq add.assoc)
  then show "sb_content (B\<lparr>xTail := t'\<rparr>) m = drop n (sb_content B m)"
    by (intro nth_equalityI) (use c' in \<open>auto simp: sb_content_def\<close>)
qed

lemma ring_read:
  assumes ok: "sb_ok B" and n: "n \<le> sb_count B"
  shows "take n (sb_content B m) =
    map (\<lambda>i. m (pucBuffer B + xTail B + of_nat i)) [0..<min n (unat (xLength B) - unat (xTail B))] @
    map (\<lambda>i. m (pucBuffer B + of_nat i)) [0..<n - (unat (xLength B) - unat (xTail B))]"
proof -
  let ?L = "unat (xLength B)" and ?t = "unat (xTail B)"
  let ?f = "\<lambda>i. m (pucBuffer B + of_nat ((?t + i) mod ?L))"
  note D = sb_okD [OF ok]
  have nl: "n < ?L" using n sb_count_less [OF ok] by simp
  have tk: "take n (sb_content B m) = map ?f [0..<n]"
    using n by (simp add: sb_content_def take_map)
  have low: "map ?f [0..<k] = map (\<lambda>i. m (pucBuffer B + xTail B + of_nat i)) [0..<k]" if "k \<le> ?L - ?t" for k
    using that D by (intro map_cong) (auto simp: algebra_simps)
  show ?thesis
  proof (cases "n \<le> ?L - ?t")
    case True
    then show ?thesis using tk low [of n] by simp
  next
    case False
    then have "[0..<n] = [0..<?L - ?t] @ map (\<lambda>i. i + (?L - ?t)) [0..<n - (?L - ?t)]"
      using upt_add_eq_append [of 0 "?L - ?t" "n - (?L - ?t)"] by (simp add: map_add_upt)
    then have "map ?f [0..<n] = map ?f [0..<?L - ?t] @ map (?f \<circ> (\<lambda>i. i + (?L - ?t))) [0..<n - (?L - ?t)]"
      by simp
    moreover have "map (?f \<circ> (\<lambda>i. i + (?L - ?t))) [0..<n - (?L - ?t)] = map (\<lambda>i. m (pucBuffer B + of_nat i)) [0..<n - (?L - ?t)]"
      using nl D by (intro map_cong) (auto simp: mod_wrap)
    ultimately show ?thesis using tk low [of "?L - ?t"] False by (simp add: min_def)
  qed
qed

subsection \<open>The byte functions\<close>

lemma upd_stream_fields [simp]:
  "kern (upd_stream x f s) = kern s" "mem (upd_stream x f s) = mem s" "queues (upd_stream x f s) = queues s"
  "streams (upd_stream x f s) = (streams s)(x := f (streams s x))"
  by (simp_all add: upd_stream_def)

text \<open>Two states that differ in the stream buffer \<open>x\<close> and its ring only.\<close>

definition sb_frame :: "ptr \<Rightarrow> sys \<Rightarrow> sys \<Rightarrow> bool" where
  "sb_frame x s s' \<longleftrightarrow> kern s' = kern s \<and> queues s' = queues s \<and> (\<forall>y. y \<noteq> x \<longrightarrow> streams s' y = streams s y) \<and>
     xLength (streams s' x) = xLength (streams s x) \<and> pucBuffer (streams s' x) = pucBuffer (streams s x) \<and>
     ucFlags (streams s' x) = ucFlags (streams s x) \<and>
     xTriggerLevelBytes (streams s' x) = xTriggerLevelBytes (streams s x) \<and>
     xTaskWaitingToReceive (streams s' x) = xTaskWaitingToReceive (streams s x) \<and>
     xTaskWaitingToSend (streams s' x) = xTaskWaitingToSend (streams s x)"

lemma sb_frame_refl [simp]: "sb_frame x s s"
  by (simp add: sb_frame_def)

lemma sb_frame_trans: "sb_frame x s s1 \<Longrightarrow> sb_frame x s1 s2 \<Longrightarrow> sb_frame x s s2"
  by (simp add: sb_frame_def)

abbreviation sb_bytes :: "ptr \<Rightarrow> sys \<Rightarrow> u8 list" where
  "sb_bytes x s \<equiv> sb_content (streams s x) (mem s)"

lemma advance:
  assumes "unat (a :: u32) < unat L" and "unat n \<le> unat L" and "unat L < 2 ^ 31"
  shows "unat (if a + n \<ge> L then a + n - L else a + n) = (unat a + unat n) mod unat L"
proof -
  have s: "unat (a + n) = unat a + unat n" using assms by (intro unat_add_small) simp
  have "unat (a + n - L) = unat a + unat n - unat L" if "L \<le> a + n"
    using that s by (simp add: unat_sub)
  then show ?thesis using s assms by (auto simp: word_le_nat_alt mod_wrap)
qed

theorem write_bytes_spec:
  assumes ok: "sb_ok (streams s x)" and l: "length bs = unat n" and n: "0 < n"
    and room: "sb_count (streams s x) + unat n \<le> sb_room (streams s x)"
  shows "\<exists>s'. prvWriteBytesToBuffer x bs n s = Some (n, s') \<and> sb_ok (streams s' x) \<and> sb_bytes x s' = sb_bytes x s @ bs \<and>
     sb_frame x s s'"
proof -
  let ?B = "streams s x"
  let ?L = "unat (xLength ?B)" and ?h = "unat (xHead ?B)"
  define h' where "h' = (if xHead ?B + n \<ge> xLength ?B then xHead ?B + n - xLength ?B else xHead ?B + n)"
  define f where "f = min (xLength ?B - xHead ?B) n"
  note D = sb_okD [OF ok]
  have nl: "unat n < ?L" using room D(5) by (simp add: sb_room_def)
  have sub: "unat (xLength ?B - xHead ?B) = ?L - ?h" using D by (simp add: unat_sub word_le_nat_alt)
  have f: "unat f = min (?L - ?h) (unat n)" using sub by (simp add: f_def min_def word_le_nat_alt)
  have "unat (xHead ?B + f) = ?h + unat f" using D f by (intro unat_add_small) simp
  then have le: "xHead ?B + f \<le> xLength ?B" using f D by (simp add: word_le_nat_alt)
  have h': "unat h' = (?h + length bs) mod ?L" using advance [OF D(2) _ D(4), of n] nl l by (simp add: h'_def)
  have nf: "unat (n - f) = unat n - unat f" using f by (simp add: unat_sub word_le_nat_alt)
  have of: "of_nat ?h = xHead ?B" by simp
  have first: "take (unat f) bs = take (?L - ?h) bs" using f l by (simp add: min_def)
  let ?m = "put_bytes (pucBuffer ?B + xHead ?B) (take (unat f) bs) (mem s)"
  have m: "(if f < n then put_bytes (pucBuffer ?B) (take (unat (n - f)) (drop (unat f) bs)) ?m else ?m) =
      ring_write (pucBuffer ?B) ?L ?h bs (mem s)"
  proof (cases "f < n")
    case True
    then have "unat f = ?L - ?h" using f by (simp add: word_less_nat_alt min_def split: if_splits)
    then show ?thesis using True nf l first by (simp add: ring_write_def)
  next
    case False
    then have "drop (?L - ?h) bs = []" using f l by (simp add: word_less_nat_alt min_def split: if_splits)
    then show ?thesis using False first by (simp add: ring_write_def put_bytes_def)
  qed
  let ?s = "upd_stream x (xHead_update (\<lambda>_. h')) (s\<lparr>mem := ring_write (pucBuffer ?B) ?L ?h bs (mem s)\<rparr>)"
  have "n - f \<le> xLength ?B" using nf nl by (simp add: word_le_nat_alt)
  then have "prvWriteBytesToBuffer x bs n s = Some (n, ?s)"
    using n le m unfolding prvWriteBytesToBuffer_def Let_def f_def [symmetric] h'_def [symmetric]
    by (auto simp: upd_stream_def)
  moreover note sb_content_append [OF ok _ h']
  moreover have "sb_frame x s ?s"
    by (simp add: sb_frame_def)
  ultimately show ?thesis using room l by simp
qed

theorem read_bytes_spec:
  assumes ok: "sb_ok (streams s x)" and a: "unat a \<le> sb_count (streams s x)"
  shows "\<exists>s'. prvReadBytesFromBuffer x mx a s = Some (min a mx, take (unat (min a mx)) (sb_bytes x s), s') \<and>
     sb_ok (streams s' x) \<and> sb_bytes x s' = drop (unat (min a mx)) (sb_bytes x s) \<and> sb_frame x s s' \<and> mem s' = mem s"
proof (cases "min a mx = 0")
  case True
  then show ?thesis using ok by (simp add: prvReadBytesFromBuffer_def)
next
  case False
  let ?B = "streams s x"
  let ?L = "unat (xLength ?B)" and ?t = "unat (xTail ?B)"
  define n where "n = min a mx"
  define t' where "t' = (if xTail ?B + n \<ge> xLength ?B then xTail ?B + n - xLength ?B else xTail ?B + n)"
  define f where "f = min (xLength ?B - xTail ?B) n"
  note D = sb_okD [OF ok]
  have na: "unat n \<le> sb_count ?B" and nm: "n \<le> mx" and n0: "0 < n"
    using a False by (auto simp: n_def min_def word_le_nat_alt word_neq_0_conv)
  then have nl: "unat n < ?L" using sb_count_less [OF ok] by simp
  have sub: "unat (xLength ?B - xTail ?B) = ?L - ?t" using D by (simp add: unat_sub word_le_nat_alt)
  have f: "unat f = min (?L - ?t) (unat n)" using sub by (simp add: f_def min_def word_le_nat_alt)
  have "unat (xTail ?B + f) = ?t + unat f" using D f by (intro unat_add_small) simp
  then have le: "xTail ?B + f \<le> xLength ?B" using f D by (simp add: word_le_nat_alt)
  have fm: "f \<le> mx" using nm by (simp add: f_def min_le_iff_disj)
  have t': "unat t' = (?t + unat n) mod ?L" using advance [OF D(3) _ D(4), of n] nl by (simp add: t'_def)
  have nf: "unat (n - f) = unat n - unat f" using f by (simp add: unat_sub word_le_nat_alt)
  have rd: "bytes (pucBuffer ?B + xTail ?B) f (mem s) @ (if f < n then bytes (pucBuffer ?B) (n - f) (mem s) else []) =
      take (unat n) (sb_bytes x s)"
    unfolding ring_read [OF ok na] bytes_def using f nf by (auto simp: word_less_nat_alt min_def not_less)
  let ?s = "upd_stream x (xTail_update (\<lambda>_. t')) s"
  have "prvReadBytesFromBuffer x mx a s = Some (n, take (unat n) (sb_bytes x s), ?s)"
    using n0 nm fm le rd unfolding prvReadBytesFromBuffer_def Let_def n_def [symmetric] f_def [symmetric] t'_def [symmetric]
    by simp
  moreover have "sb_frame x s ?s"
    by (simp add: sb_frame_def)
  ultimately show ?thesis using sb_content_drop [OF ok na t'] by (simp add: n_def)
qed

end
