(* ===== verification/StreamApi.thy ===== *)
theory StreamApi
  imports StreamSpec QueueCreate
begin

section \<open>What the stream and message buffer functions do\<close>

lemma send_completed_none:
  assumes "quiet (kern s)" and "xTaskWaitingToReceive (streams s x) = NULL"
  shows "sbSEND_COMPLETED x s = Some s"
  using assms by (simp add: sbSEND_COMPLETED_def on_kern_r_def resume_quiet_same)

lemma receive_completed_none:
  assumes "quiet (kern s)" and "xTaskWaitingToSend (streams s x) = NULL"
  shows "sbRECEIVE_COMPLETED x s = Some s"
  using assms by (simp add: sbRECEIVE_COMPLETED_def on_kern_r_def resume_quiet_same)

text \<open>A buffer at whose other end no task waits, while nothing is pending in the kernel.\<close>

definition sb_idle :: "ptr \<Rightarrow> sys \<Rightarrow> bool" where
  "sb_idle x s \<longleftrightarrow> x \<noteq> NULL \<and> sb_ok (streams s x) \<and> quiet (kern s) \<and>
     xTaskWaitingToSend (streams s x) = NULL \<and> xTaskWaitingToReceive (streams s x) = NULL"

lemma sb_idle_frame: "sb_idle x s \<Longrightarrow> sb_frame x s s' \<Longrightarrow> sb_ok (streams s' x) \<Longrightarrow> sb_idle x s'"
  by (simp add: sb_idle_def sb_frame_def)

lemma write_takes: "prvWriteBytesToBuffer x bs n s = prvWriteBytesToBuffer x (take (unat n) bs) n s"
proof -
  have 1: "take (unat (min a n)) (take (unat n) bs) = take (unat (min a n)) bs" for a
    by (simp add: min_def word_le_nat_alt)
  have 2: "take (unat (n - min a n)) (drop (unat (min a n)) (take (unat n) bs)) =
      take (unat (n - min a n)) (drop (unat (min a n)) bs)" for a
  proof -
    have "unat (n - min a n) = unat n - unat (min a n)" by (simp add: unat_sub)
    then show ?thesis by (simp add: drop_take)
  qed
  show ?thesis unfolding prvWriteBytesToBuffer_def Let_def 1 2 by simp
qed

subsection \<open>Stream buffers\<close>

abbreviation sb_free :: "ptr \<Rightarrow> sys \<Rightarrow> nat" where
  "sb_free x s \<equiv> sb_room (streams s x) - sb_count (streams s x)"

lemma sb_free_less: "sb_ok (streams s x) \<Longrightarrow> sb_free x s < 2 ^ 32"
  using sb_okD(4) by (fastforce simp: sb_room_def)

lemma stream_write:
  assumes i: "sb_idle x s" and st: "\<not> is_message_buffer (streams s x)" and n: "n \<noteq> 0"
    and b: "length bs = unat n" and sp: "unat sp = sb_free x s"
  defines "k \<equiv> min (unat n) (sb_free x s)"
  shows "\<exists>s'. prvWriteMessageToBuffer x bs n sp r s = Some (of_nat k, s') \<and> sb_idle x s' \<and>
     sb_bytes x s' = sb_bytes x s @ take k bs \<and> sb_frame x s s'"
proof (cases "sp = 0")
  case True
  then show ?thesis using i sp by (simp add: prvWriteMessageToBuffer_def k_def sb_idle_def)
next
  case False
  have ok: "sb_ok (streams s x)" using i by (simp add: sb_idle_def)
  have k: "unat (min n sp) = k" using sp by (simp add: k_def min_def word_le_nat_alt)
  then have kw: "min n sp = of_nat k" by (rule word_unat_eq)
  have "0 < min n sp" using n False by (simp add: word_neq_0_conv [symmetric] min_def)
  moreover have "sb_count (streams s x) + unat (min n sp) \<le> sb_room (streams s x)"
    unfolding k using sb_count_le [OF ok] by (simp add: k_def)
  moreover have "length (take k bs) = unat (min n sp)" unfolding k by (simp add: b k_def)
  ultimately obtain s' where "prvWriteBytesToBuffer x (take k bs) (min n sp) s = Some (min n sp, s')"
    "sb_ok (streams s' x)" "sb_bytes x s' = sb_bytes x s @ take k bs" "sb_frame x s s'"
    using write_bytes_spec [OF ok] by blast
  moreover have "prvWriteBytesToBuffer x bs (min n sp) s = prvWriteBytesToBuffer x (take k bs) (min n sp) s"
    by (subst write_takes) (simp add: k)
  ultimately show ?thesis
    using False st sb_idle_frame [OF i] by (simp add: prvWriteMessageToBuffer_def kw)
qed

lemma send_write_idle:
  assumes i: "sb_idle x s"
    and wr: "\<And>sp. unat sp = sb_free x s \<Longrightarrow>
      prvWriteMessageToBuffer x (bytes p n (mem s)) n sp (sb_required x n s) s = Some (k, s')"
    and i': "sb_idle x s'" and p: "p \<noteq> NULL"
  shows "xStreamBufferSend x p n 0 s = Some (SbDone k, s')"
proof -
  obtain sp where sp: "xStreamBufferSpacesAvailable x s = Some sp" "unat sp = sb_free x s"
    using spaces_available [of s x] i by (auto simp: sb_idle_def)
  have "sbSEND_COMPLETED x s' = Some s'" using i' by (intro send_completed_none) (simp_all add: sb_idle_def)
  then show ?thesis
    using sp(1) wr [OF sp(2)] i p by (simp add: xStreamBufferSend_def sb_send_write_def sb_idle_def)
qed

theorem stream_send:
  assumes i: "sb_idle x s" and st: "\<not> is_message_buffer (streams s x)" and n: "n \<noteq> 0" and p: "p \<noteq> NULL"
  defines "k \<equiv> min (unat n) (sb_free x s)"
  shows "\<exists>s'. xStreamBufferSend x p n 0 s = Some (SbDone (of_nat k), s') \<and> sb_idle x s' \<and>
     sb_bytes x s' = sb_bytes x s @ take k (bytes p n (mem s)) \<and> sb_frame x s s'"
proof -
  obtain sp where sp: "unat (sp :: u32) = sb_free x s"
    using sb_free_less [of s x] i unat_of_nat_small unfolding sb_idle_def by blast
  obtain s' where s': "prvWriteMessageToBuffer x (bytes p n (mem s)) n sp (sb_required x n s) s = Some (of_nat k, s')"
    "sb_idle x s'" "sb_bytes x s' = sb_bytes x s @ take k (bytes p n (mem s))" "sb_frame x s s'"
    using stream_write [OF i st n bytes_length sp] unfolding k_def by blast
  have "prvWriteMessageToBuffer x (bytes p n (mem s)) n sp' (sb_required x n s) s = Some (of_nat k, s')"
    if "unat sp' = sb_free x s" for sp'
  proof -
    have "sp' = sp" using word_unat_eq [OF that] word_unat_eq [OF sp] by simp
    then show ?thesis using s'(1) by simp
  qed
  from send_write_idle [OF i this s'(2) p] s' show ?thesis by blast
qed

text \<open>To send nothing stops the program at an assertion, unless the buffer is full.\<close>

theorem stream_send_nothing:
  assumes i: "sb_idle x s" and st: "\<not> is_message_buffer (streams s x)" and p: "p \<noteq> NULL"
  shows "xStreamBufferSend x p 0 0 s = (if sb_free x s = 0 then Some (SbDone 0, s) else None)"
proof -
  obtain sp where sp: "xStreamBufferSpacesAvailable x s = Some sp" "unat sp = sb_free x s"
    using spaces_available [of s x] i by (auto simp: sb_idle_def)
  have "sp = 0 \<longleftrightarrow> sb_free x s = 0" using sp(2) by (metis unat_eq_zero)
  then show ?thesis using sp(1) i p st
    by (simp add: xStreamBufferSend_def sb_send_write_def prvWriteMessageToBuffer_def prvWriteBytesToBuffer_def sb_idle_def)
qed

text \<open>Where the receiver puts the bytes: apart from the ring.\<close>

definition sb_apart :: "ptr \<Rightarrow> nat \<Rightarrow> StreamBuffer_t \<Rightarrow> bool" where
  "sb_apart p n B \<longleftrightarrow> unat p + n \<le> 2 ^ 32 \<and> unat (pucBuffer B) + unat (xLength B) \<le> 2 ^ 32 \<and>
     (unat p + n \<le> unat (pucBuffer B) \<or> unat (pucBuffer B) + unat (xLength B) \<le> unat p)"

lemma sb_content_put:
  assumes ok: "sb_ok B" and a: "sb_apart p n B" and l: "length bs \<le> n"
  shows "sb_content B (put_bytes p bs m) = sb_content B m"
proof -
  have "put_bytes p bs m (pucBuffer B + of_nat j) = m (pucBuffer B + of_nat j)" if j: "j < unat (xLength B)" for j
  proof -
    have u: "unat (pucBuffer B + of_nat j) = unat (pucBuffer B) + j"
      using j a sb_okD(4) [OF ok] by (subst unat_add_small) (auto simp: sb_apart_def unat_of_nat)
    have "\<not> unat (pucBuffer B + of_nat j - p) < length bs"
      using a l j unat_u32 [of p] unat_u32 [of "pucBuffer B"] unfolding unat_sub_wrap u
      by (auto simp: sb_apart_def)
    then show ?thesis by (simp add: put_bytes_def)
  qed
  then show ?thesis using sb_okD(1) [OF ok] by (simp add: sb_content_def)
qed

theorem stream_receive:
  assumes i: "sb_idle x s" and st: "\<not> is_message_buffer (streams s x)" and p: "p \<noteq> NULL"
    and a: "sb_apart p (unat mx) (streams s x)"
  defines "k \<equiv> min (sb_count (streams s x)) (unat mx)"
  shows "\<exists>s'. xStreamBufferReceive x p mx 0 s = Some (Some (of_nat k), s') \<and> sb_idle x s' \<and>
     bytes p (of_nat k) (mem s') = take k (sb_bytes x s) \<and> sb_bytes x s' = drop k (sb_bytes x s) \<and> sb_frame x s s'"
proof -
  let ?a = "prvBytesInBuffer (streams s x)"
  have ok: "sb_ok (streams s x)" using i by (simp add: sb_idle_def)
  have ca: "unat ?a = sb_count (streams s x)" by (rule bytes_in_buffer [OF ok])
  have k: "unat (min ?a mx) = k" using ca by (auto simp: k_def min_def word_le_nat_alt)
  then have kw: "min ?a mx = of_nat k" by (rule word_unat_eq)
  have ku: "unat (of_nat k :: u32) = k" using k kw by simp
  have h: "sb_header (streams s x) = 0" using st by (simp add: sb_header_def)
  obtain s1 where s1: "prvReadBytesFromBuffer x mx ?a s = Some (of_nat k, take k (sb_bytes x s), s1)"
    "sb_ok (streams s1 x)" "sb_bytes x s1 = drop k (sb_bytes x s)" "sb_frame x s s1" "mem s1 = mem s"
    using read_bytes_spec [OF ok, of ?a mx] ca unfolding kw by (auto simp: ku)
  show ?thesis
  proof (cases "?a = 0")
    case True
    then have "k = 0" using ca by (simp add: k_def)
    then show ?thesis using True h i p by (simp add: xStreamBufferReceive_def sb_receive_read_def sb_idle_def bytes_def)
  next
    case False
    define s2 where "s2 = s1\<lparr>mem := put_bytes p (take k (sb_bytes x s)) (mem s1)\<rparr>"
    have lk: "length (take k (sb_bytes x s)) = k" by (simp add: k_def)
    have kl: "k < 2 ^ 32" using k unat_u32 by metis
    have a1: "sb_apart p (unat mx) (streams s1 x)" using a s1(4) by (simp add: sb_apart_def sb_frame_def)
    have c: "sb_bytes x s2 = drop k (sb_bytes x s)"
      using sb_content_put [OF s1(2) a1, of "take k (sb_bytes x s)" "mem s1"] lk s1(3) by (simp add: s2_def k_def)
    have f: "sb_frame x s s2" using s1(4) by (simp add: s2_def sb_frame_def)
    have i2: "sb_idle x s2" using sb_idle_frame [OF i f] s1(2) by (simp add: s2_def)
    have b: "bytes p (of_nat k) (mem s2) = take k (sb_bytes x s)"
      unfolding s2_def using a kl lk by (simp, subst bytes_put) (auto simp: sb_apart_def k_def unat_of_nat)
    have "sbRECEIVE_COMPLETED x s2 = Some s2" using i2 by (intro receive_completed_none) (simp_all add: sb_idle_def)
    then show ?thesis
      using False h i p s1(1) c f i2 b
      by (auto simp: xStreamBufferReceive_def sb_receive_read_def sb_idle_def prvReadMessageFromBuffer_def
        s2_def [symmetric] word_neq_0_conv)
  qed
qed

subsection \<open>Message buffers\<close>

lemma message_write:
  assumes i: "sb_idle x s" and ms: "is_message_buffer (streams s x)" and n: "n \<noteq> 0" "unat n + 4 < 2 ^ 32"
    and b: "length bs = unat n" and sp: "unat sp = sb_free x s"
  shows "unat n + 4 \<le> sb_free x s \<Longrightarrow>
      \<exists>s'. prvWriteMessageToBuffer x bs n sp (n + 4) s = Some (n, s') \<and> sb_idle x s' \<and>
        sb_bytes x s' = sb_bytes x s @ word_bytes n @ bs \<and> sb_frame x s s'"
    and "sb_free x s < unat n + 4 \<Longrightarrow> prvWriteMessageToBuffer x bs n sp (n + 4) s = Some (0, s)"
proof -
  have ok: "sb_ok (streams s x)" using i by (simp add: sb_idle_def)
  have r: "unat (n + 4) = unat n + 4" using n(2) by (subst unat_add_small) simp_all
  show "prvWriteMessageToBuffer x bs n sp (n + 4) s = Some (0, s)" if "sb_free x s < unat n + 4"
    using that ms sp r by (simp add: prvWriteMessageToBuffer_def word_le_nat_alt)
  assume le: "unat n + 4 \<le> sb_free x s"
  have c: "sb_count (streams s x) + sb_free x s = sb_room (streams s x)" using sb_count_le [OF ok] by simp
  obtain s1 where s1: "prvWriteBytesToBuffer x (word_bytes n) 4 s = Some (4, s1)" "sb_ok (streams s1 x)"
    "sb_bytes x s1 = sb_bytes x s @ word_bytes n" "sb_frame x s s1"
    using write_bytes_spec [OF ok, of "word_bytes n" 4] le c by auto
  have c1: "sb_count (streams s1 x) = sb_count (streams s x) + 4"
    using arg_cong [OF s1(3), of length] by simp
  have "sb_room (streams s1 x) = sb_room (streams s x)" using s1(4) by (simp add: sb_room_def sb_frame_def)
  then have "sb_count (streams s1 x) + unat n \<le> sb_room (streams s1 x)" using c1 c le by simp
  with write_bytes_spec [OF s1(2) b] n(1) obtain s2 where s2: "prvWriteBytesToBuffer x bs n s1 = Some (n, s2)"
    "sb_ok (streams s2 x)" "sb_bytes x s2 = sb_bytes x s1 @ bs" "sb_frame x s1 s2"
    by (auto simp: word_neq_0_conv)
  have f: "sb_frame x s s2" by (rule sb_frame_trans [OF s1(4) s2(4)])
  have "sp \<noteq> 0" "n + 4 \<le> sp" using sp le r by (auto simp: word_le_nat_alt)
  then have "prvWriteMessageToBuffer x bs n sp (n + 4) s = Some (n, s2)"
    using ms s1(1) s2(1) by (simp add: prvWriteMessageToBuffer_def sbBYTES_TO_STORE_MESSAGE_LENGTH_def)
  then show "\<exists>s'. prvWriteMessageToBuffer x bs n sp (n + 4) s = Some (n, s') \<and> sb_idle x s' \<and>
      sb_bytes x s' = sb_bytes x s @ word_bytes n @ bs \<and> sb_frame x s s'"
    using f s2(2,3) s1(3) sb_idle_frame [OF i f] by simp
qed

theorem message_send:
  assumes i: "sb_idle x s" and ms: "is_message_buffer (streams s x)" and n: "n \<noteq> 0" "unat n + 4 < 2 ^ 32"
    and p: "p \<noteq> NULL"
  shows "unat n + 4 \<le> sb_free x s \<Longrightarrow> \<exists>s'. xStreamBufferSend x p n 0 s = Some (SbDone n, s') \<and> sb_idle x s' \<and>
        sb_bytes x s' = sb_bytes x s @ word_bytes n @ bytes p n (mem s) \<and> sb_frame x s s'"
    and "sb_free x s < unat n + 4 \<Longrightarrow> xStreamBufferSend x p n 0 s = Some (SbDone 0, s)"
proof -
  have r: "sb_required x n s = n + 4" using ms by (simp add: sb_required_def sbBYTES_TO_STORE_MESSAGE_LENGTH_def)
  obtain sp where sp: "unat (sp :: u32) = sb_free x s"
    using sb_free_less [of s x] i unat_of_nat_small unfolding sb_idle_def by blast
  have eq: "sp' = sp" if "unat sp' = sb_free x s" for sp'
    using word_unat_eq [OF that] word_unat_eq [OF sp] by simp
  note W = message_write [OF i ms n bytes_length sp, of p "mem s"]
  show "xStreamBufferSend x p n 0 s = Some (SbDone 0, s)" if "sb_free x s < unat n + 4"
  proof (rule send_write_idle [OF i _ i p])
    fix sp' :: u32 assume "unat sp' = sb_free x s"
    from eq [OF this] W(2) [OF that] r show "prvWriteMessageToBuffer x (bytes p n (mem s)) n sp' (sb_required x n s) s = Some (0, s)"
      by simp
  qed
  assume "unat n + 4 \<le> sb_free x s"
  from W(1) [OF this] obtain s' where s': "prvWriteMessageToBuffer x (bytes p n (mem s)) n sp (n + 4) s = Some (n, s')"
    "sb_idle x s'" "sb_bytes x s' = sb_bytes x s @ word_bytes n @ bytes p n (mem s)" "sb_frame x s s'" by blast
  have "xStreamBufferSend x p n 0 s = Some (SbDone n, s')"
  proof (rule send_write_idle [OF i _ s'(2) p])
    fix sp' :: u32 assume "unat sp' = sb_free x s"
    from eq [OF this] s'(1) r show "prvWriteMessageToBuffer x (bytes p n (mem s)) n sp' (sb_required x n s) s = Some (n, s')"
      by simp
  qed
  with s' show "\<exists>s'. xStreamBufferSend x p n 0 s = Some (SbDone n, s') \<and> sb_idle x s' \<and>
        sb_bytes x s' = sb_bytes x s @ word_bytes n @ bytes p n (mem s) \<and> sb_frame x s s'" by blast
qed

lemma message_read:
  assumes ok: "sb_ok (streams s x)" and c: "sb_bytes x s = word_bytes (of_nat (length m)) @ m @ rest"
    and a: "unat a = sb_count (streams s x)"
  shows "length m \<le> unat mx \<Longrightarrow> \<exists>s'. prvReadMessageFromBuffer x mx a 4 s = Some (of_nat (length m), m, s') \<and>
      sb_ok (streams s' x) \<and> sb_bytes x s' = rest \<and> sb_frame x s s' \<and> mem s' = mem s"
    and "unat mx < length m \<Longrightarrow> \<exists>s'. prvReadMessageFromBuffer x mx a 4 s = Some (0, [], s') \<and>
      streams s' x = streams s x \<and> sb_frame x s s' \<and> mem s' = mem s"
proof -
  have cnt: "sb_count (streams s x) = 4 + length m + length rest"
    using arg_cong [OF c, of length] by simp
  have small: "length m < 2 ^ 31" using cnt sb_count_less [OF ok] sb_okD(4) [OF ok] by simp
  then have ul: "unat (of_nat (length m) :: u32) = length m" by (intro unat_of_nat_small) simp
  have m4: "min a 4 = 4" using a cnt by (intro min_absorb2) (simp add: word_le_nat_alt)
  have b4: "bytes_word (word_bytes (of_nat (length m))) = of_nat (length m)"
    using bytes_word_bytes [of _ "[]"] by simp
  obtain s1 where s1: "prvReadBytesFromBuffer x 4 a s = Some (4, word_bytes (of_nat (length m)), s1)"
    "sb_ok (streams s1 x)" "sb_bytes x s1 = m @ rest" "sb_frame x s s1" "mem s1 = mem s"
    using read_bytes_spec [OF ok, of a 4] a c unfolding m4 by auto
  have a4: "unat (a - 4) = length m + length rest"
    using a cnt by (subst unat_sub) (simp_all add: word_le_nat_alt)
  show "\<exists>s'. prvReadMessageFromBuffer x mx a 4 s = Some (of_nat (length m), m, s') \<and>
      sb_ok (streams s' x) \<and> sb_bytes x s' = rest \<and> sb_frame x s s' \<and> mem s' = mem s" if le: "length m \<le> unat mx"
  proof -
    have mn: "min (a - 4) (of_nat (length m)) = of_nat (length m)" using a4 ul by (intro min_absorb2) (simp add: word_le_nat_alt)
    have "sb_count (streams s1 x) = length m + length rest" using arg_cong [OF s1(3), of length] by simp
    with read_bytes_spec [OF s1(2), of "a - 4" "of_nat (length m)"] a4
    obtain s2 where "prvReadBytesFromBuffer x (of_nat (length m)) (a - 4) s1 = Some (of_nat (length m), m, s2)"
      "sb_ok (streams s2 x)" "sb_bytes x s2 = rest" "sb_frame x s1 s2" "mem s2 = mem s1"
      unfolding mn ul s1(3) by auto
    moreover have "\<not> of_nat (length m) > mx" using le ul by (simp add: word_less_nat_alt)
    ultimately show ?thesis
      using s1 b4 sb_frame_trans [OF s1(4)] by (auto simp: prvReadMessageFromBuffer_def Let_def)
  qed
  show "\<exists>s'. prvReadMessageFromBuffer x mx a 4 s = Some (0, [], s') \<and>
      streams s' x = streams s x \<and> sb_frame x s s' \<and> mem s' = mem s" if gt: "unat mx < length m"
  proof -
    define s2 where "s2 = upd_stream x (xTail_update (\<lambda>_. xTail (streams s x))) s1"
    have "of_nat (length m) > mx" using gt ul by (simp add: word_less_nat_alt)
    then have "prvReadMessageFromBuffer x mx a 4 s = Some (0, [], s2)"
      using s1(1) b4 by (simp add: prvReadMessageFromBuffer_def prvReadBytesFromBuffer_def Let_def s2_def)
    moreover have "xHead (streams s1 x) = xHead (streams s x)"
      using s1(1) by (auto simp: prvReadBytesFromBuffer_def Let_def split: if_splits)
    then have "streams s2 x = streams s x"
      using s1(4) by (cases "streams s x"; cases "streams s1 x") (simp add: s2_def sb_frame_def)
    moreover have "sb_frame x s s2" "mem s2 = mem s" using s1(4,5) by (simp_all add: s2_def sb_frame_def)
    ultimately show ?thesis by blast
  qed
qed

theorem message_receive:
  assumes i: "sb_idle x s" and ms: "is_message_buffer (streams s x)" and p: "p \<noteq> NULL"
    and a: "sb_apart p (unat mx) (streams s x)" and c: "sb_bytes x s = word_bytes (of_nat (length m)) @ m @ rest" and m: "m \<noteq> []"
  shows "length m \<le> unat mx \<Longrightarrow> \<exists>s'. xStreamBufferReceive x p mx 0 s = Some (Some (of_nat (length m)), s') \<and> sb_idle x s' \<and>
      bytes p (of_nat (length m)) (mem s') = m \<and> sb_bytes x s' = rest \<and> sb_frame x s s'"
    and "unat mx < length m \<Longrightarrow> \<exists>s'. xStreamBufferReceive x p mx 0 s = Some (Some 0, s') \<and> sb_idle x s' \<and>
      sb_bytes x s' = sb_bytes x s \<and> sb_frame x s s' \<and> mem s' = mem s"
proof -
  let ?a = "prvBytesInBuffer (streams s x)"
  have ok: "sb_ok (streams s x)" and x: "x \<noteq> NULL" using i by (simp_all add: sb_idle_def)
  have ca: "unat ?a = sb_count (streams s x)" by (rule bytes_in_buffer [OF ok])
  have cnt: "sb_count (streams s x) = 4 + length m + length rest"
    using arg_cong [OF c, of length] by simp
  have h: "sb_header (streams s x) = 4" using ms by (simp add: sb_header_def sbBYTES_TO_STORE_MESSAGE_LENGTH_def)
  have a4: "4 < ?a" using ca cnt m by (simp add: word_less_nat_alt)
  have small: "length m < 2 ^ 31" using cnt sb_count_less [OF ok] sb_okD(4) [OF ok] by simp
  then have ul: "unat (of_nat (length m) :: u32) = length m" by (intro unat_of_nat_small) simp
  show "\<exists>s'. xStreamBufferReceive x p mx 0 s = Some (Some (of_nat (length m)), s') \<and> sb_idle x s' \<and>
      bytes p (of_nat (length m)) (mem s') = m \<and> sb_bytes x s' = rest \<and> sb_frame x s s'" if le: "length m \<le> unat mx"
  proof -
    obtain s1 where s1: "prvReadMessageFromBuffer x mx ?a 4 s = Some (of_nat (length m), m, s1)" "sb_ok (streams s1 x)"
      "sb_bytes x s1 = rest" "sb_frame x s s1" "mem s1 = mem s"
      using message_read(1) [OF ok c ca le] by blast
    define s2 where "s2 = s1\<lparr>mem := put_bytes p m (mem s1)\<rparr>"
    have a1: "sb_apart p (unat mx) (streams s1 x)" using a s1(4) by (simp add: sb_apart_def sb_frame_def)
    have c2: "sb_bytes x s2 = rest" using sb_content_put [OF s1(2) a1 le, of "mem s1"] s1(3) by (simp add: s2_def)
    have f: "sb_frame x s s2" using s1(4) by (simp add: s2_def sb_frame_def)
    have i2: "sb_idle x s2" using sb_idle_frame [OF i f] s1(2) by (simp add: s2_def)
    have b: "bytes p (of_nat (length m)) (mem s2) = m"
      unfolding s2_def using a le ul by (simp, subst bytes_put) (auto simp: sb_apart_def)
    have "sbRECEIVE_COMPLETED x s2 = Some s2" using i2 by (intro receive_completed_none) (simp_all add: sb_idle_def)
    moreover have "(of_nat (length m) :: u32) \<noteq> 0" using ul m by (metis length_0_conv unat_0)
    ultimately show ?thesis
      using a4 h x p s1(1) c2 f i2 b
      by (simp add: xStreamBufferReceive_def sb_receive_read_def s2_def [symmetric])
  qed
  show "\<exists>s'. xStreamBufferReceive x p mx 0 s = Some (Some 0, s') \<and> sb_idle x s' \<and>
      sb_bytes x s' = sb_bytes x s \<and> sb_frame x s s' \<and> mem s' = mem s" if gt: "unat mx < length m"
  proof -
    obtain s1 where s1: "prvReadMessageFromBuffer x mx ?a 4 s = Some (0, [], s1)" "streams s1 x = streams s x"
      "sb_frame x s s1" "mem s1 = mem s"
      using message_read(2) [OF ok c ca gt] by blast
    have "s1\<lparr>mem := put_bytes p [] (mem s1)\<rparr> = s1" by (simp add: put_bytes_def)
    then have "xStreamBufferReceive x p mx 0 s = Some (Some 0, s1)"
      using a4 h x p s1(1) by (simp add: xStreamBufferReceive_def sb_receive_read_def)
    then show ?thesis using s1 sb_idle_frame [OF i s1(3)] ok by auto
  qed
qed

subsection \<open>Waking the receiver\<close>

lemma yield_count: "portYIELD_WITHIN_API k = Some k' \<Longrightarrow> uxCurrentNumberOfTasks k' = uxCurrentNumberOfTasks k"
  by (auto simp: portYIELD_WITHIN_API_def vTaskSwitchContext_def taskSELECT_HIGHEST_PRIORITY_TASK_def
    split: if_splits bind_splits prod.splits)

lemma k_remove_count: "k_remove i k = Some k' \<Longrightarrow> uxCurrentNumberOfTasks k' = uxCurrentNumberOfTasks k"
  by (auto simp: k_remove_def split: bind_splits)

lemma notify_count:
  "xTaskGenericNotify p v a k = Some (r, n, k') \<Longrightarrow> uxCurrentNumberOfTasks k' = uxCurrentNumberOfTasks k"
  by (auto simp: xTaskGenericNotify_def Let_def split: if_splits bind_splits prod.splits dest!: yield_count k_remove_count)

text \<open>The task that waits for data is notified and forgotten; it is ready when the call returns.\<close>

theorem send_completed_wakes:
  assumes inv: "kinv Ls {} (kern s)" and q: "quiet (kern s)" and n: "uxCurrentNumberOfTasks (kern s) \<noteq> 0"
    and w: "xTaskWaitingToReceive (streams s x) = p" "p \<noteq> NULL"
    and b: "ucNotifyState (tcbs (kern s) p) = taskWAITING_NOTIFICATION"
    and c: "cont_of (kern s) (StateItem p) \<noteq> None" "cont_of (kern s) (EventItem p) = None"
  shows "\<exists>s'. sbSEND_COMPLETED x s = Some s' \<and> kinv Ls {} (kern s') \<and> xTaskWaitingToReceive (streams s' x) = NULL \<and>
     cont_of (kern s') (StateItem p) = Some (ReadyL (unat (prio (kern s) p))) \<and>
     tcbs (kern s') = (tcbs (kern s))(p := (tcbs (kern s) p)\<lparr>ucNotifyState := taskNOTIFICATION_RECEIVED\<rparr>) \<and>
     mem s' = mem s \<and> streams s' = (streams s)(x := (streams s x)\<lparr>xTaskWaitingToReceive := NULL\<rparr>)"
proof -
  let ?k = "vTaskSuspendAll (kern s)"
  have f: "ls ?k = ls (kern s)" "tcbs ?k = tcbs (kern s)" "xTickCount ?k = xTickCount (kern s)"
    "uxSchedulerSuspended ?k = 1" "uxCurrentNumberOfTasks ?k = uxCurrentNumberOfTasks (kern s)"
    using q by (simp_all add: vTaskSuspendAll_def quiet_def)
  have i: "kinv Ls {} ?k" by (rule kinv_fields [where k = "kern s"]) (use inv in \<open>simp_all add: vTaskSuspendAll_def\<close>)
  obtain k1 where k1: "xTaskGenericNotify p 0 eNoAction ?k = Some (True, ulNotifiedValue (tcbs (kern s) p), k1)"
    "kinv Ls {} k1" "tcbs k1 = (tcbs (kern s))(p := notified eNoAction 0 (tcbs (kern s) p))" "uxSchedulerSuspended k1 = 1"
    "cont_of k1 = (cont_of (kern s))(StateItem p := Some (ReadyL (unat (prio (kern s) p))))"
    using notify_spec [OF i w(2), of 0 eNoAction] c b f by (auto simp: notify_value_def)
  have n1: "uxCurrentNumberOfTasks k1 \<noteq> 0" using notify_count [OF k1(1)] n f by simp
  have r1: "some_ready k1" using some_ready_iff [OF k1(2)] k1(5) by auto
  obtain y k2 where k2: "xTaskResumeAll k1 = Some (y, k2)" "kinv Ls {} k2" "tcbs k2 = tcbs k1"
    "\<And>i n. cont_of k1 i = Some (ReadyL n) \<Longrightarrow> cont_of k2 i = Some (ReadyL n)"
    using xTaskResumeAll_spec [OF k1(2,4) n1 r1] by blast
  have "notified eNoAction 0 (tcbs (kern s) p) = (tcbs (kern s) p)\<lparr>ucNotifyState := taskNOTIFICATION_RECEIVED\<rparr>"
    by (cases "tcbs (kern s) p") (simp add: notified_def notify_value_def)
  then show ?thesis
    using w k1(1,3,5) k2 by (simp add: sbSEND_COMPLETED_def on_kern_r_def)
qed

subsection \<open>A trigger level that cannot be reached\<close>

text \<open>A buffer created for \<open>n\<close> bytes has \<open>xLength = n + 1\<close> and accepts \<open>n + 1\<close> as its trigger level, which
  the count of bytes never reaches.\<close>

theorem trigger_level_too_high:
  assumes "x \<noteq> NULL" and ok: "sb_ok (streams s x)"
  shows "\<exists>s'. xStreamBufferSetTriggerLevel x (xLength (streams s x)) s = Some (True, s') \<and>
     (\<forall>B. sb_ok B \<and> xLength B = xLength (streams s x) \<longrightarrow> prvBytesInBuffer B < xTriggerLevelBytes (streams s' x))"
proof -
  have "prvBytesInBuffer B < xLength (streams s x)" if "sb_ok B" "xLength B = xLength (streams s x)" for B
    using bytes_in_buffer [OF that(1)] sb_count_less [OF that(1)] that(2) by (simp add: word_less_nat_alt)
  moreover have "xLength (streams s x) \<noteq> 0" using sb_okD(1) [OF ok] by auto
  ultimately show ?thesis using assms(1) by (simp add: xStreamBufferSetTriggerLevel_def)
qed

subsection \<open>Creation\<close>

lemma new_stream_ok:
  assumes "2 \<le> unat n" and "unat n < 2 ^ 31"
  shows "sb_ok (streams (prvInitialiseNewStreamBuffer x b n t m s) x)"
    and "sb_bytes x (prvInitialiseNewStreamBuffer x b n t m s) = []"
    and "is_message_buffer (streams (prvInitialiseNewStreamBuffer x b n t m s) x) = m"
proof -
  have n: "0 < n" using assms(1) by (auto simp: word_neq_0_conv [symmetric])
  then show "sb_ok (streams (prvInitialiseNewStreamBuffer x b n t m s) x)"
    using assms by (simp add: sb_ok_def prvInitialiseNewStreamBuffer_def)
  show "sb_bytes x (prvInitialiseNewStreamBuffer x b n t m s) = []"
    by (simp add: sb_content_def sb_count_def prvInitialiseNewStreamBuffer_def)
  show "is_message_buffer (streams (prvInitialiseNewStreamBuffer x b n t m s) x) = m"
    by (simp add: is_message_buffer_def prvInitialiseNewStreamBuffer_def sbFLAGS_IS_MESSAGE_BUFFER_def)
qed

theorem create_stream:
  assumes q: "quiet (kern s)" and hv: "heap_valid (heap (kern s))" and n: "4 < unat n" "unat n < 2 ^ 30" and t: "t \<le> n"
  shows "\<exists>p s'. xStreamBufferGenericCreate n t m s = Some (p, s') \<and> heap_valid (heap (kern s')) \<and> quiet (kern s') \<and>
     (p \<noteq> NULL \<longrightarrow> sb_idle p s' \<and> sb_bytes p s' = [] \<and> is_message_buffer (streams s' p) = m \<and>
        sb_room (streams s' p) = unat n)"
proof -
  have l: "n > sbBYTES_TO_STORE_MESSAGE_LENGTH" using n by (simp add: sbBYTES_TO_STORE_MESSAGE_LENGTH_def word_less_nat_alt)
  have n1: "unat (n + 1) = unat n + 1" using n by (subst unat_add_small) simp_all
  obtain p h' where m': "heap_malloc (n + 1 + sizeof_StreamBuffer_t) (heap (kern s)) = Some (p, h')" "heap_valid h'"
    using heap4.alloc_spec [OF hv] by blast
  let ?s = "s\<lparr>kern := (kern s)\<lparr>heap := h'\<rparr>\<rparr>"
  have pm: "on_kern_r (pvPortMalloc (n + 1 + sizeof_StreamBuffer_t)) s = Some (p, ?s)"
    using pvPortMalloc_quiet [OF q m'(1)] by (simp add: on_kern_r_def)
  have q': "quiet ((kern s)\<lparr>heap := h'\<rparr>)" using q by (simp add: quiet_def settled_def)
  define s' where "s' = (if p = NULL then ?s else prvInitialiseNewStreamBuffer p (p + sizeof_StreamBuffer_t) (n + 1) (if t = 0 then 1 else t) m ?s)"
  have k': "kern s' = (kern s)\<lparr>heap := h'\<rparr>" by (simp add: s'_def prvInitialiseNewStreamBuffer_def)
  have "xStreamBufferGenericCreate n t m s = Some (p, s')"
    using l t pm by (simp add: xStreamBufferGenericCreate_def s'_def Let_def)
  moreover have "sb_idle p s' \<and> sb_bytes p s' = [] \<and> is_message_buffer (streams s' p) = m \<and> sb_room (streams s' p) = unat n"
    if "p \<noteq> NULL"
  proof -
    have "s' = prvInitialiseNewStreamBuffer p (p + sizeof_StreamBuffer_t) (n + 1) (if t = 0 then 1 else t) m ?s"
      using that by (simp add: s'_def)
    with new_stream_ok [of "n + 1" p "p + sizeof_StreamBuffer_t" "if t = 0 then 1 else t" m ?s] n n1 that q' k'
    show ?thesis by (simp add: sb_idle_def sb_room_def prvInitialiseNewStreamBuffer_def)
  qed
  ultimately show ?thesis using m'(2) q' k' by auto
qed

end
