(* ===== verification/StreamChannel.thy ===== *)
theory StreamChannel
  imports StreamApi
begin

section \<open>The contract of a channel\<close>

text \<open>
  What the two ends of a stream or message buffer rely on: a send puts what it accepts behind what
  is already there, a receive takes what it delivers from the front, and neither fails.  From this
  alone: nothing is lost, invented or reordered, whatever the sequence of calls.
\<close>

datatype ('d, 'r) channel_call = Put 'd | Fetch 'r

locale channel =
  fixes put_in :: "'d \<Rightarrow> 's \<Rightarrow> ('i list \<times> 's) option" and take_out :: "'r \<Rightarrow> 's \<Rightarrow> ('i list \<times> 's) option"
    and content :: "'s \<Rightarrow> 'i list \<Rightarrow> bool" and can_put :: "'d \<Rightarrow> 's \<Rightarrow> bool" and can_take :: "'r \<Rightarrow> 's \<Rightarrow> bool"
  assumes put_law: "content s xs \<Longrightarrow> can_put d s \<Longrightarrow>
      \<exists>a s'. put_in d s = Some (a, s') \<and> content s' (xs @ a) \<and> can_put d' s' = can_put d' s \<and> can_take r' s' = can_take r' s"
    and take_law: "content s xs \<Longrightarrow> can_take r s \<Longrightarrow>
      \<exists>g s' ys. take_out r s = Some (g, s') \<and> content s' ys \<and> xs = g @ ys \<and>
        can_put d' s' = can_put d' s \<and> can_take r' s' = can_take r' s"
begin

primrec can :: "('d, 'r) channel_call \<Rightarrow> 's \<Rightarrow> bool" where
  "can (Put d) s = can_put d s"
| "can (Fetch r) s = can_take r s"

text \<open>The result: all that was accepted, and all that was delivered.\<close>

primrec run :: "('d, 'r) channel_call list \<Rightarrow> 's \<Rightarrow> ('i list \<times> 'i list \<times> 's) option" where
  "run [] s = Some ([], [], s)"
| "run (c # cs) s =
     do {
       (a, g, s) \<leftarrow> (case c of Put d \<Rightarrow> do { (a, s) \<leftarrow> put_in d s; Some (a, [], s) }
                             | Fetch r \<Rightarrow> do { (g, s) \<leftarrow> take_out r s; Some ([], g, s) });
       (as, gs, s) \<leftarrow> run cs s;
       Some (a @ as, g @ gs, s)
     }"

lemma can_stable:
  assumes "\<And>d. can_put d s' = can_put d s" and "\<And>r. can_take r s' = can_take r s"
  shows "can c s' = can c s"
  using assms by (cases c) simp_all

theorem run_fifo:
  assumes "content s xs" and "\<forall>c \<in> set cs. can c s"
  shows "\<exists>as gs s' ys. run cs s = Some (as, gs, s') \<and> content s' ys \<and> gs @ ys = xs @ as"
  using assms
proof (induction cs arbitrary: s xs)
  case (Cons c cs)
  show ?case
  proof (cases c)
    case (Put d)
    with Cons.prems have d: "can_put d s" by simp
    obtain a s1 where s1: "put_in d s = Some (a, s1)" "content s1 (xs @ a)"
      "\<And>d'. can_put d' s1 = can_put d' s" "\<And>r'. can_take r' s1 = can_take r' s"
      using put_law [OF Cons.prems(1) d] by (metis option.inject prod.inject)
    have "\<forall>c \<in> set cs. can c s1" using Cons.prems(2) can_stable [OF s1(3,4)] by simp
    from Cons.IH [OF s1(2) this] s1(1) Put show ?thesis by fastforce
  next
    case (Fetch r)
    with Cons.prems have r: "can_take r s" by simp
    obtain g s1 where s1: "take_out r s = Some (g, s1)" "\<exists>ys. content s1 ys \<and> xs = g @ ys"
      "\<And>d'. can_put d' s1 = can_put d' s" "\<And>r'. can_take r' s1 = can_take r' s"
      using take_law [OF Cons.prems(1) r] by (metis option.inject prod.inject)
    then obtain ys where ys: "content s1 ys" "xs = g @ ys" by blast
    have "\<forall>c \<in> set cs. can c s1" using Cons.prems(2) can_stable [OF s1(3,4)] by simp
    from Cons.IH [OF ys(1) this] s1(1) Fetch ys(2) show ?thesis by fastforce
  qed
qed simp

text \<open>What every call keeps, a sequence of calls keeps.\<close>

lemma run_keeps:
  assumes "content s xs" and "\<forall>c \<in> set cs. can c s" and "run cs s = Some (as, gs, s')" and "P s"
    and put: "\<And>s xs d a s'. content s xs \<Longrightarrow> can_put d s \<Longrightarrow> put_in d s = Some (a, s') \<Longrightarrow> P s \<Longrightarrow> P s'"
    and fetch: "\<And>s xs r g s'. content s xs \<Longrightarrow> can_take r s \<Longrightarrow> take_out r s = Some (g, s') \<Longrightarrow> P s \<Longrightarrow> P s'"
  shows "P s'"
  using assms(1-4)
proof (induction cs arbitrary: s xs as gs)
  case (Cons c cs)
  show ?case
  proof (cases c)
    case (Put d)
    with Cons.prems have d: "can_put d s" by simp
    obtain a s1 where s1: "put_in d s = Some (a, s1)" "content s1 (xs @ a)"
      "\<And>d'. can_put d' s1 = can_put d' s" "\<And>r'. can_take r' s1 = can_take r' s"
      using put_law [OF Cons.prems(1) d] by (metis option.inject prod.inject)
    have "\<forall>c \<in> set cs. can c s1" using Cons.prems(2) can_stable [OF s1(3,4)] by simp
    moreover obtain as' gs' where "run cs s1 = Some (as', gs', s')"
      using Cons.prems(3) s1(1) Put by (auto simp: bind_eq_Some_conv)
    ultimately show ?thesis using Cons.IH [OF s1(2)] put [OF Cons.prems(1) d s1(1) Cons.prems(4)] by blast
  next
    case (Fetch r)
    with Cons.prems have r: "can_take r s" by simp
    obtain g s1 ys where s1: "take_out r s = Some (g, s1)" "content s1 ys"
      "\<And>d'. can_put d' s1 = can_put d' s" "\<And>r'. can_take r' s1 = can_take r' s"
      using take_law [OF Cons.prems(1) r] by (metis option.inject prod.inject)
    have "\<forall>c \<in> set cs. can c s1" using Cons.prems(2) can_stable [OF s1(3,4)] by simp
    moreover obtain as' gs' where "run cs s1 = Some (as', gs', s')"
      using Cons.prems(3) s1(1) Fetch by (auto simp: bind_eq_Some_conv)
    ultimately show ?thesis using Cons.IH [OF s1(2)] fetch [OF Cons.prems(1) r s1(1) Cons.prems(4)] by blast
  qed
qed simp

end

subsection \<open>Stream buffers are channels of bytes\<close>

type_synonym sb_data = "ptr \<times> u32"

definition stream_put :: "ptr \<Rightarrow> sb_data \<Rightarrow> sys \<Rightarrow> (u8 list \<times> sys) option" where
  "stream_put x d s =
     do {
       (r, s') \<leftarrow> xStreamBufferSend x (fst d) (snd d) 0 s;
       Some (case r of SbDone k \<Rightarrow> take (unat k) (bytes (fst d) (snd d) (mem s)) | SbAgain w t sp \<Rightarrow> [], s')
     }"

definition stream_take :: "ptr \<Rightarrow> sb_data \<Rightarrow> sys \<Rightarrow> (u8 list \<times> sys) option" where
  "stream_take x d s =
     do {
       (r, s') \<leftarrow> xStreamBufferReceive x (fst d) (snd d) 0 s;
       Some (case r of Some k \<Rightarrow> bytes (fst d) k (mem s') | None \<Rightarrow> [], s')
     }"

definition stream_content :: "ptr \<Rightarrow> sys \<Rightarrow> u8 list \<Rightarrow> bool" where
  "stream_content x s xs \<longleftrightarrow> sb_idle x s \<and> \<not> is_message_buffer (streams s x) \<and> sb_bytes x s = xs"

text \<open>
  What the calls rely on: addresses, and something to send.  A send of nothing fails an assertion (\<open>stream_send_nothing\<close>);
  the length of a message is stored in four bytes before it, and must not wrap around with them.
\<close>

definition can_send :: "ptr \<Rightarrow> sb_data \<Rightarrow> sys \<Rightarrow> bool" where
  "can_send x d s \<longleftrightarrow> fst d \<noteq> NULL \<and> snd d \<noteq> 0"

definition can_give :: "ptr \<Rightarrow> sb_data \<Rightarrow> sys \<Rightarrow> bool" where
  "can_give x d s \<longleftrightarrow> fst d \<noteq> NULL \<and> snd d \<noteq> 0 \<and> unat (snd d) + 4 < 2 ^ 32"

definition can_accept :: "ptr \<Rightarrow> sb_data \<Rightarrow> sys \<Rightarrow> bool" where
  "can_accept x d s \<longleftrightarrow> fst d \<noteq> NULL \<and> sb_apart (fst d) (unat (snd d)) (streams s x)"

lemma can_frame:
  assumes "sb_frame x s s'"
  shows "can_give x d s' = can_give x d s" and "can_accept x d s' = can_accept x d s"
    and "is_message_buffer (streams s' x) = is_message_buffer (streams s x)" and "can_send x d s' = can_send x d s"
  using assms by (simp_all add: can_give_def can_send_def can_accept_def sb_apart_def is_message_buffer_def sb_frame_def)

interpretation stream: channel "stream_put x" "stream_take x" "stream_content x" "can_send x" "can_accept x" for x
proof unfold_locales
  fix s xs d d' r'
  assume c: "stream_content x s xs" and d: "can_send x d s"
  define k where "k = min (unat (snd d)) (sb_free x s)"
  have i: "sb_idle x s" "\<not> is_message_buffer (streams s x)" using c by (simp_all add: stream_content_def)
  have n: "snd d \<noteq> 0" "fst d \<noteq> NULL" using d by (simp_all add: can_send_def)
  obtain s' where s': "xStreamBufferSend x (fst d) (snd d) 0 s = Some (SbDone (of_nat k), s')" "sb_idle x s'"
    "sb_bytes x s' = sb_bytes x s @ take k (bytes (fst d) (snd d) (mem s))" "sb_frame x s s'"
    using stream_send [OF i n] unfolding k_def by blast
  have "unat (of_nat k :: u32) = k" unfolding k_def using unat_u32 [of "snd d"] by (intro unat_of_nat_small) simp
  then show "\<exists>a s'. stream_put x d s = Some (a, s') \<and> stream_content x s' (xs @ a) \<and>
      can_send x d' s' = can_send x d' s \<and> can_accept x r' s' = can_accept x r' s"
    using s' c can_frame [OF s'(4)] by (simp add: stream_put_def stream_content_def)
next
  fix s xs r d' r'
  assume c: "stream_content x s xs" and r: "can_accept x r s"
  define k where "k = min (sb_count (streams s x)) (unat (snd r))"
  have i: "sb_idle x s" "\<not> is_message_buffer (streams s x)" using c by (simp_all add: stream_content_def)
  have p: "fst r \<noteq> NULL" "sb_apart (fst r) (unat (snd r)) (streams s x)" using r by (simp_all add: can_accept_def)
  obtain s' where s': "xStreamBufferReceive x (fst r) (snd r) 0 s = Some (Some (of_nat k), s')" "sb_idle x s'"
    "bytes (fst r) (of_nat k) (mem s') = take k (sb_bytes x s)" "sb_bytes x s' = drop k (sb_bytes x s)" "sb_frame x s s'"
    using stream_receive [OF i p] unfolding k_def by blast
  show "\<exists>g s' ys. stream_take x r s = Some (g, s') \<and> stream_content x s' ys \<and> xs = g @ ys \<and>
      can_send x d' s' = can_send x d' s \<and> can_accept x r' s' = can_accept x r' s"
    using s' c can_frame [OF s'(5)] by (simp add: stream_take_def stream_content_def)
qed

text \<open>The ring keeps its place and its size under any calls.\<close>

lemma stream_step_frame:
  assumes "stream_content x s xs"
  shows "can_send x d s \<Longrightarrow> stream_put x d s = Some (a, s') \<Longrightarrow> sb_frame x s s'"
    and "can_accept x r s \<Longrightarrow> stream_take x r s = Some (g, s') \<Longrightarrow> sb_frame x s s'"
proof -
  have i: "sb_idle x s" "\<not> is_message_buffer (streams s x)" using assms by (simp_all add: stream_content_def)
  show "sb_frame x s s'" if "can_send x d s" "stream_put x d s = Some (a, s')"
    using stream_send [OF i, of "snd d" "fst d"] that by (auto simp: stream_put_def can_send_def)
  show "sb_frame x s s'" if "can_accept x r s" "stream_take x r s = Some (g, s')"
    using stream_receive [OF i, of "fst r" "snd r"] that by (auto simp: stream_take_def can_accept_def)
qed

text \<open>After any sequence of calls: nothing lost, and what the next call does, whatever it is.\<close>

theorem stream_calls:
  assumes i: "sb_idle x s" and st: "\<not> is_message_buffer (streams s x)" and c: "\<forall>c \<in> set cs. stream.can x c s"
    and p: "p \<noteq> NULL" and q: "q \<noteq> NULL" "sb_apart q (unat m) (streams s x)"
  obtains as gs s' where "stream.run x cs s = Some (as, gs, s')" and "sb_idle x s'"
    and "gs @ sb_bytes x s' = sb_bytes x s @ as" and "sb_room (streams s' x) = sb_room (streams s x)"
    and "sb_count (streams s' x) \<le> sb_room (streams s x)"
    and "\<And>n. n \<noteq> 0 \<Longrightarrow> \<exists>s''. xStreamBufferSend x p n 0 s' = Some (SbDone (of_nat (min (unat n) (sb_free x s'))), s'') \<and>
       sb_bytes x s'' = sb_bytes x s' @ take (min (unat n) (sb_free x s')) (bytes p n (mem s'))"
    and "xStreamBufferSend x p 0 0 s' = (if sb_free x s' = 0 then Some (SbDone 0, s') else None)"
    and "\<exists>s''. xStreamBufferReceive x q m 0 s' = Some (Some (of_nat (min (sb_count (streams s' x)) (unat m))), s'') \<and>
       bytes q (of_nat (min (sb_count (streams s' x)) (unat m))) (mem s'') =
         take (min (sb_count (streams s' x)) (unat m)) (sb_bytes x s') \<and>
       sb_bytes x s'' = drop (min (sb_count (streams s' x)) (unat m)) (sb_bytes x s')"
proof -
  have c0: "stream_content x s (sb_bytes x s)" using i st by (simp add: stream_content_def)
  from stream.run_fifo [OF c0 c] obtain as gs s' ys where run: "stream.run x cs s = Some (as, gs, s')"
    and c': "stream_content x s' ys" "gs @ ys = sb_bytes x s @ as" by blast
  have f: "sb_frame x s s'"
    by (rule stream.run_keeps [OF c0 c run, where P = "sb_frame x s"]) (auto dest: stream_step_frame intro: sb_frame_trans)
  have i': "sb_idle x s'" "\<not> is_message_buffer (streams s' x)" "ys = sb_bytes x s'"
    using c' by (simp_all add: stream_content_def)
  have r: "sb_room (streams s' x) = sb_room (streams s x)" using f by (simp add: sb_frame_def sb_room_def)
  have a: "sb_apart q (unat m) (streams s' x)" using f q(2) by (simp add: sb_apart_def sb_frame_def)
  have le: "sb_count (streams s' x) \<le> sb_room (streams s x)"
    using sb_count_le [of "streams s' x"] i'(1) r by (simp add: sb_idle_def)
  show ?thesis
    using that [OF run i'(1) _ r le _ stream_send_nothing [OF i'(1,2) p]] c'(2) i'(3)
      stream_send [OF i'(1,2) _ p] stream_receive [OF i'(1,2) q(1) a] by blast
qed

subsection \<open>Message buffers are channels of messages\<close>

definition frames :: "u8 list list \<Rightarrow> u8 list" where
  "frames ms = concat (map (\<lambda>m. word_bytes (of_nat (length m)) @ m) ms)"

lemma frames_simps [simp]:
  "frames [] = []" "frames (m # ms) = word_bytes (of_nat (length m)) @ m @ frames ms"
  "frames (ms @ ms') = frames ms @ frames ms'"
  by (simp_all add: frames_def)

definition message_put :: "ptr \<Rightarrow> sb_data \<Rightarrow> sys \<Rightarrow> (u8 list list \<times> sys) option" where
  "message_put x d s =
     do {
       (r, s') \<leftarrow> xStreamBufferSend x (fst d) (snd d) 0 s;
       Some (if r = SbDone 0 then [] else [bytes (fst d) (snd d) (mem s)], s')
     }"

definition message_take :: "ptr \<Rightarrow> sb_data \<Rightarrow> sys \<Rightarrow> (u8 list list \<times> sys) option" where
  "message_take x d s =
     do {
       (r, s') \<leftarrow> xStreamBufferReceive x (fst d) (snd d) 0 s;
       Some (case r of Some k \<Rightarrow> if k = 0 then [] else [bytes (fst d) k (mem s')] | None \<Rightarrow> [], s')
     }"

definition message_content :: "ptr \<Rightarrow> sys \<Rightarrow> u8 list list \<Rightarrow> bool" where
  "message_content x s ms \<longleftrightarrow> sb_idle x s \<and> is_message_buffer (streams s x) \<and> sb_bytes x s = frames ms \<and> [] \<notin> set ms"

lemma receive_empty:
  assumes i: "sb_idle x s" and e: "sb_bytes x s = []" and p: "p \<noteq> NULL"
  shows "xStreamBufferReceive x p mx 0 s = Some (Some 0, s)"
proof -
  have "unat (prvBytesInBuffer (streams s x)) = 0"
    using bytes_in_buffer [of "streams s x"] i arg_cong [OF e, of length] by (simp add: sb_idle_def)
  then have "prvBytesInBuffer (streams s x) = 0" using word_unat_eq [of "prvBytesInBuffer (streams s x)" 0] by simp
  then show ?thesis using i p by (simp add: xStreamBufferReceive_def sb_receive_read_def sb_idle_def)
qed

interpretation message: channel "message_put x" "message_take x" "message_content x" "can_give x" "can_accept x" for x
proof unfold_locales
  fix s ms d d' r'
  assume c: "message_content x s ms" and d: "can_give x d s"
  have i: "sb_idle x s" "is_message_buffer (streams s x)" using c by (simp_all add: message_content_def)
  have n: "snd d \<noteq> 0" "unat (snd d) + 4 < 2 ^ 32" "fst d \<noteq> NULL" using d by (simp_all add: can_give_def)
  show "\<exists>a s'. message_put x d s = Some (a, s') \<and> message_content x s' (ms @ a) \<and>
      can_give x d' s' = can_give x d' s \<and> can_accept x r' s' = can_accept x r' s"
  proof (cases "unat (snd d) + 4 \<le> sb_free x s")
    case True
    from message_send(1) [OF i n True] obtain s' where s': "xStreamBufferSend x (fst d) (snd d) 0 s = Some (SbDone (snd d), s')"
      "sb_idle x s'" "sb_bytes x s' = sb_bytes x s @ word_bytes (snd d) @ bytes (fst d) (snd d) (mem s)" "sb_frame x s s'" by blast
    have "bytes (fst d) (snd d) (mem s) \<noteq> []"
      using n(1) bytes_length [of "fst d" "snd d" "mem s"] by (metis list.size(3) unat_eq_zero)
    then show ?thesis
      using s' c n(1) can_frame [OF s'(4)] by (auto simp: message_put_def message_content_def)
  next
    case False
    then show ?thesis using message_send(2) [OF i n] c by (simp add: message_put_def)
  qed
next
  fix s ms r d' r'
  assume c: "message_content x s ms" and r: "can_accept x r s"
  have i: "sb_idle x s" "is_message_buffer (streams s x)" using c by (simp_all add: message_content_def)
  have p: "fst r \<noteq> NULL" "sb_apart (fst r) (unat (snd r)) (streams s x)" using r by (simp_all add: can_accept_def)
  show "\<exists>g s' ys. message_take x r s = Some (g, s') \<and> message_content x s' ys \<and> ms = g @ ys \<and>
      can_give x d' s' = can_give x d' s \<and> can_accept x r' s' = can_accept x r' s"
  proof (cases ms)
    case Nil
    then show ?thesis using receive_empty [OF i(1) _ p(1), of "snd r"] c by (simp add: message_take_def message_content_def)
  next
    case (Cons m rest)
    have b: "sb_bytes x s = word_bytes (of_nat (length m)) @ m @ frames rest" and m: "m \<noteq> []"
      using c Cons by (auto simp: message_content_def)
    show ?thesis
    proof (cases "length m \<le> unat (snd r)")
      case True
      from message_receive(1) [OF i p b m True] obtain s' where
        s': "xStreamBufferReceive x (fst r) (snd r) 0 s = Some (Some (of_nat (length m)), s')" "sb_idle x s'"
        "bytes (fst r) (of_nat (length m)) (mem s') = m" "sb_bytes x s' = frames rest" "sb_frame x s s'" by blast
      have "(of_nat (length m) :: u32) \<noteq> 0" using s'(3) m by (auto simp: bytes_def)
      then show ?thesis
        using s' c Cons can_frame [OF s'(5)] by (simp add: message_take_def message_content_def)
    next
      case False
      with message_receive(2) [OF i p b m] obtain s' where
        s': "xStreamBufferReceive x (fst r) (snd r) 0 s = Some (Some 0, s')" "sb_idle x s'"
        "sb_bytes x s' = sb_bytes x s" "sb_frame x s s'" by (auto simp: not_le)
      then show ?thesis
        using c can_frame [OF s'(4)] by (simp add: message_take_def message_content_def)
    qed
  qed
qed

end
