(* ===== verification/EventGroup.thy ===== *)
theory EventGroup
  imports Queue
begin

section \<open>Event groups (FreeRtos/event_groups.c)\<close>

text \<open>
  The bits that a task waits for, with two control bits, are the value of its event item in the
  list \<open>EventBitsL\<close> of the group; the setter puts the bits of the group and a third control bit in
  their place.  A call that blocks ends its step with \<open>EgBlocked\<close>; what it does when the task runs
  again is a step of its own (\<open>event_sync_woken\<close>, \<open>event_wait_woken\<close>).
\<close>

definition eventCLEAR_EVENTS_ON_EXIT_BIT :: u32 where "eventCLEAR_EVENTS_ON_EXIT_BIT = 0x01000000"
definition eventUNBLOCKED_DUE_TO_BIT_SET :: u32 where "eventUNBLOCKED_DUE_TO_BIT_SET = 0x02000000"
definition eventWAIT_FOR_ALL_BITS :: u32 where "eventWAIT_FOR_ALL_BITS = 0x04000000"
definition eventEVENT_BITS_CONTROL_BYTES :: u32 where "eventEVENT_BITS_CONTROL_BYTES = 0xff000000"
definition sizeof_EventGroup_t :: u32 where "sizeof_EventGroup_t = 24"

datatype event_outcome = EgReturn u32 | EgBlocked

definition upd_group :: "ptr \<Rightarrow> (u32 \<Rightarrow> u32) \<Rightarrow> sys \<Rightarrow> sys" where
  "upd_group x f s = s\<lparr>groups := (groups s)(x := uxEventBits_update f (groups s x))\<rparr>"

abbreviation event_bits :: "ptr \<Rightarrow> sys \<Rightarrow> u32" where
  "event_bits x s \<equiv> uxEventBits (groups s x)"

definition xEventGroupCreate :: "sys \<Rightarrow> (ptr \<times> sys) option" where
  "xEventGroupCreate s =
     do {
       (p, s) \<leftarrow> on_kern_r (pvPortMalloc sizeof_EventGroup_t) s;
       Some (p, if p \<noteq> NULL
                then (let s = upd_group p (\<lambda>_. 0) s in s\<lparr>kern := (kern s)\<lparr>ls := l_initialise (EventBitsL p) (ls (kern s))\<rparr>\<rparr>)
                else s)
     }"

definition prvTestWaitCondition :: "u32 \<Rightarrow> u32 \<Rightarrow> bool \<Rightarrow> bool" where
  "prvTestWaitCondition uxCurrentEventBits uxBitsToWaitFor xWaitForAllBits =
     (if \<not> xWaitForAllBits then uxCurrentEventBits AND uxBitsToWaitFor \<noteq> 0
      else uxCurrentEventBits AND uxBitsToWaitFor = uxBitsToWaitFor)"

subsection \<open>Setting bits\<close>

text \<open>The condition in the value of a waiting task's item, against the bits of the group.\<close>

definition event_match :: "u32 \<Rightarrow> u32 \<Rightarrow> bool" where
  "event_match v uxBits =
     (let uxControlBits = v AND eventEVENT_BITS_CONTROL_BYTES;
          uxBitsWaitedFor = v AND NOT eventEVENT_BITS_CONTROL_BYTES
      in if uxControlBits AND eventWAIT_FOR_ALL_BITS = 0 then uxBitsWaitedFor AND uxBits \<noteq> 0
         else uxBitsWaitedFor AND uxBits = uxBitsWaitedFor)"

text \<open>The loop over the waiting tasks, with the bits to clear as its accumulator.  \<open>pxNext\<close> is read before
  an item is removed and no other item moves, so the loop visits the items that are in the list
  at the start.\<close>

primrec set_bits_loop :: "ptr \<Rightarrow> item_id list \<Rightarrow> u32 \<Rightarrow> sys \<Rightarrow> (u32 \<times> sys) option" where
  "set_bits_loop x [] uxBitsToClear s = Some (uxBitsToClear, s)"
| "set_bits_loop x (i # is) uxBitsToClear s =
     do {
       let v = val_of (kern s) i;
       (uxBitsToClear, s) \<leftarrow>
         (if event_match v (event_bits x s) then
            do {
              let c = (if v AND eventEVENT_BITS_CONTROL_BYTES AND eventCLEAR_EVENTS_ON_EXIT_BIT \<noteq> 0
                       then uxBitsToClear OR (v AND NOT eventEVENT_BITS_CONTROL_BYTES) else uxBitsToClear);
              s \<leftarrow> on_kern (vTaskRemoveFromUnorderedEventList i (event_bits x s OR eventUNBLOCKED_DUE_TO_BIT_SET)) s;
              Some (c, s)
            }
          else Some (uxBitsToClear, s));
       set_bits_loop x is uxBitsToClear s
     }"

definition xEventGroupSetBits :: "ptr \<Rightarrow> u32 \<Rightarrow> sys \<Rightarrow> (u32 \<times> sys) option" where
  "xEventGroupSetBits x uxBitsToSet s =
     do {
       configASSERT (x \<noteq> NULL);
       configASSERT (uxBitsToSet AND eventEVENT_BITS_CONTROL_BYTES = 0);
       let s = s\<lparr>kern := vTaskSuspendAll (kern s)\<rparr>;
       let s = upd_group x (\<lambda>b. b OR uxBitsToSet) s;
       (uxBitsToClear, s) \<leftarrow> set_bits_loop x (items (kern s) (EventBitsL x)) 0 s;
       let s = upd_group x (\<lambda>b. b AND NOT uxBitsToClear) s;
       (y, s) \<leftarrow> on_kern_r xTaskResumeAll s;
       Some (event_bits x s, s)
     }"

definition xEventGroupClearBits :: "ptr \<Rightarrow> u32 \<Rightarrow> sys \<Rightarrow> (u32 \<times> sys) option" where
  "xEventGroupClearBits x uxBitsToClear s =
     do {
       configASSERT (x \<noteq> NULL);
       configASSERT (uxBitsToClear AND eventEVENT_BITS_CONTROL_BYTES = 0);
       let uxReturn = event_bits x s;
       Some (uxReturn, upd_group x (\<lambda>b. b AND NOT uxBitsToClear) s)
     }"

definition xEventGroupGetBitsFromISR :: "ptr \<Rightarrow> sys \<Rightarrow> u32" where
  "xEventGroupGetBitsFromISR x s = event_bits x s"

definition vEventGroupSetBitsCallback :: "ptr \<Rightarrow> u32 \<Rightarrow> sys \<Rightarrow> sys option" where
  "vEventGroupSetBitsCallback x b s = do { (r, s) \<leftarrow> xEventGroupSetBits x b s; Some s }"

definition vEventGroupClearBitsCallback :: "ptr \<Rightarrow> u32 \<Rightarrow> sys \<Rightarrow> sys option" where
  "vEventGroupClearBitsCallback x b s = do { (r, s) \<leftarrow> xEventGroupClearBits x b s; Some s }"

subsection \<open>Waiting for bits\<close>

text \<open>The end of a call that may have blocked: the scheduler resumes, and a task that waits yields.\<close>

definition event_resume :: "u32 \<Rightarrow> u32 \<Rightarrow> sys \<Rightarrow> (event_outcome \<times> sys) option" where
  "event_resume xTicksToWait uxReturn s =
     do {
       (xAlreadyYielded, s) \<leftarrow> on_kern_r xTaskResumeAll s;
       (if xTicksToWait \<noteq> 0 then
          do {
            s \<leftarrow> (if \<not> xAlreadyYielded then on_kern portYIELD_WITHIN_API s else Some s);
            Some (EgBlocked, s)
          }
        else Some (EgReturn uxReturn, s))
     }"

definition xEventGroupWaitBits :: "ptr \<Rightarrow> u32 \<Rightarrow> bool \<Rightarrow> bool \<Rightarrow> u32 \<Rightarrow> sys \<Rightarrow> (event_outcome \<times> sys) option" where
  "xEventGroupWaitBits x uxBitsToWaitFor xClearOnExit xWaitForAllBits xTicksToWait s =
     do {
       configASSERT (x \<noteq> NULL);
       configASSERT (uxBitsToWaitFor AND eventEVENT_BITS_CONTROL_BYTES = 0);
       configASSERT (uxBitsToWaitFor \<noteq> 0);
       configASSERT (may_wait xTicksToWait (kern s));
       let s = s\<lparr>kern := vTaskSuspendAll (kern s)\<rparr>;
       let uxCurrentEventBits = event_bits x s;
       (uxReturn, xTicksToWait, s) \<leftarrow>
         (if prvTestWaitCondition uxCurrentEventBits uxBitsToWaitFor xWaitForAllBits then
            Some (uxCurrentEventBits, 0,
              if xClearOnExit then upd_group x (\<lambda>b. b AND NOT uxBitsToWaitFor) s else s)
          else if xTicksToWait = 0 then Some (uxCurrentEventBits, xTicksToWait, s)
          else
            do {
              let uxControlBits = (if xClearOnExit then 0 OR eventCLEAR_EVENTS_ON_EXIT_BIT else 0);
              let uxControlBits = (if xWaitForAllBits then uxControlBits OR eventWAIT_FOR_ALL_BITS else uxControlBits);
              s \<leftarrow> on_kern (vTaskPlaceOnUnorderedEventList (EventBitsL x) (uxBitsToWaitFor OR uxControlBits) xTicksToWait) s;
              Some (0, xTicksToWait, s)
            });
       event_resume xTicksToWait uxReturn s
     }"

text \<open>What a call of \<open>xEventGroupWaitBits\<close> does when the task runs again: the bits that the setter left in
  the event item, or after a time-out the bits of the group.\<close>

definition event_wait_woken :: "ptr \<Rightarrow> u32 \<Rightarrow> bool \<Rightarrow> bool \<Rightarrow> sys \<Rightarrow> u32 \<times> sys" where
  "event_wait_woken x uxBitsToWaitFor xClearOnExit xWaitForAllBits s =
     (let (uxReturn, k) = uxTaskResetEventItemValue (kern s);
          s = s\<lparr>kern := k\<rparr>;
          (uxReturn, s) =
            (if uxReturn AND eventUNBLOCKED_DUE_TO_BIT_SET = 0 then
               (event_bits x s,
                if prvTestWaitCondition (event_bits x s) uxBitsToWaitFor xWaitForAllBits \<and> xClearOnExit
                then upd_group x (\<lambda>b. b AND NOT uxBitsToWaitFor) s else s)
             else (uxReturn, s))
      in (uxReturn AND NOT eventEVENT_BITS_CONTROL_BYTES, s))"

definition xEventGroupSync :: "ptr \<Rightarrow> u32 \<Rightarrow> u32 \<Rightarrow> u32 \<Rightarrow> sys \<Rightarrow> (event_outcome \<times> sys) option" where
  "xEventGroupSync x uxBitsToSet uxBitsToWaitFor xTicksToWait s =
     do {
       configASSERT (uxBitsToWaitFor AND eventEVENT_BITS_CONTROL_BYTES = 0);
       configASSERT (uxBitsToWaitFor \<noteq> 0);
       configASSERT (may_wait xTicksToWait (kern s));
       let s = s\<lparr>kern := vTaskSuspendAll (kern s)\<rparr>;
       let uxOriginalBitValue = event_bits x s;
       (r, s) \<leftarrow> xEventGroupSetBits x uxBitsToSet s;
       (uxReturn, xTicksToWait, s) \<leftarrow>
         (if (uxOriginalBitValue OR uxBitsToSet) AND uxBitsToWaitFor = uxBitsToWaitFor then
            Some (uxOriginalBitValue OR uxBitsToSet, 0, upd_group x (\<lambda>b. b AND NOT uxBitsToWaitFor) s)
          else if xTicksToWait \<noteq> 0 then
            do {
              s \<leftarrow> on_kern (vTaskPlaceOnUnorderedEventList (EventBitsL x)
                (uxBitsToWaitFor OR eventCLEAR_EVENTS_ON_EXIT_BIT OR eventWAIT_FOR_ALL_BITS) xTicksToWait) s;
              Some (0, xTicksToWait, s)
            }
          else Some (event_bits x s, xTicksToWait, s));
       event_resume xTicksToWait uxReturn s
     }"

definition event_sync_woken :: "ptr \<Rightarrow> u32 \<Rightarrow> sys \<Rightarrow> u32 \<times> sys" where
  "event_sync_woken x uxBitsToWaitFor s =
     (let (uxReturn, k) = uxTaskResetEventItemValue (kern s);
          s = s\<lparr>kern := k\<rparr>;
          (uxReturn, s) =
            (if uxReturn AND eventUNBLOCKED_DUE_TO_BIT_SET = 0 then
               (event_bits x s,
                if event_bits x s AND uxBitsToWaitFor = uxBitsToWaitFor
                then upd_group x (\<lambda>b. b AND NOT uxBitsToWaitFor) s else s)
             else (uxReturn, s))
      in (uxReturn AND NOT eventEVENT_BITS_CONTROL_BYTES, s))"

subsection \<open>Deletion\<close>

partial_function (option) delete_loop :: "ptr \<Rightarrow> kernel \<Rightarrow> kernel option" where
  "delete_loop x k =
     (case l_head (EventBitsL x) (ls k) of
        None \<Rightarrow> Some k
      | Some i \<Rightarrow> do { k \<leftarrow> vTaskRemoveFromUnorderedEventList i eventUNBLOCKED_DUE_TO_BIT_SET k; delete_loop x k })"

definition vEventGroupDelete :: "ptr \<Rightarrow> sys \<Rightarrow> sys option" where
  "vEventGroupDelete x s =
     do {
       let s = s\<lparr>kern := vTaskSuspendAll (kern s)\<rparr>;
       s \<leftarrow> on_kern (delete_loop x) s;
       s \<leftarrow> on_kern (vPortFree x) s;
       (y, s) \<leftarrow> on_kern_r xTaskResumeAll s;
       Some s
     }"

end
