(* ===== verification/EventGroupSpec.thy ===== *)
theory EventGroupSpec
  imports EventGroup QueueCreate
begin

section \<open>What the event group functions do\<close>

lemma upd_group_fields [simp]:
  "kern (upd_group x f s) = kern s" "mem (upd_group x f s) = mem s" "queues (upd_group x f s) = queues s"
  "streams (upd_group x f s) = streams s"
  "groups (upd_group x f s) = (groups s)(x := uxEventBits_update f (groups s x))"
  by (simp_all add: upd_group_def)

subsection \<open>Unblocking one task\<close>

definition unblock :: "u32 \<Rightarrow> ptr \<Rightarrow> kernel \<Rightarrow> kernel" where
  "unblock v p k = (make_ready p (k_set_value (EventItem p) v k))
     \<lparr>xYieldPending := xYieldPending k \<or> prio k (pxCurrentTCB k) < prio k p\<rparr>"

lemma unblock_fields [simp]:
  "cont_of (unblock v p k) = (cont_of k)(EventItem p := None, StateItem p := Some (ReadyL (unat (prio k p))))"
  "val_of (unblock v p k) = (val_of k)(EventItem p := v)" "tcbs (unblock v p k) = tcbs k"
  "xTickCount (unblock v p k) = xTickCount k" "pxCurrentTCB (unblock v p k) = pxCurrentTCB k"
  "uxSchedulerSuspended (unblock v p k) = uxSchedulerSuspended k"
  "uxPendedTicks (unblock v p k) = uxPendedTicks k"
  "uxCurrentNumberOfTasks (unblock v p k) = uxCurrentNumberOfTasks k"
  "xYieldPending (unblock v p k) \<longleftrightarrow> xYieldPending k \<or> prio k (pxCurrentTCB k) < prio k p"
  by (simp_all add: unblock_def)

lemma event_list_bits: "event_list (EventBitsL x)" by simp

theorem remove_unordered_spec:
  assumes inv: "kinv_at lo Ls {} k" and c: "cont_of k (EventItem p) = Some (EventBitsL x)" and s: "uxSchedulerSuspended k \<noteq> 0"
    and p: "p \<noteq> NULL"
  shows "vTaskRemoveFromUnorderedEventList (EventItem p) v k = Some (unblock (v OR taskEVENT_LIST_ITEM_VALUE_IN_USE) p k)"
    and "kinv_at lo Ls {} (unblock (v OR taskEVENT_LIST_ITEM_VALUE_IN_USE) p k)"
proof -
  define k1 where "k1 = k_set_value (EventItem p) (v OR taskEVENT_LIST_ITEM_VALUE_IN_USE) k"
  have i1: "kinv_at lo Ls {} k1"
    unfolding k1_def k_set_value_def by (rule kinv_set_value [OF inv]) (use c in auto)
  have c1: "cont_of k1 (EventItem p) = Some (EventBitsL x)" using c by (simp add: k1_def)
  have f1: "prio k1 = prio k" "pxCurrentTCB k1 = pxCurrentTCB k" "xYieldPending k1 = xYieldPending k"
    by (simp_all add: k1_def)
  have "unat (prio k1 p) < configMAX_PRIORITIES" using waiting_state [OF i1 _ c1] by blast
  then have "kinv_at lo Ls ({} - {p}) (make_ready p k1)" by (rule make_ready_inv [OF i1])
  then show "kinv_at lo Ls {} (unblock (v OR taskEVENT_LIST_ITEM_VALUE_IN_USE) p k)"
    unfolding unblock_def k1_def [symmetric] by (intro kinv_yield) simp
  obtain k2 k3 where k23: "k_remove (EventItem p) k1 = Some k2" "k_remove (StateItem p) k2 = Some k3"
    "prvAddTaskToReadyList p k3 = make_ready p k1"
    using drop_both_make_ready [OF i1 _ c1 event_not_delayed [OF event_list_bits]] by (auto split: bind_splits)
  have f3: "tcbs k3 = tcbs k" "pxCurrentTCB k3 = pxCurrentTCB k"
    using k23(1,2) by (auto simp: k_remove_def k1_def split: bind_splits)
  have same: "r\<lparr>xYieldPending := xYieldPending r\<rparr> = r" for r :: kernel by simp
  have "vTaskRemoveFromUnorderedEventList (EventItem p) v k = Some (if prio k p > prio k (pxCurrentTCB k)
      then (make_ready p k1)\<lparr>xYieldPending := True\<rparr> else make_ready p k1)"
    using s p k23 by (simp add: vTaskRemoveFromUnorderedEventList_def k1_def [symmetric] f3 Let_def del: k_defs)
  then show "vTaskRemoveFromUnorderedEventList (EventItem p) v k = Some (unblock (v OR taskEVENT_LIST_ITEM_VALUE_IN_USE) p k)"
    using same [of "make_ready p k1"] f1 by (simp add: unblock_def k1_def [symmetric] del: k_defs)
qed

subsection \<open>The loop over the waiting tasks\<close>

definition unblock_all :: "u32 \<Rightarrow> ptr list \<Rightarrow> kernel \<Rightarrow> kernel" where
  "unblock_all v ps k = fold (unblock v) ps k"

lemma unblock_all_simps [simp]:
  "unblock_all v [] k = k" "unblock_all v (p # ps) k = unblock_all v ps (unblock v p k)"
  by (simp_all add: unblock_all_def)

lemma unblock_all_fields [simp]:
  "tcbs (unblock_all v ps k) = tcbs k" "xTickCount (unblock_all v ps k) = xTickCount k"
  "pxCurrentTCB (unblock_all v ps k) = pxCurrentTCB k"
  "uxSchedulerSuspended (unblock_all v ps k) = uxSchedulerSuspended k"
  "uxPendedTicks (unblock_all v ps k) = uxPendedTicks k"
  "uxCurrentNumberOfTasks (unblock_all v ps k) = uxCurrentNumberOfTasks k"
  "xYieldPending (unblock_all v ps k) \<longleftrightarrow> xYieldPending k \<or> (\<exists>p \<in> set ps. prio k (pxCurrentTCB k) < prio k p)"
  by (induction ps arbitrary: k) (auto simp: unblock_all_def)

lemma unblock_all_cont: "cont_of (unblock_all v ps k) = ready_cont (set ps) k"
proof
  fix i show "cont_of (unblock_all v ps k) i = ready_cont (set ps) k i"
    by (induction ps arbitrary: k) (cases i, auto)+
qed

lemma unblock_all_val: "val_of (unblock_all v ps k) i = (if i \<in> EventItem ` set ps then v else val_of k i)"
  by (induction ps arbitrary: k) auto

definition matching :: "u32 \<Rightarrow> kernel \<Rightarrow> ptr list \<Rightarrow> ptr list" where
  "matching b k ps = filter (\<lambda>p. event_match (val_of k (EventItem p)) b) ps"

definition add_clear :: "kernel \<Rightarrow> ptr \<Rightarrow> u32 \<Rightarrow> u32" where
  "add_clear k p c = (let v = val_of k (EventItem p) in
     if v AND eventEVENT_BITS_CONTROL_BYTES AND eventCLEAR_EVENTS_ON_EXIT_BIT \<noteq> 0
     then c OR (v AND NOT eventEVENT_BITS_CONTROL_BYTES) else c)"

lemma matching_cong: "(\<And>p. p \<in> set ps \<Longrightarrow> val_of k' (EventItem p) = val_of k (EventItem p)) \<Longrightarrow> matching b k' ps = matching b k ps"
  by (auto simp: matching_def intro: filter_cong)

lemma fold_add_clear_cong:
  "(\<And>p. p \<in> set ps \<Longrightarrow> val_of k' (EventItem p) = val_of k (EventItem p)) \<Longrightarrow> fold (add_clear k') ps c = fold (add_clear k) ps c"
  by (intro fold_cong) (simp_all add: add_clear_def fun_eq_iff)

theorem set_bits_loop_spec:
  assumes "kinv_at lo Ls {} (kern s)" and "uxSchedulerSuspended (kern s) \<noteq> 0" and "distinct ps"
    and "\<forall>p \<in> set ps. cont_of (kern s) (EventItem p) = Some (EventBitsL x) \<and> p \<noteq> NULL"
  defines "B \<equiv> event_bits x s" and "w \<equiv> event_bits x s OR eventUNBLOCKED_DUE_TO_BIT_SET OR taskEVENT_LIST_ITEM_VALUE_IN_USE"
  shows "set_bits_loop x (map EventItem ps) c s =
      Some (fold (add_clear (kern s)) (matching B (kern s) ps) c,
        s\<lparr>kern := unblock_all w (matching B (kern s) ps) (kern s)\<rparr>) \<and>
     kinv_at lo Ls {} (unblock_all w (matching B (kern s) ps) (kern s))"
  using assms(1-4) unfolding B_def w_def
proof (induction ps arbitrary: s c)
  case (Cons p ps)
  let ?k = "kern s"
  show ?case
  proof (cases "event_match (val_of ?k (EventItem p)) (event_bits x s)")
    case False
    then show ?thesis using Cons.IH [of s c] Cons.prems by (simp add: matching_def Let_def)
  next
    case True
    let ?w = "event_bits x s OR eventUNBLOCKED_DUE_TO_BIT_SET OR taskEVENT_LIST_ITEM_VALUE_IN_USE"
    have cp: "cont_of ?k (EventItem p) = Some (EventBitsL x)" "p \<noteq> NULL" using Cons.prems(4) by auto
    note R = remove_unordered_spec [OF Cons.prems(1) cp(1) Cons.prems(2) cp(2), of "event_bits x s OR eventUNBLOCKED_DUE_TO_BIT_SET"]
    let ?s = "s\<lparr>kern := unblock ?w p ?k\<rparr>"
    have on: "on_kern (vTaskRemoveFromUnorderedEventList (EventItem p) (event_bits x s OR eventUNBLOCKED_DUE_TO_BIT_SET)) s = Some ?s"
      using R(1) by (intro on_kern_Some) (simp add: or.assoc)
    have others: "val_of (unblock ?w p ?k) (EventItem q) = val_of ?k (EventItem q)"
      "cont_of (unblock ?w p ?k) (EventItem q) = Some (EventBitsL x) \<and> q \<noteq> NULL" if "q \<in> set ps" for q
      using that Cons.prems(3,4) by auto
    have su: "uxSchedulerSuspended (unblock ?w p ?k) \<noteq> 0" using Cons.prems(2) by simp
    have "set_bits_loop x (map EventItem ps) (add_clear ?k p c) ?s =
      Some (fold (add_clear ?k) (matching (event_bits x s) ?k ps) (add_clear ?k p c),
        s\<lparr>kern := unblock_all ?w (matching (event_bits x s) ?k ps) (unblock ?w p ?k)\<rparr>) \<and>
      kinv_at lo Ls {} (unblock_all ?w (matching (event_bits x s) ?k ps) (unblock ?w p ?k))"
      using Cons.IH [of ?s "add_clear ?k p c"] su Cons.prems(3) R(2) others matching_cong [of ps "unblock ?w p ?k" ?k]
        fold_add_clear_cong [of "matching (event_bits x s) ?k ps" "unblock ?w p ?k" ?k]
      by (simp add: or.assoc matching_def del: unblock_fields)
    moreover have "(if val_of ?k (EventItem p) AND eventEVENT_BITS_CONTROL_BYTES AND eventCLEAR_EVENTS_ON_EXIT_BIT \<noteq> 0
        then c OR (val_of ?k (EventItem p) AND NOT eventEVENT_BITS_CONTROL_BYTES) else c) = add_clear ?k p c"
      by (simp add: add_clear_def Let_def)
    ultimately show ?thesis
      using True on by (simp add: matching_def Let_def)
  qed
qed (simp add: matching_def)

subsection \<open>Setting bits\<close>

lemma resume_quiet_switch:
  assumes inv: "kinv Ls {} k" and s: "uxSchedulerSuspended k = 1" and n: "uxCurrentNumberOfTasks k \<noteq> 0"
    and st: "settled k" and r: "some_ready k"
  shows "\<exists>y k'. xTaskResumeAll k = Some (y, k') \<and> kinv Ls {} k' \<and> cont_of k' = cont_of k \<and> val_of k' = val_of k \<and>
     tcbs k' = tcbs k \<and> xTickCount k' = xTickCount k \<and> uxSchedulerSuspended k' = 0 \<and>
     (if xYieldPending k then runs_highest k' else pxCurrentTCB k' = pxCurrentTCB k)"
proof -
  let ?k = "k\<lparr>uxSchedulerSuspended := 0\<rparr>"
  have i: "kinv Ls {} ?k" by (rule kinv_fields [where k = k]) (use inv in simp_all)
  have "some_ready ?k" using r by (simp add: some_ready_def)
  from switch_runs_highest [OF i _ this] show ?thesis
    using i by (auto simp: resume_settled [OF s n st])
qed

definition waiting_for :: "ptr \<Rightarrow> kernel \<Rightarrow> u32 \<Rightarrow> ptr list" where
  "waiting_for x k b = matching b k (waiters (EventBitsL x) k)"

definition clear_mask :: "ptr \<Rightarrow> kernel \<Rightarrow> u32 \<Rightarrow> u32" where
  "clear_mask x k b = fold (add_clear k) (waiting_for x k b) 0"

lemma event_waiters:
  assumes inv: "kinv_at lo Ls X k" and l: "l \<in> Ls" "event_list l"
  shows "items k l = map EventItem (waiters l k)" and "distinct (waiters l k)"
    and "p \<in> set (waiters l k) \<longleftrightarrow> cont_of k (EventItem p) = Some l"
proof -
  have ev: "\<exists>p. i = EventItem p" if "i \<in> set (items k l)" for i
  proof -
    have c: "cont_of k i = Some l" using mem_items [OF inv l(1)] that by simp
    have "delayed_pair k" using inv by (simp add: kinv_at_def)
    with kinvD(7) [OF inv c] l(2) show ?thesis
      by (cases i; cases l) (auto simp: place_ok_def delayed_pair_def split: if_splits)
  qed
  then show e: "items k l = map EventItem (waiters l k)"
    unfolding waiters_def map_map by (intro map_idI [symmetric]) fastforce
  have "distinct (items k l)" using kinvD(1) [OF inv] l(1) by (auto simp: lists_ok_def kl_ok_def)
  then show "distinct (waiters l k)" unfolding e by (simp add: distinct_map)
  show "p \<in> set (waiters l k) \<longleftrightarrow> cont_of k (EventItem p) = Some l"
    using mem_items [OF inv l(1), of "EventItem p"] unfolding e by auto
qed

theorem set_bits_spec:
  assumes inv: "kinv Ls {} (kern s)" and q: "quiet (kern s)" and n: "uxCurrentNumberOfTasks (kern s) \<noteq> 0"
    and r: "some_ready (kern s)" and nn: "no_null (kern s)" and x: "EventBitsL x \<in> Ls" "x \<noteq> NULL"
    and b: "b AND eventEVENT_BITS_CONTROL_BYTES = 0"
  defines "B \<equiv> event_bits x s OR b" and "W \<equiv> set (waiting_for x (kern s) (event_bits x s OR b))"
  shows "\<exists>s'. xEventGroupSetBits x b s = Some (event_bits x s', s') \<and> kinv Ls {} (kern s') \<and>
     event_bits x s' = B AND NOT (clear_mask x (kern s) B) \<and>
     cont_of (kern s') = ready_cont W (kern s) \<and>
     (\<forall>i. val_of (kern s') i = (if i \<in> EventItem ` W
        then B OR eventUNBLOCKED_DUE_TO_BIT_SET OR taskEVENT_LIST_ITEM_VALUE_IN_USE else val_of (kern s) i)) \<and>
     tcbs (kern s') = tcbs (kern s) \<and> uxSchedulerSuspended (kern s') = 0 \<and>
     (if \<exists>p \<in> W. prio (kern s) (pxCurrentTCB (kern s)) < prio (kern s) p then runs_highest (kern s')
      else pxCurrentTCB (kern s') = pxCurrentTCB (kern s))"
proof -
  let ?k = "kern s"
  define k1 where "k1 = vTaskSuspendAll ?k"
  define s1 where "s1 = upd_group x (\<lambda>b'. b' OR b) (s\<lparr>kern := k1\<rparr>)"
  have f1: "ls k1 = ls ?k" "tcbs k1 = tcbs ?k" "xTickCount k1 = xTickCount ?k" "pxCurrentTCB k1 = pxCurrentTCB ?k"
    "uxSchedulerSuspended k1 = 1" "uxPendedTicks k1 = 0" "\<not> xYieldPending k1" "uxCurrentNumberOfTasks k1 \<noteq> 0"
    using q n by (simp_all add: k1_def vTaskSuspendAll_def quiet_def settled_def)
  have i1: "kinv Ls {} k1" by (rule kinv_fields [where k = ?k]) (use inv in \<open>simp_all add: k1_def vTaskSuspendAll_def\<close>)
  note E = event_waiters [OF inv x(1) event_list_bits]
  let ?ps = "waiters (EventBitsL x) ?k"
  have its: "items k1 (EventBitsL x) = map EventItem ?ps" using E(1) f1(1) by simp
  have ps: "\<forall>p \<in> set ?ps. cont_of k1 (EventItem p) = Some (EventBitsL x) \<and> p \<noteq> NULL"
    using E(3) nn f1(1) unfolding no_null_def by (metis option.distinct(1) owner.simps(2))
  define w where "w = B OR eventUNBLOCKED_DUE_TO_BIT_SET OR taskEVENT_LIST_ITEM_VALUE_IN_USE"
  define ms where "ms = waiting_for x ?k B"
  define k2 where "k2 = unblock_all w ms k1"
  have ms': "matching B k1 ?ps = ms" by (simp add: ms_def waiting_for_def matching_def f1(1))
  have ac: "add_clear k1 = add_clear ?k" by (simp add: add_clear_def fun_eq_iff f1(1))
  have L: "set_bits_loop x (items (kern s1) (EventBitsL x)) 0 s1 = Some (clear_mask x ?k B, s1\<lparr>kern := k2\<rparr>)"
    and i2: "kinv Ls {} k2"
    using set_bits_loop_spec [where s = s1 and x = x and c = 0, OF _ _ E(2)] i1 f1(5) ps its ms' ac
    by (simp_all add: s1_def k2_def w_def B_def [symmetric] clear_mask_def ms_def)
  have c2: "cont_of k2 = ready_cont W ?k"
  proof
    fix i show "cont_of k2 i = ready_cont W ?k i"
      unfolding k2_def unblock_all_cont by (cases i) (simp_all add: ms_def W_def B_def f1)
  qed
  have r2: "some_ready k2"
  proof -
    obtain p m where "cont_of ?k (StateItem p) = Some (ReadyL m)" using some_ready_iff [OF inv] r by blast
    then show ?thesis using some_ready_iff [OF i2] c2 by (cases "p \<in> W") auto
  qed
  have "items k2 PendingReadyL = []"
  proof (rule ccontr)
    assume "items k2 PendingReadyL \<noteq> []"
    then obtain i where "i \<in> set (items k2 PendingReadyL)" by (cases "items k2 PendingReadyL") auto
    then have i: "cont_of k2 i = Some PendingReadyL"
      using mem_items [OF i2, of PendingReadyL] kinv_static [OF i2, of PendingReadyL] by auto
    have "cont_of ?k i = Some PendingReadyL" using i unfolding c2 by (cases i) (auto split: if_splits)
    then have "i \<in> set (items ?k PendingReadyL)" using mem_items [OF inv, of PendingReadyL] kinv_static [OF inv, of PendingReadyL] by auto
    then show False using q by (simp add: quiet_def settled_def)
  qed
  then have st2: "settled k2" using f1(6) by (simp add: settled_def k2_def)
  obtain y k3 where k3: "xTaskResumeAll k2 = Some (y, k3)" "kinv Ls {} k3" "cont_of k3 = cont_of k2" "val_of k3 = val_of k2"
    "tcbs k3 = tcbs k2" "uxSchedulerSuspended k3 = 0" "if xYieldPending k2 then runs_highest k3 else pxCurrentTCB k3 = pxCurrentTCB k2"
    using resume_quiet_switch [OF i2 _ _ st2 r2] f1 by (auto simp: k2_def)
  have "kern s1 = k1" by (simp add: s1_def)
  note L = L [unfolded this]
  define s3 where "s3 = (upd_group x (\<lambda>b'. b' AND NOT (clear_mask x ?k B)) (s1\<lparr>kern := k2\<rparr>))\<lparr>kern := k3\<rparr>"
  have "xEventGroupSetBits x b s = Some (event_bits x s3, s3)"
    using x(2) b L k3(1) unfolding xEventGroupSetBits_def
    by (simp add: s1_def [symmetric] k1_def [symmetric] on_kern_r_def s3_def)
  moreover have "event_bits x s3 = B AND NOT (clear_mask x ?k B)" by (simp add: s3_def s1_def B_def)
  moreover have "val_of k3 i = (if i \<in> EventItem ` W then w else val_of ?k i)" for i
    unfolding k3(4) k2_def unblock_all_val by (simp add: ms_def W_def B_def f1(1))
  moreover have "xYieldPending k2 \<longleftrightarrow> (\<exists>p \<in> W. prio ?k (pxCurrentTCB ?k) < prio ?k p)"
    using f1 by (simp add: k2_def ms_def W_def B_def)
  ultimately show ?thesis
    using k3 c2 f1 by (intro exI [of _ s3]) (simp add: s3_def w_def k2_def)
qed

text \<open>The bits that a setting clears again, bit by bit.\<close>

definition wants_clear :: "u32 \<Rightarrow> bool" where
  "wants_clear v \<longleftrightarrow> v AND eventEVENT_BITS_CONTROL_BYTES AND eventCLEAR_EVENTS_ON_EXIT_BIT \<noteq> 0"

lemma bit_fold_add_clear:
  "bit (fold (add_clear k) ps c) n \<longleftrightarrow> bit c n \<or> (\<exists>p \<in> set ps. wants_clear (val_of k (EventItem p)) \<and>
     bit (val_of k (EventItem p) AND NOT eventEVENT_BITS_CONTROL_BYTES) n)"
proof (induction ps arbitrary: c)
  case (Cons p ps)
  have "bit (add_clear k p c) n \<longleftrightarrow> bit c n \<or> wants_clear (val_of k (EventItem p)) \<and>
      bit (val_of k (EventItem p) AND NOT eventEVENT_BITS_CONTROL_BYTES) n"
    by (simp add: add_clear_def wants_clear_def Let_def bit_or_iff)
  then show ?case using Cons by auto
qed simp

lemma bit_clear_mask:
  "bit (clear_mask x k b) n \<longleftrightarrow> (\<exists>p \<in> set (waiting_for x k b). wants_clear (val_of k (EventItem p)) \<and>
     bit (val_of k (EventItem p) AND NOT eventEVENT_BITS_CONTROL_BYTES) n)"
  by (simp add: clear_mask_def bit_fold_add_clear)

lemma waiting_for_iff:
  assumes "kinv_at lo Ls X k" and "EventBitsL x \<in> Ls"
  shows "p \<in> set (waiting_for x k b) \<longleftrightarrow> cont_of k (EventItem p) = Some (EventBitsL x) \<and>
     event_match (val_of k (EventItem p)) b"
  using event_waiters(3) [OF assms event_list_bits] by (auto simp: waiting_for_def matching_def)

subsection \<open>Waiting for bits\<close>

text \<open>The value of the event item of a task that waits.\<close>

definition wait_flags :: "bool \<Rightarrow> bool \<Rightarrow> u32" where
  "wait_flags clr all = (if clr then eventCLEAR_EVENTS_ON_EXIT_BIT else 0) OR (if all then eventWAIT_FOR_ALL_BITS else 0)"

definition wait_value :: "u32 \<Rightarrow> bool \<Rightarrow> bool \<Rightarrow> u32" where
  "wait_value b clr all = (b OR wait_flags clr all) OR taskEVENT_LIST_ITEM_VALUE_IN_USE"

lemmas control_defs = eventEVENT_BITS_CONTROL_BYTES_def eventWAIT_FOR_ALL_BITS_def eventCLEAR_EVENTS_ON_EXIT_BIT_def
  eventUNBLOCKED_DUE_TO_BIT_SET_def taskEVENT_LIST_ITEM_VALUE_IN_USE_def

lemma no_control: "b AND eventEVENT_BITS_CONTROL_BYTES = 0 \<Longrightarrow> b AND NOT eventEVENT_BITS_CONTROL_BYTES = b"
proof (rule bit_word_eqI)
  fix n assume "b AND eventEVENT_BITS_CONTROL_BYTES = 0" and n: "n < LENGTH(32)"
  then have "\<not> bit (b AND eventEVENT_BITS_CONTROL_BYTES) n" by simp
  then show "bit (b AND NOT eventEVENT_BITS_CONTROL_BYTES) n = bit b n"
    using n by (auto simp: bit_and_iff bit_not_iff)
qed

lemma control_and_or:
  assumes "b AND eventEVENT_BITS_CONTROL_BYTES = (0 :: u32)"
  shows "(b OR f) AND eventEVENT_BITS_CONTROL_BYTES = f AND eventEVENT_BITS_CONTROL_BYTES"
    and "(b OR f) AND NOT eventEVENT_BITS_CONTROL_BYTES = b OR (f AND NOT eventEVENT_BITS_CONTROL_BYTES)"
  using assms no_control [OF assms] by (simp_all add: bit.conj_disj_distrib2)

lemma wait_value_parts:
  assumes "b AND eventEVENT_BITS_CONTROL_BYTES = 0"
  shows "wait_value b clr all AND NOT eventEVENT_BITS_CONTROL_BYTES = b"
    and "wait_value b clr all AND eventEVENT_BITS_CONTROL_BYTES AND eventWAIT_FOR_ALL_BITS = 0 \<longleftrightarrow> \<not> all"
    and "wants_clear (wait_value b clr all) \<longleftrightarrow> clr"
  unfolding wait_value_def wants_clear_def or.assoc and.assoc [symmetric] control_and_or [OF assms]
  by (simp_all add: wait_flags_def control_defs)

lemma event_match_wait:
  assumes "b AND eventEVENT_BITS_CONTROL_BYTES = 0"
  shows "event_match (wait_value b clr all) e \<longleftrightarrow> prvTestWaitCondition e b all"
  unfolding event_match_def Let_def and.assoc wait_value_parts [OF assms]
  by (simp add: prvTestWaitCondition_def and.commute [of b e])

definition blocked_unordered :: "list_id \<Rightarrow> u32 \<Rightarrow> u32 \<Rightarrow> kernel \<Rightarrow> kernel \<Rightarrow> bool" where
  "blocked_unordered l v w k k' \<longleftrightarrow> (let c = pxCurrentTCB k in
     cont_of k' = (cont_of k)(EventItem c := Some l, StateItem c := Some (delay_list w True k)) \<and>
     val_of k' (EventItem c) = v \<and> (\<forall>p. p \<noteq> c \<longrightarrow> val_of k' (EventItem p) = val_of k (EventItem p)) \<and>
     tcbs k' = tcbs k \<and> xTickCount k' = xTickCount k \<and> uxSchedulerSuspended k' = 0 \<and>
     pxCurrentTCB k' \<noteq> c \<and> runs_highest k')"

lemma place_unordered_and_switch:
  assumes r: "ready_to_block Ls k" and l: "l \<in> Ls" "event_list l" and w: "w \<noteq> 0"
  shows "\<exists>k1 k'. vTaskPlaceOnUnorderedEventList l v w k = Some k1 \<and>
     do { (y, k) \<leftarrow> xTaskResumeAll k1; (if \<not> y then portYIELD_WITHIN_API k else Some k) } = Some k' \<and>
     kinv Ls {} k' \<and> blocked_unordered l (v OR taskEVENT_LIST_ITEM_VALUE_IN_USE) w k k'"
proof -
  let ?c = "pxCurrentTCB k"
  define v' where "v' = v OR taskEVENT_LIST_ITEM_VALUE_IN_USE"
  define k0 where "k0 = k_set_value (EventItem ?c) v' k"
  have "kinv_at (Suc (unat (xTickCount k))) Ls {} k0" unfolding k0_def k_set_value_def
    using kinv_set_value r by (simp add: ready_to_block_def)
  then have i0: "kinv Ls {} k0" by (simp add: k0_def)
  have f0: "cont_of k0 = cont_of k" "pxCurrentTCB k0 = ?c" "tcbs k0 = tcbs k" "xTickCount k0 = xTickCount k"
    "uxSchedulerSuspended k0 = uxSchedulerSuspended k" "delay_list w True k0 = delay_list w True k"
    "val_of k0 = (val_of k)(EventItem ?c := v')"
    by (simp_all add: k0_def delay_list_def)
  have r0: "ready_to_block Ls k0" using r i0 by (simp add: ready_to_block_def k0_def settled_def)
  have "vTaskPlaceOnUnorderedEventList l v w k =
      prvAddCurrentTaskToDelayedList w True (k0\<lparr>ls := l_insert_end l (EventItem ?c) (ls k0)\<rparr>)"
    using r by (simp add: vTaskPlaceOnUnorderedEventList_def v'_def [symmetric] k0_def ready_to_block_def)
  then show ?thesis
    using place_then_switch [OF r0 l w disjI1 [OF refl], of True] unfolding blocked_unordered_def Let_def f0 v'_def [symmetric]
    by (elim exE) (intro exI, auto)
qed

theorem wait_bits_blocks:
  assumes inv: "kinv Ls {} (kern s)" and cb: "can_block (kern s)" and st: "settled (kern s)"
    and x: "EventBitsL x \<in> Ls" "x \<noteq> NULL" and b: "b AND eventEVENT_BITS_CONTROL_BYTES = 0" "b \<noteq> 0" and w: "w \<noteq> 0"
    and no: "\<not> prvTestWaitCondition (event_bits x s) b all"
  shows "\<exists>k'. xEventGroupWaitBits x b clr all w s = Some (EgBlocked, s\<lparr>kern := k'\<rparr>) \<and> kinv Ls {} k' \<and>
     blocked_unordered (EventBitsL x) (wait_value b clr all) w (kern s) k'"
proof -
  let ?k = "kern s"
  define k1 where "k1 = vTaskSuspendAll ?k"
  have f1: "ls k1 = ls ?k" "tcbs k1 = tcbs ?k" "xTickCount k1 = xTickCount ?k" "pxCurrentTCB k1 = pxCurrentTCB ?k"
    "uxSchedulerSuspended k1 = 1" "delay_list w True k1 = delay_list w True ?k"
    using cb by (simp_all add: k1_def vTaskSuspendAll_def can_block_def delay_list_def)
  have r: "ready_to_block Ls k1"
    using suspend_inv [OF inv] cb st f1
    by (simp add: ready_to_block_def can_block_def k1_def vTaskSuspendAll_def settled_def)
  obtain k2 k' where k2: "vTaskPlaceOnUnorderedEventList (EventBitsL x) (b OR wait_flags clr all) w k1 = Some k2"
    "do { (y, k) \<leftarrow> xTaskResumeAll k2; (if \<not> y then portYIELD_WITHIN_API k else Some k) } = Some k'"
    "kinv Ls {} k'" "blocked_unordered (EventBitsL x) (wait_value b clr all) w k1 k'"
    using place_unordered_and_switch [OF r x(1) event_list_bits w] unfolding wait_value_def by blast
  have "may_wait w ?k" using cb by (simp add: may_wait_def can_block_def xTaskGetSchedulerState_def)
  moreover have fl: "(if all then (if clr then 0 OR eventCLEAR_EVENTS_ON_EXIT_BIT else 0) OR eventWAIT_FOR_ALL_BITS
      else if clr then 0 OR eventCLEAR_EVENTS_ON_EXIT_BIT else 0) = wait_flags clr all"
    by (simp add: wait_flags_def)
  moreover have "event_resume w 0 (s\<lparr>kern := k2\<rparr>) = Some (EgBlocked, s\<lparr>kern := k'\<rparr>)"
    using k2(2) w unfolding event_resume_def on_kern_r_def on_kern_def by (auto split: bind_splits if_splits)
  ultimately have "xEventGroupWaitBits x b clr all w s = Some (EgBlocked, s\<lparr>kern := k'\<rparr>)"
    using x(2) b w no k2(1) unfolding xEventGroupWaitBits_def
    by (simp add: k1_def [symmetric] on_kern_def Let_def)
  moreover have "blocked_unordered (EventBitsL x) (wait_value b clr all) w ?k k'"
    using k2(4) f1 by (simp add: blocked_unordered_def)
  ultimately show ?thesis using k2(3) by blast
qed

text \<open>What a woken task finds in its event item, and what it then returns.\<close>

lemma event_wait_woken_set:
  assumes "val_of (kern s) (EventItem (pxCurrentTCB (kern s))) =
      e OR eventUNBLOCKED_DUE_TO_BIT_SET OR taskEVENT_LIST_ITEM_VALUE_IN_USE"
  shows "fst (event_wait_woken x b clr all s) = e AND NOT eventEVENT_BITS_CONTROL_BYTES"
    and "groups (snd (event_wait_woken x b clr all s)) = groups s"
proof -
  let ?v = "e OR eventUNBLOCKED_DUE_TO_BIT_SET OR taskEVENT_LIST_ITEM_VALUE_IN_USE"
  have "bit ?v 25" by (simp add: bit_or_iff control_defs)
  moreover have "bit eventUNBLOCKED_DUE_TO_BIT_SET 25" by (simp add: control_defs)
  ultimately have "bit (?v AND eventUNBLOCKED_DUE_TO_BIT_SET) 25" by (simp add: bit_and_iff)
  then have nz: "?v AND eventUNBLOCKED_DUE_TO_BIT_SET \<noteq> 0" by (metis bit_0_eq bot_apply bot_bool_def)
  have fl: "(eventUNBLOCKED_DUE_TO_BIT_SET OR taskEVENT_LIST_ITEM_VALUE_IN_USE) AND NOT eventEVENT_BITS_CONTROL_BYTES = 0"
    by (simp add: control_defs)
  have "?v AND NOT eventEVENT_BITS_CONTROL_BYTES = e AND NOT eventEVENT_BITS_CONTROL_BYTES"
    unfolding bit.conj_disj_distrib2 fl [unfolded bit.conj_disj_distrib2] by simp
  then show "fst (event_wait_woken x b clr all s) = e AND NOT eventEVENT_BITS_CONTROL_BYTES"
    and "groups (snd (event_wait_woken x b clr all s)) = groups s"
    using assms nz by (simp_all add: event_wait_woken_def uxTaskResetEventItemValue_def Let_def)
qed

end
