(* ===== verification/Samples.thy ===== *)
theory Samples
  imports TaskNotify QueueCreate ListStore StreamChannel EventGroupSpec
begin

section \<open>Concrete states\<close>

text \<open>
  Small states on which the hypotheses of the properties hold: tasks \<open>0x200\<close> (running, at a priority
  inherited through the mutex \<open>0xA00\<close>) and \<open>0x300\<close> are ready at priority 2, the idle task \<open>0x100\<close> at priority 0, \<open>0x400\<close> is delayed until
  tick 5 while it waits for bits 0 and 1 of the event group \<open>0x800\<close>, and \<open>0x600\<close> waits without a time limit
  for data in the queue \<open>0x500\<close>.
\<close>

definition sample_lists :: "(list_id, item_id) lists" where
  "sample_lists = \<lparr>
     lst = (\<lambda>_. kl_empty)
       (ReadyL 0 := \<lparr>elems = [StateItem 0x100], idx = None\<rparr>,
        ReadyL 2 := \<lparr>elems = [StateItem 0x200, StateItem 0x300], idx = Some (StateItem 0x200)\<rparr>,
        DelayedL1 := \<lparr>elems = [StateItem 0x400], idx = None\<rparr>,
        SuspendedL := \<lparr>elems = [StateItem 0x600, StateItem 0x700], idx = None\<rparr>,
        WaitReceiveL 0x500 := \<lparr>elems = [EventItem 0x600], idx = None\<rparr>,
        EventBitsL 0x800 := \<lparr>elems = [EventItem 0x400], idx = None\<rparr>),
     ival = (\<lambda>_. 0)(StateItem 0x400 := 5, EventItem 0x600 := 3, EventItem 0x200 := 4, EventItem 0x400 := 0x85000003),
     cont = (\<lambda>_. None)
       (StateItem 0x100 := Some (ReadyL 0), StateItem 0x200 := Some (ReadyL 2),
        StateItem 0x300 := Some (ReadyL 2), StateItem 0x400 := Some DelayedL1,
        StateItem 0x600 := Some SuspendedL, StateItem 0x700 := Some SuspendedL,
        EventItem 0x600 := Some (WaitReceiveL 0x500), EventItem 0x400 := Some (EventBitsL 0x800))\<rparr>"

definition sample_tcb :: "u32 \<Rightarrow> tcb" where
  "sample_tcb p = \<lparr>pxTopOfStack = 0, uxPriority = p, pxStack = 0, pcTaskName = replicate 16 0, uxCriticalNesting = 0,
     uxBasePriority = p, uxMutexesHeld = 0, ulNotifiedValue = 0, ucNotifyState = 0\<rparr>"

definition sample_heap :: heap_t where
  "sample_heap = \<lparr>aucHeap = 0x1002, axStart = 0x20000, hmem = (\<lambda>_. \<lparr>pxNextFreeBlock = 0, xBlockSize = 0\<rparr>),
     pxEnd = 0, xFreeBytesRemaining = 0, xMinimumEverFreeBytesRemaining = 0, xBlockAllocatedBit = 0\<rparr>"

text \<open>The free context save areas have the links 1 to 4.\<close>

definition sample_port :: port where
  "sample_port = \<lparr>FCX = 1, PCXI = 0, PSW = 0, SYSCON = 0, ICR = 0,
     csa_mem = (\<lambda>_. 0)(0x40 := 2, 0x80 := 3, 0xC0 := 4)\<rparr>"

definition sample :: kernel where
  "sample = \<lparr>ls = sample_lists,
     tcbs = (\<lambda>_. sample_tcb 1)(0x100 := sample_tcb 0, 0x200 := (sample_tcb 2)\<lparr>uxBasePriority := 1, uxMutexesHeld := 1\<rparr>, 0x300 := sample_tcb 2,
       0x400 := sample_tcb 3, 0x600 := sample_tcb 3, 0x700 := (sample_tcb 3)\<lparr>ucNotifyState := 1\<rparr>),
     heap = sample_heap, pxCurrentTCB = 0x200, pxDelayedTaskList = DelayedL1,
     pxOverflowDelayedTaskList = DelayedL2, uxDeletedTasksWaitingCleanUp = 0, uxCurrentNumberOfTasks = 6,
     xTickCount = 4, uxTopReadyPriority = 2, xSchedulerRunning = True, uxPendedTicks = 0,
     xYieldPending = False, xNumOfOverflows = 0, uxTaskNumber = 6, xNextTaskUnblockTime = 5,
     xIdleTaskHandle = 0x100, uxSchedulerSuspended = 0, cpu = sample_port\<rparr>"

definition sample_Ls :: "list_id set" where
  "sample_Ls = static_lists \<union> WaitReceiveL ` {0x500, 0x900, 0xA00, 0xB00, 0xC00} \<union>
     WaitSendL ` {0x500, 0x900, 0xA00, 0xB00, 0xC00} \<union> {EventBitsL 0x800}"

lemma sample_fields [simp]:
  "ls sample = sample_lists" "pxCurrentTCB sample = 0x200" "xTickCount sample = 4"
  "pxDelayedTaskList sample = DelayedL1" "pxOverflowDelayedTaskList sample = DelayedL2"
  "uxTopReadyPriority sample = 2" "uxSchedulerSuspended sample = 0" "uxCurrentNumberOfTasks sample = 6"
  "uxPendedTicks sample = 0" "xNextTaskUnblockTime sample = 5" "xSchedulerRunning sample = True"
  "xYieldPending sample = False"
  by (simp_all add: sample_def)

lemma sample_prio [simp]:
  "tcbs sample 0x100 = sample_tcb 0" "tcbs sample 0x200 = (sample_tcb 2)\<lparr>uxBasePriority := 1, uxMutexesHeld := 1\<rparr>" "tcbs sample 0x300 = sample_tcb 2"
  "tcbs sample 0x400 = sample_tcb 3" "tcbs sample 0x600 = sample_tcb 3"
  "tcbs sample 0x700 = (sample_tcb 3)\<lparr>ucNotifyState := 1\<rparr>"
  by (simp_all add: sample_def)

lemma sample_tcb_fields [simp]:
  "uxPriority (sample_tcb p) = p" "uxBasePriority (sample_tcb p) = p" "uxMutexesHeld (sample_tcb p) = 0"
  "ucNotifyState (sample_tcb p) = 0" "ulNotifiedValue (sample_tcb p) = 0"
  by (simp_all add: sample_tcb_def)

lemma sample_lists_fields [simp]:
  "l_elems l sample_lists = (if l = ReadyL 0 then [StateItem 0x100] else if l = ReadyL 2 then [StateItem 0x200, StateItem 0x300]
     else if l = DelayedL1 then [StateItem 0x400] else if l = SuspendedL then [StateItem 0x600, StateItem 0x700]
     else if l = WaitReceiveL 0x500 then [EventItem 0x600] else if l = EventBitsL 0x800 then [EventItem 0x400] else [])"
  by (simp add: sample_lists_def)

lemma sample_cont:
  "cont sample_lists i = Some l \<longleftrightarrow> (i, l) \<in> {(StateItem 0x100, ReadyL 0), (StateItem 0x200, ReadyL 2),
     (StateItem 0x300, ReadyL 2), (StateItem 0x400, DelayedL1), (StateItem 0x600, SuspendedL),
     (StateItem 0x700, SuspendedL), (EventItem 0x600, WaitReceiveL 0x500), (EventItem 0x400, EventBitsL 0x800)}"
  by (auto simp: sample_lists_def split: if_splits)

lemma sample_conts [simp]:
  "cont sample_lists (StateItem 0x100) = Some (ReadyL 0)" "cont sample_lists (StateItem 0x200) = Some (ReadyL 2)"
  "cont sample_lists (StateItem 0x300) = Some (ReadyL 2)" "cont sample_lists (StateItem 0x400) = Some DelayedL1"
  "cont sample_lists (StateItem 0x600) = Some SuspendedL" "cont sample_lists (StateItem 0x700) = Some SuspendedL"
  "cont sample_lists (EventItem 0x600) = Some (WaitReceiveL 0x500)" "cont sample_lists (EventItem 0x200) = None"
  "cont sample_lists (EventItem 0x400) = Some (EventBitsL 0x800)" "cont sample_lists (EventItem 0x700) = None"
  by (simp_all add: sample_lists_def)

lemma sample_val [simp]: "ival sample_lists (StateItem 0x400) = 5" "ival sample_lists (EventItem 0x400) = 0x85000003"
  by (simp_all add: sample_lists_def)

lemma sample_klists: "kl_ok (lst sample_lists l)"
  by (auto simp: sample_lists_def kl_ok_def kl_empty_def)

lemma sample_lists_ok: "lists_ok sample_Ls sample_lists"
proof -
  have "cont sample_lists i = Some l \<longleftrightarrow> i \<in> set (l_elems l sample_lists)" if "l \<in> sample_Ls" for i l
    unfolding sample_cont using sample_lists_fields [of l] by (auto split: if_splits)
  moreover have "l \<in> sample_Ls" if "cont sample_lists i = Some l" for i l
    using that by (auto simp: sample_cont sample_Ls_def configMAX_PRIORITIES_def)
  ultimately show ?thesis using sample_klists unfolding lists_ok_def by blast
qed

lemma sample_inv: "kinv sample_Ls {} sample"
proof -
  have "place_ok 5 sample i l" if "cont sample_lists i = Some l" for i l
    using that unfolding sample_cont
    by (elim insertE emptyE) (simp_all add: place_ok_def configMAX_PRIORITIES_def word_le_nat_alt)
  moreover have "\<exists>l \<in> delayed_or_suspended. cont sample_lists (StateItem p) = Some l"
    if "cont sample_lists (EventItem p) \<noteq> None" for p
  proof -
    have "p = 0x600 \<or> p = 0x400" using that by (auto simp: sample_cont)
    then show ?thesis by (auto simp: delayed_or_suspended_def)
  qed
  moreover have "static_lists \<subseteq> sample_Ls" by (auto simp: sample_Ls_def)
  ultimately show ?thesis
    using sample_lists_ok sample_lists_fields
    by (auto simp: kinv_at_def delayed_pair_def configMAX_PRIORITIES_def)
qed

lemma sample_some_ready: "some_ready sample"
  using some_ready_iff [OF sample_inv] by (auto intro: exI [of _ "0x100"])

lemma sample_settled: "settled sample"
  using sample_lists_fields [of PendingReadyL] by (simp add: settled_def)

lemma sample_highest: "highest_ready sample 2"
  by (simp add: highest_ready_def configMAX_PRIORITIES_def)

lemma sample_queue: "ready_queue sample 2 = [0x300, 0x200]"
  by (simp add: ready_queue_def rot_def sample_lists_def)

lemma sample_can_block: "can_block sample"
  unfolding can_block_def by (intro conjI exI [of _ "0x100"] exI [of _ 0]) simp_all


subsection \<open>A heap and a list\<close>

lemma sample_heap_placed: "heap_placed sample_heap"
  by (simp add: heap_placed_def sample_heap_def)

lemma sample_initial_layout: "initial_layout sample_heap = [(0x1004, 65524, False)]"
  by (simp add: initial_layout_def heap_base_def sample_heap_def Let_def)

lemma sample_heap_inv: "heap_inv (prvHeapInit sample_heap) [(0x1004, 65524, False)]"
  using prvHeapInit_inv [OF sample_heap_placed] sample_initial_layout by simp

lemma sample_malloc_spec:
  "malloc_spec 100 [(0x1004, 65524, False)] = (0x100c, [(0x1004, 108, True), (0x1070, 65416, False)])"
  by (simp add: malloc_spec_def rounded_size_def Let_def)

definition sample_ring :: "(nat, nat) pstore" where
  "sample_ring = \<lparr>xItemValue = (\<lambda>_. 0), pxNext = (\<lambda>_. End 0), pxPrevious = (\<lambda>_. End 0),
     pvContainer = (\<lambda>_. None), uxNumberOfItems = (\<lambda>_. 0), pxIndex = (\<lambda>_. End 0)\<rparr>"

definition sample_ring_store :: "(nat, nat) lists" where
  "sample_ring_store = \<lparr>lst = (\<lambda>_. kl_empty), ival = (\<lambda>_. 0), cont = (\<lambda>_. None)\<rparr>"

lemma sample_ring_refines: "refines {0} (vListInitialise 0 sample_ring) (l_initialise 0 sample_ring_store)"
proof -
  have "refines {} sample_ring sample_ring_store"
    by (simp add: refines_def lists_ok_def sample_ring_def sample_ring_store_def)
  from refines_vListInitialise [OF this, of 0] show ?thesis by (simp add: sample_ring_store_def)
qed

subsection \<open>Queues, semaphores and mutexes\<close>

text \<open>
  \<open>0x500\<close> is an empty queue of two items of 4 bytes, \<open>0xC00\<close> a full one; \<open>0x900\<close> is a mutex
  that the idle task holds, \<open>0xA00\<close> one that the running task holds, \<open>0xE00\<close> (with no lists of
  its own in the invariant) a free one; \<open>0xB00\<close> is a counting semaphore with 1 of 3.
\<close>

definition sample_queue_of :: "ptr \<Rightarrow> u32 \<Rightarrow> u32 \<Rightarrow> xQUEUE" where
  "sample_queue_of a r n = \<lparr>pcHead = a, pcTail = a + 8, pcWriteTo = a, u_word = a + r, uxMessagesWaiting = n,
     uxLength = 2, uxItemSize = 4, cRxLock = queueUNLOCKED, cTxLock = queueUNLOCKED\<rparr>"

definition sample_sem :: "ptr \<Rightarrow> ptr \<Rightarrow> u32 \<Rightarrow> u32 \<Rightarrow> xQUEUE" where
  "sample_sem h t n m = \<lparr>pcHead = h, pcTail = t, pcWriteTo = h, u_word = 0, uxMessagesWaiting = n,
     uxLength = m, uxItemSize = 0, cRxLock = queueUNLOCKED, cTxLock = queueUNLOCKED\<rparr>"

definition sample_stream :: "u8 \<Rightarrow> StreamBuffer_t" where
  "sample_stream f = \<lparr>xTail = 0, xHead = 0, xLength = 16, xTriggerLevelBytes = 1, xTaskWaitingToReceive = NULL,
     xTaskWaitingToSend = NULL, pucBuffer = 0x3000, ucFlags = f\<rparr>"

definition sample_timer :: xTIMER where
  "sample_timer = \<lparr>pcTimerName = 0, xTimerPeriodInTicks = 5, uxAutoReload = 1, pvTimerID = 0, pxCallbackFunction = 0\<rparr>"

definition sample_sys :: sys where
  "sample_sys = \<lparr>kern = sample,
     queues = (\<lambda>_. sample_sem 1 0 0 0)(0x500 := sample_queue_of 0x548 4 0, 0xC00 := sample_queue_of 0xC48 4 2,
       0x900 := sample_sem 0 0x100 0 1, 0xA00 := sample_sem 0 0x200 0 1, 0xE00 := sample_sem 0 0 1 1,
       0xB00 := sample_sem 0xB00 0xB00 1 3),
     mem = (\<lambda>a. if a = 0xC48 then 7 else 9), streams = (\<lambda>_. sample_stream 0)(0xD00 := sample_stream 1),
     groups = (\<lambda>_. \<lparr>uxEventBits = 0\<rparr>), timers = (\<lambda>_. sample_timer), pxCurrentTimerList = TimerL1,
     pxOverflowTimerList = TimerL2, xTimerQueue = 0x500, xTimerTaskHandle = 0x600, xLastTime = 4\<rparr>"

lemma sample_sys_fields [simp]:
  "kern sample_sys = sample"
  "queues sample_sys 0x500 = sample_queue_of 0x548 4 0" "queues sample_sys 0xC00 = sample_queue_of 0xC48 4 2"
  "queues sample_sys 0x900 = sample_sem 0 0x100 0 1" "queues sample_sys 0xA00 = sample_sem 0 0x200 0 1"
  "queues sample_sys 0xE00 = sample_sem 0 0 1 1" "queues sample_sys 0xB00 = sample_sem 0xB00 0xB00 1 3"
  by (simp_all add: sample_sys_def)

lemma sample_no_null: "no_null sample"
  by (auto simp: no_null_def sample_cont)

lemma sample_usable:
  assumes "q \<in> {0x500, 0x900, 0xA00, 0xB00, 0xC00}"
  shows "usable sample_Ls q sample_sys"
  using assms sample_inv sample_no_null by (auto simp: usable_def sample_Ls_def)

lemma sample_unlocked: "unlocked q sample_sys"
  by (simp add: unlocked_def sample_sys_def sample_queue_of_def sample_sem_def)

lemma sample_shape [simp]:
  "uxItemSize (queues sample_sys 0x500) = 4" "uxItemSize (queues sample_sys 0xC00) = 4"
  "uxLength (queues sample_sys 0x500) = 2" "uxLength (queues sample_sys 0xC00) = 2"
  by (simp_all add: sample_queue_of_def)

lemma sample_holds_empty: "holds 0x500 sample_sys []"
proof -
  have "ring (queues sample_sys 0x500) 0" by (simp add: ring_def geom_def slot_def sample_queue_of_def)
  then show ?thesis unfolding holds_def by (intro exI [of _ 0]) (simp add: contents_def sample_queue_of_def)
qed

lemma sample_holds_full: "holds 0xC00 sample_sys [[7, 9, 9, 9], [9, 9, 9, 9]]"
proof -
  have "ring (queues sample_sys 0xC00) 0" by (simp add: ring_def geom_def slot_def sample_queue_of_def)
  moreover have "contents (queues sample_sys 0xC00) 0 (mem sample_sys) = [[7, 9, 9, 9], [9, 9, 9, 9]]"
    by (simp add: contents_def bytes_def slot_def sample_queue_of_def sample_sys_def upt_conv_Cons)
  ultimately show ?thesis unfolding holds_def by (intro exI [of _ 0]) simp
qed

lemma sample_waiters [simp]:
  "waiters (WaitReceiveL q) sample = (if q = 0x500 then [0x600] else [])" "waiters (WaitSendL q) sample = []"
  by (simp_all add: waiters_def)

lemma sample_buffer: "q = 0x500 \<or> q = 0xC00 \<Longrightarrow> fifo_buffer q 0x2000 sample_sys"
  by (auto simp: fifo_buffer_def outside_def sample_queue_of_def)

lemma sample_sems:
  "mutex_ok 0x900 sample_sys" "holder 0x900 sample_sys = Some 0x100"
  "mutex_ok 0xA00 sample_sys" "holder 0xA00 sample_sys = Some 0x200"
  "mutex_ok 0xE00 sample_sys" "holder 0xE00 sample_sys = None"
  "sem_ok 0xB00 sample_sys"
  by (simp_all add: mutex_ok_def holder_def sem_ok_def sample_sem_def)

subsection \<open>A kernel with no queues\<close>

definition calm :: kernel where
  "calm = \<lparr>ls = \<lparr>lst = (\<lambda>_. kl_empty)
       (ReadyL 0 := \<lparr>elems = [StateItem 0x100], idx = None\<rparr>, ReadyL 1 := \<lparr>elems = [StateItem 0x200], idx = None\<rparr>),
       ival = (\<lambda>_. 0), cont = (\<lambda>_. None)(StateItem 0x100 := Some (ReadyL 0), StateItem 0x200 := Some (ReadyL 1))\<rparr>,
     tcbs = (\<lambda>_. sample_tcb 0)(0x200 := sample_tcb 1),
     heap = prvHeapInit sample_heap, pxCurrentTCB = 0x200, pxDelayedTaskList = DelayedL1,
     pxOverflowDelayedTaskList = DelayedL2, uxDeletedTasksWaitingCleanUp = 0, uxCurrentNumberOfTasks = 2,
     xTickCount = 4, uxTopReadyPriority = 1, xSchedulerRunning = True, uxPendedTicks = 0,
     xYieldPending = False, xNumOfOverflows = 0, uxTaskNumber = 2, xNextTaskUnblockTime = portMAX_DELAY,
     xIdleTaskHandle = 0x100, uxSchedulerSuspended = 0, cpu = sample_port\<rparr>"

lemma calm_heap: "heap_valid (heap calm)"
  using sample_heap_inv by (auto simp: heap_valid_def calm_def)

lemma calm_quiet: "quiet calm"
  by (simp add: quiet_def settled_def calm_def kl_empty_def)

lemma calm_inv: "kinv static_lists {} calm"
proof -
  have cont: "cont_of calm i = Some l \<longleftrightarrow> (i, l) \<in> {(StateItem 0x100, ReadyL 0), (StateItem 0x200, ReadyL 1)}" for i l
    by (auto simp: calm_def split: if_splits)
  have els: "items calm l = (if l = ReadyL 0 then [StateItem 0x100] else if l = ReadyL 1 then [StateItem 0x200] else [])" for l
    by (simp add: calm_def kl_empty_def)
  have "lists_ok static_lists (ls calm)"
  proof -
    have "kl_ok (lst (ls calm) l)" for l by (auto simp: calm_def kl_ok_def kl_empty_def)
    moreover have "cont_of calm i = Some l \<longleftrightarrow> i \<in> set (items calm l)" for i l
      unfolding cont els by (auto split: if_splits)
    moreover have "l \<in> static_lists" if "cont_of calm i = Some l" for i l
      using that by (auto simp: cont static_lists_def configMAX_PRIORITIES_def)
    ultimately show ?thesis unfolding lists_ok_def by blast
  qed
  moreover have "place_ok lo calm i l" if "cont_of calm i = Some l" for lo i l
    using that unfolding cont by (elim insertE emptyE)
      (simp_all add: place_ok_def calm_def sample_tcb_def configMAX_PRIORITIES_def)
  ultimately show ?thesis
    using els cont by (auto simp: kinv_at_def delayed_pair_def configMAX_PRIORITIES_def calm_def kl_empty_def)
qed

lemma calm_lists_live: "lists_live static_lists calm"
  by (auto simp: lists_live_def static_lists_def)

definition calm_sys :: sys where
  "calm_sys = \<lparr>kern = calm, queues = (\<lambda>_. sample_sem 1 0 0 0), mem = (\<lambda>_. 0),
     streams = (\<lambda>_. sample_stream 0), groups = (\<lambda>_. \<lparr>uxEventBits = 0\<rparr>), timers = (\<lambda>_. sample_timer),
     pxCurrentTimerList = TimerL1, pxOverflowTimerList = TimerL2, xTimerQueue = NULL, xTimerTaskHandle = NULL,
     xLastTime = 0\<rparr>"

lemma calm_sys_fields [simp]: "kern calm_sys = calm"
  by (simp add: calm_sys_def)

lemma calm_fits: "fits 4 16 calm"
proof -
  have "heap_base (prvHeapInit sample_heap) = 0x1004"
    by (simp add: prvHeapInit_def heap_base_def sample_heap_def Let_def)
  then show ?thesis by (simp add: fits_def queue_bytes_def calm_def)
qed

lemma calm_malloc: "\<exists>h'. heap_malloc 72 (heap calm) = Some (0x100c, h')"
proof -
  have "fst (malloc_spec 72 [(0x1004, 65524, False)]) = 0x100c"
    by (simp add: malloc_spec_def rounded_size_def Let_def)
  then show ?thesis using heap_malloc_spec [OF sample_heap_inv, of 72] by (auto simp: calm_def)
qed

subsection \<open>Stream buffers and event groups\<close>

text \<open>\<open>0xD00\<close> is an empty message buffer of 15 bytes, every other address an empty stream buffer; in the event group
  \<open>0x800\<close> no bit is set.\<close>

lemma sample_quiet: "quiet sample"
  using sample_settled by (simp add: quiet_def)

lemma sample_stream_fields [simp]:
  "xLength (sample_stream f) = 16" "pucBuffer (sample_stream f) = 0x3000" "ucFlags (sample_stream f) = f"
  "xTaskWaitingToReceive (sample_stream f) = NULL" "xTaskWaitingToSend (sample_stream f) = NULL"
  "sb_ok (sample_stream f)" "sb_content (sample_stream f) m = []"
  by (simp_all add: sample_stream_def sb_ok_def sb_content_def sb_count_def)

lemma sample_streams [simp]: "streams sample_sys = (\<lambda>_. sample_stream 0)(0xD00 := sample_stream 1)"
  by (simp add: sample_sys_def)

lemma sample_groups [simp]: "groups sample_sys x = \<lparr>uxEventBits = 0\<rparr>"
  by (simp add: sample_sys_def)

lemma sample_idle:
  "sb_idle 0xC80 sample_sys" "sb_idle 0xD00 sample_sys"
  using sample_quiet by (simp_all add: sb_idle_def)

lemma sample_messages: "message_content 0xD00 sample_sys []"
  using sample_idle(2) by (simp add: message_content_def is_message_buffer_def sbFLAGS_IS_MESSAGE_BUFFER_def)

end
