(* ===== verification/TasksSpec.thy ===== *)
theory TasksSpec
  imports Tasks QueueCreate
begin

section \<open>What creating and deleting a task does\<close>

subsection \<open>The new task\<close>

text \<open>Every item in a list belongs to a live block of the heap.\<close>

definition items_live :: "kernel \<Rightarrow> bool" where
  "items_live k \<longleftrightarrow> (\<forall>i l. cont_of k i = Some l \<longrightarrow> owner i \<in> fst ` heap_live (heap k))"

lemma items_live_fresh:
  assumes "items_live k" and "p \<notin> fst ` heap_live (heap k)"
  shows "cont_of k (StateItem p) = None" and "cont_of k (EventItem p) = None"
proof -
  have "cont_of k i = None" if "owner i = p" for i
    using assms that unfolding items_live_def by (metis not_None_eq)
  then show "cont_of k (StateItem p) = None" "cont_of k (EventItem p) = None" by simp_all
qed

definition capped :: "u32 \<Rightarrow> u32" where
  "capped n = (if n \<ge> 6 then 5 else n)"

lemma capped_less: "unat (capped n) < configMAX_PRIORITIES"
  by (auto simp: capped_def configMAX_PRIORITIES_def word_le_nat_alt)

definition fresh_tcb :: "ptr \<Rightarrow> u32 \<Rightarrow> u32 \<Rightarrow> tcb \<Rightarrow> bool" where
  "fresh_tcb stk q sp t \<longleftrightarrow> pxStack t = stk \<and> uxPriority t = q \<and> uxBasePriority t = q \<and> uxMutexesHeld t = 0 \<and>
     uxCriticalNesting t = 0 \<and> ulNotifiedValue t = 0 \<and> ucNotifyState t = taskNOT_WAITING_NOTIFICATION \<and> pxTopOfStack t = sp"

lemma kern_store [simp]:
  "kern (store_handle h p s) = (kern s)\<lparr>xIdleTaskHandle := (if h = AtIdleHandle then p else xIdleTaskHandle (kern s))\<rparr>"
  by (cases h) simp_all

lemma aligned_stack: "x AND NOT portBYTE_ALIGNMENT_MASK AND portBYTE_ALIGNMENT_MASK = 0"
  by (rule bit_word_eqI) (simp add: bit_simps)

lemma init_item_free: "cont S i = None \<Longrightarrow> l_init_item i S = S"
  by (simp add: l_init_item_def fun_upd_idem)

lemma initialise_new_task:
  assumes f: "free_areas (cpu (kern s)) (l # u # fs)" and free: "cont_of (kern s) (StateItem p) = None" "cont_of (kern s) (EventItem p) = None"
  shows "\<exists>t c. prvInitialiseNewTask code name d arg n h p s = Some (store_handle h p (s\<lparr>kern := (kern s)
       \<lparr>ls := l_set_value (EventItem p) (6 - capped n) (ls (kern s)), cpu := c, tcbs := (tcbs (kern s))(p := t)\<rparr>\<rparr>)) \<and>
     fresh_tcb (pxStack (tcbs (kern s) p)) (capped n) (pxTopOfStack t) t \<and>
     free_areas c fs \<and> csa_chain c (pxTopOfStack t) [l, u] \<and> area c l 1 = code \<and> area c l 8 = arg \<and>
     (\<forall>v cs. csa_chain (cpu (kern s)) v cs \<and> set cs \<inter> {l, u} = {} \<longrightarrow> csa_chain c v cs)"
proof -
  define stk where "stk = (pxStack (tcbs (kern s) p) + sizeof_StackType_t * (d - 1)) AND NOT portBYTE_ALIGNMENT_MASK"
  obtain sp c where C: "pxPortInitialiseStack stk code arg (cpu (kern s)) = Some (sp, c)" "free_areas c fs"
    "csa_chain c sp [l, u]" "area c l 1 = code" "area c l 8 = arg"
    "\<And>e i. link_of e \<notin> {l, u} \<Longrightarrow> i < 16 \<Longrightarrow> area c e i = area (cpu (kern s)) e i"
    using initialise_stack_spec [OF f, of stk code arg] by blast
  have chains: "csa_chain c v cs" if "csa_chain (cpu (kern s)) v cs" "set cs \<inter> {l, u} = {}" for v cs
  proof (rule csa_chain_cong [OF that(1) refl], intro ballI)
    fix e assume "e \<in> set cs"
    then have "link_of e \<notin> {l, u}" using chain_links [OF that(1)] that(2) by auto
    then show "link_of (area c e 0) = link_of (area (cpu (kern s)) e 0)" using C(6) by simp
  qed
  have a: "stk AND portBYTE_ALIGNMENT_MASK = 0" unfolding stk_def using aligned_stack by (simp add: and.assoc)
  have i: "l_init_item (EventItem p) (l_init_item (StateItem p) (ls (kern s))) = ls (kern s)"
    using free by (simp add: init_item_free)
  have q: "(if n \<ge> of_nat configMAX_PRIORITIES then of_nat configMAX_PRIORITIES - 1 else n) = capped n"
    by (simp add: capped_def)
  define t where "t = (pcTaskName_update (\<lambda>old. (copy_name configMAX_TASK_NAME_LEN 0 (\<lambda>x. mem s (name + of_nat x)) old)
      [configMAX_TASK_NAME_LEN - 1 := 0]) (tcbs (kern s) p))\<lparr>uxPriority := capped n, uxBasePriority := capped n,
      uxMutexesHeld := 0, uxCriticalNesting := 0, ulNotifiedValue := 0, ucNotifyState := taskNOT_WAITING_NOTIFICATION,
      pxTopOfStack := sp\<rparr>"
  have "prvInitialiseNewTask code name d arg n h p s = Some (store_handle h p (s\<lparr>kern := (kern s)
       \<lparr>ls := l_set_value (EventItem p) (6 - capped n) (ls (kern s)), cpu := c, tcbs := (tcbs (kern s))(p := t)\<rparr>\<rparr>))"
    unfolding prvInitialiseNewTask_def Let_def q unfolding stk_def [symmetric]
    using C(1) a by (simp add: i t_def)
  moreover have "fresh_tcb (pxStack (tcbs (kern s) p)) (capped n) sp t" "pxTopOfStack t = sp"
    by (simp_all add: fresh_tcb_def t_def)
  ultimately show ?thesis using C(2-5) chains by metis
qed

lemma switch_heap: "vTaskSwitchContext k = Some k' \<Longrightarrow> heap k' = heap k \<and> cpu k' = cpu k \<and> xSchedulerRunning k' = xSchedulerRunning k"
  by (auto simp: vTaskSwitchContext_def taskSELECT_HIGHEST_PRIORITY_TASK_def split: if_splits bind_splits)

lemma add_new_task:
  assumes inv: "kinv Ls {} k" and free: "cont_of k (StateItem p) = None" and p: "unat (prio k p) < configMAX_PRIORITIES"
    and cur: "pxCurrentTCB k \<noteq> NULL" and run: "uxSchedulerSuspended k = 0"
  shows "\<exists>k'. prvAddNewTaskToReadyList p k = Some k' \<and> kinv Ls {} k' \<and>
     cont_of k' = (cont_of k)(StateItem p := Some (ReadyL (unat (prio k p)))) \<and> val_of k' = val_of k \<and> tcbs k' = tcbs k \<and>
     heap k' = heap k \<and> cpu k' = cpu k \<and> uxCurrentNumberOfTasks k' = uxCurrentNumberOfTasks k + 1 \<and>
     xTickCount k' = xTickCount k \<and> uxSchedulerSuspended k' = 0 \<and>
     (if xSchedulerRunning k then if prio k (pxCurrentTCB k) < prio k p then runs_highest k' else pxCurrentTCB k' = pxCurrentTCB k
      else pxCurrentTCB k' = (if prio k (pxCurrentTCB k) \<le> prio k p then p else pxCurrentTCB k))"
proof -
  define k1 where "k1 = k\<lparr>uxCurrentNumberOfTasks := uxCurrentNumberOfTasks k + 1, uxTaskNumber := uxTaskNumber k + 1,
    pxCurrentTCB := (if \<not> xSchedulerRunning k \<and> prio k (pxCurrentTCB k) \<le> prio k p then p else pxCurrentTCB k)\<rparr>"
  define k2 where "k2 = prvAddTaskToReadyList p k1"
  have i1: "kinv Ls {} k1" by (rule kinv_fields [where k = k]) (use inv in \<open>simp_all add: k1_def\<close>)
  have i2: "kinv Ls {} k2" unfolding k2_def using kinv_add_ready [OF i1] free p by (simp add: k1_def)
  have f2: "cont_of k2 = (cont_of k)(StateItem p := Some (ReadyL (unat (prio k p))))" "val_of k2 = val_of k" "tcbs k2 = tcbs k"
    "xTickCount k2 = xTickCount k" "uxSchedulerSuspended k2 = 0" "heap k2 = heap k" "cpu k2 = cpu k"
    "uxCurrentNumberOfTasks k2 = uxCurrentNumberOfTasks k + 1" "pxCurrentTCB k2 = pxCurrentTCB k1"
    "xSchedulerRunning k2 = xSchedulerRunning k"
    using run by (simp_all add: k2_def k1_def prvAddTaskToReadyList_eq)
  have e: "prvAddNewTaskToReadyList p k = (if xSchedulerRunning k \<and> prio k (pxCurrentTCB k1) < prio k p then vTaskSwitchContext k2 else Some k2)"
    using cur by (cases "xSchedulerRunning k")
      (simp_all add: prvAddNewTaskToReadyList_def Let_def portYIELD_WITHIN_API_def k2_def k1_def prvAddTaskToReadyList_eq)
  show ?thesis
  proof (cases "xSchedulerRunning k \<and> prio k (pxCurrentTCB k) < prio k p")
    case True
    have "some_ready k2" using some_ready_iff [OF i2] f2(1) by auto
    from switch_runs_highest [OF i2 f2(5) this] obtain k' where k': "vTaskSwitchContext k2 = Some k'" "kinv Ls {} k'"
      "cont_of k' = cont_of k2" "val_of k' = val_of k2" "tcbs k' = tcbs k2" "xTickCount k' = xTickCount k2"
      "uxSchedulerSuspended k' = 0" "uxCurrentNumberOfTasks k' = uxCurrentNumberOfTasks k2" "runs_highest k'" by blast
    then show ?thesis using True f2 e switch_heap [OF k'(1)] by (simp add: k1_def)
  next
    case False
    then show ?thesis using f2 e i2 by (auto simp: k1_def)
  qed
qed

subsection \<open>Creation as a whole\<close>

text \<open>The two blocks of a task: its stack and its control block.\<close>

definition task_blocks :: "ptr \<Rightarrow> ptr \<Rightarrow> nat \<Rightarrow> (ptr \<times> nat) set \<Rightarrow> (ptr \<times> nat) set \<Rightarrow> bool" where
  "task_blocks stk p d L L' \<longleftrightarrow> (\<exists>m m'. d \<le> m \<and> 88 \<le> m' \<and> L' = insert (p, m') (insert (stk, m) L) \<and>
     apart (p, m') (stk, m) \<and> (\<forall>x \<in> L. apart (p, m') x \<and> apart (stk, m) x))"

lemma quiet_heap [simp]: "quiet (k\<lparr>heap := h\<rparr>) = quiet k"
  by (simp add: quiet_def settled_def)

lemma unat_stack_size: "unat (ucast d * sizeof_StackType_t) = 4 * unat (d :: 16 word)"
proof -
  have "unat d < 2 ^ 16" using unsigned_less [of d] by simp
  moreover from this have "unat (ucast d :: u32) = unat d" by (simp add: unsigned_ucast_eq take_bit_nat_eq_self_iff)
  ultimately show ?thesis by (simp add: sizeof_StackType_t_def unat_word_ariths)
qed

theorem create_task_cases:
  assumes q: "quiet (kern s)" and hv: "heap_valid (heap (kern s))"
  shows "(\<exists>h'. xTaskCreate code name d arg n h s = Some (errCOULD_NOT_ALLOCATE_REQUIRED_MEMORY, s\<lparr>kern := (kern s)\<lparr>heap := h'\<rparr>\<rparr>) \<and>
       heap_valid h' \<and> heap_live h' = heap_live (heap (kern s))) \<or>
     (\<exists>stk p h'. stk \<noteq> NULL \<and> p \<noteq> NULL \<and> heap_valid h' \<and> p \<notin> fst ` heap_live (heap (kern s)) \<and>
       task_blocks stk p (4 * unat d) (heap_live (heap (kern s))) (heap_live h') \<and>
       xTaskCreate code name d arg n h s = do {
         s \<leftarrow> prvInitialiseNewTask code name (ucast d) arg n h p
           (s\<lparr>kern := upd_tcb p (pxStack_update (\<lambda>_. stk)) ((kern s)\<lparr>heap := h'\<rparr>)\<rparr>);
         s \<leftarrow> on_kern (prvAddNewTaskToReadyList p) s;
         Some (pdPASS, s)
       })"
proof -
  let ?h = "heap (kern s)"
  let ?n = "ucast d * sizeof_StackType_t"
  have m: "on_kern_r (pvPortMalloc w) (s\<lparr>kern := (kern s)\<lparr>heap := g\<rparr>\<rparr>) = Some (p, s\<lparr>kern := (kern s)\<lparr>heap := h'\<rparr>\<rparr>)"
    if "heap_malloc w g = Some (p, h')" for w g p h'
    using pvPortMalloc_quiet [of "(kern s)\<lparr>heap := g\<rparr>" w p h'] q that by (intro on_kern_r_Some [THEN trans]) simp_all
  have s0: "s\<lparr>kern := (kern s)\<lparr>heap := ?h\<rparr>\<rparr> = s" by simp
  show ?thesis
  proof (cases rule: heap4.alloc_cases [OF hv, of ?n])
    case (1 h')
    then have "on_kern_r (pvPortMalloc ?n) s = Some (NULL, s\<lparr>kern := (kern s)\<lparr>heap := h'\<rparr>\<rparr>)" using m [of ?n ?h] s0 by metis
    then show ?thesis using 1 by (intro disjI1 exI [of _ h']) (simp add: xTaskCreate_def)
  next
    case (2 stk b h1)
    then have a1: "on_kern_r (pvPortMalloc ?n) s = Some (stk, s\<lparr>kern := (kern s)\<lparr>heap := h1\<rparr>\<rparr>)" using m [of ?n ?h] s0 by metis
    show ?thesis
    proof (cases rule: heap4.alloc_cases [OF 2(2), of sizeof_TCB_t])
      case (1 h2)
      have "on_kern_r (pvPortMalloc sizeof_TCB_t) (s\<lparr>kern := (kern s)\<lparr>heap := h1\<rparr>\<rparr>) = Some (NULL, s\<lparr>kern := (kern s)\<lparr>heap := h2\<rparr>\<rparr>)"
        using m 1(1) by blast
      moreover obtain h3 where h3: "heap_free stk h2 = Some h3" "heap_valid h3" "heap_live h3 = heap_live h2 - {(stk, b)}"
        using heap4.free_spec [OF 1(2), of stk b] 1(3) 2(5) by auto
      moreover have "(stk, b) \<notin> heap_live ?h" using heap4.alloc_fresh(1) [OF hv 2(1,3)] by force
      then have "heap_live h3 = heap_live ?h" using h3(3) 1(3) 2(5) by auto
      moreover have "on_kern (vPortFree stk) (s\<lparr>kern := (kern s)\<lparr>heap := h2\<rparr>\<rparr>) = Some (s\<lparr>kern := (kern s)\<lparr>heap := h3\<rparr>\<rparr>)"
        using vPortFree_quiet [of "(kern s)\<lparr>heap := h2\<rparr>" stk h3] q h3(1) 2(3) by (intro on_kern_Some [THEN trans]) simp_all
      ultimately show ?thesis using a1 2(3) by (intro disjI1 exI [of _ h3]) (simp add: xTaskCreate_def)
    next
      case p: (2 p b' h2)
      have "on_kern_r (pvPortMalloc sizeof_TCB_t) (s\<lparr>kern := (kern s)\<lparr>heap := h1\<rparr>\<rparr>) = Some (p, s\<lparr>kern := (kern s)\<lparr>heap := h2\<rparr>\<rparr>)"
        using m p(1) by blast
      moreover have "task_blocks stk p (4 * unat d) (heap_live ?h) (heap_live h2)"
        using 2(4-6) p(4-6) unfolding task_blocks_def
        by (intro exI [of _ b] exI [of _ b']) (simp add: unat_stack_size sizeof_TCB_t_def)
      moreover have "p \<notin> fst ` heap_live ?h" using heap4.alloc_fresh(1) [OF 2(2) p(1,3)] 2(5) by auto
      ultimately show ?thesis using a1 2(3) p(2,3)
        by (intro disjI2 exI [of _ stk] exI [of _ p] exI [of _ h2]) (simp add: xTaskCreate_def)
    qed
  qed
qed

text \<open>A new context waits in two areas taken from the free ones; no other chain of areas changes.\<close>

definition new_context :: "ptr \<Rightarrow> ptr \<Rightarrow> u32 \<Rightarrow> port \<Rightarrow> port \<Rightarrow> bool" where
  "new_context code arg link P P' \<longleftrightarrow>
     (\<exists>l u. csa_chain P' link [l, u] \<and> area P' l 1 = code \<and> area P' l 8 = arg \<and>
        (\<forall>fs. free_areas P (l # u # fs) \<longrightarrow> free_areas P' fs) \<and>
        (\<forall>v cs. csa_chain P v cs \<and> set cs \<inter> {l, u} = {} \<longrightarrow> csa_chain P' v cs))"

text \<open>The state before the new task enters its ready list: its blocks are new, its items are in no list.\<close>

definition prepared :: "ptr \<Rightarrow> ptr \<Rightarrow> u32 \<Rightarrow> nat \<Rightarrow> ptr \<Rightarrow> kernel \<Rightarrow> kernel \<Rightarrow> bool" where
  "prepared code arg q d p k k' \<longleftrightarrow> p \<noteq> NULL \<and>
     cont_of k (StateItem p) = None \<and> cont_of k (EventItem p) = None \<and>
     ls k' = l_set_value (EventItem p) (6 - q) (ls k) \<and> (\<forall>x. x \<noteq> p \<longrightarrow> tcbs k' x = tcbs k x) \<and>
     fresh_tcb (pxStack (tcbs k' p)) q (pxTopOfStack (tcbs k' p)) (tcbs k' p) \<and>
     new_context code arg (pxTopOfStack (tcbs k' p)) (cpu k) (cpu k') \<and>
     heap_valid (heap k') \<and> task_blocks (pxStack (tcbs k' p)) p d (heap_live (heap k)) (heap_live (heap k')) \<and>
     pxCurrentTCB k' = pxCurrentTCB k \<and> uxSchedulerSuspended k' = uxSchedulerSuspended k \<and>
     xSchedulerRunning k' = xSchedulerRunning k \<and> xTickCount k' = xTickCount k \<and> xYieldPending k' = xYieldPending k \<and>
     uxPendedTicks k' = uxPendedTicks k \<and> uxCurrentNumberOfTasks k' = uxCurrentNumberOfTasks k \<and>
     pxDelayedTaskList k' = pxDelayedTaskList k \<and> pxOverflowDelayedTaskList k' = pxOverflowDelayedTaskList k \<and>
     xNextTaskUnblockTime k' = xNextTaskUnblockTime k \<and> uxTopReadyPriority k' = uxTopReadyPriority k"

definition no_memory :: "sys \<Rightarrow> sys \<Rightarrow> bool" where
  "no_memory s s' \<longleftrightarrow> (\<exists>h'. s' = s\<lparr>kern := (kern s)\<lparr>heap := h'\<rparr>\<rparr> \<and> heap_valid h' \<and> heap_live h' = heap_live (heap (kern s)))"

theorem create_prepared:
  assumes q: "quiet (kern s)" and hv: "heap_valid (heap (kern s))" and live: "items_live (kern s)"
    and f: "free_areas (cpu (kern s)) (l # u # fs)"
  shows "(\<exists>s'. xTaskCreate code name d arg n h s = Some (errCOULD_NOT_ALLOCATE_REQUIRED_MEMORY, s') \<and> no_memory s s') \<or>
     (\<exists>p s'. xTaskCreate code name d arg n h s = do { s \<leftarrow> on_kern (prvAddNewTaskToReadyList p) s'; Some (pdPASS, s) } \<and>
       prepared code arg (capped n) (4 * unat d) p (kern s) (kern s'))"
  using create_task_cases [OF q hv, of code name d arg n h]
proof (elim disjE exE conjE)
  fix stk p h'
  let ?k = "kern s"
  assume nn: "stk \<noteq> NULL" "p \<noteq> NULL" and hv': "heap_valid h'" and new: "p \<notin> fst ` heap_live (heap ?k)"
    and b: "task_blocks stk p (4 * unat d) (heap_live (heap ?k)) (heap_live h')"
  define s0 where "s0 = s\<lparr>kern := upd_tcb p (pxStack_update (\<lambda>_. stk)) (?k\<lparr>heap := h'\<rparr>)\<rparr>"
  assume run: "xTaskCreate code name d arg n h s = do {
         s \<leftarrow> prvInitialiseNewTask code name (ucast d) arg n h p s0;
         s \<leftarrow> on_kern (prvAddNewTaskToReadyList p) s; Some (pdPASS, s) }"
  note free = items_live_fresh [OF live new]
  have k0: "cont_of (kern s0) = cont_of ?k" "cpu (kern s0) = cpu ?k" "pxStack (tcbs (kern s0) p) = stk"
    by (simp_all add: s0_def)
  obtain t c where I: "prvInitialiseNewTask code name (ucast d) arg n h p s0 = Some (store_handle h p (s0\<lparr>kern := (kern s0)
       \<lparr>ls := l_set_value (EventItem p) (6 - capped n) (ls (kern s0)), cpu := c, tcbs := (tcbs (kern s0))(p := t)\<rparr>\<rparr>))"
    "fresh_tcb stk (capped n) (pxTopOfStack t) t" "free_areas c fs" "csa_chain c (pxTopOfStack t) [l, u]" "area c l 1 = code" "area c l 8 = arg"
    "\<forall>v cs. csa_chain (cpu ?k) v cs \<and> set cs \<inter> {l, u} = {} \<longrightarrow> csa_chain c v cs"
    using initialise_new_task [where s = s0 and p = p] f free unfolding k0(1-3) by blast
  define s1 where "s1 = store_handle h p (s0\<lparr>kern := (kern s0)
       \<lparr>ls := l_set_value (EventItem p) (6 - capped n) (ls (kern s0)), cpu := c, tcbs := (tcbs (kern s0))(p := t)\<rparr>\<rparr>)"
  have stk: "pxStack t = stk" using I(2) by (simp add: fresh_tcb_def)
  have "free_areas c fs'" if "free_areas (cpu ?k) (l # u # fs')" for fs'
  proof -
    have "l # u # fs' = l # u # fs" using chain_unique [of "cpu ?k" "FCX (cpu ?k)"] that f unfolding free_areas_def by blast
    then show ?thesis using I(3) by simp
  qed
  then have "new_context code arg (pxTopOfStack t) (cpu ?k) c"
    using I(4-7) unfolding new_context_def by blast
  then have "prepared code arg (capped n) (4 * unat d) p ?k (kern s1)"
    using nn hv' b free I(2) stk by (simp add: prepared_def s1_def s0_def)
  then show ?thesis using run I(1) by (intro disjI2 exI [of _ p] exI [of _ s1]) (simp add: s1_def)
qed (unfold no_memory_def, blast)

lemma prepared_inv:
  assumes inv: "kinv Ls {} k" and pr: "prepared code arg (capped n) d p k k'"
  shows "kinv Ls {} k'" and "cont_of k' (StateItem p) = None" and "unat (prio k' p) < configMAX_PRIORITIES" and "prio k' p = capped n"
proof -
  let ?k = "k\<lparr>tcbs := (tcbs k)(p := tcbs k' p)\<rparr>"
  have t: "uxPriority (tcbs k' p) = capped n" "tcbs k' = (tcbs k)(p := tcbs k' p)"
    using pr by (auto simp: prepared_def fresh_tcb_def fun_eq_iff)
  have f: "cont_of k (StateItem p) = None" "cont_of k (EventItem p) = None" "ls k' = l_set_value (EventItem p) (6 - capped n) (ls k)"
    "xTickCount k' = xTickCount k" using pr by (simp_all add: prepared_def)
  have "kinv_at (Suc (unat (xTickCount k))) Ls {} ?k"
    using kinv_upd_prio [OF inv, where f = "\<lambda>_. tcbs k' p" and p = p] f(1) t(1) capped_less by simp
  then have "kinv_at (Suc (unat (xTickCount k))) Ls {} (?k\<lparr>ls := l_set_value (EventItem p) (6 - capped n) (ls ?k)\<rparr>)"
    using kinv_set_value by blast
  then have "kinv_at (Suc (unat (xTickCount k))) Ls {} k'"
    by (rule kinv_fields) (use pr t(2) in \<open>auto simp: prepared_def\<close>)
  then show "kinv Ls {} k'" by (simp add: f(4))
  show "cont_of k' (StateItem p) = None" "unat (prio k' p) < configMAX_PRIORITIES" "prio k' p = capped n"
    using f t(1) capped_less by simp_all
qed

text \<open>A task is created: it is ready at its priority, with its own blocks and its first context.\<close>

definition created :: "ptr \<Rightarrow> ptr \<Rightarrow> u32 \<Rightarrow> nat \<Rightarrow> ptr \<Rightarrow> kernel \<Rightarrow> kernel \<Rightarrow> bool" where
  "created code arg q d p k k' \<longleftrightarrow> p \<noteq> NULL \<and>
     cont_of k (StateItem p) = None \<and> cont_of k (EventItem p) = None \<and>
     cont_of k' = (cont_of k)(StateItem p := Some (ReadyL (unat q))) \<and>
     val_of k' = (val_of k)(EventItem p := 6 - q) \<and>
     fresh_tcb (pxStack (tcbs k' p)) q (pxTopOfStack (tcbs k' p)) (tcbs k' p) \<and>
     (\<forall>x. x \<noteq> p \<longrightarrow> tcbs k' x = tcbs k x) \<and> xTickCount k' = xTickCount k \<and> uxSchedulerSuspended k' = 0 \<and>
     uxCurrentNumberOfTasks k' = uxCurrentNumberOfTasks k + 1 \<and>
     new_context code arg (pxTopOfStack (tcbs k' p)) (cpu k) (cpu k') \<and>
     heap_valid (heap k') \<and> task_blocks (pxStack (tcbs k' p)) p d (heap_live (heap k)) (heap_live (heap k')) \<and> items_live k'"

lemma createdI:
  assumes pr: "prepared code arg q d p k k1" and live: "items_live k"
    and k2: "cont_of k2 = (cont_of k1)(StateItem p := Some (ReadyL (unat (prio k1 p))))" "val_of k2 = val_of k1" "tcbs k2 = tcbs k1"
      "heap k2 = heap k1" "cpu k2 = cpu k1" "uxCurrentNumberOfTasks k2 = uxCurrentNumberOfTasks k1 + 1"
      "xTickCount k2 = xTickCount k1" "uxSchedulerSuspended k2 = 0"
  shows "created code arg q d p k k2"
proof -
  have "items_live k2"
    using live pr unfolding items_live_def prepared_def task_blocks_def by (auto simp: k2(1,4))
  moreover have "prio k1 p = q" using pr by (simp add: prepared_def fresh_tcb_def)
  ultimately show ?thesis using pr unfolding created_def k2 prepared_def by simp
qed

theorem create_task:
  assumes inv: "kinv Ls {} (kern s)" and q: "quiet (kern s)" and hv: "heap_valid (heap (kern s))"
    and live: "items_live (kern s)" and f: "free_areas (cpu (kern s)) (l # u # fs)"
    and cur: "pxCurrentTCB (kern s) \<noteq> NULL" "cont_of (kern s) (StateItem (pxCurrentTCB (kern s))) \<noteq> None"
  shows "(\<exists>s'. xTaskCreate code name d arg n h s = Some (errCOULD_NOT_ALLOCATE_REQUIRED_MEMORY, s') \<and> no_memory s s') \<or>
     (\<exists>p s'. xTaskCreate code name d arg n h s = Some (pdPASS, s') \<and> kinv Ls {} (kern s') \<and>
       created code arg (capped n) (4 * unat d) p (kern s) (kern s') \<and>
       (if xSchedulerRunning (kern s) then
          if prio (kern s) (pxCurrentTCB (kern s)) < capped n then runs_highest (kern s')
          else pxCurrentTCB (kern s') = pxCurrentTCB (kern s)
        else pxCurrentTCB (kern s') = (if prio (kern s) (pxCurrentTCB (kern s)) \<le> capped n then p else pxCurrentTCB (kern s))))"
  using create_prepared [OF q hv live f, of code name d arg n h]
proof (elim disjE exE conjE)
  fix p s1
  assume run: "xTaskCreate code name d arg n h s = do { s \<leftarrow> on_kern (prvAddNewTaskToReadyList p) s1; Some (pdPASS, s) }"
    and pr: "prepared code arg (capped n) (4 * unat d) p (kern s) (kern s1)"
  let ?k = "kern s" and ?k1 = "kern s1"
  note P = prepared_inv [OF inv pr]
  have k1: "pxCurrentTCB ?k1 = pxCurrentTCB ?k" "uxSchedulerSuspended ?k1 = 0" "xSchedulerRunning ?k1 = xSchedulerRunning ?k"
    using pr q by (simp_all add: prepared_def quiet_def)
  have cur1: "pxCurrentTCB ?k1 \<noteq> NULL" using cur(1) k1(1) by simp
  obtain k2 where k2: "prvAddNewTaskToReadyList p ?k1 = Some k2" "kinv Ls {} k2"
     "cont_of k2 = (cont_of ?k1)(StateItem p := Some (ReadyL (unat (prio ?k1 p))))" "val_of k2 = val_of ?k1" "tcbs k2 = tcbs ?k1"
     "heap k2 = heap ?k1" "cpu k2 = cpu ?k1" "uxCurrentNumberOfTasks k2 = uxCurrentNumberOfTasks ?k1 + 1"
     "xTickCount k2 = xTickCount ?k1" "uxSchedulerSuspended k2 = 0"
     "if xSchedulerRunning ?k1 then if prio ?k1 (pxCurrentTCB ?k1) < prio ?k1 p then runs_highest k2 else pxCurrentTCB k2 = pxCurrentTCB ?k1
      else pxCurrentTCB k2 = (if prio ?k1 (pxCurrentTCB ?k1) \<le> prio ?k1 p then p else pxCurrentTCB ?k1)"
    using add_new_task [OF P(1-3) cur1 k1(2)] by blast
  have "xTaskCreate code name d arg n h s = Some (pdPASS, s1\<lparr>kern := k2\<rparr>)" using run k2(1) by (simp add: on_kern_def)
  moreover have "created code arg (capped n) (4 * unat d) p ?k k2"
    by (rule createdI [OF pr live k2(3-10)])
  moreover have "prio ?k1 (pxCurrentTCB ?k1) = prio ?k (pxCurrentTCB ?k)"
  proof -
    have "pxCurrentTCB ?k \<noteq> p" using pr cur(2) by (auto simp: prepared_def)
    then have "tcbs ?k1 (pxCurrentTCB ?k) = tcbs ?k (pxCurrentTCB ?k)" using pr by (simp add: prepared_def)
    then show ?thesis using k1(1) by simp
  qed
  ultimately show ?thesis
    using k2(2,11) P(4) k1(1,3) by (intro disjI2 exI [of _ p] exI [of _ "s1\<lparr>kern := k2\<rparr>"]) simp
qed blast

subsection \<open>Deletion\<close>

text \<open>What a task owns: two blocks of the heap and the areas of its saved contexts.\<close>

definition owns :: "kernel \<Rightarrow> ptr \<Rightarrow> (ptr \<times> nat) set \<Rightarrow> u32 list \<Rightarrow> bool" where
  "owns k p B cs \<longleftrightarrow> (\<exists>m m'. B = {(p, m), (pxStack (tcbs k p), m')} \<and> p \<noteq> pxStack (tcbs k p)) \<and> B \<subseteq> heap_live (heap k) \<and>
     csa_chain (cpu k) (pxTopOfStack (tcbs k p)) cs \<and> cs \<noteq> []"

lemma delete_tcb:
  assumes q: "quiet k" and hv: "heap_valid (heap k)" and o: "owns k p B cs"
    and f: "free_areas (cpu k) fs" "distinct (cs @ fs)"
  shows "\<exists>h c. prvDeleteTCB p k = Some (k\<lparr>cpu := c, heap := h\<rparr>) \<and> heap_valid h \<and> heap_live h = heap_live (heap k) - B \<and>
     free_areas c (cs @ fs) \<and> (\<forall>v ds. csa_chain (cpu k) v ds \<and> set ds \<inter> set cs = {} \<longrightarrow> csa_chain c v ds)"
proof -
  let ?stk = "pxStack (tcbs k p)"
  obtain m m' where B: "B = {(p, m), (?stk, m')}" "p \<noteq> ?stk" "(p, m) \<in> heap_live (heap k)" "(?stk, m') \<in> heap_live (heap k)"
    "csa_chain (cpu k) (pxTopOfStack (tcbs k p)) cs" "cs \<noteq> []"
    using o unfolding owns_def by auto
  obtain c where c: "vPortReclaimCSA (pxTopOfStack (tcbs k p)) (cpu k) = Some c" "free_areas c (cs @ fs)"
    "\<And>e i. link_of e \<notin> set cs \<Longrightarrow> i < 16 \<Longrightarrow> area c e i = area (cpu k) e i"
    using reclaim_spec [OF f(1) B(5) f(2) B(6)] by blast
  obtain h1 where h1: "heap_free ?stk (heap k) = Some h1" "heap_valid h1" "heap_live h1 = heap_live (heap k) - {(?stk, m')}"
    using heap4.free_spec [OF hv B(4)] by blast
  have "(p, m) \<in> heap_live h1" using B(2,3) h1(3) by auto
  then obtain h2 where h2: "heap_free p h1 = Some h2" "heap_valid h2" "heap_live h2 = heap_live h1 - {(p, m)}"
    using heap4.free_spec [OF h1(2)] by blast
  have nn: "?stk \<noteq> NULL" "p \<noteq> NULL" using heap4.live_spec [OF hv] B(3,4) by auto
  have qc: "quiet (k\<lparr>cpu := c\<rparr>)" "quiet (k\<lparr>cpu := c, heap := h1\<rparr>)" using q by (simp_all add: quiet_def settled_def)
  have "vPortFree ?stk (k\<lparr>cpu := c\<rparr>) = Some (k\<lparr>cpu := c, heap := h1\<rparr>)"
    using vPortFree_quiet [OF qc(1) _ nn(1)] h1(1) by simp
  moreover have "vPortFree p (k\<lparr>cpu := c, heap := h1\<rparr>) = Some (k\<lparr>cpu := c, heap := h2\<rparr>)"
    using vPortFree_quiet [OF qc(2) _ nn(2)] h2(1) by simp
  ultimately have "prvDeleteTCB p k = Some (k\<lparr>cpu := c, heap := h2\<rparr>)" using c(1) by (simp add: prvDeleteTCB_def)
  moreover have "csa_chain c v ds" if "csa_chain (cpu k) v ds" "set ds \<inter> set cs = {}" for v ds
  proof (rule csa_chain_cong [OF that(1) refl], intro ballI)
    fix e assume "e \<in> set ds"
    then have "link_of e \<notin> set cs" using chain_links [OF that(1)] that(2) by auto
    then show "link_of (area c e 0) = link_of (area (cpu k) e 0)" using c(3) by simp
  qed
  moreover have "heap_live h2 = heap_live (heap k) - B" using h1(3) h2(3) B(1) by auto
  ultimately show ?thesis using h2(2) c(2) by blast
qed

lemma quiet_drop:
  assumes inv: "kinv_at lo Ls X k" and q: "quiet k" shows "quiet (k\<lparr>ls := drop_item i (ls k)\<rparr>)"
  using q static_items_drop [OF inv, of PendingReadyL i] by (simp add: quiet_def settled_def)

lemma drop_task:
  fixes p :: ptr
  assumes inv: "kinv_at lo Ls X k" and q: "quiet k"
  defines "k' \<equiv> k\<lparr>ls := drop_item (EventItem p) (drop_item (StateItem p) (ls k))\<rparr>"
  shows "kinv_at lo Ls (X - {p}) k'" and "quiet k'" and "cont_of k' = (cont_of k)(StateItem p := None, EventItem p := None)"
    and "val_of k' = val_of k"
proof -
  let ?k1 = "k\<lparr>ls := drop_item (StateItem p) (ls k)\<rparr>"
  have i1: "kinv_at lo Ls (insert p X) ?k1" by (rule kinv_drop(1) [OF inv])
  show "kinv_at lo Ls (X - {p}) k'" using kinv_drop(2) [OF i1, of p] by (simp add: k'_def insert_Diff_if)
  show "quiet k'" using quiet_drop [OF i1 quiet_drop [OF inv q], of "EventItem p"] by (simp add: k'_def)
  show "cont_of k' = (cont_of k)(StateItem p := None, EventItem p := None)" "val_of k' = val_of k" by (simp_all add: k'_def)
qed

text \<open>Deleting another task releases what it owns at once.\<close>

theorem delete_other:
  assumes inv: "kinv Ls {} k" and q: "quiet k" and hv: "heap_valid (heap k)" and p: "prvGetTCBFromHandle x k = p" "p \<noteq> pxCurrentTCB k"
    and c: "cont_of k (StateItem p) \<noteq> None" and o: "owns k p B cs" and f: "free_areas (cpu k) fs" "distinct (cs @ fs)"
  shows "\<exists>k'. vTaskDelete x k = Some k' \<and> kinv Ls {} k' \<and> quiet k' \<and>
     cont_of k' = (cont_of k)(StateItem p := None, EventItem p := None) \<and> val_of k' = val_of k \<and> tcbs k' = tcbs k \<and>
     pxCurrentTCB k' = pxCurrentTCB k \<and> xTickCount k' = xTickCount k \<and>
     uxCurrentNumberOfTasks k' = uxCurrentNumberOfTasks k - 1 \<and>
     heap_valid (heap k') \<and> heap_live (heap k') = heap_live (heap k) - B \<and> free_areas (cpu k') (cs @ fs) \<and>
     (\<forall>v ds. csa_chain (cpu k) v ds \<and> set ds \<inter> set cs = {} \<longrightarrow> csa_chain (cpu k') v ds)"
proof -
  define k1 where "k1 = k\<lparr>ls := drop_item (EventItem p) (drop_item (StateItem p) (ls k)),
    uxTaskNumber := uxTaskNumber k + 1, uxCurrentNumberOfTasks := uxCurrentNumberOfTasks k - 1\<rparr>"
  note D = drop_task [OF inv q, of p]
  have i1: "kinv Ls {} k1" using kinv_fields [OF D(1), of k1] by (simp add: k1_def)
  have q1: "quiet k1" using D(2) by (simp add: k1_def quiet_def settled_def)
  have o1: "owns k1 p B cs" using o by (simp add: owns_def k1_def)
  obtain h c' where h: "prvDeleteTCB p k1 = Some (k1\<lparr>cpu := c', heap := h\<rparr>)" "heap_valid h" "heap_live h = heap_live (heap k1) - B"
     "free_areas c' (cs @ fs)" "\<forall>v ds. csa_chain (cpu k1) v ds \<and> set ds \<inter> set cs = {} \<longrightarrow> csa_chain c' v ds"
    using delete_tcb [OF q1 _ o1 _ f(2)] hv f(1) by (auto simp: k1_def)
  define k2 where "k2 = prvResetNextTaskUnblockTime (k1\<lparr>cpu := c', heap := h\<rparr>)"
  have "kinv Ls {} (k1\<lparr>cpu := c', heap := h\<rparr>)" using kinv_fields [OF i1] by simp
  then have i2: "kinv Ls {} k2" using reset_inv by (simp add: k2_def)
  have "vTaskDelete x k = Some k2"
    using p c h(1) unfolding vTaskDelete_def
    by (simp add: Let_def k_remove_eq k_remove_event_eq k1_def k2_def)
  moreover have "heap k2 = h" "cpu k2 = c'" by (auto simp: k2_def prvResetNextTaskUnblockTime_def split: option.splits)
  moreover have "cont_of k2 = (cont_of k)(StateItem p := None, EventItem p := None)" "val_of k2 = val_of k"
    using D(3,4) by (simp_all add: k2_def k1_def)
  moreover have "quiet k2" using q1 by (simp add: k2_def quiet_def settled_def)
  ultimately show ?thesis using i2 h by (intro exI [of _ k2]) (simp add: k2_def k1_def)
qed

lemma length_kl_insert_end: "kl_ok L \<Longrightarrow> length (elems (kl_insert_end x L)) = Suc (length (elems L))"
proof (cases "idx L")
  case (Some j)
  assume "kl_ok L"
  then have "j \<in> set (elems L)" using Some by (auto simp: kl_ok_def)
  from arg_cong [OF split_at [OF this], of length] show ?thesis by (simp add: kl_insert_end_def Some)
qed (simp add: kl_insert_end_def)

text \<open>A task that deletes itself gives the processor to the most urgent ready task and waits for the idle
  task to clean up.\<close>

theorem delete_self:
  assumes inv: "kinv Ls {} k" and q: "quiet k" and p: "prvGetTCBFromHandle x k = pxCurrentTCB k"
    and c: "cont_of k (StateItem (pxCurrentTCB k)) \<notin> {None, Some TerminationL}" and run: "xSchedulerRunning k"
    and other: "\<exists>y n. y \<noteq> pxCurrentTCB k \<and> cont_of k (StateItem y) = Some (ReadyL n)"
  shows "\<exists>k'. vTaskDelete x k = Some k' \<and> kinv Ls {} k' \<and>
     cont_of k' = (cont_of k)(StateItem (pxCurrentTCB k) := Some TerminationL, EventItem (pxCurrentTCB k) := None) \<and>
     tcbs k' = tcbs k \<and> heap k' = heap k \<and> cpu k' = cpu k \<and>
     uxDeletedTasksWaitingCleanUp k' = uxDeletedTasksWaitingCleanUp k + 1 \<and>
     uxCurrentNumberOfTasks k' = uxCurrentNumberOfTasks k \<and>
     length (items k' TerminationL) = length (items k TerminationL) + 1 \<and>
     pxCurrentTCB k' \<noteq> pxCurrentTCB k \<and> runs_highest k'"
proof -
  let ?p = "pxCurrentTCB k"
  define k0 where "k0 = k\<lparr>ls := drop_item (EventItem ?p) (drop_item (StateItem ?p) (ls k))\<rparr>"
  note D = drop_task [OF inv q, of ?p, folded k0_def]
  have i0: "kinv_at (Suc (unat (xTickCount k))) Ls {} k0" using D(1) by simp
  have c0: "cont_of k0 (StateItem ?p) = None" by (simp add: D(3))
  have f0: "tcbs k0 = tcbs k" "xTickCount k0 = xTickCount k" by (simp_all add: k0_def)
  have pr: "unat (prio k ?p) < configMAX_PRIORITIES" using c state_place(1) [OF inv] by (cases "cont_of k (StateItem ?p)") auto
  define k1 where "k1 = k0\<lparr>ls := l_insert_end TerminationL (StateItem ?p) (ls k0)\<rparr>"
  have i1: "kinv_at (Suc (unat (xTickCount k))) Ls {} k1"
    unfolding k1_def
  proof (rule kinv_insert_gen [OF i0 c0])
    show "TerminationL \<in> Ls" by (rule kinv_static [OF inv]) simp
    show "place_ok (Suc (unat (xTickCount k))) k0 (StateItem ?p) TerminationL" using pr f0 by simp
    show "\<forall>y. y \<notin> {} \<longrightarrow> cont (l_insert_end TerminationL (StateItem ?p) (ls k0)) (EventItem y) \<noteq> None \<longrightarrow>
       (\<exists>l \<in> delayed_or_suspended. cont (l_insert_end TerminationL (StateItem ?p) (ls k0)) (StateItem y) = Some l)"
    proof (intro allI impI)
      fix y assume "cont (l_insert_end TerminationL (StateItem ?p) (ls k0)) (EventItem y) \<noteq> None"
      then have e: "y \<noteq> ?p" "cont_of k (EventItem y) \<noteq> None" by (auto simp: D(3) split: if_splits)
      then show "\<exists>l \<in> delayed_or_suspended. cont (l_insert_end TerminationL (StateItem ?p) (ls k0)) (StateItem y) = Some l"
        using kinvD(8) [OF inv] by (auto simp: D(3))
    qed
  qed simp
  define k2 where "k2 = k\<lparr>uxTaskNumber := uxTaskNumber k + 1, ls := ls k1, uxDeletedTasksWaitingCleanUp := uxDeletedTasksWaitingCleanUp k + 1\<rparr>"
  have i2: "kinv_at (Suc (unat (xTickCount k))) Ls {} k2" using kinv_fields [OF i1] by (simp add: k2_def k1_def k0_def)
  then have i2: "kinv Ls {} k2" by (simp add: k2_def)
  have f2: "uxSchedulerSuspended k2 = 0" "cont_of k2 = (cont_of k)(StateItem ?p := Some TerminationL, EventItem ?p := None)"
    "tcbs k2 = tcbs k" "heap k2 = heap k" "cpu k2 = cpu k" "uxDeletedTasksWaitingCleanUp k2 = uxDeletedTasksWaitingCleanUp k + 1"
    "uxCurrentNumberOfTasks k2 = uxCurrentNumberOfTasks k"
    using q by (auto simp: k2_def k1_def k0_def D(3) [unfolded k0_def] quiet_def)
  have "some_ready k2" using some_ready_iff [OF i2] other f2(2) by auto
  then obtain k' where k': "vTaskSwitchContext k2 = Some k'" "kinv Ls {} k'" "cont_of k' = cont_of k2" "items k' = items k2"
     "tcbs k' = tcbs k2" "uxCurrentNumberOfTasks k' = uxCurrentNumberOfTasks k2" "runs_highest k'"
    using switch_runs_highest [OF i2 f2(1)] by blast
  have "vTaskDelete x k = vTaskSwitchContext k2"
    using p c q run unfolding vTaskDelete_def
    by (auto simp: Let_def k_remove_eq k_remove_event_eq k2_def k1_def k0_def portYIELD_WITHIN_API_def quiet_def)
  moreover have "uxDeletedTasksWaitingCleanUp k' = uxDeletedTasksWaitingCleanUp k2"
    using k'(1) by (auto simp: vTaskSwitchContext_def taskSELECT_HIGHEST_PRIORITY_TASK_def split: if_splits bind_splits)
  moreover have "items k0 TerminationL = items k TerminationL"
  proof -
    have "StateItem ?p \<notin> set (items k TerminationL)" "EventItem ?p \<notin> set (items k TerminationL)"
      using mem_items [OF inv kinv_static [OF inv, of TerminationL]] c kinvD(7) [OF inv, of "EventItem ?p" TerminationL] by auto
    moreover have "kinv_at (Suc (unat (xTickCount k))) Ls (insert ?p {}) (k\<lparr>ls := drop_item (StateItem ?p) (ls k)\<rparr>)"
      by (rule kinv_drop(1) [OF inv])
    note static_items_drop [OF this, of TerminationL "EventItem ?p"]
    ultimately show ?thesis
      using static_items_drop [OF inv, of TerminationL "StateItem ?p"] by (simp add: k0_def remove1_idem)
  qed
  then have "length (items k2 TerminationL) = length (items k TerminationL) + 1"
    using length_kl_insert_end [of "lst (ls k0) TerminationL"] kinvD(1) [OF i0] kinv_static [OF i0, of TerminationL]
    by (simp add: k2_def k1_def lists_ok_def)
  moreover have "pxCurrentTCB k' \<noteq> ?p"
    by (rule runs_highest_other [OF k'(7)]) (use k'(3) f2(2) in simp)
  ultimately show ?thesis
    using k' f2 switch_heap [OF k'(1)] fun_cong [OF k'(4), of TerminationL] by (intro exI [of _ k']) simp
qed

subsection \<open>The idle task cleans up\<close>

definition terminated :: "kernel \<Rightarrow> ptr set" where
  "terminated k = {p. cont_of k (StateItem p) = Some TerminationL}"

lemma terminated_items:
  assumes inv: "kinv_at lo Ls X k"
  shows "set (items k TerminationL) = StateItem ` terminated k" and "distinct (items k TerminationL)"
proof -
  have T: "TerminationL \<in> Ls" by (rule kinv_static [OF inv]) simp
  have st: "\<exists>p. i = StateItem p" if "cont_of k i = Some TerminationL" for i
    using kinvD(7) [OF inv that] by (cases i) auto
  show "set (items k TerminationL) = StateItem ` terminated k"
    using mem_items [OF inv T] st by (fastforce simp: terminated_def)
  show "distinct (items k TerminationL)" using kinvD(1) [OF inv] T by (auto simp: lists_ok_def kl_ok_def)
qed

lemma terminated_event:
  assumes inv: "kinv_at lo Ls {} k" and p: "p \<in> terminated k" shows "cont_of k (EventItem p) = None"
proof (rule ccontr)
  assume "cont_of k (EventItem p) \<noteq> None"
  then obtain l where "l \<in> delayed_or_suspended" "cont_of k (StateItem p) = Some l" using kinvD(8) [OF inv] by blast
  then show False using p by (auto simp: terminated_def delayed_or_suspended_def)
qed

text \<open>What the terminated tasks own, task by task and apart.\<close>

definition remains :: "kernel \<Rightarrow> (ptr \<Rightarrow> (ptr \<times> nat) set) \<Rightarrow> (ptr \<Rightarrow> u32 list) \<Rightarrow> u32 list \<Rightarrow> bool" where
  "remains k B C fs \<longleftrightarrow> (\<forall>p \<in> terminated k. owns k p (B p) (C p) \<and> distinct (C p @ fs)) \<and>
     (\<forall>p \<in> terminated k. \<forall>q \<in> terminated k. p \<noteq> q \<longrightarrow> B p \<inter> B q = {} \<and> set (C p) \<inter> set (C q) = {})"

lemma clean_up_step:
  assumes inv: "kinv Ls {} k" and q: "quiet k" and hv: "heap_valid (heap k)" and f: "free_areas (cpu k) fs"
    and r: "remains k B C fs" and its: "items k TerminationL = i # is"
  shows "\<exists>p k1 k2. i = StateItem p \<and> p \<in> terminated k \<and> k_remove i k = Some k1 \<and>
     prvDeleteTCB p (k1\<lparr>uxCurrentNumberOfTasks := uxCurrentNumberOfTasks k1 - 1,
       uxDeletedTasksWaitingCleanUp := uxDeletedTasksWaitingCleanUp k1 - 1\<rparr>) = Some k2 \<and>
     kinv Ls {} k2 \<and> quiet k2 \<and> heap_valid (heap k2) \<and> free_areas (cpu k2) (C p @ fs) \<and> remains k2 B C (C p @ fs) \<and>
     items k2 TerminationL = is \<and> terminated k2 = terminated k - {p} \<and> cont_of k2 = (cont_of k)(StateItem p := None) \<and>
     heap_live (heap k2) = heap_live (heap k) - B p \<and> tcbs k2 = tcbs k \<and> pxCurrentTCB k2 = pxCurrentTCB k \<and>
     uxCurrentNumberOfTasks k2 = uxCurrentNumberOfTasks k - 1 \<and>
     uxDeletedTasksWaitingCleanUp k2 = uxDeletedTasksWaitingCleanUp k - 1"
proof -
  note T = terminated_items [OF inv]
  have "i \<in> StateItem ` terminated k" using T(1) its by (metis list.set_intros(1))
  then obtain p where p: "i = StateItem p" "p \<in> terminated k" by blast
  have c: "cont_of k (StateItem p) = Some TerminationL" using p(2) by (simp add: terminated_def)
  define k1 where "k1 = k\<lparr>ls := drop_item (StateItem p) (ls k)\<rparr>"
  have rm: "k_remove i k = Some k1" using c p(1) by (simp add: k_remove_eq k1_def)
  have c1: "cont_of k1 = (cont_of k)(StateItem p := None)" by (simp add: k1_def)
  have i1: "kinv_at (Suc (unat (xTickCount k))) Ls (insert p {}) k1" unfolding k1_def by (rule kinv_drop(1) [OF inv])
  have i1': "kinv_at (Suc (unat (xTickCount k))) Ls {} k1"
    using kinv_exempt [OF i1, of p] terminated_event [OF inv p(2)] c1 by simp
  define k1' where "k1' = k1\<lparr>uxCurrentNumberOfTasks := uxCurrentNumberOfTasks k1 - 1,
       uxDeletedTasksWaitingCleanUp := uxDeletedTasksWaitingCleanUp k1 - 1\<rparr>"
  have f1: "tcbs k1' = tcbs k" "heap k1' = heap k" "cpu k1' = cpu k" "ls k1' = ls k1" "xTickCount k1' = xTickCount k"
    by (simp_all add: k1'_def k1_def)
  have i2: "kinv_at (Suc (unat (xTickCount k))) Ls {} k1'" using kinv_fields [OF i1'] by (simp add: k1'_def)
  have q1: "quiet k1'" using quiet_drop [OF inv q, of "StateItem p"] by (simp add: k1'_def k1_def quiet_def settled_def)
  have o: "owns k p (B p) (C p)" "distinct (C p @ fs)" using r p(2) by (auto simp: remains_def)
  have o1: "owns k1' p (B p) (C p)" using o(1) f1 by (simp add: owns_def)
  obtain h c' where h: "prvDeleteTCB p k1' = Some (k1'\<lparr>cpu := c', heap := h\<rparr>)" "heap_valid h" "heap_live h = heap_live (heap k) - B p"
     "free_areas c' (C p @ fs)" "\<And>v ds. csa_chain (cpu k) v ds \<Longrightarrow> set ds \<inter> set (C p) = {} \<Longrightarrow> csa_chain c' v ds"
    using delete_tcb [OF q1 _ o1 _ o(2)] hv f unfolding f1 by blast
  define k2 where "k2 = k1'\<lparr>cpu := c', heap := h\<rparr>"
  have f2: "tcbs k2 = tcbs k" "heap k2 = h" "cpu k2 = c'" "ls k2 = ls k1" "xTickCount k2 = xTickCount k"
    "pxCurrentTCB k2 = pxCurrentTCB k" "uxCurrentNumberOfTasks k2 = uxCurrentNumberOfTasks k - 1"
    "uxDeletedTasksWaitingCleanUp k2 = uxDeletedTasksWaitingCleanUp k - 1"
    by (simp_all add: k2_def k1'_def k1_def)
  have i3: "kinv Ls {} k2" using kinv_fields [OF i2, of k2] by (simp add: k2_def f1)
  have t2: "terminated k2 = terminated k - {p}" using f2(4) c1 by (auto simp: terminated_def)
  have it2: "items k2 TerminationL = is"
    using static_items_drop [OF inv, of TerminationL "StateItem p"] its p(1) by (simp add: f2(4) k1_def)
  have "remains k2 B C (C p @ fs)"
    unfolding remains_def
  proof (intro conjI ballI impI)
    fix y assume y: "y \<in> terminated k2"
    then have y': "y \<in> terminated k" "y \<noteq> p" using t2 by auto
    then have oy: "owns k y (B y) (C y)" "distinct (C y @ fs)" "B y \<inter> B p = {}" "set (C y) \<inter> set (C p) = {}"
      using r p(2) unfolding remains_def by auto
    show "owns k2 y (B y) (C y)" using oy h(3,5) unfolding owns_def f2(1-3) by blast
    show "distinct (C y @ C p @ fs)" using oy(2,4) o(2) by auto
  qed (use r t2 in \<open>auto simp: remains_def\<close>)
  moreover have "quiet k2" using q1 by (simp add: k2_def quiet_def settled_def)
  moreover have "prvDeleteTCB p k1' = Some k2" using h(1) by (simp add: k2_def)
  ultimately show ?thesis
    unfolding k1'_def using p rm h(2-4) i3 it2 t2 f2 c1
    by (intro exI [of _ p] exI [of _ k1] exI [of _ k2]) simp
qed

theorem idle_cleans_up:
  assumes "kinv Ls {} k" and "quiet k" and "heap_valid (heap k)" and "free_areas (cpu k) fs" and "remains k B C fs"
    and "unat (uxDeletedTasksWaitingCleanUp k) = length (items k TerminationL)"
  shows "\<exists>k' fs'. prvIdleTask_pass k = Some k' \<and> kinv Ls {} k' \<and> quiet k' \<and> terminated k' = {} \<and>
     cont_of k' = (\<lambda>i. if i \<in> StateItem ` terminated k then None else cont_of k i) \<and> tcbs k' = tcbs k \<and>
     pxCurrentTCB k' = pxCurrentTCB k \<and> uxDeletedTasksWaitingCleanUp k' = 0 \<and>
     uxCurrentNumberOfTasks k' = uxCurrentNumberOfTasks k - uxDeletedTasksWaitingCleanUp k \<and>
     heap_valid (heap k') \<and> heap_live (heap k') = heap_live (heap k) - (\<Union>p \<in> terminated k. B p) \<and>
     free_areas (cpu k') fs' \<and> set fs' = set fs \<union> (\<Union>p \<in> terminated k. set (C p))"
  unfolding prvIdleTask_pass_def using assms
proof (induction "items k TerminationL" arbitrary: k fs)
  case Nil
  then have "terminated k = {}" "uxDeletedTasksWaitingCleanUp k = 0"
    using terminated_items(1) [OF Nil(2)] by (auto simp: unat_eq_0)
  then show ?case using Nil by (subst prvCheckTasksWaitingTermination.simps) auto
next
  case (Cons i "is")
  note L = Cons.hyps(2) [symmetric]
  obtain p k1 k2 where S: "i = StateItem p" "p \<in> terminated k" "k_remove i k = Some k1"
    "prvDeleteTCB p (k1\<lparr>uxCurrentNumberOfTasks := uxCurrentNumberOfTasks k1 - 1,
       uxDeletedTasksWaitingCleanUp := uxDeletedTasksWaitingCleanUp k1 - 1\<rparr>) = Some k2"
     "kinv Ls {} k2" "quiet k2" "heap_valid (heap k2)" "free_areas (cpu k2) (C p @ fs)" "remains k2 B C (C p @ fs)"
     "items k2 TerminationL = is" "terminated k2 = terminated k - {p}" "cont_of k2 = (cont_of k)(StateItem p := None)"
     "heap_live (heap k2) = heap_live (heap k) - B p" "tcbs k2 = tcbs k" "pxCurrentTCB k2 = pxCurrentTCB k"
     "uxCurrentNumberOfTasks k2 = uxCurrentNumberOfTasks k - 1"
     "uxDeletedTasksWaitingCleanUp k2 = uxDeletedTasksWaitingCleanUp k - 1"
    using clean_up_step [OF Cons.prems(1-5) L] by blast
  have pos: "uxDeletedTasksWaitingCleanUp k > 0" "uxDeletedTasksWaitingCleanUp k \<noteq> 0"
    using Cons.prems(6) by (auto simp: word_less_nat_alt L)
  have "unat (uxDeletedTasksWaitingCleanUp k2) = length (items k2 TerminationL)"
    using Cons.prems(6) unat_minus_one [OF pos(2)] by (simp add: S(10,17) L)
  from Cons.hyps(1) [OF S(10) [symmetric] S(5-9) this] obtain k' fs' where
    R: "prvCheckTasksWaitingTermination k2 = Some k'" "kinv Ls {} k'" "quiet k'" "terminated k' = {}"
     "cont_of k' = (\<lambda>i. if i \<in> StateItem ` terminated k2 then None else cont_of k2 i)" "tcbs k' = tcbs k2"
     "pxCurrentTCB k' = pxCurrentTCB k2" "uxDeletedTasksWaitingCleanUp k' = 0"
     "uxCurrentNumberOfTasks k' = uxCurrentNumberOfTasks k2 - uxDeletedTasksWaitingCleanUp k2"
     "heap_valid (heap k')" "heap_live (heap k') = heap_live (heap k2) - (\<Union>p \<in> terminated k2. B p)"
     "free_areas (cpu k') fs'" "set fs' = set (C p @ fs) \<union> (\<Union>p \<in> terminated k2. set (C p))"
    by blast
  have "l_head TerminationL (ls k) = Some i" by (simp add: L)
  then have "prvCheckTasksWaitingTermination k = Some k'"
    using pos S(1,3,4) R(1) by (subst prvCheckTasksWaitingTermination.simps) (simp add: Let_def)
  moreover have "cont_of k' = (\<lambda>i. if i \<in> StateItem ` terminated k then None else cont_of k i)"
    using R(5) S(2,11,12) by (auto simp: fun_eq_iff)
  moreover have "uxCurrentNumberOfTasks k' = uxCurrentNumberOfTasks k - uxDeletedTasksWaitingCleanUp k"
    by (simp add: R(9) S(16,17))
  moreover have "heap_live (heap k') = heap_live (heap k) - (\<Union>p \<in> terminated k. B p)"
    using R(11) S(2,11,13) by auto
  moreover have "set fs' = set fs \<union> (\<Union>p \<in> terminated k. set (C p))" using R(13) S(2,11) by auto
  moreover have "tcbs k' = tcbs k" "pxCurrentTCB k' = pxCurrentTCB k" using R(6,7) S(14,15) by simp_all
  ultimately show ?case using R(2-4,8,10,12) by blast
qed

subsection \<open>The first task\<close>

text \<open>The static variables as the program starts: no list is used yet.\<close>

definition power_on :: "kernel \<Rightarrow> bool" where
  "power_on k \<longleftrightarrow> (\<forall>i. cont_of k i = None) \<and> quiet k \<and> pxCurrentTCB k = NULL \<and> uxCurrentNumberOfTasks k = 0 \<and>
     \<not> xSchedulerRunning k \<and> uxTopReadyPriority k = 0"

lemma initialised_lists:
  "cont_of (prvInitialiseTaskLists k) = cont_of k" "val_of (prvInitialiseTaskLists k) = val_of k"
  "tcbs (prvInitialiseTaskLists k) = tcbs k" "uxTopReadyPriority (prvInitialiseTaskLists k) = uxTopReadyPriority k"
  "l \<in> static_lists \<Longrightarrow> lst (ls (prvInitialiseTaskLists k)) l = kl_empty"
  "pxDelayedTaskList (prvInitialiseTaskLists k) = DelayedL1" "pxOverflowDelayedTaskList (prvInitialiseTaskLists k) = DelayedL2"
  by (auto simp: prvInitialiseTaskLists_def l_initialise_def configMAX_PRIORITIES_def upt_conv_Cons static_lists_def
      less_Suc_eq numeral_eq_Suc)

lemma initialised_inv:
  assumes "\<forall>i. cont_of k i = None" and "uxTopReadyPriority k = 0"
  shows "kinv_at lo static_lists {} (prvInitialiseTaskLists k)"
  using assms by (auto simp: kinv_at_def initialised_lists lists_ok_def kl_ok_def kl_empty_def delayed_pair_def configMAX_PRIORITIES_def)

theorem first_task:
  assumes b: "power_on (kern s)" and hv: "heap_valid (heap (kern s))" and f: "free_areas (cpu (kern s)) (l # u # fs)"
  shows "(\<exists>s'. xTaskCreate code name d arg n h s = Some (errCOULD_NOT_ALLOCATE_REQUIRED_MEMORY, s') \<and> no_memory s s') \<or>
     (\<exists>p s'. xTaskCreate code name d arg n h s = Some (pdPASS, s') \<and> kinv static_lists {} (kern s') \<and> quiet (kern s') \<and>
       created code arg (capped n) (4 * unat d) p (kern s) (kern s') \<and> pxCurrentTCB (kern s') = p \<and> \<not> xSchedulerRunning (kern s'))"
proof -
  have q: "quiet (kern s)" and live: "items_live (kern s)" using b by (auto simp: power_on_def items_live_def)
  from create_prepared [OF q hv live f, of code name d arg n h] show ?thesis
  proof (elim disjE exE conjE)
    fix p s1
    assume run: "xTaskCreate code name d arg n h s = do { s \<leftarrow> on_kern (prvAddNewTaskToReadyList p) s1; Some (pdPASS, s) }"
      and pr: "prepared code arg (capped n) (4 * unat d) p (kern s) (kern s1)"
    let ?k1 = "kern s1"
    let ?k0 = "?k1\<lparr>uxCurrentNumberOfTasks := 1, pxCurrentTCB := p\<rparr>"
    define k2 where "k2 = (prvInitialiseTaskLists ?k0)\<lparr>uxTaskNumber := uxTaskNumber (prvInitialiseTaskLists ?k0) + 1\<rparr>"
    have k1: "pxCurrentTCB ?k1 = NULL" "uxCurrentNumberOfTasks ?k1 = 0" "\<not> xSchedulerRunning ?k1" "\<forall>i. cont_of ?k1 i = None"
      "uxTopReadyPriority ?k1 = 0" "uxSchedulerSuspended ?k1 = 0" "\<not> xYieldPending ?k1" "uxPendedTicks ?k1 = 0" "p \<noteq> NULL"
      using pr b by (simp_all add: prepared_def power_on_def quiet_def settled_def)
    have i2: "kinv_at lo static_lists {} k2" for lo
    proof -
      have "kinv_at lo static_lists {} (prvInitialiseTaskLists (?k1\<lparr>uxCurrentNumberOfTasks := 1, pxCurrentTCB := p\<rparr>))"
        by (rule initialised_inv) (use k1 in simp_all)
      then show ?thesis by (rule kinv_fields) (simp_all add: k2_def)
    qed
    have f2: "cont_of k2 = cont_of ?k1" "val_of k2 = val_of ?k1" "tcbs k2 = tcbs ?k1" "items k2 PendingReadyL = []"
      using initialised_lists [where k = "?k1\<lparr>uxCurrentNumberOfTasks := 1, pxCurrentTCB := p\<rparr>"] by (simp_all add: k2_def kl_empty_def)
    have g2: "heap k2 = heap ?k1" "cpu k2 = cpu ?k1" "xTickCount k2 = xTickCount ?k1" "uxSchedulerSuspended k2 = 0"
      "pxCurrentTCB k2 = p" "\<not> xSchedulerRunning k2" "uxCurrentNumberOfTasks k2 = 1" "uxPendedTicks k2 = 0" "\<not> xYieldPending k2"
      using k1 by (simp_all add: k2_def prvInitialiseTaskLists_def Let_def)
    define k3 where "k3 = prvAddTaskToReadyList p k2"
    have pq: "prio ?k1 p = capped n" using pr by (simp add: prepared_def fresh_tcb_def)
    have i3: "kinv_at lo static_lists {} k3" for lo
      unfolding k3_def using kinv_add_ready [OF i2] f2 k1(4) pq capped_less by simp
    have "\<not> xSchedulerRunning k3" using g2(6) by (simp add: k3_def prvAddTaskToReadyList_eq)
    then have "prvAddNewTaskToReadyList p ?k1 = Some k3"
      using k1 unfolding k3_def k2_def by (simp add: prvAddNewTaskToReadyList_def Let_def)
    then have r: "xTaskCreate code name d arg n h s = Some (pdPASS, s1\<lparr>kern := k3\<rparr>)" using run by (simp add: on_kern_def)
    have g3: "heap k3 = heap ?k1" "cpu k3 = cpu ?k1" "\<not> xSchedulerRunning k3"
      using g2 by (simp_all add: k3_def prvAddTaskToReadyList_eq)
    have "created code arg (capped n) (4 * unat d) p (kern s) k3"
      by (rule createdI [OF pr live]) (use f2 g2 g3 k1(2) in \<open>simp_all add: k3_def\<close>)
    moreover have "quiet k3" using f2(4) g2 by (simp add: quiet_def settled_def k3_def)
    ultimately show ?thesis
      using r i3 g3(3) g2(5) by (intro disjI2 exI [of _ p] exI [of _ "s1\<lparr>kern := k3\<rparr>"]) (simp add: k3_def)
  qed blast
qed

end
