(* ===== verification/TaskSamples.thy ===== *)
theory TaskSamples
  imports Samples TasksSpec
begin

section \<open>Concrete states with tasks on the heap\<close>

text \<open>
  The tasks of \<open>calm\<close> in a heap that starts at \<open>0xF8\<close>: blocks of 248 bytes at \<open>0x100\<close> and \<open>0x200\<close> for
  the two control blocks, and one at \<open>0x300\<close> for the stack of the running task, whose saved context is
  the area with the link 5.
\<close>

definition low_heap :: heap_t where
  "low_heap = sample_heap\<lparr>aucHeap := 0xF6\<rparr>"

lemma low_heap_inv: "heap_inv (prvHeapInit low_heap) [(0xF8, 65524, False)]"
proof -
  have "heap_placed low_heap"
    by (simp add: heap_placed_def low_heap_def sample_heap_def)
  moreover have "initial_layout low_heap = [(0xF8, 65524, False)]"
    by (simp add: initial_layout_def heap_base_def low_heap_def sample_heap_def Let_def)
  ultimately show ?thesis using prvHeapInit_inv by metis
qed

definition task_heap :: heap_t where
  "task_heap = (let h = snd (the (heap_malloc 248 (prvHeapInit low_heap))); h = snd (the (heap_malloc 248 h))
     in snd (the (heap_malloc 248 h)))"

lemma task_heap_inv:
  "heap_inv task_heap [(0xF8, 256, True), (0x1F8, 256, True), (0x2F8, 256, True), (0x3F8, 64756, False)]"
proof -
  obtain h1 where h1: "heap_malloc 248 (prvHeapInit low_heap) = Some (0x100, h1)"
    "heap_inv h1 [(0xF8, 256, True), (0x1F8, 65268, False)]"
    using heap_malloc_spec [OF low_heap_inv, of 248] by (auto simp: malloc_spec_def rounded_size_def Let_def)
  obtain h2 where h2: "heap_malloc 248 h1 = Some (0x200, h2)"
    "heap_inv h2 [(0xF8, 256, True), (0x1F8, 256, True), (0x2F8, 65012, False)]"
    using heap_malloc_spec [OF h1(2), of 248] by (auto simp: malloc_spec_def rounded_size_def Let_def)
  obtain h3 where h3: "heap_malloc 248 h2 = Some (0x300, h3)"
    "heap_inv h3 [(0xF8, 256, True), (0x1F8, 256, True), (0x2F8, 256, True), (0x3F8, 64756, False)]"
    using heap_malloc_spec [OF h2(2), of 248] by (auto simp: malloc_spec_def rounded_size_def Let_def)
  have "task_heap = h3" by (simp add: task_heap_def h1(1) h2(1) h3(1) Let_def)
  with h3(2) show ?thesis by simp
qed

lemma task_heap_live: "heap_valid task_heap" "heap_live task_heap = {(0x100, 248), (0x200, 248), (0x300, 248)}"
  using task_heap_inv heap_live_eq [OF task_heap_inv] by (auto simp: heap_valid_def)

definition busy :: kernel where
  "busy = calm\<lparr>heap := task_heap, tcbs := (tcbs calm)(0x200 := (sample_tcb 1)\<lparr>pxStack := 0x300, pxTopOfStack := 5\<rparr>)\<rparr>"

definition busy_sys :: sys where
  "busy_sys = calm_sys\<lparr>kern := busy\<rparr>"

lemma busy_fields [simp]:
  "kern busy_sys = busy" "pxCurrentTCB busy = 0x200" "cpu busy = sample_port" "heap busy = task_heap"
  "cont_of busy = (\<lambda>_. None)(StateItem 0x100 := Some (ReadyL 0), StateItem 0x200 := Some (ReadyL 1))"
  "uxSchedulerSuspended busy = 0" "tcbs busy 0x200 = (sample_tcb 1)\<lparr>pxStack := 0x300, pxTopOfStack := 5\<rparr>"
  "xSchedulerRunning busy" "items busy TerminationL = []" "uxCurrentNumberOfTasks busy = 2"
  by (simp_all add: busy_sys_def busy_def calm_def kl_empty_def)

lemma busy_inv: "kinv static_lists {} busy"
  by (rule kinv_fields [where k = calm]) (use calm_inv in \<open>simp_all add: busy_def calm_def sample_tcb_def\<close>)

lemma busy_quiet: "quiet busy"
  using calm_quiet by (simp add: quiet_def settled_def busy_def)

lemma busy_live: "items_live busy"
  by (auto simp: items_live_def task_heap_live split: if_splits)

lemma sample_csa: "free_areas sample_port [1, 2, 3, 4]" "csa_chain sample_port 5 [5]"
  by (simp_all add: free_areas_def sample_port_def csa_word_def portCSA_FCX_MASK_def portCSA_TO_ADDRESS_def area_def)

text \<open>The same after \<open>0x200\<close> has deleted itself and the idle task runs.\<close>

definition grave :: kernel where
  "grave = busy\<lparr>ls := l_insert_end TerminationL (StateItem 0x200) (drop_item (StateItem 0x200) (ls busy)),
     pxCurrentTCB := 0x100, uxDeletedTasksWaitingCleanUp := 1\<rparr>"

lemma grave_fields [simp]:
  "cont_of grave = (\<lambda>_. None)(StateItem 0x100 := Some (ReadyL 0), StateItem 0x200 := Some TerminationL)"
  "heap grave = task_heap" "cpu grave = sample_port" "tcbs grave = tcbs busy" "uxDeletedTasksWaitingCleanUp grave = 1"
  "items grave TerminationL = [StateItem 0x200]" "uxCurrentNumberOfTasks grave = 2"
  by (auto simp: grave_def drop_item_def kl_insert_end_def busy_def calm_def kl_empty_def)

lemma grave_inv: "kinv static_lists {} grave"
proof -
  let ?k = "busy\<lparr>ls := drop_item (StateItem 0x200) (ls busy)\<rparr>"
  have "kinv static_lists {0x200} ?k" using kinv_drop(1) [OF busy_inv, of "0x200"] by simp
  then have "kinv_at (Suc (unat (xTickCount busy))) static_lists {0x200} ?k" by simp
  then have "kinv_at (Suc (unat (xTickCount busy))) static_lists {} (?k\<lparr>ls := l_insert_end TerminationL (StateItem 0x200) (ls ?k)\<rparr>)"
    by (rule kinv_insert_gen [where i = "StateItem 0x200" and l = TerminationL]) (simp_all add: configMAX_PRIORITIES_def)
  then have "kinv_at (Suc (unat (xTickCount busy))) static_lists {} grave"
    by (rule kinv_fields) (simp_all add: grave_def)
  then show ?thesis by (simp add: grave_def)
qed

lemma grave_quiet: "quiet grave"
  using busy_quiet by (simp add: quiet_def settled_def grave_def drop_item_def)

lemma grave_terminated: "terminated grave = {0x200}"
  by (auto simp: terminated_def)

lemma grave_remains: "remains grave (\<lambda>_. {(0x200, 248), (0x300, 248)}) (\<lambda>_. [5]) [1, 2, 3, 4]"
  using sample_csa by (auto simp: remains_def grave_terminated owns_def task_heap_live)

end
