(* ===== verification/PortSamples.thy ===== *)
theory PortSamples
  imports TimersSpec PortSpec TaskSamples
begin

section \<open>Concrete states for the timers and the port\<close>

text \<open>The tasks of \<open>calm\<close> with empty timer lists, at tick 4; a command at \<open>0x2000\<close> starts the timer \<open>0x700\<close>, whose
  period is 5, as of tick 2.\<close>

definition timed :: sys where
  "timed = write_message 0x2000 tmrCOMMAND_START 2 0x700 calm_sys"

definition timed_Ls :: "list_id set" where
  "timed_Ls = insert TimerL2 (insert TimerL1 static_lists)"

lemma timed_fields [simp]:
  "kern timed = calm" "timers timed = (\<lambda>_. sample_timer)" "pxCurrentTimerList timed = TimerL1" "pxOverflowTimerList timed = TimerL2"
  "xLastTime timed = 0" "xTimerPeriodInTicks sample_timer = 5" "xTickCount calm = 4"
  by (simp_all add: timed_def write_message_def calm_sys_def sample_timer_def calm_def)

lemma timed_message:
  "message_id 0x2000 timed = tmrCOMMAND_START" "message_value 0x2000 timed = 2" "message_timer 0x2000 timed = 0x700"
proof -
  have "bytes 0x2000 12 (mem timed) = command_bytes tmrCOMMAND_START 2 0x700"
    by (simp add: timed_def write_message_def command_bytes_def [symmetric] bytes_put)
  then show "message_id 0x2000 timed = tmrCOMMAND_START" "message_value 0x2000 timed = 2" "message_timer 0x2000 timed = 0x700"
    using message_of_bytes by blast+
qed

lemma timed_ok: "timers_ok timed_Ls timed"
proof -
  have same: "l_initialise TimerL1 (ls calm) = ls calm" "l_initialise TimerL2 (ls calm) = ls calm"
    by (simp_all add: l_initialise_def calm_def kl_empty_def fun_upd_idem)
  have "TimerL1 \<notin> static_lists" "TimerL2 \<notin> insert TimerL1 static_lists" by (auto simp: static_lists_def)
  then have "kinv timed_Ls {} calm"
    using kinv_initialise [of _ _ _ calm TimerL2] kinv_initialise [OF calm_inv, of TimerL1] unfolding timed_Ls_def same by simp
  moreover have "items calm TimerL1 = []" "items calm TimerL2 = []" "cont_of calm i \<noteq> Some TimerL2" for i
    by (simp_all add: calm_def kl_empty_def)
  ultimately show ?thesis by (simp add: timers_ok_def timed_Ls_def)
qed

text \<open>The same when the tick has wrapped around: the timer task last looked at tick 9, the auto-reload timer \<open>0x780\<close> was
  due at tick 20, and the queue of the timers is empty.\<close>

definition timer_queue :: xQUEUE where
  "timer_queue = \<lparr>pcHead = 0x3000, pcTail = 0x303C, pcWriteTo = 0x3000, u_word = 0x3030, uxMessagesWaiting = 0,
     uxLength = 5, uxItemSize = 12, cRxLock = queueUNLOCKED, cTxLock = queueUNLOCKED\<rparr>"

definition timed_before :: sys where
  "timed_before = timed\<lparr>xLastTime := 9, xTimerQueue := 0xB00, queues := (queues timed)(0xB00 := timer_queue)\<rparr>"

definition wrapped :: sys where
  "wrapped = with_lists timed_before (l_insert TimerL1 (TimerItem 0x780) (l_set_value (TimerItem 0x780) 20 (ls calm)))"

lemma wrapped_fields [simp]:
  "pxCurrentTimerList wrapped = TimerL1" "pxOverflowTimerList wrapped = TimerL2" "xLastTime wrapped = 9"
  "xTickCount (kern wrapped) = 4" "timers wrapped = (\<lambda>_. sample_timer)" "mem wrapped = mem timed" "xTimerQueue wrapped = 0xB00"
  "queues wrapped 0xB00 = timer_queue" "cont_of (kern wrapped) (TimerItem 0x780) = Some TimerL1"
  by (simp_all add: wrapped_def timed_before_def)

lemma wrapped_message:
  "message_id 0x2000 wrapped = tmrCOMMAND_START" "message_value 0x2000 wrapped = 2" "message_timer 0x2000 wrapped = 0x700"
  using timed_message by (simp_all add: message_id_def message_value_def message_timer_def)

lemma wrapped_ok: "timers_ok timed_Ls wrapped"
proof -
  have b: "timers_ok timed_Ls timed_before" using timed_ok by (simp add: timers_ok_def timed_before_def calm_def)
  have f: "cont_of (kern timed_before) (TimerItem 0x780) = None" by (simp add: timed_before_def calm_def)
  note v = timer_value [OF b f, of 20]
  have "timers_ok timed_Ls (with_lists (with_lists timed_before (l_set_value (TimerItem 0x780) 20 (ls (kern timed_before))))
      (l_insert TimerL1 (TimerItem 0x780) (ls (kern (with_lists timed_before (l_set_value (TimerItem 0x780) 20 (ls (kern timed_before))))))))"
    by (rule timer_on [OF v]) (use f in \<open>simp_all add: timed_before_def\<close>)
  then show ?thesis by (simp add: wrapped_def timed_before_def)
qed

lemma wrapped_in: "timers_in TimerL1 wrapped = {0x780}"
  by (auto simp: timers_in_def wrapped_def timed_before_def calm_def)

lemma wrapped_can_switch: "can_switch timed_Ls 0x2000 0x2100 [] (\<lambda>f t s. Some s) wrapped"
proof -
  have old: "old_epoch 0x700 wrapped = {0x780}" by (simp add: old_epoch_def wrapped_in)
  then have r: "restarts 0x700 wrapped = 1" by (simp add: restarts_def sample_timer_def)
  have "ring timer_queue 0" by (simp add: ring_def geom_def slot_def timer_queue_def)
  then have h: "holds 0xB00 wrapped []"
    unfolding holds_def by (intro exI [of _ 0]) (simp add: contents_def, simp add: timer_queue_def)
  have "items (kern wrapped) (WaitReceiveL 0xB00) = []"
    by (simp add: wrapped_def timed_before_def calm_def kl_empty_def)
  then have "command_room 1 0x2100 [] wrapped"
    using h by (simp add: command_room_def outside_def Let_def) (simp add: timer_queue_def)
  moreover have "message_at 0x2000 0x2100 (bytes 0x2000 12 (mem wrapped)) wrapped"
    by (simp add: message_at_def outside_def) (simp add: timer_queue_def)
  moreover have "leaves_timers timed_Ls 0x2100 (\<lambda>f t s. Some s)" "leaves_message 0x2000 0x2100 (\<lambda>f t s. Some s)"
    by (simp_all add: leaves_timers_def leaves_message_def same_timers_def)
  ultimately show ?thesis by (simp add: can_switch_def wrapped_message old r)
qed

text \<open>Two context switches of \<open>sample\<close>: to the task \<open>0x300\<close>, and back to \<open>0x200\<close>.\<close>

lemma sample_hand_over:
  "\<exists>k1 k2. hands_over sample k1 \<and> hands_over k1 k2 \<and> pxCurrentTCB k2 = pxCurrentTCB sample"
proof -
  obtain k1 n p q where k1: "switch_link sample = Some k1" "highest_ready sample n" "ready_queue sample n = p # q"
    "ready_queue k1 = (ready_queue sample)(n := q @ [p])" "kinv sample_Ls {} k1" "some_ready k1" "uxSchedulerSuspended k1 = 0"
    "pxCurrentTCB k1 = p" "items k1 = items sample"
    using switch_link_spec [OF sample_inv sample_some_ready] by auto
  have n: "n = 2" using highest_ready_unique [OF k1(2) sample_highest] by simp
  have p: "p = 0x300" "ready_queue k1 2 = [0x200, 0x300]" using k1(3,4) sample_queue by (auto simp: n)
  obtain k2 m p' q' where k2: "switch_link k1 = Some k2" "highest_ready k1 m" "ready_queue k1 m = p' # q'" "pxCurrentTCB k2 = p'"
    using switch_link_spec [OF k1(5-7)] by blast
  have "highest_ready k1 2" using sample_highest k1(9) by (simp add: highest_ready_def fun_eq_iff)
  then have "m = 2" using highest_ready_unique [OF k2(2)] by blast
  then have "pxCurrentTCB k2 = 0x200" using k2(3,4) p by simp
  then have "hands_over sample k1 \<and> hands_over k1 k2 \<and> pxCurrentTCB k2 = pxCurrentTCB sample"
    using k1(1,8) k2(1) p by (simp add: hands_over_def prvTrapYield_def)
  then show ?thesis by blast
qed

end
