(* ===== verification/Fifo.thy ===== *)
theory Fifo
  imports Prelude
begin

section \<open>The software FIFO of the serial driver (Ifx_Fifo.c, Ifx_CircularBuffer.c, IfxStm.h)\<close>

text \<open>
  A byte ring between one writer and one reader, each a task or an interrupt.  The variables of the two
  sides are kept apart (\<open>transfer\<close>: the local variables of a running \<open>Ifx_Fifo_read\<close> or
  \<open>Ifx_Fifo_write\<close>), and one step of a side is what no interrupt can divide: a section between
  \<open>IfxCpu_disableInterrupts\<close> and \<open>IfxCpu_restoreInterrupts\<close>, one byte copied, one test of the event.
  Integers of the type \<open>Ifx_SizeT\<close> (16 bits, signed) are integers narrowed by every store.  The bytes
  of the ring are a list; what the caller hands over at \<open>data\<close> is the list of bytes there.
  \<open>IFX_ASSERT\<close> compiles to nothing in this configuration.
\<close>

subsection \<open>Numbers and time\<close>

definition Ifx_SizeT :: "int \<Rightarrow> int" where
  "Ifx_SizeT x = signed_take_bit 15 x"

definition c_mod :: "int \<Rightarrow> int \<Rightarrow> int" where
  "c_mod a b = sgn a * (\<bar>a\<bar> mod \<bar>b\<bar>)"

definition TIME_INFINITE :: int where "TIME_INFINITE = 0x7FFFFFFFFFFFFFFF"
definition TIME_NULL :: int where "TIME_NULL = 0"

definition IfxStm_getDeadLine :: "int \<Rightarrow> int \<Rightarrow> int" where
  "IfxStm_getDeadLine now timeout =
     (if timeout = TIME_INFINITE then TIME_INFINITE else now + timeout)"

definition IfxStm_isDeadLine :: "int \<Rightarrow> int \<Rightarrow> bool" where
  "IfxStm_isDeadLine now deadLine =
     (if deadLine = TIME_INFINITE then False else now \<ge> deadLine)"

definition Ifx_AlignOn32 :: "int \<Rightarrow> int" where
  "Ifx_AlignOn32 n = (n + 3) AND NOT 3"

definition Ifx_AlignOn64 :: "u32 \<Rightarrow> u32" where
  "Ifx_AlignOn64 n = (n + 7) AND NOT 7"

subsection \<open>The ring\<close>

record Ifx_Fifo =
  buffer :: "u8 list"
  fcount :: int
  readerWaitx :: int
  writerWaitx :: int
  maxcount :: int
  startIndex :: int
  endIndex :: int
  fsize :: int
  elementSize :: int
  eventReader :: bool
  eventWriter :: bool

definition sizeof_Ifx_Fifo :: u32 where "sizeof_Ifx_Fifo = 32"

definition fifo_buffer_address :: "u32 \<Rightarrow> u32" where
  "fifo_buffer_address fifo = Ifx_AlignOn64 (fifo + sizeof_Ifx_Fifo)"

text \<open>\<open>m\<close> is what the memory behind the header holds before.\<close>

definition Ifx_Fifo_init :: "(nat \<Rightarrow> u8) \<Rightarrow> int \<Rightarrow> int \<Rightarrow> Ifx_Fifo" where
  "Ifx_Fifo_init m n es =
     (let n = Ifx_SizeT (Ifx_AlignOn32 n) in
      \<lparr>buffer = map m [0..<nat n], fcount = 0, readerWaitx = 0, writerWaitx = 0, maxcount = 0,
       startIndex = 0, endIndex = 0, fsize = n, elementSize = es,
       eventReader = False, eventWriter = True\<rparr>)"

definition Ifx_Fifo_readCount :: "Ifx_Fifo \<Rightarrow> int" where
  "Ifx_Fifo_readCount F = fcount F"

definition Ifx_Fifo_writeCount :: "Ifx_Fifo \<Rightarrow> int" where
  "Ifx_Fifo_writeCount F = Ifx_SizeT (fsize F - Ifx_Fifo_readCount F)"

definition Ifx_Fifo_isEmpty :: "Ifx_Fifo \<Rightarrow> bool" where
  "Ifx_Fifo_isEmpty F = (if Ifx_Fifo_readCount F \<noteq> 0 then False else True)"

definition Ifx_Fifo_clear :: "Ifx_Fifo \<Rightarrow> Ifx_Fifo" where
  "Ifx_Fifo_clear F =
     (let F = (if writerWaitx F \<noteq> 0 then F\<lparr>writerWaitx := 0, eventWriter := True\<rparr> else F) in
      F\<lparr>eventReader := False, readerWaitx := 0, fcount := 0, maxcount := 0,
        startIndex := endIndex F\<rparr>)"

subsection \<open>Copying bytes: the bodies of the loops of Ifx_CircularBuffer\<close>

definition advance_index :: "nat \<Rightarrow> nat \<Rightarrow> nat" where
  "advance_index len i = (let i = take_bit 16 (i + 1) in if i \<ge> len then 0 else i)"

definition write8_body :: "nat \<Rightarrow> u8 \<Rightarrow> nat \<times> u8 list \<Rightarrow> nat \<times> u8 list" where
  "write8_body len d = (\<lambda>(i, B). (advance_index len i, B[i := d]))"

definition read8_body :: "nat \<Rightarrow> u8 list \<Rightarrow> nat \<Rightarrow> u8 \<times> nat" where
  "read8_body len B i = (B ! i, advance_index len i)"

subsection \<open>The critical sections\<close>

definition Ifx_Fifo_beginRead :: "Ifx_Fifo \<Rightarrow> int \<Rightarrow> int \<times> Ifx_Fifo" where
  "Ifx_Fifo_beginRead F count =
     (let blockSize = Ifx_SizeT (min count (Ifx_Fifo_readCount F));
          blockSize = Ifx_SizeT (blockSize - c_mod blockSize (elementSize F)) in
      (blockSize, F\<lparr>eventReader := False, readerWaitx := min (count - blockSize) (fsize F)\<rparr>))"

definition Ifx_Fifo_readEnd :: "Ifx_Fifo \<Rightarrow> int \<Rightarrow> int \<Rightarrow> int \<times> Ifx_Fifo" where
  "Ifx_Fifo_readEnd F count blockSize =
     (let F = F\<lparr>fcount := Ifx_SizeT (fcount F - blockSize)\<rparr>;
          F = (if writerWaitx F \<noteq> 0 then
                 let F = F\<lparr>writerWaitx := writerWaitx F - blockSize\<rparr> in
                 if writerWaitx F \<le> 0 then F\<lparr>writerWaitx := 0, eventWriter := True\<rparr> else F
               else F) in
      (Ifx_SizeT (count - blockSize), F))"

definition Ifx_Fifo_beginWrite :: "Ifx_Fifo \<Rightarrow> int \<Rightarrow> int \<times> Ifx_Fifo" where
  "Ifx_Fifo_beginWrite F count =
     (let blockSize = Ifx_SizeT (min count (fsize F - Ifx_Fifo_readCount F));
          blockSize = Ifx_SizeT (blockSize - c_mod blockSize (elementSize F)) in
      (blockSize, F\<lparr>eventWriter := False, writerWaitx := min (count - blockSize) (fsize F)\<rparr>))"

definition Ifx_Fifo_endWrite :: "Ifx_Fifo \<Rightarrow> int \<Rightarrow> int \<Rightarrow> int \<times> Ifx_Fifo" where
  "Ifx_Fifo_endWrite F count blockSize =
     (let F = F\<lparr>fcount := Ifx_SizeT (fcount F + blockSize)\<rparr>;
          F = F\<lparr>maxcount := max (maxcount F) (fcount F)\<rparr>;
          F = (if readerWaitx F \<noteq> 0 then
                 let F = F\<lparr>readerWaitx := readerWaitx F - blockSize\<rparr> in
                 if readerWaitx F \<le> 0 then F\<lparr>readerWaitx := 0, eventReader := True\<rparr> else F
               else F) in
      (Ifx_SizeT (count - blockSize), F))"

subsection \<open>The loops of Ifx_Fifo_write and Ifx_Fifo_read, in steps\<close>

text \<open>
  \<open>Copy b n\<close>: of a block of \<open>b\<close> bytes \<open>n\<close> are still to be copied; \<open>End\<close>: the copy is done, the counters
  are not yet updated; \<open>Test\<close>: the tests after a block; \<open>Wait\<close>: the loop that polls the event; \<open>Woken\<close>:
  the event is read once more; \<open>Leave\<close>: the index is stored back.
\<close>

datatype phase = Begin | Copy int int | End int | Test | Wait | Woken | Leave | Done

record transfer =
  t_data :: "u8 list"
  t_count :: int
  t_index :: nat
  t_stop :: bool
  t_deadline :: int
  t_phase :: phase

definition Ifx_Fifo_write :: "int \<Rightarrow> Ifx_Fifo \<Rightarrow> u8 list \<Rightarrow> int \<Rightarrow> int \<Rightarrow> transfer" where
  "Ifx_Fifo_write now F data count timeout =
     \<lparr>t_data = data, t_count = count, t_index = nat (take_bit 16 (endIndex F)), t_stop = False,
      t_deadline = IfxStm_getDeadLine now timeout, t_phase = (if count \<noteq> 0 then Begin else Done)\<rparr>"

definition write_step :: "int \<Rightarrow> Ifx_Fifo \<times> transfer \<Rightarrow> (Ifx_Fifo \<times> transfer) option" where
  "write_step now = (\<lambda>(F, W). case t_phase W of
     Begin \<Rightarrow>
       let (b, F) = Ifx_Fifo_beginWrite F (t_count W) in
       Some (F, W\<lparr>t_phase := (if b \<noteq> 0 then Copy b b else Test)\<rparr>)
   | Copy b n \<Rightarrow>
       (case t_data W of
          [] \<Rightarrow> None
        | d # ds \<Rightarrow>
            let (i, B) = write8_body (nat (take_bit 16 (fsize F))) d (t_index W, buffer F) in
            Some (F\<lparr>buffer := B\<rparr>,
              W\<lparr>t_data := ds, t_index := i, t_phase := (if n - 1 > 0 then Copy b (n - 1) else End b)\<rparr>))
   | End b \<Rightarrow>
       let (c, F) = Ifx_Fifo_endWrite F (t_count W) b in Some (F, W\<lparr>t_count := c, t_phase := Test\<rparr>)
   | Test \<Rightarrow>
       if t_stop W \<or> IfxStm_isDeadLine now (t_deadline W)
       then Some (F\<lparr>writerWaitx := 0\<rparr>, W\<lparr>t_phase := Leave\<rparr>)
       else Some (F, W\<lparr>t_phase := (if t_count W \<noteq> 0 then Wait else Leave)\<rparr>)
   | Wait \<Rightarrow>
       if eventWriter F = False \<and> IfxStm_isDeadLine now (t_deadline W) = False then None
       else Some (F, W\<lparr>t_phase := Woken\<rparr>)
   | Woken \<Rightarrow> Some (F, W\<lparr>t_stop := (eventWriter F = False), t_phase := Begin\<rparr>)
   | Leave \<Rightarrow> Some (F\<lparr>endIndex := Ifx_SizeT (int (t_index W))\<rparr>, W\<lparr>t_phase := Done\<rparr>)
   | Done \<Rightarrow> None)"

definition Ifx_Fifo_read :: "int \<Rightarrow> Ifx_Fifo \<Rightarrow> int \<Rightarrow> int \<Rightarrow> transfer" where
  "Ifx_Fifo_read now F count timeout =
     \<lparr>t_data = [], t_count = count, t_index = nat (take_bit 16 (startIndex F)), t_stop = False,
      t_deadline = IfxStm_getDeadLine now timeout, t_phase = (if count \<noteq> 0 then Begin else Done)\<rparr>"

definition read_step :: "int \<Rightarrow> Ifx_Fifo \<times> transfer \<Rightarrow> (Ifx_Fifo \<times> transfer) option" where
  "read_step now = (\<lambda>(F, R). case t_phase R of
     Begin \<Rightarrow>
       let (b, F) = Ifx_Fifo_beginRead F (t_count R) in
       Some (F, R\<lparr>t_phase := (if b \<noteq> 0 then Copy b b else Test)\<rparr>)
   | Copy b n \<Rightarrow>
       let (d, i) = read8_body (nat (take_bit 16 (fsize F))) (buffer F) (t_index R) in
       Some (F, R\<lparr>t_data := t_data R @ [d], t_index := i,
                  t_phase := (if n - 1 > 0 then Copy b (n - 1) else End b)\<rparr>)
   | End b \<Rightarrow>
       let (c, F) = Ifx_Fifo_readEnd F (t_count R) b in Some (F, R\<lparr>t_count := c, t_phase := Test\<rparr>)
   | Test \<Rightarrow>
       if t_stop R \<or> IfxStm_isDeadLine now (t_deadline R)
       then Some (F\<lparr>readerWaitx := 0\<rparr>, R\<lparr>t_phase := Leave\<rparr>)
       else Some (F, R\<lparr>t_phase := (if t_count R \<noteq> 0 then Wait else Leave)\<rparr>)
   | Wait \<Rightarrow>
       if eventReader F = False \<and> IfxStm_isDeadLine now (t_deadline R) = False then None
       else Some (F, R\<lparr>t_phase := Woken\<rparr>)
   | Woken \<Rightarrow> Some (F, R\<lparr>t_stop := (eventReader F = False), t_phase := Begin\<rparr>)
   | Leave \<Rightarrow> Some (F\<lparr>startIndex := Ifx_SizeT (int (t_index R))\<rparr>, R\<lparr>t_phase := Done\<rparr>)
   | Done \<Rightarrow> None)"

text \<open>A call that nothing interrupts: the steps at one time, one after the other, until none is left.\<close>

partial_function (option) run_steps ::
  "(Ifx_Fifo \<times> transfer \<Rightarrow> (Ifx_Fifo \<times> transfer) option) \<Rightarrow> Ifx_Fifo \<times> transfer \<Rightarrow>
    (Ifx_Fifo \<times> transfer) option" where
  "run_steps f s = (case f s of None \<Rightarrow> Some s | Some s' \<Rightarrow> run_steps f s')"

subsection \<open>Waiting for data or room\<close>

text \<open>
  Both functions answer at once (\<open>Inl\<close>) or start to poll the event until the deadline (\<open>Inr\<close>); the
  second part runs when the polling has ended.
\<close>

definition Ifx_Fifo_canReadCount :: "int \<Rightarrow> Ifx_Fifo \<Rightarrow> int \<Rightarrow> int \<Rightarrow> (bool + int) \<times> Ifx_Fifo" where
  "Ifx_Fifo_canReadCount now F count timeout =
     (if count < elementSize F \<or> count > fsize F then (Inl False, F)
      else
        let waitCount = count - Ifx_Fifo_readCount F in
        if waitCount \<le> 0 then (Inl True, F\<lparr>readerWaitx := 0, eventReader := True\<rparr>)
        else (Inr (IfxStm_getDeadLine now timeout), F\<lparr>eventReader := False, readerWaitx := waitCount\<rparr>))"

definition canReadCount_end :: "Ifx_Fifo \<Rightarrow> bool \<times> Ifx_Fifo" where
  "canReadCount_end F = (let F = F\<lparr>readerWaitx := 0\<rparr> in (eventReader F = True, F))"

definition Ifx_Fifo_canWriteCount :: "int \<Rightarrow> Ifx_Fifo \<Rightarrow> int \<Rightarrow> int \<Rightarrow> (bool + int) \<times> Ifx_Fifo" where
  "Ifx_Fifo_canWriteCount now F count timeout =
     (if count < elementSize F \<or> count > fsize F then (Inl False, F)
      else if fsize F - Ifx_Fifo_readCount F \<ge> count
      then (Inl True, F\<lparr>writerWaitx := 0, eventWriter := True\<rparr>)
      else (Inr (IfxStm_getDeadLine now timeout),
            F\<lparr>eventWriter := False, writerWaitx := max 0 (count - (fsize F - Ifx_Fifo_readCount F))\<rparr>))"

definition canWriteCount_end :: "Ifx_Fifo \<Rightarrow> bool \<times> Ifx_Fifo" where
  "canWriteCount_end F = (let F = F\<lparr>writerWaitx := 0\<rparr> in (eventWriter F = True, F))"

definition Ifx_Fifo_flush :: "int \<Rightarrow> Ifx_Fifo \<Rightarrow> int \<Rightarrow> (bool + int) \<times> Ifx_Fifo" where
  "Ifx_Fifo_flush now F timeout = Ifx_Fifo_canWriteCount now F (fsize F) timeout"

end
