(* ===== verification/FifoSpec.thy ===== *)
theory FifoSpec
  imports Fifo
begin

section \<open>What the FIFO promises\<close>

subsection \<open>Numbers in range\<close>

named_theorems fifo_defs "definitions a proof about the FIFO unfolds"
declare Ifx_Fifo_readCount_def [fifo_defs]

lemma Ifx_SizeT_id: "0 \<le> x \<Longrightarrow> x \<le> 0x7FFF \<Longrightarrow> Ifx_SizeT x = x"
  unfolding Ifx_SizeT_def by (rule signed_take_bit_int_eq_self) auto

lemma take_bit_16_id: "0 \<le> x \<Longrightarrow> x \<le> 0x7FFF \<Longrightarrow> take_bit 16 x = (x :: int)"
  by (rule take_bit_int_eq_self) auto

lemma c_mod_1 [simp]: "c_mod a 1 = 0"
  by (simp add: c_mod_def)

lemma advance_index:
  assumes "i < n" and "n \<le> 0x7FFF" shows "advance_index n i = (i + 1) mod n"
proof -
  have "take_bit 16 (i + 1) = i + 1" using assms by (intro take_bit_nat_eq_self) simp
  thus ?thesis using assms by (cases "i + 1 = n") (auto simp: advance_index_def Let_def)
qed

lemma mod_Suc_step: "(a mod n + 1) mod n = (a + 1) mod (n :: nat)"
  by (simp add: mod_Suc_eq)

subsection \<open>Segments of the ring\<close>

definition seg :: "u8 list \<Rightarrow> nat \<Rightarrow> nat \<Rightarrow> u8 list" where
  "seg B p n = map (\<lambda>i. B ! ((p + i) mod length B)) [0..<n]"

lemma length_seg [simp]: "length (seg B p n) = n"
  by (simp add: seg_def)

lemma seg_0 [simp]: "seg B p 0 = []"
  by (simp add: seg_def)

lemma seg_Suc: "seg B p (Suc n) = seg B p n @ [B ! ((p + n) mod length B)]"
  by (simp add: seg_def)

lemma drop_seg: "drop k (seg B p n) = seg B (p + k) (n - k)"
  by (rule nth_equalityI) (auto simp: seg_def ac_simps)

lemma take_seg: "k \<le> n \<Longrightarrow> take k (seg B p n) = seg B p k"
  by (rule nth_equalityI) (auto simp: seg_def)

lemma seg_mod: "seg B (p mod length B) n = seg B p n"
  by (simp add: seg_def mod_simps)

lemma mod_eq_small:
  assumes "(p + i) mod n = (p + j) mod n" and "i < n" and "j < (n :: nat)" shows "i = j"
proof -
  have "int n dvd int (p + i) - int (p + j)"
    using assms(1) by (metis mod_eq_dvd_iff of_nat_mod)
  hence d: "int n dvd int i - int j" by simp
  show ?thesis
  proof (rule ccontr)
    assume "i \<noteq> j"
    hence "\<bar>int n\<bar> \<le> \<bar>int i - int j\<bar>" using d by (intro dvd_imp_le_int) auto
    thus False using assms(2,3) by linarith
  qed
qed

lemma seg_put:
  assumes "n < length B"
  shows "seg (B[(p + n) mod length B := d]) p (Suc n) = seg B p n @ [d]"
proof -
  have "B \<noteq> []" using assms by auto
  moreover have "B[(p + n) mod length B := d] ! ((p + i) mod length B) = B ! ((p + i) mod length B)" if "i < n" for i
    using mod_eq_small [of p i "length B" n] that assms by (intro nth_list_update_neq) auto
  ultimately show ?thesis by (simp add: seg_Suc seg_def)
qed

subsection \<open>The invariant of the ring and of the two sides\<close>

definition fifo_ok :: "Ifx_Fifo \<Rightarrow> bool" where
  "fifo_ok F \<longleftrightarrow> buffer F \<noteq> [] \<and> length (buffer F) \<le> 0x7FFF \<and> fsize F = int (length (buffer F)) \<and> elementSize F = 1 \<and>
     0 \<le> fcount F \<and> fcount F \<le> fsize F"

fun reserved :: "phase \<Rightarrow> int" where
  "reserved (Copy b n) = b" | "reserved (End b) = b" | "reserved _ = 0"

fun moved :: "phase \<Rightarrow> int" where
  "moved (Copy b n) = b - n" | "moved (End b) = b" | "moved _ = 0"

fun phase_ok :: "phase \<Rightarrow> int \<Rightarrow> bool" where
  "phase_ok (Copy b n) c \<longleftrightarrow> 0 < n \<and> n \<le> b \<and> b \<le> c"
| "phase_ok (End b) c \<longleftrightarrow> 0 < b \<and> b \<le> c"
| "phase_ok Begin c \<longleftrightarrow> 0 < c"
| "phase_ok Wait c \<longleftrightarrow> 0 < c"
| "phase_ok Woken c \<longleftrightarrow> 0 < c"
| "phase_ok _ c \<longleftrightarrow> True"

definition transfer_ok :: "transfer \<Rightarrow> bool" where
  "transfer_ok W \<longleftrightarrow> 0 \<le> t_count W \<and> t_count W \<le> 0x7FFF \<and> phase_ok (t_phase W) (t_count W)"

text \<open>\<open>p\<close> counts the bytes the reader has given_back: the ring holds the bytes from \<open>p\<close> on.\<close>

definition writer_ok :: "nat \<Rightarrow> Ifx_Fifo \<Rightarrow> transfer \<Rightarrow> bool" where
  "writer_ok p F W \<longleftrightarrow> transfer_ok W \<and> reserved (t_phase W) \<le> fsize F - fcount F \<and>
     t_count W - moved (t_phase W) \<le> int (length (t_data W)) \<and>
     (if t_phase W = Done then endIndex F = int ((p + nat (fcount F)) mod length (buffer F))
      else t_index W = (p + nat (fcount F + moved (t_phase W))) mod length (buffer F))"

definition reader_ok :: "nat \<Rightarrow> Ifx_Fifo \<Rightarrow> transfer \<Rightarrow> bool" where
  "reader_ok p F R \<longleftrightarrow> transfer_ok R \<and> reserved (t_phase R) \<le> fcount F \<and>
     (if t_phase R = Done then startIndex F = int (p mod length (buffer F))
      else t_index R = (p + nat (moved (t_phase R))) mod length (buffer F))"

text \<open>The bytes between the reader and what the writer has copied so far.\<close>

definition in_ring :: "nat \<Rightarrow> Ifx_Fifo \<Rightarrow> transfer \<Rightarrow> u8 list" where
  "in_ring p F W = seg (buffer F) p (nat (fcount F + moved (t_phase W)))"

lemma moved_le: "transfer_ok W \<Longrightarrow> 0 \<le> moved (t_phase W) \<and> moved (t_phase W) \<le> reserved (t_phase W)"
  by (cases "t_phase W") (auto simp: transfer_ok_def)

lemma fifo_okD:
  assumes "fifo_ok F"
  shows "0 < length (buffer F)" and "length (buffer F) \<le> 0x7FFF" and "nat (take_bit 16 (fsize F)) = length (buffer F)"
    and "fsize F = int (length (buffer F))"
  using assms by (auto simp: fifo_ok_def take_bit_16_id)

lemma index_fits: "fifo_ok F \<Longrightarrow> Ifx_SizeT (int (x mod length (buffer F))) = int (x mod length (buffer F))"
  using mod_less_divisor [of "length (buffer F)" x] unfolding fifo_ok_def length_greater_0_conv
  by (intro Ifx_SizeT_id) linarith+

subsection \<open>One step of the writer\<close>

lemma beginWrite_eq:
  assumes "fifo_ok F" and "0 < c" and "c \<le> 0x7FFF"
  shows "Ifx_Fifo_beginWrite F c = (let b = min c (fsize F - fcount F) in
    (b, F\<lparr>eventWriter := False, writerWaitx := min (c - b) (fsize F)\<rparr>))"
  using assms by (simp add: Ifx_Fifo_beginWrite_def fifo_defs fifo_ok_def Ifx_SizeT_id Let_def)

lemma endWrite_eq:
  assumes "fifo_ok F" and "0 < b" and "b \<le> fsize F - fcount F" and "b \<le> c" and "c \<le> 0x7FFF"
  shows "Ifx_Fifo_endWrite F c b = (c - b,
    F\<lparr>fcount := fcount F + b, maxcount := max (maxcount F) (fcount F + b),
      readerWaitx := (if readerWaitx F = 0 \<or> readerWaitx F \<le> b then 0 else readerWaitx F - b),
      eventReader := (eventReader F \<or> readerWaitx F \<noteq> 0 \<and> readerWaitx F \<le> b)\<rparr>)"
proof -
  have "Ifx_SizeT (fcount F + b) = fcount F + b" and "Ifx_SizeT (c - b) = c - b"
    using assms by (auto simp: fifo_ok_def intro!: Ifx_SizeT_id)
  thus ?thesis by (simp add: Ifx_Fifo_endWrite_def Let_def)
qed

lemma write_step_ok:
  assumes ok: "fifo_ok F" and w: "writer_ok p F W" and s: "write_step now (F, W) = Some (F', W')"
  shows "fifo_ok F'" and "writer_ok p F' W'" and "in_ring p F' W' @ t_data W' = in_ring p F W @ t_data W"
    and "fcount F \<le> fcount F'" and "startIndex F' = startIndex F" and "length (buffer F') = length (buffer F)"
    and "length (in_ring p F W) \<le> length (in_ring p F' W')"
proof -
  note D = fifo_okD [OF ok]
  have "fifo_ok F' \<and> writer_ok p F' W' \<and> in_ring p F' W' @ t_data W' = in_ring p F W @ t_data W \<and>
    fcount F \<le> fcount F' \<and> startIndex F' = startIndex F \<and> length (buffer F') = length (buffer F) \<and>
    length (in_ring p F W) \<le> length (in_ring p F' W')"
  proof (cases "t_phase W")
    case Begin
    hence c: "0 < t_count W" "t_count W \<le> 0x7FFF" using w by (auto simp: writer_ok_def transfer_ok_def)
    define b where "b = min (t_count W) (fsize F - fcount F)"
    have F': "F' = F\<lparr>eventWriter := False, writerWaitx := min (t_count W - b) (fsize F)\<rparr>"
      and W': "W' = W\<lparr>t_phase := (if b \<noteq> 0 then Copy b b else Test)\<rparr>"
      using s Begin beginWrite_eq [OF ok c] by (auto simp: write_step_def Let_def b_def)
    have "0 \<le> b" "b \<le> t_count W" "b \<le> fsize F - fcount F" using ok c by (auto simp: fifo_ok_def b_def)
    thus ?thesis using ok w Begin c
      by (cases "b = 0") (auto simp: F' W' fifo_ok_def writer_ok_def in_ring_def transfer_ok_def)
  next
    case (Copy b n)
    hence c: "0 < n" "n \<le> b" "b \<le> t_count W" "b \<le> fsize F - fcount F" "0 \<le> fcount F"
      using w ok by (auto simp: writer_ok_def transfer_ok_def fifo_ok_def)
    obtain d ds where d: "t_data W = d # ds" using Copy s by (auto simp: write_step_def split: list.splits)
    let ?n = "nat (fcount F + (b - n))"
    have i: "t_index W = (p + ?n) mod length (buffer F)" using w Copy by (simp add: writer_ok_def)
    have n: "?n < length (buffer F)" "nat (fcount F + (b - (n - 1))) = Suc ?n" "nat (fcount F + b - (n - 1)) = Suc ?n"
      using c D by auto
    have j: "advance_index (length (buffer F)) (t_index W) = (p + Suc ?n) mod length (buffer F)"
      using D by (simp add: i advance_index mod_Suc_eq)
    have F': "F' = F\<lparr>buffer := (buffer F)[(p + ?n) mod length (buffer F) := d]\<rparr>"
      and W': "W' = W\<lparr>t_data := ds, t_index := (p + Suc ?n) mod length (buffer F),
        t_phase := (if n - 1 > 0 then Copy b (n - 1) else End b)\<rparr>"
      using s Copy d j by (auto simp: write_step_def write8_body_def D(3) i)
    have m: "moved (t_phase W') = b - (n - 1)" using c(1) by (cases "n = 1") (auto simp: W')
    have seg: "in_ring p F' W' = in_ring p F W @ [d]"
      using seg_put [OF n(1), of p d] m n(2) by (simp add: in_ring_def F' Copy)
    show ?thesis
      using ok w c Copy d seg m n(2) by (auto simp: F' W' fifo_ok_def writer_ok_def transfer_ok_def)
  next
    case (End b)
    hence c: "0 < b" "b \<le> t_count W" "b \<le> fsize F - fcount F" "0 \<le> fcount F" "t_count W \<le> 0x7FFF"
      using w ok by (auto simp: writer_ok_def transfer_ok_def fifo_ok_def)
    have F': "fcount F' = fcount F + b" "buffer F' = buffer F" "fsize F' = fsize F"
      "elementSize F' = elementSize F" "startIndex F' = startIndex F"
      and W': "W' = W\<lparr>t_count := t_count W - b, t_phase := Test\<rparr>"
      using s End endWrite_eq [OF ok c(1,3,2,5)] by (auto simp: write_step_def)
    show ?thesis using ok w c End
      by (simp add: F' W' fifo_ok_def writer_ok_def transfer_ok_def in_ring_def)
  next
    case Leave
    have "Ifx_SizeT (int (t_index W)) = int (t_index W)"
      using w Leave index_fits [OF ok] by (simp add: writer_ok_def)
    hence F': "F' = F\<lparr>endIndex := int (t_index W)\<rparr>" and W': "W' = W\<lparr>t_phase := Done\<rparr>"
      using s Leave by (auto simp: write_step_def)
    show ?thesis using ok w Leave
      by (simp add: F' W' fifo_ok_def writer_ok_def transfer_ok_def in_ring_def)
  next
    case Test
    have F': "F' = F \<or> F' = F\<lparr>writerWaitx := 0\<rparr>"
      and W': "W' = W\<lparr>t_phase := Leave\<rparr> \<or> t_count W \<noteq> 0 \<and> W' = W\<lparr>t_phase := Wait\<rparr>"
      using s Test by (auto simp: write_step_def split: if_splits)
    show ?thesis using F' W' ok w Test
      by (elim disjE conjE) (simp_all add: fifo_ok_def writer_ok_def transfer_ok_def in_ring_def)
  next
    case Wait
    hence "F' = F" and "W' = W\<lparr>t_phase := Woken\<rparr>"
      using s by (auto simp: write_step_def split: if_splits)
    thus ?thesis using ok w Wait by (simp add: writer_ok_def transfer_ok_def in_ring_def)
  next
    case Woken
    hence "F' = F" and "W' = W\<lparr>t_stop := (eventWriter F = False), t_phase := Begin\<rparr>"
      using s by (auto simp: write_step_def)
    thus ?thesis using ok w Woken by (simp add: writer_ok_def transfer_ok_def in_ring_def)
  qed (use s in \<open>simp add: write_step_def\<close>)
  thus "fifo_ok F'" and "writer_ok p F' W'" and "in_ring p F' W' @ t_data W' = in_ring p F W @ t_data W"
    and "fcount F \<le> fcount F'" and "startIndex F' = startIndex F" and "length (buffer F') = length (buffer F)"
    and "length (in_ring p F W) \<le> length (in_ring p F' W')" by blast+
qed

subsection \<open>One step of the reader\<close>

lemma beginRead_eq:
  assumes "fifo_ok F" and "0 < c" and "c \<le> 0x7FFF"
  shows "Ifx_Fifo_beginRead F c = (let b = min c (fcount F) in
    (b, F\<lparr>eventReader := False, readerWaitx := min (c - b) (fsize F)\<rparr>))"
  using assms by (simp add: Ifx_Fifo_beginRead_def fifo_defs fifo_ok_def Ifx_SizeT_id Let_def)

lemma readEnd_eq:
  assumes "fifo_ok F" and "0 < b" and "b \<le> fcount F" and "b \<le> c" and "c \<le> 0x7FFF"
  shows "Ifx_Fifo_readEnd F c b = (c - b,
    F\<lparr>fcount := fcount F - b,
      writerWaitx := (if writerWaitx F = 0 \<or> writerWaitx F \<le> b then 0 else writerWaitx F - b),
      eventWriter := (eventWriter F \<or> writerWaitx F \<noteq> 0 \<and> writerWaitx F \<le> b)\<rparr>)"
proof -
  have "Ifx_SizeT (fcount F - b) = fcount F - b" and "Ifx_SizeT (c - b) = c - b"
    using assms by (auto simp: fifo_ok_def intro!: Ifx_SizeT_id)
  thus ?thesis by (simp add: Ifx_Fifo_readEnd_def Let_def)
qed

fun given_back :: "phase \<Rightarrow> nat" where
  "given_back (End b) = nat b" | "given_back _ = 0"

lemma drop_seg_Cons: "k < n \<Longrightarrow> drop k (seg B p n) = B ! ((p + k) mod length B) # drop (Suc k) (seg B p n)"
  using Cons_nth_drop_Suc [of k "seg B p n"] by (simp add: seg_def)

definition unread :: "nat \<Rightarrow> Ifx_Fifo \<Rightarrow> transfer \<Rightarrow> transfer \<Rightarrow> u8 list" where
  "unread p F W R = drop (nat (moved (t_phase R))) (in_ring p F W)"

lemma read_step_ok:
  assumes ok: "fifo_ok F" and r: "reader_ok p F R" and w: "writer_ok p F W"
    and s: "read_step now (F, R) = Some (F', R')"
  defines "p' \<equiv> p + given_back (t_phase R)"
  shows "fifo_ok F'" and "reader_ok p' F' R'" and "writer_ok p' F' W" and "buffer F' = buffer F"
    and "t_data R' @ unread p' F' W R' = t_data R @ unread p F W R" and "fcount F' \<le> fcount F"
    and "endIndex F' = endIndex F"
proof -
  note D = fifo_okD [OF ok]
  have m: "0 \<le> moved (t_phase W)" using w moved_le by (auto simp: writer_ok_def)
  have "fifo_ok F' \<and> reader_ok p' F' R' \<and> writer_ok p' F' W \<and> buffer F' = buffer F \<and>
    t_data R' @ unread p' F' W R' = t_data R @ unread p F W R \<and> fcount F' \<le> fcount F \<and> endIndex F' = endIndex F"
  proof (cases "t_phase R")
    case Begin
    hence c: "0 < t_count R" "t_count R \<le> 0x7FFF" using r by (auto simp: reader_ok_def transfer_ok_def)
    define b where "b = min (t_count R) (fcount F)"
    have F': "F' = F\<lparr>eventReader := False, readerWaitx := min (t_count R - b) (fsize F)\<rparr>"
      and R': "R' = R\<lparr>t_phase := (if b \<noteq> 0 then Copy b b else Test)\<rparr>"
      using s Begin beginRead_eq [OF ok c] by (auto simp: read_step_def Let_def b_def)
    have "0 \<le> b" "b \<le> t_count R" "b \<le> fcount F" using ok c by (auto simp: fifo_ok_def b_def)
    thus ?thesis using ok r w Begin c
      by (cases "b = 0") (auto simp: F' R' p'_def fifo_ok_def reader_ok_def writer_ok_def in_ring_def unread_def
          transfer_ok_def)
  next
    case (Copy b n)
    hence c: "0 < n" "n \<le> b" "b \<le> t_count R" "b \<le> fcount F"
      using r ok by (auto simp: reader_ok_def transfer_ok_def fifo_ok_def)
    let ?n = "nat (b - n)"
    have i: "t_index R = (p + ?n) mod length (buffer F)" using r Copy by (simp add: reader_ok_def)
    have n: "nat (b - (n - 1)) = Suc ?n" "?n < nat (fcount F + moved (t_phase W))" using c m by auto
    have j: "advance_index (length (buffer F)) (t_index R) = (p + Suc ?n) mod length (buffer F)"
      using D by (simp add: i advance_index mod_Suc_eq)
    have F': "F' = F" and R': "R' = R\<lparr>t_data := t_data R @ [buffer F ! ((p + ?n) mod length (buffer F))],
        t_index := (p + Suc ?n) mod length (buffer F),
        t_phase := (if n - 1 > 0 then Copy b (n - 1) else End b)\<rparr>"
      using s Copy j by (auto simp: read_step_def read8_body_def D(3) i)
    have m': "moved (t_phase R') = b - (n - 1)" using c(1) by (cases "n = 1") (auto simp: R')
    have "unread p F W R = buffer F ! ((p + ?n) mod length (buffer F)) # unread p F W R'"
      using drop_seg_Cons [OF n(2), of "buffer F" p] by (simp add: unread_def in_ring_def m' n(1) Copy)
    moreover have "t_data R' = t_data R @ [buffer F ! ((p + ?n) mod length (buffer F))]" by (simp add: R')
    moreover have "reader_ok p F R'" using r Copy c n(1) by (cases "n = 1") (auto simp: R' reader_ok_def transfer_ok_def)
    ultimately show ?thesis using ok w Copy by (simp add: F' p'_def)
  next
    case (End b)
    hence c: "0 < b" "b \<le> t_count R" "b \<le> fcount F" "t_count R \<le> 0x7FFF"
      using r ok by (auto simp: reader_ok_def transfer_ok_def fifo_ok_def)
    have F': "fcount F' = fcount F - b" "buffer F' = buffer F" "fsize F' = fsize F"
      "elementSize F' = elementSize F" "startIndex F' = startIndex F" "endIndex F' = endIndex F"
      and R': "R' = R\<lparr>t_count := t_count R - b, t_phase := Test\<rparr>"
      using s End readEnd_eq [OF ok c(1,3,2,4)] by (auto simp: read_step_def)
    have e: "p + nat b + nat (fcount F - b + k) = p + nat (fcount F + k)" if "0 \<le> k" for k
      using c that by auto
    have e0: "p + nat b + nat (fcount F - b) = p + nat (fcount F)" using e [of 0] by simp
    have "writer_ok p' F' W" using w c e [OF m] e0 End by (simp add: F' p'_def writer_ok_def add.assoc)
    moreover have "nat (fcount F + moved (t_phase W)) - nat b = nat (fcount F - b + moved (t_phase W))"
      using c m by linarith
    hence "unread p' F' W R' = unread p F W R"
      by (simp add: unread_def in_ring_def F' R' p'_def End drop_seg)
    ultimately show ?thesis using ok r c End
      by (simp add: F' R' p'_def fifo_ok_def reader_ok_def transfer_ok_def)
  next
    case Leave
    have "Ifx_SizeT (int (t_index R)) = int (t_index R)"
      using r Leave index_fits [OF ok] by (simp add: reader_ok_def)
    hence F': "F' = F\<lparr>startIndex := int (t_index R)\<rparr>" and R': "R' = R\<lparr>t_phase := Done\<rparr>"
      using s Leave by (auto simp: read_step_def)
    show ?thesis using ok r w Leave
      by (simp add: F' R' p'_def fifo_ok_def reader_ok_def writer_ok_def transfer_ok_def in_ring_def unread_def)
  next
    case Test
    have F': "F' = F \<or> F' = F\<lparr>readerWaitx := 0\<rparr>"
      and R': "R' = R\<lparr>t_phase := Leave\<rparr> \<or> t_count R \<noteq> 0 \<and> R' = R\<lparr>t_phase := Wait\<rparr>"
      using s Test by (auto simp: read_step_def split: if_splits)
    show ?thesis using F' R' ok r w Test
      by (elim disjE conjE) (simp_all add: p'_def fifo_ok_def reader_ok_def writer_ok_def transfer_ok_def in_ring_def unread_def)
  next
    case Wait
    hence "F' = F" and "R' = R\<lparr>t_phase := Woken\<rparr>"
      using s by (auto simp: read_step_def split: if_splits)
    thus ?thesis using ok r w Wait by (simp add: p'_def reader_ok_def transfer_ok_def unread_def)
  next
    case Woken
    hence "F' = F" and "R' = R\<lparr>t_stop := (eventReader F = False), t_phase := Begin\<rparr>"
      using s by (auto simp: read_step_def)
    thus ?thesis using ok r w Woken by (simp add: p'_def reader_ok_def transfer_ok_def unread_def)
  qed (use s in \<open>simp add: read_step_def\<close>)
  thus "fifo_ok F'" and "reader_ok p' F' R'" and "writer_ok p' F' W" and "buffer F' = buffer F"
    and "t_data R' @ unread p' F' W R' = t_data R @ unread p F W R" and "fcount F' \<le> fcount F"
    and "endIndex F' = endIndex F" by blast+
qed

subsection \<open>Interleaving the two sides\<close>

lemma reader_ok_write:
  assumes "fifo_ok F" and "writer_ok p F W" and "write_step now (F, W) = Some (F', W')" and "reader_ok p F R"
  shows "reader_ok p F' R"
  using write_step_ok [OF assms(1-3)] assms(4) by (simp add: reader_ok_def)

lemma unread_write:
  assumes ok: "fifo_ok F" and w: "writer_ok p F W" and s: "write_step now (F, W) = Some (F', W')"
    and r: "reader_ok p F R"
  shows "unread p F' W' R @ t_data W' = unread p F W R @ t_data W"
proof -
  have "moved (t_phase R) \<le> fcount F" and "0 \<le> moved (t_phase W)"
    using r w moved_le [of R] moved_le [of W] by (auto simp: reader_ok_def writer_ok_def)
  hence k: "nat (moved (t_phase R)) \<le> length (in_ring p F W)" by (simp add: in_ring_def nat_le_iff)
  note w' = write_step_ok(3,7) [OF ok w s]
  have "unread p F' W' R @ t_data W' = drop (nat (moved (t_phase R))) (in_ring p F' W' @ t_data W')"
    using k w'(2) by (simp add: unread_def)
  also have "\<dots> = unread p F W R @ t_data W" using k by (simp add: w'(1) unread_def)
  finally show ?thesis .
qed

text \<open>
  One step of either side, at any time: the clock only decides when a side gives up waiting.
\<close>

inductive fifo_step :: "Ifx_Fifo \<times> transfer \<times> transfer \<Rightarrow> Ifx_Fifo \<times> transfer \<times> transfer \<Rightarrow> bool" where
  by_writer: "write_step now (F, W) = Some (F', W') \<Longrightarrow> fifo_step (F, W, R) (F', W', R)"
| by_reader: "read_step now (F, R) = Some (F', R') \<Longrightarrow> fifo_step (F, W, R) (F', W, R')"

inductive_cases fifo_stepE: "fifo_step s s'"

definition fifo_inv :: "u8 list \<Rightarrow> Ifx_Fifo \<times> transfer \<times> transfer \<Rightarrow> bool" where
  "fifo_inv ds = (\<lambda>(F, W, R). fifo_ok F \<and>
     (\<exists>p. writer_ok p F W \<and> reader_ok p F R \<and> t_data R @ unread p F W R @ t_data W = ds))"

lemma fifo_step_inv: "fifo_step s s' \<Longrightarrow> fifo_inv ds s \<Longrightarrow> fifo_inv ds s'"
proof (induction rule: fifo_step.induct)
  case (by_writer now F W F' W' R)
  then obtain p where p: "fifo_ok F" "writer_ok p F W" "reader_ok p F R" "t_data R @ unread p F W R @ t_data W = ds"
    by (auto simp: fifo_inv_def)
  show ?case using p unread_write [OF p(1,2) by_writer(1) p(3)] write_step_ok(1,2) [OF p(1,2) by_writer(1)]
      reader_ok_write [OF p(1,2) by_writer(1) p(3)] by (auto simp: fifo_inv_def intro!: exI [of _ p])
next
  case (by_reader now F R F' R' W)
  then obtain p where p: "fifo_ok F" "writer_ok p F W" "reader_ok p F R" "t_data R @ unread p F W R @ t_data W = ds"
    by (auto simp: fifo_inv_def)
  note r = read_step_ok [OF p(1,3,2) by_reader(1)]
  have "t_data R' @ unread (p + given_back (t_phase R)) F' W R' @ t_data W = ds"
    using r(5) p(4) by (metis append_assoc)
  with r(1-3) show ?case by (auto simp: fifo_inv_def intro!: exI [of _ "p + given_back (t_phase R)"])
qed

lemma fifo_steps_inv: "fifo_step\<^sup>*\<^sup>* s s' \<Longrightarrow> fifo_inv ds s \<Longrightarrow> fifo_inv ds s'"
  by (induction rule: rtranclp_induct) (auto intro: fifo_step_inv)

text \<open>The bytes that a call has still to move, and that it has moved, make up its count.\<close>

lemma write_step_count:
  assumes "fifo_ok F" and "writer_ok p F W" and "write_step now (F, W) = Some (F', W')"
  shows "int (length (t_data W')) - t_count W' + moved (t_phase W') =
    int (length (t_data W)) - t_count W + moved (t_phase W)"
proof (cases "t_phase W")
  case Begin
  thus ?thesis using assms(3) by (auto simp: write_step_def split: prod.splits)
next
  case (Copy b n)
  thus ?thesis using assms(2,3)
    by (auto simp: write_step_def writer_ok_def transfer_ok_def split: list.splits prod.splits if_splits)
next
  case (End b)
  hence c: "0 < b" "b \<le> fsize F - fcount F" "b \<le> t_count W" "t_count W \<le> 0x7FFF"
    using assms(1,2) by (auto simp: writer_ok_def transfer_ok_def fifo_ok_def)
  show ?thesis using End assms(3) endWrite_eq [OF assms(1) c] by (auto simp: write_step_def)
qed (use assms(3) in \<open>auto simp: write_step_def split: if_splits\<close>)

lemma read_step_count:
  assumes "fifo_ok F" and "reader_ok p F R" and "read_step now (F, R) = Some (F', R')"
  shows "int (length (t_data R')) + t_count R' - moved (t_phase R') =
    int (length (t_data R)) + t_count R - moved (t_phase R)"
proof (cases "t_phase R")
  case Begin
  thus ?thesis using assms(3) by (auto simp: read_step_def split: prod.splits)
next
  case (Copy b n)
  thus ?thesis using assms(2,3)
    by (auto simp: read_step_def reader_ok_def transfer_ok_def split: prod.splits if_splits)
next
  case (End b)
  hence c: "0 < b" "b \<le> fcount F" "b \<le> t_count R" "t_count R \<le> 0x7FFF"
    using assms(1,2) by (auto simp: reader_ok_def transfer_ok_def fifo_ok_def)
  show ?thesis using End assms(3) readEnd_eq [OF assms(1) c] by (auto simp: read_step_def)
qed (use assms(3) in \<open>auto simp: read_step_def split: if_splits\<close>)

subsection \<open>The ring between two calls\<close>

definition fifo_bytes :: "Ifx_Fifo \<Rightarrow> u8 list" where
  "fifo_bytes F = seg (buffer F) (nat (startIndex F)) (nat (fcount F))"

definition fifo_idle :: "Ifx_Fifo \<Rightarrow> bool" where
  "fifo_idle F \<longleftrightarrow> fifo_ok F \<and> 0 \<le> startIndex F \<and> startIndex F < fsize F \<and>
     endIndex F = int ((nat (startIndex F) + nat (fcount F)) mod length (buffer F))"

lemma length_fifo_bytes: "fifo_ok F \<Longrightarrow> int (length (fifo_bytes F)) = fcount F"
  by (simp add: fifo_bytes_def fifo_ok_def)

lemma fifo_idleI:
  assumes "fifo_ok F" and "startIndex F = int (p mod length (buffer F))"
    and "endIndex F = int ((p + nat (fcount F)) mod length (buffer F))"
  shows "fifo_idle F" and "fifo_bytes F = seg (buffer F) p (nat (fcount F))"
  using assms fifo_okD(1,4) [OF assms(1)] by (auto simp: fifo_idle_def fifo_bytes_def seg_mod mod_simps)

lemma index_start:
  assumes "0 \<le> i" and "i < int (length B)" and "length B \<le> 0x7FFF"
  shows "nat (take_bit 16 i) = nat i"
  using assms by (simp add: take_bit_16_id)

lemma write_start:
  assumes i: "fifo_idle F" and c: "0 \<le> c" "c \<le> int (length d)" "c \<le> 0x7FFF"
  shows "writer_ok (nat (startIndex F)) F (Ifx_Fifo_write now F d c timeout)"
    and "t_data (Ifx_Fifo_write now F d c timeout) = d"
    and "in_ring (nat (startIndex F)) F (Ifx_Fifo_write now F d c timeout) = fifo_bytes F"
proof -
  have "nat (take_bit 16 (endIndex F)) = (nat (startIndex F) + nat (fcount F)) mod length (buffer F)"
    using i fifo_okD(1,2) [of F] by (subst index_start [of _ "buffer F"]) (auto simp: fifo_idle_def)
  thus "writer_ok (nat (startIndex F)) F (Ifx_Fifo_write now F d c timeout)"
    using i c by (simp add: Ifx_Fifo_write_def writer_ok_def transfer_ok_def fifo_idle_def fifo_ok_def)
qed (use c in \<open>auto simp: Ifx_Fifo_write_def in_ring_def fifo_bytes_def\<close>)

lemma read_start:
  assumes i: "fifo_idle F" and c: "0 \<le> c" "c \<le> 0x7FFF"
  shows "reader_ok (nat (startIndex F)) F (Ifx_Fifo_read now F c timeout)"
    and "t_data (Ifx_Fifo_read now F c timeout) = []" and "moved (t_phase (Ifx_Fifo_read now F c timeout)) = 0"
proof -
  have "nat (take_bit 16 (startIndex F)) = nat (startIndex F)"
    using i fifo_okD(2) [of F] by (subst index_start [of _ "buffer F"]) (auto simp: fifo_idle_def fifo_ok_def)
  moreover have "nat (startIndex F) < length (buffer F)"
    using i by (auto simp: fifo_idle_def fifo_ok_def)
  ultimately show "reader_ok (nat (startIndex F)) F (Ifx_Fifo_read now F c timeout)"
    using i c by (simp add: Ifx_Fifo_read_def reader_ok_def transfer_ok_def fifo_idle_def fifo_ok_def)
qed (use c in \<open>auto simp: Ifx_Fifo_read_def\<close>)

lemma fifo_start_inv:
  assumes "fifo_idle F" and "0 \<le> c" "c \<le> int (length d)" "c \<le> 0x7FFF" and "0 \<le> c'" "c' \<le> 0x7FFF"
  shows "fifo_inv (fifo_bytes F @ d) (F, Ifx_Fifo_write now F d c timeout, Ifx_Fifo_read now' F c' timeout')"
  using write_start [OF assms(1-4)] read_start [OF assms(1,5,6)] assms(1)
  by (auto simp: fifo_inv_def unread_def fifo_idle_def intro!: exI [of _ "nat (startIndex F)"])

lemma fifo_inv_idle:
  assumes "fifo_inv ds (F, W, R)" and "t_phase W = Done" and "t_phase R = Done"
  shows "fifo_idle F" and "t_data R @ fifo_bytes F @ t_data W = ds"
  using assms fifo_idleI [of F] by (auto simp: fifo_inv_def writer_ok_def reader_ok_def unread_def in_ring_def)

text \<open>The bytes the writer has left beyond its count, and the count of the reader with what it has got.\<close>

definition fifo_counts :: "Ifx_Fifo \<times> transfer \<times> transfer \<Rightarrow> int \<times> int" where
  "fifo_counts = (\<lambda>(F, W, R). (int (length (t_data W)) - t_count W + moved (t_phase W),
     int (length (t_data R)) + t_count R - moved (t_phase R)))"

lemma fifo_step_counts:
  assumes "fifo_step s s'" and "fifo_inv ds s"
  shows "fifo_counts s' = fifo_counts s"
  using assms
proof (induction rule: fifo_step.induct)
  case (by_writer now F W F' W' R)
  then obtain p where "fifo_ok F" "writer_ok p F W" by (auto simp: fifo_inv_def)
  from write_step_count [OF this by_writer(1)] show ?case by (simp add: fifo_counts_def)
next
  case (by_reader now F R F' R' W)
  then obtain p where "fifo_ok F" "reader_ok p F R" by (auto simp: fifo_inv_def)
  from read_step_count [OF this by_reader(1)] show ?case by (simp add: fifo_counts_def)
qed

lemma fifo_steps_counts:
  "fifo_step\<^sup>*\<^sup>* s s' \<Longrightarrow> fifo_inv ds s \<Longrightarrow> fifo_counts s' = fifo_counts s"
  by (induction rule: rtranclp_induct) (auto dest: fifo_step_counts fifo_steps_inv)

end
