(* ===== verification/Console.thy ===== *)
theory Console
  imports Fifo
begin

section \<open>The serial console (IfxAsclin_Asc.c, AppSrc/Drv/uart_debug.c)\<close>

text \<open>
  The driver of the serial interface with its two software FIFOs, in the buffer mode \<open>normal\<close> that
  \<open>initSerialInterface\<close> leaves set.  The registers are a hardware FIFO of 16 bytes in each direction,
  the request of the transmit interrupt and the bytes on the line.  \<open>IfxAsclin_Asc_write\<close> runs in
  steps, so that the interrupt can come between any two of them; an interrupt routine is one step.
\<close>

datatype asc_error = parityError | frameError | rxFifoOverflow | rxFifoUnderflow | txFifoOverflow

record IfxAsclin_Asc =
  tx :: Ifx_Fifo
  rx :: Ifx_Fifo
  txInProgress :: bool
  rxSwFifoOverflow :: bool
  errorFlags :: "asc_error set"
  sendCount :: u32
  txTimestamp :: int

record console = IfxAsclin_Asc +
  hw_tx :: "u8 list"
  hw_rx :: "u8 list"
  hw_errors :: "asc_error set"
  tx_request :: bool
  line :: "u8 list"

definition ASC_TX_BUFFER_SIZE :: int where "ASC_TX_BUFFER_SIZE = 64"
definition ASC_RX_BUFFER_SIZE :: int where "ASC_RX_BUFFER_SIZE = 64"
definition STDIF_DPIPE_MAX_PRINT_SIZE :: nat where "STDIF_DPIPE_MAX_PRINT_SIZE = 255"

text \<open>\<open>m\<close> and \<open>m'\<close> are what the memory of the two buffers holds before.\<close>

definition IfxAsclin_Asc_initModule :: "(nat \<Rightarrow> u8) \<Rightarrow> int \<Rightarrow> (nat \<Rightarrow> u8) \<Rightarrow> int \<Rightarrow> console" where
  "IfxAsclin_Asc_initModule m txBufferSize m' rxBufferSize =
     \<lparr>tx = Ifx_Fifo_init m txBufferSize 1, rx = Ifx_Fifo_init m' rxBufferSize 1, txInProgress = False,
      rxSwFifoOverflow = False, errorFlags = {}, sendCount = 0, txTimestamp = 0,
      hw_tx = [], hw_rx = [], hw_errors = {}, tx_request = False, line = []\<rparr>"

subsection \<open>Calls that nothing interrupts\<close>

definition fifo_read_now :: "int \<Rightarrow> Ifx_Fifo \<Rightarrow> int \<Rightarrow> (u8 list \<times> int \<times> Ifx_Fifo) option" where
  "fifo_read_now now F count =
     do {
       (F, R) \<leftarrow> run_steps (read_step now) (F, Ifx_Fifo_read now F count TIME_NULL);
       Some (t_data R, t_count R, F)
     }"

definition fifo_write_now :: "int \<Rightarrow> Ifx_Fifo \<Rightarrow> u8 list \<Rightarrow> int \<Rightarrow> (int \<times> Ifx_Fifo) option" where
  "fifo_write_now now F data count =
     do {
       (F, W) \<leftarrow> run_steps (write_step now) (F, Ifx_Fifo_write now F data count TIME_NULL);
       Some (t_count W, F)
     }"

subsection \<open>The interrupt routines\<close>

definition IfxAsclin_Asc_isrTransmit :: "int \<Rightarrow> console \<Rightarrow> console option" where
  "IfxAsclin_Asc_isrTransmit now C =
     (let C = C\<lparr>txTimestamp := now, sendCount := sendCount C + 1\<rparr> in
      if Ifx_Fifo_isEmpty (tx C) = False then
        let count = take_bit 16 (Ifx_Fifo_readCount (tx C));
            hw_tx_fill_level = take_bit 8 (int (length (hw_tx C)));
            i_count = take_bit 16 (16 - hw_tx_fill_level);
            i_count = (if i_count > count then count else i_count) in
        do {
          (ascData, left, F) \<leftarrow> fifo_read_now now (tx C) (Ifx_SizeT i_count);
          Some (C\<lparr>tx := F, hw_tx := hw_tx C @ ascData\<rparr>)
        }
      else Some (C\<lparr>txInProgress := False\<rparr>))"

definition IfxAsclin_Asc_isrReceive :: "int \<Rightarrow> console \<Rightarrow> console option" where
  "IfxAsclin_Asc_isrReceive now C =
     (let count = take_bit 8 (int (length (hw_rx C))); ascData = take (nat count) (hw_rx C) in
      do {
        (left, F) \<leftarrow> fifo_write_now now (rx C) ascData count;
        let C = C\<lparr>rx := F, hw_rx := drop (nat count) (hw_rx C)\<rparr>;
        Some (if left \<noteq> 0 then C\<lparr>rxSwFifoOverflow := True\<rparr> else C)
      })"

definition store_error :: "asc_error \<Rightarrow> console \<Rightarrow> console" where
  "store_error e C =
     (if e \<in> hw_errors C then C\<lparr>hw_errors := hw_errors C - {e}, errorFlags := insert e (errorFlags C)\<rparr> else C)"

definition IfxAsclin_Asc_isrError :: "console \<Rightarrow> console" where
  "IfxAsclin_Asc_isrError C =
     (let C = store_error parityError C;
          C = store_error frameError C;
          C = store_error rxFifoOverflow C;
          C = store_error rxFifoUnderflow C in
      store_error txFifoOverflow C)"

subsection \<open>Writing\<close>

text \<open>
  The place where \<open>IfxAsclin_Asc_write\<close> stands.  \<open>rest\<close> is the second part of the data, when the call
  writes in two parts; \<open>left\<close> what the last \<open>Ifx_Fifo_write\<close> has returned.  \<open>InitTest\<close> to \<open>InitSend\<close>
  are the steps of \<open>IfxAsclin_Asc_initiateTransmission\<close>.
\<close>

datatype asc_pc =
    WriteStart "u8 list" int
  | FifoWrite transfer "(u8 list \<times> int) option"
  | InitTest "(u8 list \<times> int) option" int
  | InitEmpty "(u8 list \<times> int) option" int
  | InitSet "(u8 list \<times> int) option" int
  | InitSend "(u8 list \<times> int) option" int
  | InitEnd "(u8 list \<times> int) option" int
  | WriteDone bool int

fun initiate_step :: "int \<Rightarrow> console \<Rightarrow> asc_pc \<Rightarrow> (console \<times> asc_pc) option" where
  "initiate_step now C (InitTest r l) =
     Some (C, if txInProgress C = False then InitEmpty r l else InitEnd r l)"
| "initiate_step now C (InitEmpty r l) =
     Some (C, if Ifx_Fifo_isEmpty (tx C) = False then InitSet r l else InitEnd r l)"
| "initiate_step now C (InitSet r l) = Some (C\<lparr>txInProgress := True\<rparr>, InitSend r l)"
| "initiate_step now C (InitSend r l) =
     do {
       (bs, left, F) \<leftarrow> fifo_read_now now (tx C) 1;
       (case bs of [] \<Rightarrow> None | b # _ \<Rightarrow> Some (C\<lparr>tx := F, hw_tx := hw_tx C @ [b]\<rparr>, InitEnd r l))
     }"
| "initiate_step now C _ = None"

definition IfxAsclin_Asc_write :: "int \<Rightarrow> int \<Rightarrow> console \<Rightarrow> u8 list \<Rightarrow> int \<Rightarrow> asc_pc" where
  "IfxAsclin_Asc_write now timeout C data count =
     (let tx_status = txInProgress C; tx_fifo_size = take_bit 16 (fsize (tx C)) in
      if count \<noteq> 0 then
        if \<not> tx_status \<and> count > tx_fifo_size
        then FifoWrite (Ifx_Fifo_write now (tx C) data (Ifx_SizeT tx_fifo_size) timeout)
               (Some (drop (nat tx_fifo_size) data, Ifx_SizeT (count - tx_fifo_size)))
        else FifoWrite (Ifx_Fifo_write now (tx C) data count timeout) None
      else WriteDone True 0)"

fun asc_write_step :: "int \<Rightarrow> int \<Rightarrow> console \<Rightarrow> asc_pc \<Rightarrow> (console \<times> asc_pc) option" where
  "asc_write_step now timeout C (WriteStart data count) =
     Some (C, IfxAsclin_Asc_write now timeout C data count)"
| "asc_write_step now timeout C (FifoWrite W r) =
     (if t_phase W = Done then Some (C, InitTest r (t_count W))
      else do { (F, W) \<leftarrow> write_step now (tx C, W); Some (C\<lparr>tx := F\<rparr>, FifoWrite W r) })"
| "asc_write_step now timeout C (InitEnd r l) =
     Some (C, case r of Some (data, count) \<Rightarrow> FifoWrite (Ifx_Fifo_write now (tx C) data count timeout) None
                      | None \<Rightarrow> WriteDone (l = 0) l)"
| "asc_write_step now timeout C (WriteDone b l) = None"
| "asc_write_step now timeout C p = initiate_step now C p"

text \<open>\<open>Ifx_print\<close>: the bytes of the formatted message, without a limit of time.\<close>

definition Ifx_print :: "u8 list \<Rightarrow> asc_pc" where
  "Ifx_print message = WriteStart message (Ifx_SizeT (int (length message)))"

subsection \<open>Reading and clearing\<close>

definition IfxAsclin_Asc_read :: "int \<Rightarrow> console \<Rightarrow> int \<Rightarrow> int \<Rightarrow> transfer" where
  "IfxAsclin_Asc_read now C count timeout = Ifx_Fifo_read now (rx C) count timeout"

text \<open>The value of the call that has read \<open>R\<close>, and the count it stores back.\<close>

definition asc_read_end :: "int \<Rightarrow> transfer \<Rightarrow> bool \<times> int" where
  "asc_read_end count R = (let left = t_count R in (left = 0, Ifx_SizeT (count - left)))"

definition IfxAsclin_Asc_blockingWrite :: "u8 \<Rightarrow> asc_pc" where
  "IfxAsclin_Asc_blockingWrite data = WriteStart [data] 1"

definition IfxAsclin_Asc_getReadCount :: "console \<Rightarrow> int" where
  "IfxAsclin_Asc_getReadCount C = Ifx_Fifo_readCount (rx C)"

definition IfxAsclin_Asc_getWriteCount :: "console \<Rightarrow> int" where
  "IfxAsclin_Asc_getWriteCount C = Ifx_Fifo_writeCount (tx C)"

text \<open>The events behind the pointers that are returned.\<close>

definition IfxAsclin_Asc_getReadEvent :: "console \<Rightarrow> bool" where
  "IfxAsclin_Asc_getReadEvent C = eventWriter (rx C)"

definition IfxAsclin_Asc_getWriteEvent :: "console \<Rightarrow> bool" where
  "IfxAsclin_Asc_getWriteEvent C = eventWriter (tx C)"

definition IfxAsclin_Asc_getSendCount :: "console \<Rightarrow> u32" where
  "IfxAsclin_Asc_getSendCount C = sendCount C"

definition IfxAsclin_Asc_getTxTimeStamp :: "console \<Rightarrow> int" where
  "IfxAsclin_Asc_getTxTimeStamp C = txTimestamp C"

definition IfxAsclin_Asc_clearRx :: "console \<Rightarrow> console" where
  "IfxAsclin_Asc_clearRx C = (let C = C\<lparr>hw_rx := []\<rparr> in C\<lparr>rx := Ifx_Fifo_clear (rx C)\<rparr>)"

definition IfxAsclin_Asc_clearTx :: "console \<Rightarrow> console" where
  "IfxAsclin_Asc_clearTx C = (let C = C\<lparr>tx := Ifx_Fifo_clear (tx C)\<rparr> in C\<lparr>hw_tx := []\<rparr>)"

definition IfxAsclin_Asc_canReadCount :: "int \<Rightarrow> console \<Rightarrow> int \<Rightarrow> int \<Rightarrow> (bool + int) \<times> console" where
  "IfxAsclin_Asc_canReadCount now C count timeout =
     (let (r, F) = Ifx_Fifo_canReadCount now (rx C) count timeout in (r, C\<lparr>rx := F\<rparr>))"

definition IfxAsclin_Asc_canWriteCount :: "int \<Rightarrow> console \<Rightarrow> int \<Rightarrow> int \<Rightarrow> (bool + int) \<times> console" where
  "IfxAsclin_Asc_canWriteCount now C count timeout =
     (let (r, F) = Ifx_Fifo_canWriteCount now (tx C) count timeout in (r, C\<lparr>tx := F\<rparr>))"

text \<open>\<open>IfxAsclin_Asc_flushTx\<close>: the software FIFO first, then the hardware FIFO is polled.\<close>

definition flushTx_begin :: "int \<Rightarrow> console \<Rightarrow> int \<Rightarrow> int \<times> (bool + int) \<times> console" where
  "flushTx_begin now C timeout =
     (let deadline = IfxStm_getDeadLine now timeout; (r, F) = Ifx_Fifo_flush now (tx C) timeout in
      (deadline, r, C\<lparr>tx := F\<rparr>))"

definition flushTx_poll :: "int \<Rightarrow> int \<Rightarrow> console \<Rightarrow> bool option" where
  "flushTx_poll now deadline C =
     (let result = (hw_tx C = []) in
      if \<not> result \<and> \<not> IfxStm_isDeadLine now deadline then None else Some result)"

definition IfxAsclin_Asc_resetSendCount :: "console \<Rightarrow> console" where
  "IfxAsclin_Asc_resetSendCount C = C\<lparr>sendCount := 0\<rparr>"

subsection \<open>The writer, the hardware and the interrupt together\<close>

text \<open>
  The hardware sends the bytes of its FIFO one by one and requests the interrupt when the FIFO has run
  empty (interrupt level 0).  \<open>Ifx_print\<close> waits without a limit of time.
\<close>

inductive console_step :: "console \<times> asc_pc \<Rightarrow> console \<times> asc_pc \<Rightarrow> bool" where
  writer: "asc_write_step now TIME_INFINITE C pc = Some (C', pc') \<Longrightarrow> now < TIME_INFINITE \<Longrightarrow>
    console_step (C, pc) (C', pc')"
| send: "hw_tx C = b # bs \<Longrightarrow>
    console_step (C, pc) (C\<lparr>hw_tx := bs, line := line C @ [b], tx_request := tx_request C \<or> bs = []\<rparr>, pc)"
| asc0TxISR: "tx_request C \<Longrightarrow> IfxAsclin_Asc_isrTransmit now (C\<lparr>tx_request := False\<rparr>) = Some C' \<Longrightarrow>
    now < TIME_INFINITE \<Longrightarrow> console_step (C, pc) (C', pc)"

inductive_cases console_stepE: "console_step (C, pc) s'"

end
