(* ===== verification/FifoCalls.thy ===== *)
theory FifoCalls
  imports FifoSpec Console
begin

section \<open>Calls of the FIFO that nothing interrupts, and the signal to a waiting writer\<close>

subsection \<open>Reading and writing without waiting\<close>

lemma run_Some: "f s = Some s' \<Longrightarrow> run_steps f s = run_steps f s'"
  by (subst run_steps.simps) simp

lemma run_None: "f s = None \<Longrightarrow> run_steps f s = Some s"
  by (subst run_steps.simps) simp

lemma seg_Cons: "seg B p (Suc n) = B ! (p mod length B) # seg B (Suc p) n"
proof -
  have "seg B p (Suc n) = map (\<lambda>i. B ! ((p + i) mod length B)) (0 # map Suc [0..<n])"
    by (simp add: seg_def upt_conv_Cons map_Suc_upt del: upt_Suc)
  thus ?thesis by (simp add: seg_def comp_def)
qed

lemma run_read_copy:
  assumes ok: "fifo_ok F"
  shows "0 < n \<Longrightarrow> t_phase R = Copy b (int n) \<Longrightarrow> t_index R = q mod length (buffer F) \<Longrightarrow>
    run_steps (read_step now) (F, R) = run_steps (read_step now) (F,
      R\<lparr>t_data := t_data R @ seg (buffer F) q n, t_index := (q + n) mod length (buffer F), t_phase := End b\<rparr>)"
proof (induction n arbitrary: R q)
  case (Suc n)
  note D = fifo_okD [OF ok]
  let ?R = "R\<lparr>t_data := t_data R @ [buffer F ! (q mod length (buffer F))],
    t_index := Suc q mod length (buffer F), t_phase := (if n = 0 then End b else Copy b (int n))\<rparr>"
  have "read_step now (F, R) = Some (F, ?R)"
    using Suc.prems D by (simp add: read_step_def read8_body_def advance_index mod_Suc_eq)
  hence r: "run_steps (read_step now) (F, R) = run_steps (read_step now) (F, ?R)" by (rule run_Some)
  show ?case
  proof (cases n)
    case 0
    with r show ?thesis by (simp add: seg_Cons)
  next
    case (Suc m)
    hence "run_steps (read_step now) (F, ?R) = run_steps (read_step now) (F,
      ?R\<lparr>t_data := t_data ?R @ seg (buffer F) (Suc q) n, t_index := (Suc q + n) mod length (buffer F), t_phase := End b\<rparr>)"
      by (intro Suc.IH) simp_all
    with r show ?thesis by (simp add: seg_Cons)
  qed
qed simp

definition read_effect :: "nat \<Rightarrow> int \<Rightarrow> Ifx_Fifo \<Rightarrow> Ifx_Fifo" where
  "read_effect p b F = F\<lparr>fcount := fcount F - b, startIndex := int ((p + nat b) mod length (buffer F)),
     eventReader := False, readerWaitx := 0,
     writerWaitx := (if b = 0 then writerWaitx F
       else if writerWaitx F = 0 \<or> writerWaitx F \<le> b then 0 else writerWaitx F - b),
     eventWriter := (if b = 0 then eventWriter F
       else eventWriter F \<or> writerWaitx F \<noteq> 0 \<and> writerWaitx F \<le> b)\<rparr>"

lemma deadline_now: "now < TIME_INFINITE \<Longrightarrow> IfxStm_isDeadLine now (IfxStm_getDeadLine now TIME_NULL)"
  by (simp add: IfxStm_isDeadLine_def IfxStm_getDeadLine_def TIME_NULL_def TIME_INFINITE_def)

lemma fifo_read_now:
  assumes ok: "fifo_ok F" and i: "startIndex F = int (p mod length (buffer F))" and c: "0 < c" "c \<le> 0x7FFF"
    and t: "now < TIME_INFINITE"
  defines "b \<equiv> min c (fcount F)"
  shows "fifo_read_now now F c = Some (seg (buffer F) p (nat b), c - b, read_effect p b F)"
proof -
  note D = fifo_okD [OF ok]
  let ?m = "int (p mod length (buffer F))"
  have b: "0 \<le> b" "b \<le> c" "b \<le> fcount F" using ok c by (auto simp: b_def fifo_ok_def)
  have idx: "nat (take_bit 16 ?m) = p mod length (buffer F)"
    using D(1,2) by (subst index_start [of _ "buffer F"]) auto
  define R where "R = \<lparr>t_data = [], t_count = c, t_index = p mod length (buffer F), t_stop = False,
    t_deadline = IfxStm_getDeadLine now TIME_NULL, t_phase = Begin\<rparr>"
  define F1 where "F1 = F\<lparr>eventReader := False, readerWaitx := min (c - b) (fsize F)\<rparr>"
  have R: "Ifx_Fifo_read now F c TIME_NULL = R" using c idx by (simp add: Ifx_Fifo_read_def R_def i)
  have ok1: "fifo_ok F1" using ok by (simp add: F1_def fifo_ok_def)
  let ?R1 = "R\<lparr>t_phase := (if b \<noteq> 0 then Copy b b else Test)\<rparr>"
  have "run_steps (read_step now) (F, R) = run_steps (read_step now) (F1, ?R1)"
    by (rule run_Some) (simp add: read_step_def R_def F1_def beginRead_eq [OF ok c] flip: b_def)
  also have "\<dots> = Some (read_effect p b F,
      R\<lparr>t_data := seg (buffer F) p (nat b), t_count := c - b, t_index := (p + nat b) mod length (buffer F), t_phase := Done\<rparr>)"
  proof (cases "b = 0")
    case True
    have "run_steps (read_step now) (F1, ?R1) = run_steps (read_step now) (F1\<lparr>readerWaitx := 0\<rparr>, R\<lparr>t_phase := Leave\<rparr>)"
      using True deadline_now [OF t] by (intro run_Some) (simp add: read_step_def R_def)
    also have "\<dots> = run_steps (read_step now) (F1\<lparr>readerWaitx := 0, startIndex := ?m\<rparr>, R\<lparr>t_phase := Done\<rparr>)"
      using index_fits [OF ok] by (intro run_Some) (simp add: read_step_def R_def)
    also have "\<dots> = Some (F1\<lparr>readerWaitx := 0, startIndex := ?m\<rparr>, R\<lparr>t_phase := Done\<rparr>)"
      by (intro run_None) (simp add: read_step_def R_def)
    finally show ?thesis using True by (simp add: F1_def read_effect_def R_def)
  next
    case False
    let ?R2 = "R\<lparr>t_data := seg (buffer F) p (nat b), t_index := (p + nat b) mod length (buffer F), t_phase := End b\<rparr>"
    let ?R3 = "?R2\<lparr>t_count := c - b, t_phase := Test\<rparr>"
    define F2 where "F2 = snd (Ifx_Fifo_readEnd F1 c b)"
    have e: "Ifx_Fifo_readEnd F1 c b = (c - b, F2)"
      using readEnd_eq [OF ok1, of b c] b c False by (simp add: F2_def F1_def)
    have "run_steps (read_step now) (F1, ?R1) = run_steps (read_step now) (F1, ?R2)"
      using run_read_copy [OF ok1, of "nat b" ?R1 b p now] b False by (simp add: R_def F1_def)
    also have "\<dots> = run_steps (read_step now) (F2, ?R3)"
      by (rule run_Some) (simp add: read_step_def R_def e)
    also have "\<dots> = run_steps (read_step now) (F2\<lparr>readerWaitx := 0\<rparr>, ?R3\<lparr>t_phase := Leave\<rparr>)"
      using deadline_now [OF t] by (intro run_Some) (simp add: read_step_def R_def)
    also have "\<dots> = run_steps (read_step now)
      (F2\<lparr>readerWaitx := 0, startIndex := int ((p + nat b) mod length (buffer F))\<rparr>, ?R3\<lparr>t_phase := Done\<rparr>)"
      using index_fits [OF ok] by (intro run_Some) (simp add: read_step_def R_def)
    also have "\<dots> = Some
      (F2\<lparr>readerWaitx := 0, startIndex := int ((p + nat b) mod length (buffer F))\<rparr>, ?R3\<lparr>t_phase := Done\<rparr>)"
      by (intro run_None) (simp add: read_step_def R_def)
    finally show ?thesis using False readEnd_eq [OF ok1, of b c] b c e
      by (auto simp: F1_def read_effect_def R_def)
  qed
  finally show ?thesis by (simp add: fifo_read_now_def R R_def)
qed

lemma read_effect_ok:
  assumes ok: "fifo_ok F" and w: "writer_ok p F W" and b: "0 \<le> b" "b \<le> fcount F"
  shows "fifo_ok (read_effect p b F)" and "writer_ok (p + nat b) (read_effect p b F) W"
    and "in_ring (p + nat b) (read_effect p b F) W = drop (nat b) (in_ring p F W)"
proof -
  have m: "0 \<le> moved (t_phase W)" using w moved_le by (auto simp: writer_ok_def)
  have e: "p + nat b + nat (fcount F - b + k) = p + nat (fcount F + k)" if "0 \<le> k" for k
    using b that by auto
  have e0: "p + nat b + nat (fcount F - b) = p + nat (fcount F)" using e [of 0] by simp
  show "fifo_ok (read_effect p b F)" using ok b by (auto simp: fifo_ok_def read_effect_def)
  show "writer_ok (p + nat b) (read_effect p b F) W"
    using w b e [OF m] e0 by (simp add: read_effect_def writer_ok_def add.assoc)
  have "nat (fcount F + moved (t_phase W)) - nat b = nat (fcount F - b + moved (t_phase W))"
    using b m by linarith
  thus "in_ring (p + nat b) (read_effect p b F) W = drop (nat b) (in_ring p F W)"
    by (simp add: in_ring_def read_effect_def drop_seg)
qed

lemma run_write_copy:
  assumes ok: "fifo_ok F"
  shows "0 < n \<Longrightarrow> k + n \<le> length (buffer F) \<Longrightarrow> length B = length (buffer F) \<Longrightarrow> t_phase W = Copy b (int n) \<Longrightarrow>
    t_index W = (p + k) mod length (buffer F) \<Longrightarrow> n \<le> length (t_data W) \<Longrightarrow>
    \<exists>B'. run_steps (write_step now) (F\<lparr>buffer := B\<rparr>, W) = run_steps (write_step now) (F\<lparr>buffer := B'\<rparr>,
      W\<lparr>t_data := drop n (t_data W), t_index := (p + k + n) mod length (buffer F), t_phase := End b\<rparr>) \<and>
      length B' = length B \<and> seg B' p (k + n) = seg B p k @ take n (t_data W)"
proof (induction n arbitrary: W k B)
  case (Suc n)
  note D = fifo_okD [OF ok]
  obtain d ds where d: "t_data W = d # ds" using Suc.prems by (cases "t_data W") auto
  let ?B = "B[(p + k) mod length B := d]"
  let ?W = "W\<lparr>t_data := ds, t_index := (p + Suc k) mod length (buffer F),
    t_phase := (if n = 0 then End b else Copy b (int n))\<rparr>"
  have "write_step now (F\<lparr>buffer := B\<rparr>, W) = Some (F\<lparr>buffer := ?B\<rparr>, ?W)"
    using Suc.prems D d by (simp add: write_step_def write8_body_def advance_index mod_Suc_eq)
  hence r: "run_steps (write_step now) (F\<lparr>buffer := B\<rparr>, W) = run_steps (write_step now) (F\<lparr>buffer := ?B\<rparr>, ?W)"
    by (rule run_Some)
  have s: "seg ?B p (Suc k) = seg B p k @ [d]" using Suc.prems by (intro seg_put) simp
  show ?case
  proof (cases "n = 0")
    case True
    with r s d Suc.prems(3) show ?thesis by (intro exI [of _ ?B]) simp
  next
    case False
    have "\<exists>B'. run_steps (write_step now) (F\<lparr>buffer := ?B\<rparr>, ?W) = run_steps (write_step now) (F\<lparr>buffer := B'\<rparr>,
      ?W\<lparr>t_data := drop n (t_data ?W), t_index := (p + Suc k + n) mod length (buffer F), t_phase := End b\<rparr>) \<and>
      length B' = length ?B \<and> seg B' p (Suc k + n) = seg ?B p (Suc k) @ take n (t_data ?W)"
      using False Suc.prems d by (intro Suc.IH) simp_all
    with r s d show ?thesis by auto
  qed
qed simp

lemma fifo_write_now:
  assumes i: "fifo_idle F" and c: "0 < c" "c \<le> int (length d)" "c \<le> 0x7FFF" and t: "now < TIME_INFINITE"
  defines "b \<equiv> min c (fsize F - fcount F)"
  obtains F' where "fifo_write_now now F d c = Some (c - b, F')" and "fifo_idle F'"
    and "fifo_bytes F' = fifo_bytes F @ take (nat b) d" and "fsize F' = fsize F"
proof -
  have ok: "fifo_ok F" using i by (simp add: fifo_idle_def)
  note D = fifo_okD [OF ok]
  let ?p = "nat (startIndex F)" let ?k = "nat (fcount F)" let ?L = "length (buffer F)"
  have b: "0 \<le> b" "b \<le> c" "b \<le> fsize F - fcount F" "0 \<le> fcount F" using ok c by (auto simp: b_def fifo_ok_def)
  have st: "startIndex F = int (?p mod ?L)" using i D(4) by (auto simp: fifo_idle_def)
  define W where "W = Ifx_Fifo_write now F d c TIME_NULL"
  have W: "t_phase W = Begin" "t_count W = c" "t_data W = d" "t_deadline W = IfxStm_getDeadLine now TIME_NULL"
    using c by (simp_all add: W_def Ifx_Fifo_write_def)
  have idx: "t_index W = (?p + ?k) mod ?L"
    using write_start(1) [OF i, of c d now TIME_NULL] c W by (simp add: writer_ok_def W_def)
  define F1 where "F1 = F\<lparr>eventWriter := False, writerWaitx := min (c - b) (fsize F)\<rparr>"
  have ok1: "fifo_ok F1" using ok by (simp add: F1_def fifo_ok_def)
  let ?W1 = "W\<lparr>t_phase := (if b \<noteq> 0 then Copy b b else Test)\<rparr>"
  let ?W2 = "W\<lparr>t_data := drop (nat b) d, t_index := (?p + ?k + nat b) mod ?L, t_phase := Test, t_count := c - b\<rparr>"
  have s1: "run_steps (write_step now) (F, W) = run_steps (write_step now) (F1, ?W1)"
    by (rule run_Some) (simp add: write_step_def W F1_def beginWrite_eq [OF ok c(1,3)] flip: b_def)
  have "\<exists>F2. run_steps (write_step now) (F1, ?W1) = run_steps (write_step now) (F2, ?W2) \<and> fifo_ok F2 \<and>
    startIndex F2 = startIndex F \<and> fsize F2 = fsize F \<and> fcount F2 = fcount F + b \<and> length (buffer F2) = ?L \<and>
    seg (buffer F2) ?p (nat (fcount F + b)) = fifo_bytes F @ take (nat b) d"
  proof (cases "b = 0")
    case True
    have "?W2 = ?W1" using True W idx by (cases W) simp
    thus ?thesis using True ok1 by (intro exI [of _ F1]) (simp add: F1_def fifo_bytes_def)
  next
    case False
    have kb: "nat (fcount F + b) = ?k + nat b" using b by simp
    have kb2: "?k + nat b \<le> ?L" using b D(4) by linarith
    have F1: "buffer F1 = buffer F" by (simp add: F1_def)
    have pre: "0 < nat b" "?k + nat b \<le> length (buffer F1)" "length (buffer F) = length (buffer F1)"
      "t_phase ?W1 = Copy b (int (nat b))" "t_index ?W1 = (?p + ?k) mod length (buffer F1)" "nat b \<le> length (t_data ?W1)"
      using b c False idx W kb2 by (simp_all add: F1 nat_le_iff)
    obtain B' where B': "run_steps (write_step now) (F1\<lparr>buffer := buffer F\<rparr>, ?W1) =
        run_steps (write_step now) (F1\<lparr>buffer := B'\<rparr>, ?W1\<lparr>t_data := drop (nat b) (t_data ?W1),
          t_index := (?p + ?k + nat b) mod length (buffer F1), t_phase := End b\<rparr>)"
      "length B' = ?L" "seg B' ?p (?k + nat b) = seg (buffer F) ?p ?k @ take (nat b) (t_data ?W1)"
      using run_write_copy [OF ok1 pre, of now] by blast
    let ?F2 = "F1\<lparr>buffer := B'\<rparr>"
    have ok2: "fifo_ok ?F2" using ok1 B'(2) by (auto simp: fifo_ok_def F1_def)
    have "0 < b" "b \<le> fsize ?F2 - fcount ?F2" using b False by (simp_all add: F1_def)
    note ew = endWrite_eq [OF ok2 this b(2) c(3)]
    define F2 where "F2 = snd (Ifx_Fifo_endWrite ?F2 c b)"
    have e: "Ifx_Fifo_endWrite ?F2 c b = (c - b, F2)" by (simp add: F2_def ew)
    have F2: "startIndex F2 = startIndex F" "fsize F2 = fsize F" "fcount F2 = fcount F + b" "buffer F2 = B'"
      "elementSize F2 = elementSize F" unfolding F2_def ew by (simp_all add: F1_def)
    have "run_steps (write_step now) (?F2, ?W1\<lparr>t_data := drop (nat b) (t_data ?W1),
          t_index := (?p + ?k + nat b) mod length (buffer F1), t_phase := End b\<rparr>) =
        run_steps (write_step now) (F2, ?W2)"
      by (rule run_Some) (simp add: write_step_def W F1 e)
    moreover have "F1\<lparr>buffer := buffer F\<rparr> = F1" by (simp add: F1_def)
    moreover have "fifo_ok F2" using ok B'(2) b F2 by (auto simp: fifo_ok_def)
    ultimately show ?thesis using B' W kb F2
      by (intro exI [of _ F2]) (simp add: fifo_bytes_def)
  qed
  then obtain F2 where F2: "run_steps (write_step now) (F1, ?W1) = run_steps (write_step now) (F2, ?W2)" "fifo_ok F2"
    "startIndex F2 = startIndex F" "fsize F2 = fsize F" "fcount F2 = fcount F + b" "length (buffer F2) = ?L"
    "seg (buffer F2) ?p (nat (fcount F + b)) = fifo_bytes F @ take (nat b) d" by blast
  define F3 where "F3 = F2\<lparr>writerWaitx := 0, endIndex := int ((?p + nat (fcount F2)) mod ?L)\<rparr>"
  have e: "?p + ?k + nat b = ?p + nat (fcount F2)" using b F2(5) by simp
  have "run_steps (write_step now) (F2, ?W2) = run_steps (write_step now) (F2\<lparr>writerWaitx := 0\<rparr>, ?W2\<lparr>t_phase := Leave\<rparr>)"
    using deadline_now [OF t] by (intro run_Some) (simp add: write_step_def W)
  also have "\<dots> = run_steps (write_step now) (F3, ?W2\<lparr>t_phase := Done\<rparr>)"
    using index_fits [OF ok] by (intro run_Some) (simp add: write_step_def F3_def e)
  also have "\<dots> = Some (F3, ?W2\<lparr>t_phase := Done\<rparr>)" by (intro run_None) (simp add: write_step_def)
  finally have w: "fifo_write_now now F d c = Some (c - b, F3)"
    using s1 F2(1) by (simp add: fifo_write_now_def flip: W_def)
  have ok3: "fifo_ok F3" using F2(2) by (simp add: F3_def fifo_ok_def)
  have i3: "startIndex F3 = int (?p mod length (buffer F3))" "endIndex F3 = int ((?p + nat (fcount F3)) mod length (buffer F3))"
    using st F2(3,6) by (simp_all add: F3_def)
  show ?thesis using that [OF w fifo_idleI(1) [OF ok3 i3]] fifo_idleI(2) [OF ok3 i3] F2 by (simp add: F3_def)
qed

subsection \<open>The signal to a waiting writer\<close>

text \<open>
  From the start of a block on, as long as the event is not set, \<open>writerWaitx\<close> is what is still missing:
  the bytes that the writer waits for, at most the size of the ring, less the room that the reader has
  made.  So a reader that empties the ring sets the event: the signal is never lost.
\<close>

fun in_block :: "phase \<Rightarrow> bool" where
  "in_block (Copy b n) = True" | "in_block (End b) = True" | "in_block Test = True" | "in_block Wait = True"
| "in_block _ = False"

definition writer_waits :: "Ifx_Fifo \<Rightarrow> transfer \<Rightarrow> bool" where
  "writer_waits F W \<longleftrightarrow> 0 \<le> writerWaitx F \<and>
     (let left = t_count W - reserved (t_phase W); room = fsize F - fcount F - reserved (t_phase W) in
      (in_block (t_phase W) \<longrightarrow> \<not> eventWriter F \<longrightarrow>
        (if left = 0 then writerWaitx F = 0 else writerWaitx F = min left (fsize F) - room \<and> 0 < writerWaitx F)) \<and>
      (in_block (t_phase W) \<longrightarrow> eventWriter F \<longrightarrow> left \<noteq> 0 \<longrightarrow> min left (fsize F) \<le> room))"

lemma write_step_waits:
  assumes ok: "fifo_ok F" and w: "writer_ok p F W" and s: "write_step now (F, W) = Some (F', W')"
    and a: "writer_waits F W"
  shows "writer_waits F' W'"
proof (cases "t_phase W")
  case Begin
  hence c: "0 < t_count W" "t_count W \<le> 0x7FFF" using w by (auto simp: writer_ok_def transfer_ok_def)
  define b where "b = min (t_count W) (fsize F - fcount F)"
  have F': "F' = F\<lparr>eventWriter := False, writerWaitx := min (t_count W - b) (fsize F)\<rparr>"
    and W': "W' = W\<lparr>t_phase := (if b \<noteq> 0 then Copy b b else Test)\<rparr>"
    using s Begin beginWrite_eq [OF ok c] by (auto simp: write_step_def Let_def b_def)
  have "0 \<le> b" "b \<le> t_count W" "b < t_count W \<Longrightarrow> b = fsize F - fcount F" "0 < fsize F"
    using ok c by (auto simp: fifo_ok_def b_def)
  thus ?thesis using c by (cases "b = 0") (auto simp: F' W' writer_waits_def Let_def)
next
  case (Copy b n)
  have "fcount F' = fcount F" "fsize F' = fsize F" "writerWaitx F' = writerWaitx F" "eventWriter F' = eventWriter F"
    "t_count W' = t_count W" "reserved (t_phase W') = b" "in_block (t_phase W')"
    using s Copy by (auto simp: write_step_def split: list.splits prod.splits if_splits)
  hence "writer_waits F' W' = writer_waits F W" by (simp add: writer_waits_def Copy)
  thus ?thesis using a by simp
next
  case (End b)
  hence c: "0 < b" "b \<le> fsize F - fcount F" "b \<le> t_count W" "t_count W \<le> 0x7FFF"
    using w ok by (auto simp: writer_ok_def transfer_ok_def fifo_ok_def)
  have F': "fcount F' = fcount F + b" "fsize F' = fsize F" "writerWaitx F' = writerWaitx F" "eventWriter F' = eventWriter F"
    and W': "W' = W\<lparr>t_count := t_count W - b, t_phase := Test\<rparr>"
    using s End endWrite_eq [OF ok c] by (auto simp: write_step_def)
  show ?thesis using a End by (auto simp: F' W' writer_waits_def Let_def)
next
  case Test
  have "writerWaitx F' = 0 \<and> t_phase W' = Leave \<or> F' = F \<and> W' = W\<lparr>t_phase := (if t_count W \<noteq> 0 then Wait else Leave)\<rparr>"
    using s Test by (auto simp: write_step_def split: if_splits)
  thus ?thesis using a Test by (cases "t_count W = 0") (auto simp: writer_waits_def)
next
  case Wait
  hence "F' = F" "t_phase W' = Woken" using s by (auto simp: write_step_def split: if_splits)
  thus ?thesis using a by (simp add: writer_waits_def)
next
  case Woken
  hence "F' = F" "t_phase W' = Begin" using s by (auto simp: write_step_def)
  thus ?thesis using a by (simp add: writer_waits_def)
next
  case Leave
  hence "writerWaitx F' = writerWaitx F" "t_phase W' = Done" using s by (auto simp: write_step_def)
  thus ?thesis using a by (simp add: writer_waits_def)
qed (use s in \<open>simp add: write_step_def\<close>)

lemma writer_waits_read:
  assumes "writer_waits F W" and "0 \<le> b" and "b \<le> fcount F"
  shows "writer_waits (read_effect p b F) W"
  using assms by (auto simp: writer_waits_def read_effect_def Let_def split: if_splits)

lemma waiting_writer_has_data:
  assumes "fifo_ok F" and "writer_ok p F W" and "writer_waits F W" and "t_phase W = Wait" and "\<not> eventWriter F"
  shows "0 < fcount F" and "fsize F < fcount F + t_count W"
  using assms by (auto simp: writer_waits_def writer_ok_def transfer_ok_def fifo_ok_def Let_def)

end
