(* ===== verification/ConsoleSpec.thy ===== *)
theory ConsoleSpec
  imports FifoCalls
begin

section \<open>What the serial console promises\<close>

subsection \<open>The invariant\<close>

definition idle_transfer :: transfer where
  "idle_transfer = \<lparr>t_data = [], t_count = 0, t_index = 0, t_stop = False, t_deadline = TIME_INFINITE, t_phase = Done\<rparr>"

fun xfer :: "asc_pc \<Rightarrow> transfer" where
  "xfer (FifoWrite W r) = W" | "xfer _ = idle_transfer"

fun rest :: "asc_pc \<Rightarrow> (u8 list \<times> int) option" where
  "rest (FifoWrite W r) = r" | "rest (InitTest r l) = r" | "rest (InitEmpty r l) = r" | "rest (InitSet r l) = r"
| "rest (InitSend r l) = r" | "rest (InitEnd r l) = r" | "rest _ = None"

definition rest_ok :: "(u8 list \<times> int) option \<Rightarrow> bool" where
  "rest_ok r = (case r of None \<Rightarrow> True | Some (d, c) \<Rightarrow> c = int (length d) \<and> 0 < c \<and> c \<le> 0x7FFF)"

definition rest_data :: "(u8 list \<times> int) option \<Rightarrow> u8 list" where
  "rest_data r = (case r of None \<Rightarrow> [] | Some (d, c) \<Rightarrow> d)"

definition todo :: "transfer \<Rightarrow> u8 list" where
  "todo W = take (nat (t_count W - moved (t_phase W))) (t_data W)"

fun unsent :: "asc_pc \<Rightarrow> u8 list" where
  "unsent (WriteStart d c) = d" | "unsent pc = todo (xfer pc) @ rest_data (rest pc)"

text \<open>What a call without a limit of time keeps: it never gives up.\<close>

definition endless :: "Ifx_Fifo \<Rightarrow> transfer \<Rightarrow> bool" where
  "endless F W \<longleftrightarrow> t_deadline W = TIME_INFINITE \<and> \<not> t_stop W \<and>
     (t_phase W = Woken \<longrightarrow> eventWriter F \<and> fcount F < fsize F) \<and>
     (t_phase W = Leave \<or> t_phase W = Done \<longrightarrow> t_count W = 0)"

text \<open>The place of the driver and the state of the hardware agree.\<close>

definition hw_ok :: "console \<Rightarrow> asc_pc \<Rightarrow> bool" where
  "hw_ok C pc \<longleftrightarrow> length (hw_tx C) \<le> 16 \<and>
     (tx_request C \<longrightarrow> txInProgress C \<and> hw_tx C = []) \<and> (\<not> txInProgress C \<longrightarrow> hw_tx C = []) \<and>
     (case pc of
        InitEmpty r l \<Rightarrow> \<not> txInProgress C
      | InitSet r l \<Rightarrow> \<not> txInProgress C \<and> 0 < fcount (tx C)
      | InitSend r l \<Rightarrow> txInProgress C \<and> hw_tx C = [] \<and> \<not> tx_request C \<and> 0 < fcount (tx C)
      | _ \<Rightarrow> txInProgress C \<longrightarrow> hw_tx C \<noteq> [] \<or> tx_request C) \<and>
     (case pc of
        WriteStart d c \<Rightarrow> (\<not> txInProgress C \<longrightarrow> fcount (tx C) = 0) \<and> c = int (length d) \<and> c \<le> 0x7FFF
      | InitEnd r l \<Rightarrow> (\<not> txInProgress C \<longrightarrow> fcount (tx C) = 0) \<and> l = 0
      | WriteDone b l \<Rightarrow> (\<not> txInProgress C \<longrightarrow> fcount (tx C) = 0) \<and> b \<and> l = 0
      | InitTest r l \<Rightarrow> l = 0 | InitEmpty r l \<Rightarrow> l = 0 | InitSet r l \<Rightarrow> l = 0 | InitSend r l \<Rightarrow> l = 0
      | _ \<Rightarrow> True)"

definition pipe_ok :: "u8 list \<Rightarrow> nat \<Rightarrow> console \<Rightarrow> asc_pc \<Rightarrow> bool" where
  "pipe_ok ds p C pc \<longleftrightarrow> fifo_ok (tx C) \<and> startIndex (tx C) = int (p mod length (buffer (tx C))) \<and>
     writer_ok p (tx C) (xfer pc) \<and> writer_waits (tx C) (xfer pc) \<and> endless (tx C) (xfer pc) \<and> rest_ok (rest pc) \<and>
     line C @ hw_tx C @ in_ring p (tx C) (xfer pc) @ unsent pc = ds"

definition console_inv :: "u8 list \<Rightarrow> console \<times> asc_pc \<Rightarrow> bool" where
  "console_inv ds = (\<lambda>(C, pc). hw_ok C pc \<and> (\<exists>p. pipe_ok ds p C pc))"

subsection \<open>The steps of the writer\<close>

lemma write_step_endless:
  assumes ok: "fifo_ok F" and w: "writer_ok p F W" and a: "writer_waits F W" and e: "endless F W"
    and s: "write_step now (F, W) = Some (F', W')"
  shows "endless F' W'"
proof (cases "t_phase W")
  case (Copy b n)
  thus ?thesis using s e by (auto simp: write_step_def endless_def split: list.splits prod.splits if_splits)
next
  case Test
  thus ?thesis using s e by (auto simp: write_step_def endless_def IfxStm_isDeadLine_def split: if_splits)
next
  case Wait
  hence "0 < min (t_count W) (fsize F)" using w ok by (simp add: writer_ok_def transfer_ok_def fifo_ok_def)
  moreover have "eventWriter F" and "W' = W\<lparr>t_phase := Woken\<rparr>" and "F' = F"
    using s e Wait by (auto simp: write_step_def endless_def IfxStm_isDeadLine_def split: if_splits)
  ultimately show ?thesis using e a Wait by (auto simp: endless_def writer_waits_def Let_def)
next
  case Woken
  thus ?thesis using s e by (auto simp: write_step_def endless_def)
qed (use s e in \<open>auto simp: write_step_def endless_def split: prod.splits if_splits\<close>)

lemma moved_le_count: "transfer_ok W \<Longrightarrow> moved (t_phase W) \<le> t_count W"
  by (cases "t_phase W") (auto simp: transfer_ok_def)

lemma write_step_todo:
  assumes ok: "fifo_ok F" and w: "writer_ok p F W" and s: "write_step now (F, W) = Some (F', W')"
  shows "in_ring p F' W' @ todo W' = in_ring p F W @ todo W"
proof -
  note ws = write_step_ok [OF ok w s]
  have "int (length (t_data W')) - t_count W' + moved (t_phase W') = int (length (t_data W)) - t_count W + moved (t_phase W)"
    by (rule write_step_count [OF ok w s])
  moreover have "0 \<le> t_count W - moved (t_phase W)" "t_count W - moved (t_phase W) \<le> int (length (t_data W))"
    "0 \<le> t_count W' - moved (t_phase W')" "t_count W' - moved (t_phase W') \<le> int (length (t_data W'))"
    using w ws(2) moved_le_count [of W] moved_le_count [of W'] by (auto simp: writer_ok_def)
  moreover have "length (in_ring p F' W') + length (t_data W') = length (in_ring p F W) + length (t_data W)"
    using arg_cong [OF ws(3), of length] by simp
  ultimately have l: "length (in_ring p F' W') + nat (t_count W' - moved (t_phase W')) =
      length (in_ring p F W) + nat (t_count W - moved (t_phase W))" by linarith
  have t: "xs @ take k ys = take (length xs + k) (xs @ ys)" for xs ys :: "u8 list" and k by simp
  show ?thesis unfolding todo_def t ws(3) l ..
qed

lemma isEmpty_iff: "Ifx_Fifo_isEmpty F \<longleftrightarrow> fcount F = 0"
  by (simp add: Ifx_Fifo_isEmpty_def fifo_defs)

lemma xfer_idle:
  "xfer (InitTest r l) = idle_transfer" "xfer (InitEmpty r l) = idle_transfer" "xfer (InitSet r l) = idle_transfer"
  "xfer (InitSend r l) = idle_transfer" "xfer (InitEnd r l) = idle_transfer"
  by simp_all

lemma idle_transfer_simps [simp]:
  "todo idle_transfer = []" "writer_waits F idle_transfer \<longleftrightarrow> 0 \<le> writerWaitx F" "endless F idle_transfer"
  "in_ring p F idle_transfer = seg (buffer F) p (nat (fcount F))"
  "writer_ok p F idle_transfer \<longleftrightarrow> fcount F \<le> fsize F \<and> endIndex F = int ((p + nat (fcount F)) mod length (buffer F))"
  by (auto simp: idle_transfer_def todo_def writer_waits_def endless_def in_ring_def writer_ok_def transfer_ok_def)

lemma write_starts:
  fixes now :: int
  assumes ok: "fifo_ok F" and st: "startIndex F = int (p mod length (buffer F))"
    and en: "endIndex F = int ((p + nat (fcount F)) mod length (buffer F))"
    and c: "0 < c" "c \<le> int (length d)" "c \<le> 0x7FFF" and n: "0 \<le> writerWaitx F"
  defines "W \<equiv> Ifx_Fifo_write now F d c TIME_INFINITE"
  shows "writer_ok p F W" and "writer_waits F W" and "endless F W" and "todo W = take (nat c) d"
    and "in_ring p F W = seg (buffer F) p (nat (fcount F))" and "t_phase W = Begin" and "t_count W = c"
proof -
  have "nat (take_bit 16 (endIndex F)) = (p + nat (fcount F)) mod length (buffer F)"
    using fifo_okD(1,2) [OF ok] by (subst index_start [of _ "buffer F"]) (auto simp: en)
  thus "writer_ok p F W" using ok c by (simp add: W_def Ifx_Fifo_write_def writer_ok_def transfer_ok_def fifo_ok_def)
qed (use c n in \<open>auto simp: W_def Ifx_Fifo_write_def writer_waits_def endless_def todo_def in_ring_def
      IfxStm_getDeadLine_def\<close>)

lemma fifo_size_u16: "fifo_ok F \<Longrightarrow> take_bit 16 (fsize F) = fsize F" "fifo_ok F \<Longrightarrow> Ifx_SizeT (fsize F) = fsize F"
  by (auto simp: fifo_ok_def take_bit_16_id intro!: Ifx_SizeT_id)

lemma write_call_inv:
  assumes h: "hw_ok C (WriteStart d c)" and p: "pipe_ok ds p C (WriteStart d c)"
  shows "hw_ok C (IfxAsclin_Asc_write now TIME_INFINITE C d c)"
    and "pipe_ok ds p C (IfxAsclin_Asc_write now TIME_INFINITE C d c)"
proof -
  let ?F = "tx C"
  have ok: "fifo_ok ?F" and st: "startIndex ?F = int (p mod length (buffer ?F))"
    and en: "endIndex ?F = int ((p + nat (fcount ?F)) mod length (buffer ?F))" and n: "0 \<le> writerWaitx ?F"
    and o: "line C @ hw_tx C @ seg (buffer ?F) p (nat (fcount ?F)) @ d = ds"
    using p by (auto simp: pipe_ok_def)
  have c: "c = int (length d)" "c \<le> 0x7FFF"
    and hw: "length (hw_tx C) \<le> 16" "tx_request C \<longrightarrow> txInProgress C \<and> hw_tx C = []"
      "\<not> txInProgress C \<longrightarrow> hw_tx C = []" "txInProgress C \<longrightarrow> hw_tx C \<noteq> [] \<or> tx_request C"
    using h by (auto simp: hw_ok_def)
  note S = fifo_size_u16 [OF ok] have S0: "0 < fsize ?F" using ok by (simp add: fifo_ok_def)
  consider (none) "c = 0" | (two) "c \<noteq> 0" "\<not> txInProgress C" "c > fsize ?F" | (one) "c \<noteq> 0" "\<not> (\<not> txInProgress C \<and> c > fsize ?F)"
    by blast
  hence "hw_ok C (IfxAsclin_Asc_write now TIME_INFINITE C d c) \<and> pipe_ok ds p C (IfxAsclin_Asc_write now TIME_INFINITE C d c)"
  proof cases
    case none
    hence "d = []" "IfxAsclin_Asc_write now TIME_INFINITE C d c = WriteDone True 0"
      using c by (simp_all add: IfxAsclin_Asc_write_def)
    thus ?thesis using h p by (simp add: hw_ok_def pipe_ok_def rest_data_def)
  next
    case two
    let ?W = "Ifx_Fifo_write now ?F d (fsize ?F) TIME_INFINITE" and ?r = "Some (drop (nat (fsize ?F)) d, c - fsize ?F)"
    have w: "IfxAsclin_Asc_write now TIME_INFINITE C d c = FifoWrite ?W ?r"
      using two S c S0 Ifx_SizeT_id [of "c - fsize ?F"] by (simp add: IfxAsclin_Asc_write_def Let_def)
    have "fsize ?F \<le> int (length d)" "fsize ?F \<le> 0x7FFF" using two c ok by (auto simp: fifo_ok_def)
    note ws = write_starts [OF ok st en S0 this n, of now]
    have "rest_ok ?r" using two c S0 by (auto simp: rest_ok_def nat_le_iff)
    thus ?thesis using ws ok st o hw two(2) unfolding w by (simp add: pipe_ok_def hw_ok_def rest_data_def)
  next
    case one
    let ?W = "Ifx_Fifo_write now ?F d c TIME_INFINITE"
    have w: "IfxAsclin_Asc_write now TIME_INFINITE C d c = FifoWrite ?W None"
      using one S by (auto simp: IfxAsclin_Asc_write_def Let_def)
    have "0 < c" "c \<le> int (length d)" using one c by auto
    note ws = write_starts [OF ok st en this c(2) n, of now]
    show ?thesis using ws ok st o hw c(1) unfolding w by (simp add: pipe_ok_def hw_ok_def rest_ok_def rest_data_def)
  qed
  thus "hw_ok C (IfxAsclin_Asc_write now TIME_INFINITE C d c)"
    and "pipe_ok ds p C (IfxAsclin_Asc_write now TIME_INFINITE C d c)" by blast+
qed

lemma fifo_write_inv:
  assumes h: "hw_ok C (FifoWrite W r)" and p: "pipe_ok ds p C (FifoWrite W r)"
    and s: "write_step now (tx C, W) = Some (F', W')"
  shows "hw_ok (C\<lparr>tx := F'\<rparr>) (FifoWrite W' r)" and "pipe_ok ds p (C\<lparr>tx := F'\<rparr>) (FifoWrite W' r)"
proof -
  have a: "fifo_ok (tx C)" "writer_ok p (tx C) W" "writer_waits (tx C) W" "endless (tx C) W" "rest_ok r"
    "startIndex (tx C) = int (p mod length (buffer (tx C)))"
    "line C @ hw_tx C @ in_ring p (tx C) W @ todo W @ rest_data r = ds" using p by (auto simp: pipe_ok_def)
  note w = write_step_ok [OF a(1,2) s] write_step_waits [OF a(1,2) s a(3)] write_step_endless [OF a(1-4) s]
  have o: "in_ring p F' W' @ todo W' @ rest_data r = in_ring p (tx C) W @ todo W @ rest_data r"
    using write_step_todo [OF a(1,2) s] by (metis append_assoc)
  show "pipe_ok ds p (C\<lparr>tx := F'\<rparr>) (FifoWrite W' r)" using a w by (simp add: pipe_ok_def o)
  show "hw_ok (C\<lparr>tx := F'\<rparr>) (FifoWrite W' r)" using h by (simp add: hw_ok_def)
qed

lemma fifo_written_inv:
  assumes h: "hw_ok C (FifoWrite W r)" and p: "pipe_ok ds p C (FifoWrite W r)" and d: "t_phase W = Done"
  shows "t_count W = 0" and "hw_ok C (InitTest r (t_count W))" and "pipe_ok ds p C (InitTest r (t_count W))"
proof -
  show c: "t_count W = 0" using p d by (simp add: pipe_ok_def endless_def)
  show "hw_ok C (InitTest r (t_count W))" using h c by (simp add: hw_ok_def)
  have "todo W = []" by (simp add: todo_def c d)
  moreover have "fifo_ok (tx C)" "fcount (tx C) \<le> fsize (tx C)" "0 \<le> writerWaitx (tx C)"
    "endIndex (tx C) = int ((p + nat (fcount (tx C))) mod length (buffer (tx C)))"
    "in_ring p (tx C) W = seg (buffer (tx C)) p (nat (fcount (tx C)))"
    using p d by (auto simp: pipe_ok_def fifo_ok_def writer_ok_def writer_waits_def in_ring_def)
  ultimately show "pipe_ok ds p C (InitTest r (t_count W))" using p by (simp add: pipe_ok_def)
qed

lemma init_end_inv:
  assumes h: "hw_ok C (InitEnd r l)" and p: "pipe_ok ds p C (InitEnd r l)"
    and s: "asc_write_step now TIME_INFINITE C (InitEnd r l) = Some (C', pc')"
  shows "C' = C" and "hw_ok C pc'" and "pipe_ok ds p C pc'"
proof -
  let ?F = "tx C"
  have ok: "fifo_ok ?F" and st: "startIndex ?F = int (p mod length (buffer ?F))"
    and en: "endIndex ?F = int ((p + nat (fcount ?F)) mod length (buffer ?F))" and n: "0 \<le> writerWaitx ?F"
    and o: "line C @ hw_tx C @ seg (buffer ?F) p (nat (fcount ?F)) @ rest_data r = ds" and r: "rest_ok r"
    using p by (auto simp: pipe_ok_def)
  show "C' = C" using s by simp
  show "hw_ok C pc'" and "pipe_ok ds p C pc'"
  proof -
    have "hw_ok C pc' \<and> pipe_ok ds p C pc'"
    proof (cases r)
      case None
      thus ?thesis using s h p by (auto simp: hw_ok_def pipe_ok_def rest_data_def)
    next
      case (Some dc)
      obtain d c where r': "r = Some (d, c)" using Some by (cases dc) auto
      hence c: "0 < c" "c \<le> int (length d)" "c \<le> 0x7FFF" "c = int (length d)" using r by (auto simp: rest_ok_def)
      note ws = write_starts [OF ok st en c(1-3) n, of now]
      have pc: "pc' = FifoWrite (Ifx_Fifo_write now ?F d c TIME_INFINITE) None" using s r' by auto
      show ?thesis using ws ok st o h c(4) r' unfolding pc
        by (simp add: pipe_ok_def hw_ok_def rest_ok_def rest_data_def)
    qed
    thus "hw_ok C pc'" and "pipe_ok ds p C pc'" by blast+
  qed
qed

lemma init_send_inv:
  assumes h: "hw_ok C (InitSend r l)" and p: "pipe_ok ds p C (InitSend r l)" and t: "now < TIME_INFINITE"
  obtains b where "initiate_step now C (InitSend r l) =
      Some (C\<lparr>tx := read_effect p 1 (tx C), hw_tx := [b]\<rparr>, InitEnd r l)"
    and "hw_ok (C\<lparr>tx := read_effect p 1 (tx C), hw_tx := [b]\<rparr>) (InitEnd r l)"
    and "pipe_ok ds (p + 1) (C\<lparr>tx := read_effect p 1 (tx C), hw_tx := [b]\<rparr>) (InitEnd r l)"
proof -
  let ?F = "tx C"
  have ok: "fifo_ok ?F" and st: "startIndex ?F = int (p mod length (buffer ?F))"
    and w: "writer_ok p ?F idle_transfer" "writer_waits ?F idle_transfer"
    and o: "line C @ hw_tx C @ seg (buffer ?F) p (nat (fcount ?F)) @ rest_data r = ds" and r: "rest_ok r"
    using p by (auto simp: pipe_ok_def)
  have k: "0 < fcount ?F" "hw_tx C = []" "\<not> tx_request C" "txInProgress C" "l = 0" using h by (auto simp: hw_ok_def)
  define b where "b = buffer ?F ! (p mod length (buffer ?F))"
  have s: "seg (buffer ?F) p 1 = [b]" using seg_Suc [of "buffer ?F" p 0] by (simp add: b_def)
  have rd: "fifo_read_now now ?F 1 = Some ([b], 0, read_effect p 1 ?F)"
    using fifo_read_now [OF ok st, of 1 now] k t s by (simp add: min_absorb1)
  have one: "0 \<le> (1::int)" "1 \<le> fcount ?F" using k by auto
  note e = read_effect_ok [OF ok w(1) one] writer_waits_read [OF w(2) one, of p]
  obtain T where T: "seg (buffer ?F) p (nat (fcount ?F)) = b # T"
    using drop_seg_Cons [of 0 "nat (fcount ?F)" "buffer ?F" p] k by (simp add: b_def)
  hence T': "in_ring (p + 1) (read_effect p 1 ?F) idle_transfer = T" using e(3) by simp
  have st': "startIndex (read_effect p 1 ?F) = int ((p + 1) mod length (buffer (read_effect p 1 ?F)))"
    by (simp add: read_effect_def)
  have "line C @ [b] @ in_ring (p + 1) (read_effect p 1 ?F) idle_transfer @ rest_data r = ds"
    using o T k(2) unfolding T' by simp
  hence "pipe_ok ds (p + 1) (C\<lparr>tx := read_effect p 1 ?F, hw_tx := [b]\<rparr>) (InitEnd r l)"
    using e st' r by (simp add: pipe_ok_def del: idle_transfer_simps(4,5))
  moreover have "hw_ok (C\<lparr>tx := read_effect p 1 ?F, hw_tx := [b]\<rparr>) (InitEnd r l)"
    using k by (simp add: hw_ok_def)
  ultimately show ?thesis using that rd k(2) by simp
qed

subsection \<open>The steps of the hardware\<close>

definition isr_count :: "int \<Rightarrow> console \<Rightarrow> console" where
  "isr_count now C = C\<lparr>tx_request := False, txTimestamp := now, sendCount := sendCount C + 1\<rparr>"

lemma isr_transmit:
  assumes ok: "fifo_ok (tx C)" and st: "startIndex (tx C) = int (p mod length (buffer (tx C)))"
    and hw: "hw_tx C = []" and t: "now < TIME_INFINITE"
  defines "b \<equiv> min 16 (fcount (tx C))"
  shows "IfxAsclin_Asc_isrTransmit now (C\<lparr>tx_request := False\<rparr>) = Some
    (if fcount (tx C) = 0 then isr_count now C\<lparr>txInProgress := False\<rparr>
     else isr_count now C\<lparr>tx := read_effect p b (tx C), hw_tx := seg (buffer (tx C)) p (nat b)\<rparr>)"
proof (cases "fcount (tx C) = 0")
  case True
  thus ?thesis by (simp add: IfxAsclin_Asc_isrTransmit_def isEmpty_iff isr_count_def Let_def)
next
  case False
  have f: "0 < fcount (tx C)" "fcount (tx C) \<le> 0x7FFF" using ok False by (auto simp: fifo_ok_def)
  have b: "0 < b" "b \<le> 0x7FFF" "min b (fcount (tx C)) = b" using f by (auto simp: b_def)
  have sz: "Ifx_SizeT b = b" using b by (intro Ifx_SizeT_id) auto
  note rd = fifo_read_now [OF ok st b(1,2) t, unfolded b(3)]
  show ?thesis
  proof (cases "fcount (tx C) < 16")
    case True
    hence "fcount (tx C) = b" by (simp add: b_def)
    thus ?thesis using True rd sz f take_bit_16_id [of "fcount (tx C)"]
      by (simp add: IfxAsclin_Asc_isrTransmit_def isEmpty_iff isr_count_def Let_def fifo_defs hw)
  next
    case False
    hence "b = 16" by (simp add: b_def)
    thus ?thesis using False rd sz f take_bit_16_id [of "fcount (tx C)"]
      by (simp add: IfxAsclin_Asc_isrTransmit_def isEmpty_iff isr_count_def Let_def fifo_defs hw)
  qed
qed

lemma isr_inv:
  assumes h: "hw_ok C pc" and p: "pipe_ok ds p C pc" and q: "tx_request C" and t: "now < TIME_INFINITE"
    and s: "IfxAsclin_Asc_isrTransmit now (C\<lparr>tx_request := False\<rparr>) = Some C'"
  shows "hw_ok C' pc" and "\<exists>p'. pipe_ok ds p' C' pc"
proof -
  have ok: "fifo_ok (tx C)" and st: "startIndex (tx C) = int (p mod length (buffer (tx C)))"
    and w: "writer_ok p (tx C) (xfer pc)" "writer_waits (tx C) (xfer pc)" "endless (tx C) (xfer pc)" and r: "rest_ok (rest pc)"
    and o: "line C @ hw_tx C @ in_ring p (tx C) (xfer pc) @ unsent pc = ds" using p by (auto simp: pipe_ok_def)
  have hw: "hw_tx C = []" "txInProgress C" using h q by (auto simp: hw_ok_def)
  have pc: "\<not> (\<exists>r l. pc = InitEmpty r l \<or> pc = InitSet r l \<or> pc = InitSend r l)"
    using h q hw by (auto simp: hw_ok_def)
  define b where "b = min 16 (fcount (tx C))"
  have b: "0 \<le> b" "b \<le> fcount (tx C)" "b \<le> 16" using ok by (auto simp: b_def fifo_ok_def)
  have C': "C' = (if fcount (tx C) = 0 then isr_count now C\<lparr>txInProgress := False\<rparr>
     else isr_count now C\<lparr>tx := read_effect p b (tx C), hw_tx := seg (buffer (tx C)) p (nat b)\<rparr>)"
    using isr_transmit [OF ok st hw(1) t] unfolding s b_def option.inject .
  show "hw_ok C' pc"
  proof (cases "fcount (tx C) = 0")
    case True
    thus ?thesis using C' h hw pc by (cases pc) (simp_all add: hw_ok_def isr_count_def)
  next
    case False
    hence "0 < b" using ok by (auto simp: b_def fifo_ok_def)
    hence l: "length (hw_tx C') \<le> 16" "hw_tx C' \<noteq> []" "\<not> tx_request C'" "txInProgress C'"
      using C' False hw b by (auto simp: isr_count_def simp flip: length_greater_0_conv)
    thus ?thesis using h hw pc by (cases pc) (simp_all add: hw_ok_def)
  qed
  show "\<exists>p'. pipe_ok ds p' C' pc"
  proof (cases "fcount (tx C) = 0")
    case True
    hence "pipe_ok ds p C' pc" using C' p by (simp add: pipe_ok_def isr_count_def)
    thus ?thesis ..
  next
    case False
    note e = read_effect_ok [OF ok w(1) b(1,2)] writer_waits_read [OF w(2) b(1,2), of p]
    have "endless (read_effect p b (tx C)) (xfer pc)"
      using w(3) b by (auto simp: endless_def read_effect_def)
    moreover have "seg (buffer (tx C)) p (nat b) = take (nat b) (in_ring p (tx C) (xfer pc))"
      using b moved_le [of "xfer pc"] w(1) by (simp add: in_ring_def take_seg writer_ok_def nat_mono)
    hence "seg (buffer (tx C)) p (nat b) @ in_ring (p + nat b) (read_effect p b (tx C)) (xfer pc) = in_ring p (tx C) (xfer pc)"
      by (simp add: e(3))
    hence "line C @ seg (buffer (tx C)) p (nat b) @ in_ring (p + nat b) (read_effect p b (tx C)) (xfer pc) @ unsent pc = ds"
      using o hw(1) by (metis append_assoc append_Nil)
    ultimately have "pipe_ok ds (p + nat b) C' pc"
      using e r C' False by (simp add: pipe_ok_def isr_count_def) (simp add: read_effect_def)
    thus ?thesis ..
  qed
qed

lemma send_inv:
  assumes h: "hw_ok C pc" and p: "pipe_ok ds p C pc" and b: "hw_tx C = b # bs"
  defines "C' \<equiv> C\<lparr>hw_tx := bs, line := line C @ [b], tx_request := tx_request C \<or> bs = []\<rparr>"
  shows "hw_ok C' pc" and "pipe_ok ds p C' pc"
proof -
  show "pipe_ok ds p C' pc" using p b by (simp add: pipe_ok_def C'_def)
  show "hw_ok C' pc" using h b by (cases pc) (auto simp: hw_ok_def C'_def)
qed

lemma writer_inv:
  assumes h: "hw_ok C pc" and p: "pipe_ok ds p C pc" and s: "asc_write_step now TIME_INFINITE C pc = Some (C', pc')"
    and t: "now < TIME_INFINITE"
  shows "hw_ok C' pc' \<and> (\<exists>p'. pipe_ok ds p' C' pc')"
proof (cases pc)
  case (WriteStart d c)
  thus ?thesis using write_call_inv [of C d c ds p now] h p s by auto
next
  case (FifoWrite W r)
  show ?thesis
  proof (cases "t_phase W = Done")
    case True
    thus ?thesis using fifo_written_inv [of C W r ds p] h p s FifoWrite by auto
  next
    case False
    then obtain F' W' where "write_step now (tx C, W) = Some (F', W')" "C' = C\<lparr>tx := F'\<rparr>" "pc' = FifoWrite W' r"
      using s FifoWrite by (auto simp: bind_eq_Some_conv)
    thus ?thesis using fifo_write_inv [of C W r ds p now F' W'] h p FifoWrite by auto
  qed
next
  case (InitTest r l)
  thus ?thesis using h p s by (auto simp: hw_ok_def pipe_ok_def intro!: exI [of _ p])
next
  case (InitEmpty r l)
  have "0 \<le> fcount (tx C)" using p by (simp add: pipe_ok_def fifo_ok_def)
  thus ?thesis using InitEmpty h p s by (auto simp: hw_ok_def pipe_ok_def isEmpty_iff intro!: exI [of _ p])
next
  case (InitSet r l)
  thus ?thesis using h p s by (auto simp: hw_ok_def pipe_ok_def intro!: exI [of _ p])
next
  case (InitSend r l)
  obtain b where "initiate_step now C (InitSend r l) =
      Some (C\<lparr>tx := read_effect p 1 (tx C), hw_tx := [b]\<rparr>, InitEnd r l)"
    "hw_ok (C\<lparr>tx := read_effect p 1 (tx C), hw_tx := [b]\<rparr>) (InitEnd r l)"
    "pipe_ok ds (p + 1) (C\<lparr>tx := read_effect p 1 (tx C), hw_tx := [b]\<rparr>) (InitEnd r l)"
    using init_send_inv [of C r l ds p now] h p t InitSend by blast
  thus ?thesis using s InitSend by auto
next
  case (InitEnd r l)
  thus ?thesis using init_end_inv [of C r l ds p now C' pc'] h p s by auto
next
  case (WriteDone b l)
  thus ?thesis using s by simp
qed

theorem console_step_inv: "console_step s s' \<Longrightarrow> console_inv ds s \<Longrightarrow> console_inv ds s'"
proof (induction rule: console_step.induct)
  case (writer now C pc C' pc')
  thus ?case using writer_inv by (auto simp: console_inv_def)
next
  case (send C b bs pc)
  then obtain p where "hw_ok C pc" "pipe_ok ds p C pc" by (auto simp: console_inv_def)
  from send_inv [OF this send(1)] show ?case by (auto simp: console_inv_def)
next
  case (asc0TxISR C now C' pc)
  then obtain p where "hw_ok C pc" "pipe_ok ds p C pc" by (auto simp: console_inv_def)
  from isr_inv [OF this asc0TxISR(1,3,2)] show ?case by (auto simp: console_inv_def)
qed

lemma console_steps_inv: "console_step\<^sup>*\<^sup>* s s' \<Longrightarrow> console_inv ds s \<Longrightarrow> console_inv ds s'"
  by (induction rule: rtranclp_induct) (auto intro: console_step_inv)

subsection \<open>A measure that every step lowers\<close>

definition phase_rank :: "Ifx_Fifo \<Rightarrow> phase \<Rightarrow> nat" where
  "phase_rank F ph = (case ph of
     Begin \<Rightarrow> if fcount F < fsize F then 3 else 8 | Copy b n \<Rightarrow> 2 | End b \<Rightarrow> 1
   | Test \<Rightarrow> 6 | Wait \<Rightarrow> 5 | Woken \<Rightarrow> 4 | Leave \<Rightarrow> 1 | Done \<Rightarrow> 0)"

definition rest_work :: "(u8 list \<times> int) option \<Rightarrow> nat" where
  "rest_work r = (case r of None \<Rightarrow> 0 | Some (d, c) \<Rightarrow> 14 * length d + 30)"

fun writer_work :: "console \<Rightarrow> asc_pc \<Rightarrow> nat" where
  "writer_work C (WriteStart d c) = 14 * length d + 100"
| "writer_work C (FifoWrite W r) =
     20 + phase_rank (tx C) (t_phase W) + 10 * nat (t_count W) + 4 * length (todo W) + rest_work r"
| "writer_work C (InitTest r l) = 15 + rest_work r"
| "writer_work C (InitEmpty r l) = 14 + rest_work r"
| "writer_work C (InitSet r l) = 13 + rest_work r"
| "writer_work C (InitSend r l) = 12 + rest_work r"
| "writer_work C (InitEnd r l) = 11 + rest_work r"
| "writer_work C (WriteDone b l) = 0"

definition console_work :: "console \<times> asc_pc \<Rightarrow> nat" where
  "console_work = (\<lambda>(C, pc). writer_work C pc + 3 * nat (fcount (tx C) + moved (t_phase (xfer pc))) +
     2 * length (hw_tx C) + (if tx_request C then 1 else 0))"

lemma length_todo: "transfer_ok W \<Longrightarrow> t_count W - moved (t_phase W) \<le> int (length (t_data W)) \<Longrightarrow>
    int (length (todo W)) = t_count W - moved (t_phase W)"
  using moved_le_count by (simp add: todo_def)

lemma fifo_write_work:
  assumes ok: "fifo_ok F" and w: "writer_ok p F W" and e: "endless F W" and s: "write_step now (F, W) = Some (F', W')"
  shows "phase_rank F' (t_phase W') + 10 * nat (t_count W') + 4 * length (todo W') + 3 * nat (fcount F' + moved (t_phase W'))
    < phase_rank F (t_phase W) + 10 * nat (t_count W) + 4 * length (todo W) + 3 * nat (fcount F + moved (t_phase W))"
proof -
  note ws = write_step_ok [OF ok w s]
  have l: "int (length (todo W)) = t_count W - moved (t_phase W)" "int (length (todo W')) = t_count W' - moved (t_phase W')"
    using w ws(2) by (auto simp: writer_ok_def intro!: length_todo)
  have f: "0 \<le> fcount F" "fcount F \<le> fsize F" using ok by (auto simp: fifo_ok_def)
  show ?thesis
  proof (cases "t_phase W")
    case Begin
    hence c: "0 < t_count W" "t_count W \<le> 0x7FFF" using w by (auto simp: writer_ok_def transfer_ok_def)
    define b where "b = min (t_count W) (fsize F - fcount F)"
    have F': "fcount F' = fcount F" and W': "t_phase W' = (if b \<noteq> 0 then Copy b b else Test)" "t_count W' = t_count W"
      using s Begin beginWrite_eq [OF ok c] by (auto simp: write_step_def Let_def b_def)
    have "length (todo W') = length (todo W)" using l W' Begin by (cases "b = 0") auto
    moreover have "b = 0 \<longleftrightarrow> fcount F = fsize F" using c f by (auto simp: b_def)
    ultimately show ?thesis using F' W' Begin f by (cases "b = 0") (auto simp: phase_rank_def)
  next
    case (Copy b n)
    hence c: "0 < n" "n \<le> b" "b \<le> t_count W" using w by (auto simp: writer_ok_def transfer_ok_def)
    have F': "fcount F' = fcount F" and W': "t_phase W' = (if n - 1 > 0 then Copy b (n - 1) else End b)" "t_count W' = t_count W"
      using s Copy by (auto simp: write_step_def split: list.splits prod.splits)
    have m: "moved (t_phase W') = b - n + 1" using W' c by (cases "n = 1") auto
    have "length (todo W) = Suc (length (todo W'))" using l m W'(2) Copy by simp
    moreover have "nat (fcount F' + moved (t_phase W')) = Suc (nat (fcount F + moved (t_phase W)))"
      using m F' f c Copy by simp
    ultimately show ?thesis using W' Copy by (auto simp: phase_rank_def)
  next
    case (End b)
    hence c: "0 < b" "b \<le> fsize F - fcount F" "b \<le> t_count W" "t_count W \<le> 0x7FFF"
      using w ok by (auto simp: writer_ok_def transfer_ok_def fifo_ok_def)
    have F': "fcount F' = fcount F + b" and W': "t_phase W' = Test" "t_count W' = t_count W - b"
      using s End endWrite_eq [OF ok c] by (auto simp: write_step_def)
    have "length (todo W') = length (todo W)" using l W' End by simp
    thus ?thesis using F' W' End c f by (simp add: phase_rank_def)
  next
    case Test
    have "fcount F' = fcount F" "t_count W' = t_count W" "t_phase W' = Leave \<or> t_phase W' = Wait"
      using s Test by (auto simp: write_step_def split: if_splits)
    moreover from this have "length (todo W') = length (todo W)" using l Test by auto
    ultimately show ?thesis using Test by (auto simp: phase_rank_def)
  next
    case Wait
    hence "F' = F" "W' = W\<lparr>t_phase := Woken\<rparr>" using s by (auto simp: write_step_def split: if_splits)
    moreover from this have "length (todo W') = length (todo W)" using l Wait by simp
    ultimately show ?thesis using Wait by (simp add: phase_rank_def)
  next
    case Woken
    hence "F' = F" "t_phase W' = Begin" "t_count W' = t_count W" using s by (auto simp: write_step_def)
    moreover from this have "length (todo W') = length (todo W)" using l Woken by simp
    ultimately show ?thesis using e Woken by (simp add: phase_rank_def endless_def)
  next
    case Leave
    hence "fcount F' = fcount F" "W' = W\<lparr>t_phase := Done\<rparr>" using s by (auto simp: write_step_def)
    moreover from this have "length (todo W') = length (todo W)" using l Leave by simp
    ultimately show ?thesis using Leave by (simp add: phase_rank_def)
  qed (use s in \<open>simp add: write_step_def\<close>)
qed

lemma write_call_work:
  assumes h: "hw_ok C (WriteStart d c)" and p: "pipe_ok ds p C (WriteStart d c)"
  shows "console_work (C, IfxAsclin_Asc_write now TIME_INFINITE C d c) < console_work (C, WriteStart d c)"
proof -
  let ?F = "tx C"
  have ok: "fifo_ok ?F" using p by (simp add: pipe_ok_def)
  have c: "c = int (length d)" "c \<le> 0x7FFF" using h by (auto simp: hw_ok_def)
  note S = fifo_size_u16 [OF ok] have S0: "0 < fsize ?F" using ok by (simp add: fifo_ok_def)
  have w: "t_phase (Ifx_Fifo_write now ?F d c' TIME_INFINITE) = Begin" "t_count (Ifx_Fifo_write now ?F d c' TIME_INFINITE) = c'"
    "length (todo (Ifx_Fifo_write now ?F d c' TIME_INFINITE)) = min (length d) (nat c')" if "c' \<noteq> 0" for c'
    using that by (simp_all add: Ifx_Fifo_write_def todo_def)
  have r: "phase_rank ?F Begin \<le> 8" by (simp add: phase_rank_def)
  have i: "t_phase idle_transfer = Done" by (simp add: idle_transfer_def)
  show ?thesis
  proof (cases "\<not> txInProgress C \<and> c > fsize ?F")
    case True
    have "IfxAsclin_Asc_write now TIME_INFINITE C d c =
      FifoWrite (Ifx_Fifo_write now ?F d (fsize ?F) TIME_INFINITE) (Some (drop (nat (fsize ?F)) d, c - fsize ?F))"
      using True S c S0 Ifx_SizeT_id [of "c - fsize ?F"] by (auto simp: IfxAsclin_Asc_write_def Let_def)
    moreover have "nat (fsize ?F) \<le> length d" using True c by (simp add: nat_le_iff)
    hence "min (length d) (nat (fsize ?F)) = nat (fsize ?F)"
      "14 * (length d - nat (fsize ?F)) + 14 * nat (fsize ?F) = 14 * length d" by simp_all
    ultimately show ?thesis using w [of "fsize ?F"] r S0 by (simp add: console_work_def rest_work_def i)
  next
    case False
    hence "IfxAsclin_Asc_write now TIME_INFINITE C d c =
      (if c = 0 then WriteDone True 0 else FifoWrite (Ifx_Fifo_write now ?F d c TIME_INFINITE) None)"
      using S by (auto simp: IfxAsclin_Asc_write_def Let_def)
    thus ?thesis using w [of c] r c by (simp add: console_work_def rest_work_def i)
  qed
qed

lemma init_end_work:
  assumes p: "pipe_ok ds p C (InitEnd r l)" and s: "asc_write_step now TIME_INFINITE C (InitEnd r l) = Some (C', pc')"
  shows "console_work (C', pc') < console_work (C, InitEnd r l)"
proof (cases r)
  case None
  thus ?thesis using s by (auto simp: console_work_def)
next
  case (Some dc)
  obtain d c where r: "r = Some (d, c)" "c = int (length d)" "0 < c"
    using Some p by (cases dc) (auto simp: pipe_ok_def rest_ok_def)
  have "t_phase (Ifx_Fifo_write now (tx C) d c TIME_INFINITE) = Begin" "t_count (Ifx_Fifo_write now (tx C) d c TIME_INFINITE) = c"
    "length (todo (Ifx_Fifo_write now (tx C) d c TIME_INFINITE)) = length d"
    using r by (simp_all add: Ifx_Fifo_write_def todo_def)
  moreover have "phase_rank (tx C) Begin \<le> 8" by (simp add: phase_rank_def)
  moreover have "t_phase idle_transfer = Done" by (simp add: idle_transfer_def)
  moreover have "C' = C" "pc' = FifoWrite (Ifx_Fifo_write now (tx C) d c TIME_INFINITE) None" using s r(1) by auto
  ultimately show ?thesis using r by (simp add: console_work_def rest_work_def)
qed

lemma work_read:
  assumes "0 \<le> b" and "b \<le> fcount F" and "0 \<le> m"
  shows "nat (fcount (read_effect p b F) + m) + nat b = nat (fcount F + m)"
  using assms by (simp add: read_effect_def nat_add_distrib)

lemma writer_lowers_work:
  assumes h: "hw_ok C pc" and p: "pipe_ok ds p C pc" and s: "asc_write_step now TIME_INFINITE C pc = Some (C', pc')"
    and t: "now < TIME_INFINITE"
  shows "console_work (C', pc') < console_work (C, pc)"
proof (cases pc)
  case (WriteStart d c)
  thus ?thesis using write_call_work [of C d c ds p now] h p s by auto
next
  case (FifoWrite W r)
  have i: "t_phase idle_transfer = Done" by (simp add: idle_transfer_def)
  show ?thesis
  proof (cases "t_phase W = Done")
    case True
    thus ?thesis using s FifoWrite by (auto simp: console_work_def i)
  next
    case False
    then obtain F' W' where w: "write_step now (tx C, W) = Some (F', W')" "C' = C\<lparr>tx := F'\<rparr>" "pc' = FifoWrite W' r"
      using s FifoWrite by (auto simp: bind_eq_Some_conv)
    have "fifo_ok (tx C)" "writer_ok p (tx C) W" "endless (tx C) W" using p FifoWrite by (auto simp: pipe_ok_def)
    from fifo_write_work [OF this w(1)] show ?thesis using w FifoWrite by (simp add: console_work_def)
  qed
next
  case (InitSend r l)
  obtain b where "initiate_step now C (InitSend r l) =
      Some (C\<lparr>tx := read_effect p 1 (tx C), hw_tx := [b]\<rparr>, InitEnd r l)"
    using init_send_inv [of C r l ds p now] h p t InitSend by blast
  moreover have "0 < fcount (tx C)" "hw_tx C = []" using h InitSend by (auto simp: hw_ok_def)
  ultimately show ?thesis using s InitSend work_read [of 1 "tx C" 0 p] by (auto simp: console_work_def idle_transfer_def)
next
  case (InitEnd r l)
  thus ?thesis using init_end_work p s by blast
qed (use s in \<open>auto simp: console_work_def\<close>)

lemma isr_lowers_work:
  assumes h: "hw_ok C pc" and p: "pipe_ok ds p C pc" and q: "tx_request C" and t: "now < TIME_INFINITE"
    and s: "IfxAsclin_Asc_isrTransmit now (C\<lparr>tx_request := False\<rparr>) = Some C'"
  shows "console_work (C', pc) < console_work (C, pc)"
proof -
  have ok: "fifo_ok (tx C)" and st: "startIndex (tx C) = int (p mod length (buffer (tx C)))"
    and w: "writer_ok p (tx C) (xfer pc)" using p by (auto simp: pipe_ok_def)
  have hw: "hw_tx C = []" using h q by (auto simp: hw_ok_def)
  define b where "b = min 16 (fcount (tx C))"
  have b: "0 \<le> b" "b \<le> fcount (tx C)" using ok by (auto simp: b_def fifo_ok_def)
  have C': "C' = (if fcount (tx C) = 0 then isr_count now C\<lparr>txInProgress := False\<rparr>
     else isr_count now C\<lparr>tx := read_effect p b (tx C), hw_tx := seg (buffer (tx C)) p (nat b)\<rparr>)"
    using isr_transmit [OF ok st hw t] unfolding s b_def option.inject .
  have m: "0 \<le> moved (t_phase (xfer pc))" using w moved_le by (auto simp: writer_ok_def)
  have "writer_work C' pc \<le> writer_work C pc"
    using C' b by (cases pc) (auto simp: isr_count_def read_effect_def phase_rank_def split: phase.split)
  thus ?thesis using C' q hw work_read [OF b m, of p]
    by (auto simp: console_work_def isr_count_def)
qed

theorem console_step_work:
  assumes "console_step s s'" and "console_inv ds s" shows "console_work s' < console_work s"
  using assms
proof (induction rule: console_step.induct)
  case (writer now C pc C' pc')
  thus ?case using writer_lowers_work by (auto simp: console_inv_def)
next
  case (send C b bs pc)
  have "writer_work (C\<lparr>hw_tx := bs, line := line C @ [b], tx_request := tx_request C \<or> bs = []\<rparr>) pc = writer_work C pc"
    by (cases pc) simp_all
  thus ?case using send(1) by (simp add: console_work_def)
next
  case (asc0TxISR C now C' pc)
  thus ?case using isr_lowers_work by (auto simp: console_inv_def)
qed

theorem console_runs_end:
  assumes "console_inv ds s" and "(console_step ^^ n) s s'" shows "n \<le> console_work s"
  using assms(2)
proof (induction n arbitrary: s')
  case (Suc n)
  have "(console_step ^^ n) s s' \<Longrightarrow> console_inv ds s' \<and> n + console_work s' \<le> console_work s" for n s'
  proof (induction n arbitrary: s')
    case (Suc n)
    then obtain s1 where "(console_step ^^ n) s s1" "console_step s1 s'" by auto
    with Suc.IH [of s1] console_step_inv console_step_work show ?case by fastforce
  qed (use assms(1) in simp)
  from this [OF Suc.prems] show ?case by simp
qed simp

subsection \<open>Messages that cannot get stuck\<close>

text \<open>
  While no transmission is in progress nothing empties the ring; a call does not get stuck if what it
  still has to write fits into the ring then.
\<close>

definition rest_fits :: "int \<Rightarrow> (u8 list \<times> int) option \<Rightarrow> bool" where
  "rest_fits n r = (case r of None \<Rightarrow> True | Some (d, c) \<Rightarrow> c \<le> n)"

fun console_fits :: "console \<times> asc_pc \<Rightarrow> bool" where
  "console_fits (C, WriteStart d c) = (c \<le> fsize (tx C) \<or> \<not> txInProgress C \<and> c \<le> 2 * fsize (tx C))"
| "console_fits (C, FifoWrite W r) = (t_count W \<le> fsize (tx C) \<and>
     (\<not> txInProgress C \<longrightarrow> fcount (tx C) + t_count W \<le> fsize (tx C)) \<and> rest_fits (fsize (tx C)) r)"
| "console_fits (C, pc) = rest_fits (fsize (tx C)) (rest pc)"

lemma write_step_room:
  assumes ok: "fifo_ok F" and w: "writer_ok p F W" and s: "write_step now (F, W) = Some (F', W')"
  shows "fsize F' = fsize F" and "t_count W' \<le> t_count W" and "fcount F' + t_count W' = fcount F + t_count W"
proof -
  have "fsize F' = fsize F \<and> t_count W' \<le> t_count W \<and> fcount F' + t_count W' = fcount F + t_count W"
  proof (cases "t_phase W")
    case Begin
    hence c: "0 < t_count W" "t_count W \<le> 0x7FFF" using w by (auto simp: writer_ok_def transfer_ok_def)
    show ?thesis using s Begin beginWrite_eq [OF ok c] by (auto simp: write_step_def Let_def)
  next
    case (Copy b n)
    thus ?thesis using s by (auto simp: write_step_def split: list.splits prod.splits)
  next
    case (End b)
    hence c: "0 < b" "b \<le> fsize F - fcount F" "b \<le> t_count W" "t_count W \<le> 0x7FFF"
      using w ok by (auto simp: writer_ok_def transfer_ok_def fifo_ok_def)
    show ?thesis using s End endWrite_eq [OF ok c] c by (auto simp: write_step_def)
  qed (use s in \<open>auto simp: write_step_def split: if_splits\<close>)
  thus "fsize F' = fsize F" and "t_count W' \<le> t_count W" and "fcount F' + t_count W' = fcount F + t_count W" by auto
qed

lemma write_start_count [simp]: "t_count (Ifx_Fifo_write now F d c timeout) = c"
  by (simp add: Ifx_Fifo_write_def)

lemma console_fits_step: "console_step s s' \<Longrightarrow> console_inv ds s \<Longrightarrow> console_fits s \<Longrightarrow> console_fits s'"
proof (induction rule: console_step.induct)
  case (writer now C pc C' pc')
  then obtain p where h: "hw_ok C pc" and p: "pipe_ok ds p C pc" by (auto simp: console_inv_def)
  have ok: "fifo_ok (tx C)" using p by (simp add: pipe_ok_def)
  show ?case
  proof (cases pc)
    case (WriteStart d c)
    have c: "c = int (length d)" "c \<le> 0x7FFF" "\<not> txInProgress C \<Longrightarrow> fcount (tx C) = 0"
      using h WriteStart by (auto simp: hw_ok_def)
    have S0: "0 < fsize (tx C)" using ok by (simp add: fifo_ok_def)
    have sz: "c > fsize (tx C) \<Longrightarrow> Ifx_SizeT (c - fsize (tx C)) = c - fsize (tx C)"
      using c S0 by (intro Ifx_SizeT_id) auto
    show ?thesis using writer(1,4) WriteStart c fifo_size_u16 [OF ok] sz
      by (auto simp: IfxAsclin_Asc_write_def Let_def rest_fits_def split: if_splits)
  next
    case (FifoWrite W r)
    show ?thesis
    proof (cases "t_phase W = Done")
      case True
      thus ?thesis using writer FifoWrite by auto
    next
      case False
      then obtain F' W' where w: "write_step now (tx C, W) = Some (F', W')" "C' = C\<lparr>tx := F'\<rparr>" "pc' = FifoWrite W' r"
        using writer(1) FifoWrite by (auto simp: bind_eq_Some_conv)
      have "writer_ok p (tx C) W" using p FifoWrite by (simp add: pipe_ok_def)
      from write_step_room [OF ok this w(1)] show ?thesis using writer(4) w FifoWrite
        by auto
    qed
  next
    case (InitSend r l)
    obtain b where "initiate_step now C (InitSend r l) =
        Some (C\<lparr>tx := read_effect p 1 (tx C), hw_tx := [b]\<rparr>, InitEnd r l)"
      using init_send_inv [of C r l ds p now] h p writer(2) InitSend by blast
    hence "pc' = InitEnd r l" "fsize (tx C') = fsize (tx C)"
      using writer(1) InitSend by (auto simp: read_effect_def)
    thus ?thesis using writer(4) InitSend by auto
  next
    case (InitEnd r l)
    thus ?thesis using writer(1,4) h by (auto simp: rest_fits_def hw_ok_def split: option.splits)
  qed (use writer in auto)
next
  case (send C b bs pc)
  thus ?case by (cases pc) auto
next
  case (asc0TxISR C now C' pc)
  then obtain p where h: "hw_ok C pc" and p: "pipe_ok ds p C pc" by (auto simp: console_inv_def)
  have ok: "fifo_ok (tx C)" and st: "startIndex (tx C) = int (p mod length (buffer (tx C)))" using p by (auto simp: pipe_ok_def)
  have hw: "hw_tx C = []" "txInProgress C" using h asc0TxISR(1) by (auto simp: hw_ok_def)
  define b where "b = min 16 (fcount (tx C))"
  have b: "0 \<le> b" using ok by (simp add: b_def fifo_ok_def)
  have C': "C' = (if fcount (tx C) = 0 then isr_count now C\<lparr>txInProgress := False\<rparr>
     else isr_count now C\<lparr>tx := read_effect p b (tx C), hw_tx := seg (buffer (tx C)) p (nat b)\<rparr>)"
    using isr_transmit [OF ok st hw(1) asc0TxISR(3)] unfolding asc0TxISR(2) b_def option.inject .
  show ?case using asc0TxISR(5) hw C' b
    by (cases pc) (auto simp: isr_count_def read_effect_def)
qed

lemma write_step_None:
  assumes "writer_ok p F W" and "endless F W" and "write_step now (F, W) = None"
  shows "t_phase W = Done \<or> t_phase W = Wait \<and> \<not> eventWriter F"
  using assms by (cases "t_phase W")
    (auto simp: write_step_def writer_ok_def transfer_ok_def split: prod.splits list.splits if_splits)

theorem console_at_rest:
  assumes inv: "console_inv ds (C, pc)" and console_fits: "console_fits (C, pc)" and no: "\<And>s'. \<not> console_step (C, pc) s'"
  shows "pc = WriteDone True 0" and "line C = ds" and "hw_tx C = []" and "fcount (tx C) = 0" and "\<not> txInProgress C"
    and "\<not> tx_request C"
proof -
  obtain p where h: "hw_ok C pc" and p: "pipe_ok ds p C pc" using inv by (auto simp: console_inv_def)
  have ok: "fifo_ok (tx C)" and st: "startIndex (tx C) = int (p mod length (buffer (tx C)))" using p by (auto simp: pipe_ok_def)
  have t: "0 < TIME_INFINITE" by (simp add: TIME_INFINITE_def)
  have hw: "hw_tx C = []" using no send by (cases "hw_tx C") blast+
  have rq: "\<not> tx_request C" using no asc0TxISR [OF _ isr_transmit [OF ok st hw t] t] by blast
  have w: "asc_write_step 0 TIME_INFINITE C pc = None"
  proof (rule ccontr)
    assume "asc_write_step 0 TIME_INFINITE C pc \<noteq> None"
    then obtain C' pc' where "asc_write_step 0 TIME_INFINITE C pc = Some (C', pc')" by auto
    from writer [OF this t] no show False by blast
  qed
  have pr: "\<not> txInProgress C"
  proof (cases pc)
    case (InitSend r l)
    thus ?thesis using init_send_inv [of C r l ds p 0] h p t w by auto
  qed (use h hw rq in \<open>auto simp: hw_ok_def\<close>)
  show pc: "pc = WriteDone True 0"
  proof (cases pc)
    case (FifoWrite W r)
    have a: "writer_ok p (tx C) W" "writer_waits (tx C) W" "endless (tx C) W" using p FifoWrite by (auto simp: pipe_ok_def)
    have "t_phase W = Wait" "\<not> eventWriter (tx C)"
      using w FifoWrite write_step_None [OF a(1,3), of 0] by (auto simp: bind_eq_None_conv split: if_splits prod.splits)
    from waiting_writer_has_data [OF ok a(1,2) this] console_fits pr FifoWrite show ?thesis by simp
  next
    case (InitSend r l)
    thus ?thesis using init_send_inv [of C r l ds p 0] h p t w by auto
  next
    case (WriteDone b l)
    thus ?thesis using h by (simp add: hw_ok_def)
  qed (use w in auto)
  show f: "fcount (tx C) = 0" using h pc pr by (simp add: hw_ok_def)
  show "line C = ds" using p pc hw f by (simp add: pipe_ok_def rest_data_def)
  show "hw_tx C = []" "\<not> txInProgress C" "\<not> tx_request C" by (fact hw pr rq)+
qed

subsection \<open>Receiving\<close>

lemma isr_receive:
  assumes i: "fifo_idle (rx C)" and h: "hw_rx C \<noteq> []" "length (hw_rx C) \<le> 16" and t: "now < TIME_INFINITE"
  defines "room \<equiv> nat (fsize (rx C) - fcount (rx C))"
  obtains C' where "IfxAsclin_Asc_isrReceive now C = Some C'" and "fifo_idle (rx C')" and "hw_rx C' = []"
    and "fifo_bytes (rx C') = fifo_bytes (rx C) @ take room (hw_rx C)"
    and "rxSwFifoOverflow C' \<longleftrightarrow> rxSwFifoOverflow C \<or> room < length (hw_rx C)"
proof -
  let ?c = "int (length (hw_rx C))"
  have c: "0 < ?c" "?c \<le> int (length (hw_rx C))" "?c \<le> 0x7FFF" using h by auto
  have t8: "take_bit 8 ?c = ?c" using h by (intro take_bit_int_eq_self) auto
  obtain F' where F': "fifo_write_now now (rx C) (hw_rx C) ?c = Some (?c - min ?c (fsize (rx C) - fcount (rx C)), F')"
    "fifo_idle F'" "fifo_bytes F' = fifo_bytes (rx C) @ take (nat (min ?c (fsize (rx C) - fcount (rx C)))) (hw_rx C)"
    using fifo_write_now [OF i c t] by metis
  have r: "0 \<le> fsize (rx C) - fcount (rx C)" using i by (simp add: fifo_idle_def fifo_ok_def)
  let ?C = "C\<lparr>rx := F', hw_rx := []\<rparr>"
  have "IfxAsclin_Asc_isrReceive now C =
    Some (if room < length (hw_rx C) then ?C\<lparr>rxSwFifoOverflow := True\<rparr> else ?C)"
    using F'(1) r by (auto simp: IfxAsclin_Asc_isrReceive_def t8 Let_def room_def)
  moreover have "take (nat (min ?c (fsize (rx C) - fcount (rx C)))) (hw_rx C) = take room (hw_rx C)"
    using r by (simp add: room_def min_def)
  ultimately show ?thesis using that F' by (simp split: if_splits)
qed

subsection \<open>A call of Ifx_print as a whole\<close>

text \<open>The driver between two calls, and the bytes that have been written up to then.\<close>

definition between_calls :: "console \<Rightarrow> bool" where
  "between_calls C \<longleftrightarrow> fifo_idle (tx C) \<and> 0 \<le> writerWaitx (tx C) \<and> length (hw_tx C) \<le> 16 \<and>
     (if txInProgress C then tx_request C \<longleftrightarrow> hw_tx C = []
      else hw_tx C = [] \<and> \<not> tx_request C \<and> fcount (tx C) = 0)"

definition sent_bytes :: "console \<Rightarrow> u8 list" where
  "sent_bytes C = line C @ hw_tx C @ fifo_bytes (tx C)"

lemma print_inv:
  assumes b: "between_calls C" and m: "length m \<le> 0x7FFF"
  shows "console_inv (sent_bytes C @ m) (C, Ifx_print m)"
proof -
  have i: "fifo_ok (tx C)" "0 \<le> startIndex (tx C)" "startIndex (tx C) < fsize (tx C)"
    "endIndex (tx C) = int ((nat (startIndex (tx C)) + nat (fcount (tx C))) mod length (buffer (tx C)))"
    using b by (auto simp: between_calls_def fifo_idle_def)
  have s: "Ifx_SizeT (int (length m)) = int (length m)" using m by (intro Ifx_SizeT_id) auto
  have st: "startIndex (tx C) = int (nat (startIndex (tx C)) mod length (buffer (tx C)))"
    using i by (auto simp: fifo_ok_def)
  have "pipe_ok (sent_bytes C @ m) (nat (startIndex (tx C))) C (Ifx_print m)"
    using b i st s by (simp add: pipe_ok_def Ifx_print_def sent_bytes_def fifo_bytes_def rest_ok_def between_calls_def fifo_ok_def)
  moreover have "hw_ok C (Ifx_print m)"
    using b m s by (auto simp: hw_ok_def Ifx_print_def between_calls_def split: if_splits)
  ultimately show ?thesis by (auto simp: console_inv_def)
qed

lemma done_between_calls:
  assumes "console_inv ds (C, WriteDone True 0)" shows "between_calls C" and "sent_bytes C = ds"
proof -
  obtain p where h: "hw_ok C (WriteDone True 0)" and p: "pipe_ok ds p C (WriteDone True 0)"
    using assms by (auto simp: console_inv_def)
  have f: "fifo_idle (tx C)" "fifo_bytes (tx C) = seg (buffer (tx C)) p (nat (fcount (tx C)))"
    using fifo_idleI [of "tx C" p] p by (auto simp: pipe_ok_def)
  show "between_calls C" using h p f by (auto simp: between_calls_def hw_ok_def pipe_ok_def)
  show "sent_bytes C = ds" using p f by (simp add: pipe_ok_def sent_bytes_def rest_data_def)
qed

lemma console_run:
  assumes b: "between_calls C" and m: "length m \<le> 0x7FFF" and s: "console_step\<^sup>*\<^sup>* (C, Ifx_print m) s"
  shows "console_inv (sent_bytes C @ m) s"
    and "int (length m) \<le> fsize (tx C) \<or> \<not> txInProgress C \<and> int (length m) \<le> 2 * fsize (tx C) \<Longrightarrow> console_fits s"
proof -
  show inv: "console_inv (sent_bytes C @ m) s" using console_steps_inv [OF s print_inv [OF b m]] .
  assume f: "int (length m) \<le> fsize (tx C) \<or> \<not> txInProgress C \<and> int (length m) \<le> 2 * fsize (tx C)"
  have sz: "Ifx_SizeT (int (length m)) = int (length m)" using m by (intro Ifx_SizeT_id) auto
  from s show "console_fits s"
  proof (induction rule: rtranclp_induct)
    case (step s1 s2)
    from console_fits_step [OF step(2) console_steps_inv [OF step(1) print_inv [OF b m]] step(3)] show ?case .
  qed (use f in \<open>simp add: Ifx_print_def sz\<close>)
qed

lemma console_inv_line: "console_inv ds s \<Longrightarrow> \<exists>n. line (fst s) = take n ds"
proof -
  assume "console_inv ds s"
  then obtain p where "pipe_ok ds p (fst s) (snd s)" by (cases s) (auto simp: console_inv_def)
  hence "line (fst s) = take (length (line (fst s))) ds" by (auto simp: pipe_ok_def)
  thus ?thesis ..
qed

end
