(* ===== verification/ConsoleSamples.thy ===== *)
theory ConsoleSamples
  imports ConsoleSpec
begin

section \<open>Calls that never return\<close>

subsection \<open>A message longer than the ring\<close>

definition stuck :: "console \<times> asc_pc \<Rightarrow> bool" where
  "stuck = (\<lambda>(C, pc). hw_tx C = [] \<and> \<not> tx_request C \<and>
     (case pc of FifoWrite W r \<Rightarrow> t_phase W = Wait \<and> \<not> eventWriter (tx C) \<and> t_deadline W = TIME_INFINITE | _ \<Rightarrow> False))"

lemma stuck_no_step:
  assumes "stuck s" shows "\<not> console_step s s'"
proof
  assume "console_step s s'"
  thus False using assms
    by (induction rule: console_step.induct)
      (auto simp: stuck_def write_step_def IfxStm_isDeadLine_def split: asc_pc.splits)
qed

lemma run_steps_star:
  assumes "run_steps f s = Some s'" shows "(\<lambda>a b. f a = Some b)\<^sup>*\<^sup>* s s'"
proof (rule run_steps.raw_induct [where P = "\<lambda>f s y. (\<lambda>a b. f a = Some b)\<^sup>*\<^sup>* s y", OF _ assms])
  fix run :: "(Ifx_Fifo \<times> transfer \<Rightarrow> (Ifx_Fifo \<times> transfer) option) \<Rightarrow> Ifx_Fifo \<times> transfer \<Rightarrow>
    (Ifx_Fifo \<times> transfer) option" and f s y
  assume IH: "\<And>f s y. run f s = Some y \<Longrightarrow> (\<lambda>a b. f a = Some b)\<^sup>*\<^sup>* s y"
    and r: "(case f s of None \<Rightarrow> Some s | Some s' \<Rightarrow> run f s') = Some y"
  show "(\<lambda>a b. f a = Some b)\<^sup>*\<^sup>* s y"
  proof (cases "f s")
    case (Some s1)
    with IH r have "(\<lambda>a b. f a = Some b)\<^sup>*\<^sup>* s1 y" by simp
    from converse_rtranclp_into_rtranclp [where r = "\<lambda>a b. f a = Some b", OF Some this] show ?thesis .
  qed (use r in simp)
qed

lemma writer_runs:
  assumes "(\<lambda>a b. write_step 0 a = Some b)\<^sup>*\<^sup>* (F, W) s'"
  shows "console_step\<^sup>*\<^sup>* (C\<lparr>tx := F\<rparr>, FifoWrite W r) (C\<lparr>tx := fst s'\<rparr>, FifoWrite (snd s') r)"
  using assms
proof (induction rule: rtranclp_induct)
  case (step s1 s2)
  have "t_phase (snd s1) \<noteq> Done" using step(2) by (cases s1) (auto simp: write_step_def)
  hence "asc_write_step 0 TIME_INFINITE (C\<lparr>tx := fst s1\<rparr>) (FifoWrite (snd s1) r) =
    Some (C\<lparr>tx := fst s2\<rparr>, FifoWrite (snd s2) r)" using step(2) by (cases s2) simp
  hence "console_step (C\<lparr>tx := fst s1\<rparr>, FifoWrite (snd s1) r) (C\<lparr>tx := fst s2\<rparr>, FifoWrite (snd s2) r)"
    by (rule console_step.writer) (simp add: TIME_INFINITE_def)
  with step(3) show ?case by (rule rtranclp.rtrancl_into_rtrancl)
qed simp

text \<open>A writer that finds the ring empty, and has more to write than fits, fills it and waits.\<close>

lemma writer_fills_and_waits:
  assumes i: "fifo_idle F" and e: "fcount F = 0" and c: "fsize F < c" "c \<le> int (length d)" "c \<le> 0x7FFF"
  obtains F' W' where "run_steps (write_step 0) (F, Ifx_Fifo_write now F d c TIME_INFINITE) = Some (F', W')"
    and "t_phase W' = Wait" and "\<not> eventWriter F'" and "t_deadline W' = TIME_INFINITE"
proof -
  have ok: "fifo_ok F" using i by (simp add: fifo_idle_def)
  let ?p = "nat (startIndex F)" let ?L = "length (buffer F)" let ?b = "fsize F"
  have b: "0 < ?b" "?b = int ?L" using ok by (auto simp: fifo_ok_def)
  have c0: "0 < c" "0 \<le> c" using b c by auto
  define W where "W = Ifx_Fifo_write now F d c TIME_INFINITE"
  have W: "t_phase W = Begin" "t_count W = c" "t_data W = d" "t_deadline W = TIME_INFINITE" "\<not> t_stop W"
    using c0 by (simp_all add: W_def Ifx_Fifo_write_def IfxStm_getDeadLine_def)
  have idx: "t_index W = ?p mod ?L"
    using write_start(1) [OF i c0(2) c(2,3), of now TIME_INFINITE] W e by (simp add: writer_ok_def flip: W_def)
  define F1 where "F1 = F\<lparr>eventWriter := False, writerWaitx := min (c - ?b) (fsize F)\<rparr>"
  let ?W1 = "W\<lparr>t_phase := Copy ?b ?b\<rparr>"
  have ok1: "fifo_ok F1" and F1: "buffer F1 = buffer F" "F1\<lparr>buffer := buffer F\<rparr> = F1"
    using ok by (simp_all add: F1_def fifo_ok_def)
  have "run_steps (write_step 0) (F, W) = run_steps (write_step 0) (F1, ?W1)"
    using b c by (intro run_Some) (simp add: write_step_def W F1_def beginWrite_eq [OF ok c0(1) c(3)] e Let_def)
  moreover have pre: "0 < ?L" "0 + ?L \<le> length (buffer F1)" "?L = length (buffer F1)" "t_phase ?W1 = Copy ?b (int ?L)"
    "t_index ?W1 = (?p + 0) mod length (buffer F1)" "?L \<le> length (t_data ?W1)"
    using b c idx W by (simp_all add: F1)
  obtain B' where "run_steps (write_step 0) (F1, ?W1) = run_steps (write_step 0) (F1\<lparr>buffer := B'\<rparr>,
      ?W1\<lparr>t_data := drop ?L (t_data ?W1), t_index := (?p + 0 + ?L) mod length (buffer F1), t_phase := End ?b\<rparr>)"
    and B': "length B' = ?L" using run_write_copy [OF ok1 pre, of 0] unfolding F1(2) by blast
  moreover have ok2: "fifo_ok (F1\<lparr>buffer := B'\<rparr>)" using ok1 B' by (auto simp: fifo_ok_def F1_def)
  have ew: "Ifx_Fifo_endWrite (F1\<lparr>buffer := B'\<rparr>) c ?b = (c - ?b, snd (Ifx_Fifo_endWrite (F1\<lparr>buffer := B'\<rparr>) c ?b))"
    "\<not> eventWriter (snd (Ifx_Fifo_endWrite (F1\<lparr>buffer := B'\<rparr>) c ?b))"
    using endWrite_eq [OF ok2 b(1), of c] c e by (simp_all add: F1_def)
  define F2 where "F2 = snd (Ifx_Fifo_endWrite (F1\<lparr>buffer := B'\<rparr>) c ?b)"
  have e2: "Ifx_Fifo_endWrite (F1\<lparr>buffer := B'\<rparr>) c ?b = (c - ?b, F2)" using ew(1) by (simp only: F2_def)
  define W2 where "W2 = ?W1\<lparr>t_data := drop ?L (t_data ?W1), t_index := (?p + 0 + ?L) mod length (buffer F1),
    t_count := c - ?b, t_phase := Test\<rparr>"
  have "run_steps (write_step 0) (F1\<lparr>buffer := B'\<rparr>,
      ?W1\<lparr>t_data := drop ?L (t_data ?W1), t_index := (?p + 0 + ?L) mod length (buffer F1), t_phase := End ?b\<rparr>) =
      run_steps (write_step 0) (F2, W2)"
    by (rule run_Some) (simp add: write_step_def W W2_def e2)
  moreover have "run_steps (write_step 0) (F2, W2) = run_steps (write_step 0) (F2, W2\<lparr>t_phase := Wait\<rparr>)"
    using c W by (intro run_Some) (simp add: write_step_def W2_def IfxStm_isDeadLine_def)
  moreover have "run_steps (write_step 0) (F2, W2\<lparr>t_phase := Wait\<rparr>) = Some (F2, W2\<lparr>t_phase := Wait\<rparr>)"
    using ew(2) W by (intro run_None) (simp add: write_step_def W2_def F2_def IfxStm_isDeadLine_def)
  ultimately show ?thesis using that [of F2 "W2\<lparr>t_phase := Wait\<rparr>"] ew(2) W
    by (simp add: W2_def F2_def flip: W_def)
qed

lemma long_print_hangs:
  assumes i: "fifo_idle (tx C)" and e: "fcount (tx C) = 0" and b: "txInProgress C" "hw_tx C = [x]" "\<not> tx_request C"
    and m: "fsize (tx C) < int (length m)" "length m \<le> 0x7FFF"
  obtains C' pc' where "console_step\<^sup>*\<^sup>* (C, Ifx_print m) (C', pc')" and "stuck (C', pc')"
proof -
  let ?c = "int (length m)" let ?W = "Ifx_Fifo_write 0 (tx C) m ?c TIME_INFINITE"
  have "Ifx_SizeT ?c = ?c" using m by (intro Ifx_SizeT_id) auto
  hence pr: "Ifx_print m = WriteStart m ?c" by (simp add: Ifx_print_def)
  have ok: "fifo_ok (tx C)" using i by (simp add: fifo_idle_def)
  have m0: "m \<noteq> []" using m ok by (auto simp: fifo_ok_def)
  have t: "0 < TIME_INFINITE" by (simp add: TIME_INFINITE_def)
  have "asc_write_step 0 TIME_INFINITE C (WriteStart m ?c) = Some (C, FifoWrite ?W None)"
    using b m0 by (simp add: IfxAsclin_Asc_write_def Let_def)
  hence s1: "console_step (C, WriteStart m ?c) (C, FifoWrite ?W None)" by (rule console_step.writer) (rule t)
  define C1 where "C1 = C\<lparr>hw_tx := [], line := line C @ [x], tx_request := True\<rparr>"
  have s2: "console_step (C, FifoWrite ?W None) (C1, FifoWrite ?W None)"
    using console_step.send [OF b(2)] b by (simp add: C1_def)
  define C2 where "C2 = isr_count 0 C1\<lparr>txInProgress := False\<rparr>"
  have "startIndex (tx C1) = int (nat (startIndex (tx C)) mod length (buffer (tx C1)))"
    using i ok by (auto simp: C1_def fifo_idle_def fifo_ok_def)
  hence "IfxAsclin_Asc_isrTransmit 0 (C1\<lparr>tx_request := False\<rparr>) = Some C2"
    using isr_transmit [of C1 "nat (startIndex (tx C))" 0] ok e t by (simp add: C1_def C2_def)
  hence s3: "console_step (C1, FifoWrite ?W None) (C2, FifoWrite ?W None)"
    by (intro console_step.asc0TxISR [OF _ _ t]) (simp_all add: C1_def)
  obtain F' W' where w: "run_steps (write_step 0) (tx C, ?W) = Some (F', W')" "t_phase W' = Wait" "\<not> eventWriter F'"
    "t_deadline W' = TIME_INFINITE"
    using writer_fills_and_waits [OF i e m(1), of m 0] m(2) by auto
  have "C2\<lparr>tx := tx C\<rparr> = C2" by (simp add: C2_def C1_def isr_count_def)
  with writer_runs [OF run_steps_star [OF w(1)], of C2 None]
  have "console_step\<^sup>*\<^sup>* (C2, FifoWrite ?W None) (C2\<lparr>tx := F'\<rparr>, FifoWrite W' None)" by simp
  with s1 s2 s3 have "console_step\<^sup>*\<^sup>* (C, Ifx_print m) (C2\<lparr>tx := F'\<rparr>, FifoWrite W' None)"
    unfolding pr by (meson converse_rtranclp_into_rtranclp)
  moreover have "stuck (C2\<lparr>tx := F'\<rparr>, FifoWrite W' None)"
    using w by (simp add: stuck_def C2_def C1_def isr_count_def)
  ultimately show ?thesis using that by blast
qed

lemma align_32: "(m :: int) AND NOT 3 = m div 4 * 4"
proof -
  have "m AND NOT (mask 2) = push_bit 2 (drop_bit 2 m)"
    by (rule bit_eqI) (auto simp: bit_push_bit_iff bit_drop_bit_eq bit_and_iff bit_not_iff bit_mask_iff
      not_less le_iff_add simp del: mask_numeral)
  moreover have "mask 2 = (3 :: int)" by (simp add: mask_eq_exp_minus_1)
  ultimately have "m AND NOT 3 = push_bit 2 (drop_bit 2 m)" by simp
  thus ?thesis by (simp add: push_bit_eq_mult drop_bit_eq_div)
qed

lemma init_idle:
  assumes "0 < n" and "n \<le> 0x7FF8"
  shows "fifo_idle (Ifx_Fifo_init m n 1)" and "fcount (Ifx_Fifo_init m n 1) = 0"
    and "fsize (Ifx_Fifo_init m n 1) = (n + 3) div 4 * 4"
proof -
  have a: "Ifx_SizeT (Ifx_AlignOn32 n) = (n + 3) div 4 * 4"
    unfolding Ifx_AlignOn32_def align_32 using assms by (intro Ifx_SizeT_id) auto
  have "0 < (n + 3) div 4 * 4" and "(n + 3) div 4 * 4 \<le> 0x7FFF" using assms by auto
  thus "fifo_idle (Ifx_Fifo_init m n 1)"
    by (auto simp: Ifx_Fifo_init_def a fifo_idle_def fifo_ok_def Let_def)
  show "fcount (Ifx_Fifo_init m n 1) = 0" "fsize (Ifx_Fifo_init m n 1) = (n + 3) div 4 * 4"
    by (simp_all add: Ifx_Fifo_init_def a Let_def)
qed

subsection \<open>A reader and a writer that both wait\<close>

fun fifo_turns :: "bool list \<Rightarrow> Ifx_Fifo \<times> transfer \<times> transfer \<Rightarrow> (Ifx_Fifo \<times> transfer \<times> transfer) option" where
  "fifo_turns [] s = Some s"
| "fifo_turns (True # ts) (F, W, R) =
     (case write_step 0 (F, W) of None \<Rightarrow> None | Some (F, W) \<Rightarrow> fifo_turns ts (F, W, R))"
| "fifo_turns (False # ts) (F, W, R) =
     (case read_step 0 (F, R) of None \<Rightarrow> None | Some (F, R) \<Rightarrow> fifo_turns ts (F, W, R))"

lemma fifo_turns_steps: "fifo_turns ts s = Some s' \<Longrightarrow> fifo_step\<^sup>*\<^sup>* s s'"
  by (induction ts s rule: fifo_turns.induct)
    (auto intro: converse_rtranclp_into_rtranclp fifo_step.intros split: option.splits)

definition both_wait :: "Ifx_Fifo \<times> transfer \<times> transfer \<Rightarrow> bool" where
  "both_wait = (\<lambda>(F, W, R). t_phase W = Wait \<and> \<not> eventWriter F \<and> t_deadline W = TIME_INFINITE \<and>
     t_phase R = Wait \<and> \<not> eventReader F \<and> t_deadline R = TIME_INFINITE)"

lemma both_wait_no_step: "both_wait s \<Longrightarrow> \<not> fifo_step s s'"
  by (auto simp: both_wait_def write_step_def read_step_def IfxStm_isDeadLine_def elim!: fifo_step.cases)

text \<open>A ring of four bytes that holds two.\<close>

definition half_full :: Ifx_Fifo where
  "half_full = \<lparr>buffer = [1, 2, 0, 0], fcount = 2, readerWaitx = 0, writerWaitx = 0, maxcount = 2,
     startIndex = 0, endIndex = 2, fsize = 4, elementSize = 1, eventReader = False, eventWriter = False\<rparr>"

definition both_waiting :: "(Ifx_Fifo \<times> transfer \<times> transfer) option" where
  "both_waiting = fifo_turns [True, False, False, False, False, False, True, True, True, True]
     (half_full, Ifx_Fifo_write 0 half_full [3, 4, 5, 6, 7, 8] 6 TIME_INFINITE, Ifx_Fifo_read 0 half_full 6 TIME_INFINITE)"

lemma both_waiting:
  "map_option (\<lambda>(F, W, R). (both_wait (F, W, R), fcount F, t_count W, t_count R)) both_waiting = Some (True, 2, 4, 4)"
  by (simp add: both_waiting_def half_full_def Ifx_Fifo_write_def Ifx_Fifo_read_def write_step_def read_step_def
    Ifx_Fifo_beginWrite_def Ifx_Fifo_beginRead_def Ifx_Fifo_readEnd_def Ifx_Fifo_endWrite_def fifo_defs Ifx_SizeT_id
    write8_body_def read8_body_def advance_index IfxStm_getDeadLine_def IfxStm_isDeadLine_def both_wait_def Let_def)

subsection \<open>Two writers\<close>

text \<open>
  Two tasks print; the second interrupts the first after \<open>Ifx_Fifo_beginWrite\<close>.  Both have read the
  same \<open>endIndex\<close>, so the first writes over the byte of the second, and the ring counts a byte that
  nobody has written.
\<close>

fun writer_turns :: "bool list \<Rightarrow> Ifx_Fifo \<times> transfer \<times> transfer \<Rightarrow> (Ifx_Fifo \<times> transfer \<times> transfer) option" where
  "writer_turns [] s = Some s"
| "writer_turns (True # ts) (F, W1, W2) =
     (case write_step 0 (F, W1) of None \<Rightarrow> None | Some (F, W1) \<Rightarrow> writer_turns ts (F, W1, W2))"
| "writer_turns (False # ts) (F, W1, W2) =
     (case write_step 0 (F, W2) of None \<Rightarrow> None | Some (F, W2) \<Rightarrow> writer_turns ts (F, W1, W2))"

lemma two_writers_overwrite:
  "map_option (\<lambda>(F, W1, W2). (t_phase W1 = Done \<and> t_phase W2 = Done, t_count W1, t_count W2, fifo_bytes F, endIndex F))
     (writer_turns [True, False, False, False, False, False, True, True, True, True]
       (half_full, Ifx_Fifo_write 0 half_full [3] 1 TIME_INFINITE, Ifx_Fifo_write 0 half_full [4] 1 TIME_INFINITE)) =
   Some (True, 0, 0, [1, 2, 3, 0], 3)"
  by (simp add: half_full_def Ifx_Fifo_write_def write_step_def Ifx_Fifo_beginWrite_def Ifx_Fifo_endWrite_def
    fifo_defs Ifx_SizeT_id write8_body_def advance_index IfxStm_getDeadLine_def IfxStm_isDeadLine_def Let_def
    fifo_bytes_def seg_def upt_rec)

subsection \<open>States of the witnesses\<close>

lemma half_full_idle: "fifo_idle half_full" "fifo_bytes half_full = [1, 2]"
  by (simp_all add: fifo_idle_def fifo_ok_def half_full_def fifo_bytes_def seg_def upt_rec)

lemma half_full_turns:
  "map_option (\<lambda>(F, W, R). (t_phase W = Done \<and> t_phase R = Done, t_data R))
     (fifo_turns [True, True, True, True, True, False, False, False, False, False, False, False]
       (half_full, Ifx_Fifo_write 0 half_full [3] 1 0, Ifx_Fifo_read 0 half_full 3 0)) = Some (True, [1, 2, 3])"
  by (simp add: half_full_def Ifx_Fifo_write_def Ifx_Fifo_read_def write_step_def read_step_def
    Ifx_Fifo_beginWrite_def Ifx_Fifo_beginRead_def Ifx_Fifo_readEnd_def Ifx_Fifo_endWrite_def fifo_defs Ifx_SizeT_id
    write8_body_def read8_body_def advance_index IfxStm_getDeadLine_def IfxStm_isDeadLine_def TIME_INFINITE_def Let_def)

lemma init_between_calls:
  assumes "0 < n" and "n \<le> 0x7FF8"
  shows "between_calls (IfxAsclin_Asc_initModule m n m' n')" and "sent_bytes (IfxAsclin_Asc_initModule m n m' n') = []"
    and "fsize (tx (IfxAsclin_Asc_initModule m n m' n')) = (n + 3) div 4 * 4"
    and "\<not> txInProgress (IfxAsclin_Asc_initModule m n m' n')"
  using init_idle [OF assms, of m]
  by (simp_all add: IfxAsclin_Asc_initModule_def between_calls_def sent_bytes_def Ifx_Fifo_init_def Let_def fifo_bytes_def)

lemma stuck_unsent:
  assumes i: "console_inv ds s" and s: "stuck s"
  obtains C W r where "s = (C, FifoWrite W r)" and "0 < t_count W" and "\<not> txInProgress C" and "line C \<noteq> ds"
proof -
  obtain C W r where e: "s = (C, FifoWrite W r)" using s by (cases s) (auto simp: stuck_def split: asc_pc.splits)
  have h: "hw_tx C = []" "\<not> tx_request C" "t_phase W = Wait" using s e by (auto simp: stuck_def)
  obtain p where p: "hw_ok C (FifoWrite W r)" "pipe_ok ds p C (FifoWrite W r)" using i e by (auto simp: console_inv_def)
  have w: "0 < t_count W" "t_count W \<le> int (length (t_data W))"
    using p(2) h(3) by (auto simp: pipe_ok_def writer_ok_def transfer_ok_def)
  have "\<not> txInProgress C" using p(1) h by (auto simp: hw_ok_def)
  moreover have "todo W \<noteq> []" using w h(3) by (auto simp: todo_def)
  hence "line C \<noteq> ds" using p(2) by (auto simp: pipe_ok_def)
  ultimately show ?thesis using that e w(1) by blast
qed

definition last_byte :: console where
  "last_byte = (IfxAsclin_Asc_initModule (\<lambda>_. 0) ASC_TX_BUFFER_SIZE (\<lambda>_. 0) ASC_RX_BUFFER_SIZE)
     \<lparr>txInProgress := True, hw_tx := [65]\<rparr>"

lemma last_byte:
  "between_calls last_byte" "txInProgress last_byte" "fcount (tx last_byte) = 0" "hw_tx last_byte = [65]"
  "fsize (tx last_byte) = 64"
  using init_idle [of ASC_TX_BUFFER_SIZE "\<lambda>_. 0"]
  by (simp_all add: last_byte_def IfxAsclin_Asc_initModule_def between_calls_def ASC_TX_BUFFER_SIZE_def Ifx_Fifo_init_def Let_def)

end
