(* ===== verification/Timeouts.thy ===== *)
theory Timeouts
  imports Prelude
begin

section \<open>The timers of the network stack (Lwip/src/core/timeouts.c)\<close>

text \<open>
  The list of timers behind \<open>next_timeout\<close>, each with the time after the one before it, and the
  pool its elements come from (\<open>memp.c\<close>: the free elements, the first of which is taken next).  The
  time \<open>now\<close> that \<open>sys_now\<close> returns is an argument; the handlers are code of other parts of the stack or
  of the application: the function \<open>call\<close> on the timers and the rest of the world.  \<open>LWIP_ASSERT\<close> is the
  instruction \<open>DEBUG\<close>, which does nothing without a debugger, so the code goes on behind it.
\<close>

subsection \<open>Pools of elements\<close>

definition do_memp_malloc_pool :: "ptr list \<Rightarrow> ptr \<times> ptr list" where
  "do_memp_malloc_pool tab = (case tab of [] \<Rightarrow> (NULL, []) | memp # next \<Rightarrow> (memp, next))"

definition do_memp_free_pool :: "ptr \<Rightarrow> ptr list \<Rightarrow> ptr list" where
  "do_memp_free_pool mem tab = mem # tab"

definition memp_free_pool :: "ptr \<Rightarrow> ptr list \<Rightarrow> ptr list" where
  "memp_free_pool mem tab = (if mem = NULL then tab else do_memp_free_pool mem tab)"

primrec memp_init_elements :: "nat \<Rightarrow> ptr \<Rightarrow> u32 \<Rightarrow> ptr list \<Rightarrow> ptr list" where
  "memp_init_elements 0 memp sz tab = tab"
| "memp_init_elements (Suc n) memp sz tab = memp_init_elements n (memp + sz) sz (memp # tab)"

text \<open>\<open>num\<close> elements of \<open>sz\<close> bytes from the aligned address \<open>base\<close>.\<close>

definition memp_init_pool :: "nat \<Rightarrow> ptr \<Rightarrow> u32 \<Rightarrow> ptr list" where
  "memp_init_pool num base sz = memp_init_elements num base sz []"

subsection \<open>Setting and cancelling a timer\<close>

record sys_timeo =
  timeo_at :: ptr
  timeo_time :: u32
  timeo_h :: ptr
  timeo_arg :: ptr

record lwip_timers =
  next_timeout :: "sys_timeo list"
  timeouts_last_time :: u32
  timeo_tab :: "ptr list"
  tcpip_tcp_timer_active :: bool

definition sub_time :: "u32 \<Rightarrow> sys_timeo \<Rightarrow> sys_timeo" where
  "sub_time d t = t\<lparr>timeo_time := timeo_time t - d\<rparr>"

text \<open>The loop of \<open>sys_timeout\<close> from the element \<open>t\<close>; \<open>first\<close> is the time of the first timer.\<close>

fun insert_timeo :: "u32 \<Rightarrow> u32 \<Rightarrow> sys_timeo \<Rightarrow> sys_timeo list \<Rightarrow> sys_timeo list" where
  "insert_timeo msecs first e [] = []"
| "insert_timeo msecs first e (t # ts) =
     (let e = sub_time (timeo_time t) e in
      case ts of
        [] \<Rightarrow> [t, if timeo_time e > msecs then e\<lparr>timeo_time := msecs + first\<rparr> else e]
      | u # us \<Rightarrow>
          if timeo_time u > timeo_time e then t # e # sub_time (timeo_time e) u # us
          else t # insert_timeo msecs first e ts)"

definition sys_timeout :: "u32 \<Rightarrow> u32 \<Rightarrow> ptr \<Rightarrow> ptr \<Rightarrow> lwip_timers \<Rightarrow> lwip_timers" where
  "sys_timeout now msecs handler arg L =
     (let (timeout, tab) = do_memp_malloc_pool (timeo_tab L) in
      if timeout = NULL then L
      else
        let L = L\<lparr>timeo_tab := tab\<rparr>;
            (diff, L) = (if next_timeout L = [] then (0, L\<lparr>timeouts_last_time := now\<rparr>)
                         else (now - timeouts_last_time L, L));
            e = \<lparr>timeo_at = timeout, timeo_time = msecs + diff, timeo_h = handler, timeo_arg = arg\<rparr> in
        case next_timeout L of
          [] \<Rightarrow> L\<lparr>next_timeout := [e]\<rparr>
        | t # ts \<Rightarrow>
            if timeo_time t > msecs then L\<lparr>next_timeout := e # sub_time msecs t # ts\<rparr>
            else L\<lparr>next_timeout := insert_timeo msecs (timeo_time t) e (t # ts)\<rparr>)"

fun remove_timeo :: "ptr \<Rightarrow> ptr \<Rightarrow> sys_timeo list \<Rightarrow> (ptr \<times> sys_timeo list) option" where
  "remove_timeo handler arg [] = None"
| "remove_timeo handler arg (t # ts) =
     (if timeo_h t = handler \<and> timeo_arg t = arg then
        Some (timeo_at t, case ts of [] \<Rightarrow> [] | u # us \<Rightarrow> u\<lparr>timeo_time := timeo_time u + timeo_time t\<rparr> # us)
      else map_option (\<lambda>(p, ts). (p, t # ts)) (remove_timeo handler arg ts))"

definition sys_untimeout :: "ptr \<Rightarrow> ptr \<Rightarrow> lwip_timers \<Rightarrow> lwip_timers" where
  "sys_untimeout handler arg L =
     (case remove_timeo handler arg (next_timeout L) of
        None \<Rightarrow> L
      | Some (p, ts) \<Rightarrow> L\<lparr>next_timeout := ts, timeo_tab := memp_free_pool p (timeo_tab L)\<rparr>)"

subsection \<open>Serving the timers\<close>

partial_function (option) serve_timeouts ::
  "(ptr \<Rightarrow> ptr \<Rightarrow> lwip_timers \<times> 'w \<Rightarrow> (lwip_timers \<times> 'w) option) \<Rightarrow> u32 \<Rightarrow> lwip_timers \<times> 'w \<Rightarrow> (lwip_timers \<times> 'w) option" where
  "serve_timeouts call diff s =
     (case next_timeout (fst s) of
        [] \<Rightarrow> Some s
      | t # ts \<Rightarrow>
          if timeo_time t \<le> diff then
            do {
              let L = (fst s)\<lparr>timeouts_last_time := timeouts_last_time (fst s) + timeo_time t, next_timeout := ts\<rparr>;
              let L = L\<lparr>timeo_tab := memp_free_pool (timeo_at t) (timeo_tab L)\<rparr>;
              s \<leftarrow> (if timeo_h t \<noteq> NULL then call (timeo_h t) (timeo_arg t) (L, snd s) else Some (L, snd s));
              serve_timeouts call (diff - timeo_time t) s
            }
          else Some s)"

definition sys_check_timeouts ::
  "(ptr \<Rightarrow> ptr \<Rightarrow> lwip_timers \<times> 'w \<Rightarrow> (lwip_timers \<times> 'w) option) \<Rightarrow> u32 \<Rightarrow> lwip_timers \<times> 'w \<Rightarrow> (lwip_timers \<times> 'w) option" where
  "sys_check_timeouts call now s =
     (if next_timeout (fst s) \<noteq> [] then serve_timeouts call (now - timeouts_last_time (fst s)) s else Some s)"

definition sys_restart_timeouts :: "u32 \<Rightarrow> lwip_timers \<Rightarrow> lwip_timers" where
  "sys_restart_timeouts now L = L\<lparr>timeouts_last_time := now\<rparr>"

definition sys_timeouts_sleeptime :: "u32 \<Rightarrow> lwip_timers \<Rightarrow> u32" where
  "sys_timeouts_sleeptime now L =
     (case next_timeout L of
        [] \<Rightarrow> 0xffffffff
      | t # ts \<Rightarrow> let diff = now - timeouts_last_time L in if diff > timeo_time t then 0 else timeo_time t - diff)"

subsection \<open>The timers of the stack itself\<close>

text \<open>
  With this configuration the cyclic timers are those of ARP and IGMP, after the one of TCP, which
  starts on demand.  \<open>tcp_tmr\<close> and the \<open>handler\<close> of a cyclic timer work on the timers and the rest of the
  world \<open>w\<close>, of which \<open>clock w\<close> is the time and \<open>pcbs w\<close> says whether there are active or waiting connections;
  \<open>h\<close> is the address of the function itself, \<open>entry i\<close> the address of the entry of the table.
\<close>

definition TCP_TMR_INTERVAL :: u32 where "TCP_TMR_INTERVAL = 250"
definition ARP_TMR_INTERVAL :: u32 where "ARP_TMR_INTERVAL = 1000"
definition IGMP_TMR_INTERVAL :: u32 where "IGMP_TMR_INTERVAL = 100"

definition lwip_cyclic_timers :: "u32 list" where
  "lwip_cyclic_timers = [TCP_TMR_INTERVAL, ARP_TMR_INTERVAL, IGMP_TMR_INTERVAL]"

definition tcpip_tcp_timer :: "(lwip_timers \<times> 'w \<Rightarrow> (lwip_timers \<times> 'w) option) \<Rightarrow> ('w \<Rightarrow> u32) \<Rightarrow> ('w \<Rightarrow> bool) \<Rightarrow>
    ptr \<Rightarrow> lwip_timers \<times> 'w \<Rightarrow> (lwip_timers \<times> 'w) option" where
  "tcpip_tcp_timer tcp_tmr clock pcbs h s =
     do {
       (L, w) \<leftarrow> tcp_tmr s;
       Some (if pcbs w then sys_timeout (clock w) TCP_TMR_INTERVAL h NULL L else L\<lparr>tcpip_tcp_timer_active := False\<rparr>, w)
     }"

definition tcp_timer_needed :: "u32 \<Rightarrow> bool \<Rightarrow> ptr \<Rightarrow> lwip_timers \<Rightarrow> lwip_timers" where
  "tcp_timer_needed now pcbs h L =
     (if \<not> tcpip_tcp_timer_active L \<and> pcbs then
        (let L = L\<lparr>tcpip_tcp_timer_active := True\<rparr> in sys_timeout now TCP_TMR_INTERVAL h NULL L)
      else L)"

definition cyclic_timer :: "(lwip_timers \<times> 'w \<Rightarrow> (lwip_timers \<times> 'w) option) \<Rightarrow> ('w \<Rightarrow> u32) \<Rightarrow> u32 \<Rightarrow>
    ptr \<Rightarrow> ptr \<Rightarrow> lwip_timers \<times> 'w \<Rightarrow> (lwip_timers \<times> 'w) option" where
  "cyclic_timer handler clock interval_ms h arg s =
     do { (L, w) \<leftarrow> handler s; Some (sys_timeout (clock w) interval_ms h arg L, w) }"

definition sys_timeouts_init :: "u32 \<Rightarrow> ptr \<Rightarrow> (nat \<Rightarrow> ptr) \<Rightarrow> lwip_timers \<Rightarrow> lwip_timers" where
  "sys_timeouts_init now h entry L =
     (fold (\<lambda>i L. sys_timeout now (lwip_cyclic_timers ! i) h (entry i) L) [1..<length lwip_cyclic_timers] L)
       \<lparr>timeouts_last_time := now\<rparr>"

end
