(* ===== verification/SysArch.thy ===== *)
theory SysArch
  imports QueueCreate Tasks Port Timeouts
begin

section \<open>The network stack on the kernel (Lwip/port/sys/sys_arch_freertos.c, timeouts.c)\<close>

text \<open>
  Mailboxes, semaphores and mutexes of the stack are queues of the kernel.  A call that may block runs
  in steps: the place where it stands (\<open>mbox_pc\<close> and so on) and one pass of the loop of the queue
  function, between two of which other tasks run.  \<open>amsg\<close> is the address of the variable that holds the
  message or receives it.  What stands between \<open>portENTER_CRITICAL\<close> and \<open>portEXIT_CRITICAL\<close> is one step.
\<close>

subsection \<open>Time\<close>

definition portTICK_PERIOD_MS :: u32 where "portTICK_PERIOD_MS = 1000 div 1000"

definition TICK_TO_MSEC :: "u32 \<Rightarrow> u32" where
  "TICK_TO_MSEC n = n * portTICK_PERIOD_MS"

definition pdMS_TO_TICKS :: "u32 \<Rightarrow> u32" where
  "pdMS_TO_TICKS xTimeInMs = xTimeInMs * 1000 div 1000"

definition get_time_ms :: "sys \<Rightarrow> u32" where
  "get_time_ms s =
     (let n = (if ICR (cpu (kern s)) AND portCCPN_MASK \<noteq> 0 then xTaskGetTickCountFromISR (kern s) else xTaskGetTickCount (kern s))
      in TICK_TO_MSEC n)"

definition sys_now :: "sys \<Rightarrow> u32" where
  "sys_now s = get_time_ms s"

definition get_elapsed_time :: "u32 \<Rightarrow> sys \<Rightarrow> u32" where
  "get_elapsed_time startTime s =
     (let elapsed = sys_now s - startTime in if elapsed = 0 then 1 else elapsed)"

definition SYS_ARCH_TIMEOUT :: u32 where "SYS_ARCH_TIMEOUT = 0xffffffff"
definition SYS_MBOX_EMPTY :: u32 where "SYS_MBOX_EMPTY = SYS_ARCH_TIMEOUT"

datatype err_t = ERR_OK | ERR_MEM

definition check_synchronization_value :: "ptr \<Rightarrow> err_t" where
  "check_synchronization_value x = (if x = NULL then ERR_MEM else ERR_OK)"

subsection \<open>Mailboxes\<close>

definition sys_mbox_new :: "u32 \<Rightarrow> sys \<Rightarrow> (err_t \<times> ptr \<times> sys) option" where
  "sys_mbox_new n s = do { (mbox, s) \<leftarrow> xQueueGenericCreate n 4 s; Some (ERR_OK, mbox, s) }"

definition sys_mbox_free :: "ptr \<Rightarrow> sys \<Rightarrow> sys option" where
  "sys_mbox_free mbox s = do { n \<leftarrow> uxQueueMessagesWaiting mbox s; vQueueDelete mbox s }"

definition sys_mbox_valid :: "ptr \<Rightarrow> bool" where
  "sys_mbox_valid mbox = (mbox \<noteq> NULL)"

definition store_msg :: "ptr \<Rightarrow> ptr \<Rightarrow> sys \<Rightarrow> sys" where
  "store_msg amsg msg s = s\<lparr>mem := put_bytes amsg (word_bytes msg) (mem s)\<rparr>"

datatype post_pc = PostCall | PostAgain u32 TimeOut_t | PostDone

fun post_next :: "outcome \<Rightarrow> post_pc option" where
  "post_next (Return b) = Some (if b then PostDone else PostCall)"
| "post_next (Again w t) = Some (PostAgain w t)"
| "post_next _ = None"

definition sys_mbox_post :: "ptr \<Rightarrow> ptr \<Rightarrow> sys \<Rightarrow> post_pc \<times> sys" where
  "sys_mbox_post amsg msg s = (PostCall, store_msg amsg msg s)"

fun post_step :: "ptr \<Rightarrow> ptr \<Rightarrow> post_pc \<times> sys \<Rightarrow> (post_pc \<times> sys) option" where
  "post_step mbox amsg (PostCall, s) =
     do { (r, s) \<leftarrow> xQueueGenericSend mbox amsg 10000 queueSEND_TO_BACK s; pc \<leftarrow> post_next r; Some (pc, s) }"
| "post_step mbox amsg (PostAgain w t, s) =
     do { (r, s) \<leftarrow> send_pass mbox amsg queueSEND_TO_BACK w (Some t) s; pc \<leftarrow> post_next r; Some (pc, s) }"
| "post_step mbox amsg (PostDone, s) = None"

definition sys_mbox_trypost :: "ptr \<Rightarrow> ptr \<Rightarrow> ptr \<Rightarrow> sys \<Rightarrow> (err_t \<times> sys) option" where
  "sys_mbox_trypost mbox amsg msg s =
     do { (r, s) \<leftarrow> xQueueGenericSend mbox amsg 0 queueSEND_TO_BACK (store_msg amsg msg s); Some (ERR_OK, s) }"

text \<open>
  \<open>FetchGot st\<close>: the message is there, the elapsed time since \<open>st\<close> is not yet read; \<open>FetchExpired\<close>: the time is
  over, and the queue is looked at once more.
\<close>

datatype fetch_pc =
    FetchCall u32
  | FetchAgain u32 u32 TimeOut_t
  | FetchExpired u32 u32 TimeOut_t
  | FetchGot u32
  | FetchDone u32

definition fetch_next :: "ptr \<Rightarrow> u32 \<Rightarrow> u32 \<Rightarrow> outcome \<Rightarrow> sys \<Rightarrow> (fetch_pc \<times> sys) option" where
  "fetch_next amsg timeout st r s =
     (case r of
        Return True \<Rightarrow> Some (FetchGot st, s)
      | Return False \<Rightarrow>
          if timeout \<noteq> 0 then Some (FetchDone SYS_ARCH_TIMEOUT, store_msg amsg NULL s) else Some (FetchCall st, s)
      | Again w t \<Rightarrow> Some (FetchAgain st w t, s)
      | Expired w t \<Rightarrow> Some (FetchExpired st w t, s)
      | Leave w t \<Rightarrow> None)"

definition sys_arch_mbox_fetch :: "sys \<Rightarrow> fetch_pc" where
  "sys_arch_mbox_fetch s = FetchCall (sys_now s)"

fun fetch_step :: "ptr \<Rightarrow> ptr \<Rightarrow> u32 \<Rightarrow> fetch_pc \<times> sys \<Rightarrow> (fetch_pc \<times> sys) option" where
  "fetch_step mbox amsg timeout (FetchCall st, s) =
     do {
       (r, s) \<leftarrow> xQueueReceive mbox amsg (if timeout \<noteq> 0 then pdMS_TO_TICKS timeout else 10000) s;
       fetch_next amsg timeout st r s
     }"
| "fetch_step mbox amsg timeout (FetchAgain st w t, s) =
     do { (r, s) \<leftarrow> receive_pass mbox amsg w (Some t) s; fetch_next amsg timeout st r s }"
| "fetch_step mbox amsg timeout (FetchExpired st w t, s) =
     fetch_next amsg timeout st (receive_expired mbox w t s) s"
| "fetch_step mbox amsg timeout (FetchGot st, s) = Some (FetchDone (get_elapsed_time st s), s)"
| "fetch_step mbox amsg timeout (FetchDone r, s) = None"

definition sys_arch_mbox_tryfetch :: "ptr \<Rightarrow> ptr \<Rightarrow> sys \<Rightarrow> (u32 \<times> sys) option" where
  "sys_arch_mbox_tryfetch mbox amsg s =
     do {
       (r, s) \<leftarrow> xQueueReceive mbox amsg 0 s;
       Some (if r = Return True then (0, s) else (SYS_MBOX_EMPTY, store_msg amsg NULL s))
     }"

subsection \<open>Semaphores and mutexes\<close>

definition sys_sem_new :: "u8 \<Rightarrow> sys \<Rightarrow> (err_t \<times> ptr \<times> sys) option" where
  "sys_sem_new count s =
     do { (sem, s) \<leftarrow> xQueueGenericCreate 1 0 s; Some (check_synchronization_value sem, sem, s) }"

definition sys_sem_free :: "ptr \<Rightarrow> sys \<Rightarrow> sys option" where
  "sys_sem_free sem s = vQueueDelete sem s"

definition sys_sem_valid :: "ptr \<Rightarrow> bool" where
  "sys_sem_valid sem = (sem \<noteq> NULL)"

definition sys_sem_signal :: "ptr \<Rightarrow> sys \<Rightarrow> sys option" where
  "sys_sem_signal sem s = do { (r, s) \<leftarrow> xQueueGenericSend sem NULL 0 queueSEND_TO_BACK s; Some s }"

definition sys_mutex_new :: "sys \<Rightarrow> (err_t \<times> ptr \<times> sys) option" where
  "sys_mutex_new s = do { (mutex, s) \<leftarrow> xQueueCreateMutex s; Some (check_synchronization_value mutex, mutex, s) }"

definition sys_mutex_free :: "ptr \<Rightarrow> sys \<Rightarrow> sys option" where
  "sys_mutex_free mutex s = vQueueDelete mutex s"

definition sys_mutex_unlock :: "ptr \<Rightarrow> sys \<Rightarrow> sys option" where
  "sys_mutex_unlock mutex s = do { (r, s) \<leftarrow> xQueueGenericSend mutex NULL 0 queueSEND_TO_BACK s; Some s }"

text \<open>One call of \<open>xSemaphoreTake\<close> in steps, and the loops around it.\<close>

datatype take_pc =
    TakeCall
  | TakeRun u32 TimeOut_t bool
  | TakeLate u32 TimeOut_t bool
  | TakeRet bool

fun take_next :: "take_outcome \<Rightarrow> take_pc option" where
  "take_next (Took b) = Some (TakeRet b)"
| "take_next (TakeAgain w t i) = Some (TakeRun w t i)"
| "take_next (TakeExpired w t i) = Some (TakeLate w t i)"
| "take_next (TakeLeave w t) = None"

fun take_step :: "ptr \<Rightarrow> u32 \<Rightarrow> take_pc \<times> sys \<Rightarrow> (take_pc \<times> sys) option" where
  "take_step q xTicksToWait (TakeCall, s) =
     do { (r, s) \<leftarrow> xQueueSemaphoreTake q xTicksToWait s; pc \<leftarrow> take_next r; Some (pc, s) }"
| "take_step q xTicksToWait (TakeRun w t i, s) =
     do { (r, s) \<leftarrow> take_pass q w (Some t) i s; pc \<leftarrow> take_next r; Some (pc, s) }"
| "take_step q xTicksToWait (TakeLate w t i, s) =
     do { (r, s) \<leftarrow> take_expired q w t i s; pc \<leftarrow> take_next r; Some (pc, s) }"
| "take_step q xTicksToWait (TakeRet b, s) = None"

datatype sem_pc = SemTake u32 take_pc | SemGot u32 | SemDone u32

definition sys_arch_sem_wait :: "sys \<Rightarrow> sem_pc" where
  "sys_arch_sem_wait s = SemTake (sys_now s) TakeCall"

fun sem_step :: "ptr \<Rightarrow> u32 \<Rightarrow> sem_pc \<times> sys \<Rightarrow> (sem_pc \<times> sys) option" where
  "sem_step sem timeout (SemTake st (TakeRet b), s) =
     Some (if b then SemGot st else if timeout \<noteq> 0 then SemDone SYS_ARCH_TIMEOUT else SemTake st TakeCall, s)"
| "sem_step sem timeout (SemTake st pc, s) =
     do {
       (pc, s) \<leftarrow> take_step sem (if timeout \<noteq> 0 then pdMS_TO_TICKS timeout else 10000) (pc, s);
       Some (SemTake st pc, s)
     }"
| "sem_step sem timeout (SemGot st, s) = Some (SemDone (get_elapsed_time st s), s)"
| "sem_step sem timeout (SemDone r, s) = None"

text \<open>\<open>sys_mutex_lock\<close>: \<open>TakeRet True\<close> is its end.\<close>

fun lock_step :: "ptr \<Rightarrow> take_pc \<times> sys \<Rightarrow> (take_pc \<times> sys) option" where
  "lock_step mutex (TakeRet b, s) = (if b then None else Some (TakeCall, s))"
| "lock_step mutex (pc, s) = take_step mutex portMAX_DELAY (pc, s)"

subsection \<open>Threads and protection\<close>

text \<open>\<open>h\<close> is the address of the local variable \<open>taskHandler\<close>.\<close>

definition sys_thread_new :: "ptr \<Rightarrow> ptr \<Rightarrow> ptr \<Rightarrow> u32 \<Rightarrow> u32 \<Rightarrow> ptr \<Rightarrow> sys \<Rightarrow> (ptr \<times> sys) option" where
  "sys_thread_new name function arg stacksize n h s =
     do {
       (r, s) \<leftarrow> xTaskCreate function name (ucast stacksize) arg n (HandleAt h) s;
       Some (if r = pdPASS then bytes_word (bytes h 4 (mem s)) else 0, s)
     }"

definition sys_arch_protect :: "sys \<Rightarrow> u32 \<times> sys" where
  "sys_arch_protect s = (1, s\<lparr>kern := vTaskEnterCritical (kern s)\<rparr>)"

definition sys_arch_unprotect :: "u32 \<Rightarrow> sys \<Rightarrow> sys" where
  "sys_arch_unprotect pval s = s\<lparr>kern := vTaskExitCritical (kern s)\<rparr>"

subsection \<open>Waiting for a message while timers run\<close>

text \<open>
  \<open>sys_timeouts_mbox_fetch\<close>: \<open>TmStart\<close> is the label \<open>again\<close>, \<open>TmFetch\<close> a running \<open>sys_arch_mbox_fetch\<close> with its
  time limit, \<open>TmCheck\<close> the call of \<open>sys_check_timeouts\<close>.
\<close>

datatype tm_pc = TmStart | TmFetch u32 fetch_pc | TmCheck | TmDone

fun tm_step ::
  "(ptr \<Rightarrow> ptr \<Rightarrow> lwip_timers \<times> sys \<Rightarrow> (lwip_timers \<times> sys) option) \<Rightarrow> ptr \<Rightarrow> ptr \<Rightarrow>
    tm_pc \<times> lwip_timers \<times> sys \<Rightarrow> (tm_pc \<times> lwip_timers \<times> sys) option" where
  "tm_step call mbox amsg (TmStart, L, s) =
     Some (if next_timeout L = [] then TmFetch 0 (sys_arch_mbox_fetch s)
           else let sleeptime = sys_timeouts_sleeptime (sys_now s) L in
             if sleeptime = 0 then TmCheck else TmFetch sleeptime (sys_arch_mbox_fetch s), L, s)"
| "tm_step call mbox amsg (TmFetch timeout (FetchDone r), L, s) =
     Some (if timeout \<noteq> 0 \<and> r = SYS_ARCH_TIMEOUT then TmCheck else TmDone, L, s)"
| "tm_step call mbox amsg (TmFetch timeout pc, L, s) =
     do { (pc, s) \<leftarrow> fetch_step mbox amsg timeout (pc, s); Some (TmFetch timeout pc, L, s) }"
| "tm_step call mbox amsg (TmCheck, L, s) =
     do { (L, s) \<leftarrow> sys_check_timeouts call (sys_now s) (L, s); Some (TmStart, L, s) }"
| "tm_step call mbox amsg (TmDone, L, s) = None"

end
