(* ===== verification/TimeoutsSpec.thy ===== *)
theory TimeoutsSpec
  imports Timeouts
begin

section \<open>What the timers of the network stack promise\<close>

text \<open>
  The list in absolute terms: for each timer the milliseconds from \<open>timeouts_last_time\<close>, or rather from \<open>n\<close>,
  to the moment it is due, with what it calls.
\<close>

type_synonym alarm = "nat \<times> ptr \<times> ptr"

fun alarms_from :: "nat \<Rightarrow> sys_timeo list \<Rightarrow> alarm list" where
  "alarms_from n [] = []"
| "alarms_from n (t # ts) = (n + unat (timeo_time t), timeo_h t, timeo_arg t) # alarms_from (n + unat (timeo_time t)) ts"

definition alarms :: "lwip_timers \<Rightarrow> alarm list" where
  "alarms L = alarms_from 0 (next_timeout L)"

definition insert_alarm :: "alarm \<Rightarrow> alarm list \<Rightarrow> alarm list" where
  "insert_alarm a as = takeWhile (\<lambda>b. fst b \<le> fst a) as @ a # dropWhile (\<lambda>b. fst b \<le> fst a) as"

definition later :: "nat \<Rightarrow> alarm \<Rightarrow> alarm" where
  "later d = (\<lambda>(n, c). (n + d, c))"

lemma alarms_from_add: "alarms_from (n + d) ts = map (later d) (alarms_from n ts)"
  by (induction ts arbitrary: n) (simp_all add: later_def ac_simps flip: add.assoc, metis add.commute add.left_commute)

lemma alarms_from_ge: "a \<in> set (alarms_from n ts) \<Longrightarrow> n \<le> fst a"
  by (induction ts arbitrary: n) (auto dest: add_leD1)

lemma length_alarms [simp]: "length (alarms_from n ts) = length ts"
  by (induction ts arbitrary: n) auto

lemma alarms_sorted: "sorted (map fst (alarms_from n ts))"
  by (induction ts arbitrary: n) (auto dest: alarms_from_ge)

lemma insert_alarm_simps:
  "insert_alarm a [] = [a]"
  "insert_alarm a (b # bs) = (if fst b \<le> fst a then b # insert_alarm a bs else a # b # bs)"
  by (simp_all add: insert_alarm_def)

definition total :: "sys_timeo list \<Rightarrow> nat" where
  "total ts = (\<Sum>t\<leftarrow>ts. unat (timeo_time t))"

lemma total_simps [simp]: "total [] = 0" "total (t # ts) = unat (timeo_time t) + total ts"
  by (simp_all add: total_def)

lemma alarms_le_total: "a \<in> set (alarms_from n ts) \<Longrightarrow> fst a \<le> n + total ts"
  by (induction ts arbitrary: n) (fastforce simp: add.assoc)+

subsection \<open>Setting\<close>

lemma insert_timeo_alarms:
  assumes "ts \<noteq> []" and "timeo_time (hd ts) \<le> timeo_time e" and "unat (timeo_time e) \<le> unat msecs + total ts"
  shows "alarms_from n (insert_timeo msecs first e ts) =
    insert_alarm (n + unat (timeo_time e), timeo_h e, timeo_arg e) (alarms_from n ts)"
  using assms
proof (induction msecs first e ts arbitrary: n rule: insert_timeo.induct)
  case (2 msecs first e t ts)
  let ?e = "sub_time (timeo_time t) e"
  have te: "unat (timeo_time t) \<le> unat (timeo_time e)" using 2(3) by (simp add: word_le_nat_alt)
  have e: "unat (timeo_time ?e) = unat (timeo_time e) - unat (timeo_time t)" "timeo_h ?e = timeo_h e" "timeo_arg ?e = timeo_arg e"
    using 2(3) by (simp_all add: sub_time_def unat_sub)
  show ?case
  proof (cases ts)
    case Nil
    hence "\<not> timeo_time ?e > msecs" using 2(4) e te by (simp add: word_less_nat_alt)
    thus ?thesis using Nil e te by (simp add: insert_alarm_simps Let_def)
  next
    case (Cons u us)
    show ?thesis
    proof (cases "timeo_time u > timeo_time ?e")
      case True
      hence u: "unat (timeo_time (sub_time (timeo_time ?e) u)) = unat (timeo_time u) - unat (timeo_time ?e)"
        "unat (timeo_time ?e) < unat (timeo_time u)"
        using True unat_sub [OF less_imp_le [OF True]] by (simp_all add: sub_time_def word_less_nat_alt)
      moreover have "timeo_h (sub_time (timeo_time ?e) u) = timeo_h u" "timeo_arg (sub_time (timeo_time ?e) u) = timeo_arg u"
        by (simp_all add: sub_time_def)
      moreover have "n + unat (timeo_time e) + (unat (timeo_time u) - (unat (timeo_time e) - unat (timeo_time t))) =
          n + unat (timeo_time t) + unat (timeo_time u)" "\<not> unat (timeo_time t) + unat (timeo_time u) \<le> unat (timeo_time e)"
        using calculation(2) e(1) te by auto
      ultimately show ?thesis using True Cons e te by (simp add: insert_alarm_simps Let_def del: diff_diff_right diff_diff_left)
    next
      case False
      have "alarms_from (n + unat (timeo_time t)) (insert_timeo msecs first ?e ts) =
        insert_alarm (n + unat (timeo_time t) + unat (timeo_time ?e), timeo_h ?e, timeo_arg ?e)
          (alarms_from (n + unat (timeo_time t)) ts)"
        using 2(1)[OF refl Cons False, of "n + unat (timeo_time t)"] Cons False 2(4) e te by simp
      thus ?thesis using Cons False e te by (simp add: insert_alarm_simps Let_def)
    qed
  qed
qed simp

text \<open>What a timer set at \<open>now\<close> for \<open>msecs\<close> is, as an alarm.\<close>

definition new_alarm :: "u32 \<Rightarrow> u32 \<Rightarrow> ptr \<Rightarrow> ptr \<Rightarrow> lwip_timers \<Rightarrow> alarm" where
  "new_alarm now msecs h a L = (unat msecs + unat (now - timeouts_last_time L), h, a)"

lemma sys_timeout_idle:
  assumes "timeo_tab L = m # ms" and "m \<noteq> NULL" and "next_timeout L = []"
  shows "sys_timeout now msecs h a L = L\<lparr>timeo_tab := ms, timeouts_last_time := now,
    next_timeout := [\<lparr>timeo_at = m, timeo_time = msecs, timeo_h = h, timeo_arg = a\<rparr>]\<rparr>"
  using assms by (simp add: sys_timeout_def do_memp_malloc_pool_def Let_def)

theorem sys_timeout_alarms:
  assumes m: "timeo_tab L = m # ms" "m \<noteq> NULL" and n: "next_timeout L = t # ts"
    and o: "unat msecs + unat (now - timeouts_last_time L) < 2 ^ 32"
    and l: "unat (now - timeouts_last_time L) \<le> total (t # ts)"
    and f: "timeo_time t \<le> msecs \<or> now = timeouts_last_time L"
  shows "alarms (sys_timeout now msecs h a L) = insert_alarm (new_alarm now msecs h a L) (alarms L)"
    and "timeouts_last_time (sys_timeout now msecs h a L) = timeouts_last_time L"
    and "timeo_tab (sys_timeout now msecs h a L) = ms"
proof -
  let ?d = "now - timeouts_last_time L"
  define e where "e = \<lparr>timeo_at = m, timeo_time = msecs + ?d, timeo_h = h, timeo_arg = a\<rparr>"
  have e: "unat (timeo_time e) = unat msecs + unat ?d" "timeo_h e = h" "timeo_arg e = a"
    using o by (simp_all add: e_def unat_word_ariths)
  have s: "sys_timeout now msecs h a L = L\<lparr>timeo_tab := ms, next_timeout :=
     (if timeo_time t > msecs then e # sub_time msecs t # ts else insert_timeo msecs (timeo_time t) e (t # ts))\<rparr>"
    using m n by (simp add: sys_timeout_def do_memp_malloc_pool_def Let_def e_def)
  thus "timeouts_last_time (sys_timeout now msecs h a L) = timeouts_last_time L"
    and "timeo_tab (sys_timeout now msecs h a L) = ms" by simp_all
  show "alarms (sys_timeout now msecs h a L) = insert_alarm (new_alarm now msecs h a L) (alarms L)"
  proof (cases "timeo_time t > msecs")
    case True
    with f have "now = timeouts_last_time L" by auto
    moreover have "unat (timeo_time (sub_time msecs t)) = unat (timeo_time t) - unat msecs" "unat msecs < unat (timeo_time t)"
      using True unat_sub [OF less_imp_le [OF True]] by (simp_all add: sub_time_def word_less_nat_alt)
    moreover have "timeo_h (sub_time msecs t) = timeo_h t" "timeo_arg (sub_time msecs t) = timeo_arg t"
      by (simp_all add: sub_time_def)
    ultimately show ?thesis using True n e s by (simp add: alarms_def new_alarm_def insert_alarm_simps)
  next
    case False
    have "timeo_time (hd (t # ts)) \<le> timeo_time e" using False e(1) by (simp add: word_le_nat_alt word_less_nat_alt)
    moreover have "unat (timeo_time e) \<le> unat msecs + total (t # ts)" using e(1) l by simp
    ultimately have "alarms_from 0 (insert_timeo msecs (timeo_time t) e (t # ts)) =
        insert_alarm (0 + unat (timeo_time e), timeo_h e, timeo_arg e) (alarms_from 0 (t # ts))"
      by (intro insert_timeo_alarms) simp
    thus ?thesis using False n e s by (simp add: alarms_def new_alarm_def)
  qed
qed

text \<open>
  A list that was not served for so long that its last timer is overdue too: the new timer comes behind it, and is
  due \<open>msecs\<close> and the time of the first timer after it, whatever \<open>now\<close> is.
\<close>

lemma insert_timeo_late:
  assumes "ts \<noteq> []" and "unat msecs + total ts < unat (timeo_time e)" and "unat msecs + unat first < 2 ^ 32"
  shows "alarms_from n (insert_timeo msecs first e ts) =
    alarms_from n ts @ [(n + total ts + unat msecs + unat first, timeo_h e, timeo_arg e)]"
  using assms
proof (induction msecs first e ts arbitrary: n rule: insert_timeo.induct)
  case (2 msecs first e t ts)
  let ?e = "sub_time (timeo_time t) e"
  have "timeo_time t \<le> timeo_time e" using 2(3) by (simp add: word_le_nat_alt)
  hence e: "unat (timeo_time ?e) = unat (timeo_time e) - unat (timeo_time t)" "timeo_h ?e = timeo_h e" "timeo_arg ?e = timeo_arg e"
    by (simp_all add: sub_time_def unat_sub)
  hence m: "unat msecs + total ts < unat (timeo_time ?e)" using 2(3) by simp
  show ?case
  proof (cases ts)
    case Nil
    have "timeo_time ?e > msecs" using m by (simp add: word_less_nat_alt)
    thus ?thesis using Nil e 2(4) by (simp add: Let_def unat_word_ariths)
  next
    case (Cons u us)
    hence f: "\<not> timeo_time u > timeo_time ?e" using m by (simp add: word_less_nat_alt)
    have "alarms_from (n + unat (timeo_time t)) (insert_timeo msecs first ?e ts) =
        alarms_from (n + unat (timeo_time t)) ts @
        [(n + unat (timeo_time t) + total ts + unat msecs + unat first, timeo_h ?e, timeo_arg ?e)]"
      using 2(1) [OF refl Cons f] Cons m 2(4) by simp
    thus ?thesis using Cons f e by (simp add: Let_def)
  qed
qed simp

lemma alarms_from_empty [simp]: "alarms_from n ts = [] \<longleftrightarrow> ts = []"
  by (cases ts) auto

lemma last_alarm: "next_timeout L \<noteq> [] \<Longrightarrow> fst (last (alarms L)) = total (next_timeout L)"
proof -
  have "ts \<noteq> [] \<Longrightarrow> fst (last (alarms_from n ts)) = n + total ts" for n ts
    by (induction ts arbitrary: n) (auto simp: add.assoc)
  thus "next_timeout L \<noteq> [] \<Longrightarrow> fst (last (alarms L)) = total (next_timeout L)" by (simp add: alarms_def)
qed

theorem sys_timeout_late:
  assumes m: "timeo_tab L = m # ms" "m \<noteq> NULL" and n: "next_timeout L = t # ts"
    and o: "unat msecs + unat (now - timeouts_last_time L) < 2 ^ 32"
    and l: "total (t # ts) < unat (now - timeouts_last_time L)" and f: "timeo_time t \<le> msecs"
  shows "alarms (sys_timeout now msecs h a L) = alarms L @ [(total (t # ts) + unat msecs + unat (timeo_time t), h, a)]"
    and "timeouts_last_time (sys_timeout now msecs h a L) = timeouts_last_time L"
    and "timeo_tab (sys_timeout now msecs h a L) = ms"
proof -
  define e where "e = \<lparr>timeo_at = m, timeo_time = msecs + (now - timeouts_last_time L), timeo_h = h, timeo_arg = a\<rparr>"
  have e: "unat (timeo_time e) = unat msecs + unat (now - timeouts_last_time L)" "timeo_h e = h" "timeo_arg e = a"
    using o by (simp_all add: e_def unat_word_ariths)
  have s: "sys_timeout now msecs h a L = L\<lparr>timeo_tab := ms, next_timeout := insert_timeo msecs (timeo_time t) e (t # ts)\<rparr>"
    using m n f by (simp add: sys_timeout_def do_memp_malloc_pool_def Let_def e_def)
  have "unat msecs + unat (timeo_time t) < 2 ^ 32" using o l by simp
  hence "alarms_from 0 (insert_timeo msecs (timeo_time t) e (t # ts)) =
      alarms_from 0 (t # ts) @ [(0 + total (t # ts) + unat msecs + unat (timeo_time t), timeo_h e, timeo_arg e)]"
    using e(1) l by (intro insert_timeo_late) simp_all
  thus "alarms (sys_timeout now msecs h a L) = alarms L @ [(total (t # ts) + unat msecs + unat (timeo_time t), h, a)]"
    using n e s by (simp add: alarms_def)
  show "timeouts_last_time (sys_timeout now msecs h a L) = timeouts_last_time L"
    and "timeo_tab (sys_timeout now msecs h a L) = ms" using s by simp_all
qed

text \<open>
  A timer set before the first one while time has passed since \<open>timeouts_last_time\<close>: the new timer is right,
  but all others are due later than before by the time that has passed.
\<close>

theorem sys_timeout_in_front:
  assumes m: "timeo_tab L = m # ms" "m \<noteq> NULL" and n: "next_timeout L = t # ts" and f: "timeo_time t > msecs"
    and o: "unat msecs + unat (now - timeouts_last_time L) < 2 ^ 32"
  shows "alarms (sys_timeout now msecs h a L) =
    new_alarm now msecs h a L # map (later (unat (now - timeouts_last_time L))) (alarms L)"
proof -
  let ?d = "now - timeouts_last_time L"
  have e: "unat (msecs + ?d) = unat msecs + unat ?d" using o by (simp add: unat_word_ariths)
  have t: "unat (timeo_time (sub_time msecs t)) = unat (timeo_time t) - unat msecs" "unat msecs < unat (timeo_time t)"
    using f unat_sub [OF less_imp_le [OF f]] by (simp_all add: sub_time_def word_less_nat_alt)
  have c: "timeo_h (sub_time msecs t) = timeo_h t" "timeo_arg (sub_time msecs t) = timeo_arg t"
    by (simp_all add: sub_time_def)
  have "alarms_from (unat (timeo_time t) + unat ?d) ts = map (later (unat ?d)) (alarms_from (unat (timeo_time t)) ts)"
    by (rule alarms_from_add)
  thus ?thesis using m n f e t c
    by (simp add: sys_timeout_def do_memp_malloc_pool_def Let_def alarms_def new_alarm_def later_def ac_simps)
qed

subsection \<open>Cancelling\<close>

fun cancel :: "ptr \<Rightarrow> ptr \<Rightarrow> alarm list \<Rightarrow> alarm list" where
  "cancel h a [] = []"
| "cancel h a (b # bs) = (if snd b = (h, a) then bs else b # cancel h a bs)"

lemma remove_timeo_alarms:
  assumes "remove_timeo h a ts = Some (p, us)" and "total ts < 2 ^ 32"
  shows "alarms_from n us = cancel h a (alarms_from n ts)" and "total us \<le> total ts"
    and "p \<in> timeo_at ` set ts"
proof -
  have "alarms_from n us = cancel h a (alarms_from n ts) \<and> total us \<le> total ts \<and> p \<in> timeo_at ` set ts"
    using assms
  proof (induction ts arbitrary: n us)
    case (Cons t ts)
    show ?case
    proof (cases "timeo_h t = h \<and> timeo_arg t = a")
      case True
      show ?thesis
      proof (cases ts)
        case (Cons u us')
        have "unat (timeo_time u + timeo_time t) = unat (timeo_time u) + unat (timeo_time t)"
          using Cons.prems(2) Cons by (simp add: unat_word_ariths)
        thus ?thesis using Cons.prems(1) True Cons by (auto simp: ac_simps)
      qed (use Cons.prems(1) True in auto)
    next
      case False
      then obtain us' where "remove_timeo h a ts = Some (p, us')" "us = t # us'" using Cons.prems(1) by auto
      with Cons.IH [of us' "n + unat (timeo_time t)"] Cons.prems(2) False show ?thesis by auto
    qed
  qed simp
  thus "alarms_from n us = cancel h a (alarms_from n ts)" and "total us \<le> total ts" and "p \<in> timeo_at ` set ts" by auto
qed

lemma remove_timeo_none: "remove_timeo h a ts = None \<Longrightarrow> cancel h a (alarms_from n ts) = alarms_from n ts"
  by (induction ts arbitrary: n) (auto split: if_splits)

theorem sys_untimeout_alarms:
  assumes "total (next_timeout L) < 2 ^ 32"
  shows "alarms (sys_untimeout h a L) = cancel h a (alarms L)"
    and "timeouts_last_time (sys_untimeout h a L) = timeouts_last_time L"
  using assms remove_timeo_alarms(1) remove_timeo_none
  by (auto simp: sys_untimeout_def alarms_def split: option.splits prod.splits)

subsection \<open>Serving\<close>

definition alarm_due :: "u32 \<Rightarrow> alarm \<Rightarrow> bool" where
  "alarm_due diff a \<longleftrightarrow> fst a \<le> unat diff"

fun call_alarm :: "(ptr \<Rightarrow> ptr \<Rightarrow> 'w \<Rightarrow> 'w) \<Rightarrow> alarm \<Rightarrow> 'w \<Rightarrow> 'w" where
  "call_alarm f (n, h, a) w = (if h \<noteq> NULL then f h a w else w)"

lemma call_alarm_later: "call_alarm f (later d b) = call_alarm f b"
  by (cases b) (auto simp: later_def fun_eq_iff)

lemma take_alarm_due:
  assumes "d \<le> diff"
  shows "takeWhile (alarm_due diff) (map (later (unat d)) as) = map (later (unat d)) (takeWhile (alarm_due (diff - d)) as)"
    and "dropWhile (alarm_due diff) (map (later (unat d)) as) = map (later (unat d)) (dropWhile (alarm_due (diff - d)) as)"
proof -
  have "alarm_due diff (later (unat d) b) = alarm_due (diff - d) b" for b
    using assms by (cases b) (auto simp: alarm_due_def later_def unat_sub word_le_nat_alt)
  hence "alarm_due diff \<circ> later (unat d) = alarm_due (diff - d)" by (simp add: fun_eq_iff)
  thus "takeWhile (alarm_due diff) (map (later (unat d)) as) = map (later (unat d)) (takeWhile (alarm_due (diff - d)) as)"
    and "dropWhile (alarm_due diff) (map (later (unat d)) as) = map (later (unat d)) (dropWhile (alarm_due (diff - d)) as)"
    by (simp_all add: takeWhile_map dropWhile_map)
qed

theorem serve_timeouts_spec:
  assumes call: "\<And>h a L w. call h a (L, w) = Some (L, f h a w)"
  shows "\<exists>L' p. serve_timeouts call diff (L, w) = Some (L', fold (call_alarm f) (takeWhile (alarm_due diff) (alarms L)) w) \<and>
    map (later p) (alarms L') = dropWhile (alarm_due diff) (alarms L) \<and>
    timeouts_last_time L' = timeouts_last_time L + of_nat p \<and> p \<le> unat diff \<and>
    (\<forall>b \<in> set (alarms L'). unat (diff - of_nat p) < fst b)"
proof (induction "next_timeout L" arbitrary: L w diff)
  case Nil
  thus ?case by (subst serve_timeouts.simps) (auto simp: alarms_def intro!: exI [of _ 0])
next
  case (Cons t ts)
  show ?case
  proof (cases "timeo_time t \<le> diff")
    case True
    let ?d = "timeo_time t"
    let ?L = "L\<lparr>timeouts_last_time := timeouts_last_time L + ?d, next_timeout := ts, timeo_tab := memp_free_pool (timeo_at t) (timeo_tab L)\<rparr>"
    let ?w = "call_alarm f (0, timeo_h t, timeo_arg t) w"
    have s: "serve_timeouts call diff (L, w) = serve_timeouts call (diff - ?d) (?L, ?w)"
      by (subst serve_timeouts.simps) (simp add: Cons.hyps(2) [symmetric] True call)
    obtain L' p where IH: "serve_timeouts call (diff - ?d) (?L, ?w) = Some (L', fold (call_alarm f) (takeWhile (alarm_due (diff - ?d)) (alarms ?L)) ?w)"
      "map (later p) (alarms L') = dropWhile (alarm_due (diff - ?d)) (alarms ?L)"
      "timeouts_last_time L' = timeouts_last_time ?L + of_nat p" "p \<le> unat (diff - ?d)"
      "\<forall>b \<in> set (alarms L'). unat (diff - ?d - of_nat p) < fst b"
      using Cons.hyps(1) [of ?L "diff - ?d" ?w] by auto
    have a: "alarms L = (unat ?d, timeo_h t, timeo_arg t) # map (later (unat ?d)) (alarms ?L)"
      using Cons.hyps(2) alarms_from_add [of 0 "unat ?d" ts] by (simp add: alarms_def flip: Cons.hyps(2))
    have d: "alarm_due diff (unat ?d, timeo_h t, timeo_arg t)" using True by (simp add: alarm_due_def word_le_nat_alt)
    have r: "fold (call_alarm f) (map (later n) as) v = fold (call_alarm f) as v" for n as v
      by (simp add: fold_map call_alarm_later comp_def)
    have "call_alarm f (unat ?d, b) w = call_alarm f (0, b) w" for b by (cases b) simp
    moreover have "map (later (p + unat ?d)) (alarms L') = map (later (unat ?d)) (map (later p) (alarms L'))"
      by (simp add: later_def split_beta)
    ultimately show ?thesis using IH s a d take_alarm_due [OF True, of "alarms ?L"] True
      by (intro exI [of _ L'] exI [of _ "p + unat ?d"])
        (auto simp: r unat_sub algebra_simps diff_diff_eq word_le_nat_alt simp del: call_alarm.simps)
  next
    case False
    hence d: "\<not> alarm_due diff (unat (timeo_time t), timeo_h t, timeo_arg t)" by (simp add: alarm_due_def word_le_nat_alt)
    have "serve_timeouts call diff (L, w) = Some (L, w)"
      by (subst serve_timeouts.simps) (simp add: Cons.hyps(2) [symmetric] False)
    moreover have "alarms L = (unat (timeo_time t), timeo_h t, timeo_arg t) # alarms_from (unat (timeo_time t)) ts"
      by (simp add: alarms_def flip: Cons.hyps(2))
    ultimately show ?thesis using d alarms_from_ge [of _ "unat (timeo_time t)" ts]
      by (intro exI [of _ L] exI [of _ 0]) (fastforce simp: later_def alarm_due_def not_le)
  qed
qed

text \<open>How long the thread may sleep: until the first timer is due, and not at all when it is overdue.\<close>

lemma sleeptime_spec:
  assumes "alarms L = a # as"
  shows "unat (sys_timeouts_sleeptime now L) = fst a - unat (now - timeouts_last_time L)"
proof -
  obtain t ts where t: "next_timeout L = t # ts" "fst a = unat (timeo_time t)"
    using assms by (cases "next_timeout L") (auto simp: alarms_def)
  show ?thesis
    by (auto simp: sys_timeouts_sleeptime_def t Let_def unat_sub not_less word_less_nat_alt word_le_nat_alt)
qed

end
