(* ===== verification/SysArchSpec.thy ===== *)
theory SysArchSpec
  imports SysArch TimeoutsSpec QueueBlock TimersSpec
begin

section \<open>What the network stack gets from the kernel\<close>

subsection \<open>Time\<close>

lemma sys_now_eq: "sys_now s = xTickCount (kern s)"
  by (simp add: sys_now_def get_time_ms_def TICK_TO_MSEC_def portTICK_PERIOD_MS_def xTaskGetTickCountFromISR_def
    xTaskGetTickCount_def Let_def)

lemma elapsed_eq: "get_elapsed_time st s = (if xTickCount (kern s) = st then 1 else xTickCount (kern s) - st)"
  by (simp add: get_elapsed_time_def sys_now_eq Let_def)

text \<open>Milliseconds are ticks as long as their product with the tick rate fits into a word.\<close>

lemma ms_to_ticks: "t \<le> 4294967 \<Longrightarrow> pdMS_TO_TICKS t = t"
proof -
  assume t: "t \<le> 4294967"
  hence "unat t \<le> 4294967" by (simp add: word_le_nat_alt)
  hence "unat (t * 1000) = unat t * 1000" by (simp add: unat_word_ariths)
  hence "unat (t * 1000 div 1000) = unat t" by (simp add: unat_div)
  thus ?thesis by (simp add: pdMS_TO_TICKS_def word_unat_eq_iff)
qed

text \<open>Beyond that it wraps around, and the time is too short.\<close>

lemma unat_ms_to_ticks: "unat (pdMS_TO_TICKS t) = unat t * 1000 mod 2 ^ 32 div 1000"
  by (simp add: pdMS_TO_TICKS_def unat_div unat_word_ariths)

lemma ms_to_ticks_short: "4294967 < unat t \<Longrightarrow> unat (pdMS_TO_TICKS t) < unat t"
proof -
  assume t: "4294967 < unat t"
  have "unat t * 1000 mod 2 ^ 32 < 2 ^ 32" by simp
  hence "unat (pdMS_TO_TICKS t) \<le> 4294967" unfolding unat_ms_to_ticks by simp
  thus ?thesis using t by simp
qed

lemma ms_to_ticks_wraps: "pdMS_TO_TICKS 4294968 = 0"
  by (simp add: pdMS_TO_TICKS_def)

subsection \<open>Mailboxes\<close>

text \<open>A mailbox that holds the messages \<open>xs\<close>, and a place for a message outside its storage.\<close>

definition mailbox :: "list_id set \<Rightarrow> ptr \<Rightarrow> sys \<Rightarrow> ptr list \<Rightarrow> bool" where
  "mailbox Ls q s xs \<longleftrightarrow> q \<noteq> NULL \<and> uxItemSize (queues s q) = 4 \<and> holds q s (map word_bytes xs) \<and> usable Ls q s"

lemma mailboxD:
  assumes "mailbox Ls q s xs"
  shows "q \<noteq> NULL" and "uxItemSize (queues s q) = 4" and "holds q s (map word_bytes xs)" and "usable Ls q s"
  using assms by (simp_all add: mailbox_def)

lemma mailbox_bound: "mailbox Ls q s xs \<Longrightarrow> length xs \<le> unat (uxLength (queues s q))"
  using holds_bound [of q s "map word_bytes xs"] by (simp add: mailbox_def)

lemma item_msg:
  assumes "fifo_buffer q p s" and "uxItemSize (queues s q) = 4"
  shows "item_at p q (store_msg p w s) = word_bytes w"
  using assms by (simp add: store_msg_def fifo_buffer_def outside_def bytes_put)

lemma msg_read: "bytes p 4 m = word_bytes w \<Longrightarrow> bytes_word (bytes p 4 m) = w"
  using bytes_word_bytes [of w "[]"] by simp

lemma mailbox_store:
  assumes "mailbox Ls q s xs" and "fifo_buffer q p s"
  shows "mailbox Ls q (store_msg p w s) xs" and "fifo_buffer q p' (store_msg p w s) = fifo_buffer q p' s"
proof -
  have "holds q (s\<lparr>mem := put_bytes p (word_bytes w) (mem s)\<rparr>) (map word_bytes xs)"
    using assms by (intro holds_write [where n = 4]) (simp_all add: mailbox_def fifo_buffer_def)
  thus "mailbox Ls q (store_msg p w s) xs" using assms(1) by (simp add: mailbox_def store_msg_def usable_def)
  show "fifo_buffer q p' (store_msg p w s) = fifo_buffer q p' s" by (simp add: store_msg_def fifo_buffer_def)
qed

lemma send_zero:
  assumes "mailbox Ls q s xs" and "fifo_buffer q p s"
  shows "xQueueGenericSend q p w queueSEND_TO_BACK s =
    (if may_wait w (kern s) then send_pass q p queueSEND_TO_BACK w None s else None)"
  using assms by (simp add: xQueueGenericSend_def send_asserts_def mailbox_def fifo_buffer_def)

lemma send_room:
  assumes m: "mailbox Ls q s xs" and p: "fifo_buffer q p s" and r: "length xs < unat (uxLength (queues s q))"
    and i: "item_at p q s = word_bytes x"
  shows "\<exists>s'. send_pass q p queueSEND_TO_BACK w t s = Some (Return True, s') \<and> mailbox Ls q s' (xs @ [x]) \<and>
     uxLength (queues s' q) = uxLength (queues s q) \<and> woken (WaitReceiveL q) (kern s) (kern s')"
proof -
  note M = mailboxD [OF m]
  have r': "length (map word_bytes xs) < unat (uxLength (queues s q))" using r by simp
  obtain s' where s': "send_now q p queueSEND_TO_BACK s = Some s'" "holds q s' (map word_bytes xs @ [item_at p q s])"
    "usable Ls q s'" "same_shape q s s'" "woken (WaitReceiveL q) (kern s) (kern s')"
    using send_now_spec [OF M(3) _ _ M(4), of queueSEND_TO_BACK p] r' by auto
  have "uxMessagesWaiting (queues s q) < uxLength (queues s q)"
    using messages_less [OF M(3)] r by (simp add: fifo_room_def)
  with s' M i show ?thesis by (auto simp: send_pass_def send_try_def mailbox_def same_shape_def)
qed

lemma send_full:
  assumes m: "mailbox Ls q s xs" and r: "length xs = unat (uxLength (queues s q))"
  shows "send_pass q p queueSEND_TO_BACK 0 t s = Some (Return False, s)"
proof -
  note M = mailboxD [OF m]
  have "\<not> uxMessagesWaiting (queues s q) < uxLength (queues s q)"
    using messages_less [OF M(3)] r by (simp add: fifo_room_def)
  thus ?thesis by (simp add: send_pass_def send_try_def)
qed

theorem trypost_spec:
  assumes m: "mailbox Ls q s xs" and p: "fifo_buffer q p s"
  shows "\<exists>s'. sys_mbox_trypost q p x s = Some (ERR_OK, s') \<and>
     mailbox Ls q s' (if length xs < unat (uxLength (queues s q)) then xs @ [x] else xs) \<and>
     uxLength (queues s' q) = uxLength (queues s q)"
proof -
  let ?s = "store_msg p x s"
  note m' = mailbox_store(1) [OF m p, of x]
  have p': "fifo_buffer q p ?s" using mailbox_store(2) [OF m p] p by simp
  have l: "uxLength (queues ?s q) = uxLength (queues s q)" by (simp add: store_msg_def)
  have i: "item_at p q ?s = word_bytes x" using item_msg [OF p] m by (simp add: mailbox_def)
  show ?thesis
  proof (cases "length xs < unat (uxLength (queues s q))")
    case True
    with send_room [OF m' p' _ i, of 0 None] l obtain s' where
      "send_pass q p queueSEND_TO_BACK 0 None ?s = Some (Return True, s')" "mailbox Ls q s' (xs @ [x])"
      "uxLength (queues s' q) = uxLength (queues s q)" by auto
    with True show ?thesis by (simp add: sys_mbox_trypost_def send_zero [OF m' p'])
  next
    case False
    with mailbox_bound [OF m] have "length xs = unat (uxLength (queues ?s q))" using l by simp
    from send_full [OF m' this, of p None] have "sys_mbox_trypost q p x s = Some (ERR_OK, ?s)"
      by (simp add: sys_mbox_trypost_def send_zero [OF m' p'])
    with False m' l show ?thesis by simp
  qed
qed

lemma receive_zero:
  assumes "mailbox Ls q s xs" and "fifo_buffer q p s"
  shows "xQueueReceive q p w s = (if may_wait w (kern s) then receive_pass q p w None s else None)"
  using assms by (simp add: xQueueReceive_def receive_asserts_def mailbox_def fifo_buffer_def)

lemma receive_first:
  assumes m: "mailbox Ls q s (x # xs)" and p: "fifo_buffer q p s"
  shows "\<exists>s'. receive_pass q p w t s = Some (Return True, s') \<and> mailbox Ls q s' xs \<and> item_at p q s' = word_bytes x \<and>
     same_shape q s s' \<and> uxLength (queues s' q) = uxLength (queues s q) \<and> woken (WaitSendL q) (kern s) (kern s')"
proof -
  note M = mailboxD [OF m]
  have h: "holds q s (word_bytes x # map word_bytes xs)" using M(3) by simp
  have "0 < uxMessagesWaiting (queues s q)" using messages_pos [OF M(3)] by simp
  with receive_now_spec [OF h _ M(4), of p] p M show ?thesis
    by (auto simp: receive_pass_def receive_try_def fifo_buffer_def mailbox_def same_shape_def)
qed

theorem tryfetch_spec:
  assumes m: "mailbox Ls q s xs" and p: "fifo_buffer q p s"
  shows "\<exists>s'. sys_arch_mbox_tryfetch q p s = Some (if xs = [] then SYS_MBOX_EMPTY else 0, s') \<and> mailbox Ls q s' (tl xs) \<and>
     bytes_word (bytes p 4 (mem s')) = (if xs = [] then NULL else hd xs) \<and> uxLength (queues s' q) = uxLength (queues s q)"
proof (cases xs)
  case Nil
  have "\<not> 0 < uxMessagesWaiting (queues s q)" using messages_pos [OF mailboxD(3) [OF m]] Nil by simp
  hence "sys_arch_mbox_tryfetch q p s = Some (SYS_MBOX_EMPTY, store_msg p NULL s)"
    by (simp add: sys_arch_mbox_tryfetch_def receive_zero [OF m p] receive_pass_def receive_try_def)
  moreover have "bytes_word (bytes p 4 (mem (store_msg p NULL s))) = NULL"
    using item_msg [OF p mailboxD(2) [OF m], of NULL] mailboxD(2) [OF m] by (intro msg_read) (simp add: store_msg_def)
  ultimately show ?thesis using mailbox_store(1) [OF m p, of NULL] Nil by (simp add: store_msg_def)
next
  case (Cons x xs')
  obtain s' where s': "receive_pass q p 0 None s = Some (Return True, s')" "mailbox Ls q s' xs'" "item_at p q s' = word_bytes x"
    "uxLength (queues s' q) = uxLength (queues s q)"
    using receive_first [of Ls q s x xs' p 0 None] m p Cons by auto
  have "bytes_word (bytes p 4 (mem s')) = x" using s'(2,3) by (intro msg_read) (simp add: mailbox_def)
  with s' Cons show ?thesis by (simp add: sys_arch_mbox_tryfetch_def receive_zero [OF m p])
qed

subsection \<open>Waiting for a message\<close>

lemma empty_messages: "mailbox Ls q s [] \<Longrightarrow> uxMessagesWaiting (queues s q) = 0"
  using holds_length [of q s "[]"] by (simp add: mailbox_def unat_eq_0)

lemma may_wait_usable: "usable Ls q s \<Longrightarrow> may_wait w (kern s)"
  by (simp add: may_wait_def usable_def xTaskGetSchedulerState_def)

theorem fetch_gets:
  assumes m: "mailbox Ls q s (x # xs)" and p: "fifo_buffer q p s"
  shows "\<exists>s'. fetch_step q p timeout (FetchCall st, s) = Some (FetchGot st, s') \<and> mailbox Ls q s' xs \<and>
     bytes_word (bytes p 4 (mem s')) = x"
proof -
  obtain s' where s': "receive_pass q p (if timeout \<noteq> 0 then pdMS_TO_TICKS timeout else 10000) None s = Some (Return True, s')"
    "mailbox Ls q s' xs" "item_at p q s' = word_bytes x" using receive_first [OF m p] by blast
  have "bytes_word (bytes p 4 (mem s')) = x" using s'(2,3) by (intro msg_read) (simp add: mailbox_def)
  with s' show ?thesis using may_wait_usable [OF mailboxD(4) [OF m]] by (simp add: receive_zero [OF m p] fetch_next_def)
qed

theorem fetch_blocks:
  assumes m: "mailbox Ls q s []" and p: "fifo_buffer q p s" and cb: "can_block (kern s)" and st: "settled (kern s)"
    and ul: "unlocked q s" and t: "timeout \<noteq> 0" "pdMS_TO_TICKS timeout \<noteq> 0"
  shows "\<exists>t k'. fetch_step q p timeout (FetchCall st, s) = Some (FetchAgain st (pdMS_TO_TICKS timeout) t, s\<lparr>kern := k'\<rparr>) \<and>
     usable Ls q (s\<lparr>kern := k'\<rparr>) \<and> blocked_on (WaitReceiveL q) (pdMS_TO_TICKS timeout) (kern s) k'"
proof -
  note M = mailboxD [OF m]
  obtain k' where "receive_pass q p (pdMS_TO_TICKS timeout) None s = Some (Again (pdMS_TO_TICKS timeout) (vTaskInternalSetTimeOutState (kern s)), s\<lparr>kern := k'\<rparr>)"
    "usable Ls q (s\<lparr>kern := k'\<rparr>)" "blocked_on (WaitReceiveL q) (pdMS_TO_TICKS timeout) (kern s) k'"
    using receive_blocks [OF _ M(4) cb st ul t(2), of p] empty_messages [OF m] by blast
  with t show ?thesis using may_wait_usable [OF M(4)]
    by (intro exI [of _ "vTaskInternalSetTimeOutState (kern s)"] exI [of _ k'])
      (simp add: receive_zero [OF m p] fetch_next_def)
qed

theorem fetch_long_timeout:
  assumes m: "mailbox Ls q s []" and p: "fifo_buffer q p s" and t: "timeout \<noteq> 0" "pdMS_TO_TICKS timeout = 0"
  shows "fetch_step q p timeout (FetchCall st, s) = Some (FetchDone SYS_ARCH_TIMEOUT, store_msg p NULL s)"
  using t empty_messages [OF m] by (simp add: receive_zero [OF m p] receive_pass_def receive_try_def fetch_next_def)

subsection \<open>Posting to a full mailbox\<close>

lemma receive_now_mem:
  assumes "receive_now q p s = Some s'" and "uxItemSize (queues s q) \<noteq> 0"
  shows "\<exists>r. mem s' = memcpy p r (uxItemSize (queues s q)) (mem s)"
  using assms by (auto simp: receive_now_def prvCopyDataFromQueue_def Let_def wake_and_yield_def on_kern_def on_kern_r_def
    bind_eq_Some_conv split: if_splits prod.splits)

lemma receive_keeps_item:
  assumes m: "mailbox Ls q s xs" and r: "receive_pass q b w t s = Some (Return True, s')" and n: "uxMessagesWaiting (queues s q) \<noteq> 0"
    and d: "unat p + 4 \<le> unat b \<or> unat b + 4 \<le> unat p" "unat p + 4 \<le> 2 ^ 32" "unat b + 4 \<le> 2 ^ 32"
  shows "bytes p 4 (mem s') = bytes p 4 (mem s)"
proof -
  have u: "0 < uxMessagesWaiting (queues s q)" using n by (simp add: word_neq_0_conv)
  then obtain s1 where "receive_now q b s = Some s1" "s' = s1"
    using r by (auto simp: receive_pass_def receive_try_def bind_eq_Some_conv)
  then obtain a where "mem s' = memcpy b a 4 (mem s)" using receive_now_mem [of q b s s'] m by (auto simp: mailbox_def)
  thus ?thesis using d by (auto intro!: bytes_memcpy_other)
qed

theorem post_blocks_and_completes:
  assumes m: "mailbox Ls q s (x # xs)" and full: "length (x # xs) = unat (uxLength (queues s q))"
    and p: "fifo_buffer q p s" and b: "fifo_buffer q b s" and d: "unat p + 4 \<le> unat b \<or> unat b + 4 \<le> unat p"
    and cb: "can_block (kern s)" and st: "settled (kern s)" and ul: "unlocked q s"
    and alone: "waiters (WaitSendL q) (kern s) = []"
  defines "c \<equiv> pxCurrentTCB (kern s)"
  shows "\<exists>w t s1 s2 s3. post_step q p (sys_mbox_post p y s) = Some (PostAgain w t, s1) \<and> pxCurrentTCB (kern s1) \<noteq> c \<and>
     sys_arch_mbox_tryfetch q b s1 = Some (0, s2) \<and> bytes_word (bytes b 4 (mem s2)) = x \<and>
     cont_of (kern s2) (StateItem c) = Some (ReadyL (unat (prio (kern s) c))) \<and>
     post_step q p (PostAgain w t, s2) = Some (PostDone, s3) \<and> mailbox Ls q s3 (xs @ [y])"
proof -
  let ?s = "store_msg p y s" let ?w = "10000 :: u32"
  note m' = mailbox_store(1) [OF m p, of y]
  note M = mailboxD [OF m']
  have k: "kern ?s = kern s" "queues ?s = queues s" by (simp_all add: store_msg_def)
  have p': "fifo_buffer q p ?s" using mailbox_store(2) [OF m p] p by simp
  define t where "t = vTaskInternalSetTimeOutState (kern s)"
  have f: "length (map word_bytes (x # xs)) = unat (uxLength (queues ?s q))" using full k by simp
  have ul': "unlocked q ?s" using ul k by (simp add: unlocked_def)
  obtain k1 where B: "send_pass q p queueSEND_TO_BACK ?w None ?s = Some (Again ?w t, ?s\<lparr>kern := k1\<rparr>)"
    "usable Ls q (?s\<lparr>kern := k1\<rparr>)" "blocked_on (WaitSendL q) ?w (kern s) k1"
    using send_blocks [OF M(3) f _ M(4) _ _ ul', of queueSEND_TO_BACK ?w p] cb st k by (auto simp: t_def)
  let ?s1 = "?s\<lparr>kern := k1\<rparr>"
  have post: "post_step q p (sys_mbox_post p y s) = Some (PostAgain ?w t, ?s1)"
    using B(1) may_wait_usable [OF M(4)] by (simp add: sys_mbox_post_def send_zero [OF m' p'])
  have m1: "mailbox Ls q ?s1 (x # xs)" using m' B(2) by (simp add: mailbox_def)
  have b1: "fifo_buffer q b ?s1" "fifo_buffer q p ?s1" using b p by (simp_all add: fifo_buffer_def store_msg_def)
  obtain s2 where R: "receive_pass q b 0 None ?s1 = Some (Return True, s2)" "mailbox Ls q s2 xs" "item_at b q s2 = word_bytes x"
    "uxLength (queues s2 q) = uxLength (queues ?s1 q)" "woken (WaitSendL q) k1 (kern s2)" "same_shape q ?s1 s2"
    using receive_first [OF m1 b1(1), of 0 None] by auto
  have fetched: "sys_arch_mbox_tryfetch q b ?s1 = Some (0, s2)"
    using R(1) by (simp add: sys_arch_mbox_tryfetch_def receive_zero [OF m1 b1(1)])
  have got: "bytes_word (bytes b 4 (mem s2)) = x" using R(2,3) by (intro msg_read) (simp add: mailbox_def)
  have n1: "uxMessagesWaiting (queues ?s1 q) \<noteq> 0" using messages_pos [OF mailboxD(3) [OF m1]] by auto
  have pb: "unat p + 4 \<le> 2 ^ 32" "unat b + 4 \<le> 2 ^ 32" using p b m by (auto simp: fifo_buffer_def outside_def mailbox_def)
  have "bytes p 4 (mem s2) = bytes p 4 (mem ?s1)" by (rule receive_keeps_item [OF m1 R(1) n1 d pb])
  hence i2: "item_at p q s2 = word_bytes y"
    using item_msg [OF p mailboxD(2) [OF m], of y] mailboxD(2) [OF m] mailboxD(2) [OF R(2)] by (simp add: store_msg_def)
  have b2: "fifo_buffer q p s2" using fifo_buffer_shape [OF R(6)] b1(2) by simp
  have room: "length xs < unat (uxLength (queues s2 q))" using R(4) full k by simp
  obtain s3 where S: "send_pass q p queueSEND_TO_BACK ?w (Some t) s2 = Some (Return True, s3)" "mailbox Ls q s3 (xs @ [y])"
    using send_room [OF R(2) b2 room i2, of ?w "Some t"] by blast
  have done3: "post_step q p (PostAgain ?w t, s2) = Some (PostDone, s3)" using S(1) by simp
  have w1: "items (kern s) (WaitSendL q) = []" using alone by (simp add: waiters_def)
  have "waiters (WaitSendL q) k1 = [c]" using B(3) w1 by (simp add: blocked_on_def in_order_def waiters_def c_def Let_def)
  moreover have "tcbs k1 = tcbs (kern s)" "pxCurrentTCB k1 \<noteq> c" using B(3) by (simp_all add: blocked_on_def Let_def c_def)
  ultimately show ?thesis using post fetched got done3 S(2) R(5)
    by (intro exI [of _ ?w] exI [of _ t] exI [of _ ?s1] exI [of _ s2] exI [of _ s3]) (simp add: woken_def)
qed

subsection \<open>Waiting while timers run\<close>

lemma check_timeouts_spec:
  assumes call: "\<And>h a L w. call h a (L, w) = Some (L, f h a w)" and n: "alarms L \<noteq> []"
  shows "\<exists>L' p. sys_check_timeouts call now (L, w) =
      Some (L', fold (call_alarm f) (takeWhile (alarm_due (now - timeouts_last_time L)) (alarms L)) w) \<and>
    map (later p) (alarms L') = dropWhile (alarm_due (now - timeouts_last_time L)) (alarms L) \<and>
    timeouts_last_time L' = timeouts_last_time L + of_nat p \<and> p \<le> unat (now - timeouts_last_time L) \<and>
    (\<forall>b \<in> set (alarms L'). unat (now - timeouts_last_time L - of_nat p) < fst b)"
proof -
  have "next_timeout L \<noteq> []" using n by (auto simp: alarms_def)
  with serve_timeouts_spec [OF call, where diff = "now - timeouts_last_time L" and L = L and w = w]
  show ?thesis by (simp add: sys_check_timeouts_def)
qed

theorem tm_waits_for_first:
  assumes a: "alarms L = a # as" and e: "unat (sys_now s - timeouts_last_time L) < fst a"
    and m: "mailbox Ls q s []" and p: "fifo_buffer q p s" and cb: "can_block (kern s)" and st: "settled (kern s)"
    and ul: "unlocked q s"
  defines "n \<equiv> sys_timeouts_sleeptime (sys_now s) L"
  shows "unat n = fst a - unat (sys_now s - timeouts_last_time L)"
    and "tm_step call q p (TmStart, L, s) = Some (TmFetch n (FetchCall (sys_now s)), L, s)"
    and "pdMS_TO_TICKS n \<noteq> 0 \<Longrightarrow> \<exists>t k'. tm_step call q p (TmFetch n (FetchCall (sys_now s)), L, s) =
      Some (TmFetch n (FetchAgain (sys_now s) (pdMS_TO_TICKS n) t), L, s\<lparr>kern := k'\<rparr>) \<and>
      blocked_on (WaitReceiveL q) (pdMS_TO_TICKS n) (kern s) k'"
    and "pdMS_TO_TICKS n = 0 \<Longrightarrow> tm_step call q p (TmFetch n (FetchCall (sys_now s)), L, s) =
      Some (TmFetch n (FetchDone SYS_ARCH_TIMEOUT), L, store_msg p NULL s)"
proof -
  show u: "unat n = fst a - unat (sys_now s - timeouts_last_time L)" using sleeptime_spec [OF a] by (simp add: n_def)
  hence n: "n \<noteq> 0" using e by (auto simp: unat_eq_0 [symmetric])
  have "next_timeout L \<noteq> []" using a by (auto simp: alarms_def)
  with n show "tm_step call q p (TmStart, L, s) = Some (TmFetch n (FetchCall (sys_now s)), L, s)"
    by (simp add: n_def Let_def sys_arch_mbox_fetch_def)
  show "\<exists>t k'. tm_step call q p (TmFetch n (FetchCall (sys_now s)), L, s) =
      Some (TmFetch n (FetchAgain (sys_now s) (pdMS_TO_TICKS n) t), L, s\<lparr>kern := k'\<rparr>) \<and>
      blocked_on (WaitReceiveL q) (pdMS_TO_TICKS n) (kern s) k'" if "pdMS_TO_TICKS n \<noteq> 0"
    using fetch_blocks [OF m p cb st ul n that, of "sys_now s"] by (auto simp del: fetch_step.simps)
  show "tm_step call q p (TmFetch n (FetchCall (sys_now s)), L, s) =
      Some (TmFetch n (FetchDone SYS_ARCH_TIMEOUT), L, store_msg p NULL s)" if "pdMS_TO_TICKS n = 0"
    using fetch_long_timeout [OF m p n that, of "sys_now s"] by (simp del: fetch_step.simps)
qed

theorem tm_serves_first:
  assumes a: "alarms L = a # as" and e: "fst a \<le> unat (sys_now s - timeouts_last_time L)"
  shows "tm_step call q p (TmStart, L, s) = Some (TmCheck, L, s)"
proof -
  have "sys_timeouts_sleeptime (sys_now s) L = 0" using sleeptime_spec [OF a, of "sys_now s"] e by (simp add: unat_eq_0)
  moreover have "next_timeout L \<noteq> []" using a by (auto simp: alarms_def)
  ultimately show ?thesis by simp
qed

end
