(* ===== verification/NetSamples.thy ===== *)
theory NetSamples
  imports SysArchSpec Samples
begin

section \<open>Timers that go wrong, and states of the witnesses\<close>

subsection \<open>Late timers\<close>

text \<open>
  Served late, with no other timer set, a handler that sets its timer again is called again at once: the loop
  compares the new timer with what was left of the old lateness.  Here the handler sets a timer of 100 ms
  at \<open>now\<close> = 250, and is called twice at that time.
\<close>

definition one_timer :: lwip_timers where
  "one_timer = \<lparr>next_timeout = [\<lparr>timeo_at = 0x10, timeo_time = 100, timeo_h = 0x40, timeo_arg = 0\<rparr>],
     timeouts_last_time = 0, timeo_tab = [0x20], tcpip_tcp_timer_active = False\<rparr>"

definition again_100 :: "ptr \<Rightarrow> ptr \<Rightarrow> lwip_timers \<times> nat \<Rightarrow> (lwip_timers \<times> nat) option" where
  "again_100 h a = (\<lambda>(L, n). Some (sys_timeout 250 100 h a L, Suc n))"

lemmas pool_defs = do_memp_malloc_pool_def memp_free_pool_def do_memp_free_pool_def

lemma late_timer_runs_twice:
  "map_option (\<lambda>(L, n). (n, map timeo_time (next_timeout L), timeouts_last_time L))
     (sys_check_timeouts again_100 250 (one_timer, 0)) = Some (2, [100], 250)"
  unfolding sys_check_timeouts_def one_timer_def
  by (simp, (subst serve_timeouts.simps, simp add: again_100_def sys_timeout_def pool_defs Let_def)+)

text \<open>
  The cyclic timers at work: the one of IGMP has just been taken off the list, 1 ms late, and is set again
  before the one of ARP, which is due in 900 ms and becomes due 1 ms later.
\<close>

definition arp_waits :: lwip_timers where
  "arp_waits = \<lparr>next_timeout = [\<lparr>timeo_at = 0x10, timeo_time = 900, timeo_h = 0x40, timeo_arg = 1\<rparr>],
     timeouts_last_time = 100, timeo_tab = [0x20, 0x30], tcpip_tcp_timer_active = False\<rparr>"

lemma arp_waits_alarms: "alarms arp_waits = [(900, 0x40, 1)]"
  by (simp add: alarms_def arp_waits_def)

text \<open>The same list, last served at 0.\<close>

definition late_stack :: lwip_timers where
  "late_stack = arp_waits\<lparr>timeouts_last_time := 0\<rparr>"

lemma late_stack: "alarms late_stack = [(900, 0x40, 1)]" "timeouts_last_time late_stack = 0"
  using arp_waits_alarms by (simp_all add: late_stack_def alarms_def)

subsection \<open>Mailboxes\<close>

lemma sample_mailbox:
  "mailbox sample_Ls 0xC00 sample_sys [0x09090907, 0x09090909]" "mailbox sample_Ls 0x500 sample_sys []"
proof -
  have "map word_bytes [0x09090907, 0x09090909] = [[7, 9, 9, 9], [9, 9, 9, 9]]"
    by (simp add: word_bytes_def upt_rec)
  moreover have "uxItemSize (sample_queue_of a r n) = 4" for a r n by (simp add: sample_queue_of_def)
  ultimately show "mailbox sample_Ls 0xC00 sample_sys [0x09090907, 0x09090909]"
    using sample_holds_full sample_usable [of "0xC00"] by (simp add: mailbox_def)
  show "mailbox sample_Ls 0x500 sample_sys []"
    using sample_holds_empty sample_usable [of "0x500"] by (simp add: mailbox_def sample_queue_of_def)
qed

lemma sample_msg_place: "q = 0x500 \<or> q = 0xC00 \<Longrightarrow> fifo_buffer q 0x2100 sample_sys"
  by (auto simp: fifo_buffer_def outside_def sample_queue_of_def)

lemma sample_now: "sys_now sample_sys = 4"
  by (simp add: sys_now_eq)

end
