(* ===== verification/Spec2Isabelle.thy ===== *)
theory Spec2Isabelle
  imports PortSamples ConsoleSamples NetSamples
begin

text \<open>
  The FreeRTOS kernel of the TC397 firmware: a verification library.

  The program under \<open>src/\<close> is an application for the AURIX TC397 on FreeRTOS and lwIP.  Its own
  core logic is the kernel under \<open>src/FreeRtos\<close>, the serial console through which its tasks report, and the
  layer that puts the network stack on the kernel; this library models these, the kernel as it is configured by
  \<open>aurix/FreeRTOSConfig.h\<close> (6 priorities, preemption with time slices, mutexes, counting semaphores,
  32-bit ticks, dynamic allocation only, no trace, no co-routines, no queue sets, no tickless idle)
  and proves that it does what it promises.  A failed \<open>configASSERT\<close>, after which the firmware stops,
  is the value \<open>None\<close>; so a theorem that an operation returns \<open>Some\<close> also says that no assertion fails.

  \<^bold>\<open>Theories and code.\<close>
  \<^item> \<open>Prelude\<close>, \<open>KList\<close>, \<open>ListStore\<close>: words, lists with a cursor, and \<open>list.c\<close> with the macros of
    \<open>list.h\<close> on rings of pointers.  The kernel's model works on the abstract lists; \<open>KList\<close> proves that
    the rings refine them, and \<open>ListStore\<close> states the interface as a locale with both interpretations.
  \<^item> \<open>Heap4\<close>, \<open>HeapLayout\<close>, \<open>Allocator\<close>: \<open>portable/memmory/heap_4.c\<close>, block headers in a memory indexed by
    address; the layout of blocks that it refines; the contract of an allocator as a locale.
  \<^item> \<open>Kernel\<close>, \<open>SchedInv\<close>, \<open>Sched\<close>, \<open>Tick\<close>: the state of \<open>tasks.c\<close> (the record \<open>kernel\<close>: the lists, the task
    control blocks, the heap and the static variables), ready lists, context switch, delayed
    lists, tick, suspension of the scheduler, and the scheduler's invariant \<open>kinv\<close>.
  \<^item> \<open>TaskApi\<close>, \<open>TaskEvents\<close>, \<open>TaskMutex\<close>, \<open>TaskNotify\<close>: the parts of \<open>tasks.c\<close> for delays, priorities,
    suspension, event lists, time-outs, priority inheritance and task notifications.
  \<^item> \<open>ContextSave\<close>, \<open>Tasks\<close>, \<open>TasksSpec\<close>: the context save areas of \<open>port.c\<close>, of which a new task takes two and
    a deleted task returns its chain; creation and deletion of tasks and the clean-up by the idle task.
  \<^item> \<open>System\<close>: kernel, queues and byte memory together; \<open>pvPortMalloc\<close> and \<open>vPortFree\<close> with the
    suspension of the scheduler around the allocator.
  \<^item> \<open>Queue\<close>, \<open>QueueRing\<close>, \<open>QueueSpec\<close>, \<open>BoundedQueue\<close>, \<open>QueueBlock\<close>, \<open>Mutex\<close>, \<open>MutexSpec\<close>, \<open>QueueCreate\<close>: \<open>queue.c\<close>;
    the ring of slots as a list of items; the contract of a bounded queue as a locale; blocking
    and unblocking; semaphores and mutexes; creation.
  \<^item> \<open>Stream\<close>, \<open>StreamSpec\<close>, \<open>StreamApi\<close>, \<open>StreamChannel\<close>: \<open>stream_buffer.c\<close>; the ring of bytes as a list
    of bytes; what sending and receiving do to it, for streams and for messages; the contract of a
    channel as a locale, with stream buffers and message buffers as its interpretations.
  \<^item> \<open>EventGroup\<close>, \<open>EventGroupSpec\<close>: \<open>event_groups.c\<close>; who is released when bits are set, and what a task that
    waits finds when it runs again.
  \<^item> \<open>Timers\<close>, \<open>TimersSpec\<close>: \<open>timers.c\<close>; the two lists of active timers and when a timer is due across the
    wrap-around of the tick, the commands as bytes in the timer queue, the waiting of the timer task, and
    the switch of the lists, which ends.
  \<^item> \<open>Port\<close>, \<open>PortSpec\<close>: the rest of \<open>port.c\<close> and of \<open>portmacro.h\<close>: interrupt masks, critical sections, the
    handlers that switch contexts, the start of the scheduler.  To the rest of the kernel the
    handler of \<open>portYIELD\<close> is \<open>vTaskSwitchContext\<close> (\<open>switch_link_spec\<close>).
  \<^item> \<open>Fifo\<close>, \<open>FifoSpec\<close>, \<open>FifoCalls\<close>: the byte FIFO between one reader and one writer (\<open>Ifx_Fifo.c\<close>, with the loops
    of \<open>Ifx_CircularBuffer.c\<close> and the time-outs of \<open>IfxStm.h\<close>), in steps that nothing divides; the invariant of any
    interleaving; calls that nothing interrupts, and why no wake-up is lost.
  \<^item> \<open>Console\<close>, \<open>ConsoleSpec\<close>, \<open>ConsoleSamples\<close>: \<open>IfxAsclin_Asc.c\<close> and \<open>Ifx_print\<close> of \<open>AppSrc/Drv/uart_debug.c\<close>; the
    call, the hardware and the interrupts as one step relation, its invariant and the measure that every
    step lowers; runs that hang.
  \<^item> \<open>Timeouts\<close>, \<open>TimeoutsSpec\<close>: the timers of the network stack (\<open>Lwip/src/core/timeouts.c\<close>, with the pools of
    \<open>memp.c\<close>); their list of differences as a list of absolute moments.
  \<^item> \<open>SysArch\<close>, \<open>SysArchSpec\<close>: \<open>Lwip/port/sys/sys_arch_freertos.c\<close>, mailboxes, semaphores, mutexes, threads and time of
    the stack on the model of the kernel, and \<open>sys_timeouts_mbox_fetch\<close>, which waits for a message while timers run.
  \<^item> \<open>Samples\<close>, \<open>TaskSamples\<close>, \<open>PortSamples\<close>, \<open>ConsoleSamples\<close>, \<open>NetSamples\<close>: the concrete states of the witnesses, and
    runs in which the code goes wrong.

  \<^bold>\<open>Lists and items.\<close>  A list item of the code is an \<open>item_id\<close> (the state item or the event item of
  the task at an address, or a timer's item), so that \<open>pvOwner\<close> is the function \<open>owner\<close>; a list is
  a \<open>list_id\<close> (the static lists of \<open>tasks.c\<close>, the two lists of the queue at an address, and so on).

  \<^bold>\<open>Concurrency.\<close>  An operation between \<open>taskENTER_CRITICAL\<close> and \<open>taskEXIT_CRITICAL\<close>, or with the scheduler
  suspended, is one step.  A function that blocks ends its step with the context switch; what it
  does when the task runs again is a further step (\<open>ulTaskNotifyTake_finish\<close>), and the loops of
  \<open>xQueueGenericSend\<close>, \<open>xQueueReceive\<close>, \<open>xQueuePeek\<close> and \<open>xQueueSemaphoreTake\<close> are given as one pass
  (\<open>send_pass\<close> and so on), whose result \<open>Again w t\<close> says with which arguments the next pass starts;
  between two passes any other operation may run.  The endless loop of the timer task is the sequence of
  \<open>prvTimerTask_wait\<close>, \<open>prvTimerTask_expire\<close> and \<open>prvTimerTask_commands\<close>, the one of the idle task repeats
  \<open>prvIdleTask_pass\<close>.  The serial driver does not use the kernel: its two sides share the FIFO and disable
  interrupts, so \<open>read_step\<close>, \<open>write_step\<close> and \<open>asc_write_step\<close> give the place where a running call stands and
  one step from there, and \<open>fifo_step\<close> and \<open>console_step\<close> are the interleavings.  The calls of the network stack
  that block are given in the same way on top of the passes of the queue functions (\<open>post_step\<close>, \<open>fetch_step\<close>,
  \<open>sem_step\<close>, \<open>lock_step\<close>, \<open>tm_step\<close>).

  \<^bold>\<open>Loops and bounds.\<close>  The loops of the code end and no fuel is used: structural recursion where
  possible, a measure for the search for the highest priority, and \<open>partial_function (option)\<close> for the
  loops over lists (tick, resumption, unlocking, heap search), each with a theorem that it returns in every
  state that satisfies the invariant.  The loop of the timer task over its commands ends when the queue is
  empty (\<open>receive_command\<close>, \<open>no_command\<close>); other tasks may keep it busy, so no bound is claimed.  Words have 32 bits, as \<open>UBaseType_t\<close>, \<open>TickType_t\<close> and \<open>size_t\<close>
  on TriCore; wrap-around is the one of the words.

  \<^bold>\<open>What the properties say.\<close>  C1-C5: the scheduler picks the highest priority and is fair among equals,
  ticks wake exactly the tasks that are due, delays are exact across the wrap-around of the tick.  C6-C8:
  the allocator.  C9: the lists.  C10-C11: time-outs and notifications.  C12-C21: queues, semaphores,
  mutexes and their creation, with the cases where the code goes wrong.  C22-C25: stream buffers, message
  buffers and event groups; C22 and C23 leave out sends of nothing, which stop the firmware at an assertion
  (\<open>can_send\<close>, \<open>can_give\<close>).  C26-C27: tasks are created with memory and contexts of their own, and what
  deleted tasks leave is reclaimed.  C28: timers.  C29: context switches.  C30-C34: the software FIFO and
  the serial console, with two ways to hang.  C35-C40: timers and mailboxes of the network stack,
  with the cases in which the code goes wrong (C36, C39, the list whose last timer is overdue in C35 and the
  wrap-around of milliseconds in C38).  The theorems between them without a number (priorities, suspension, resumption, event
  lists, inheritance, blocking on a queue and so on) are parts of these properties worth a statement of their own.

  \<^bold>\<open>Parameters.\<close>  The callbacks of the timers are code of the application: the function \<open>callback\<close>, about
  which C28 assumes nothing, except when the tick has wrapped around and the lists are switched: then that it leaves
  the timers, their queue and the message with the command alone (\<open>leaves_timers\<close>, \<open>leaves_message\<close>).  The handlers of the network timers are the function \<open>call\<close>; C37 is about
  handlers that set no timers.  The addresses of the code, of the names of tasks and of the local variables
  that hold messages are arguments.

  \<^bold>\<open>Not modelled.\<close>  The iLLD and register headers under \<open>src/Libraries\<close> beyond the serial driver, its set-up of
  registers and its mode with time stamps, the protocols of lwIP under \<open>src/Lwip\<close>
  (vendored) and its Ethernet driver, the other board drivers and the application's tasks under \<open>src/AppSrc\<close> (register access), the
  formatting of \<open>Ifx_print\<close> (its message is an argument), the allocation of a FIFO on the C heap, the
  set-up of the hardware timer and the instructions that save and restore contexts, tracing,
  statistics, and what the configuration leaves out: co-routines, queue sets, the queue registry, static
  allocation, tickless idle, pended function calls.
\<close>

section \<open>Properties\<close>

text \<open>C1. \<open>vTaskSwitchContext\<close> runs the task at the head of the service order of the highest
  priority that has a ready task, moves it to the back of that order, touches no other ready
  list, and keeps the scheduler's invariant; its search for the list ends.\<close>

theorem switch_context_picks_highest:
  assumes "kinv Ls X k" and "some_ready k" and "uxSchedulerSuspended k = 0"
  shows "\<exists>k' n p q. vTaskSwitchContext k = Some k' \<and> kinv Ls X k' \<and> highest_ready k n \<and>
     ready_queue k n = p # q \<and> pxCurrentTCB k' = p \<and> unat (prio k p) = n \<and>
     ready_queue k' = (ready_queue k)(n := q @ [p])"
proof -
  obtain k' n p q where "vTaskSwitchContext k = Some k'" "highest_ready k n" "ready_queue k n = p # q"
    "ready_queue k' = (ready_queue k)(n := q @ [p])" "kinv_at (Suc (unat (xTickCount k))) Ls X k'"
    "pxCurrentTCB k' = p" "unat (prio k p) = n"
    using switch_context_spec [OF assms] by blast
  moreover from this have "xTickCount k' = xTickCount k"
    using switch_context_inv [OF assms(1,2)] by auto
  ultimately show ?thesis by auto
qed

theorem switch_context_picks_highest_witness:
  "\<exists>k' n p q. vTaskSwitchContext sample = Some k' \<and> highest_ready sample n \<and>
     ready_queue sample n = p # q \<and> pxCurrentTCB k' = p"
  using switch_context_picks_highest [OF sample_inv sample_some_ready] by auto

text \<open>C2. Round robin: if \<open>ps @ qs\<close> is the service order of the highest priority with a ready
  task, the next \<open>length ps\<close> context switches run the tasks \<open>ps\<close> in this order, and put them
  behind \<open>qs\<close>; with \<open>qs = []\<close> every task of that priority has run once.\<close>

theorem round_robin:
  assumes "kinv Ls X k" and "highest_ready k n" and "uxSchedulerSuspended k = 0"
    and "ready_queue k n = ps @ qs"
  shows "\<exists>k'. switches (length ps) k = Some (ps, k') \<and> ready_queue k' n = qs @ ps \<and>
     (\<forall>m. m \<noteq> n \<longrightarrow> ready_queue k' m = ready_queue k m)"
  using switches_rotate [OF assms] by blast

theorem round_robin_witness:
  "\<exists>k'. switches 2 sample = Some ([0x300, 0x200], k')"
  using round_robin [OF sample_inv sample_highest, of "[0x300, 0x200]" "[]"] sample_queue
  by (auto simp: numeral_2_eq_2)

text \<open>C3. \<open>xTaskIncrementTick\<close>, when the scheduler is not suspended, adds one to the tick, also when
  the counter wraps: it readies exactly the delayed tasks whose wake time is the new tick,
  taking them off any event list, and moves no other task; it asks for a context switch exactly
  when one was pending, a woken task has at least the running task's priority, or the running
  task shares its priority with another ready task.  The assertion that the delayed list is
  empty when the counter wraps never fails, the loop over the delayed list ends.\<close>

theorem tick_wakes_exactly_due:
  assumes "kinv Ls X k" and "uxSchedulerSuspended k = 0"
  shows "\<exists>k' sw. xTaskIncrementTick k = Some (sw, k') \<and> kinv Ls X k' \<and>
     xTickCount k' = xTickCount k + 1 \<and>
     (\<forall>p. cont_of k' (StateItem p) = (if delayed k p \<and> val_of k (StateItem p) = xTickCount k + 1
        then Some (ReadyL (unat (prio k p))) else cont_of k (StateItem p))) \<and>
     (\<forall>p. cont_of k' (EventItem p) = (if delayed k p \<and> val_of k (StateItem p) = xTickCount k + 1
        then None else cont_of k (EventItem p))) \<and>
     tcbs k' = tcbs k \<and> pxCurrentTCB k' = pxCurrentTCB k \<and>
     (sw \<longleftrightarrow> xYieldPending k \<or> length (items k' (ReadyL (unat (prio k (pxCurrentTCB k))))) > 1 \<or>
        (\<exists>p. delayed k p \<and> val_of k (StateItem p) = xTickCount k + 1 \<and>
           prio k (pxCurrentTCB k) \<le> prio k p))"
proof -
  obtain k' sw where "xTaskIncrementTick k = Some (sw, k')" "kinv Ls X k'"
    "xTickCount k' = xTickCount k + 1" "cont_of k' = ready_cont (due k) k"
    "tcbs k' = tcbs k" "pxCurrentTCB k' = pxCurrentTCB k"
    "sw \<longleftrightarrow> xYieldPending k \<or> time_slice k' \<or> (\<exists>p \<in> due k. prio k (pxCurrentTCB k) \<le> prio k p)"
    using tick_spec [OF assms] by blast
  then show ?thesis by (intro exI [of _ k'] exI [of _ sw]) (auto simp: due_def time_slice_def)
qed

theorem tick_wakes_exactly_due_witness:
  "\<exists>k' sw. xTaskIncrementTick sample = Some (sw, k') \<and> cont_of k' (StateItem 0x400) = Some (ReadyL 3)"
proof -
  have "delayed sample 0x400 \<and> val_of sample (StateItem 0x400) = xTickCount sample + 1"
    by (simp add: delayed_def)
  then show ?thesis using tick_wakes_exactly_due [OF sample_inv] by auto
qed

text \<open>C4. A task that calls \<open>vTaskDelay w\<close> gives the processor to another ready task of the
  highest ready priority; while fewer than \<open>w\<close> ticks have passed it stays delayed, and at the
  \<open>w\<close>-th tick it is ready again, whatever the tick counter was, wrap included.\<close>

theorem delay_is_exact:
  assumes inv: "kinv Ls {} k" and cb: "can_block k" and st: "settled k" and w: "0 < w"
  shows "\<exists>k'. vTaskDelay w k = Some k' \<and> pxCurrentTCB k' \<noteq> pxCurrentTCB k \<and>
     (\<exists>n. cont_of k' (StateItem (pxCurrentTCB k')) = Some (ReadyL n) \<and> highest_ready k' n) \<and>
     (\<forall>n < unat w. \<exists>k''. ticks n k' = Some k'' \<and> delayed k'' (pxCurrentTCB k)) \<and>
     (\<exists>k''. ticks (unat w) k' = Some k'' \<and>
        cont_of k'' (StateItem (pxCurrentTCB k)) = Some (ReadyL (unat (prio k (pxCurrentTCB k)))))"
proof -
  let ?c = "pxCurrentTCB k"
  have w0: "w \<noteq> 0" using w by auto
  obtain k' where k': "block_and_yield w False k = Some k'" "kinv Ls ({} - {?c}) k'"
    "cont_of k' = (cont_of k)(StateItem ?c := Some (delay_list w False k))"
    "val_of k' = (if delay_list w False k = SuspendedL then val_of k
       else (val_of k)(StateItem ?c := xTickCount k + w))"
    "tcbs k' = tcbs k" "xTickCount k' = xTickCount k" "uxSchedulerSuspended k' = 0"
    "pxCurrentTCB k' \<noteq> ?c"
    "\<exists>n. cont_of k' (StateItem (pxCurrentTCB k')) = Some (ReadyL n) \<and> highest_ready k' n"
    using block_and_yield_spec [OF inv cb st w0, of False] by blast
  have dl: "delay_list w False k \<in> {DelayedL1, DelayedL2}"
    using kinvD(5) [OF inv] by (auto simp: delay_list_def delayed_pair_def)
  have d: "delayed k' ?c" using dl k'(3) by (auto simp: delayed_def)
  have r: "remaining k' ?c = unat w" using dl k'(4,6) by (auto simp: remaining_def)
  have inv': "kinv Ls {} k'" using k'(2) by simp
  have "vTaskDelay w k = Some k'"
    using vTaskDelay_eq [OF _ w] cb k'(1) by (simp add: can_block_def)
  moreover have "\<exists>k''. ticks n k' = Some k'' \<and> delayed k'' ?c" if "n < unat w" for n
    using ticks_count [OF inv' k'(7) d, of n] that r by auto
  moreover have "\<exists>k''. ticks (unat w) k' = Some k'' \<and>
      cont_of k'' (StateItem ?c) = Some (ReadyL (unat (prio k ?c)))"
    using ticks_wake [OF inv' k'(7) d] r k'(5) by auto
  ultimately show ?thesis using k'(8,9) by blast
qed

theorem delay_is_exact_witness:
  "\<exists>k' k''. vTaskDelay 3 sample = Some k' \<and> ticks 3 k' = Some k'' \<and>
     cont_of k'' (StateItem 0x200) = Some (ReadyL 2)"
  using delay_is_exact [OF sample_inv sample_can_block sample_settled, of 3] by auto

text \<open>\<open>vTaskDelayUntil\<close> waits exactly when fewer ticks than the increment have passed since the
  previous wake time, modulo the counter, and then for the ticks that are missing: the
  conditions on the wrap of the counter amount to this comparison of differences.\<close>

theorem delay_until_condition:
  "(delay_until_waits t prev (prev + inc) \<longleftrightarrow> t - prev < inc) \<and>
   (delay_until_waits t prev (prev + inc) \<longrightarrow> unat (prev + inc - t) = unat inc - unat (t - prev))"
  using delay_until_waits_iff delay_until_amount by blast

theorem delay_until_condition_witness:
  "unat (0xfffffffe + 10 - 3 :: u32) = unat (10 :: u32) - unat (3 - 0xfffffffe :: u32)"
proof -
  have "delay_until_waits 3 0xfffffffe (0xfffffffe + 10)" by (simp add: delay_until_waits_def)
  then show ?thesis using delay_until_condition [of 3 "0xfffffffe" 10] by blast
qed

text \<open>C5. The outermost \<open>xTaskResumeAll\<close> returns: every task that became ready while the scheduler
  was suspended is in the ready list of its priority, the pending list is empty, and the tick
  has advanced by the number of ticks that were held back; no ready task is lost.\<close>

theorem resume_all_catches_up:
  assumes "kinv Ls {} k" and "uxSchedulerSuspended k = 1" and "uxCurrentNumberOfTasks k \<noteq> 0"
    and "some_ready k"
  shows "\<exists>b k'. xTaskResumeAll k = Some (b, k') \<and> kinv Ls {} k' \<and>
     xTickCount k' = xTickCount k + uxPendedTicks k \<and> uxPendedTicks k' = 0 \<and>
     uxSchedulerSuspended k' = 0 \<and> pending k' = [] \<and>
     (\<forall>p \<in> set (pending k). cont_of k' (StateItem p) = Some (ReadyL (unat (prio k p)))) \<and>
     (\<forall>i n. cont_of k i = Some (ReadyL n) \<longrightarrow> cont_of k' i = Some (ReadyL n))"
  using xTaskResumeAll_spec [OF assms] by blast

theorem resume_all_catches_up_witness:
  "\<exists>b k'. xTaskResumeAll (sample\<lparr>uxSchedulerSuspended := 1, uxPendedTicks := 3\<rparr>) = Some (b, k') \<and>
     xTickCount k' = 7"
proof -
  let ?k = "sample\<lparr>uxSchedulerSuspended := 1, uxPendedTicks := 3\<rparr>"
  have "kinv sample_Ls {} ?k" by (rule kinv_fields [where k = sample]) (use sample_inv in simp_all)
  moreover have "some_ready ?k" using sample_some_ready by (simp add: some_ready_def)
  ultimately show ?thesis using resume_all_catches_up [where Ls = sample_Ls and k = ?k] by auto
qed

text \<open>C6. \<open>pvPortMalloc\<close> (between the suspension and the resumption of the scheduler) returns, for
  every request and every reachable heap: the request plus the header, rounded up to four, is
  cut from the first free block that is large enough, whose tail stays free when more than 16
  bytes are left; \<open>NULL\<close>, with the heap unchanged, for a request of 0, with the top bit set, or
  that no free block can serve.  The free list stays in step with the layout of the blocks.\<close>

theorem malloc_is_first_fit:
  assumes "heap_inv h L"
  shows "\<exists>h'. heap_malloc n h = Some (fst (malloc_spec n L), h') \<and> heap_inv h' (snd (malloc_spec n L)) \<and>
     heap_base h' = heap_base h \<and> pxEnd h' = pxEnd h"
  using heap_malloc_spec [OF assms] .

theorem malloc_is_first_fit_witness:
  "\<exists>h'. heap_malloc 100 (prvHeapInit sample_heap) = Some (0x100c, h') \<and>
     heap_inv h' [(0x1004, 108, True), (0x1070, 65416, False)]"
  using malloc_is_first_fit [OF sample_heap_inv, of 100] by (auto simp: sample_malloc_spec)

text \<open>C7. \<open>vPortFree\<close> of a block in use returns: the block is free, merged with the free blocks
  before and after it, the count of free bytes grows by its size, and no header of another
  block in use changes.\<close>

theorem free_releases_and_merges:
  assumes "heap_inv h L" and "(a, n, True) \<in> set L"
  shows "\<exists>h'. heap_free (a + xHeapStructSize) h = Some h' \<and> heap_inv h' (release a L) \<and>
     unat (xFreeBytesRemaining h') = unat (xFreeBytesRemaining h) + unat n \<and>
     (\<forall>b m. (b, m, True) \<in> set L \<and> b \<noteq> a \<longrightarrow> hmem h' b = hmem h b)"
proof -
  obtain h' where h': "heap_free (a + xHeapStructSize) h = Some h'" "heap_inv h' (release a L)"
    "unat (xFreeBytesRemaining h') = unat (xFreeBytesRemaining h) + unat n"
    "same_but (insert (axStart h) (insert a (fst ` set (free_blocks L)))) h
       (h'\<lparr>xFreeBytesRemaining := xFreeBytesRemaining h\<rparr>)"
    using heap_free_release [OF assms] by blast
  moreover have "hmem h' b = hmem h b" if "(b, m, True) \<in> set L" "b \<noteq> a" for b m
    using used_unchanged [OF assms(1) h'(4) that] by simp
  ultimately show ?thesis by blast
qed

theorem free_releases_and_merges_witness:
  "\<exists>h h'. heap_malloc 100 (prvHeapInit sample_heap) = Some (0x100c, h) \<and>
     heap_free 0x100c h = Some h' \<and> heap_inv h' [(0x1004, 65524, False)]"
proof -
  obtain h where h: "heap_malloc 100 (prvHeapInit sample_heap) = Some (0x100c, h)"
    "heap_inv h [(0x1004, 108, True), (0x1070, 65416, False)]"
    using heap_malloc_spec [OF sample_heap_inv, of 100] by (auto simp: sample_malloc_spec)
  then show ?thesis
    using free_releases_and_merges [OF h(2), of "0x1004" 108] by (auto simp: release_def)
qed

text \<open>\<open>prvHeapInit\<close> turns the static array into one free block of at least 65520 bytes between
  an aligned start and the end marker, wherever the linker placed the array.\<close>

theorem heap_init_one_block:
  assumes "heap_placed h"
  shows "heap_inv (prvHeapInit h) (initial_layout h) \<and>
     65520 \<le> unat (xFreeBytesRemaining (prvHeapInit h)) \<and>
     (\<forall>n. pxEnd h = NULL \<longrightarrow> heap_malloc n h = heap_malloc n (prvHeapInit h))"
  using prvHeapInit_inv [OF assms] heap_malloc_first [OF assms] by blast

theorem heap_init_one_block_witness:
  "heap_inv (prvHeapInit sample_heap) [(0x1004, 65524, False)]"
  using heap_init_one_block [of sample_heap] sample_heap_placed sample_initial_layout by simp

text \<open>C8. To a client of the allocator: a block just obtained overlaps no other live block, and
  releasing it succeeds and restores the set of live blocks; a failed allocation changes
  nothing.\<close>

theorem allocator_contract:
  assumes "heap_valid h"
  shows "\<exists>p h'. heap_malloc n h = Some (p, h') \<and>
     (p = NULL \<longrightarrow> heap_live h' = heap_live h) \<and>
     (p \<noteq> NULL \<longrightarrow> p \<notin> fst ` heap_live h \<and>
        (\<exists>m \<ge> unat n. heap_live h' = insert (p, m) (heap_live h) \<and> (\<forall>x \<in> heap_live h. apart (p, m) x)) \<and>
        (\<exists>h''. heap_free p h' = Some h'' \<and> heap_live h'' = heap_live h))"
proof (cases rule: heap4.alloc_cases [OF assms, of n])
  case (1 h')
  then show ?thesis by simp
next
  case (2 p m h')
  then show ?thesis
    using heap4.alloc_fresh(1) [OF assms 2(1,3)] heap4.alloc_free [OF assms 2(1,3)] by auto
qed

theorem allocator_contract_witness:
  "\<exists>p h'. heap_malloc 100 (prvHeapInit sample_heap) = Some (p, h')"
  using allocator_contract [of "prvHeapInit sample_heap" 100] sample_heap_inv
  unfolding heap_valid_def by blast

text \<open>C9. The doubly linked rings of \<open>list.c\<close> implement the lists with a cursor that the kernel's
  model uses: every legal sequence of insertions (at the end of the service order, or sorted),
  removals, reads of the next entry and changes of values returns, with the same results, and
  leaves rings that represent the abstract lists.  In particular the search loop of
  \<open>vListInsert\<close> ends.\<close>

theorem list_rings_refine_lists:
  fixes s :: "('l, 'i) pstore"
  assumes "refines Ls s S" and "legal_run Ls cs S"
  shows "\<exists>xs s' S'. run ptr_step cs s = Some (xs, s') \<and> run abs_step cs S = Some (xs, S') \<and>
     refines Ls s' S'"
  using pointer_lists.run_sim [OF assms] by blast

theorem list_rings_refine_lists_witness:
  "\<exists>s'. run ptr_step [CValue 1 7, CInsert 0 1, CValue 2 5, CInsert 0 2, CNext 0, CRemove 1]
     (vListInitialise 0 sample_ring) = Some ([ODone, ODone, ODone, ODone, OOwner 2, OCount 1], s')"
proof -
  let ?cs = "[CValue 1 7, CInsert 0 1, CValue 2 5, CInsert 0 2, CNext 0, CRemove 1] :: (nat, nat) list_cmd list"
  let ?S = "l_initialise 0 sample_ring_store"
  have "legal_run {0} ?cs ?S" "\<exists>S'. run abs_step ?cs ?S = Some ([ODone, ODone, ODone, ODone, OOwner 2, OCount 1], S')"
    by (simp_all add: sample_ring_store_def l_next_def l_remove_def l_insert_def l_set_value_def kl_insert_def
      kl_next_def kl_advance_def kl_remove_def kl_empty_def l_initialise_def)
  then show ?thesis using list_rings_refine_lists [OF sample_ring_refines, of ?cs] by auto
qed

text \<open>\<open>vTaskPrioritySet\<close> returns and keeps the scheduler's invariant: the base priority becomes
  the new one, the current priority too unless it is inherited, a ready task moves to the ready
  list of its current priority, and nothing else changes.\<close>

theorem priority_set_effect:
  assumes "kinv Ls {} k" and "some_ready k" and "unat n < configMAX_PRIORITIES"
    and "prvGetTCBFromHandle x k = p" and "uxBasePriority (tcbs k p) \<noteq> n"
  shows "\<exists>k'. vTaskPrioritySet x n k = Some k' \<and> kinv Ls {} k' \<and>
     uxBasePriority (tcbs k' p) = n \<and>
     prio k' p = (if uxBasePriority (tcbs k p) = prio k p then n else prio k p) \<and>
     (\<forall>q. q \<noteq> p \<longrightarrow> tcbs k' q = tcbs k q) \<and>
     (\<forall>i. i \<noteq> StateItem p \<longrightarrow> cont_of k' i = cont_of k i) \<and>
     ((\<exists>m. cont_of k (StateItem p) = Some (ReadyL m)) \<longrightarrow>
        cont_of k' (StateItem p) = Some (ReadyL (unat (prio k' p)))) \<and>
     ((\<forall>m. cont_of k (StateItem p) \<noteq> Some (ReadyL m)) \<longrightarrow> cont_of k' (StateItem p) = cont_of k (StateItem p))"
proof -
  obtain k' where "vTaskPrioritySet x n k = Some k'" "kinv Ls {} k'"
    "tcbs k' = (tcbs k)(p := new_prio n (tcbs k p))" "cont_of k' = cont_of (set_priority p n k)"
    using vTaskPrioritySet_spec [OF assms(1-4)] assms(5) by blast
  then show ?thesis
    using set_priority_fields(2) [OF assms(1), of p n]
    by (intro exI [of _ k']) (auto simp: new_prio_def)
qed

theorem priority_set_effect_witness:
  "\<exists>k'. vTaskPrioritySet 0x300 4 sample = Some k' \<and> cont_of k' (StateItem 0x300) = Some (ReadyL 4)"
  using priority_set_effect [OF sample_inv sample_some_ready, of 4 "0x300" "0x300"]
  by (auto simp: prvGetTCBFromHandle_def configMAX_PRIORITIES_def)

text \<open>\<open>vTaskSuspend\<close> moves a task from wherever it is to the suspended list, off any event
  list and no longer waiting for a notification; when the caller suspends itself, a ready task
  of the highest priority runs instead.\<close>

theorem suspend_effect:
  assumes "kinv Ls {} k" and "xSchedulerRunning k" and "cont_of k (StateItem p) \<noteq> None"
    and "prvGetTCBFromHandle x k = p"
    and "p = pxCurrentTCB k \<Longrightarrow> uxSchedulerSuspended k = 0 \<and>
      (\<exists>q n. q \<noteq> p \<and> cont_of k (StateItem q) = Some (ReadyL n))"
  shows "\<exists>k'. vTaskSuspend x k = Some k' \<and> kinv Ls {} k' \<and>
     cont_of k' = (cont_of k)(StateItem p := Some SuspendedL, EventItem p := None) \<and>
     ucNotifyState (tcbs k' p) \<noteq> taskWAITING_NOTIFICATION \<and> prio k' p = prio k p \<and>
     (if p = pxCurrentTCB k then pxCurrentTCB k' \<noteq> p \<and>
        (\<exists>n. cont_of k' (StateItem (pxCurrentTCB k')) = Some (ReadyL n) \<and> highest_ready k' n)
      else pxCurrentTCB k' = pxCurrentTCB k)"
proof -
  have "ucNotifyState (stop_waiting t) \<noteq> taskWAITING_NOTIFICATION" for t
    by (simp add: stop_waiting_def taskWAITING_NOTIFICATION_def taskNOT_WAITING_NOTIFICATION_def)
  moreover obtain k' where "vTaskSuspend x k = Some k'" "kinv Ls {} k'"
    "cont_of k' = (cont_of k)(StateItem p := Some SuspendedL, EventItem p := None)"
    "tcbs k' = (tcbs k)(p := stop_waiting (tcbs k p))"
    "if p = pxCurrentTCB k then pxCurrentTCB k' \<noteq> p \<and>
        (\<exists>n. cont_of k' (StateItem (pxCurrentTCB k')) = Some (ReadyL n) \<and> highest_ready k' n)
      else pxCurrentTCB k' = pxCurrentTCB k"
    using vTaskSuspend_spec [OF assms] by blast
  ultimately show ?thesis by (intro exI [of _ k']) simp
qed

theorem suspend_effect_witness:
  "\<exists>k'. vTaskSuspend NULL sample = Some k' \<and> pxCurrentTCB k' \<noteq> 0x200"
proof -
  have "\<exists>q n. q \<noteq> 0x200 \<and> cont_of sample (StateItem q) = Some (ReadyL n)"
    by (intro exI [of _ "0x100"] exI [of _ 0]) simp
  then show ?thesis
    using suspend_effect [OF sample_inv, of "0x200" NULL] by (auto simp: prvGetTCBFromHandle_def)
qed

text \<open>\<open>vTaskResume\<close> of another task readies it when it is in the suspended list and waits for
  no event, and otherwise does nothing; the caller keeps the processor unless the resumed task
  has at least its priority.\<close>

theorem resume_effect:
  assumes "kinv Ls {} k" and "p \<noteq> NULL" and "p \<noteq> pxCurrentTCB k"
  shows "\<exists>k'. vTaskResume p k = Some k' \<and> kinv Ls {} k' \<and> tcbs k' = tcbs k \<and>
     (if cont_of k (StateItem p) = Some SuspendedL \<and> cont_of k (EventItem p) = None
      then cont_of k' = (cont_of k)(StateItem p := Some (ReadyL (unat (prio k p)))) \<and>
        (prio k p < prio k (pxCurrentTCB k) \<longrightarrow> pxCurrentTCB k' = pxCurrentTCB k)
      else k' = k)"
  using vTaskResume_spec [OF assms] .

theorem resume_effect_witness:
  "vTaskResume 0x600 sample = Some sample"
  using resume_effect [OF sample_inv, of "0x600"] by auto

text \<open>C10. A time-out taken with \<open>vTaskInternalSetTimeOutState\<close> and checked \<open>n\<close> ticks later has expired
  exactly when the limit \<open>w\<close> is at most \<open>n\<close>, although the tick count wraps; before that,
  \<open>xTaskCheckForTimeOut\<close> leaves \<open>w - n\<close> ticks to wait.  The bound on \<open>n\<close> is sharp enough for every
  32-bit limit: only when the clock has gone round twice can the check be wrong.\<close>

theorem timeout_after_ticks:
  assumes "kinv Ls X k" and "uxSchedulerSuspended k = 0" and "w \<noteq> portMAX_DELAY"
    and "n < 2 ^ 33 - unat (xTickCount k)" and "kernel_time k + n < 2 ^ 64"
  shows "\<exists>k'. ticks n k = Some k' \<and>
     (fst (xTaskCheckForTimeOut (vTaskInternalSetTimeOutState k) w k') \<longleftrightarrow> unat w \<le> n) \<and>
     (n < unat w \<longrightarrow> snd (xTaskCheckForTimeOut (vTaskInternalSetTimeOutState k) w k') =
        (vTaskInternalSetTimeOutState k', w - of_nat n))"
proof -
  obtain k' where k': "ticks n k = Some k'" "kernel_time k' = (kernel_time k + n) mod 2 ^ 64"
    using ticks_time [OF assms(1,2)] by blast
  then have d: "kernel_time k' = kernel_time k + n" using assms(5) by simp
  show ?thesis using k'(1) timeout_exact [OF assms(3) d assms(4)] by blast
qed

theorem timeout_after_ticks_witness:
  "\<exists>k'. ticks 3 sample = Some k' \<and> fst (xTaskCheckForTimeOut (vTaskInternalSetTimeOutState sample) 3 k') \<and>
     \<not> fst (xTaskCheckForTimeOut (vTaskInternalSetTimeOutState sample) 4 k')"
proof -
  have t: "kernel_time sample = 4" by (simp add: kernel_time_def sample_def)
  obtain k1 where k1: "ticks 3 sample = Some k1" "fst (xTaskCheckForTimeOut (vTaskInternalSetTimeOutState sample) 3 k1) = (unat (3 :: u32) \<le> 3)"
    using timeout_after_ticks [OF sample_inv, of 3 3] t by (auto simp: portMAX_DELAY_def)
  obtain k2 where k2: "ticks 3 sample = Some k2" "fst (xTaskCheckForTimeOut (vTaskInternalSetTimeOutState sample) 4 k2) = (unat (4 :: u32) \<le> 3)"
    using timeout_after_ticks [OF sample_inv, of 4 3] t by (auto simp: portMAX_DELAY_def)
  from k1 k2 show ?thesis by simp
qed

text \<open>\<open>xTaskRemoveFromEventList\<close> wakes the task at the head of a list of waiting tasks: it leaves
  the list, is ready again at its priority (or, while the scheduler is suspended, is put aside
  until the scheduler resumes), and the caller learns whether it is more urgent than the running
  task, in which case a context switch is pending.\<close>

theorem event_wakes_head:
  assumes "kinv Ls {} k" and "l \<in> Ls" and "event_list l" and "waiters l k = p # ps" and "p \<noteq> NULL"
  shows "\<exists>k'. xTaskRemoveFromEventList l k = Some (prio k (pxCurrentTCB k) < prio k p, k') \<and> kinv Ls {} k' \<and>
     waiters l k' = ps \<and> tcbs k' = tcbs k \<and> pxCurrentTCB k' = pxCurrentTCB k \<and>
     (xYieldPending k' \<longleftrightarrow> xYieldPending k \<or> prio k (pxCurrentTCB k) < prio k p) \<and>
     cont_of k' = (if uxSchedulerSuspended k = 0
       then (cont_of k)(EventItem p := None, StateItem p := Some (ReadyL (unat (prio k p))))
       else (cont_of k)(EventItem p := Some PendingReadyL))"
proof -
  note h = waiters_head [OF assms(1-4)]
  show ?thesis
    using remove_from_event_list_wake [OF assms(1-3) h assms(5)] waiters_wake [OF assms(1-4)]
    by (simp add: wake_cont)
qed

theorem event_wakes_head_witness:
  "\<exists>k'. xTaskRemoveFromEventList (WaitReceiveL 0x500) sample = Some (True, k') \<and> xYieldPending k'"
  using event_wakes_head [OF sample_inv, of "WaitReceiveL 0x500" "0x600" "[]"]
  by (auto simp: sample_Ls_def)

text \<open>Priority inheritance: the holder of a mutex gets the priority of the running task when that
  is higher, and is moved to the ready list of the new priority when it is ready; whatever state
  it is in, the invariant holds, and the caller learns whether it has lent its priority.\<close>

theorem inherit_raises_holder:
  assumes "kinv Ls {} k" and "h \<noteq> NULL" and "unat (prio k (pxCurrentTCB k)) < configMAX_PRIORITIES"
  shows "\<exists>k'. xTaskPriorityInherit h k =
        Some (prio k h < prio k (pxCurrentTCB k) \<or> uxBasePriority (tcbs k h) < prio k (pxCurrentTCB k), k') \<and>
     kinv Ls {} k' \<and>
     tcbs k' = (tcbs k)(h := (tcbs k h)\<lparr>uxPriority := max (prio k h) (prio k (pxCurrentTCB k))\<rparr>) \<and>
     cont_of k' = (if \<exists>m. cont_of k (StateItem h) = Some (ReadyL m)
       then (cont_of k)(StateItem h := Some (ReadyL (unat (prio k' h)))) else cont_of k)"
  using inherit_spec [OF assms] by blast

theorem inherit_raises_holder_witness:
  "\<exists>k'. xTaskPriorityInherit 0x100 sample = Some (True, k') \<and> prio k' 0x100 = 2 \<and>
     cont_of k' (StateItem 0x100) = Some (ReadyL 2)"
  using inherit_raises_holder [OF sample_inv, of "0x100"]
  by (auto simp: configMAX_PRIORITIES_def max_def)

text \<open>Disinheritance: the running task that gives back its last mutex returns to its base
  priority and to the ready list of that priority; one that holds more mutexes keeps the
  inherited priority.\<close>

theorem disinherit_returns_to_base:
  assumes "kinv Ls {} k" and "\<exists>m. cont_of k (StateItem (pxCurrentTCB k)) = Some (ReadyL m)"
    and "pxCurrentTCB k \<noteq> NULL" and "uxMutexesHeld (tcbs k (pxCurrentTCB k)) \<noteq> 0"
    and "unat (uxBasePriority (tcbs k (pxCurrentTCB k))) < configMAX_PRIORITIES"
  shows "\<exists>k'. xTaskPriorityDisinherit (pxCurrentTCB k) k =
        Some (prio k' (pxCurrentTCB k) \<noteq> prio k (pxCurrentTCB k), k') \<and> kinv Ls {} k' \<and>
     prio k' (pxCurrentTCB k) = (if uxMutexesHeld (tcbs k (pxCurrentTCB k)) = 1
       then uxBasePriority (tcbs k (pxCurrentTCB k)) else prio k (pxCurrentTCB k)) \<and>
     uxMutexesHeld (tcbs k' (pxCurrentTCB k)) = uxMutexesHeld (tcbs k (pxCurrentTCB k)) - 1 \<and>
     (\<forall>p. p \<noteq> pxCurrentTCB k \<longrightarrow> tcbs k' p = tcbs k p) \<and>
     cont_of k' = (cont_of k)(StateItem (pxCurrentTCB k) := Some (ReadyL (unat (prio k' (pxCurrentTCB k)))))"
  using disinherit_spec [OF assms] by (auto simp: give_back_def)

theorem disinherit_returns_to_base_witness:
  "\<exists>k'. xTaskPriorityDisinherit 0x200 sample = Some (True, k') \<and> prio k' 0x200 = 1 \<and>
     cont_of k' (StateItem 0x200) = Some (ReadyL 1)"
  using disinherit_returns_to_base [OF sample_inv] by (auto simp: configMAX_PRIORITIES_def)

text \<open>Notifications from interrupts count: after \<open>n\<close> calls of \<open>vTaskNotifyGiveFromISR\<close> for a running
  task, \<open>ulTaskNotifyTake\<close> returns at once with the old count plus \<open>n\<close> (modulo \<open>2 ^ 32\<close>) when that
  is not zero, and leaves it cleared or one less.\<close>

theorem notifications_count:
  assumes "pxCurrentTCB k \<noteq> NULL" and "ucNotifyState (tcbs k (pxCurrentTCB k)) \<noteq> taskWAITING_NOTIFICATION"
    and "ulNotifiedValue (tcbs k (pxCurrentTCB k)) + of_nat n \<noteq> 0"
  shows "\<exists>k1 k2. gives n (pxCurrentTCB k) k = Some k1 \<and>
     ulTaskNotifyTake c w k1 = Some (ulNotifiedValue (tcbs k (pxCurrentTCB k)) + of_nat n, k2) \<and> ls k2 = ls k \<and>
     ulNotifiedValue (tcbs k2 (pxCurrentTCB k)) =
       (if c then 0 else ulNotifiedValue (tcbs k (pxCurrentTCB k)) + of_nat n - 1)"
proof -
  obtain k1 where k1: "gives n (pxCurrentTCB k) k = Some k1" "ls k1 = ls k" "pxCurrentTCB k1 = pxCurrentTCB k"
    "ulNotifiedValue (tcbs k1 (pxCurrentTCB k)) = ulNotifiedValue (tcbs k (pxCurrentTCB k)) + of_nat n"
    using gives_running [OF assms(1,2), of n] by blast
  then have "ulNotifiedValue (tcbs k1 (pxCurrentTCB k1)) \<noteq> 0" using assms(3) by simp
  from take_available [OF this, of c w] k1 show ?thesis by auto
qed

theorem notifications_count_witness:
  "\<exists>k1 k2. gives 3 0x200 sample = Some k1 \<and> ulTaskNotifyTake False 9 k1 = Some (3, k2) \<and>
     ulNotifiedValue (tcbs k2 0x200) = 2"
  using notifications_count [of sample 3 False 9] by (simp add: taskWAITING_NOTIFICATION_def) blast

text \<open>C11. The handshake: a task that takes a notification when there is none blocks and another task
  runs; an increment sent by that task makes it ready again, and when it runs it gets 1.\<close>

theorem notification_handshake:
  assumes "kinv Ls {} k" and "can_block k" and "w \<noteq> 0" and "pxCurrentTCB k \<noteq> NULL"
    and "ulNotifiedValue (tcbs k (pxCurrentTCB k)) = 0"
  shows "\<exists>k1 k2. ulTaskNotifyTake_wait w k = Some k1 \<and> pxCurrentTCB k1 \<noteq> pxCurrentTCB k \<and> runs_highest k1 \<and>
     xTaskGenericNotify (pxCurrentTCB k) v eIncrement k1 = Some (True, 0, k2) \<and> kinv Ls {} k2 \<and>
     cont_of k2 (StateItem (pxCurrentTCB k)) = Some (ReadyL (unat (prio k (pxCurrentTCB k)))) \<and>
     (\<forall>k3. pxCurrentTCB k3 = pxCurrentTCB k \<and> tcbs k3 (pxCurrentTCB k) = tcbs k2 (pxCurrentTCB k) \<longrightarrow>
        fst (ulTaskNotifyTake_finish b k3) = 1)"
  by (rule take_handshake [OF assms])

theorem notification_handshake_witness:
  "\<exists>k1 k2. ulTaskNotifyTake_wait portMAX_DELAY sample = Some k1 \<and> pxCurrentTCB k1 \<noteq> 0x200 \<and>
     xTaskGenericNotify 0x200 7 eIncrement k1 = Some (True, 0, k2) \<and>
     cont_of k2 (StateItem 0x200) = Some (ReadyL 2)"
  using notification_handshake [OF sample_inv sample_can_block, of portMAX_DELAY 7 True]
  by (simp add: portMAX_DELAY_def) blast

text \<open>C12. A queue is a bounded first-in first-out buffer: for every sequence of sends to the back and
  receives that do not wait, with items at any places outside the queue's storage, all calls
  return, the items received followed by those still queued are the items held at first followed
  by those accepted, and never more than \<open>uxLength\<close> are held.\<close>

theorem queue_is_fifo:
  assumes "holds q s xs" and "usable Ls q s" and "q \<noteq> NULL" and "\<forall>c \<in> set cs. fifo_buffer q (queue.place c) s"
  shows "\<exists>es s' ys. queue.calls q cs s = Some (es, s') \<and> holds q s' ys \<and> usable Ls q s' \<and>
     got es @ ys = xs @ sent es \<and> length ys \<le> unat (uxLength (queues s q))"
proof -
  have "fifo_content Ls q s xs" using assms(1-3) by (simp add: fifo_content_def)
  from queue.calls_fifo [OF this assms(4)] obtain es s' ys where "queue.calls q cs s = Some (es, s')"
    "fifo_content Ls q s' ys" "got es @ ys = xs @ sent es" "fifo_room q s' = fifo_room q s" by blast
  moreover from this have "length ys \<le> fifo_room q s'" by (intro queue.bound)
  ultimately show ?thesis by (auto simp: fifo_content_def fifo_room_def)
qed

theorem queue_is_fifo_witness:
  "\<exists>es s' ys. queue.calls 0xC00 [Receive 0x2000, Send 0x2000, Send 0x2000] sample_sys = Some (es, s') \<and>
     got es @ ys = [[7, 9, 9, 9], [9, 9, 9, 9]] @ sent es \<and> length ys \<le> 2"
proof -
  define cs where "cs = [Receive (0x2000 :: ptr), Send 0x2000, Send 0x2000]"
  have "\<forall>c \<in> set cs. fifo_buffer 0xC00 (queue.place c) sample_sys" using sample_buffer by (simp add: cs_def)
  from queue_is_fifo [OF sample_holds_full _ _ this] sample_usable [of "0xC00"]
  have "\<exists>es s' ys. queue.calls 0xC00 cs sample_sys = Some (es, s') \<and>
    got es @ ys = [[7, 9, 9, 9], [9, 9, 9, 9]] @ sent es \<and> length ys \<le> unat (uxLength (queues sample_sys 0xC00))"
    by simp blast
  moreover have "unat (uxLength (queues sample_sys 0xC00)) = 2" by (simp add: sample_queue_of_def)
  ultimately show ?thesis by (simp only: cs_def)
qed

text \<open>C13. A send to the back, to the front or over the one item of a mailbox stores the item there and
  nothing else changes in the queue; the first waiting receiver is ready, and runs when it is
  more urgent.  With no receiver waiting, no task moves.\<close>

theorem send_stores_and_wakes:
  assumes "holds q s xs" and "pos = queueOVERWRITE \<or> length xs < unat (uxLength (queues s q))"
    and "pos = queueOVERWRITE \<Longrightarrow> uxLength (queues s q) = 1" and "usable Ls q s" and "q \<noteq> NULL" and "p \<noteq> NULL"
    and "may_wait w (kern s)"
  shows "\<exists>s'. xQueueGenericSend q p w pos s = Some (Return True, s') \<and> holds q s' (put pos (item_at p q s) xs) \<and>
     usable Ls q s' \<and> woken (WaitReceiveL q) (kern s) (kern s') \<and> same_shape q s s'"
proof -
  have "pos = queueOVERWRITE \<or> uxMessagesWaiting (queues s q) < uxLength (queues s q)"
    using assms(2) messages_less [OF assms(1)] by (auto simp: fifo_room_def)
  then show ?thesis
    using send_now_spec [OF assms(1-4), of p] assms(3,5-7)
    by (auto simp: xQueueGenericSend_def send_asserts_def send_pass_def send_try_def)
qed

theorem send_stores_and_wakes_witness:
  "\<exists>s'. xQueueGenericSend 0x500 0x2000 0 queueSEND_TO_FRONT sample_sys = Some (Return True, s') \<and>
     holds 0x500 s' [[9, 9, 9, 9]] \<and> cont_of (kern s') (StateItem 0x600) = Some (ReadyL 3) \<and> runs_highest (kern s')"
proof -
  have "item_at 0x2000 0x500 sample_sys = [9, 9, 9, 9]"
    by (simp add: bytes_def sample_sys_def sample_queue_of_def upt_conv_Cons)
  then obtain s' where "xQueueGenericSend 0x500 0x2000 0 queueSEND_TO_FRONT sample_sys = Some (Return True, s')"
    "holds 0x500 s' [[9, 9, 9, 9]]" "woken (WaitReceiveL 0x500) sample (kern s')"
    using send_stores_and_wakes [OF sample_holds_empty _ _ sample_usable, of queueSEND_TO_FRONT "0x2000" 0]
    by (auto simp: sample_queue_of_def)
  then show ?thesis by (intro exI [of _ s']) (simp add: woken_def)
qed

text \<open>C14. Interrupts that use a queue while a task has locked it only count; unlocking makes up for
  them: the first \<open>cTxLock\<close> waiting receivers and the first \<open>cRxLock\<close> waiting senders are woken in
  order (all of them when there are fewer), both locks are open again, and the loops end.\<close>

theorem unlock_catches_up:
  assumes "kinv Ls {} (kern s)" and "WaitReceiveL q \<in> Ls" and "WaitSendL q \<in> Ls" and "no_null (kern s)"
  defines "k1 \<equiv> fold wake (take (nat (sint (cTxLock (queues s q)))) (waiters (WaitReceiveL q) (kern s))) (kern s)"
  shows "\<exists>s'. prvUnlockQueue q s = Some s' \<and> kinv Ls {} (kern s') \<and> unlocked q s' \<and>
     kern s' = fold wake (take (nat (sint (cRxLock (queues s q)))) (waiters (WaitSendL q) k1)) k1"
proof -
  note nn = no_null_waiters [OF assms(1,2,4)]
  have n1: "no_null k1"
    unfolding k1_def by (rule no_null_fold_wake [OF assms(4)]) (use nn in \<open>auto dest: in_set_takeD\<close>)
  have 1: "unlock_wake (WaitReceiveL q) (cTxLock (queues s q)) (kern s) = Some k1" "kinv Ls {} k1"
    using unlock_wake_spec [OF assms(1,2) _ nn, of "cTxLock (queues s q)"]
    by (simp_all add: k1_def)
  have 2: "unlock_wake (WaitSendL q) (cRxLock (queues s q)) k1 =
      Some (fold wake (take (nat (sint (cRxLock (queues s q)))) (waiters (WaitSendL q) k1)) k1)"
    "kinv Ls {} (fold wake (take (nat (sint (cRxLock (queues s q)))) (waiters (WaitSendL q) k1)) k1)"
    using unlock_wake_spec [OF 1(2) assms(3) _ no_null_waiters [OF 1(2) assms(3) n1], of "cRxLock (queues s q)"]
    by simp_all
  show ?thesis using 1 2 by (simp add: prvUnlockQueue_def on_kern_def unlocked_def)
qed

theorem unlock_catches_up_witness:
  "\<exists>s'. prvUnlockQueue 0x500 (upd_queue 0x500 (\<lambda>Q. Q\<lparr>cTxLock := 1, cRxLock := 0\<rparr>) sample_sys) = Some s' \<and>
     unlocked 0x500 s' \<and> kern s' = wake 0x600 sample"
  using unlock_catches_up [where Ls = sample_Ls and q = "0x500" and
      s = "upd_queue 0x500 (\<lambda>Q. Q\<lparr>cTxLock := 1, cRxLock := 0\<rparr>) sample_sys"]
    sample_inv sample_no_null
  by (auto simp: sample_Ls_def)

text \<open>A task that sends to a full queue with a time limit blocks: it waits in the list of senders,
  sorted by priority, and in a delayed list for its time limit, the queue is unlocked again, and
  the most urgent ready task runs.\<close>

theorem full_queue_blocks_sender:
  assumes "holds q s xs" and "length xs = unat (uxLength (queues s q))" and "pos \<noteq> queueOVERWRITE"
    and "usable Ls q s" and "can_block (kern s)" and "settled (kern s)" and "unlocked q s" and "w \<noteq> 0"
  shows "\<exists>k'. send_pass q p pos w None s = Some (Again w (vTaskInternalSetTimeOutState (kern s)), s\<lparr>kern := k'\<rparr>) \<and>
     usable Ls q (s\<lparr>kern := k'\<rparr>) \<and> blocked_on (WaitSendL q) w (kern s) k'"
  by (rule send_blocks [OF assms])

theorem full_queue_blocks_sender_witness:
  "\<exists>k'. send_pass 0xC00 0x2000 queueSEND_TO_BACK 5 None sample_sys =
     Some (Again 5 (vTaskInternalSetTimeOutState sample), sample_sys\<lparr>kern := k'\<rparr>) \<and>
     pxCurrentTCB k' \<noteq> 0x200"
proof -
  have "length [[7, 9, 9, 9], [9, 9, 9, 9 :: u8]] = unat (uxLength (queues sample_sys 0xC00))"
    by (simp add: sample_queue_of_def)
  then show ?thesis
    using full_queue_blocks_sender [OF sample_holds_full, of queueSEND_TO_BACK sample_Ls 5 "0x2000"]
      sample_usable [of "0xC00"] sample_can_block sample_settled sample_unlocked
    by (auto simp: blocked_on_def Let_def)
qed

text \<open>A blocked sender gets its turn: when another task receives an item, the sender is ready
  again, and its next pass stores its item behind the others.\<close>

theorem blocked_sender_completes:
  assumes "holds q s (x # xs)" and "length (x # xs) = unat (uxLength (queues s q))"
    and "usable Ls q s" and "can_block (kern s)" and "settled (kern s)" and "unlocked q s"
    and "w \<noteq> 0" and "waiters (WaitSendL q) (kern s) = []" and "fifo_buffer q b s" and "q \<noteq> NULL"
  shows "\<exists>s1 s2 s3 t. send_pass q p queueSEND_TO_BACK w None s = Some (Again w t, s1) \<and>
     pxCurrentTCB (kern s1) \<noteq> pxCurrentTCB (kern s) \<and>
     xQueueReceive q b 0 s1 = Some (Return True, s2) \<and> item_at b q s2 = x \<and>
     cont_of (kern s2) (StateItem (pxCurrentTCB (kern s))) = Some (ReadyL (unat (prio (kern s) (pxCurrentTCB (kern s))))) \<and>
     send_pass q p queueSEND_TO_BACK w (Some t) s2 = Some (Return True, s3) \<and> holds q s3 (xs @ [item_at p q s2])"
  using blocked_sender_proceeds [OF assms] by blast

theorem blocked_sender_completes_witness:
  "\<exists>s1 s2 s3 t. send_pass 0xC00 0x2000 queueSEND_TO_BACK 5 None sample_sys = Some (Again 5 t, s1) \<and>
     xQueueReceive 0xC00 0x2000 0 s1 = Some (Return True, s2) \<and>
     send_pass 0xC00 0x2000 queueSEND_TO_BACK 5 (Some t) s2 = Some (Return True, s3)"
proof -
  have "length [[7, 9, 9, 9], [9, 9, 9, 9 :: u8]] = unat (uxLength (queues sample_sys 0xC00))"
    by (simp add: sample_queue_of_def)
  from blocked_sender_completes [OF sample_holds_full this _ _ _ sample_unlocked, of sample_Ls 5 "0x2000" "0x2000"]
  show ?thesis using sample_usable [of "0xC00"] sample_can_block sample_settled sample_buffer by auto
qed

text \<open>C15. A counting semaphore never exceeds its maximum and never goes below zero: a give at the
  maximum fails and changes nothing, any other adds one and wakes the first waiting task; a take
  at zero fails and changes nothing, any other subtracts one.\<close>

theorem semaphore_counts:
  assumes "sem_ok q s" and "usable Ls q s" and "waiters (WaitSendL q) (kern s) = []"
  defines "n \<equiv> uxMessagesWaiting (queues s q)" and "m \<equiv> uxLength (queues s q)"
  shows "(if n = m then xQueueGenericSend q NULL 0 queueSEND_TO_BACK s = Some (Return False, s)
     else \<exists>s'. xQueueGenericSend q NULL 0 queueSEND_TO_BACK s = Some (Return True, s') \<and> sem_ok q s' \<and>
       uxMessagesWaiting (queues s' q) = n + 1 \<and> woken (WaitReceiveL q) (kern s) (kern s')) \<and>
     (if n = 0 then xQueueSemaphoreTake q 0 s = Some (Took False, s)
     else \<exists>s'. xQueueSemaphoreTake q 0 s = Some (Took True, s') \<and> sem_ok q s' \<and>
       uxMessagesWaiting (queues s' q) = n - 1 \<and> kern s' = kern s)"
proof -
  have le: "n \<le> m" and q: "q \<noteq> NULL" "uxItemSize (queues s q) = 0" "pcHead (queues s q) \<noteq> NULL"
    using assms(1) by (auto simp: sem_ok_def n_def m_def)
  have up: "n + 1 \<le> m" if "n \<noteq> m" using le that by (simp add: inc_le)
  have down: "n - 1 \<le> m" if "n \<noteq> 0" using le that by (simp add: word_le_nat_alt unat_minus_one)
  have "\<exists>s'. xQueueGenericSend q NULL 0 queueSEND_TO_BACK s = Some (Return True, s') \<and> sem_ok q s' \<and>
       uxMessagesWaiting (queues s' q) = n + 1 \<and> woken (WaitReceiveL q) (kern s) (kern s')" if ne: "n \<noteq> m"
  proof -
    obtain s' where "xQueueGenericSend q NULL 0 queueSEND_TO_BACK s = Some (Return True, s')"
      "queues s' = (queues s)(q := (queues s q)\<lparr>uxMessagesWaiting := n + 1\<rparr>)" "woken (WaitReceiveL q) (kern s) (kern s')"
      using semaphore_give(2) [OF assms(1,2)] ne unfolding n_def m_def by blast
    then show ?thesis using up [OF ne] q by (simp add: sem_ok_def m_def)
  qed
  moreover have "\<exists>s'. xQueueSemaphoreTake q 0 s = Some (Took True, s') \<and> sem_ok q s' \<and>
       uxMessagesWaiting (queues s' q) = n - 1 \<and> kern s' = kern s" if ne: "n \<noteq> 0"
  proof -
    have "take_pass q 0 None False s = Some (Took True, upd_queue q (uxMessagesWaiting_update (\<lambda>_. n - 1)) s)"
      using semaphore_take [OF assms(1) _ assms(3)] ne by (simp add: n_def)
    then show ?thesis using down [OF ne] q by (simp add: xQueueSemaphoreTake_def sem_ok_def m_def)
  qed
  ultimately show ?thesis
    using semaphore_give(1) [OF assms(1,2)] semaphore_take_none [OF assms(1)] unfolding n_def m_def by metis
qed

theorem semaphore_counts_witness:
  "\<exists>s'. xQueueSemaphoreTake 0xB00 0 sample_sys = Some (Took True, s') \<and> uxMessagesWaiting (queues s' 0xB00) = 0"
  using semaphore_counts [OF sample_sems(7), of sample_Ls] sample_usable [of "0xB00"]
  by (auto simp: sample_sem_def)

text \<open>C16. A mutex has at most one holder, and only the holder can give it back: a take of a free
  mutex makes the caller the holder and counts it among the mutexes the caller holds, moving no
  task; a take of a held one without waiting fails and changes nothing; a give by a task other
  than the holder stops at an assertion.\<close>

theorem mutex_excludes:
  assumes "mutex_ok q s" and "waiters (WaitSendL q) (kern s) = []" and "pxCurrentTCB (kern s) \<noteq> NULL"
  shows "case holder q s of
     None \<Rightarrow> \<exists>s'. xQueueSemaphoreTake q 0 s = Some (Took True, s') \<and> mutex_ok q s' \<and>
       holder q s' = Some (pxCurrentTCB (kern s)) \<and> ls (kern s') = ls (kern s) \<and>
       uxMutexesHeld (tcbs (kern s') (pxCurrentTCB (kern s))) = uxMutexesHeld (tcbs (kern s) (pxCurrentTCB (kern s))) + 1
   | Some h \<Rightarrow> xQueueSemaphoreTake q 0 s = Some (Took False, s) \<and>
       (h \<noteq> pxCurrentTCB (kern s) \<longrightarrow> xQueueGenericSend q NULL 0 queueSEND_TO_BACK s = None)"
proof (cases "holder q s")
  case None
  have "q \<noteq> NULL" "uxItemSize (queues s q) = 0" using assms(1) by (simp_all add: mutex_ok_def)
  moreover obtain s' where "take_pass q 0 None False s = Some (Took True, s')" "mutex_ok q s'"
    "holder q s' = Some (pxCurrentTCB (kern s))" "ls (kern s') = ls (kern s)"
    "tcbs (kern s') = (tcbs (kern s))(pxCurrentTCB (kern s) := uxMutexesHeld_update (\<lambda>n. n + 1) (tcbs (kern s) (pxCurrentTCB (kern s))))"
    using mutex_take_free [OF assms(1) None assms(2,3), of 0 None False] by blast
  ultimately show ?thesis using None by (simp add: xQueueSemaphoreTake_def)
next
  case (Some h)
  then show ?thesis using mutex_take_refused [OF assms(1) Some] by simp
qed

theorem mutex_excludes_witness:
  "(\<exists>s'. xQueueSemaphoreTake 0xE00 0 sample_sys = Some (Took True, s') \<and> holder 0xE00 s' = Some 0x200) \<and>
   xQueueSemaphoreTake 0x900 0 sample_sys = Some (Took False, sample_sys) \<and>
   xQueueGenericSend 0x900 NULL 0 queueSEND_TO_BACK sample_sys = None"
  using mutex_excludes [OF sample_sems(5)] mutex_excludes [OF sample_sems(1)]
  by (auto simp: sample_sems(2,6))

text \<open>C17. A take of a held mutex with a time limit blocks the caller in the list of the mutex's
  waiters, lends its priority to the holder, and lets the most urgent ready task run; the holder
  is never below the caller's priority.\<close>

theorem mutex_lends_priority:
  assumes "mutex_ok q s" and "holder q s = Some h" and "h \<noteq> pxCurrentTCB (kern s)" and "usable Ls q s"
    and "can_block (kern s)" and "settled (kern s)" and "unlocked q s" and "w \<noteq> 0"
  shows "\<exists>k' b. take_pass q w None i s =
        Some (TakeAgain w (vTaskInternalSetTimeOutState (kern s)) b, s\<lparr>kern := k'\<rparr>) \<and>
     kinv Ls {} k' \<and> cont_of k' (EventItem (pxCurrentTCB (kern s))) = Some (WaitReceiveL q) \<and>
     cont_of k' (StateItem (pxCurrentTCB (kern s))) = Some (delay_list w True (kern s)) \<and>
     pxCurrentTCB k' \<noteq> pxCurrentTCB (kern s) \<and> runs_highest k' \<and>
     tcbs k' = (tcbs (kern s))(h := (tcbs (kern s) h)\<lparr>uxPriority :=
       max (prio (kern s) h) (prio (kern s) (pxCurrentTCB (kern s)))\<rparr>) \<and>
     (b \<longleftrightarrow> prio (kern s) h < prio (kern s) (pxCurrentTCB (kern s)) \<or>
        uxBasePriority (tcbs (kern s) h) < prio (kern s) (pxCurrentTCB (kern s)))"
  by (rule mutex_take_blocks [OF assms])

theorem mutex_lends_priority_witness:
  "\<exists>k' t. take_pass 0x900 5 None False sample_sys = Some (TakeAgain 5 t True, sample_sys\<lparr>kern := k'\<rparr>) \<and>
     prio k' 0x100 = 2 \<and> cont_of k' (EventItem 0x200) = Some (WaitReceiveL 0x900)"
  using mutex_lends_priority [OF sample_sems(1,2) _ sample_usable [of "0x900"] _ _ sample_unlocked, of 5 False]
    sample_can_block sample_settled
  by (auto simp: max_def)

text \<open>C18. A give by the holder frees the mutex, undoes the inheritance when it was the last mutex the
  task held, and readies the most urgent waiting task; whoever is then more urgent runs.\<close>

theorem mutex_give_restores:
  assumes "mutex_ok q s" and "holder q s = Some (pxCurrentTCB (kern s))" and "usable Ls q s"
    and "\<exists>m. cont_of (kern s) (StateItem (pxCurrentTCB (kern s))) = Some (ReadyL m)"
    and "uxMutexesHeld (tcbs (kern s) (pxCurrentTCB (kern s))) \<noteq> 0"
    and "unat (uxBasePriority (tcbs (kern s) (pxCurrentTCB (kern s)))) < configMAX_PRIORITIES"
  shows "\<exists>s'. xQueueGenericSend q NULL 0 queueSEND_TO_BACK s = Some (Return True, s') \<and> mutex_ok q s' \<and>
     holder q s' = None \<and> usable Ls q s' \<and>
     tcbs (kern s') = (tcbs (kern s))(pxCurrentTCB (kern s) := give_back (tcbs (kern s) (pxCurrentTCB (kern s)))) \<and>
     (case waiters (WaitReceiveL q) (kern s) of
        [] \<Rightarrow> if prio (kern s') (pxCurrentTCB (kern s)) \<noteq> prio (kern s) (pxCurrentTCB (kern s))
              then runs_highest (kern s') else pxCurrentTCB (kern s') = pxCurrentTCB (kern s)
      | p # ps \<Rightarrow> waiters (WaitReceiveL q) (kern s') = ps \<and> cont_of (kern s') (EventItem p) = None \<and>
          cont_of (kern s') (StateItem p) = Some (ReadyL (unat (prio (kern s') p))) \<and>
          (prio (kern s') (pxCurrentTCB (kern s)) < prio (kern s') p \<longrightarrow> runs_highest (kern s')))"
  by (rule mutex_give [OF assms])

theorem mutex_give_restores_witness:
  "\<exists>s'. xQueueGenericSend 0xA00 NULL 0 queueSEND_TO_BACK sample_sys = Some (Return True, s') \<and>
     holder 0xA00 s' = None \<and> prio (kern s') 0x200 = 1 \<and> runs_highest (kern s')"
proof -
  obtain s' where "xQueueGenericSend 0xA00 NULL 0 queueSEND_TO_BACK sample_sys = Some (Return True, s')"
    "holder 0xA00 s' = None" "tcbs (kern s') = (tcbs sample)(0x200 := give_back (tcbs sample 0x200))"
    "if prio (kern s') 0x200 \<noteq> prio sample 0x200 then runs_highest (kern s') else pxCurrentTCB (kern s') = 0x200"
    using mutex_give_restores [OF sample_sems(3) _ sample_usable [of "0xA00"]]
    by (auto simp: sample_sems(4) configMAX_PRIORITIES_def)
  then show ?thesis by (intro exI [of _ s']) (simp add: give_back_def)
qed

text \<open>C19. Creating a queue returns: with \<open>NULL\<close> and nothing allocated when memory is short, otherwise
  with a block, apart from every other live block and large enough for the header and all the
  items, that holds an empty queue with open locks and empty waiting lists, and the
  scheduler's invariant extends to the new lists.  No other queue changes.\<close>

theorem create_gives_empty_queue:
  assumes "kinv Ls {} (kern s)" and "quiet (kern s)" and "heap_valid (heap (kern s))"
    and "lists_live Ls (kern s)" and "fits L S (kern s)"
  shows "\<exists>p s'. xQueueGenericCreate L S s = Some (p, s') \<and> quiet (kern s') \<and> heap_valid (heap (kern s')) \<and>
     cont_of (kern s') = cont_of (kern s) \<and>
     (if p = NULL then heap_live (heap (kern s')) = heap_live (heap (kern s)) \<and> queues s' = queues s
      else (\<exists>m \<ge> queue_bytes L S. heap_live (heap (kern s')) = insert (p, m) (heap_live (heap (kern s))) \<and>
             (\<forall>x \<in> heap_live (heap (kern s)). apart (p, m) x)) \<and>
        kinv (insert (WaitReceiveL p) (insert (WaitSendL p) Ls)) {} (kern s') \<and>
        items (kern s') (WaitSendL p) = [] \<and> items (kern s') (WaitReceiveL p) = [] \<and>
        (\<forall>q. q \<noteq> p \<longrightarrow> queues s' q = queues s q) \<and> fresh_queue L S p (queues s' p))"
  using create_queue [OF assms] by (fastforce split: if_splits)

theorem create_gives_empty_queue_witness:
  "\<exists>p s'. xQueueGenericCreate 4 16 calm_sys = Some (p, s') \<and> (p \<noteq> NULL \<longrightarrow> fresh_queue 4 16 p (queues s' p))"
proof -
  from create_gives_empty_queue [where Ls = static_lists and s = calm_sys and L = 4 and S = 16]
  obtain p s' where "xQueueGenericCreate 4 16 calm_sys = Some (p, s')"
    "if p = NULL then True else fresh_queue 4 16 p (queues s' p)"
    using calm_inv calm_quiet calm_heap calm_lists_live calm_fits by (auto split: if_splits)
  then show ?thesis by auto
qed

text \<open>C20. The size that \<open>xQueueGenericCreate\<close> asks for is not checked for overflow: for \<open>2 ^ 16\<close> items
  of \<open>2 ^ 16\<close> bytes it is the 72 bytes of the header alone, and the caller gets a queue that claims
  room for all of them in a block without storage.\<close>

theorem create_size_overflows:
  assumes "kinv Ls {} (kern s)" and "quiet (kern s)" and "heap_valid (heap (kern s))"
    and "heap_malloc 72 (heap (kern s)) = Some (p, h')" and "p \<noteq> NULL"
  shows "\<exists>s'. xQueueGenericCreate 0x10000 0x10000 s = Some (p, s') \<and> heap (kern s') = h' \<and>
     uxLength (queues s' p) = 0x10000 \<and> uxItemSize (queues s' p) = 0x10000 \<and>
     pcTail (queues s' p) = pcHead (queues s' p)"
  by (rule create_overflow [OF assms])

theorem create_size_overflows_witness:
  "\<exists>p s'. xQueueGenericCreate 0x10000 0x10000 calm_sys = Some (p, s') \<and> uxLength (queues s' p) = 0x10000 \<and>
     pcTail (queues s' p) = pcHead (queues s' p)"
proof -
  obtain h' where "heap_malloc 72 (heap (kern calm_sys)) = Some (0x100c, h')" using calm_malloc by auto
  from create_size_overflows [OF _ _ _ this, where Ls = static_lists] show ?thesis
    using calm_inv calm_quiet calm_heap by auto
qed

text \<open>C21. A task that waited for a mutex with a time limit and lent its priority tries once more with
  no time left when it finds the mutex free at its time-out; when another task has taken the mutex
  by then, the assertion that no inheritance has occurred stops the program.\<close>

theorem take_retry_can_stop:
  assumes "mutex_ok q s1" and "holder q s1 = None" and "waiters (WaitSendL q) (kern s1) = []"
    and "pxCurrentTCB (kern s1) \<noteq> NULL"
  shows "take_expired q 0 t True s1 = Some (TakeAgain 0 t True, s1) \<and>
     (\<exists>s2. take_pass q w None False s1 = Some (Took True, s2) \<and> take_pass q 0 (Some t) True s2 = None)"
  using retry_after_timeout_stops [OF assms] by blast

theorem take_retry_can_stop_witness:
  "\<exists>s2. take_pass 0xE00 5 None False sample_sys = Some (Took True, s2) \<and>
     take_pass 0xE00 0 (Some (vTaskInternalSetTimeOutState sample)) True s2 = None"
  using take_retry_can_stop [OF sample_sems(5,6)] by simp

text \<open>C22. A stream buffer is a first-in first-out channel of bytes: for every sequence of calls that do not wait - sends
  of one byte or more, receives of any size to places outside the buffer's storage - all calls return, and
  the bytes received followed by those still in the buffer are the bytes held at first followed by those
  accepted.  After any such sequence a further send accepts exactly as many bytes as fit, puts them behind
  the others and returns their number; a send of no bytes stops the program at an assertion unless the
  buffer is full; and a receive gets exactly as many bytes as there are and were asked for, the oldest ones first.\<close>

theorem stream_buffer_is_fifo:
  assumes "sb_idle x s" and "\<not> is_message_buffer (streams s x)" and "\<forall>c \<in> set cs. stream.can x c s"
    and "p \<noteq> NULL" and "q \<noteq> NULL" and "sb_apart q (unat m) (streams s x)"
  shows "\<exists>as gs s'. stream.run x cs s = Some (as, gs, s') \<and> sb_idle x s' \<and>
     gs @ sb_bytes x s' = sb_bytes x s @ as \<and> length (sb_bytes x s') \<le> sb_room (streams s x) \<and>
     (let bs = sb_bytes x s'; free = sb_room (streams s x) - length bs; a = min (unat n) free; g = min (length bs) (unat m) in
       (if n = 0 then xStreamBufferSend x p n 0 s' = (if free = 0 then Some (SbDone 0, s') else None)
        else \<exists>s''. xStreamBufferSend x p n 0 s' = Some (SbDone (of_nat a), s'') \<and>
               sb_bytes x s'' = bs @ take a (bytes p n (mem s'))) \<and>
       (\<exists>s''. xStreamBufferReceive x q m 0 s' = Some (Some (of_nat g), s'') \<and>
          bytes q (of_nat g) (mem s'') = take g bs \<and> sb_bytes x s'' = drop g bs))"
proof -
  from stream_calls [OF assms] obtain as gs s' where C: "stream.run x cs s = Some (as, gs, s')" "sb_idle x s'"
    "gs @ sb_bytes x s' = sb_bytes x s @ as" "sb_room (streams s' x) = sb_room (streams s x)"
    "sb_count (streams s' x) \<le> sb_room (streams s x)"
    "\<And>n. n \<noteq> 0 \<Longrightarrow> \<exists>s''. xStreamBufferSend x p n 0 s' = Some (SbDone (of_nat (min (unat n) (sb_free x s'))), s'') \<and>
       sb_bytes x s'' = sb_bytes x s' @ take (min (unat n) (sb_free x s')) (bytes p n (mem s'))"
    "xStreamBufferSend x p 0 0 s' = (if sb_free x s' = 0 then Some (SbDone 0, s') else None)"
    "\<exists>s''. xStreamBufferReceive x q m 0 s' = Some (Some (of_nat (min (sb_count (streams s' x)) (unat m))), s'') \<and>
       bytes q (of_nat (min (sb_count (streams s' x)) (unat m))) (mem s'') =
         take (min (sb_count (streams s' x)) (unat m)) (sb_bytes x s') \<and>
       sb_bytes x s'' = drop (min (sb_count (streams s' x)) (unat m)) (sb_bytes x s')"
    by metis
  have "length (sb_bytes x s') = sb_count (streams s' x)" by simp
  with C show ?thesis by (intro exI [of _ as] exI [of _ gs] exI [of _ s']) (auto simp: Let_def)
qed

theorem stream_buffer_is_fifo_witness:
  "\<exists>as gs s'. stream.run 0xC80 [Put (0x2000, 3), Fetch (0x2100, 2), Put (0x2000, 20)] sample_sys = Some (as, gs, s') \<and>
     gs @ sb_bytes 0xC80 s' = as \<and>
     (\<exists>s'' g. xStreamBufferReceive 0xC80 0x2100 7 0 s' = Some (Some (of_nat g), s'') \<and> sb_bytes 0xC80 s'' = drop g (sb_bytes 0xC80 s'))"
proof -
  define cs where "cs = [Put (0x2000 :: ptr, 3 :: u32), Fetch (0x2100 :: ptr, 2 :: u32), Put (0x2000, 20)]"
  have c: "\<forall>c \<in> set cs. stream.can 0xC80 c sample_sys"
    by (simp add: cs_def can_send_def can_accept_def sb_apart_def)
  have m: "\<not> is_message_buffer (streams sample_sys 0xC80)" "sb_bytes 0xC80 sample_sys = []"
    by (simp_all add: is_message_buffer_def)
  have a: "sb_apart 0x2100 (unat (7 :: u32)) (streams sample_sys 0xC80)" by (simp add: sb_apart_def)
  have "\<exists>as gs s'. stream.run 0xC80 cs sample_sys = Some (as, gs, s') \<and> gs @ sb_bytes 0xC80 s' = as \<and>
     (\<exists>s'' g. xStreamBufferReceive 0xC80 0x2100 7 0 s' = Some (Some (of_nat g), s'') \<and> sb_bytes 0xC80 s'' = drop g (sb_bytes 0xC80 s'))"
    using stream_buffer_is_fifo [OF sample_idle(1) m(1) c _ _ a, of "0x2000" 5] m(2) by (fastforce simp: Let_def)
  then show ?thesis by (simp only: cs_def)
qed

text \<open>C23. A message buffer keeps messages whole and in order: for every sequence of sends and receives
  that do not wait, of messages of one byte or more whose length with the four bytes of its length word
  fits into 32 bits, the messages received followed by those still in the buffer are the messages
  held at first followed by those accepted; a message that does not fit, or is longer than
  the space offered by the receiver, is refused as a whole and stays.\<close>

theorem message_buffer_keeps_messages:
  assumes "message_content x s ms" and "\<forall>c \<in> set cs. message.can x c s"
  shows "\<exists>as gs s' ms'. message.run x cs s = Some (as, gs, s') \<and> message_content x s' ms' \<and> gs @ ms' = ms @ as"
  using message.run_fifo [OF assms] by blast

theorem message_buffer_keeps_messages_witness:
  "\<exists>as gs s' ms'. message.run 0xD00 [Put (0x2000, 3), Fetch (0x2100, 2), Put (0x2000, 7)] sample_sys = Some (as, gs, s') \<and>
     gs @ ms' = as"
proof -
  have "\<forall>c \<in> set [Put (0x2000, 3), Fetch (0x2100, 2), Put (0x2000, 7)]. message.can 0xD00 c sample_sys"
    by (simp add: can_give_def can_accept_def sb_apart_def)
  from message_buffer_keeps_messages [OF sample_messages this] show ?thesis by (auto simp: sample_streams)
qed

text \<open>C24. Setting bits of an event group returns and makes ready exactly the waiting tasks whose condition
  the new bits meet, in whatever priority order; the bits that a released task asked to clear are
  cleared after all conditions were tested, each released task finds the bits at which it was
  released in its event item, and a task more urgent than the running one runs at once.\<close>

theorem set_bits_releases_exactly:
  assumes "kinv Ls {} (kern s)" and "quiet (kern s)" and "uxCurrentNumberOfTasks (kern s) \<noteq> 0"
    and "some_ready (kern s)" and "no_null (kern s)" and "EventBitsL x \<in> Ls" and "x \<noteq> NULL"
    and "b AND eventEVENT_BITS_CONTROL_BYTES = 0"
  defines "B \<equiv> event_bits x s OR b"
    and "released \<equiv> \<lambda>p. cont_of (kern s) (EventItem p) = Some (EventBitsL x) \<and>
      event_match (val_of (kern s) (EventItem p)) (event_bits x s OR b)"
  shows "\<exists>s'. xEventGroupSetBits x b s = Some (event_bits x s', s') \<and> kinv Ls {} (kern s') \<and>
     (\<forall>n. bit (event_bits x s') n \<longleftrightarrow> bit B n \<and> \<not> (\<exists>p. released p \<and> wants_clear (val_of (kern s) (EventItem p)) \<and>
        bit (val_of (kern s) (EventItem p) AND NOT eventEVENT_BITS_CONTROL_BYTES) n)) \<and>
     (\<forall>p. released p \<longrightarrow> cont_of (kern s') (StateItem p) = Some (ReadyL (unat (prio (kern s) p))) \<and>
        cont_of (kern s') (EventItem p) = None \<and>
        val_of (kern s') (EventItem p) = B OR eventUNBLOCKED_DUE_TO_BIT_SET OR taskEVENT_LIST_ITEM_VALUE_IN_USE) \<and>
     (\<forall>p. \<not> released p \<longrightarrow> cont_of (kern s') (StateItem p) = cont_of (kern s) (StateItem p) \<and>
        cont_of (kern s') (EventItem p) = cont_of (kern s) (EventItem p) \<and>
        val_of (kern s') (EventItem p) = val_of (kern s) (EventItem p)) \<and>
     ((\<exists>p. released p \<and> prio (kern s) (pxCurrentTCB (kern s)) < prio (kern s) p) \<longrightarrow> runs_highest (kern s')) \<and>
     ((\<forall>p. released p \<longrightarrow> prio (kern s) p \<le> prio (kern s) (pxCurrentTCB (kern s))) \<longrightarrow>
        pxCurrentTCB (kern s') = pxCurrentTCB (kern s))"
proof -
  have W: "p \<in> set (waiting_for x (kern s) B) \<longleftrightarrow> released p" for p
    using waiting_for_iff [OF assms(1,6)] by (simp add: released_def B_def)
  obtain s' where s': "xEventGroupSetBits x b s = Some (event_bits x s', s')" "kinv Ls {} (kern s')"
    "event_bits x s' = B AND NOT (clear_mask x (kern s) B)"
    "cont_of (kern s') = ready_cont (set (waiting_for x (kern s) B)) (kern s)"
    "\<forall>i. val_of (kern s') i = (if i \<in> EventItem ` set (waiting_for x (kern s) B)
        then B OR eventUNBLOCKED_DUE_TO_BIT_SET OR taskEVENT_LIST_ITEM_VALUE_IN_USE else val_of (kern s) i)"
    "if \<exists>p \<in> set (waiting_for x (kern s) B). prio (kern s) (pxCurrentTCB (kern s)) < prio (kern s) p then runs_highest (kern s')
      else pxCurrentTCB (kern s') = pxCurrentTCB (kern s)"
    using set_bits_spec [OF assms(1-8)] unfolding B_def by blast
  have "bit (event_bits x s') n \<longleftrightarrow> bit B n \<and> \<not> (\<exists>p. released p \<and> wants_clear (val_of (kern s) (EventItem p)) \<and>
        bit (val_of (kern s) (EventItem p) AND NOT eventEVENT_BITS_CONTROL_BYTES) n)" for n
    unfolding s'(3) W [symmetric] using bit_imp_le_length [of B n]
    by (auto simp: bit_and_iff bit_not_iff bit_clear_mask)
  moreover have "(\<forall>p. released p \<longrightarrow> prio (kern s) p \<le> prio (kern s) (pxCurrentTCB (kern s))) \<longleftrightarrow>
      \<not> (\<exists>p. released p \<and> prio (kern s) (pxCurrentTCB (kern s)) < prio (kern s) p)"
    by (meson not_le)
  ultimately show ?thesis using s' by (intro exI [of _ s']) (simp add: W Bex_def image_iff split: if_splits)
qed

theorem set_bits_releases_exactly_witness:
  "\<exists>s'. xEventGroupSetBits 0x800 7 sample_sys = Some (event_bits 0x800 s', s') \<and>
     cont_of (kern s') (StateItem 0x400) = Some (ReadyL 3) \<and> runs_highest (kern s')"
proof -
  have m: "cont_of sample (EventItem 0x400) = Some (EventBitsL 0x800)"
      "event_match (val_of sample (EventItem 0x400)) (0 OR 7)" "prio sample 0x200 < prio sample 0x400"
    by (simp_all add: event_match_def control_defs)
  have "EventBitsL 0x800 \<in> sample_Ls" "(7 :: u32) AND eventEVENT_BITS_CONTROL_BYTES = 0"
    by (simp_all add: sample_Ls_def eventEVENT_BITS_CONTROL_BYTES_def)
  with set_bits_releases_exactly [where x = "0x800" and s = sample_sys and b = 7 and Ls = sample_Ls]
  obtain s' where s': "xEventGroupSetBits 0x800 7 sample_sys = Some (event_bits 0x800 s', s')"
    "\<forall>p. cont_of sample (EventItem p) = Some (EventBitsL 0x800) \<and> event_match (val_of sample (EventItem p)) (0 OR 7) \<longrightarrow>
       cont_of (kern s') (StateItem p) = Some (ReadyL (unat (prio sample p)))"
    "(\<exists>p. (cont_of sample (EventItem p) = Some (EventBitsL 0x800) \<and> event_match (val_of sample (EventItem p)) (0 OR 7)) \<and>
       prio sample 0x200 < prio sample p) \<longrightarrow> runs_highest (kern s')"
    using sample_inv sample_quiet sample_some_ready sample_no_null
    by (auto simp del: or.left_neutral)
  have "cont_of (kern s') (StateItem 0x400) = Some (ReadyL (unat (prio sample 0x400)))" "runs_highest (kern s')"
    using m s'(2,3) by blast+
  with s'(1) show ?thesis by (intro exI [of _ s']) simp
qed

text \<open>C25. A task that waits for bits that are not set, for any or all of them, blocks in the group's list
  for the time it gave, and another task runs.  Its item then carries its condition: a later
  setting of bits releases it exactly when they meet what it asked for, and when it runs again it
  returns the bits at which it was released, without the control bits, and changes no group.\<close>

theorem wait_bits_condition:
  assumes "kinv Ls {} (kern s)" and "can_block (kern s)" and "settled (kern s)"
    and "EventBitsL x \<in> Ls" and "x \<noteq> NULL" and "b AND eventEVENT_BITS_CONTROL_BYTES = 0" and "b \<noteq> 0" and "w \<noteq> 0"
    and "\<not> prvTestWaitCondition (event_bits x s) b all"
  defines "c \<equiv> pxCurrentTCB (kern s)"
  shows "\<exists>k'. xEventGroupWaitBits x b clr all w s = Some (EgBlocked, s\<lparr>kern := k'\<rparr>) \<and> kinv Ls {} k' \<and>
     cont_of k' = (cont_of (kern s))(EventItem c := Some (EventBitsL x), StateItem c := Some (delay_list w True (kern s))) \<and>
     (\<forall>e. event_match (val_of k' (EventItem c)) e \<longleftrightarrow> prvTestWaitCondition e b all) \<and>
     (wants_clear (val_of k' (EventItem c)) \<longleftrightarrow> clr) \<and>
     val_of k' (EventItem c) AND NOT eventEVENT_BITS_CONTROL_BYTES = b \<and>
     tcbs k' = tcbs (kern s) \<and> pxCurrentTCB k' \<noteq> c \<and> runs_highest k' \<and>
     (\<forall>e s'. pxCurrentTCB (kern s') = c \<and>
        val_of (kern s') (EventItem c) = e OR eventUNBLOCKED_DUE_TO_BIT_SET OR taskEVENT_LIST_ITEM_VALUE_IN_USE \<longrightarrow>
        fst (event_wait_woken x b clr all s') = e AND NOT eventEVENT_BITS_CONTROL_BYTES \<and>
        groups (snd (event_wait_woken x b clr all s')) = groups s')"
proof -
  obtain k' where "xEventGroupWaitBits x b clr all w s = Some (EgBlocked, s\<lparr>kern := k'\<rparr>)" "kinv Ls {} k'"
    "blocked_unordered (EventBitsL x) (wait_value b clr all) w (kern s) k'"
    using wait_bits_blocks [OF assms(1-9)] by blast
  then show ?thesis
    using event_wait_woken_set event_match_wait [OF assms(6)] wait_value_parts(1,3) [OF assms(6)]
    by (intro exI [of _ k']) (simp add: blocked_unordered_def Let_def c_def)
qed

theorem wait_bits_condition_witness:
  "\<exists>k'. xEventGroupWaitBits 0x800 6 True False 9 sample_sys = Some (EgBlocked, sample_sys\<lparr>kern := k'\<rparr>) \<and>
     cont_of k' (EventItem 0x200) = Some (EventBitsL 0x800) \<and> event_match (val_of k' (EventItem 0x200)) 2"
proof -
  have "\<not> prvTestWaitCondition (event_bits 0x800 sample_sys) 6 False" "prvTestWaitCondition 2 6 False"
    by (simp_all add: prvTestWaitCondition_def sample_groups)
  then show ?thesis
    using wait_bits_condition [where x = "0x800" and s = sample_sys and b = 6 and Ls = sample_Ls and w = 9 and all = False and clr = True]
      sample_inv sample_can_block sample_settled
    by (auto simp: sample_Ls_def eventEVENT_BITS_CONTROL_BYTES_def)
qed

text \<open>C26. Creating a task either fails for lack of memory, and then changes nothing but the layout of the
  heap's free blocks, or returns \<open>pdPASS\<close> with a task of its own: a control block and a stack of the size
  asked for that overlap each other and no other live block, a priority limited to the highest
  one, a context whose two save areas hold its entry point and its argument, taken from the free
  ones.  It is ready at that priority, no other task moves, and it runs at once exactly when the
  scheduler runs and its priority is above the running task's.\<close>

theorem create_task_outcomes:
  assumes "kinv Ls {} (kern s)" and "quiet (kern s)" and "heap_valid (heap (kern s))" and "items_live (kern s)"
    and "free_areas (cpu (kern s)) (l # u # fs)"
    and "pxCurrentTCB (kern s) \<noteq> NULL" and "cont_of (kern s) (StateItem (pxCurrentTCB (kern s))) \<noteq> None"
  shows "(\<exists>s'. xTaskCreate code name d arg n h s = Some (errCOULD_NOT_ALLOCATE_REQUIRED_MEMORY, s') \<and> no_memory s s') \<or>
     (\<exists>p s'. xTaskCreate code name d arg n h s = Some (pdPASS, s') \<and> kinv Ls {} (kern s') \<and>
       created code arg (capped n) (4 * unat d) p (kern s) (kern s') \<and>
       (xSchedulerRunning (kern s) \<longrightarrow>
          (prio (kern s) (pxCurrentTCB (kern s)) < capped n \<longrightarrow> runs_highest (kern s')) \<and>
          (capped n \<le> prio (kern s) (pxCurrentTCB (kern s)) \<longrightarrow> pxCurrentTCB (kern s') = pxCurrentTCB (kern s))))"
proof -
  have "\<not> (a < b \<and> b \<le> a)" for a b :: u32 by (simp add: not_le)
  then show ?thesis using create_task [OF assms, of code name d arg n h] by (auto simp: not_less)
qed

theorem create_task_outcomes_witness:
  "\<exists>r s'. xTaskCreate 0x9000 0x9100 256 7 9 NoHandle busy_sys = Some (r, s') \<and>
     (r = pdPASS \<longrightarrow> (\<exists>p. created 0x9000 7 5 1024 p busy (kern s')) \<and> runs_highest (kern s'))"
proof -
  have c: "capped 9 = 5" "prio busy (pxCurrentTCB busy) < 5" by (simp_all add: capped_def)
  have "errCOULD_NOT_ALLOCATE_REQUIRED_MEMORY \<noteq> pdPASS"
    by (simp add: errCOULD_NOT_ALLOCATE_REQUIRED_MEMORY_def pdPASS_def)
  then show ?thesis
    using create_task_outcomes [where s = busy_sys and Ls = static_lists and code = "0x9000" and name = "0x9100" and d = 256 and
        arg = 7 and n = 9 and h = NoHandle, unfolded busy_fields c, OF busy_inv busy_quiet task_heap_live(1) busy_live sample_csa(1)] c(2)
    by auto
qed

text \<open>C27. The pass of the idle task ends, however many tasks have deleted themselves: each of them leaves
  the termination list, its control block and stack go back to the heap and its save areas to the
  free ones; all other tasks, blocks and areas stay as they are, and the counts are right again.\<close>

theorem idle_pass_cleans_up:
  assumes "kinv Ls {} k" and "quiet k" and "heap_valid (heap k)" and "free_areas (cpu k) fs" and "remains k B C fs"
    and "unat (uxDeletedTasksWaitingCleanUp k) = length (items k TerminationL)"
  shows "\<exists>k' fs'. prvIdleTask_pass k = Some k' \<and> kinv Ls {} k' \<and>
     cont_of k' = (\<lambda>i. if i \<in> StateItem ` terminated k then None else cont_of k i) \<and> tcbs k' = tcbs k \<and>
     pxCurrentTCB k' = pxCurrentTCB k \<and> uxDeletedTasksWaitingCleanUp k' = 0 \<and>
     uxCurrentNumberOfTasks k' = uxCurrentNumberOfTasks k - uxDeletedTasksWaitingCleanUp k \<and>
     heap_valid (heap k') \<and> heap_live (heap k') = heap_live (heap k) - (\<Union>p \<in> terminated k. B p) \<and>
     free_areas (cpu k') fs' \<and> set fs' = set fs \<union> (\<Union>p \<in> terminated k. set (C p))"
  using idle_cleans_up [OF assms] by blast

theorem idle_pass_cleans_up_witness:
  "\<exists>k' fs'. prvIdleTask_pass grave = Some k' \<and> heap_live (heap k') = {(0x100, 248)} \<and> cont_of k' (StateItem 0x200) = None \<and>
     free_areas (cpu k') fs' \<and> set fs' = {1, 2, 3, 4, 5} \<and> uxCurrentNumberOfTasks k' = 1"
proof -
  have "{(0x100, 248), (0x200, 248), (0x300, 248)} - {(0x200, 248), (0x300, 248)} = {(0x100 :: ptr, 248 :: nat)}" by auto
  with idle_pass_cleans_up [OF grave_inv grave_quiet _ _ grave_remains]
  obtain k' fs' where "prvIdleTask_pass grave = Some k'" "heap_live (heap k') = {(0x100, 248)}"
    "cont_of k' = (\<lambda>i. if i \<in> StateItem ` terminated grave then None else cont_of grave i)"
    "free_areas (cpu k') fs'" "set fs' = {1, 2, 3, 4} \<union> {5}" "uxCurrentNumberOfTasks k' = 2 - 1"
    by (auto simp: task_heap_live sample_csa grave_terminated)
  then show ?thesis by (intro exI [of _ k'] exI [of _ fs']) (auto simp: grave_terminated)
qed



text \<open>C29. A task that is switched away from, by a yield, a requested yield or a tick, resumes where it
  stopped: when the handlers later switch back to it, the link in the handler's context area is
  the one that was there when it was interrupted, whatever other tasks and interrupts have done in
  between to registers, save areas and the rest of the kernel, short of writing the saved link.\<close>

theorem context_is_restored:
  assumes "hands_over k k1" and "away (pxCurrentTCB k) k1 k2" and "hands_over k2 k3" and "pxCurrentTCB k3 = pxCurrentTCB k"
  shows "area (cpu k3) (PCXI (cpu k3)) 0 = area (cpu k) (PCXI (cpu k)) 0"
  using context_restored [OF assms] by (simp add: link_word_def)

theorem context_is_restored_witness:
  "\<exists>k1 k2. hands_over sample k1 \<and> hands_over k1 k2 \<and> pxCurrentTCB k2 = 0x200 \<and>
     area (cpu k2) (PCXI (cpu k2)) 0 = area (cpu sample) (PCXI (cpu sample)) 0"
proof -
  obtain k1 k2 where k: "hands_over sample k1" "hands_over k1 k2" "pxCurrentTCB k2 = pxCurrentTCB sample"
    using sample_hand_over by blast
  from context_is_restored [OF k(1) away_start k(2,3)] k show ?thesis by auto
qed

text \<open>C30. The software FIFO keeps the order of the bytes and loses none: while one writer and one reader run, in
  whatever order their steps come and whatever time-outs they have, the reader has a prefix of what was in
  the ring followed by what is written, and the ring never holds more than its size.  When both calls have
  returned, what was read, what is in the ring and what was not written are together exactly these bytes,
  and the values returned are the numbers of bytes that were not read and not written.\<close>

theorem fifo_in_order:
  assumes "fifo_idle F" and "0 \<le> c" "c \<le> int (length d)" "c \<le> 0x7FFF" and "0 \<le> c'" "c' \<le> 0x7FFF"
    and "fifo_step\<^sup>*\<^sup>* (F, Ifx_Fifo_write now F d c timeout, Ifx_Fifo_read now' F c' timeout') (F', W, R)"
  shows "0 \<le> fcount F' \<and> fcount F' \<le> fsize F' \<and> (\<exists>n. t_data R = take n (fifo_bytes F @ d)) \<and>
     (t_phase W = Done \<and> t_phase R = Done \<longrightarrow>
       fifo_idle F' \<and> t_data R @ fifo_bytes F' @ t_data W = fifo_bytes F @ d \<and>
       int (length (t_data R)) = c' - t_count R \<and> int (length (t_data W)) = int (length d) - (c - t_count W))"
proof -
  let ?s = "(F, Ifx_Fifo_write now F d c timeout, Ifx_Fifo_read now' F c' timeout')"
  have i: "fifo_inv (fifo_bytes F @ d) ?s" using fifo_start_inv assms(1-6) by blast
  with fifo_steps_inv assms(7) have inv: "fifo_inv (fifo_bytes F @ d) (F', W, R)" by blast
  have n: "fifo_counts (F', W, R) = fifo_counts ?s" using fifo_steps_counts assms(7) i by blast
  obtain u where "t_data R @ u = fifo_bytes F @ d" using inv by (auto simp: fifo_inv_def)
  hence "t_data R = take (length (t_data R)) (fifo_bytes F @ d)" unfolding append_eq_conv_conj by (rule conjunct1)
  moreover have "0 \<le> fcount F' \<and> fcount F' \<le> fsize F'" using inv by (auto simp: fifo_inv_def fifo_ok_def)
  moreover have "moved (if b then Begin else Done) = 0" for b by simp
  ultimately show ?thesis using fifo_inv_idle [OF inv] n
    by (auto simp: fifo_counts_def Ifx_Fifo_write_def Ifx_Fifo_read_def)
qed

theorem fifo_in_order_witness:
  "\<exists>F' W R. fifo_step\<^sup>*\<^sup>* (half_full, Ifx_Fifo_write 0 half_full [3] 1 0, Ifx_Fifo_read 0 half_full 3 0) (F', W, R) \<and>
     t_data R = [1, 2, 3] \<and> fifo_idle F' \<and> fifo_bytes F' = []"
proof -
  obtain F' W R where s: "fifo_turns [True, True, True, True, True, False, False, False, False, False, False, False]
      (half_full, Ifx_Fifo_write 0 half_full [3] 1 0, Ifx_Fifo_read 0 half_full 3 0) = Some (F', W, R)"
    "t_phase W = Done" "t_phase R = Done" "t_data R = [1, 2, 3]"
    using half_full_turns by auto
  note r = fifo_turns_steps [OF s(1)]
  have "fifo_idle F' \<and> t_data R @ fifo_bytes F' @ t_data W = [1, 2] @ [3]"
    using fifo_in_order [OF half_full_idle(1) _ _ _ _ _ r] s(2,3) half_full_idle(2) by simp
  with r s(4) show ?thesis by auto
qed

text \<open>C31. A message that fits into the ring, or into twice the ring while no transmission is in progress, is
  printed: however the call, the hardware and the interrupts come one after the other, they make only
  finitely many steps; the line carries at any time a prefix of all that has been printed, in order; and when
  nothing more can happen the call has returned successfully, everything is on the line and the
  transmission has ended.  After each call the driver is ready for the next.\<close>

theorem print_completes:
  assumes "between_calls C" and "length m \<le> 0x7FFF"
    and "int (length m) \<le> fsize (tx C) \<or> \<not> txInProgress C \<and> int (length m) \<le> 2 * fsize (tx C)"
  shows "(\<forall>n s. (console_step ^^ n) (C, Ifx_print m) s \<longrightarrow> n \<le> console_work (C, Ifx_print m)) \<and>
     (\<forall>C' pc. console_step\<^sup>*\<^sup>* (C, Ifx_print m) (C', pc) \<longrightarrow>
        (\<exists>n. line C' = take n (sent_bytes C @ m)) \<and>
        (pc = WriteDone True 0 \<longrightarrow> between_calls C' \<and> sent_bytes C' = sent_bytes C @ m) \<and>
        ((\<nexists>s. console_step (C', pc) s) \<longrightarrow>
           pc = WriteDone True 0 \<and> line C' = sent_bytes C @ m \<and> \<not> txInProgress C'))"
proof -
  note inv = console_run [OF assms(1,2)]
  show ?thesis
  proof (intro conjI allI impI)
    fix C' pc
    assume s: "console_step\<^sup>*\<^sup>* (C, Ifx_print m) (C', pc)"
    note i = inv(1) [OF s]
    show "\<exists>n. line C' = take n (sent_bytes C @ m)" using console_inv_line [OF i] by simp
    show "between_calls C'" "sent_bytes C' = sent_bytes C @ m" if "pc = WriteDone True 0"
      using done_between_calls i that by auto
    assume "\<nexists>s. console_step (C', pc) s"
    with console_at_rest [OF i inv(2) [OF s assms(3)]]
    show "pc = WriteDone True 0" "line C' = sent_bytes C @ m" "\<not> txInProgress C'" by blast+
  qed (use console_runs_end print_inv [OF assms(1,2)] in blast)
qed

theorem print_completes_witness:
  "\<exists>C. between_calls C \<and> \<not> txInProgress C \<and> fsize (tx C) = 64 \<and>
     (\<forall>C' pc. console_step\<^sup>*\<^sup>* (C, Ifx_print (replicate 100 65)) (C', pc) \<and> (\<nexists>s. console_step (C', pc) s) \<longrightarrow>
        pc = WriteDone True 0 \<and> line C' = replicate 100 65)"
proof -
  define C where "C = IfxAsclin_Asc_initModule (\<lambda>_. 0) ASC_TX_BUFFER_SIZE (\<lambda>_. 0) ASC_RX_BUFFER_SIZE"
  have C: "between_calls C" "sent_bytes C = []" "fsize (tx C) = 64" "\<not> txInProgress C"
    using init_between_calls [of ASC_TX_BUFFER_SIZE "\<lambda>_. 0" "\<lambda>_. 0" ASC_RX_BUFFER_SIZE]
    by (simp_all add: C_def ASC_TX_BUFFER_SIZE_def)
  have l: "length (replicate 100 (65 :: u8)) \<le> 0x7FFF"
    "int (length (replicate 100 (65 :: u8))) \<le> fsize (tx C) \<or>
      \<not> txInProgress C \<and> int (length (replicate 100 (65 :: u8))) \<le> 2 * fsize (tx C)"
    using C(3,4) by simp_all
  have "pc = WriteDone True 0 \<and> line C' = replicate 100 65"
    if "console_step\<^sup>*\<^sup>* (C, Ifx_print (replicate 100 65)) (C', pc)" "\<nexists>s. console_step (C', pc) s" for C' pc
    using conjunct2 [OF print_completes [OF C(1) l]] that unfolding C(2) append_Nil by blast
  with C show ?thesis by blast
qed

text \<open>C32. The receive interrupt empties the hardware FIFO into the ring, in order; what the ring has no room for
  is lost, and exactly then the overflow is recorded.\<close>

theorem receive_stores_bytes:
  assumes "fifo_idle (rx C)" and "hw_rx C \<noteq> []" and "length (hw_rx C) \<le> 16" and "now < TIME_INFINITE"
  shows "\<exists>C'. IfxAsclin_Asc_isrReceive now C = Some C' \<and> fifo_idle (rx C') \<and> hw_rx C' = [] \<and>
     (let room = nat (fsize (rx C) - fcount (rx C)) in
        fifo_bytes (rx C') = fifo_bytes (rx C) @ take room (hw_rx C) \<and>
        (rxSwFifoOverflow C' \<longleftrightarrow> rxSwFifoOverflow C \<or> room < length (hw_rx C)))"
  using isr_receive [OF assms] unfolding Let_def by metis

theorem receive_stores_bytes_witness:
  "\<exists>C'. IfxAsclin_Asc_isrReceive 0 (last_byte\<lparr>hw_rx := [1, 2, 3]\<rparr>) = Some C' \<and> fifo_bytes (rx C') = [1, 2, 3] \<and>
     \<not> rxSwFifoOverflow C'"
proof -
  let ?C = "last_byte\<lparr>hw_rx := [1, 2, 3]\<rparr>"
  have i: "fifo_idle (rx ?C)" "fcount (rx ?C) = 0" "fsize (rx ?C) = 64" "\<not> rxSwFifoOverflow ?C"
    using init_idle [of ASC_RX_BUFFER_SIZE "\<lambda>_. 0"]
    by (simp_all add: last_byte_def IfxAsclin_Asc_initModule_def ASC_RX_BUFFER_SIZE_def)
  have "fifo_bytes (rx ?C) = []" using i(2) by (simp add: fifo_bytes_def)
  with receive_stores_bytes [OF i(1), of 0] i show ?thesis by (auto simp: TIME_INFINITE_def Let_def)
qed

text \<open>C33. A longer message can hang the calling task forever: if a transmission is in progress when the call tests
  for it, but ends before the first block is in the ring, the call fills the ring and waits for room,
  and nobody starts the transmission that would make room.\<close>

theorem long_print_can_hang:
  assumes "between_calls C" and "txInProgress C" and "fcount (tx C) = 0" and "hw_tx C = [x]"
    and "fsize (tx C) < int (length m)" and "length m \<le> 0x7FFF"
  shows "\<exists>C' W r. console_step\<^sup>*\<^sup>* (C, Ifx_print m) (C', FifoWrite W r) \<and> (\<nexists>s. console_step (C', FifoWrite W r) s) \<and>
     0 < t_count W \<and> \<not> txInProgress C' \<and> line C' \<noteq> sent_bytes C @ m"
proof -
  have i: "fifo_idle (tx C)" "\<not> tx_request C" using assms(1,2,4) by (auto simp: between_calls_def)
  obtain C' pc' where s: "console_step\<^sup>*\<^sup>* (C, Ifx_print m) (C', pc')" "stuck (C', pc')"
    using long_print_hangs [OF i(1) assms(3,2,4) i(2) assms(5,6)] by blast
  from stuck_unsent [OF console_run(1) [OF assms(1,6) s(1)] s(2)] obtain W r where
    w: "pc' = FifoWrite W r" "0 < t_count W" "\<not> txInProgress C'" "line C' \<noteq> sent_bytes C @ m" by (metis prod.inject)
  have "\<nexists>s. console_step (C', FifoWrite W r) s" using stuck_no_step s(2) w(1) by simp
  with s(1) w show ?thesis by (intro exI [of _ C'] exI [of _ W] exI [of _ r]) simp
qed

theorem long_print_can_hang_witness:
  "\<exists>C' W r. console_step\<^sup>*\<^sup>* (last_byte, Ifx_print (replicate 65 66)) (C', FifoWrite W r) \<and>
     (\<nexists>s. console_step (C', FifoWrite W r) s) \<and> 0 < t_count W"
proof -
  have "fsize (tx last_byte) < int (length (replicate 65 (66 :: u8)))" "length (replicate 65 (66 :: u8)) \<le> 0x7FFF"
    using last_byte(5) by simp_all
  from long_print_can_hang [OF last_byte(1-4) this] show ?thesis by blast
qed

text \<open>C34. Against the comment in \<open>Ifx_Fifo.c\<close>, a reader and a writer that both run as tasks can wait for each
  other forever: in a ring of four bytes with two in it, a writer of six bytes and a reader of six bytes reach a
  state where both wait although the ring is neither empty nor full.\<close>

theorem two_waiters_deadlock:
  "\<exists>F W R. fifo_step\<^sup>*\<^sup>* (half_full, Ifx_Fifo_write 0 half_full [3, 4, 5, 6, 7, 8] 6 TIME_INFINITE,
       Ifx_Fifo_read 0 half_full 6 TIME_INFINITE) (F, W, R) \<and>
     (\<nexists>s. fifo_step (F, W, R) s) \<and> fcount F = 2 \<and> t_count W = 4 \<and> t_count R = 4"
proof -
  obtain F W R where s: "both_waiting = Some (F, W, R)" "both_wait (F, W, R)" "fcount F = 2" "t_count W = 4" "t_count R = 4"
    using both_waiting by auto
  with fifo_turns_steps [OF s(1) [unfolded both_waiting_def]] both_wait_no_step show ?thesis by blast
qed

text \<open>C35. Where \<open>sys_timeout\<close> puts a network timer, as long as \<open>msecs\<close> and the time since \<open>timeouts_last_time\<close> fit into 32 bits
  together, and unless the timer comes before the first one of a list that time has passed for (C36).  In an empty list
  it is due after \<open>msecs\<close>, \<open>timeouts_last_time\<close> being now.  In a list whose last timer is not overdue it is set
  exactly: due at \<open>now + msecs\<close> in absolute terms, behind all timers that are due no later and before the
  others.  In a list whose last timer is itself overdue it comes last, due only \<open>msecs\<close> and the time of the
  first timer after that one, whatever \<open>now\<close> is.  The moments of the other timers do not change in any of these
  cases, and an element of the pool is used up; with an empty pool nothing happens.\<close>

theorem timer_set_exactly:
  fixes now :: u32
  defines "passed \<equiv> \<lambda>L. unat (now - timeouts_last_time L)"
  assumes "unat msecs + passed L < 2 ^ 32"
    and "next_timeout L \<noteq> [] \<Longrightarrow> fst (hd (alarms L)) \<le> unat msecs \<or> passed L = 0"
    and "NULL \<notin> set (timeo_tab L)"
  shows "if timeo_tab L = [] then sys_timeout now msecs h a L = L
     else timeo_tab (sys_timeout now msecs h a L) = tl (timeo_tab L) \<and>
       (if next_timeout L = []
        then alarms (sys_timeout now msecs h a L) = [(unat msecs, h, a)] \<and> timeouts_last_time (sys_timeout now msecs h a L) = now
        else timeouts_last_time (sys_timeout now msecs h a L) = timeouts_last_time L \<and>
          alarms (sys_timeout now msecs h a L) =
            (if passed L \<le> fst (last (alarms L))
             then takeWhile (\<lambda>b. fst b \<le> unat msecs + passed L) (alarms L) @ (unat msecs + passed L, h, a) #
               dropWhile (\<lambda>b. fst b \<le> unat msecs + passed L) (alarms L)
             else alarms L @ [(fst (last (alarms L)) + unat msecs + fst (hd (alarms L)), h, a)]))"
proof (cases "timeo_tab L")
  case Nil
  thus ?thesis by (simp add: sys_timeout_def do_memp_malloc_pool_def)
next
  case (Cons e es)
  hence e: "e \<noteq> NULL" using assms(4) by auto
  show ?thesis
  proof (cases "next_timeout L")
    case Nil
    thus ?thesis using Cons sys_timeout_idle [OF Cons e Nil] by (simp add: alarms_def)
  next
    case n: (Cons t ts)
    have f: "fst (hd (alarms L)) = unat (timeo_time t)" by (simp add: alarms_def n)
    have l: "fst (last (alarms L)) = total (t # ts)" using last_alarm [of L] by (simp add: n)
    have o: "unat msecs + unat (now - timeouts_last_time L) < 2 ^ 32" using assms(2) by (simp add: passed_def)
    have b: "timeo_time t \<le> msecs \<or> now = timeouts_last_time L"
      using assms(3) n f by (auto simp: passed_def word_le_nat_alt unat_eq_zero)
    show ?thesis
    proof (cases "passed L \<le> fst (last (alarms L))")
      case True
      hence "unat (now - timeouts_last_time L) \<le> total (t # ts)" by (simp only: l passed_def)
      from sys_timeout_alarms [OF Cons e n o this b, of h a] show ?thesis
        using True Cons n by (simp add: insert_alarm_def new_alarm_def passed_def)
    next
      case False
      hence d: "total (t # ts) < unat (now - timeouts_last_time L)" by (simp only: l passed_def not_le)
      hence "timeo_time t \<le> msecs" using b by auto
      from sys_timeout_late [OF Cons e n o d this, of h a] show ?thesis
        using False Cons n f l by simp
    qed
  qed
qed

theorem timer_set_exactly_witness:
  "alarms (sys_timeout 130 2000 0x50 7 arp_waits) = [(900, 0x40, 1), (2030, 0x50, 7)] \<and>
   alarms (sys_timeout 3000 2000 0x50 7 arp_waits) = [(900, 0x40, 1), (3800, 0x50, 7)]"
proof
  have a: "next_timeout arp_waits \<noteq> []" "timeo_tab arp_waits = [0x20, 0x30]" "timeouts_last_time arp_waits = 100"
    by (simp_all add: arp_waits_def)
  show "alarms (sys_timeout 130 2000 0x50 7 arp_waits) = [(900, 0x40, 1), (2030, 0x50, 7)]"
    using timer_set_exactly [where L = arp_waits and now = 130 and msecs = 2000 and h = "0x50" and a = 7]
    by (simp add: arp_waits_alarms a)
  show "alarms (sys_timeout 3000 2000 0x50 7 arp_waits) = [(900, 0x40, 1), (3800, 0x50, 7)]"
    using timer_set_exactly [where L = arp_waits and now = 3000 and msecs = 2000 and h = "0x50" and a = 7]
    by (simp add: arp_waits_alarms a)
qed

text \<open>C36. A timer that comes before the first one delays all others: when time has passed since the list was last
  served, the new timer is due at \<open>now + msecs\<close>, as it should, but every other timer of the list is due later
  than before by just that time.\<close>

theorem timer_in_front_delays:
  assumes "timeo_tab L = m # ms" and "m \<noteq> NULL" and "next_timeout L = t # ts" and "msecs < timeo_time t"
    and "unat msecs + unat (now - timeouts_last_time L) < 2 ^ 32"
  shows "alarms (sys_timeout now msecs h a L) =
     (unat msecs + unat (now - timeouts_last_time L), h, a) #
     map (\<lambda>(n, c). (n + unat (now - timeouts_last_time L), c)) (alarms L)"
  using sys_timeout_in_front [OF assms(1-4,5), of h a] by (simp add: new_alarm_def later_def)

theorem timer_in_front_delays_witness:
  "alarms arp_waits = [(900, 0x40, 1)] \<and> alarms (sys_timeout 101 100 0x40 2 arp_waits) = [(101, 0x40, 2), (901, 0x40, 1)]"
  using timer_in_front_delays [where L = arp_waits and m = "0x20" and ms = "[0x30]" and
      t = "\<lparr>timeo_at = 0x10, timeo_time = 900, timeo_h = 0x40, timeo_arg = 1\<rparr>" and ts = "[]" and now = 101 and
      msecs = 100 and h = "0x40" and a = 2]
  by (simp add: arp_waits_alarms) (simp add: arp_waits_def)

text \<open>C37. Serving the network timers ends and is exact, for handlers that set no timers: in their order, exactly the
  timers are called whose moment has come, \<open>timeouts_last_time\<close> moves to the last of these moments, and all
  other timers stay, due at the same moments as before and none of them yet.\<close>

theorem timers_served_exactly:
  fixes now :: u32
  assumes "\<And>h a L w. call h a (L, w) = Some (L, f h a w)" and "alarms L \<noteq> []"
  defines "passed \<equiv> unat (now - timeouts_last_time L)"
  shows "\<exists>L' p. sys_check_timeouts call now (L, w) =
       Some (L', fold (\<lambda>(n, h, a) w. if h \<noteq> NULL then f h a w else w) (takeWhile (\<lambda>b. fst b \<le> passed) (alarms L)) w) \<and>
     map (\<lambda>(n, c). (n + p, c)) (alarms L') = dropWhile (\<lambda>b. fst b \<le> passed) (alarms L) \<and>
     timeouts_last_time L' = timeouts_last_time L + of_nat p \<and> p \<le> passed \<and>
     (\<forall>b \<in> set (alarms L'). unat (now - timeouts_last_time L') < fst b)"
proof -
  have "call_alarm f = (\<lambda>(n, h, a) w. if h \<noteq> NULL then f h a w else w)" by (auto simp: fun_eq_iff)
  moreover have "alarm_due (now - timeouts_last_time L) = (\<lambda>b. fst b \<le> passed)" by (simp add: alarm_due_def passed_def fun_eq_iff)
  ultimately show ?thesis using check_timeouts_spec [of call f, OF assms(1,2), where now = now and w = w]
    by (fastforce simp: later_def passed_def algebra_simps)
qed

theorem timers_served_exactly_witness:
  "\<exists>L'. sys_check_timeouts (\<lambda>h a (L, ns). Some (L, ns @ [a])) 1000 (arp_waits, []) = Some (L', [1]) \<and> alarms L' = []"
  using timers_served_exactly [where call = "\<lambda>h a (L, ns). Some (L, ns @ [a])" and f = "\<lambda>h a ns. ns @ [a]" and
      L = arp_waits and now = 1000 and w = "[]"]
  by (auto simp: arp_waits_alarms) (auto simp: arp_waits_def)

text \<open>C38. How long the thread of the network stack waits for a message, its first timer being set: when the timer is due,
  the thread serves the timers before it waits; when it is due in \<open>n\<close> milliseconds, it waits on the empty mailbox
  for \<open>pdMS_TO_TICKS\<close> of \<open>n\<close>.  That is exactly \<open>n\<close> ticks as long as \<open>n\<close> is at most 4294967 (some 71 minutes); beyond,
  the multiplication by the tick rate wraps around at 32 bits and the wait is always too short, and when it comes to 0 ticks
  the wait ends at once with a time-out.\<close>

theorem stack_waits_for_timer:
  assumes "alarms L = a # as" and "mailbox Ls q s []" and "fifo_buffer q p s" and "can_block (kern s)"
    and "settled (kern s)" and "unlocked q s"
  defines "passed \<equiv> unat (sys_now s - timeouts_last_time L)"
  shows "if fst a \<le> passed then tm_step call q p (TmStart, L, s) = Some (TmCheck, L, s)
     else \<exists>n pc. unat n = fst a - passed \<and> tm_step call q p (TmStart, L, s) = Some (TmFetch n pc, L, s) \<and>
       (let w = pdMS_TO_TICKS n in
         unat w = unat n * 1000 mod 2 ^ 32 div 1000 \<and>
         (if unat n \<le> 4294967 then unat w = unat n else unat w < unat n) \<and>
         (if w = 0 then tm_step call q p (TmFetch n pc, L, s) = Some (TmFetch n (FetchDone SYS_ARCH_TIMEOUT), L, store_msg p NULL s)
          else \<exists>t k'. tm_step call q p (TmFetch n pc, L, s) = Some (TmFetch n (FetchAgain (sys_now s) w t), L, s\<lparr>kern := k'\<rparr>) \<and>
            blocked_on (WaitReceiveL q) w (kern s) k'))"
proof (cases "fst a \<le> passed")
  case True
  thus ?thesis using tm_serves_first [OF assms(1)] by (simp add: passed_def)
next
  case False
  hence e: "unat (sys_now s - timeouts_last_time L) < fst a" by (simp add: passed_def)
  let ?n = "sys_timeouts_sleeptime (sys_now s) L"
  note W = tm_waits_for_first(2-4) [OF assms(1) e assms(2-6), where call = call]
  have "unat (pdMS_TO_TICKS ?n) = unat ?n" if "unat ?n \<le> 4294967"
    using that ms_to_ticks [of ?n] by (simp add: word_le_nat_alt)
  then show ?thesis
    using False W tm_waits_for_first(1) [OF assms(1) e assms(2-6)] ms_to_ticks_short [of ?n] unat_ms_to_ticks [of ?n]
    by (auto simp: passed_def Let_def simp del: tm_step.simps intro!: exI [of _ ?n] exI [of _ "FetchCall (sys_now s)"])
qed

theorem stack_waits_for_timer_witness:
  "\<exists>n pc t k'. unat n = 896 \<and> tm_step (\<lambda>h a s. Some s) 0x500 0x2100 (TmStart, late_stack, sample_sys) =
       Some (TmFetch n pc, late_stack, sample_sys) \<and>
     tm_step (\<lambda>h a s. Some s) 0x500 0x2100 (TmFetch n pc, late_stack, sample_sys) =
       Some (TmFetch n (FetchAgain (sys_now sample_sys) (pdMS_TO_TICKS n) t), late_stack, sample_sys\<lparr>kern := k'\<rparr>)"
proof -
  have "can_block (kern sample_sys)" "settled (kern sample_sys)" using sample_can_block sample_settled by simp_all
  note W = stack_waits_for_timer [OF late_stack(1) sample_mailbox(2) sample_msg_place this sample_unlocked, where call = "\<lambda>h a s. Some s"]
  have p: "unat (sys_now sample_sys - timeouts_last_time late_stack) = 4" by (simp add: sample_now late_stack(2))
  have d: "\<not> fst (900 :: nat, 0x40 :: ptr, 1 :: ptr) \<le> 4" "fst (900 :: nat, 0x40 :: ptr, 1 :: ptr) - 4 = 896" by simp_all
  from W [unfolded p if_not_P [OF d(1)] d(2) Let_def]
  obtain n pc where n: "unat n = 896" "tm_step (\<lambda>h a s. Some s) 0x500 0x2100 (TmStart, late_stack, sample_sys) =
       Some (TmFetch n pc, late_stack, sample_sys)"
    and w: "unat (pdMS_TO_TICKS n) = unat n * 1000 mod 2 ^ 32 div 1000"
    and r: "if pdMS_TO_TICKS n = 0 then tm_step (\<lambda>h a s. Some s) 0x500 0x2100 (TmFetch n pc, late_stack, sample_sys) =
         Some (TmFetch n (FetchDone SYS_ARCH_TIMEOUT), late_stack, store_msg 0x2100 NULL sample_sys)
       else \<exists>t k'. tm_step (\<lambda>h a s. Some s) 0x500 0x2100 (TmFetch n pc, late_stack, sample_sys) =
         Some (TmFetch n (FetchAgain (sys_now sample_sys) (pdMS_TO_TICKS n) t), late_stack, sample_sys\<lparr>kern := k'\<rparr>) \<and>
         blocked_on (WaitReceiveL 0x500) (pdMS_TO_TICKS n) (kern sample_sys) k'" by blast
  have "pdMS_TO_TICKS n \<noteq> 0" using w n(1) by auto
  with n r show ?thesis by (simp only: if_False) blast
qed

text \<open>C39. \<open>sys_mbox_trypost\<close> reports success whether or not the message was posted: with room in the mailbox the
  message is its last one, and without room it is lost, \<open>ERR_OK\<close> being returned all the same; messages already there
  stay, and \<open>sys_arch_mbox_tryfetch\<close> hands them out in order.\<close>

theorem trypost_reports_success:
  assumes "mailbox Ls q s xs" and "fifo_buffer q p s"
  shows "\<exists>s'. sys_mbox_trypost q p x s = Some (ERR_OK, s') \<and>
       mailbox Ls q s' (if length xs < unat (uxLength (queues s q)) then xs @ [x] else xs) \<and>
     (\<exists>s'. sys_arch_mbox_tryfetch q p s = Some (if xs = [] then SYS_MBOX_EMPTY else 0, s') \<and> mailbox Ls q s' (tl xs) \<and>
       bytes_word (bytes p 4 (mem s')) = (if xs = [] then NULL else hd xs))"
  using trypost_spec [OF assms, of x] tryfetch_spec [OF assms] by blast

theorem trypost_reports_success_witness:
  "\<exists>s'. sys_mbox_trypost 0xC00 0x2100 0x1234 sample_sys = Some (ERR_OK, s') \<and>
     mailbox sample_Ls 0xC00 s' [0x09090907, 0x09090909]"
proof -
  have "unat (uxLength (queues sample_sys 0xC00)) = 2" by (simp only: sample_shape) simp
  with trypost_reports_success [OF sample_mailbox(1) sample_msg_place, where x = "0x1234"] show ?thesis by auto
qed

text \<open>C40. \<open>sys_mbox_post\<close> loses no message: a task that posts to a full mailbox, no other task waiting to post to it, blocks; when another task has
  taken the first message it is ready again, and its next pass puts its own message behind the others.\<close>

theorem post_completes:
  assumes "mailbox Ls q s (x # xs)" and "length (x # xs) = unat (uxLength (queues s q))"
    and "fifo_buffer q p s" and "fifo_buffer q b s" and "unat p + 4 \<le> unat b \<or> unat b + 4 \<le> unat p"
    and "can_block (kern s)" and "settled (kern s)" and "unlocked q s" and "waiters (WaitSendL q) (kern s) = []"
  defines "c \<equiv> pxCurrentTCB (kern s)"
  shows "\<exists>w t s1 s2 s3. post_step q p (sys_mbox_post p y s) = Some (PostAgain w t, s1) \<and> pxCurrentTCB (kern s1) \<noteq> c \<and>
     sys_arch_mbox_tryfetch q b s1 = Some (0, s2) \<and> bytes_word (bytes b 4 (mem s2)) = x \<and>
     cont_of (kern s2) (StateItem c) = Some (ReadyL (unat (prio (kern s) c))) \<and>
     post_step q p (PostAgain w t, s2) = Some (PostDone, s3) \<and> mailbox Ls q s3 (xs @ [y])"
  using post_blocks_and_completes [OF assms(1-9), of y] unfolding c_def .

theorem post_completes_witness:
  "\<exists>w t s1 s2 s3. post_step 0xC00 0x2100 (sys_mbox_post 0x2100 0x1234 sample_sys) = Some (PostAgain w t, s1) \<and>
     sys_arch_mbox_tryfetch 0xC00 0x2000 s1 = Some (0, s2) \<and>
     post_step 0xC00 0x2100 (PostAgain w t, s2) = Some (PostDone, s3) \<and> mailbox sample_Ls 0xC00 s3 [0x09090909, 0x1234]"
proof -
  have l: "length [0x09090907, 0x09090909 :: ptr] = unat (uxLength (queues sample_sys 0xC00))" by (simp only: sample_shape) simp
  have k: "can_block (kern sample_sys)" "settled (kern sample_sys)" "waiters (WaitSendL 0xC00) (kern sample_sys) = []"
    using sample_can_block sample_settled by simp_all
  have d: "unat (0x2100 :: ptr) + 4 \<le> unat (0x2000 :: ptr) \<or> unat (0x2000 :: ptr) + 4 \<le> unat (0x2100 :: ptr)" by simp
  have b: "fifo_buffer 0xC00 0x2100 sample_sys" "fifo_buffer 0xC00 0x2000 sample_sys"
    using sample_msg_place sample_buffer by simp_all
  from post_completes [OF sample_mailbox(1) l b d k(1,2) sample_unlocked k(3), of "0x1234"] show ?thesis
    by (simp del: post_step.simps) blast
qed

end
